(* ===== verification/Prelude.thy ===== *)
theory Prelude
  imports Main "HOL-Library.Word"
begin

unbundle bit_operations_syntax

text \<open>
  Shared ground of the development: the machine integer types of the Rust sources, the outcome
  type of code that may panic, the checked arithmetic of the Rust standard library, and the
  generic lemmas on words, powers of two and lists that the component theories use.

  A Rust function that can panic is a HOL function into \<open>panic + 'a\<close>: \<open>Inl p\<close> is the unwinding
  with the kind of panic, \<open>Inr x\<close> the ordinary return. Rust's own \<open>Option\<close> and \<open>Result\<close> values
  are \<open>option\<close> and sums inside that. A pointer-sized integer (\<open>usize\<close>) is a \<open>nat\<close> where it only
  indexes a slice and a 64-bit word where its width matters: the supported targets are 64-bit.
\<close>

section \<open>Machine integers and outcomes\<close>

type_synonym u8 = "8 word"
type_synonym u16 = "16 word"
type_synonym u32 = "32 word"
type_synonym u64 = "64 word"
type_synonym usize = "64 word"

text \<open>
  The kinds of panic the modelled code has: an explicit \<open>panic!\<close> or a failed \<open>assert!\<close>, a failed
  \<open>expect\<close> or \<open>unwrap\<close>, an index or slice out of bounds, a division by zero, and a subtraction of
  naturals below zero or an arithmetic result that does not fit.
\<close>

datatype panic = Panicked | ExpectFailed | IndexOutOfBounds | DivideByZero | ArithmeticOverflow

type_synonym 'a outcome = "panic + 'a"

definition and_then :: "'e + 'a \<Rightarrow> ('a \<Rightarrow> 'e + 'b) \<Rightarrow> 'e + 'b" where
  "and_then m f = (case m of Inl e \<Rightarrow> Inl e | Inr x \<Rightarrow> f x)"

definition map_ok :: "('a \<Rightarrow> 'b) \<Rightarrow> 'e + 'a \<Rightarrow> 'e + 'b" where
  "map_ok f m = and_then m (\<lambda>x. Inr (f x))"

definition assert_or :: "'e \<Rightarrow> bool \<Rightarrow> 'e + unit" where
  "assert_or e b = (if b then Inr () else Inl e)"

definition expect :: "'a option \<Rightarrow> 'a outcome" where
  "expect m = (case m of None \<Rightarrow> Inl ExpectFailed | Some x \<Rightarrow> Inr x)"

text \<open>\<open>returns m P\<close>: the computation returns, and what it returns satisfies \<open>P\<close>.\<close>

definition returns :: "'e + 'a \<Rightarrow> ('a \<Rightarrow> bool) \<Rightarrow> bool" where
  "returns m P = (case m of Inl _ \<Rightarrow> False | Inr x \<Rightarrow> P x)"

text \<open>A fallible computation on each element of a list, stopping at the first failure.\<close>

fun collect_ok :: "('a \<Rightarrow> 'e + 'b) \<Rightarrow> 'a list \<Rightarrow> 'e + 'b list" where
  "collect_ok f [] = Inr []"
| "collect_ok f (x # xs) = and_then (f x) (\<lambda>y. map_ok (\<lambda>ys. y # ys) (collect_ok f xs))"

text \<open>\<open>Iterator::position\<close>: the index of the first element that satisfies the predicate.\<close>

fun position :: "('a \<Rightarrow> bool) \<Rightarrow> 'a list \<Rightarrow> nat option" where
  "position P [] = None"
| "position P (x # xs) = (if P x then Some 0 else map_option Suc (position P xs))"

section \<open>Checked arithmetic of the standard library\<close>

definition checked_add :: "'a::len word \<Rightarrow> 'a word \<Rightarrow> 'a word option" where
  "checked_add a b = (if unat a + unat b < 2 ^ LENGTH('a) then Some (a + b) else None)"

definition checked_sub :: "'a::len word \<Rightarrow> 'a word \<Rightarrow> 'a word option" where
  "checked_sub a b = (if b \<le> a then Some (a - b) else None)"

definition checked_shl :: "'a::len word \<Rightarrow> u32 \<Rightarrow> 'a word option" where
  "checked_shl a n = (if unat n < LENGTH('a) then Some (push_bit (unat n) a) else None)"

text \<open>The plain operators, which panic on overflow.\<close>

definition sub_word :: "'a::len word \<Rightarrow> 'a word \<Rightarrow> 'a word outcome" where
  "sub_word a b = (if b \<le> a then Inr (a - b) else Inl ArithmeticOverflow)"

definition mul_word :: "'a::len word \<Rightarrow> 'a word \<Rightarrow> 'a word outcome" where
  "mul_word a b = (if unat a * unat b < 2 ^ LENGTH('a) then Inr (a * b) else Inl ArithmeticOverflow)"

definition div_ceil :: "nat \<Rightarrow> nat \<Rightarrow> nat" where
  "div_ceil a b = (a + b - 1) div b"

definition u32_try_from :: "nat \<Rightarrow> u32 option" where
  "u32_try_from n = (if n < 2 ^ 32 then Some (word_of_nat n) else None)"

definition u64_try_from :: "nat \<Rightarrow> u64 option" where
  "u64_try_from n = (if n < 2 ^ 64 then Some (word_of_nat n) else None)"

text \<open>\<open>u64::from_le_bytes\<close>, \<open>u64::to_le_bytes\<close> and the big-endian forms, on arrays of eight bytes.\<close>

fun le_value :: "u8 list \<Rightarrow> nat" where
  "le_value [] = 0"
| "le_value (b # bs) = unat b + 256 * le_value bs"

fun le_digits :: "nat \<Rightarrow> nat \<Rightarrow> u8 list" where
  "le_digits 0 v = []"
| "le_digits (Suc n) v = word_of_nat v # le_digits n (v div 256)"

definition u64_from_le_bytes :: "u8 list \<Rightarrow> u64" where
  "u64_from_le_bytes bs = word_of_nat (le_value bs)"

definition u64_from_be_bytes :: "u8 list \<Rightarrow> u64" where
  "u64_from_be_bytes bs = word_of_nat (le_value (rev bs))"

definition u64_to_le_bytes :: "u64 \<Rightarrow> u8 list" where
  "u64_to_le_bytes v = le_digits 8 (unat v)"

definition u64_to_be_bytes :: "u64 \<Rightarrow> u8 list" where
  "u64_to_be_bytes v = rev (le_digits 8 (unat v))"

text \<open>\<open>count_ones\<close>, \<open>leading_zeros\<close> and \<open>leading_ones\<close> of the primitive integers.\<close>

definition bits_desc :: "'a::len word \<Rightarrow> bool list" where
  "bits_desc w = map (bit w) (rev [0..<LENGTH('a)])"

definition count_ones_prim :: "'a::len word \<Rightarrow> u32" where
  "count_ones_prim w = word_of_nat (length (filter id (bits_desc w)))"

definition leading_zeros_prim :: "'a::len word \<Rightarrow> u32" where
  "leading_zeros_prim w = word_of_nat (length (takeWhile (\<lambda>b. \<not> b) (bits_desc w)))"

definition leading_ones_prim :: "'a::len word \<Rightarrow> u32" where
  "leading_ones_prim w = word_of_nat (length (takeWhile id (bits_desc w)))"

text \<open>The number of binary digits of a natural, without leading zeros.\<close>

fun bit_length :: "nat \<Rightarrow> nat" where
  "bit_length v = (if v = 0 then 0 else Suc (bit_length (v div 2)))"

declare bit_length.simps [simp del]

named_theorems outcome_simps \<open>equations of the outcome combinators\<close>

section \<open>Lemmas on outcomes\<close>

lemma and_then_Inl [simp]: "and_then (Inl e) f = Inl e"
  and and_then_Inr [simp]: "and_then (Inr x) f = f x"
  by (simp_all add: and_then_def)

lemma map_ok_Inl [simp]: "map_ok f (Inl e) = Inl e"
  and map_ok_Inr [simp]: "map_ok f (Inr x) = Inr (f x)"
  by (simp_all add: map_ok_def)

lemma assert_or_True [simp]: "assert_or e True = Inr ()"
  and assert_or_False [simp]: "assert_or e False = Inl e"
  by (simp_all add: assert_or_def)

lemma expect_Some [simp]: "expect (Some x) = Inr x"
  and expect_None [simp]: "expect None = Inl ExpectFailed"
  by (simp_all add: expect_def)

lemma and_then_eq_Inr_iff [outcome_simps]:
  "and_then m f = Inr y \<longleftrightarrow> (\<exists>x. m = Inr x \<and> f x = Inr y)"
  by (cases m) auto

lemma and_then_eq_Inl_iff [outcome_simps]:
  "and_then m f = Inl e \<longleftrightarrow> m = Inl e \<or> (\<exists>x. m = Inr x \<and> f x = Inl e)"
  by (cases m) auto

lemma assert_or_eq_Inr_iff [outcome_simps]: "assert_or e b = Inr u \<longleftrightarrow> b"
  by (simp add: assert_or_def)

lemma map_ok_eq_Inr_iff [outcome_simps]: "map_ok f m = Inr y \<longleftrightarrow> (\<exists>x. m = Inr x \<and> y = f x)"
  by (cases m) auto

lemma expect_eq_Inr_iff [outcome_simps]: "expect m = Inr y \<longleftrightarrow> m = Some y"
  by (cases m) auto

lemma collect_ok_all:
  "(\<And>x. x \<in> set xs \<Longrightarrow> f x = Inr (g x)) \<Longrightarrow> collect_ok f xs = Inr (map g xs)"
  by (induction xs) (simp_all add: map_ok_def and_then_def)

lemma position_Some_iff:
  "position P xs = Some i \<longleftrightarrow> i < length xs \<and> P (xs ! i) \<and> (\<forall>j < i. \<not> P (xs ! j))"
proof (induction xs arbitrary: i)
  case (Cons x xs)
  then show ?case by (cases i) (auto simp: less_Suc_eq_0_disj)
qed simp

lemma position_None_iff: "position P xs = None \<longleftrightarrow> (\<forall>x \<in> set xs. \<not> P x)"
  by (induction xs) auto

lemma returns_Inr [simp]: "returns (Inr x) P = P x"
  and returns_Inl [simp]: "returns (Inl e) P = False"
  by (simp_all add: returns_def)

lemma returns_and_then [simp]: "returns (and_then m f) P = returns m (\<lambda>x. returns (f x) P)"
  by (cases m) simp_all

lemma returns_mono: "returns m P \<Longrightarrow> (\<And>x. P x \<Longrightarrow> Q x) \<Longrightarrow> returns m Q"
  by (cases m) simp_all

lemma returns_iff: "returns m P \<longleftrightarrow> (\<exists>x. m = Inr x \<and> P x)"
  by (cases m) auto

section \<open>Lemmas on words and powers of two\<close>

lemma unat_lt_pow: "unat (a :: 'a::len word) < 2 ^ LENGTH('a)"
  by (rule unsigned_less)

lemma unat_lt_u64 [simp]: "unat (a :: u64) < 18446744073709551616"
  using unat_lt_pow [of a] by simp

lemma unat_word_of_nat: "unat (word_of_nat n :: 'a::len word) = n mod 2 ^ LENGTH('a)"
  by (simp add: unsigned_of_nat take_bit_eq_mod)

lemma unat_word_of_nat_small: "n < 2 ^ LENGTH('a) \<Longrightarrow> unat (word_of_nat n :: 'a::len word) = n"
  by (simp add: unat_word_of_nat)

lemma checked_add_Some_iff:
  "checked_add a b = Some c \<longleftrightarrow> unat a + unat b < 2 ^ LENGTH('a) \<and> c = a + (b :: 'a::len word)"
  by (auto simp: checked_add_def)

lemma unat_add_no_wrap: "unat a + unat b < 2 ^ LENGTH('a) \<Longrightarrow> unat (a + b :: 'a::len word) = unat a + unat b"
  by (simp add: unat_word_ariths)

lemma unat_sub_no_wrap: "b \<le> a \<Longrightarrow> unat (a - b :: 'a::len word) = unat a - unat b"
  by (simp add: unat_sub)

lemma mod_pow_le_mod_mod: "k \<le> n \<Longrightarrow> (v :: nat) mod 2 ^ n mod 2 ^ k = v mod 2 ^ k"
  by (simp add: mod_mod_cancel le_imp_power_dvd)

lemma half_pow: "0 < n \<Longrightarrow> (2 :: nat) ^ n = 2 * 2 ^ (n - 1)"
  by (cases n) simp_all

lemma half_pow_int: "0 < n \<Longrightarrow> (2 :: int) ^ n = 2 * 2 ^ (n - 1)"
  by (cases n) simp_all

lemma pow_pred_less: "0 < n \<Longrightarrow> (2 :: nat) ^ (n - 1) < 2 ^ n"
  by (cases n) simp_all

lemma int_less_pow: "v < 2 ^ n \<Longrightarrow> int v < 2 ^ n"
  by (metis of_nat_less_iff of_nat_numeral of_nat_power)

lemma int_le_pow: "int v < 2 ^ n \<longleftrightarrow> v < 2 ^ n"
  by (metis of_nat_less_iff of_nat_numeral of_nat_power)

lemma uint_push_bit: "uint (push_bit k (w :: 'a::len word)) = (uint w * 2 ^ k) mod 2 ^ LENGTH('a)"
  unfolding unsigned_push_bit_eq by (simp add: push_bit_eq_mult take_bit_eq_mod)

lemma unat_pow2: "k < LENGTH('a) \<Longrightarrow> unat (2 ^ k :: 'a::len word) = 2 ^ k"
proof -
  assume k: "k < LENGTH('a)"
  have "unat (word_of_nat (2 ^ k) :: 'a word) = 2 ^ k"
    using k by (intro unat_word_of_nat_small) simp
  then show ?thesis by simp
qed

lemma unat_mask: "unat (mask n :: 'a::len word) = 2 ^ min LENGTH('a) n - 1"
proof -
  have "int (unat (mask n :: 'a word)) = int (mask (min LENGTH('a) n))"
    by (simp add: uint_mask_eq of_nat_mask_eq)
  then have "unat (mask n :: 'a word) = mask (min LENGTH('a) n)" by (simp only: of_nat_eq_iff)
  then show ?thesis by (simp only: mask_eq_exp_minus_1 [of "min LENGTH('a) n"])
qed

lemma bit_top_iff:
  assumes "0 < n" "v < 2 ^ n"
  shows "bit (v :: nat) (n - 1) \<longleftrightarrow> 2 ^ (n - 1) \<le> v"
proof (cases "2 ^ (n - 1) \<le> v")
  case True
  then have "v div 2 ^ (n - 1) = 1"
    using assms by (intro div_nat_eqI) (simp_all add: half_pow [OF assms(1)])
  with True show ?thesis by (simp add: bit_iff_odd)
next
  case False
  then show ?thesis by (simp add: bit_iff_odd)
qed

lemma bit_length_le_iff: "bit_length v \<le> n \<longleftrightarrow> v < 2 ^ n"
proof (induction n arbitrary: v)
  case 0
  then show ?case by (simp add: bit_length.simps)
next
  case (Suc n)
  have "bit_length v \<le> Suc n \<longleftrightarrow> v = 0 \<or> bit_length (v div 2) \<le> n"
    by (subst bit_length.simps) simp
  also have "\<dots> \<longleftrightarrow> v < 2 ^ Suc n" by (auto simp: Suc.IH)
  finally show ?case .
qed

lemma bit_length_unique: "v < 2 ^ k \<Longrightarrow> (\<And>n. v < 2 ^ n \<Longrightarrow> k \<le> n) \<Longrightarrow> k = bit_length v"
  using bit_length_le_iff [of v "bit_length v"] bit_length_le_iff [of v k]
  by (metis dual_order.antisym order_refl)

lemma leading_zeros_run:
  "v < 2 ^ n \<Longrightarrow> length (takeWhile (\<lambda>b. \<not> b) (map (bit v) (rev [0..<n]))) = n - bit_length v"
proof (induction n)
  case 0
  then show ?case by simp
next
  case (Suc n)
  have top: "bit v n \<longleftrightarrow> 2 ^ n \<le> v" using bit_top_iff [of "Suc n" v] Suc.prems by simp
  show ?case
  proof (cases "bit v n")
    case True
    then have "\<not> bit_length v \<le> n" using top by (simp add: bit_length_le_iff)
    with True show ?thesis by simp
  next
    case False
    then have "v < 2 ^ n" using top by simp
    with False Suc.IH bit_length_le_iff [of v n] show ?thesis by simp
  qed
qed

lemma ones_run:
  "length (filter id (map (bit v) (rev [0..<n]))) = card {i. i < n \<and> bit v i}"
proof -
  have "length (filter id (map (bit v) (rev [0..<n]))) = length (filter (bit v) [0..<n])"
    by (simp add: filter_map comp_def flip: rev_filter rev_map)
  also have "\<dots> = card {i. i < n \<and> bit v i}"
    by (simp add: length_filter_conv_card) (metis (no_types, lifting) nth_upt plus_nat.add_0)
  finally show ?thesis .
qed

lemma bit_unat_map: "map (bit (unat (w :: 'a::len word))) (rev [0..<LENGTH('a)]) = bits_desc w"
  by (simp add: bits_desc_def bit_unsigned_iff)

lemma leading_zeros_prim_eq: "leading_zeros_prim (w :: 'a::len word) = word_of_nat (LENGTH('a) - bit_length (unat w))"
  using leading_zeros_run [OF unat_lt_pow [of w]] by (simp add: leading_zeros_prim_def bit_unat_map)

lemma count_ones_prim_eq: "count_ones_prim (w :: 'a::len word) = word_of_nat (card {i. bit (unat w) i})"
proof -
  have "{i. i < LENGTH('a) \<and> bit (unat w) i} = {i. bit (unat w) i}"
    by (auto simp: bit_unsigned_iff dest: bit_imp_le_length)
  then show ?thesis
    using ones_run [of "unat w" "LENGTH('a)"] by (simp add: count_ones_prim_def bit_unat_map)
qed

lemma card_bits_le: "v < 2 ^ n \<Longrightarrow> card {i. bit (v :: nat) i} \<le> n"
proof -
  assume "v < 2 ^ n"
  then have "{i. bit v i} \<subseteq> {..<n}"
    by (auto simp: bit_iff_odd) (metis div_less dvd_0_right leI less_le_trans one_le_numeral power_increasing)
  then show ?thesis using card_mono [of "{..<n}" "{i. bit v i}"] by simp
qed

lemma set_bit_less: "v < 2 ^ n \<Longrightarrow> i < n \<Longrightarrow> set_bit i (v :: nat) < 2 ^ n"
proof -
  assume v: "v < 2 ^ n" and i: "i < n"
  have "take_bit n (set_bit i v) = set_bit i (take_bit n v)"
    using i by (simp add: take_bit_set_bit_eq)
  also have "take_bit n v = v" using v by (simp add: take_bit_nat_eq_self)
  finally show ?thesis by (simp add: take_bit_nat_eq_self_iff)
qed

section \<open>Runs and indexing\<close>

text \<open>
  A loop whose end is not evident from its state runs into \<open>'a run\<close>: \<open>None\<close> is a loop that does not
  end, \<open>Some (Inl p)\<close> a panic, \<open>Some (Inr x)\<close> a return.
\<close>

type_synonym 'a run = "'a outcome option"

definition run_then :: "'a run \<Rightarrow> ('a \<Rightarrow> 'b run) \<Rightarrow> 'b run" where
  "run_then m f = (case m of None \<Rightarrow> None | Some (Inl p) \<Rightarrow> Some (Inl p) | Some (Inr x) \<Rightarrow> f x)"

lemma run_then_simps [simp]:
  "run_then None f = None" "run_then (Some (Inl p)) f = Some (Inl p)" "run_then (Some (Inr x)) f = f x"
  by (simp_all add: run_then_def)

lemma run_then_bind: "run_then m f = Option.bind m (\<lambda>r. case r of Inl p \<Rightarrow> Some (Inl p) | Inr x \<Rightarrow> f x)"
  by (cases m) (auto simp: run_then_def split: sum.splits)

lemma run_then_mono [partial_function_mono]:
  assumes "mono_option B" "\<And>y. mono_option (C y)"
  shows "mono_option (\<lambda>f. run_then (B f) (\<lambda>y. C y f))"
  unfolding run_then_bind
proof (rule bind_mono [OF assms(1)])
  fix r show "mono_option (\<lambda>f. case r of Inl p \<Rightarrow> Some (Inl p) | Inr x \<Rightarrow> C x f)"
    by (cases r) (simp_all add: assms(2) option.const_mono)
qed

definition get_at :: "'a list \<Rightarrow> nat \<Rightarrow> 'a outcome" where
  "get_at xs i = (if i < length xs then Inr (xs ! i) else Inl IndexOutOfBounds)"

definition put_at :: "'a list \<Rightarrow> nat \<Rightarrow> 'a \<Rightarrow> 'a list outcome" where
  "put_at xs i v = (if i < length xs then Inr (xs[i := v]) else Inl IndexOutOfBounds)"

definition lookup_at :: "'a list \<Rightarrow> nat \<Rightarrow> 'a option" where
  "lookup_at xs i = (if i < length xs then Some (xs ! i) else None)"

end
