(* ===== verification/BitVector.thy ===== *)
theory BitVector
  imports Prelude
begin

unbundle bit_operations_syntax

text \<open>
  The bit vectors of \<open>fugue-bv/src/lib.rs\<close>: a width of 1 to \<open>MAX_BITS\<close> bits and a signedness flag
  packed into \<open>meta\<close>, and a value kept in a machine word up to 64 bits (\<open>Small\<close>) and in a big
  natural above (\<open>Large\<close>). The source's union has no tag of its own: \<open>meta\<close> says which field is
  live. The model's \<open>bv_repr\<close> is tagged, and the invariant \<open>wf_bv\<close> says that the tag is the one
  \<open>meta\<close> promises, so that no operation reads the wrong field of the union.

  The big naturals and integers are those of the crate malachite, which is not part of the
  repository. Their values are the HOL naturals and integers, with the operators \<open>+\<close>, \<open>*\<close>,
  \<open>/\<close>, \<open>%\<close>, \<open>&\<close>, \<open>|\<close>, \<open>^\<close>, the shifts and the comparisons; the crate's named functions are the
  fields of the record \<open>malachite\<close>, an argument of every operation that reaches one of them, and
  \<open>malachite_ok\<close> states what their documentation promises.
\<close>

section \<open>The functions of the big number crate\<close>

record malachite =
  nt_mod_power_of_2 :: "nat \<Rightarrow> nat \<Rightarrow> nat"
  it_mod_power_of_2 :: "int \<Rightarrow> nat \<Rightarrow> nat"
  nt_low_mask :: "nat \<Rightarrow> nat"
  nt_power_of_2 :: "nat \<Rightarrow> nat"
  nt_set_bit :: "nat \<Rightarrow> nat \<Rightarrow> nat"
  nt_get_bit :: "nat \<Rightarrow> nat \<Rightarrow> bool"
  nt_count_ones :: "nat \<Rightarrow> nat"
  nt_significant_bits :: "nat \<Rightarrow> nat"
  nt_from_digits_asc :: "u8 list \<Rightarrow> nat"
  nt_from_digits_desc :: "u8 list \<Rightarrow> nat"
  nt_to_digits_asc :: "nat \<Rightarrow> u8 list"
  nt_to_digits_desc :: "nat \<Rightarrow> u8 list"
  nt_gcd :: "nat \<Rightarrow> nat \<Rightarrow> nat"
  nt_lcm :: "nat \<Rightarrow> nat \<Rightarrow> nat"
  u64_gcd :: "u64 \<Rightarrow> u64 \<Rightarrow> u64"
  u64_lcm :: "u64 \<Rightarrow> u64 \<Rightarrow> u64 outcome"
  i64_extended_gcd :: "int \<Rightarrow> int \<Rightarrow> u64 \<times> int \<times> int"
  it_extended_gcd :: "int \<Rightarrow> int \<Rightarrow> nat \<times> int \<times> int"

text \<open>
  \<open>Natural - Natural\<close> panics below zero. The number of significant bits of a natural is the
  number of binary digits without leading zeros; the base-256 digits come without leading zeros.
\<close>

definition nt_sub :: "nat \<Rightarrow> nat \<Rightarrow> nat outcome" where
  "nt_sub a b = (if b \<le> a then Inr (a - b) else Inl ArithmeticOverflow)"

section \<open>Representation\<close>

datatype bv_repr = Small u64 | Large nat

record bitvec =
  bv_value :: bv_repr
  bv_meta :: u32

definition MAX_BITS :: u32 where
  "MAX_BITS = drop_bit 1 (- 1)"

definition mask_u64 :: "u32 \<Rightarrow> u64" where
  "mask_u64 bts = (case checked_shl 1 bts of None \<Rightarrow> 0 | Some v \<Rightarrow> v) - 1"

definition pack_meta :: "bool \<Rightarrow> u32 \<Rightarrow> u32 outcome" where
  "pack_meta sign bts =
     and_then (assert_or Panicked (1 \<le> bts \<and> bts \<le> MAX_BITS))
       (\<lambda>_. Inr (push_bit 1 bts OR (if sign then 1 else 0)))"

definition bits :: "bitvec \<Rightarrow> u32" where
  "bits b = drop_bit 1 (bv_meta b)"

abbreviation nbits :: "bitvec \<Rightarrow> nat" where
  "nbits b \<equiv> unat (bits b)"

definition is_signed :: "bitvec \<Rightarrow> bool" where
  "is_signed b \<longleftrightarrow> bv_meta b AND 1 \<noteq> 0"

definition is_unsigned :: "bitvec \<Rightarrow> bool" where
  "is_unsigned b \<longleftrightarrow> \<not> is_signed b"

definition is_small :: "bitvec \<Rightarrow> bool" where
  "is_small b \<longleftrightarrow> bits b \<le> 64"

text \<open>
  Reading the field that is not live is undefined behaviour in the source, which its debug assertions
  catch; \<open>wf_bv\<close> rules it out. The accessors and the constructors of the two representations are
  modelled without these assertions.
\<close>

definition small :: "bitvec \<Rightarrow> u64" where
  "small b = (case bv_value b of Small v \<Rightarrow> v | Large _ \<Rightarrow> 0)"

definition large :: "bitvec \<Rightarrow> nat" where
  "large b = (case bv_value b of Small _ \<Rightarrow> 0 | Large n \<Rightarrow> n)"

definition from_small :: "u64 \<Rightarrow> u32 \<Rightarrow> bitvec" where
  "from_small v meta = \<lparr>bv_value = Small (v AND mask_u64 (drop_bit 1 meta)), bv_meta = meta\<rparr>"

definition from_large :: "malachite \<Rightarrow> nat \<Rightarrow> u32 \<Rightarrow> bitvec" where
  "from_large M v meta =
     \<lparr>bv_value = Large (nt_mod_power_of_2 M v (unat (drop_bit 1 meta))), bv_meta = meta\<rparr>"

definition set_small :: "bitvec \<Rightarrow> u64 \<Rightarrow> bitvec" where
  "set_small b v = b\<lparr>bv_value := Small (v AND mask_u64 (bits b))\<rparr>"

definition set_large :: "bitvec \<Rightarrow> nat \<Rightarrow> bitvec" where
  "set_large b n = b\<lparr>bv_value := Large n\<rparr>"

definition mask_large_assign :: "malachite \<Rightarrow> bitvec \<Rightarrow> bitvec" where
  "mask_large_assign M b = set_large b (nt_mod_power_of_2 M (large b) (nbits b))"

section \<open>Constructors\<close>

definition from_bigint :: "malachite \<Rightarrow> int \<Rightarrow> u32 \<Rightarrow> bitvec outcome" where
  "from_bigint M v bts =
     and_then (pack_meta False bts) (\<lambda>meta.
       let r = it_mod_power_of_2 M v (unat bts) in
       if bts \<le> 64 then and_then (expect (u64_try_from r)) (\<lambda>w. Inr (from_small w meta))
       else Inr (from_large M r meta))"

text \<open>
  The macro \<open>impl_from_prim!\<close> generates \<open>from_i8\<close> to \<open>from_usize\<close>: the argument is the primitive's
  value, wrapped to 64 bits or reduced as a big integer.
\<close>

definition from_prim :: "malachite \<Rightarrow> int \<Rightarrow> u32 \<Rightarrow> bitvec outcome" where
  "from_prim M v bts =
     and_then (pack_meta False bts) (\<lambda>meta.
       if bts \<le> 64 then Inr (from_small (word_of_int v) meta)
       else Inr (from_large M (it_mod_power_of_2 M v (unat bts)) meta))"

definition from_u64 :: "malachite \<Rightarrow> u64 \<Rightarrow> u32 \<Rightarrow> bitvec outcome" where
  "from_u64 M v bts = from_prim M (uint v) bts"

definition zero :: "malachite \<Rightarrow> u32 \<Rightarrow> bitvec outcome" where
  "zero M bts = from_u64 M 0 bts"

definition one :: "malachite \<Rightarrow> u32 \<Rightarrow> bitvec outcome" where
  "one M bts = from_u64 M 1 bts"

definition max_value_with :: "malachite \<Rightarrow> u32 \<Rightarrow> bool \<Rightarrow> bitvec outcome" where
  "max_value_with M bts sg =
     and_then (pack_meta sg bts) (\<lambda>meta.
       if bts \<le> 64 then
         let msk = mask_u64 bts in Inr (from_small (if sg then drop_bit 1 msk else msk) meta)
       else
         let msk = nt_low_mask M (unat bts)
         in Inr (from_large M (if sg then drop_bit 1 msk else msk) meta))"

definition min_value_with :: "malachite \<Rightarrow> u32 \<Rightarrow> bool \<Rightarrow> bitvec outcome" where
  "min_value_with M bts sg =
     and_then (pack_meta sg bts) (\<lambda>meta.
       if \<not> sg then
         (if bts \<le> 64 then Inr (from_small 0 meta) else Inr (from_large M 0 meta))
       else if bts \<le> 64 then Inr (from_small (push_bit (unat (bts - 1)) 1) meta)
       else Inr (from_large M (nt_power_of_2 M (unat (bts - 1))) meta))"

definition expect_buffer_size :: "nat \<Rightarrow> u32 \<Rightarrow> unit outcome" where
  "expect_buffer_size len bts = assert_or Panicked (len = div_ceil (unat bts) 8)"

definition from_be_bytes_with :: "malachite \<Rightarrow> u8 list \<Rightarrow> u32 \<Rightarrow> bitvec outcome" where
  "from_be_bytes_with M buffer bts =
     and_then (pack_meta False bts) (\<lambda>meta.
     and_then (expect_buffer_size (length buffer) bts) (\<lambda>_.
       if bts \<le> 64 then
         Inr (from_small (u64_from_be_bytes (replicate (8 - length buffer) 0 @ buffer)) meta)
       else Inr (from_large M (nt_from_digits_desc M buffer) meta)))"

definition from_le_bytes_with :: "malachite \<Rightarrow> u8 list \<Rightarrow> u32 \<Rightarrow> bitvec outcome" where
  "from_le_bytes_with M buffer bts =
     and_then (pack_meta False bts) (\<lambda>meta.
     and_then (expect_buffer_size (length buffer) bts) (\<lambda>_.
       if bts \<le> 64 then
         Inr (from_small (u64_from_le_bytes (buffer @ replicate (8 - length buffer) 0)) meta)
       else Inr (from_large M (nt_from_digits_asc M buffer) meta)))"

definition from_be_bytes :: "malachite \<Rightarrow> u8 list \<Rightarrow> bitvec outcome" where
  "from_be_bytes M buffer = and_then (mul_word (word_of_nat (length buffer)) 8) (from_be_bytes_with M buffer)"

definition from_le_bytes :: "malachite \<Rightarrow> u8 list \<Rightarrow> bitvec outcome" where
  "from_le_bytes M buffer = and_then (mul_word (word_of_nat (length buffer)) 8) (from_le_bytes_with M buffer)"

section \<open>Queries\<close>

definition is_zero :: "bitvec \<Rightarrow> bool" where
  "is_zero b \<longleftrightarrow> (if is_small b then small b = 0 else large b = 0)"

definition is_one :: "bitvec \<Rightarrow> bool" where
  "is_one b \<longleftrightarrow> (if is_small b then small b = 1 else large b = 1)"

definition bit_at :: "malachite \<Rightarrow> bitvec \<Rightarrow> u32 \<Rightarrow> bool" where
  "bit_at M b index \<longleftrightarrow>
     (if is_small b then index < 64 \<and> drop_bit (unat index) (small b) AND 1 \<noteq> 0
      else nt_get_bit M (large b) (unat index))"

definition msb_bv :: "malachite \<Rightarrow> bitvec \<Rightarrow> bool" where
  "msb_bv M b = bit_at M b (bits b - 1)"

definition lsb_bv :: "malachite \<Rightarrow> bitvec \<Rightarrow> bool" where
  "lsb_bv M b = bit_at M b 0"

definition is_negative :: "malachite \<Rightarrow> bitvec \<Rightarrow> bool" where
  "is_negative M b \<longleftrightarrow> is_signed b \<and> msb_bv M b"

definition set_bit_bv :: "malachite \<Rightarrow> bitvec \<Rightarrow> u32 \<Rightarrow> bitvec" where
  "set_bit_bv M b index =
     (if bits b \<le> index then b
      else if is_small b then set_small b (small b OR push_bit (unat index) 1)
      else set_large b (nt_set_bit M (large b) (unat index)))"

definition signed_meta :: "u32 \<Rightarrow> u32" where
  "signed_meta m = m OR 1"

definition unsigned_meta :: "u32 \<Rightarrow> u32" where
  "unsigned_meta m = m AND NOT 1"

definition signed_bv :: "bitvec \<Rightarrow> bitvec" where
  "signed_bv b = b\<lparr>bv_meta := signed_meta (bv_meta b)\<rparr>"

definition unsigned_bv :: "bitvec \<Rightarrow> bitvec" where
  "unsigned_bv b = b\<lparr>bv_meta := unsigned_meta (bv_meta b)\<rparr>"

definition count_ones :: "malachite \<Rightarrow> bitvec \<Rightarrow> u32" where
  "count_ones M b =
     (if is_small b then count_ones_prim (small b) else word_of_nat (nt_count_ones M (large b)))"

definition count_zeros :: "malachite \<Rightarrow> bitvec \<Rightarrow> u32 outcome" where
  "count_zeros M b = sub_word (bits b) (count_ones M b)"

definition significant_bits :: "malachite \<Rightarrow> bitvec \<Rightarrow> u32" where
  "significant_bits M b =
     (if is_small b then 64 - leading_zeros_prim (small b)
      else word_of_nat (nt_significant_bits M (large b)))"

definition leading_zeros :: "malachite \<Rightarrow> bitvec \<Rightarrow> u32 outcome" where
  "leading_zeros M b = sub_word (bits b) (significant_bits M b)"

definition leading_ones :: "malachite \<Rightarrow> bitvec \<Rightarrow> u32 outcome" where
  "leading_ones M b =
     (if is_small b then Inr (leading_ones_prim (push_bit (unat (64 - bits b)) (small b)))
      else and_then (nt_sub (nt_low_mask M (nbits b)) (large b))
             (\<lambda>flipped. sub_word (bits b) (word_of_nat (nt_significant_bits M flipped))))"

definition leading_one :: "malachite \<Rightarrow> bitvec \<Rightarrow> u32 option" where
  "leading_one M b = checked_sub (significant_bits M b) 1"

definition bytes_bv :: "bitvec \<Rightarrow> nat" where
  "bytes_bv b = div_ceil (nbits b) 8"

definition expect_same_bits :: "bitvec \<Rightarrow> bitvec \<Rightarrow> unit outcome" where
  "expect_same_bits a b = assert_or Panicked (bits a = bits b)"

definition eq_bv :: "bitvec \<Rightarrow> bitvec \<Rightarrow> bool" where
  "eq_bv a b \<longleftrightarrow> bits a = bits b \<and> (if is_small a then small a = small b else large a = large b)"

datatype ordering = Less | Equal | Greater

definition compare :: "'a::linorder \<Rightarrow> 'a \<Rightarrow> ordering" where
  "compare a b = (if a < b then Less else if a = b then Equal else Greater)"

definition cmp_residue :: "bitvec \<Rightarrow> bitvec \<Rightarrow> ordering" where
  "cmp_residue a b = (if is_small a then compare (small a) (small b) else compare (large a) (large b))"

definition cmp_bv :: "bitvec \<Rightarrow> bitvec \<Rightarrow> ordering outcome" where
  "cmp_bv a b = and_then (expect_same_bits a b) (\<lambda>_. Inr (cmp_residue a b))"

definition signed_cmp :: "malachite \<Rightarrow> bitvec \<Rightarrow> bitvec \<Rightarrow> ordering outcome" where
  "signed_cmp M a b = and_then (expect_same_bits a b) (\<lambda>_.
     Inr (if msb_bv M a \<and> \<not> msb_bv M b then Less
          else if \<not> msb_bv M a \<and> msb_bv M b then Greater
          else cmp_residue a b))"

section \<open>What the big number crate promises\<close>

definition is_i64 :: "int \<Rightarrow> bool" where
  "is_i64 a \<longleftrightarrow> - (2 ^ 63) \<le> a \<and> a < 2 ^ 63"

definition malachite_ok :: "malachite \<Rightarrow> bool" where
  "malachite_ok M \<longleftrightarrow>
     (\<forall>v n. nt_mod_power_of_2 M v n = v mod 2 ^ n) \<and>
     (\<forall>v n. it_mod_power_of_2 M v n = nat (v mod 2 ^ n)) \<and>
     (\<forall>n. nt_low_mask M n = 2 ^ n - 1) \<and>
     (\<forall>n. nt_power_of_2 M n = 2 ^ n) \<and>
     (\<forall>v i. nt_set_bit M v i = set_bit i v) \<and>
     (\<forall>v i. nt_get_bit M v i = bit v i) \<and>
     (\<forall>v. nt_count_ones M v = card {i. bit v i}) \<and>
     (\<forall>v. v < 2 ^ nt_significant_bits M v) \<and>
     (\<forall>v n. v < 2 ^ n \<longrightarrow> nt_significant_bits M v \<le> n) \<and>
     (\<forall>bs. nt_from_digits_asc M bs = le_value bs) \<and>
     (\<forall>bs. nt_from_digits_desc M bs = le_value (rev bs)) \<and>
     (\<forall>v. le_value (nt_to_digits_asc M v) = v) \<and>
     (\<forall>v. nt_to_digits_asc M v \<noteq> [] \<longrightarrow> last (nt_to_digits_asc M v) \<noteq> 0) \<and>
     (\<forall>v. nt_to_digits_desc M v = rev (nt_to_digits_asc M v)) \<and>
     (\<forall>a b. nt_gcd M a b = gcd a b) \<and>
     (\<forall>a b. nt_lcm M a b = lcm a b) \<and>
     (\<forall>a b. unat (u64_gcd M a b) = gcd (unat a) (unat b)) \<and>
     (\<forall>a b. u64_lcm M a b =
        (if lcm (unat a) (unat b) < 2 ^ 64 then Inr (word_of_nat (lcm (unat a) (unat b)))
         else Inl ArithmeticOverflow)) \<and>
     (\<forall>a b. is_i64 a \<and> is_i64 b \<longrightarrow> (case i64_extended_gcd M a b of (g, x, y) \<Rightarrow>
        int (unat g) = gcd a b \<and> a * x + b * y = gcd a b)) \<and>
     (\<forall>a b. case it_extended_gcd M a b of (g, x, y) \<Rightarrow> int g = gcd a b \<and> a * x + b * y = gcd a b)"

lemma malachite_okD:
  assumes "malachite_ok M"
  shows "nt_mod_power_of_2 M v n = v mod 2 ^ n"
    and "it_mod_power_of_2 M w n = nat (w mod 2 ^ n)"
    and "nt_low_mask M n = 2 ^ n - 1"
    and "nt_power_of_2 M n = 2 ^ n"
    and "nt_set_bit M v i = set_bit i v"
    and "nt_get_bit M v i = bit v i"
    and "nt_count_ones M v = card {i. bit v i}"
    and "nt_from_digits_asc M bs = le_value bs"
    and "nt_from_digits_desc M bs = le_value (rev bs)"
    and "nt_gcd M v n = gcd v n"
    and "nt_lcm M v n = lcm v n"
    and "unat (u64_gcd M x y) = gcd (unat x) (unat y)"
  using assms by (simp_all add: malachite_ok_def)

lemma malachite_significant:
  assumes "malachite_ok M"
  shows "v < 2 ^ nt_significant_bits M v" and "v < 2 ^ n \<Longrightarrow> nt_significant_bits M v \<le> n"
  using assms by (simp_all add: malachite_ok_def)

lemma malachite_digits:
  assumes "malachite_ok M"
  shows "le_value (nt_to_digits_asc M v) = v"
    and "nt_to_digits_asc M v \<noteq> [] \<Longrightarrow> last (nt_to_digits_asc M v) \<noteq> 0"
    and "nt_to_digits_desc M v = rev (nt_to_digits_asc M v)"
  using assms by (simp_all add: malachite_ok_def)

section \<open>The invariant and the abstract value\<close>

text \<open>
  \<open>uval\<close> and \<open>sval\<close> read a vector as an unsigned number and in two's complement. \<open>mk_bv meta v\<close>
  is the vector of a given \<open>meta\<close> that stands for \<open>v\<close> modulo two to the width, in the
  representation the width asks for: the abstract side of every refinement lemma below.
\<close>

definition wf_bv :: "bitvec \<Rightarrow> bool" where
  "wf_bv b \<longleftrightarrow> 1 \<le> nbits b \<and>
     (case bv_value b of Small v \<Rightarrow> nbits b \<le> 64 \<and> unat v < 2 ^ nbits b
      | Large n \<Rightarrow> 64 < nbits b \<and> n < 2 ^ nbits b)"

definition uval :: "bitvec \<Rightarrow> nat" where
  "uval b = (case bv_value b of Small v \<Rightarrow> unat v | Large n \<Rightarrow> n)"

definition sval :: "bitvec \<Rightarrow> int" where
  "sval b = (if 2 ^ (nbits b - 1) \<le> uval b then int (uval b) - 2 ^ nbits b else int (uval b))"

text \<open>\<open>width m\<close> is the number of bits a packed \<open>meta\<close> stands for.\<close>

definition width :: "u32 \<Rightarrow> nat" where
  "width m = unat (drop_bit 1 m)"

definition mk_bv :: "u32 \<Rightarrow> nat \<Rightarrow> bitvec" where
  "mk_bv m v =
     \<lparr>bv_value = (if width m \<le> 64 then Small (word_of_nat (v mod 2 ^ width m))
                  else Large (v mod 2 ^ width m)),
      bv_meta = m\<rparr>"

lemma nbits_width: "nbits b = width (bv_meta b)"
  by (simp add: bits_def width_def)

lemma meta_mk_bv [simp]: "bv_meta (mk_bv m v) = m"
  by (simp add: mk_bv_def)

lemma nbits_mk_bv [simp]: "nbits (mk_bv m v) = width m"
  by (simp add: nbits_width)

lemma unat_small_residue:
  assumes "n \<le> 64"
  shows "unat (word_of_nat (v mod 2 ^ n) :: u64) = v mod 2 ^ n"
proof (rule unat_word_of_nat_small)
  have "v mod 2 ^ n < (2 :: nat) ^ n" by simp
  also have "\<dots> \<le> 2 ^ LENGTH(64)" using assms by (intro power_increasing) simp_all
  finally show "v mod 2 ^ n < 2 ^ LENGTH(64)" .
qed

lemma uval_mk_bv [simp]: "uval (mk_bv m v) = v mod 2 ^ width m"
  by (simp add: mk_bv_def uval_def unat_small_residue)

lemma wf_mk_bv [simp]: "wf_bv (mk_bv m v) \<longleftrightarrow> 0 < width m"
  by (simp add: wf_bv_def mk_bv_def nbits_width unat_small_residue Suc_le_eq)

lemma mk_bv_cong_mod: "v mod 2 ^ width m = w mod 2 ^ width m \<Longrightarrow> mk_bv m v = mk_bv m w"
  by (simp add: mk_bv_def)

lemma mk_bv_mod [simp]: "mk_bv m (v mod 2 ^ width m) = mk_bv m v"
  by (simp add: mk_bv_def)

lemma wf_uval_less: "wf_bv b \<Longrightarrow> uval b < 2 ^ nbits b"
  by (auto simp: wf_bv_def uval_def split: bv_repr.splits)

lemma wf_pos: "wf_bv b \<Longrightarrow> 0 < nbits b"
  by (simp add: wf_bv_def)

lemma wf_collapse: "wf_bv b \<Longrightarrow> mk_bv (bv_meta b) (uval b) = b"
  by (cases b) (auto simp: wf_bv_def mk_bv_def uval_def nbits_width split: bv_repr.splits)

lemma wf_mkE:
  assumes "wf_bv b"
  obtains m v where "b = mk_bv m v" "v < 2 ^ width m" "0 < width m" "m = bv_meta b" "v = uval b"
  using assms wf_collapse [OF assms] wf_uval_less [OF assms] wf_pos [OF assms]
  by (metis nbits_width)

lemma bv_eqI:
  assumes "wf_bv a" "wf_bv b" "bv_meta a = bv_meta b" "uval a = uval b"
  shows "a = b"
  using assms wf_collapse by metis

lemma width_eq: "width m = unat m div 2"
  using unat_drop_bit_eq [of 1 m] drop_bit_eq_div [of 1 "unat m"] by (simp add: width_def)

lemma width_less: "width m < 2 ^ 31"
proof -
  have "unat m < 2 ^ 32" using unat_lt_pow [of m] by simp
  then show ?thesis by (simp add: width_eq)
qed

lemma is_small_iff: "is_small b \<longleftrightarrow> nbits b \<le> 64"
  by (simp add: is_small_def word_le_nat_alt)

lemma wf_small: "wf_bv b \<Longrightarrow> is_small b \<Longrightarrow> unat (small b) = uval b"
  by (auto simp: wf_bv_def uval_def small_def is_small_iff split: bv_repr.splits)

lemma wf_large: "wf_bv b \<Longrightarrow> \<not> is_small b \<Longrightarrow> large b = uval b"
  by (auto simp: wf_bv_def uval_def large_def is_small_iff split: bv_repr.splits)

lemma mask_u64_eq: "mask_u64 b = mask (unat b)"
proof (cases "unat b < 64")
  case True
  then show ?thesis by (simp add: mask_u64_def checked_shl_def mask_eq_exp_minus_1 push_bit_eq_mult)
next
  case False
  then have "mask (unat b) = (- 1 :: u64)"
    by (intro bit_word_eqI) (simp add: bit_mask_iff)
  with False show ?thesis by (simp add: mask_u64_def checked_shl_def)
qed

lemma unat_and_mask: "unat (v AND mask n :: 'a::len word) = unat v mod 2 ^ n"
  by (simp add: unsigned_take_bit_eq flip: take_bit_eq_mask take_bit_eq_mod)

lemma unat_and_mask_u64: "unat (v AND mask_u64 b) = unat v mod 2 ^ unat b"
  by (simp add: mask_u64_eq unat_and_mask)

lemma MAX_BITS_eq: "MAX_BITS = 2147483647"
  by (simp add: MAX_BITS_def mask_eq_exp_minus_1)

definition meta_of :: "bool \<Rightarrow> u32 \<Rightarrow> u32" where
  "meta_of sg bts = push_bit 1 bts OR (if sg then 1 else 0)"

definition valid_bits :: "u32 \<Rightarrow> bool" where
  "valid_bits bts \<longleftrightarrow> 1 \<le> bts \<and> bts \<le> MAX_BITS"

lemma pack_meta_eq: "pack_meta sg bts = (if valid_bits bts then Inr (meta_of sg bts) else Inl Panicked)"
  by (auto simp: pack_meta_def valid_bits_def meta_of_def assert_or_def)

lemma valid_bits_iff: "valid_bits bts \<longleftrightarrow> 0 < unat bts \<and> unat bts < 2 ^ 31"
  by (auto simp: valid_bits_def MAX_BITS_eq word_le_nat_alt)

lemma unat_meta_of:
  assumes "valid_bits bts"
  shows "unat (meta_of sg bts) = 2 * unat bts + of_bool sg"
proof -
  have d: "unat (bts * 2) = 2 * unat bts"
    using assms by (simp add: valid_bits_iff unat_word_ariths)
  have "unat (bts * 2 + 1) = 2 * unat bts + 1"
    using assms d by (simp add: valid_bits_iff unat_word_ariths)
  with d show ?thesis by (simp add: meta_of_def or_one_eq push_bit_eq_mult)
qed

lemma width_meta_of [simp]: "valid_bits bts \<Longrightarrow> width (meta_of sg bts) = unat bts"
  by (simp add: width_eq unat_meta_of)

lemma odd_and_one: "(m AND 1 \<noteq> 0) = odd (unat (m :: u32))"
  by (simp add: and_one_eq even_iff_mod_2_eq_zero flip: unat_eq_0) (simp add: unat_word_ariths unat_mod)

lemma is_signed_iff: "is_signed b \<longleftrightarrow> odd (unat (bv_meta b))"
  by (simp only: is_signed_def odd_and_one)

section \<open>Constructors and queries against the abstract value\<close>

lemma from_small_mk: "width m \<le> 64 \<Longrightarrow> from_small v m = mk_bv m (unat v)"
  by (simp add: from_small_def mk_bv_def width_def flip: unat_and_mask_u64)

lemma from_large_mk: "malachite_ok M \<Longrightarrow> 64 < width m \<Longrightarrow> from_large M v m = mk_bv m v"
  by (simp add: from_large_def mk_bv_def width_def malachite_okD)

lemma set_small_mk: "is_small b \<Longrightarrow> set_small b v = mk_bv (bv_meta b) (unat v)"
  by (cases b) (simp add: set_small_def mk_bv_def is_small_iff nbits_width bits_def width_def flip: unat_and_mask_u64)

lemma set_large_mk: "\<not> is_small b \<Longrightarrow> v < 2 ^ nbits b \<Longrightarrow> set_large b v = mk_bv (bv_meta b) v"
  by (cases b) (simp add: set_large_def mk_bv_def is_small_iff nbits_width)

lemma mask_set_large_mk:
  "malachite_ok M \<Longrightarrow> \<not> is_small b \<Longrightarrow> mask_large_assign M (set_large b v) = mk_bv (bv_meta b) v"
  by (cases b) (simp add: mask_large_assign_def set_large_def large_def mk_bv_def is_small_iff
      nbits_width malachite_okD)

lemma le_64_iff: "(bts :: u32) \<le> 64 \<longleftrightarrow> unat bts \<le> 64"
  by (simp add: word_le_nat_alt)

lemma unat_word_of_int: "unat (word_of_int v :: 'a::len word) = nat (v mod 2 ^ LENGTH('a))"
  by (simp add: unsigned_of_int take_bit_eq_mod)

lemma mk_bv_int_residue:
  assumes "width m \<le> k"
  shows "mk_bv m (nat (v mod 2 ^ k)) = mk_bv m (nat (v mod 2 ^ width m))"
proof (rule mk_bv_cong_mod)
  have "int (nat (v mod 2 ^ k) mod 2 ^ width m) = v mod 2 ^ k mod 2 ^ width m"
    by (simp add: zmod_int)
  also have "\<dots> = v mod 2 ^ width m" using assms by (simp add: mod_mod_cancel le_imp_power_dvd)
  also have "\<dots> = int (nat (v mod 2 ^ width m) mod 2 ^ width m)" by (simp add: zmod_int)
  finally show "nat (v mod 2 ^ k) mod 2 ^ width m = nat (v mod 2 ^ width m) mod 2 ^ width m" by simp
qed

lemma from_prim_eq:
  assumes "malachite_ok M"
  shows "from_prim M v bts =
    (if valid_bits bts then Inr (mk_bv (meta_of False bts) (nat (v mod 2 ^ unat bts))) else Inl Panicked)"
  using assms mk_bv_int_residue [of "meta_of False bts" 64 v]
  by (simp add: from_prim_def pack_meta_eq le_64_iff from_small_mk from_large_mk malachite_okD
      unat_word_of_int)

lemma from_bigint_eq:
  assumes M: "malachite_ok M"
  shows "from_bigint M v bts =
    (if valid_bits bts then Inr (mk_bv (meta_of False bts) (nat (v mod 2 ^ unat bts))) else Inl Panicked)"
proof (cases "valid_bits bts \<and> unat bts \<le> 64")
  case True
  define r where "r = nat (v mod 2 ^ unat bts)"
  have "r < 2 ^ unat bts" by (simp add: r_def nat_less_iff)
  also have "(2 :: nat) ^ unat bts \<le> 2 ^ 64" using True by (intro power_increasing) simp_all
  finally have "r < 2 ^ 64" .
  then show ?thesis using True M
    by (simp add: from_bigint_def pack_meta_eq le_64_iff u64_try_from_def from_small_mk malachite_okD
        Let_def unat_word_of_nat_small flip: r_def)
next
  case False
  with M show ?thesis
    by (auto simp: from_bigint_def pack_meta_eq le_64_iff from_large_mk malachite_okD Let_def)
qed

lemma from_u64_eq:
  assumes "malachite_ok M"
  shows "from_u64 M v bts =
    (if valid_bits bts then Inr (mk_bv (meta_of False bts) (unat v)) else Inl Panicked)"
proof -
  have "mk_bv m (nat (uint v mod 2 ^ width m)) = mk_bv m (unat v)" for m
    by (rule mk_bv_cong_mod) (simp add: nat_mod_distrib nat_power_eq)
  from this [of "meta_of False bts"] show ?thesis
    using assms by (cases "valid_bits bts") (simp_all add: from_u64_def from_prim_eq)
qed

lemma zero_eq: "malachite_ok M \<Longrightarrow> valid_bits bts \<Longrightarrow> zero M bts = Inr (mk_bv (meta_of False bts) 0)"
  by (simp add: zero_def from_u64_eq)

lemma one_eq: "malachite_ok M \<Longrightarrow> valid_bits bts \<Longrightarrow> one M bts = Inr (mk_bv (meta_of False bts) 1)"
  by (simp add: one_def from_u64_eq)

lemma max_value_with_eq:
  assumes M: "malachite_ok M" and v: "valid_bits bts"
  shows "max_value_with M bts sg =
    Inr (mk_bv (meta_of sg bts) (if sg then 2 ^ (unat bts - 1) - 1 else 2 ^ unat bts - 1))"
proof -
  have n: "0 < unat bts" using v by (simp add: valid_bits_iff)
  have half: "drop_bit 1 (2 ^ unat bts - 1 :: nat) = 2 ^ (unat bts - 1) - 1"
    using n by (cases "unat bts") (simp_all add: drop_bit_eq_div)
  have small: "unat (mask_u64 bts) = 2 ^ unat bts - 1" if "unat bts \<le> 64"
    using that by (simp add: mask_u64_eq unat_mask min_def)
  show ?thesis
    using assms half small
    by (auto simp: max_value_with_def pack_meta_eq le_64_iff Let_def from_small_mk from_large_mk
        malachite_okD unat_drop_bit_eq)
qed

lemma min_value_with_eq:
  assumes M: "malachite_ok M" and v: "valid_bits bts"
  shows "min_value_with M bts sg = Inr (mk_bv (meta_of sg bts) (if sg then 2 ^ (unat bts - 1) else 0))"
proof -
  have n: "0 < unat bts" using v by (simp add: valid_bits_iff)
  then have "1 \<le> bts" by (simp add: word_le_nat_alt)
  then have pred: "unat (bts - 1) = unat bts - 1" by (simp add: unat_sub)
  have "unat (push_bit k 1 :: u64) = 2 ^ k" if "k < 64" for k
    using that by (simp add: unat_pow2)
  then show ?thesis
    using assms n pred
    by (auto simp: min_value_with_def pack_meta_eq le_64_iff from_small_mk from_large_mk malachite_okD)
qed

lemma is_zero_iff: "wf_bv b \<Longrightarrow> is_zero b \<longleftrightarrow> uval b = 0"
  by (simp add: is_zero_def wf_large flip: wf_small) (simp add: unat_eq_zero)

lemma is_one_iff: "wf_bv b \<Longrightarrow> is_one b \<longleftrightarrow> uval b = 1"
  by (simp add: is_one_def wf_large word_unat_eq_iff flip: wf_small)

lemma bit_at_iff:
  assumes "malachite_ok M" "wf_bv b"
  shows "bit_at M b i \<longleftrightarrow> bit (uval b) (unat i)"
proof (cases "is_small b")
  case True
  have "drop_bit (unat i) (small b) AND 1 \<noteq> 0 \<longleftrightarrow> bit (small b) (unat i)"
    by (simp add: and_one_eq bit_iff_odd_drop_bit odd_iff_mod_2_eq_one even_iff_mod_2_eq_zero)
  moreover have "bit (uval b) (unat i) \<longleftrightarrow> bit (small b) (unat i)"
    using assms(2) True by (auto simp: bit_unsigned_iff simp flip: wf_small dest: bit_imp_le_length)
  ultimately show ?thesis
    using True by (auto simp: bit_at_def word_less_nat_alt dest: bit_imp_le_length)
next
  case False
  with assms show ?thesis by (simp add: bit_at_def wf_large malachite_okD)
qed

lemma msb_iff: "malachite_ok M \<Longrightarrow> wf_bv b \<Longrightarrow> msb_bv M b \<longleftrightarrow> 2 ^ (nbits b - 1) \<le> uval b"
proof -
  assume M: "malachite_ok M" and b: "wf_bv b"
  have "1 \<le> bits b" using wf_pos [OF b] by (simp add: word_le_nat_alt)
  then have "unat (bits b - 1) = nbits b - 1" by (simp add: unat_sub)
  with M b bit_top_iff [OF wf_pos [OF b] wf_uval_less [OF b]] show ?thesis
    by (simp add: msb_bv_def bit_at_iff)
qed

lemma sval_bounds: "wf_bv b \<Longrightarrow> - (2 ^ (nbits b - 1)) \<le> sval b \<and> sval b < 2 ^ (nbits b - 1)"
proof -
  assume b: "wf_bv b"
  have "int (uval b) < 2 ^ nbits b" using wf_uval_less [OF b] by (simp flip: of_nat_less_iff)
  moreover have "(2 :: int) ^ nbits b = 2 * 2 ^ (nbits b - 1)" by (rule half_pow_int [OF wf_pos [OF b]])
  moreover have "2 ^ (nbits b - 1) \<le> uval b \<longleftrightarrow> 2 ^ (nbits b - 1) \<le> int (uval b)"
    by (metis of_nat_le_iff of_nat_numeral of_nat_power)
  ultimately show ?thesis by (auto simp: sval_def)
qed

lemma sval_mod: "sval b mod 2 ^ nbits b = int (uval b) mod 2 ^ nbits b"
  by (auto simp: sval_def)

lemma msb_sval: "malachite_ok M \<Longrightarrow> wf_bv b \<Longrightarrow> msb_bv M b \<longleftrightarrow> sval b < 0"
proof -
  assume M: "malachite_ok M" and b: "wf_bv b"
  have "int (uval b) < 2 ^ nbits b" using wf_uval_less [OF b] by (simp flip: of_nat_less_iff)
  with M b show ?thesis by (simp add: msb_iff sval_def)
qed

lemma is_small_cong: "bits a = bits b \<Longrightarrow> is_small a = is_small b"
  by (simp add: is_small_def)

lemma eq_bv_iff: "wf_bv a \<Longrightarrow> wf_bv b \<Longrightarrow> eq_bv a b \<longleftrightarrow> bits a = bits b \<and> uval a = uval b"
  using is_small_cong [of a b]
  by (auto simp: eq_bv_def wf_large word_unat_eq_iff [of "small a" "small b"] simp flip: wf_small)

lemma compare_unat: "compare (unat a) (unat b) = compare a b"
  by (simp add: compare_def word_less_nat_alt word_unat_eq_iff)

lemma cmp_residue_eq:
  "wf_bv a \<Longrightarrow> wf_bv b \<Longrightarrow> bits a = bits b \<Longrightarrow> cmp_residue a b = compare (uval a) (uval b)"
  using is_small_cong [of a b]
  by (auto simp: cmp_residue_def wf_large compare_unat simp flip: wf_small)

lemma cmp_bv_eq:
  "wf_bv a \<Longrightarrow> wf_bv b \<Longrightarrow>
     cmp_bv a b = (if bits a = bits b then Inr (compare (uval a) (uval b)) else Inl Panicked)"
  by (simp add: cmp_bv_def expect_same_bits_def cmp_residue_eq)

lemma compare_twos_complement:
  fixes sa sb P :: int and ua ub :: nat
  assumes "sa = int ua - (if ma then P else 0)" "sb = int ub - (if mb then P else 0)"
    and "ma = (sa < 0)" "mb = (sb < 0)"
  shows "(if ma \<and> \<not> mb then Less else if \<not> ma \<and> mb then Greater else compare ua ub) = compare sa sb"
proof (cases "ma = mb")
  case True
  then have "(sa < sb) = (ua < ub)" "(sa = sb) = (ua = ub)" using assms(1,2) by auto
  with True show ?thesis by (auto simp: compare_def)
next
  case False
  then show ?thesis using assms(3,4) by (cases ma) (simp_all add: compare_def)
qed

lemma signed_cmp_eq:
  assumes M: "malachite_ok M" and a: "wf_bv a" and b: "wf_bv b"
  shows "signed_cmp M a b = (if bits a = bits b then Inr (compare (sval a) (sval b)) else Inl Panicked)"
proof (cases "bits a = bits b")
  case True
  have "sval x = int (uval x) - (if msb_bv M x then 2 ^ nbits b else 0)"
    if "wf_bv x" "bits x = bits b" for x
    using that M by (simp add: sval_def msb_iff)
  from compare_twos_complement [OF this [OF a True] this [OF b refl] msb_sval [OF M a] msb_sval [OF M b]]
  show ?thesis using True a b
    by (simp only: signed_cmp_def expect_same_bits_def cmp_residue_eq simp_thms assert_or_True
        and_then_Inr if_True)
next
  case False
  then show ?thesis by (simp add: signed_cmp_def expect_same_bits_def)
qed

lemma drop_bit_meta [simp]:
  "drop_bit (Suc 0) (signed_meta m) = drop_bit (Suc 0) m"
  "drop_bit (Suc 0) (unsigned_meta m) = drop_bit (Suc 0) m"
proof -
  have nobit: "\<not> bit (1 :: u32) (Suc i)" for i by (simp add: bit_1_iff)
  show "drop_bit (Suc 0) (signed_meta m) = drop_bit (Suc 0) m"
    by (rule bit_word_eqI) (simp add: signed_meta_def bit_drop_bit_eq bit_or_iff nobit)
  have "bit (drop_bit (Suc 0) (m AND NOT x)) i = bit (drop_bit (Suc 0) m) i"
    if "\<And>j. \<not> bit x (Suc j)" for i and x :: u32
    using that by (auto simp: bit_drop_bit_eq bit_and_iff bit_not_iff dest: bit_imp_le_length)
  from this [OF nobit] show "drop_bit (Suc 0) (unsigned_meta m) = drop_bit (Suc 0) m"
    unfolding unsigned_meta_def by (intro bit_word_eqI) blast
qed

lemma width_meta [simp]: "width (signed_meta m) = width m" "width (unsigned_meta m) = width m"
  by (simp_all add: width_def)

lemma parity_meta [simp]: "odd (unat (signed_meta m))" "even (unat (unsigned_meta m))"
proof -
  have "(m OR 1) AND 1 \<noteq> 0" by (simp add: and.commute bit.conj_disj_distrib2 ac_simps)
  then show "odd (unat (signed_meta m))" using odd_and_one by (metis signed_meta_def)
  have "(m AND NOT 1) AND 1 = 0" by (simp add: and.assoc)
  then show "even (unat (unsigned_meta m))" using odd_and_one by (metis unsigned_meta_def)
qed

lemma signed_bv_mk: "signed_bv (mk_bv m v) = mk_bv (signed_meta m) v"
  and unsigned_bv_mk: "unsigned_bv (mk_bv m v) = mk_bv (unsigned_meta m) v"
  by (simp_all add: signed_bv_def unsigned_bv_def mk_bv_def)

lemma signed_unsigned_bv [simp]:
  shows "wf_bv (signed_bv b) = wf_bv b" and "wf_bv (unsigned_bv b) = wf_bv b"
    and "uval (signed_bv b) = uval b" and "uval (unsigned_bv b) = uval b"
    and "bits (signed_bv b) = bits b" and "bits (unsigned_bv b) = bits b"
    and "is_signed (signed_bv b)" and "\<not> is_signed (unsigned_bv b)"
proof -
  show bts: "bits (signed_bv b) = bits b" "bits (unsigned_bv b) = bits b"
    by (simp_all add: signed_bv_def unsigned_bv_def bits_def)
  show "wf_bv (signed_bv b) = wf_bv b" and "wf_bv (unsigned_bv b) = wf_bv b"
    unfolding wf_bv_def bts by (simp_all add: signed_bv_def unsigned_bv_def)
qed (simp_all add: signed_bv_def unsigned_bv_def uval_def is_signed_iff)

lemma count_ones_eq:
  assumes "malachite_ok M" "wf_bv b"
  shows "unat (count_ones M b) = card {i. bit (uval b) i}"
proof -
  have "card {i. bit (uval b) i} \<le> nbits b" by (rule card_bits_le [OF wf_uval_less [OF assms(2)]])
  then have "unat (word_of_nat (card {i. bit (uval b) i}) :: u32) = card {i. bit (uval b) i}"
    using width_less [of "bv_meta b"] by (simp add: nbits_width unat_word_of_nat_small)
  with assms show ?thesis
    by (simp add: count_ones_def count_ones_prim_eq wf_large malachite_okD wf_small)
qed

lemma significant_bits_eq:
  assumes M: "malachite_ok M" and b: "wf_bv b"
  shows "unat (significant_bits M b) = bit_length (uval b)"
proof -
  have le: "bit_length (uval b) \<le> nbits b" by (simp add: bit_length_le_iff wf_uval_less [OF b])
  have small: "unat (word_of_nat k :: u32) = k" if "k \<le> nbits b" for k
    using that width_less [of "bv_meta b"] by (simp add: nbits_width unat_word_of_nat_small)
  show ?thesis
  proof (cases "is_small b")
    case True
    define k where "k = bit_length (uval b)"
    have k: "k \<le> 64" using True le by (simp add: is_small_iff k_def)
    have "unat (word_of_nat (64 - k) :: u32) = 64 - k" by (simp add: unat_word_of_nat_small)
    then have "unat (64 - word_of_nat (64 - k) :: u32) = k"
      using k by (subst unat_sub) (simp_all add: word_le_nat_alt)
    with True b show ?thesis
      by (simp add: significant_bits_def leading_zeros_prim_eq wf_small flip: k_def)
  next
    case False
    have "nt_significant_bits M (uval b) = bit_length (uval b)"
      by (rule bit_length_unique) (use malachite_significant [OF M] in auto)
    with False b small [OF le] show ?thesis by (simp add: significant_bits_def wf_large)
  qed
qed

lemma leading_zeros_eq:
  assumes "malachite_ok M" "wf_bv b"
  shows "leading_zeros M b = Inr (word_of_nat (nbits b - bit_length (uval b)))"
proof -
  have "bit_length (uval b) \<le> nbits b" by (simp add: bit_length_le_iff wf_uval_less [OF assms(2)])
  then have "significant_bits M b \<le> bits b" using assms by (simp add: word_le_nat_alt significant_bits_eq)
  moreover from this have "unat (bits b - significant_bits M b) = nbits b - bit_length (uval b)"
    using assms by (simp add: unat_sub significant_bits_eq)
  then have "bits b - significant_bits M b = word_of_nat (nbits b - bit_length (uval b))" by (metis of_nat_unat ucast_id)
  ultimately show ?thesis by (simp add: leading_zeros_def sub_word_def)
qed

lemma set_bit_bv_eq:
  assumes M: "malachite_ok M" and b: "wf_bv b"
  shows "set_bit_bv M b i = (if i < bits b then mk_bv (bv_meta b) (set_bit (unat i) (uval b)) else b)"
proof (cases "i < bits b")
  case True
  then have i: "unat i < nbits b" by (simp add: word_less_nat_alt)
  show ?thesis
  proof (cases "is_small b")
    case s: True
    then have "unat i < 64" using i by (simp add: is_small_iff)
    then have "unat (small b OR push_bit (unat i) 1) = set_bit (unat i) (uval b)"
      using b s by (simp add: unsigned_or_eq wf_small unat_pow2 set_bit_eq_or push_bit_eq_mult)
    with True s show ?thesis by (simp add: set_bit_bv_def set_small_mk not_le)
  next
    case False
    have "set_bit (unat i) (uval b) < 2 ^ nbits b"
      by (rule set_bit_less [OF wf_uval_less [OF b] i])
    with True False M b show ?thesis by (simp add: set_bit_bv_def set_large_mk wf_large malachite_okD not_le)
  qed
qed (simp add: set_bit_bv_def not_less)

lemma malachite_u64_lcm:
  assumes "malachite_ok M"
  shows "u64_lcm M x y =
    (if lcm (unat x) (unat y) < 2 ^ 64 then Inr (word_of_nat (lcm (unat x) (unat y)))
     else Inl ArithmeticOverflow)"
  using assms by (simp add: malachite_ok_def)

lemma malachite_extended_gcd:
  assumes "malachite_ok M"
  shows "i64_extended_gcd M a b = (g, x, y) \<Longrightarrow> is_i64 a \<Longrightarrow> is_i64 b \<Longrightarrow>
           int (unat g) = gcd a b \<and> a * x + b * y = gcd a b"
    and "it_extended_gcd M a b = (n, x, y) \<Longrightarrow> int n = gcd a b \<and> a * x + b * y = gcd a b"
  using assms by (auto simp: malachite_ok_def split: prod.splits)

section \<open>A computable instance of the big number functions\<close>

text \<open>
  \<open>malachite_ref\<close> gives every function of the record a body that computes and meets
  \<open>malachite_ok\<close>: the assumption about the crate can be met, and concrete runs evaluate with it.
\<close>

fun base256 :: "nat \<Rightarrow> u8 list" where
  "base256 v = (if v = 0 then [] else word_of_nat v # base256 (v div 256))"

declare base256.simps [simp del]

definition extended_gcd_ref :: "int \<Rightarrow> int \<Rightarrow> int \<times> int" where
  "extended_gcd_ref a b =
     (let (x, y) = bezw (nat \<bar>a\<bar>) (nat \<bar>b\<bar>) in (sgn a * x, sgn b * y))"

definition malachite_ref :: malachite where
  "malachite_ref = \<lparr>
     nt_mod_power_of_2 = \<lambda>v n. v mod 2 ^ n,
     it_mod_power_of_2 = \<lambda>v n. nat (v mod 2 ^ n),
     nt_low_mask = \<lambda>n. 2 ^ n - 1,
     nt_power_of_2 = \<lambda>n. 2 ^ n,
     nt_set_bit = \<lambda>v i. set_bit i v,
     nt_get_bit = \<lambda>v i. bit v i,
     nt_count_ones = \<lambda>v. length (filter (bit v) [0..<bit_length v]),
     nt_significant_bits = bit_length,
     nt_from_digits_asc = le_value,
     nt_from_digits_desc = \<lambda>bs. le_value (rev bs),
     nt_to_digits_asc = base256,
     nt_to_digits_desc = \<lambda>v. rev (base256 v),
     nt_gcd = gcd,
     nt_lcm = lcm,
     u64_gcd = \<lambda>a b. word_of_nat (gcd (unat a) (unat b)),
     u64_lcm = \<lambda>a b. if lcm (unat a) (unat b) < 2 ^ 64
       then Inr (word_of_nat (lcm (unat a) (unat b))) else Inl ArithmeticOverflow,
     i64_extended_gcd = \<lambda>a b. (word_of_int (gcd a b), extended_gcd_ref a b),
     it_extended_gcd = \<lambda>a b. (nat (gcd a b), extended_gcd_ref a b)\<rparr>"

lemma le_value_base256: "le_value (base256 v) = v"
proof (induction v rule: base256.induct)
  case (1 v)
  then show ?case by (subst base256.simps) (auto simp: unat_word_of_nat)
qed

lemma last_base256: "base256 v \<noteq> [] \<Longrightarrow> last (base256 v) \<noteq> 0"
proof (induction v rule: base256.induct)
  case (1 v)
  show ?case
  proof (cases "v div 256 = 0")
    case True
    then have v: "v < 256" by simp
    have "base256 (v div 256) = []" using True by (subst base256.simps) simp
    moreover have "word_of_nat v \<noteq> (0 :: u8)" if "v \<noteq> 0"
      using that v unat_word_of_nat_small [of v, where ?'a = 8] by auto
    ultimately show ?thesis using "1.prems" by (subst base256.simps) (auto split: if_splits simp: base256.simps [of 0])
  next
    case False
    then have "v \<noteq> 0" "base256 (v div 256) \<noteq> []" by (auto simp: base256.simps [of "v div 256"])
    with 1 show ?thesis by (subst base256.simps) simp
  qed
qed

lemma extended_gcd_ref: "extended_gcd_ref a b = (x, y) \<Longrightarrow> a * x + b * y = gcd a b"
proof -
  assume "extended_gcd_ref a b = (x, y)"
  then have xy: "x = sgn a * fst (bezw (nat \<bar>a\<bar>) (nat \<bar>b\<bar>))" "y = sgn b * snd (bezw (nat \<bar>a\<bar>) (nat \<bar>b\<bar>))"
    by (auto simp: extended_gcd_ref_def split: prod.splits)
  have "a * sgn a = \<bar>a\<bar>" "b * sgn b = \<bar>b\<bar>" by (simp_all add: abs_sgn)
  then have "a * x + b * y =
      fst (bezw (nat \<bar>a\<bar>) (nat \<bar>b\<bar>)) * int (nat \<bar>a\<bar>) + snd (bezw (nat \<bar>a\<bar>) (nat \<bar>b\<bar>)) * int (nat \<bar>b\<bar>)"
    by (simp add: xy mult.assoc [symmetric])
  also have "\<dots> = int (gcd (nat \<bar>a\<bar>) (nat \<bar>b\<bar>))" by (rule bezw_aux [symmetric])
  also have "\<dots> = gcd a b" by (simp flip: gcd_int_int_eq)
  finally show ?thesis .
qed

lemma count_bits: "length (filter (bit v) [0..<bit_length v]) = card {i. bit v i}"
proof -
  have "length (filter (bit v) [0..<bit_length v]) = card {i. i < bit_length v \<and> bit v i}"
    by (simp add: length_filter_conv_card) (metis (no_types, lifting) nth_upt plus_nat.add_0)
  moreover have "i < bit_length v" if "bit v i" for i
    using that bit_length_le_iff [of v i] by (auto simp: bit_iff_odd not_le [symmetric])
  ultimately show ?thesis by (metis (no_types, lifting) Collect_cong)
qed

lemma malachite_ref_ok [simp]: "malachite_ok malachite_ref"
proof -
  have "gcd (unat x) (unat y) < 2 ^ 64" for x y :: u64
  proof (cases "x = 0")
    case False
    then have "gcd (unat x) (unat y) \<le> unat x" by (simp add: gcd_le1_nat unat_eq_0)
    also have "\<dots> < 2 ^ 64" by simp
    finally show ?thesis .
  qed simp
  then have "unat (word_of_nat (gcd (unat x) (unat y)) :: u64) = gcd (unat x) (unat y)" for x y :: u64
    by (simp add: unat_word_of_nat_small)
  moreover have "v < 2 ^ bit_length v" "v < 2 ^ n \<Longrightarrow> bit_length v \<le> n" for v n
    using bit_length_le_iff [of v "bit_length v"] bit_length_le_iff [of v n] by simp_all
  moreover have "int (unat (word_of_int (gcd a b) :: u64)) = gcd a b" if "is_i64 a" "is_i64 b" for a b
  proof -
    have "gcd a b \<le> 2 ^ 63"
    proof (cases "a = 0")
      case False
      then have "gcd a b \<le> \<bar>a\<bar>" by (intro zdvd_imp_le) simp_all
      with that show ?thesis by (auto simp: is_i64_def)
    qed (use that in \<open>auto simp: is_i64_def\<close>)
    then have "gcd a b mod 2 ^ 64 = gcd a b" by (intro mod_pos_pos_trivial) simp_all
    then show ?thesis by (simp add: unat_word_of_int)
  qed
  ultimately show ?thesis
    by (auto simp: malachite_ok_def malachite_ref_def le_value_base256 last_base256 count_bits
        dest: extended_gcd_ref split: prod.splits)
qed

end
