(* ===== verification/BitVecArith.thy ===== *)
theory BitVecArith
  imports BitVector "HOL-Library.Signed_Division"
begin

unbundle bit_operations_syntax

text \<open>
  The arithmetic of \<open>fugue-bv/src/lib.rs\<close>: negation, complement, the binary operators, the shifts,
  division and remainder in their flag-driven and signed forms, carries and borrows, and the
  greatest common divisor family. An operator of the source that takes \<open>&mut self\<close> returns the
  updated vector here; the by-value and by-reference forms of an operator all run the same
  assigning form. Each operation has one equation that gives its result, or its panic, for all
  well-formed operands as the vector of an integer expression (\<open>mk_int\<close>).
\<close>

section \<open>Operations\<close>

definition neg_assign :: "malachite \<Rightarrow> bitvec \<Rightarrow> bitvec outcome" where
  "neg_assign M b =
     (if is_small b then Inr (set_small b ((small b XOR mask_u64 (bits b)) + 1))
      else if large b \<noteq> 0 then
        and_then (nt_sub (nt_power_of_2 M (nbits b)) (large b)) (\<lambda>v. Inr (set_large b v))
      else Inr b)"

definition not_assign :: "malachite \<Rightarrow> bitvec \<Rightarrow> bitvec outcome" where
  "not_assign M b =
     (if is_small b then Inr (set_small b (small b XOR mask_u64 (bits b)))
      else and_then (nt_sub (nt_low_mask M (nbits b)) (large b)) (\<lambda>v. Inr (set_large b v)))"

definition add_assign :: "malachite \<Rightarrow> bitvec \<Rightarrow> bitvec \<Rightarrow> bitvec outcome" where
  "add_assign M a b = and_then (expect_same_bits a b) (\<lambda>_. Inr (
     if is_small a then set_small a (small a + small b)
     else mask_large_assign M (set_large a (large a + large b))))"

definition sub_assign :: "malachite \<Rightarrow> bitvec \<Rightarrow> bitvec \<Rightarrow> bitvec outcome" where
  "sub_assign M a b = and_then (expect_same_bits a b) (\<lambda>_.
     if is_small a then Inr (set_small a (small a - small b))
     else if large b \<le> large a then
       and_then (nt_sub (large a) (large b)) (\<lambda>v. Inr (set_large a v))
     else
       and_then (nt_sub (large b) (large a)) (\<lambda>d.
       and_then (nt_sub (nt_power_of_2 M (nbits a)) d) (\<lambda>v. Inr (set_large a v))))"

definition mul_assign :: "malachite \<Rightarrow> bitvec \<Rightarrow> bitvec \<Rightarrow> bitvec outcome" where
  "mul_assign M a b = and_then (expect_same_bits a b) (\<lambda>_. Inr (
     if is_small a then set_small a (small a * small b)
     else mask_large_assign M (set_large a (large a * large b))))"

definition udiv_assign :: "bitvec \<Rightarrow> bitvec \<Rightarrow> bitvec outcome" where
  "udiv_assign a b =
     (if is_small a then
        and_then (assert_or DivideByZero (small b \<noteq> 0)) (\<lambda>_. Inr (set_small a (small a div small b)))
      else
        and_then (assert_or DivideByZero (large b \<noteq> 0)) (\<lambda>_. Inr (set_large a (large a div large b))))"

definition urem_assign :: "bitvec \<Rightarrow> bitvec \<Rightarrow> bitvec outcome" where
  "urem_assign a b =
     (if is_small a then
        and_then (assert_or DivideByZero (small b \<noteq> 0)) (\<lambda>_. Inr (set_small a (small a mod small b)))
      else
        and_then (assert_or DivideByZero (large b \<noteq> 0)) (\<lambda>_. Inr (set_large a (large a mod large b))))"

definition div_assign_with :: "malachite \<Rightarrow> bitvec \<Rightarrow> bool \<Rightarrow> bool \<Rightarrow> bitvec \<Rightarrow> bitvec outcome" where
  "div_assign_with M a lneg rneg b =
     (case (lneg, rneg) of
        (False, False) \<Rightarrow> udiv_assign a b
      | (True, False) \<Rightarrow> and_then (neg_assign M a) (\<lambda>a. and_then (udiv_assign a b) (neg_assign M))
      | (False, True) \<Rightarrow> and_then (neg_assign M b) (\<lambda>b. and_then (udiv_assign a b) (neg_assign M))
      | (True, True) \<Rightarrow> and_then (neg_assign M a) (\<lambda>a. and_then (neg_assign M b) (udiv_assign a)))"

definition rem_assign_with :: "malachite \<Rightarrow> bitvec \<Rightarrow> bool \<Rightarrow> bool \<Rightarrow> bitvec \<Rightarrow> bitvec outcome" where
  "rem_assign_with M a lneg rneg b =
     (case (lneg, rneg) of
        (False, False) \<Rightarrow> urem_assign a b
      | (True, False) \<Rightarrow> and_then (neg_assign M a) (\<lambda>a. and_then (urem_assign a b) (neg_assign M))
      | (False, True) \<Rightarrow> and_then (neg_assign M b) (urem_assign a)
      | (True, True) \<Rightarrow>
          and_then (neg_assign M a) (\<lambda>a. and_then (neg_assign M b) (\<lambda>b.
          and_then (urem_assign a b) (neg_assign M))))"

definition div_assign :: "malachite \<Rightarrow> bitvec \<Rightarrow> bitvec \<Rightarrow> bitvec outcome" where
  "div_assign M a b = and_then (expect_same_bits a b) (\<lambda>_.
     let lneg = is_negative M a; rneg = is_negative M b in div_assign_with M a lneg rneg b)"

definition rem_assign :: "malachite \<Rightarrow> bitvec \<Rightarrow> bitvec \<Rightarrow> bitvec outcome" where
  "rem_assign M a b = and_then (expect_same_bits a b) (\<lambda>_.
     let lneg = is_negative M a; rneg = is_negative M b in rem_assign_with M a lneg rneg b)"

definition signed_div :: "malachite \<Rightarrow> bitvec \<Rightarrow> bitvec \<Rightarrow> bitvec outcome" where
  "signed_div M a b = and_then (expect_same_bits a b) (\<lambda>_.
     let lneg = msb_bv M a; rneg = msb_bv M b in div_assign_with M a lneg rneg b)"

definition signed_rem :: "malachite \<Rightarrow> bitvec \<Rightarrow> bitvec \<Rightarrow> bitvec outcome" where
  "signed_rem M a b = and_then (expect_same_bits a b) (\<lambda>_.
     let lneg = msb_bv M a; rneg = msb_bv M b in rem_assign_with M a lneg rneg b)"

definition bitand_assign :: "bitvec \<Rightarrow> bitvec \<Rightarrow> bitvec outcome" where
  "bitand_assign a b = and_then (expect_same_bits a b) (\<lambda>_. Inr (
     if is_small a then set_small a (small a AND small b) else set_large a (large a AND large b)))"

definition bitor_assign :: "bitvec \<Rightarrow> bitvec \<Rightarrow> bitvec outcome" where
  "bitor_assign a b = and_then (expect_same_bits a b) (\<lambda>_. Inr (
     if is_small a then set_small a (small a OR small b) else set_large a (large a OR large b)))"

definition bitxor_assign :: "bitvec \<Rightarrow> bitvec \<Rightarrow> bitvec outcome" where
  "bitxor_assign a b = and_then (expect_same_bits a b) (\<lambda>_. Inr (
     if is_small a then set_small a (small a XOR small b) else set_large a (large a XOR large b)))"

definition shift_amount :: "bitvec \<Rightarrow> u32 \<Rightarrow> u32 option" where
  "shift_amount b w =
     (let amount = (if is_small b then u32_try_from (unat (small b)) else u32_try_from (large b))
      in case amount of None \<Rightarrow> None | Some n \<Rightarrow> if n < w then Some n else None)"

definition shift_amount_or_bits :: "bitvec \<Rightarrow> bitvec \<Rightarrow> u32" where
  "shift_amount_or_bits a b = (case shift_amount b (bits a) of None \<Rightarrow> bits a | Some n \<Rightarrow> n)"

definition shl_assign_u32 :: "malachite \<Rightarrow> bitvec \<Rightarrow> u32 \<Rightarrow> bitvec" where
  "shl_assign_u32 M b n =
     (if is_small b then
        set_small b (case checked_shl (small b) n of None \<Rightarrow> 0 | Some v \<Rightarrow> v)
      else if bits b \<le> n then set_large b 0
      else mask_large_assign M (set_large b (push_bit (unat n) (large b))))"

definition shr_assign_with :: "malachite \<Rightarrow> bitvec \<Rightarrow> bool \<Rightarrow> u32 \<Rightarrow> bitvec" where
  "shr_assign_with M b arithmetic n =
     (let fill = arithmetic \<and> msb_bv M b in
      if bits b \<le> n then
        (if is_small b then set_small b (if fill then - 1 else 0)
         else set_large b (if fill then nt_low_mask M (nbits b) else 0))
      else if is_small b then
        (let msk = mask_u64 (bits b); v = drop_bit (unat n) (small b)
         in set_small b (if fill then v OR (msk XOR drop_bit (unat n) msk) else v))
      else
        (let v = drop_bit (unat n) (large b)
         in set_large b
              (if fill then v OR (nt_low_mask M (nbits b) XOR nt_low_mask M (unat (bits b - n))) else v)))"

definition shl_assign :: "malachite \<Rightarrow> bitvec \<Rightarrow> bitvec \<Rightarrow> bitvec outcome" where
  "shl_assign M a b = and_then (expect_same_bits a b) (\<lambda>_.
     Inr (shl_assign_u32 M a (shift_amount_or_bits a b)))"

definition shr_assign :: "malachite \<Rightarrow> bitvec \<Rightarrow> bitvec \<Rightarrow> bitvec outcome" where
  "shr_assign M a b = and_then (expect_same_bits a b) (\<lambda>_.
     Inr (shr_assign_with M a (is_signed a) (shift_amount_or_bits a b)))"

definition shr_assign_u32 :: "malachite \<Rightarrow> bitvec \<Rightarrow> u32 \<Rightarrow> bitvec" where
  "shr_assign_u32 M a n = shr_assign_with M a (is_signed a) n"

definition signed_shr :: "malachite \<Rightarrow> bitvec \<Rightarrow> bitvec \<Rightarrow> bitvec outcome" where
  "signed_shr M a b = and_then (expect_same_bits a b) (\<lambda>_.
     Inr (shr_assign_with M a True (shift_amount_or_bits a b)))"

definition incr :: "malachite \<Rightarrow> bitvec \<Rightarrow> u64 \<Rightarrow> bitvec outcome" where
  "incr M b v = and_then (from_u64 M v (bits b)) (add_assign M b)"

definition succ_bv :: "malachite \<Rightarrow> bitvec \<Rightarrow> bitvec outcome" where
  "succ_bv M b = incr M b 1"

definition decr :: "malachite \<Rightarrow> bitvec \<Rightarrow> u64 \<Rightarrow> bitvec outcome" where
  "decr M b v = and_then (from_u64 M v (bits b)) (sub_assign M b)"

definition pred_bv :: "malachite \<Rightarrow> bitvec \<Rightarrow> bitvec outcome" where
  "pred_bv M b = decr M b 1"

definition abs_bv :: "malachite \<Rightarrow> bitvec \<Rightarrow> bitvec outcome" where
  "abs_bv M b = (if is_negative M b then neg_assign M b else Inr b)"

definition small_signed :: "bitvec \<Rightarrow> int" where
  "small_signed b =
     (let shift = unat (64 - bits b) in sint (signed_drop_bit shift (push_bit shift (small b))))"

definition large_signed :: "malachite \<Rightarrow> bitvec \<Rightarrow> int" where
  "large_signed M b =
     (if msb_bv M b then int (large b) - int (nt_power_of_2 M (nbits b)) else int (large b))"

definition small_magnitude :: "malachite \<Rightarrow> bitvec \<Rightarrow> u64" where
  "small_magnitude M b =
     (if msb_bv M b then (small b XOR mask_u64 (bits b)) + 1 else small b)"

definition large_magnitude :: "malachite \<Rightarrow> bitvec \<Rightarrow> nat outcome" where
  "large_magnitude M b =
     (if msb_bv M b then nt_sub (nt_power_of_2 M (nbits b)) (large b) else Inr (large b))"

definition lcm_bv :: "malachite \<Rightarrow> bitvec \<Rightarrow> bitvec \<Rightarrow> bitvec outcome" where
  "lcm_bv M a b = and_then (expect_same_bits a b) (\<lambda>_.
     if is_small a then
       and_then (u64_lcm M (small_magnitude M a) (small_magnitude M b))
         (\<lambda>v. Inr (from_small v (bv_meta a)))
     else
       and_then (large_magnitude M a) (\<lambda>x. and_then (large_magnitude M b) (\<lambda>y.
         Inr (from_large M (nt_lcm M x y) (bv_meta a)))))"

definition gcd_bv :: "malachite \<Rightarrow> bitvec \<Rightarrow> bitvec \<Rightarrow> bitvec outcome" where
  "gcd_bv M a b = and_then (expect_same_bits a b) (\<lambda>_.
     if is_zero a then Inr b
     else if is_zero b then Inr a
     else if is_small a then
       Inr (from_small (u64_gcd M (small_magnitude M a) (small_magnitude M b)) (bv_meta a))
     else
       and_then (large_magnitude M a) (\<lambda>x. and_then (large_magnitude M b) (\<lambda>y.
         Inr (from_large M (nt_gcd M x y) (bv_meta a)))))"

definition gcd_ext :: "malachite \<Rightarrow> bitvec \<Rightarrow> bitvec \<Rightarrow> (bitvec \<times> bitvec \<times> bitvec) outcome" where
  "gcd_ext M a b = and_then (expect_same_bits a b) (\<lambda>_.
     if is_zero a then
       and_then (zero M (bits a)) (\<lambda>z. and_then (one M (bits a)) (\<lambda>u. Inr (b, z, u)))
     else if is_zero b then
       and_then (one M (bits a)) (\<lambda>u. and_then (zero M (bits a)) (\<lambda>z. Inr (a, u, z)))
     else if is_small a then
       (case i64_extended_gcd M (small_signed a) (small_signed b) of (g, x, y) \<Rightarrow>
          Inr (from_small g (bv_meta a), from_small (word_of_int x) (bv_meta a),
               from_small (word_of_int y) (bv_meta a)))
     else
       (case it_extended_gcd M (large_signed M a) (large_signed M b) of (g, x, y) \<Rightarrow>
          Inr (from_large M g (bv_meta a),
               from_large M (it_mod_power_of_2 M x (nbits a)) (bv_meta a),
               from_large M (it_mod_power_of_2 M y (nbits a)) (bv_meta a))))"

definition signed_borrow :: "malachite \<Rightarrow> bitvec \<Rightarrow> bitvec \<Rightarrow> bool outcome" where
  "signed_borrow M a b = and_then (expect_same_bits a b) (\<lambda>_.
     and_then (sub_assign M a b) (\<lambda>d.
       let l = msb_bv M a; r = msb_bv M b; v = msb_bv M d;
           l = (l \<noteq> v); v = (v \<noteq> r); v = (v \<noteq> True)
       in Inr (l \<and> v)))"

definition signed_carry :: "malachite \<Rightarrow> bitvec \<Rightarrow> bitvec \<Rightarrow> bool outcome" where
  "signed_carry M a b = and_then (expect_same_bits a b) (\<lambda>_.
     and_then (add_assign M a b) (\<lambda>s.
       let l = msb_bv M a; r = msb_bv M b; v = msb_bv M s;
           v = (v \<noteq> l); l = (l \<noteq> r); l = (l \<noteq> True)
       in Inr (v \<and> l)))"

definition carry :: "malachite \<Rightarrow> bitvec \<Rightarrow> bitvec \<Rightarrow> bool outcome" where
  "carry M a b = and_then (expect_same_bits a b) (\<lambda>_.
     if is_signed a \<or> is_signed b then signed_carry M a b
     else and_then (add_assign M a b) (\<lambda>s. Inr (cmp_residue a s = Greater)))"

definition rem_euclid :: "malachite \<Rightarrow> bitvec \<Rightarrow> bitvec \<Rightarrow> bitvec outcome" where
  "rem_euclid M a b = and_then (expect_same_bits a b) (\<lambda>_.
     and_then (rem_assign M a b) (\<lambda>r.
       if msb_bv M r then
         and_then (if msb_bv M b then neg_assign M b else Inr b) (add_assign M r)
       else Inr r))"

definition max_value :: "malachite \<Rightarrow> bitvec \<Rightarrow> bitvec outcome" where
  "max_value M b = max_value_with M (bits b) (is_signed b)"

definition min_value :: "malachite \<Rightarrow> bitvec \<Rightarrow> bitvec outcome" where
  "min_value M b = min_value_with M (bits b) (is_signed b)"

section \<open>Vectors of integers\<close>

text \<open>
  \<open>mk_int m i\<close> is the vector of \<open>i\<close> modulo two to the width. \<open>ival\<close> is the number a vector stands
  for under its own flag, which is what the flag-driven operators work on.
\<close>

definition mk_int :: "u32 \<Rightarrow> int \<Rightarrow> bitvec" where
  "mk_int m i = mk_bv m (nat (i mod 2 ^ width m))"

definition ival :: "bitvec \<Rightarrow> int" where
  "ival b = (if is_signed b then sval b else int (uval b))"

lemma meta_mk_int [simp]: "bv_meta (mk_int m i) = m"
  and bits_mk_int [simp]: "bits (mk_int m i) = drop_bit 1 m"
  and wf_mk_int [simp]: "wf_bv (mk_int m i) \<longleftrightarrow> 0 < width m"
  by (simp_all add: mk_int_def bits_def)

lemma nat_mod_less_pow [simp]: "nat (i mod 2 ^ n) < 2 ^ n"
  by (simp add: nat_less_iff)

lemma int_nat_mod_pow [simp]: "int (nat (i mod 2 ^ n)) = i mod 2 ^ n"
  by simp

lemma uval_mk_int [simp]: "uval (mk_int m i) = nat (i mod 2 ^ width m)"
  by (simp add: mk_int_def)

lemma mk_int_of_nat: "mk_int m (int v) = mk_bv m v"
  unfolding mk_int_def by (rule mk_bv_cong_mod) (simp add: nat_mod_distrib nat_power_eq)

lemma mk_int_cong: "i mod 2 ^ width m = j mod 2 ^ width m \<Longrightarrow> mk_int m i = mk_int m j"
  by (simp add: mk_int_def)

lemma mk_int_uval: "wf_bv b \<Longrightarrow> mk_int (bv_meta b) (int (uval b)) = b"
  by (simp add: mk_int_of_nat wf_collapse)

lemma sval_cong: "sval b mod 2 ^ width (bv_meta b) = int (uval b) mod 2 ^ width (bv_meta b)"
  using sval_mod [of b] by (simp add: nbits_width)

lemma ival_cong: "ival b mod 2 ^ width (bv_meta b) = int (uval b) mod 2 ^ width (bv_meta b)"
  by (simp add: ival_def sval_cong)

lemma mk_int_sval: "wf_bv b \<Longrightarrow> mk_int (bv_meta b) (sval b) = b"
  and mk_int_ival: "wf_bv b \<Longrightarrow> mk_int (bv_meta b) (ival b) = b"
  using mk_int_uval [of b] mk_int_cong [OF sval_cong [of b]] mk_int_cong [OF ival_cong [of b]] by simp_all

lemma mk_bv_mod_cong: "int v mod 2 ^ width m = i mod 2 ^ width m \<Longrightarrow> mk_bv m v = mk_int m i"
  by (metis mk_int_cong mk_int_of_nat)

lemma small_width: "is_small b \<longleftrightarrow> width (bv_meta b) \<le> 64"
  by (simp add: is_small_iff nbits_width)

lemma wf_width: "wf_bv b \<Longrightarrow> 0 < width (bv_meta b)"
  using wf_pos by (simp add: nbits_width)

lemma wf_uval_width: "wf_bv b \<Longrightarrow> uval b < 2 ^ width (bv_meta b)"
  using wf_uval_less by (simp add: nbits_width)

lemma pow64_mod:
  assumes "n \<le> 64" shows "i mod 2 ^ 64 mod 2 ^ n = (i :: int) mod 2 ^ n"
  using assms by (simp add: mod_mod_cancel le_imp_power_dvd del: power_numeral)

text \<open>The small representation computes in 64-bit words; reducing the word gives the vector.\<close>

lemma set_small_int:
  assumes "is_small b" and "uint v = i mod 2 ^ 64"
  shows "set_small b v = mk_int (bv_meta b) i"
proof -
  have "int (unat v) mod 2 ^ width (bv_meta b) = i mod 2 ^ width (bv_meta b)"
    using assms(2) pow64_mod [of "width (bv_meta b)" i] assms(1) by (simp add: small_width)
  then show ?thesis using assms(1) by (simp add: set_small_mk mk_bv_mod_cong)
qed

lemma set_large_int:
  assumes "\<not> is_small b" and "v < 2 ^ nbits b" and "int v = i mod 2 ^ nbits b"
  shows "set_large b v = mk_int (bv_meta b) i"
  using assms by (simp add: set_large_mk mk_bv_mod_cong nbits_width)

lemma uint_small: "wf_bv b \<Longrightarrow> is_small b \<Longrightarrow> uint (small b) = int (uval b)"
  by (simp flip: wf_small)

lemma uval_lt_64: "wf_bv b \<Longrightarrow> is_small b \<Longrightarrow> int (uval b) < 2 ^ 64"
  using wf_small [of b] unat_lt_u64 [of "small b"] by simp

section \<open>Addition, subtraction, multiplication\<close>

lemma add_assign_eq:
  assumes M: "malachite_ok M" and a: "wf_bv a" and b: "wf_bv b"
  shows "add_assign M a b =
    (if bits a = bits b then Inr (mk_int (bv_meta a) (int (uval a) + int (uval b))) else Inl Panicked)"
proof (cases "bits a = bits b")
  case True
  then have sb: "is_small b = is_small a" by (simp add: is_small_def)
  show ?thesis
  proof (cases "is_small a")
    case s: True
    have "set_small a (small a + small b) = mk_int (bv_meta a) (int (uval a) + int (uval b))"
      using s sb a b by (intro set_small_int) (simp_all add: uint_word_ariths uint_small)
    with s True show ?thesis by (simp add: add_assign_def expect_same_bits_def)
  next
    case False
    with True sb M a b show ?thesis
      by (simp add: add_assign_def expect_same_bits_def mask_set_large_mk wf_large flip: mk_int_of_nat)
  qed
qed (simp add: add_assign_def expect_same_bits_def)

lemma mul_assign_eq:
  assumes M: "malachite_ok M" and a: "wf_bv a" and b: "wf_bv b"
  shows "mul_assign M a b =
    (if bits a = bits b then Inr (mk_int (bv_meta a) (int (uval a) * int (uval b))) else Inl Panicked)"
proof (cases "bits a = bits b")
  case True
  then have sb: "is_small b = is_small a" by (simp add: is_small_def)
  show ?thesis
  proof (cases "is_small a")
    case s: True
    have "set_small a (small a * small b) = mk_int (bv_meta a) (int (uval a) * int (uval b))"
      using s sb a b by (intro set_small_int) (simp_all add: uint_word_ariths uint_small)
    with s True show ?thesis by (simp add: mul_assign_def expect_same_bits_def)
  next
    case False
    with True sb M a b show ?thesis
      by (simp add: mul_assign_def expect_same_bits_def mask_set_large_mk wf_large flip: mk_int_of_nat)
  qed
qed (simp add: mul_assign_def expect_same_bits_def)

lemma sub_assign_eq:
  assumes M: "malachite_ok M" and a: "wf_bv a" and b: "wf_bv b"
  shows "sub_assign M a b =
    (if bits a = bits b then Inr (mk_int (bv_meta a) (int (uval a) - int (uval b))) else Inl Panicked)"
proof (cases "bits a = bits b")
  case True
  then have sb: "is_small b = is_small a" by (simp add: is_small_def)
  show ?thesis
  proof (cases "is_small a")
    case s: True
    have "set_small a (small a - small b) = mk_int (bv_meta a) (int (uval a) - int (uval b))"
      using s sb a b by (intro set_small_int) (simp_all add: uint_word_ariths uint_small)
    with s True show ?thesis by (simp add: sub_assign_def expect_same_bits_def)
  next
    case False
    let ?n = "nbits a"
    have ab: "uval a < 2 ^ ?n" "uval b < 2 ^ ?n" using wf_uval_less a b True by metis+
    show ?thesis
    proof (cases "uval b \<le> uval a")
      case le: True
      have "set_large a (uval a - uval b) = mk_int (bv_meta a) (int (uval a) - int (uval b))"
      proof (rule set_large_int [OF False])
        show "uval a - uval b < 2 ^ ?n" using ab by simp
        then have "int (uval a - uval b) < 2 ^ ?n" by (metis of_nat_less_iff of_nat_numeral of_nat_power)
        with le show "int (uval a - uval b) = (int (uval a) - int (uval b)) mod 2 ^ ?n"
          by (simp add: of_nat_diff)
      qed
      with le True False sb a b M show ?thesis
        by (simp add: sub_assign_def expect_same_bits_def wf_large nt_sub_def)
    next
      case gt: False
      let ?v = "2 ^ ?n - (uval b - uval a)"
      have "set_large a ?v = mk_int (bv_meta a) (int (uval a) - int (uval b))"
      proof (rule set_large_int [OF False])
        show "?v < 2 ^ ?n" using gt ab by simp
        have i: "int ?v = int (uval a) - int (uval b) + 2 ^ ?n" using gt ab by (simp add: of_nat_diff)
        moreover have "int ?v < 2 ^ ?n" using \<open>?v < 2 ^ ?n\<close> by (metis of_nat_less_iff of_nat_numeral of_nat_power)
        ultimately show "int ?v = (int (uval a) - int (uval b)) mod 2 ^ ?n"
          by (metis mod_add_self2 mod_pos_pos_trivial of_nat_0_le_iff)
      qed
      with gt True False sb a b M ab show ?thesis
        by (simp add: sub_assign_def expect_same_bits_def wf_large nt_sub_def malachite_okD)
    qed
  qed
qed (simp add: sub_assign_def expect_same_bits_def)

section \<open>Negation, complement and the bitwise operators\<close>

lemma xor_mask_nat:
  assumes "v < 2 ^ n" shows "v XOR mask n = 2 ^ n - 1 - (v :: nat)"
proof -
  have "take_bit n v AND (take_bit n v XOR mask n) = 0"
    by (rule bit_eqI) (auto simp: bit_simps)
  then have "take_bit n v + (take_bit n v XOR mask n) = take_bit n v OR (take_bit n v XOR mask n)"
    by (rule disjunctive_add_eq_or)
  also have "\<dots> = mask n" by (rule bit_eqI) (auto simp: bit_simps)
  finally show ?thesis using assms by (simp add: take_bit_nat_eq_self mask_eq_exp_minus_1)
qed

lemma unat_mask_u64: "is_small b \<Longrightarrow> unat (mask_u64 (bits b)) = mask (nbits b)"
  unfolding mask_u64_eq unat_mask mask_eq_exp_minus_1 [where ?'a = nat] by (simp add: is_small_iff min_def)

lemma small_xor_mask:
  assumes "wf_bv b" "is_small b"
  shows "unat (small b XOR mask_u64 (bits b)) = 2 ^ nbits b - 1 - uval b"
proof -
  have "unat (small b XOR mask_u64 (bits b)) = uval b XOR mask (nbits b)"
    using assms by (simp add: unsigned_xor_eq wf_small unat_mask_u64)
  then show ?thesis by (simp only: xor_mask_nat [OF wf_uval_less [OF assms(1)]])
qed

lemma pow_le_64: "is_small b \<Longrightarrow> (2 :: nat) ^ nbits b \<le> 2 ^ 64"
  by (rule power_increasing) (simp_all add: is_small_iff)

lemma not_assign_eq:
  assumes M: "malachite_ok M" and b: "wf_bv b"
  shows "not_assign M b = Inr (mk_int (bv_meta b) (- 1 - int (uval b)))"
proof -
  let ?n = "nbits b" and ?v = "2 ^ nbits b - 1 - uval b"
  have less: "uval b < 2 ^ ?n" by (rule wf_uval_less [OF b])
  then have i: "int ?v = (- 1 - int (uval b)) + 2 ^ ?n" by (simp add: of_nat_diff)
  have "int ?v < 2 ^ ?n" using i by simp
  with i have eq: "int ?v = (- 1 - int (uval b)) mod 2 ^ ?n"
    by (metis mod_add_self2 mod_pos_pos_trivial of_nat_0_le_iff)
  have mk: "mk_bv (bv_meta b) ?v = mk_int (bv_meta b) (- 1 - int (uval b))"
    by (rule mk_bv_mod_cong) (unfold nbits_width [symmetric] eq, simp)
  show ?thesis
  proof (cases "is_small b")
    case True
    then show ?thesis using mk b by (simp add: not_assign_def set_small_mk small_xor_mask)
  next
    case False
    then show ?thesis using mk b M less
      by (simp add: not_assign_def set_large_mk nt_sub_def malachite_okD wf_large less_eq_Suc_le flip: Suc_le_eq)
  qed
qed

lemma neg_assign_eq:
  assumes M: "malachite_ok M" and b: "wf_bv b"
  shows "neg_assign M b = Inr (mk_int (bv_meta b) (- int (uval b)))"
proof -
  let ?n = "nbits b" and ?v = "2 ^ nbits b - uval b"
  have less: "uval b < 2 ^ ?n" by (rule wf_uval_less [OF b])
  then have i: "int ?v = (- int (uval b)) + 2 ^ ?n" by (simp add: of_nat_diff)
  then have eq: "int ?v mod 2 ^ ?n = (- int (uval b)) mod 2 ^ ?n" by simp
  have mk: "mk_bv (bv_meta b) ?v = mk_int (bv_meta b) (- int (uval b))"
    by (rule mk_bv_mod_cong) (use eq in \<open>simp add: nbits_width\<close>)
  show ?thesis
  proof (cases "is_small b")
    case True
    let ?x = "small b XOR mask_u64 (bits b)"
    have x: "unat ?x + 1 = ?v" using less by (simp add: small_xor_mask [OF b True])
    have "set_small b (?x + 1) = mk_int (bv_meta b) (int ?v)"
    proof (rule set_small_int [OF True])
      show "uint (?x + 1) = int ?v mod 2 ^ 64"
        by (simp add: uint_word_ariths add.commute flip: x)
    qed
    also have "\<dots> = mk_bv (bv_meta b) ?v" by (rule mk_int_of_nat)
    finally show ?thesis using True mk by (simp add: neg_assign_def)
  next
    case False
    show ?thesis
    proof (cases "uval b = 0")
      case True
      then show ?thesis using False b mk_int_uval [OF b] by (simp add: neg_assign_def wf_large)
    next
      case nz: False
      with False show ?thesis using mk b M less
        by (simp add: neg_assign_def set_large_mk nt_sub_def malachite_okD wf_large)
    qed
  qed
qed

lemma bitop_less:
  assumes "(x :: nat) < 2 ^ n" "y < 2 ^ n"
  shows "x AND y < 2 ^ n" and "x OR y < 2 ^ n" and "x XOR y < 2 ^ n"
proof -
  have "take_bit n (x AND y) = x AND y" "take_bit n (x OR y) = x OR y" "take_bit n (x XOR y) = x XOR y"
    using assms by (simp_all add: take_bit_and take_bit_or take_bit_xor take_bit_nat_eq_self)
  then show "x AND y < 2 ^ n" "x OR y < 2 ^ n" "x XOR y < 2 ^ n"
    by (simp_all only: take_bit_nat_eq_self_iff)
qed

lemma bitand_assign_eq:
  assumes a: "wf_bv a" and b: "wf_bv b"
  shows "bitand_assign a b =
    (if bits a = bits b then Inr (mk_bv (bv_meta a) (uval a AND uval b)) else Inl Panicked)"
proof (cases "bits a = bits b")
  case True
  then have sb: "is_small b = is_small a" by (simp add: is_small_def)
  have "uval a AND uval b < 2 ^ nbits a"
    using wf_uval_less a b True by (metis bitop_less(1))
  with True sb a b show ?thesis
    by (simp add: bitand_assign_def expect_same_bits_def set_small_mk set_large_mk wf_large wf_small unsigned_and_eq)
qed (simp add: bitand_assign_def expect_same_bits_def)

lemma bitor_assign_eq:
  assumes a: "wf_bv a" and b: "wf_bv b"
  shows "bitor_assign a b =
    (if bits a = bits b then Inr (mk_bv (bv_meta a) (uval a OR uval b)) else Inl Panicked)"
proof (cases "bits a = bits b")
  case True
  then have sb: "is_small b = is_small a" by (simp add: is_small_def)
  have "uval a OR uval b < 2 ^ nbits a" using wf_uval_less a b True by (metis bitop_less(2))
  with True sb a b show ?thesis
    by (simp add: bitor_assign_def expect_same_bits_def set_small_mk set_large_mk wf_large wf_small unsigned_or_eq)
qed (simp add: bitor_assign_def expect_same_bits_def)

lemma bitxor_assign_eq:
  assumes a: "wf_bv a" and b: "wf_bv b"
  shows "bitxor_assign a b =
    (if bits a = bits b then Inr (mk_bv (bv_meta a) (uval a XOR uval b)) else Inl Panicked)"
proof (cases "bits a = bits b")
  case True
  then have sb: "is_small b = is_small a" by (simp add: is_small_def)
  have "uval a XOR uval b < 2 ^ nbits a" using wf_uval_less a b True by (metis bitop_less(3))
  with True sb a b show ?thesis
    by (simp add: bitxor_assign_def expect_same_bits_def set_small_mk set_large_mk wf_large wf_small unsigned_xor_eq)
qed (simp add: bitxor_assign_def expect_same_bits_def)

section \<open>Shifts\<close>

lemma shift_amount_eq:
  assumes "wf_bv b"
  shows "shift_amount b w = (if uval b < unat w then Some (word_of_nat (uval b)) else None)"
proof -
  have "unat w < 4294967296" using unat_lt_pow [of w] by simp
  then show ?thesis
    using assms by (auto simp: shift_amount_def u32_try_from_def wf_small wf_large word_less_nat_alt
        unat_word_of_nat)
qed

lemma unat_shift_amount_or_bits:
  assumes "wf_bv b" shows "unat (shift_amount_or_bits a b) = min (uval b) (nbits a)"
proof -
  have "nbits a < 4294967296" using unat_lt_pow [of "bits a"] by simp
  then show ?thesis using assms by (simp add: shift_amount_or_bits_def shift_amount_eq unat_word_of_nat)
qed

lemma shift_out_mod: "w \<le> n \<Longrightarrow> (i * 2 ^ n) mod 2 ^ w = (0 :: int)"
  by (simp add: le_imp_power_dvd)

lemma shl_assign_u32_eq:
  assumes M: "malachite_ok M" and b: "wf_bv b"
  shows "shl_assign_u32 M b n = mk_int (bv_meta b) (int (uval b) * 2 ^ unat n)"
proof (cases "is_small b")
  case True
  let ?v = "case checked_shl (small b) n of None \<Rightarrow> 0 | Some v \<Rightarrow> v"
  have "uint ?v = (int (uval b) * 2 ^ unat n) mod 2 ^ 64"
  proof (cases "unat n < 64")
    case n: True
    then show ?thesis using b True uint_push_bit [of "unat n" "small b"] by (simp add: checked_shl_def uint_small)
  next
    case False
    then show ?thesis using shift_out_mod [of 64 "unat n" "int (uval b)"] by (simp add: checked_shl_def)
  qed
  from set_small_int [OF True this] show ?thesis using True by (simp add: shl_assign_u32_def)
next
  case False
  show ?thesis
  proof (cases "bits b \<le> n")
    case True
    then have "nbits b \<le> unat n" by (simp add: word_le_nat_alt)
    then have "set_large b 0 = mk_int (bv_meta b) (int (uval b) * 2 ^ unat n)"
      using False by (intro set_large_int) (simp_all add: shift_out_mod)
    with True False show ?thesis by (simp add: shl_assign_u32_def)
  next
    case n: False
    with False M b show ?thesis
      by (simp add: shl_assign_u32_def mask_set_large_mk wf_large push_bit_eq_mult flip: mk_int_of_nat)
  qed
qed

lemma mod_shl_min: "(i * 2 ^ min k n) mod 2 ^ n = (i * 2 ^ k) mod (2 ^ n :: int)"
  by (simp add: min_def shift_out_mod)

lemma shl_assign_eq:
  assumes M: "malachite_ok M" and a: "wf_bv a" and b: "wf_bv b"
  shows "shl_assign M a b =
    (if bits a = bits b then Inr (mk_int (bv_meta a) (int (uval a) * 2 ^ uval b)) else Inl Panicked)"
proof -
  have "mk_int (bv_meta a) (int (uval a) * 2 ^ min (uval b) (nbits a)) =
      mk_int (bv_meta a) (int (uval a) * 2 ^ uval b)"
    by (rule mk_int_cong) (simp add: nbits_width mod_shl_min)
  then show ?thesis
    using assms by (simp add: shl_assign_def expect_same_bits_def shl_assign_u32_eq unat_shift_amount_or_bits)
qed

lemma or_high_bits:
  assumes "v < 2 ^ k" "k \<le> n"
  shows "v OR (mask n XOR mask k) = v + (2 ^ n - 2 ^ k :: nat)"
proof -
  have "take_bit k v AND (mask n XOR mask k) = 0"
    using assms(2) by (intro bit_eqI) (auto simp: bit_simps)
  then have "take_bit k v + (mask n XOR mask k) = take_bit k v OR (mask n XOR mask k)"
    by (rule disjunctive_add_eq_or)
  moreover have "mask n XOR mask k = 2 ^ n - (2 ^ k :: nat)"
  proof -
    have "(2 :: nat) ^ k \<le> 2 ^ n" using assms(2) by (intro power_increasing) simp_all
    moreover have "mask k = 2 ^ k - (1 :: nat)" by (rule mask_eq_exp_minus_1)
    moreover have "(0 :: nat) < 2 ^ k" by simp
    ultimately have "mask k < (2 :: nat) ^ n" by linarith
    then have "mask k XOR mask n = 2 ^ n - 1 - (mask k :: nat)" by (rule xor_mask_nat)
    then show ?thesis by (simp add: xor.commute mask_eq_exp_minus_1)
  qed
  ultimately show ?thesis using assms(1) by (simp add: take_bit_nat_eq_self)
qed

lemma div_sub_pow:
  assumes "k \<le> n" shows "(u - 2 ^ n) div 2 ^ k = u div 2 ^ k - (2 ^ (n - k) :: int)"
proof -
  have "(2 :: int) ^ n = 2 ^ (n - k) * 2 ^ k" using assms by (simp flip: power_add)
  then have "u - 2 ^ n = u + (- (2 ^ (n - k))) * 2 ^ k" by simp
  moreover have "(u + c * 2 ^ k) div 2 ^ k = u div 2 ^ k + c" for c :: int by simp
  ultimately show ?thesis by (metis diff_conv_add_uminus)
qed

lemma sval_shifted_out:
  assumes "wf_bv b" "nbits b \<le> k"
  shows "sval b div 2 ^ k = (if sval b < 0 then - 1 else 0)"
proof -
  have "(2 :: int) ^ (nbits b - 1) \<le> 2 ^ k" using assms(2) by (intro power_increasing) simp_all
  with sval_bounds [OF assms(1)] have "- (2 ^ k) \<le> sval b" "sval b < 2 ^ k" by linarith+
  then have "(sval b + 1 * 2 ^ k) div 2 ^ k = 0" if "sval b < 0"
    using that by (intro div_pos_pos_trivial) simp_all
  then have "sval b div 2 ^ k = - 1" if "sval b < 0"
    using that by (subst (asm) div_mult_self1) simp_all
  with \<open>sval b < 2 ^ k\<close> show ?thesis by (simp add: zdiv_eq_0_iff)
qed

text \<open>The value with its sign bits filled in, for a shift by less than the width.\<close>

lemma fill_residue:
  assumes M: "malachite_ok M" and b: "wf_bv b" and n: "n < nbits b"
  shows "int ((if ar \<and> msb_bv M b then uval b div 2 ^ n + (2 ^ nbits b - 2 ^ (nbits b - n)) else uval b div 2 ^ n))
      = ((if ar then sval b else int (uval b)) div 2 ^ n) mod 2 ^ nbits b"
proof -
  let ?w = "nbits b"
  have "uval b < 2 ^ (?w - n) * 2 ^ n" using wf_uval_less [OF b] n by (simp flip: power_add)
  then have "uval b div 2 ^ n < 2 ^ (?w - n)" by (rule less_mult_imp_div_less)
  then have q: "int (uval b) div 2 ^ n < 2 ^ (?w - n)" 
    using int_less_pow by (fastforce simp: zdiv_int)
  have nonneg: "0 \<le> int (uval b) div 2 ^ n" by (intro pos_imp_zdiv_nonneg_iff [THEN iffD2]) simp_all
  have le: "(2 :: int) ^ (?w - n) \<le> 2 ^ ?w" by (intro power_increasing) simp_all
  show ?thesis
  proof (cases "ar \<and> msb_bv M b")
    case True
    then have s: "sval b = int (uval b) - 2 ^ ?w" using M b by (simp add: sval_def msb_iff)
    have "int (2 ^ ?w - 2 ^ (?w - n)) = 2 ^ ?w - (2 :: int) ^ (?w - n)"
      using le by (simp add: of_nat_diff)
    moreover have "sval b div 2 ^ n = int (uval b) div 2 ^ n - 2 ^ (?w - n)"
      using n by (simp add: s div_sub_pow)
    ultimately have e: "int (uval b div 2 ^ n + (2 ^ ?w - 2 ^ (?w - n))) = sval b div 2 ^ n + 2 ^ ?w"
      and d: "sval b div 2 ^ n = int (uval b) div 2 ^ n - 2 ^ (?w - n)"
      by (simp_all only: of_nat_add zdiv_int of_nat_power of_nat_numeral)
    have "0 \<le> sval b div 2 ^ n + 2 ^ ?w" "sval b div 2 ^ n + 2 ^ ?w < 2 ^ ?w"
      using q le d nonneg by linarith+
    from mod_pos_pos_trivial [OF this] show ?thesis
      using True by (simp only: e mod_add_self2 if_True simp_thms)
  next
    case False
    then have "(if ar then sval b else int (uval b)) = int (uval b)" using M b by (auto simp: sval_def msb_iff)
    moreover have "int (uval b) div 2 ^ n mod 2 ^ ?w = int (uval b) div 2 ^ n"
      using q le nonneg by (intro mod_pos_pos_trivial) linarith+
    ultimately show ?thesis using False by (simp only: if_False zdiv_int of_nat_power of_nat_numeral)
  qed
qed

lemma uval_less_above: "wf_bv b \<Longrightarrow> nbits b \<le> j \<Longrightarrow> int (uval b) < 2 ^ j"
  using int_less_pow [OF wf_uval_less, of b] power_increasing [of "nbits b" j "2 :: int"] by linarith

lemma unat_high_mask:
  assumes "is_small b" "n < nbits b"
  shows "unat (mask_u64 (bits b) XOR drop_bit n (mask_u64 (bits b))) = mask (nbits b) XOR mask (nbits b - n)"
  using assms by (simp add: unsigned_xor_eq unat_drop_bit_eq unat_mask_u64 drop_bit_mask_eq)

lemma shr_assign_with_eq:
  assumes M: "malachite_ok M" and b: "wf_bv b"
  shows "shr_assign_with M b ar n =
    mk_int (bv_meta b) ((if ar then sval b else int (uval b)) div 2 ^ unat n)"
proof (cases "bits b \<le> n")
  case True
  then have le: "nbits b \<le> unat n" by (simp add: word_le_nat_alt)
  have "int (uval b) < 2 ^ unat n"
    using uval_less_above [OF b le] .
  then have q: "(if ar then sval b else int (uval b)) div 2 ^ unat n = (if ar \<and> msb_bv M b then - 1 else 0)"
    using sval_shifted_out [OF b le] by (simp add: msb_sval [OF M b])
  have "set_small b (if f then - 1 else 0) = mk_int (bv_meta b) (if f then - 1 else 0)" if "is_small b" for f
    by (rule set_small_int [OF that]) (simp add: unsigned_minus_1_eq_mask mask_eq_exp_minus_1)
  moreover have "set_large b (if f then nt_low_mask M (nbits b) else 0) = mk_int (bv_meta b) (if f then - 1 else 0)"
    if "\<not> is_small b" for f
    using that M by (intro set_large_int) (simp_all add: malachite_okD of_nat_diff zmod_minus1)
  ultimately show ?thesis using True by (simp add: shr_assign_with_def Let_def q)
next
  case False
  then have less: "unat n < nbits b" by (simp add: word_le_nat_alt)
  let ?f = "ar \<and> msb_bv M b" and ?i = "(if ar then sval b else int (uval b)) div 2 ^ unat n"
  let ?h = "mask (nbits b) XOR mask (nbits b - unat n)" and ?q = "uval b div 2 ^ unat n"
  have "uval b < 2 ^ (nbits b - unat n) * 2 ^ unat n"
    using wf_uval_less [OF b] less by (simp flip: power_add)
  then have "?q < 2 ^ (nbits b - unat n)" by (rule less_mult_imp_div_less)
  then have high: "?q OR ?h = ?q + (2 ^ nbits b - 2 ^ (nbits b - unat n))" by (rule or_high_bits) simp
  have v: "int (if ?f then ?q OR ?h else ?q) = ?i mod 2 ^ nbits b"
    unfolding high by (rule fill_residue [OF M b less])
  have mk: "mk_bv (bv_meta b) (if ?f then ?q OR ?h else ?q) = mk_int (bv_meta b) ?i"
    by (rule mk_bv_mod_cong) (simp only: v nbits_width [symmetric] mod_mod_trivial)
  show ?thesis
  proof (cases "is_small b")
    case True
    with False b mk show ?thesis
      by (simp add: shr_assign_with_def Let_def set_small_mk unsigned_or_eq unat_high_mask [OF True less]
          unat_drop_bit_eq wf_small drop_bit_eq_div [where ?'a = nat] split: if_splits)
  next
    case large: False
    have sub: "unat (bits b - n) = nbits b - unat n" using False by (simp add: unat_sub)
    have "(if ?f then ?q OR ?h else ?q) < 2 ^ nbits b" using v by (metis int_le_pow pos_mod_bound zero_less_numeral zero_less_power)
    with False large b mk M show ?thesis
      by (simp add: shr_assign_with_def Let_def set_large_mk wf_large drop_bit_eq_div malachite_okD sub
          mask_eq_exp_minus_1 split: if_splits)
  qed
qed

lemma mod_shr_min:
  assumes "wf_bv b"
  shows "(if ar then sval b else int (uval b)) div 2 ^ min k (nbits b) = (if ar then sval b else int (uval b)) div 2 ^ k"
proof (cases "k < nbits b")
  case False
  have "int (uval b) < 2 ^ j" if "nbits b \<le> j" for j
    using uval_less_above [OF assms that] .
  with False sval_shifted_out [OF assms] show ?thesis by (simp add: min_def)
qed simp

lemma shr_assign_eq:
  assumes "malachite_ok M" "wf_bv a" "wf_bv b"
  shows "shr_assign M a b =
    (if bits a = bits b then Inr (mk_int (bv_meta a) (ival a div 2 ^ uval b)) else Inl Panicked)"
  using assms mod_shr_min [OF assms(2), of "is_signed a" "uval b"]
  by (simp add: shr_assign_def expect_same_bits_def shr_assign_with_eq unat_shift_amount_or_bits ival_def)

lemma signed_shr_eq:
  assumes "malachite_ok M" "wf_bv a" "wf_bv b"
  shows "signed_shr M a b =
    (if bits a = bits b then Inr (mk_int (bv_meta a) (sval a div 2 ^ uval b)) else Inl Panicked)"
  using assms mod_shr_min [OF assms(2), of True "uval b"]
  by (simp add: signed_shr_def expect_same_bits_def shr_assign_with_eq unat_shift_amount_or_bits)

section \<open>Division and remainder\<close>

lemma udiv_assign_eq:
  assumes a: "wf_bv a" and b: "wf_bv b" and ab: "bits a = bits b"
  shows "udiv_assign a b =
    (if uval b = 0 then Inl DivideByZero else Inr (mk_bv (bv_meta a) (uval a div uval b)))"
proof -
  have sb: "is_small b = is_small a" using ab by (simp add: is_small_def)
  have "uval a div uval b < 2 ^ nbits a"
    using wf_uval_less [OF a] by (rule le_less_trans [OF div_le_dividend])
  moreover have "small b = 0 \<longleftrightarrow> uval b = 0" if "is_small b" using that b by (simp flip: wf_small unat_eq_0)
  ultimately show ?thesis using sb a b
    by (auto simp: udiv_assign_def set_small_mk set_large_mk wf_large unat_div wf_small)
qed

lemma urem_assign_eq:
  assumes a: "wf_bv a" and b: "wf_bv b" and ab: "bits a = bits b"
  shows "urem_assign a b =
    (if uval b = 0 then Inl DivideByZero else Inr (mk_bv (bv_meta a) (uval a mod uval b)))"
proof -
  have sb: "is_small b = is_small a" using ab by (simp add: is_small_def)
  have "uval a mod uval b < 2 ^ nbits a"
    using wf_uval_less [OF a] by (rule le_less_trans [OF mod_less_eq_dividend])
  moreover have "small b = 0 \<longleftrightarrow> uval b = 0" if "is_small b" using that b by (simp flip: wf_small unat_eq_0)
  ultimately show ?thesis using sb a b
    by (auto simp: urem_assign_def set_small_mk set_large_mk wf_large unat_mod wf_small)
qed

text \<open>\<open>sel neg b\<close> reads a vector as a negative number when the flag says so.\<close>

definition sel :: "bool \<Rightarrow> bitvec \<Rightarrow> int" where
  "sel neg b = (if neg then int (uval b) - 2 ^ nbits b else int (uval b))"

lemma neg_assign_pos:
  assumes M: "malachite_ok M" and b: "wf_bv b" and pos: "0 < uval b"
  obtains x where "neg_assign M b = Inr x" "wf_bv x" "bv_meta x = bv_meta b" "bits x = bits b"
    "uval x = 2 ^ nbits b - uval b"
proof -
  let ?x = "mk_bv (bv_meta b) (2 ^ nbits b - uval b)"
  have less: "uval b < 2 ^ nbits b" by (rule wf_uval_less [OF b])
  then have "int (2 ^ nbits b - uval b) = - int (uval b) + 2 ^ nbits b" by (simp add: of_nat_diff)
  then have "?x = mk_int (bv_meta b) (- int (uval b))"
    by (intro mk_bv_mod_cong) (simp only: nbits_width mod_add_self2)
  then have "neg_assign M b = Inr ?x" by (simp add: neg_assign_eq [OF M b])
  moreover have "wf_bv ?x" using wf_width [OF b] by simp
  moreover have "uval ?x = 2 ^ nbits b - uval b" using less pos by (simp flip: nbits_width)
  ultimately show thesis 
    by (intro that [of ?x]) (simp_all add: bits_def)
qed

lemma sel_magnitude:
  assumes "wf_bv b" "neg \<longrightarrow> 0 < uval b"
  shows "\<bar>sel neg b\<bar> = int (if neg then 2 ^ nbits b - uval b else uval b)"
    and "sgn (sel neg b) = (if neg then - 1 else if uval b = 0 then 0 else 1)"
  using assms int_less_pow [OF wf_uval_less [OF assms(1)]] wf_uval_less [OF assms(1)]
  by (auto simp: sel_def of_nat_diff)

lemma mk_int_0: "mk_int m 0 = mk_bv m 0"
  by (simp add: mk_int_def)

lemma neg_assign_nat:
  assumes "malachite_ok M" "0 < width m"
  shows "neg_assign M (mk_bv m v) = Inr (mk_int m (- int v))"
proof -
  have "mk_int m (- int (v mod 2 ^ width m)) = mk_int m (- int v)"
    by (rule mk_int_cong) (simp add: zmod_int mod_minus_eq)
  with assms show ?thesis by (simp add: neg_assign_eq)
qed

lemma div_assign_with_eq:
  assumes M: "malachite_ok M" and a: "wf_bv a" and b: "wf_bv b" and ab: "bits a = bits b"
    and l: "lneg \<longrightarrow> 0 < uval a" and r: "rneg \<longrightarrow> 0 < uval b"
  shows "div_assign_with M a lneg rneg b =
    (if uval b = 0 then Inl DivideByZero else Inr (mk_int (bv_meta a) (sel lneg a sdiv sel rneg b)))"
proof -
  note mag = sel_magnitude [OF a l] sel_magnitude [OF b r]
  obtain x where x: "lneg \<Longrightarrow> neg_assign M a = Inr x" "lneg \<Longrightarrow> wf_bv x" "bv_meta x = bv_meta a"
      "bits x = bits a" "lneg \<Longrightarrow> uval x = 2 ^ nbits a - uval a"
    using neg_assign_pos [OF M a] l by metis
  obtain y where y: "rneg \<Longrightarrow> neg_assign M b = Inr y" "rneg \<Longrightarrow> wf_bv y" "bv_meta y = bv_meta b"
      "bits y = bits b" "rneg \<Longrightarrow> uval y = 2 ^ nbits b - uval b"
    using neg_assign_pos [OF M b] r by metis
  have nz: "\<not> 2 ^ nbits b \<le> uval b" using wf_uval_less [OF b] by simp
  note w = wf_width [OF a] and neg_nat = neg_assign_nat [OF M, of "bv_meta a"]
  show ?thesis
    unfolding signed_divide_int_def mag
    using a b ab l r x y w
    by (cases lneg; cases rneg)
      (auto simp add: div_assign_with_def udiv_assign_eq neg_nat nz mk_int_of_nat mk_int_0 simp flip: zdiv_int)
qed

lemma rem_assign_with_eq:
  assumes M: "malachite_ok M" and a: "wf_bv a" and b: "wf_bv b" and ab: "bits a = bits b"
    and l: "lneg \<longrightarrow> 0 < uval a" and r: "rneg \<longrightarrow> 0 < uval b"
  shows "rem_assign_with M a lneg rneg b =
    (if uval b = 0 then Inl DivideByZero else Inr (mk_int (bv_meta a) (sel lneg a smod sel rneg b)))"
proof -
  note mag = sel_magnitude [OF a l] sel_magnitude [OF b r]
  obtain x where x: "lneg \<Longrightarrow> neg_assign M a = Inr x" "lneg \<Longrightarrow> wf_bv x" "bv_meta x = bv_meta a"
      "bits x = bits a" "lneg \<Longrightarrow> uval x = 2 ^ nbits a - uval a"
    using neg_assign_pos [OF M a] l by metis
  obtain y where y: "rneg \<Longrightarrow> neg_assign M b = Inr y" "rneg \<Longrightarrow> wf_bv y" "bv_meta y = bv_meta b"
      "bits y = bits b" "rneg \<Longrightarrow> uval y = 2 ^ nbits b - uval b"
    using neg_assign_pos [OF M b] r by metis
  have nz: "\<not> 2 ^ nbits b \<le> uval b" using wf_uval_less [OF b] by simp
  note w = wf_width [OF a] and neg_nat = neg_assign_nat [OF M, of "bv_meta a"]
  show ?thesis
    unfolding signed_modulo_int_def mag
    using a b ab l r x y w
    by (cases lneg; cases rneg)
      (auto simp add: rem_assign_with_def urem_assign_eq neg_nat nz mk_int_of_nat mk_int_0 simp flip: zmod_int)
qed

lemma sel_ival:
  assumes "malachite_ok M" "wf_bv b"
  shows "sel (is_negative M b) b = ival b" and "sel (msb_bv M b) b = sval b"
    and "is_negative M b \<longrightarrow> 0 < uval b" and "msb_bv M b \<longrightarrow> 0 < uval b"
proof -
  have "0 < (2 :: nat) ^ (nbits b - 1)" by simp
  then have "2 ^ (nbits b - 1) \<le> uval b \<Longrightarrow> 0 < uval b" by linarith
  then show "sel (is_negative M b) b = ival b" "sel (msb_bv M b) b = sval b"
    "is_negative M b \<longrightarrow> 0 < uval b" "msb_bv M b \<longrightarrow> 0 < uval b"
    using assms by (auto simp: sel_def is_negative_def ival_def sval_def msb_iff)
qed

lemma div_assign_eq:
  assumes "malachite_ok M" "wf_bv a" "wf_bv b"
  shows "div_assign M a b =
    (if bits a \<noteq> bits b then Inl Panicked else if uval b = 0 then Inl DivideByZero
     else Inr (mk_int (bv_meta a) (ival a sdiv ival b)))"
  using assms by (simp add: div_assign_def expect_same_bits_def div_assign_with_eq sel_ival Let_def)

lemma rem_assign_eq:
  assumes "malachite_ok M" "wf_bv a" "wf_bv b"
  shows "rem_assign M a b =
    (if bits a \<noteq> bits b then Inl Panicked else if uval b = 0 then Inl DivideByZero
     else Inr (mk_int (bv_meta a) (ival a smod ival b)))"
  using assms by (simp add: rem_assign_def expect_same_bits_def rem_assign_with_eq sel_ival Let_def)

lemma signed_div_eq:
  assumes "malachite_ok M" "wf_bv a" "wf_bv b"
  shows "signed_div M a b =
    (if bits a \<noteq> bits b then Inl Panicked else if uval b = 0 then Inl DivideByZero
     else Inr (mk_int (bv_meta a) (sval a sdiv sval b)))"
  using assms by (simp add: signed_div_def expect_same_bits_def div_assign_with_eq sel_ival Let_def)

lemma signed_rem_eq:
  assumes "malachite_ok M" "wf_bv a" "wf_bv b"
  shows "signed_rem M a b =
    (if bits a \<noteq> bits b then Inl Panicked else if uval b = 0 then Inl DivideByZero
     else Inr (mk_int (bv_meta a) (sval a smod sval b)))"
  using assms by (simp add: signed_rem_def expect_same_bits_def rem_assign_with_eq sel_ival Let_def)

section \<open>Signed readings and magnitudes\<close>

lemma sval_unique:
  assumes b: "wf_bv b" and i: "i mod 2 ^ nbits b = int (uval b)"
    and lo: "- (2 ^ (nbits b - 1)) \<le> i" and hi: "i < 2 ^ (nbits b - 1)"
  shows "sval b = i"
proof -
  have h: "(2 :: int) ^ nbits b = 2 * 2 ^ (nbits b - 1)" by (rule half_pow_int [OF wf_pos [OF b]])
  have c: "2 ^ (nbits b - 1) \<le> uval b \<longleftrightarrow> 2 ^ (nbits b - 1) \<le> int (uval b)"
    by (metis int_le_pow linorder_not_less)
  show ?thesis
  proof (cases "0 \<le> i")
    case True
    then have "i mod 2 ^ nbits b = i" using hi h by (intro mod_pos_pos_trivial) linarith+
    then show ?thesis using i hi c by (simp add: sval_def)
  next
    case False
    then have "(i + 2 ^ nbits b) mod 2 ^ nbits b = i + 2 ^ nbits b"
      using lo h by (intro mod_pos_pos_trivial) linarith+
    then have "int (uval b) = i + 2 ^ nbits b" using i by simp
    moreover have "2 ^ (nbits b - 1) \<le> int (uval b)" using calculation lo h by linarith
    ultimately show ?thesis using c by (simp add: sval_def)
  qed
qed

lemma sval_mk_int:
  assumes "0 < width m" "- (2 ^ (width m - 1)) \<le> i" "i < 2 ^ (width m - 1)"
  shows "sval (mk_int m i) = i"
proof (rule sval_unique)
  show "wf_bv (mk_int m i)" using assms by simp
  have n: "nbits (mk_int m i) = width m" by (simp add: nbits_width del: bits_mk_int)
  show "i mod 2 ^ nbits (mk_int m i) = int (uval (mk_int m i))" unfolding n by simp
  show "- (2 ^ (nbits (mk_int m i) - 1)) \<le> i" "i < 2 ^ (nbits (mk_int m i) - 1)"
    unfolding n using assms by simp_all
qed

lemma small_signed_eq:
  assumes b: "wf_bv b" and s: "is_small b"
  shows "small_signed b = sval b"
proof -
  let ?n = "nbits b" and ?s = "64 - nbits b"
  have n: "?n \<le> 64" "0 < ?n" using s wf_pos [OF b] by (simp_all add: is_small_iff)
  have shift: "unat (64 - bits b) = ?s" using s by (simp add: is_small_def unat_sub)
  have "sval b mod 2 ^ ?n = int (uval b) mod 2 ^ ?n" by (rule sval_mod)
  then have "(sval b * 2 ^ ?s) mod (2 ^ ?n * 2 ^ ?s) = (int (uval b) * 2 ^ ?s) mod (2 ^ ?n * 2 ^ ?s)"
    by (simp only: mod_mult_mult2)
  moreover have "(2 :: int) ^ ?n * 2 ^ ?s = 2 ^ 64" using n by (simp only: flip: power_add) simp
  moreover define j where "j = sval b * 2 ^ ?s"
  ultimately have "j mod 2 ^ 64 = (int (uval b) * 2 ^ ?s) mod 2 ^ 64" by (simp only: j_def)
  then have "word_of_int j = push_bit ?s (small b)"
    using uint_push_bit [of ?s "small b"]
    by (intro word_uint_eqI) (simp add: uint_small [OF b s] uint_word_of_int)
  moreover have "- (2 ^ 63) \<le> j \<and> j < 2 ^ 63"
  proof -
    have p: "(2 :: int) ^ 63 = 2 ^ (?n - 1) * 2 ^ ?s" using n by (simp only: flip: power_add) simp
    show ?thesis unfolding p j_def using sval_bounds [OF b] by (simp flip: mult_minus_left)
  qed
  then have "sint (word_of_int j :: u64) = j"
    by (subst int_word_sint) simp
  ultimately have "sint (push_bit ?s (small b)) = sval b * 2 ^ ?s" by (simp add: j_def)
  then show ?thesis by (simp add: small_signed_def shift Let_def sint_signed_drop_bit_eq drop_bit_eq_div)
qed

lemma large_signed_eq: "malachite_ok M \<Longrightarrow> wf_bv b \<Longrightarrow> \<not> is_small b \<Longrightarrow> large_signed M b = sval b"
  by (simp add: large_signed_def sval_def msb_iff wf_large malachite_okD)

lemma magnitude:
  assumes "wf_bv b"
  shows "nat \<bar>sval b\<bar> = (if 2 ^ (nbits b - 1) \<le> uval b then 2 ^ nbits b - uval b else uval b)"
  using int_less_pow [OF wf_uval_less [OF assms]] wf_uval_less [OF assms]
  by (simp add: sval_def nat_diff_distrib nat_power_eq)

lemma small_magnitude_eq:
  assumes M: "malachite_ok M" and b: "wf_bv b" and s: "is_small b"
  shows "unat (small_magnitude M b) = nat \<bar>sval b\<bar>"
proof (cases "msb_bv M b")
  case True
  let ?x = "small b XOR mask_u64 (bits b)"
  have "0 < uval b" using True sel_ival(4) [OF M b] by simp
  have "unat ?x + 1 = 2 ^ nbits b - uval b"
    using wf_uval_less [OF b] by (simp add: small_xor_mask [OF b s])
  moreover have "2 ^ nbits b - uval b < 2 ^ 64" using pow_le_64 [OF s] \<open>0 < uval b\<close> by simp
  ultimately have "unat (?x + 1) = 2 ^ nbits b - uval b" by (simp add: unat_add_no_wrap)
  with True M b show ?thesis by (simp add: small_magnitude_def magnitude msb_iff)
next
  case False
  with M b s show ?thesis by (simp add: small_magnitude_def magnitude msb_iff wf_small)
qed

lemma large_magnitude_eq:
  assumes M: "malachite_ok M" and b: "wf_bv b" and s: "\<not> is_small b"
  shows "large_magnitude M b = Inr (nat \<bar>sval b\<bar>)"
  using assms wf_uval_less [OF b]
  by (simp add: large_magnitude_def magnitude msb_iff wf_large malachite_okD nt_sub_def)

section \<open>The greatest common divisor family\<close>

lemma from_small_wf: "is_small a \<Longrightarrow> from_small v (bv_meta a) = mk_bv (bv_meta a) (unat v)"
  and from_large_wf: "malachite_ok M \<Longrightarrow> \<not> is_small a \<Longrightarrow> from_large M n (bv_meta a) = mk_bv (bv_meta a) n"
  by (simp_all add: small_width from_small_mk from_large_mk)

lemma gcd_bv_eq:
  assumes M: "malachite_ok M" and a: "wf_bv a" and b: "wf_bv b"
  shows "gcd_bv M a b =
    (if bits a \<noteq> bits b then Inl Panicked
     else if uval a = 0 then Inr b
     else if uval b = 0 then Inr a
     else Inr (mk_bv (bv_meta a) (gcd (nat \<bar>sval a\<bar>) (nat \<bar>sval b\<bar>))))"
proof (cases "bits a = bits b")
  case True
  then have sb: "is_small b = is_small a" by (simp add: is_small_def)
  define x y where "x = nat \<bar>sval a\<bar>" and "y = nat \<bar>sval b\<bar>"
  note mag = small_magnitude_eq [OF M a, folded x_def] small_magnitude_eq [OF M b, folded y_def]
    large_magnitude_eq [OF M a, folded x_def] large_magnitude_eq [OF M b, folded y_def]
  show ?thesis unfolding x_def [symmetric] y_def [symmetric]
    using True assms sb mag
    by (simp add: gcd_bv_def expect_same_bits_def is_zero_iff from_small_wf from_large_wf malachite_okD)
qed (simp add: gcd_bv_def expect_same_bits_def)

lemma lcm_bv_eq:
  assumes M: "malachite_ok M" and a: "wf_bv a" and b: "wf_bv b"
  shows "lcm_bv M a b =
    (if bits a \<noteq> bits b then Inl Panicked
     else if is_small a \<and> 2 ^ 64 \<le> lcm (nat \<bar>sval a\<bar>) (nat \<bar>sval b\<bar>) then Inl ArithmeticOverflow
     else Inr (mk_bv (bv_meta a) (lcm (nat \<bar>sval a\<bar>) (nat \<bar>sval b\<bar>))))"
proof (cases "bits a = bits b")
  case True
  then have sb: "is_small b = is_small a" by (simp add: is_small_def)
  define x y where "x = nat \<bar>sval a\<bar>" and "y = nat \<bar>sval b\<bar>"
  note mag = small_magnitude_eq [OF M a, folded x_def] small_magnitude_eq [OF M b, folded y_def]
    large_magnitude_eq [OF M a, folded x_def] large_magnitude_eq [OF M b, folded y_def]
  show ?thesis unfolding x_def [symmetric] y_def [symmetric]
    using True assms sb mag
    by (simp add: lcm_bv_def expect_same_bits_def from_small_wf from_large_wf malachite_okD
        malachite_u64_lcm unat_word_of_nat)
qed (simp add: lcm_bv_def expect_same_bits_def)

lemma residue_product:
  assumes "wf_bv a"
  shows "(int (uval a) * int (nat (x mod 2 ^ nbits a))) mod 2 ^ nbits a = (sval a * x) mod 2 ^ nbits a"
  using sval_mod [of a] by (metis int_nat_mod_pow mod_mult_eq mod_mod_trivial)

lemma bezout_residue:
  assumes a: "wf_bv a" and b: "wf_bv b" and ab: "nbits a = nbits b"
    and g: "sval a * x + sval b * y = g"
  shows "(int (uval a) * int (nat (x mod 2 ^ nbits a)) + int (uval b) * int (nat (y mod 2 ^ nbits a)))
    mod 2 ^ nbits a = g mod 2 ^ nbits a"
proof -
  let ?p = "2 ^ nbits a :: int"
  have "(int (uval a) * int (nat (x mod ?p)) + int (uval b) * int (nat (y mod ?p))) mod ?p =
      ((int (uval a) * int (nat (x mod ?p))) mod ?p + (int (uval b) * int (nat (y mod ?p))) mod ?p) mod ?p"
    by (simp only: mod_add_eq)
  also have "\<dots> = ((sval a * x) mod ?p + (sval b * y) mod ?p) mod ?p"
    by (simp only: residue_product [OF a] residue_product [OF b, folded ab])
  also have "\<dots> = g mod ?p" by (simp only: mod_add_eq g)
  finally show ?thesis .
qed

lemma gcd_ext_eq:
  assumes M: "malachite_ok M" and a: "wf_bv a" and b: "wf_bv b" and ab: "bits a = bits b"
    and nza: "uval a \<noteq> 0" and nzb: "uval b \<noteq> 0"
  obtains x y where "gcd_ext M a b =
      Inr (mk_int (bv_meta a) (gcd (sval a) (sval b)), mk_int (bv_meta a) x, mk_int (bv_meta a) y)"
    and "sval a * x + sval b * y = gcd (sval a) (sval b)"
proof (cases "is_small a")
  case True
  then have sb: "is_small b" using ab by (simp add: is_small_def)
  have n: "nbits c - 1 \<le> 63" if "is_small c" for c using that by (simp add: is_small_iff)
  have "is_i64 (sval c)" if "wf_bv c" "is_small c" for c
    using sval_bounds [OF that(1)] power_increasing [OF n [OF that(2)], of "2 :: int"]
    by (simp add: is_i64_def)
  then have i: "is_i64 (sval a)" "is_i64 (sval b)" using a b True sb by simp_all
  obtain g x y where xg: "i64_extended_gcd M (sval a) (sval b) = (g, x, y)" by (metis prod_cases3)
  from malachite_extended_gcd(1) [OF M xg i]
  have g: "int (unat g) = gcd (sval a) (sval b)" and bz: "sval a * x + sval b * y = gcd (sval a) (sval b)"
    by auto
  have "mk_bv (bv_meta a) (unat (word_of_int z :: u64)) = mk_int (bv_meta a) z" for z
    using True pow64_mod [of "width (bv_meta a)" z]
    by (intro mk_bv_mod_cong) (simp add: unat_word_of_int small_width)
  then have "gcd_ext M a b =
      Inr (mk_int (bv_meta a) (gcd (sval a) (sval b)), mk_int (bv_meta a) x, mk_int (bv_meta a) y)"
    using True sb a b ab nza nzb xg
    by (simp add: gcd_ext_def expect_same_bits_def is_zero_iff small_signed_eq from_small_wf flip: mk_int_of_nat g)
  then show thesis by (rule that) (rule bz)
next
  case False
  then have sb: "\<not> is_small b" using ab by (simp add: is_small_def)
  obtain g x y where xg: "it_extended_gcd M (sval a) (sval b) = (g, x, y)" by (metis prod_cases3)
  from malachite_extended_gcd(2) [OF M xg]
  have g: "int g = gcd (sval a) (sval b)" and bz: "sval a * x + sval b * y = gcd (sval a) (sval b)"
    by auto
  have w: "width (bv_meta b) = width (bv_meta a)" using ab by (simp flip: nbits_width)
  have "gcd_ext M a b =
      Inr (mk_int (bv_meta a) (gcd (sval a) (sval b)), mk_int (bv_meta a) x, mk_int (bv_meta a) y)"
    using False sb a b ab nza nzb xg M w
    by (simp add: gcd_ext_def expect_same_bits_def is_zero_iff large_signed_eq from_large_wf malachite_okD
        nbits_width mk_int_of_nat flip: g) (simp add: mk_int_def)
  then show thesis by (rule that) (rule bz)
qed

section \<open>Carries and borrows\<close>

lemma wrap_count:
  fixes s h :: int
  assumes "- (2 * h) \<le> s" "s < 2 * h" and "z = s + 2 * h * k" "- h \<le> z" "z < h"
  shows "k = 0 \<or> k = 1 \<or> k = - 1"
proof (rule ccontr)
  assume "\<not> (k = 0 \<or> k = 1 \<or> k = - 1)"
  then have "2 \<le> k \<or> k \<le> - 2" by arith
  moreover have h: "0 < h" using assms by simp
  moreover have False if "2 \<le> k"
    using mult_left_mono [OF that, of "2 * h"] h assms by linarith
  moreover have False if "k \<le> - 2"
    using mult_left_mono [OF that, of "2 * h"] h assms by linarith
  ultimately show False by blast
qed

lemma wrapped_sign:
  fixes x y h :: int
  assumes "- h \<le> x" "x < h" "- h \<le> y" "y < h" "- h \<le> z" "z < h"
  shows "z = x + y + 2 * h * k \<Longrightarrow>
      ((z < 0) \<noteq> (x < 0) \<and> ((x < 0) \<noteq> (y < 0)) \<noteq> True) \<longleftrightarrow> x + y < - h \<or> h \<le> x + y"
    and "z = x - y + 2 * h * k \<Longrightarrow>
      ((x < 0) \<noteq> (z < 0) \<and> ((z < 0) \<noteq> (y < 0)) \<noteq> True) \<longleftrightarrow> x - y < - h \<or> h \<le> x - y"
  using assms wrap_count [of h "x + y" z k] wrap_count [of h "x - y" z k] by auto

lemma sval_wrapped:
  assumes "0 < width m"
  obtains k where "sval (mk_int m i) = i + 2 ^ width m * k"
proof -
  have "sval (mk_int m i) mod 2 ^ width m = i mod 2 ^ width m"
    using sval_cong [of "mk_int m i"] by simp
  then obtain k where "sval (mk_int m i) - i = 2 ^ width m * k"
    using mod_eq_dvd_iff by (metis dvdE)
  then show thesis by (intro that [of k]) simp
qed

lemma width_half: "wf_bv b \<Longrightarrow> (2 :: int) ^ width (bv_meta b) = 2 * 2 ^ (nbits b - 1)"
  using half_pow_int [OF wf_pos, of b] by (simp add: nbits_width)

lemma signed_carry_eq:
  assumes M: "malachite_ok M" and a: "wf_bv a" and b: "wf_bv b" and ab: "bits a = bits b"
  shows "signed_carry M a b =
    Inr (sval a + sval b < - (2 ^ (nbits a - 1)) \<or> 2 ^ (nbits a - 1) \<le> sval a + sval b)"
proof -
  let ?s = "mk_int (bv_meta a) (sval a + sval b)"
  have "(sval a + sval b) mod 2 ^ width (bv_meta a) = (int (uval a) + int (uval b)) mod 2 ^ width (bv_meta a)"
    using sval_mod [of a] sval_mod [of b] ab by (metis mod_add_eq nbits_width)
  then have s: "add_assign M a b = Inr ?s"
    using M a b ab by (simp add: add_assign_eq) (metis mk_int_cong)
  obtain k where k: "sval ?s = sval a + sval b + 2 ^ width (bv_meta a) * k"
    using sval_wrapped [OF wf_width [OF a]] by blast
  have ws: "wf_bv ?s" and ns: "nbits ?s = nbits a" using wf_width [OF a] by (simp_all add: nbits_width bits_def)
  from wrapped_sign(1) [of "2 ^ (nbits a - 1)" "sval a" "sval b" "sval ?s" k]
  show ?thesis
    using sval_bounds [OF a] sval_bounds [OF b] sval_bounds [OF ws] ab k
    by (simp add: signed_carry_def expect_same_bits_def s msb_sval [OF M a] msb_sval [OF M b] msb_sval [OF M ws]
        width_half [OF a] ns
        Let_def del: bits_mk_int)
qed

lemma signed_borrow_eq:
  assumes M: "malachite_ok M" and a: "wf_bv a" and b: "wf_bv b" and ab: "bits a = bits b"
  shows "signed_borrow M a b =
    Inr (sval a - sval b < - (2 ^ (nbits a - 1)) \<or> 2 ^ (nbits a - 1) \<le> sval a - sval b)"
proof -
  let ?s = "mk_int (bv_meta a) (sval a - sval b)"
  have "(sval a - sval b) mod 2 ^ width (bv_meta a) = (int (uval a) - int (uval b)) mod 2 ^ width (bv_meta a)"
    using sval_mod [of a] sval_mod [of b] ab by (metis mod_diff_eq nbits_width)
  then have s: "sub_assign M a b = Inr ?s"
    using M a b ab by (simp add: sub_assign_eq) (metis mk_int_cong)
  obtain k where k: "sval ?s = sval a - sval b + 2 ^ width (bv_meta a) * k"
    using sval_wrapped [OF wf_width [OF a]] by blast
  have ws: "wf_bv ?s" and ns: "nbits ?s = nbits a" using wf_width [OF a] by (simp_all add: nbits_width bits_def)
  from wrapped_sign(2) [of "2 ^ (nbits a - 1)" "sval a" "sval b" "sval ?s" k]
  show ?thesis
    using sval_bounds [OF a] sval_bounds [OF b] sval_bounds [OF ws] ab k
    by (simp add: signed_borrow_def expect_same_bits_def s msb_sval [OF M a] msb_sval [OF M b] msb_sval [OF M ws]
        width_half [OF a] ns
        Let_def del: bits_mk_int)
qed

lemma carry_eq:
  assumes M: "malachite_ok M" and a: "wf_bv a" and b: "wf_bv b" and ab: "bits a = bits b"
  shows "carry M a b =
    Inr (if is_signed a \<or> is_signed b
         then sval a + sval b < - (2 ^ (nbits a - 1)) \<or> 2 ^ (nbits a - 1) \<le> sval a + sval b
         else 2 ^ nbits a \<le> uval a + uval b)"
proof -
  let ?s = "mk_int (bv_meta a) (int (uval a) + int (uval b))"
  have lt: "uval a < 2 ^ nbits a" "uval b < 2 ^ nbits a"
    using wf_uval_less [OF a] wf_uval_less [OF b] ab by simp_all
  have ws: "wf_bv ?s" and bs: "bits a = bits ?s" using wf_width [OF a] by (simp_all add: bits_def)
  have "uval ?s = (uval a + uval b) mod 2 ^ nbits a"
    by (simp add: nbits_width nat_mod_distrib nat_power_eq nat_add_distrib)
  also have "\<dots> = (if 2 ^ nbits a \<le> uval a + uval b then uval a + uval b - 2 ^ nbits a else uval a + uval b)"
    using lt by (simp add: mod_if)
  finally have us: "uval ?s = \<dots>" .
  have "cmp_residue a ?s = Greater \<longleftrightarrow> 2 ^ nbits a \<le> uval a + uval b"
    unfolding cmp_residue_eq [OF a ws bs] us using lt by (auto simp: compare_def)
  then show ?thesis using assms
    by (simp add: carry_def expect_same_bits_def signed_carry_eq add_assign_eq)
qed

lemma carry_width_mismatch:
  assumes "bits a \<noteq> bits b"
  shows "carry M a b = Inl Panicked" "signed_carry M a b = Inl Panicked" "signed_borrow M a b = Inl Panicked"
  using assms by (simp_all add: carry_def signed_carry_def signed_borrow_def expect_same_bits_def)

section \<open>Euclidean remainder, increments and absolute value\<close>

lemma neg_assign_magnitude:
  assumes M: "malachite_ok M" and b: "wf_bv b" and neg: "sval b < 0"
  shows "neg_assign M b = Inr (mk_int (bv_meta b) \<bar>sval b\<bar>)"
proof -
  have "\<bar>sval b\<bar> mod 2 ^ width (bv_meta b) = (- int (uval b)) mod 2 ^ width (bv_meta b)"
    using neg sval_cong [of b] by (metis abs_of_neg mod_minus_eq)
  then show ?thesis using M b by (simp add: neg_assign_eq) (metis mk_int_cong)
qed

lemma smod_euclid:
  fixes x y :: int
  assumes "y \<noteq> 0"
  shows "x mod \<bar>y\<bar> = (if x smod y < 0 then x smod y + \<bar>y\<bar> else x smod y)"
proof -
  have b: "0 \<le> \<bar>x\<bar> mod \<bar>y\<bar>" "\<bar>x\<bar> mod \<bar>y\<bar> < \<bar>y\<bar>" using assms by simp_all
  have "x mod \<bar>y\<bar> = x smod y mod \<bar>y\<bar>"
    by (cases "x < 0") (auto simp: smod_int_alt_def sgn_if mod_minus_eq)
  moreover have "x smod y < 0 \<Longrightarrow> x smod y mod \<bar>y\<bar> = x smod y + \<bar>y\<bar>"
    using b by (subst mod_add_self2 [symmetric], intro mod_pos_pos_trivial)
      (auto simp: smod_int_alt_def sgn_if split: if_splits)
  moreover have "0 \<le> x smod y \<Longrightarrow> x smod y mod \<bar>y\<bar> = x smod y"
    using b by (intro mod_pos_pos_trivial) (auto simp: smod_int_alt_def sgn_if split: if_splits)
  ultimately show ?thesis by auto
qed

lemma smod_in_range:
  assumes b: "wf_bv b" and nz: "uval b \<noteq> 0"
  shows "- (2 ^ (nbits b - 1)) \<le> x smod sval b \<and> x smod sval b < 2 ^ (nbits b - 1)"
proof -
  have "sval b \<noteq> 0" using nz wf_uval_less [OF b] int_less_pow [OF wf_uval_less [OF b]] by (auto simp: sval_def)
  then have "0 \<le> \<bar>x\<bar> mod \<bar>sval b\<bar>" "\<bar>x\<bar> mod \<bar>sval b\<bar> < \<bar>sval b\<bar>" by simp_all
  moreover have "\<bar>sval b\<bar> \<le> 2 ^ (nbits b - 1)" using sval_bounds [OF b] by auto
  ultimately show ?thesis by (auto simp: smod_int_alt_def sgn_if)
qed

lemma rem_euclid_eq:
  assumes M: "malachite_ok M" and a: "wf_bv a" and b: "wf_bv b" and ab: "bits a = bits b"
    and nz: "uval b \<noteq> 0" and sg: "is_signed a" "is_signed b"
  shows "rem_euclid M a b = Inr (mk_int (bv_meta a) (sval a mod \<bar>sval b\<bar>))"
proof -
  let ?r = "sval a smod sval b" and ?m = "bv_meta a"
  have n: "nbits b = width ?m" using ab by (simp flip: nbits_width)
  have w: "0 < width ?m" by (rule wf_width [OF a])
  have r: "rem_assign M a b = Inr (mk_int ?m ?r)"
    using assms by (simp add: rem_assign_eq ival_def)
  have wr: "wf_bv (mk_int ?m ?r)" and br: "bits (mk_int ?m ?r) = bits b"
    using w ab by (simp_all add: bits_def)
  have "sval (mk_int ?m ?r) = ?r"
    using smod_in_range [OF b nz, of "sval a"] by (intro sval_mk_int [OF w]) (simp_all only: n)
  then have msb: "msb_bv M (mk_int ?m ?r) \<longleftrightarrow> ?r < 0" by (simp add: msb_sval [OF M wr])
  have nzs: "sval b \<noteq> 0" using nz wf_uval_less [OF b] int_less_pow [OF wf_uval_less [OF b]] by (auto simp: sval_def)
  have mag: "(if msb_bv M b then neg_assign M b else Inr b) = Inr (mk_int (bv_meta b) \<bar>sval b\<bar>)"
    using mk_int_sval [OF b] by (simp add: msb_sval [OF M b] neg_assign_magnitude [OF M b])
  have wb: "width (bv_meta b) = width ?m" using n by (simp add: nbits_width)
  have "add_assign M (mk_int ?m ?r) (mk_int (bv_meta b) \<bar>sval b\<bar>) = Inr (mk_int ?m (?r + \<bar>sval b\<bar>))"
  proof -
    have "mk_int ?m (?r mod 2 ^ width ?m + \<bar>sval b\<bar> mod 2 ^ width ?m) = mk_int ?m (?r + \<bar>sval b\<bar>)"
      by (rule mk_int_cong) (simp only: mod_add_eq)
    with w wb ab show ?thesis by (simp add: add_assign_eq [OF M] bits_def)
  qed
  with smod_euclid [OF nzs, of "sval a"] show ?thesis
    by (simp add: rem_euclid_def expect_same_bits_def ab r msb mag)
qed

lemma valid_bits_of_wf: "wf_bv b \<Longrightarrow> valid_bits (bits b)"
  using wf_pos [of b] width_less [of "bv_meta b"] by (simp add: valid_bits_iff nbits_width)

lemma incr_eq:
  assumes M: "malachite_ok M" and b: "wf_bv b"
  shows "incr M b v = Inr (mk_int (bv_meta b) (int (uval b) + uint v))"
    and "decr M b v = Inr (mk_int (bv_meta b) (int (uval b) - uint v))"
proof -
  note vb = valid_bits_of_wf [OF b]
  let ?c = "mk_bv (meta_of False (bits b)) (unat v)"
  have c: "wf_bv ?c" "bits ?c = bits b"
    using vb wf_pos [OF b] nbits_mk_bv [of "meta_of False (bits b)" "unat v"]
    by (simp_all add: word_unat_eq_iff del: nbits_mk_bv)
  have "mk_int (bv_meta b) (int (uval b) + int (unat v mod 2 ^ nbits b)) = mk_int (bv_meta b) (int (uval b) + uint v)"
    "mk_int (bv_meta b) (int (uval b) - int (unat v mod 2 ^ nbits b)) = mk_int (bv_meta b) (int (uval b) - uint v)"
    by (rule mk_int_cong; simp add: nbits_width zmod_int mod_simps)+
  with c vb show "incr M b v = Inr (mk_int (bv_meta b) (int (uval b) + uint v))"
    and "decr M b v = Inr (mk_int (bv_meta b) (int (uval b) - uint v))"
    by (simp_all add: incr_def decr_def from_u64_eq [OF M] add_assign_eq [OF M b] sub_assign_eq [OF M b])
qed

lemma abs_bv_eq:
  assumes M: "malachite_ok M" and b: "wf_bv b"
  shows "abs_bv M b = Inr (mk_int (bv_meta b) \<bar>ival b\<bar>)"
  using M b neg_assign_magnitude [OF M b] mk_int_ival [OF b]
  by (auto simp: abs_bv_def is_negative_def msb_sval ival_def)

section \<open>Properties\<close>

text \<open>Two sample vectors: a negative byte, and a vector in the large representation.\<close>

definition byte_200 :: "bool \<Rightarrow> bitvec" where
  "byte_200 sg = mk_bv (meta_of sg 8) 200"

definition wide_7 :: bitvec where
  "wide_7 = mk_bv (meta_of False 72) 7"

lemma samples [simp]:
  "wf_bv (byte_200 sg)" "wf_bv wide_7" "uval (byte_200 sg) = 200" "uval wide_7 = 7"
  "nbits (byte_200 sg) = 8" "bits (byte_200 sg) = 8" "bits wide_7 = 72"
  "is_signed (byte_200 sg) = sg" "bv_meta (byte_200 sg) = meta_of sg 8"
proof -
  have v: "valid_bits 8" "valid_bits 72" by (simp_all add: valid_bits_iff)
  then have n: "nbits (byte_200 sg) = 8" "nbits wide_7 = 72" by (simp_all add: byte_200_def wide_7_def)
  then have "unat (bits (byte_200 sg)) = unat (8 :: u32)" "unat (bits wide_7) = unat (72 :: u32)" by simp_all
  with n v show "wf_bv (byte_200 sg)" "wf_bv wide_7" "uval (byte_200 sg) = 200" "uval wide_7 = 7"
    "nbits (byte_200 sg) = 8" "bits (byte_200 sg) = 8" "bits wide_7 = 72"
    "is_signed (byte_200 sg) = sg" "bv_meta (byte_200 sg) = meta_of sg 8"
    by (simp_all add: byte_200_def wide_7_def is_signed_iff unat_meta_of word_unat_eq_iff)
qed

lemma sval_byte_200 [simp]: "sval (byte_200 sg) = - 56"
  by (simp add: sval_def)

text \<open>
  C19 Addition, subtraction, multiplication, negation and complement of bit vectors are arithmetic
  modulo two to the width, in both representations: the result is well-formed, keeps the left
  operand's width and signedness, and stands for the wrapped integer result; the binary operators
  panic exactly when the widths differ.
\<close>

theorem bv_ring_operations:
  assumes "malachite_ok M" and "wf_bv a" and "wf_bv b"
  shows "(add_assign M a b =
      (if bits a = bits b then Inr (mk_int (bv_meta a) (int (uval a) + int (uval b))) else Inl Panicked)) \<and>
    (sub_assign M a b =
      (if bits a = bits b then Inr (mk_int (bv_meta a) (int (uval a) - int (uval b))) else Inl Panicked)) \<and>
    (mul_assign M a b =
      (if bits a = bits b then Inr (mk_int (bv_meta a) (int (uval a) * int (uval b))) else Inl Panicked)) \<and>
    (neg_assign M a = Inr (mk_int (bv_meta a) (- int (uval a)))) \<and>
    (not_assign M a = Inr (mk_int (bv_meta a) (- 1 - int (uval a))))"
  using assms by (simp only: add_assign_eq sub_assign_eq mul_assign_eq neg_assign_eq not_assign_eq simp_thms)

lemma bv_ring_operations_witness:
  "add_assign malachite_ref (byte_200 False) (byte_200 True) = Inr (mk_int (meta_of False 8) 400) \<and>
   add_assign malachite_ref (byte_200 False) wide_7 = Inl Panicked"
  using bv_ring_operations [OF malachite_ref_ok, of "byte_200 False" "byte_200 True"]
    bv_ring_operations [OF malachite_ref_ok, of "byte_200 False" wide_7]
  by simp

text \<open>
  C16 Division and remainder: \<open>/\<close> and \<open>%\<close> divide the numbers the operands stand for under their own
  signedness flags, \<open>signed_div\<close> and \<open>signed_rem\<close> their two's complement readings, all truncating
  towards zero with the remainder's sign that of the dividend, wrapped to the width (so the least
  number divided by minus one is itself); they panic exactly when the widths differ or the divisor
  is zero.
\<close>

theorem bv_division:
  assumes "malachite_ok M" and "wf_bv a" and "wf_bv b"
  shows "(div_assign M a b =
      (if bits a \<noteq> bits b then Inl Panicked else if uval b = 0 then Inl DivideByZero
       else Inr (mk_int (bv_meta a) (ival a sdiv ival b)))) \<and>
    (rem_assign M a b =
      (if bits a \<noteq> bits b then Inl Panicked else if uval b = 0 then Inl DivideByZero
       else Inr (mk_int (bv_meta a) (ival a smod ival b)))) \<and>
    (signed_div M a b =
      (if bits a \<noteq> bits b then Inl Panicked else if uval b = 0 then Inl DivideByZero
       else Inr (mk_int (bv_meta a) (sval a sdiv sval b)))) \<and>
    (signed_rem M a b =
      (if bits a \<noteq> bits b then Inl Panicked else if uval b = 0 then Inl DivideByZero
       else Inr (mk_int (bv_meta a) (sval a smod sval b))))"
  using assms by (simp only: div_assign_eq rem_assign_eq signed_div_eq signed_rem_eq simp_thms)

lemma bv_division_witness:
  "div_assign malachite_ref (byte_200 True) (byte_200 False) = Inr (mk_int (meta_of True 8) 0) \<and>
   signed_div malachite_ref (byte_200 True) (byte_200 False) = Inr (mk_int (meta_of True 8) 1)"
  using bv_division [OF malachite_ref_ok, of "byte_200 True" "byte_200 False"]
  by (simp add: ival_def signed_divide_int_def)

text \<open>
  C24 Shifts: \<open><<\<close> multiplies by a power of two modulo the width, \<open>>>\<close> divides by one rounding down,
  logically or arithmetically as the vector's flag says, and \<open>signed_shr\<close> always arithmetically;
  amounts of the width and above shift everything out (or fill with the sign) instead of wrapping,
  however large the amount is.
\<close>

theorem bv_shifts:
  assumes "malachite_ok M" and "wf_bv a" and "wf_bv b" and "bits a = bits b"
  shows "(shl_assign M a b = Inr (mk_int (bv_meta a) (int (uval a) * 2 ^ uval b))) \<and>
    (shr_assign M a b = Inr (mk_int (bv_meta a) (ival a div 2 ^ uval b))) \<and>
    (signed_shr M a b = Inr (mk_int (bv_meta a) (sval a div 2 ^ uval b))) \<and>
    (shl_assign_u32 M a n = mk_int (bv_meta a) (int (uval a) * 2 ^ unat n)) \<and>
    (shr_assign_u32 M a n = mk_int (bv_meta a) (ival a div 2 ^ unat n))"
  using assms
  by (simp add: shl_assign_eq shr_assign_eq signed_shr_eq shl_assign_u32_eq shr_assign_u32_def
      shr_assign_with_eq ival_def)

lemma bv_shifts_witness:
  "shr_assign_u32 malachite_ref (byte_200 True) 3 = mk_int (meta_of True 8) (- 7) \<and>
   shr_assign_u32 malachite_ref (byte_200 False) 3 = mk_int (meta_of False 8) 25"
  using bv_shifts [OF malachite_ref_ok samples(1) samples(1), of True True, where n = 3]
    bv_shifts [OF malachite_ref_ok samples(1) samples(1), of False False, where n = 3]
  by (simp add: ival_def)

text \<open>
  The bitwise operators work position by position, on every bit of the width.
\<close>

theorem bv_bitwise:
  assumes "wf_bv a" and "wf_bv b" and "bits a = bits b"
  shows "(returns (bitand_assign a b) (\<lambda>r. wf_bv r \<and> bits r = bits a \<and>
      (\<forall>i. bit (uval r) i \<longleftrightarrow> bit (uval a) i \<and> bit (uval b) i))) \<and>
    (returns (bitor_assign a b) (\<lambda>r. wf_bv r \<and> bits r = bits a \<and>
      (\<forall>i. bit (uval r) i \<longleftrightarrow> bit (uval a) i \<or> bit (uval b) i))) \<and>
    (returns (bitxor_assign a b) (\<lambda>r. wf_bv r \<and> bits r = bits a \<and>
      (\<forall>i. bit (uval r) i \<longleftrightarrow> bit (uval a) i \<noteq> bit (uval b) i)))"
proof -
  have n: "uval a < 2 ^ width (bv_meta a)" "uval b < 2 ^ width (bv_meta a)" "0 < width (bv_meta a)"
    using assms wf_uval_less wf_width by (metis nbits_width)+
  note bl = bitop_less [OF n(1,2)]
  have bts: "bits (mk_bv (bv_meta a) v) = bits a" for v by (simp add: bits_def)
  show ?thesis
    using assms n bl
    by (simp add: bitand_assign_eq bitor_assign_eq bitxor_assign_eq bts bit_and_iff bit_or_iff bit_xor_iff)
qed

lemma bv_bitwise_witness:
  "returns (bitxor_assign (byte_200 False) (byte_200 True)) (\<lambda>r. \<forall>i. \<not> bit (uval r) i)"
  using bv_bitwise [OF samples(1) samples(1), of False True] by (auto simp: returns_iff)

text \<open>
  The flag computations: \<open>carry\<close> on unsigned vectors says that the unsigned sum does not fit the
  width, \<open>signed_carry\<close> and \<open>signed_borrow\<close> that the signed sum or difference is outside the
  two's complement range, and \<open>carry\<close> on a signed vector is the signed one.
\<close>

theorem bv_flags:
  assumes "malachite_ok M" and "wf_bv a" and "wf_bv b" and "bits a = bits b"
  shows "(carry M a b =
      Inr (if is_signed a \<or> is_signed b
           then sval a + sval b < - (2 ^ (nbits a - 1)) \<or> 2 ^ (nbits a - 1) \<le> sval a + sval b
           else 2 ^ nbits a \<le> uval a + uval b)) \<and>
    (signed_carry M a b =
      Inr (sval a + sval b < - (2 ^ (nbits a - 1)) \<or> 2 ^ (nbits a - 1) \<le> sval a + sval b)) \<and>
    (signed_borrow M a b =
      Inr (sval a - sval b < - (2 ^ (nbits a - 1)) \<or> 2 ^ (nbits a - 1) \<le> sval a - sval b))"
  using assms by (simp only: carry_eq signed_carry_eq signed_borrow_eq simp_thms)

lemma bv_flags_witness:
  "carry malachite_ref (byte_200 False) (byte_200 False) = Inr True \<and>
   signed_carry malachite_ref (byte_200 False) (byte_200 False) = Inr False"
  using bv_flags [OF malachite_ref_ok, of "byte_200 False" "byte_200 False"] by simp

text \<open>
  \<open>gcd_ext\<close> returns Bezout coefficients: for nonzero operands of one width it returns well-formed
  \<open>g\<close>, \<open>x\<close>, \<open>y\<close> of that width where \<open>g\<close> is the greatest common divisor of the two's complement
  readings and \<open>a * x + b * y = g\<close> holds in bit vector arithmetic, that is modulo two to the width.
\<close>

theorem bv_gcd_ext_bezout:
  assumes "malachite_ok M" and "wf_bv a" and "wf_bv b" and "bits a = bits b"
    and "uval a \<noteq> 0" and "uval b \<noteq> 0"
  shows "\<exists>g x y. gcd_ext M a b = Inr (g, x, y) \<and> wf_bv g \<and> wf_bv x \<and> wf_bv y \<and>
    bits g = bits a \<and> bits x = bits a \<and> bits y = bits a \<and>
    int (uval g) = gcd (sval a) (sval b) mod 2 ^ nbits a \<and>
    (int (uval a) * int (uval x) + int (uval b) * int (uval y)) mod 2 ^ nbits a = int (uval g)"
proof -
  obtain x y where "gcd_ext M a b =
      Inr (mk_int (bv_meta a) (gcd (sval a) (sval b)), mk_int (bv_meta a) x, mk_int (bv_meta a) y)"
    and "sval a * x + sval b * y = gcd (sval a) (sval b)"
    using gcd_ext_eq [OF assms] .
  moreover from bezout_residue [OF assms(2,3) _ this(2)] assms(4)
  have "(int (uval a) * int (nat (x mod 2 ^ nbits a)) + int (uval b) * int (nat (y mod 2 ^ nbits a)))
      mod 2 ^ nbits a = gcd (sval a) (sval b) mod 2 ^ nbits a" by simp
  moreover have "bits (mk_int (bv_meta a) i) = bits a" for i by (simp add: bits_def)
  ultimately show ?thesis using wf_width [OF assms(2)]
    by (simp add: nbits_width [symmetric] del: bits_mk_int)
qed

lemma bv_gcd_ext_bezout_witness:
  "\<exists>g x y. gcd_ext malachite_ref (byte_200 False) (byte_200 False) = Inr (g, x, y) \<and> int (uval g) = 56"
  using bv_gcd_ext_bezout [OF malachite_ref_ok, of "byte_200 False" "byte_200 False"] by auto

text \<open>
  \<open>rem_euclid\<close> on signed vectors is the Euclidean remainder: never negative and below the
  divisor's magnitude.
\<close>

theorem bv_rem_euclid:
  assumes "malachite_ok M" and "wf_bv a" and "wf_bv b" and "bits a = bits b" and "uval b \<noteq> 0"
    and "is_signed a" and "is_signed b"
  shows "rem_euclid M a b = Inr (mk_int (bv_meta a) (sval a mod \<bar>sval b\<bar>))"
  using assms by (rule rem_euclid_eq)

lemma bv_rem_euclid_witness:
  "rem_euclid malachite_ref (byte_200 True) (byte_200 True) = Inr (mk_int (meta_of True 8) 0)"
  using bv_rem_euclid [OF malachite_ref_ok, of "byte_200 True" "byte_200 True"] by simp

text \<open>
  C40 On unsigned vectors \<open>rem_euclid\<close> takes the top bit of a remainder for a sign: 200 modulo 250 is 200,
  and the code returns 206 for the 8-bit vectors.
\<close>

theorem rem_euclid_unsigned_wrong:
  "rem_euclid malachite_ref (mk_bv (meta_of False 8) 200) (mk_bv (meta_of False 8) 250) =
     Inr (mk_bv (meta_of False 8) 206)"
proof -
  have v: "valid_bits 8" by (simp add: valid_bits_iff)
  then have us: "\<not> is_signed (mk_bv (meta_of False 8) v)" for v by (simp add: is_signed_iff unat_meta_of)
  have "rem_assign malachite_ref (mk_bv (meta_of False 8) 200) (mk_bv (meta_of False 8) 250) =
      Inr (mk_bv (meta_of False 8) 200)"
    using v us mk_int_of_nat [of "meta_of False 8" 200]
    by (simp add: rem_assign_eq ival_def signed_modulo_int_def bits_def)
  moreover have "neg_assign malachite_ref (mk_bv (meta_of False 8) 250) = Inr (mk_int (meta_of False 8) (- 250))"
    using v by (simp add: neg_assign_eq)
  moreover have "unat (drop_bit (Suc 0) (meta_of False 8)) = 8"
    using width_meta_of [OF v, of False] by (simp add: width_def)
  ultimately show ?thesis
    using v mk_int_of_nat [of "meta_of False 8" 206]
    by (simp add: rem_euclid_def expect_same_bits_def bits_def msb_iff add_assign_eq)
qed

end
