(* ===== verification/BitVecCast.thy ===== *)
theory BitVecCast
  imports BitVecArith
begin

unbundle bit_operations_syntax

text \<open>
  Conversions of bit vectors in \<open>fugue-bv/src/lib.rs\<close>: casts between widths, conversions to the
  primitive integers, the byte forms in both orders, and the encoded form of the serde
  implementations. The main facts are that a cast keeps the number a vector stands for whenever it
  fits, and that the byte and encoded forms are inverse to their readers.
\<close>

section \<open>Casts\<close>

definition cast :: "malachite \<Rightarrow> bitvec \<Rightarrow> u32 \<Rightarrow> bitvec outcome" where
  "cast M b n =
     and_then (pack_meta (is_signed b) n) (\<lambda>meta.
       let extend = is_signed b \<and> bits b < n \<and> msb_bv M b in
       case (is_small b, n \<le> 64) of
         (True, True) \<Rightarrow>
           Inr (from_small
             (if extend then small b OR (mask_u64 n XOR mask_u64 (bits b)) else small b) meta)
       | (True, False) \<Rightarrow>
           (let v = unat (small b) in
            if extend then
              and_then (nt_sub (nt_low_mask M (unat n)) (nt_low_mask M (nbits b)))
                (\<lambda>high. Inr (from_large M (v OR high) meta))
            else Inr (from_large M v meta))
       | (False, True) \<Rightarrow>
           and_then (expect (u64_try_from (nt_mod_power_of_2 M (large b) (unat n))))
             (\<lambda>v. Inr (from_small v meta))
       | (False, False) \<Rightarrow>
           (let v = large b in
            if extend then
              and_then (nt_sub (nt_low_mask M (unat n)) (nt_low_mask M (nbits b)))
                (\<lambda>high. Inr (from_large M (v OR high) meta))
            else Inr (from_large M v meta)))"

definition signed_cast :: "malachite \<Rightarrow> bitvec \<Rightarrow> u32 \<Rightarrow> bitvec outcome" where
  "signed_cast M b n = cast M (signed_bv b) n"

definition unsigned_cast :: "malachite \<Rightarrow> bitvec \<Rightarrow> u32 \<Rightarrow> bitvec outcome" where
  "unsigned_cast M b n = cast M (unsigned_bv b) n"

section \<open>Primitive integers\<close>

text \<open>
  The macros \<open>impl_to_uint!\<close> and \<open>impl_to_int!\<close> generate \<open>to_u8\<close> to \<open>to_usize\<close> and \<open>to_i8\<close> to
  \<open>to_isize\<close>; \<open>n\<close> is the width of the primitive, and \<open>None\<close> stands for a value that does not fit.
\<close>

definition to_uint :: "nat \<Rightarrow> bitvec \<Rightarrow> nat option" where
  "to_uint n b =
     (let v = (if is_small b then unat (small b) else large b) in if v < 2 ^ n then Some v else None)"

definition to_sint :: "malachite \<Rightarrow> nat \<Rightarrow> bitvec \<Rightarrow> int option" where
  "to_sint M n b =
     (let v = (if is_small b then small_signed b else large_signed M b)
      in if - (2 ^ (n - 1)) \<le> v \<and> v < 2 ^ (n - 1) then Some v else None)"

definition to_bigint :: "bitvec \<Rightarrow> int" where
  "to_bigint b = (if is_small b then int (unat (small b)) else int (large b))"

section \<open>Bytes\<close>

text \<open>The result is what the caller's buffer of length \<open>len\<close> holds afterwards.\<close>

definition to_be_bytes :: "malachite \<Rightarrow> bitvec \<Rightarrow> nat \<Rightarrow> u8 list outcome" where
  "to_be_bytes M b len =
     and_then (expect_buffer_size len (bits b)) (\<lambda>_.
       if is_small b then Inr (drop (8 - len) (u64_to_be_bytes (small b)))
       else
         let digits = nt_to_digits_desc M (large b) in
         and_then (assert_or IndexOutOfBounds (length digits \<le> len)) (\<lambda>_.
           Inr (replicate (len - length digits) 0 @ digits)))"

definition to_le_bytes :: "malachite \<Rightarrow> bitvec \<Rightarrow> nat \<Rightarrow> u8 list outcome" where
  "to_le_bytes M b len =
     and_then (expect_buffer_size len (bits b)) (\<lambda>_.
       if is_small b then Inr (take len (u64_to_le_bytes (small b)))
       else
         let digits = nt_to_digits_asc M (large b) in
         and_then (assert_or IndexOutOfBounds (length digits \<le> len)) (\<lambda>_.
           Inr (digits @ replicate (len - length digits) 0)))"

text \<open>The byte order of the type parameter \<open>O: ByteOrder\<close> is the argument \<open>big\<close>.\<close>

definition from_bytes_with :: "malachite \<Rightarrow> bool \<Rightarrow> u8 list \<Rightarrow> u32 \<Rightarrow> bool \<Rightarrow> bitvec outcome" where
  "from_bytes_with M big buffer bts sg =
     and_then (if big then from_be_bytes_with M buffer bts else from_le_bytes_with M buffer bts)
       (\<lambda>v. Inr (if sg then signed_bv v else v))"

definition from_bytes :: "malachite \<Rightarrow> bool \<Rightarrow> u8 list \<Rightarrow> bool \<Rightarrow> bitvec outcome" where
  "from_bytes M big buffer sg =
     and_then (mul_word (word_of_nat (length buffer)) 8) (\<lambda>bts. from_bytes_with M big buffer bts sg)"

definition into_bytes :: "malachite \<Rightarrow> bool \<Rightarrow> bitvec \<Rightarrow> nat \<Rightarrow> u8 list outcome" where
  "into_bytes M big b len = (if big then to_be_bytes M b len else to_le_bytes M b len)"

section \<open>The encoded form\<close>

datatype encoded = EncodedLarge nat u32 | EncodedSmall u64 u32

datatype decode_error = InvalidBitVectorSize

definition serialize :: "bitvec \<Rightarrow> encoded" where
  "serialize b =
     (if is_small b then EncodedSmall (small b) (bv_meta b) else EncodedLarge (large b) (bv_meta b))"

definition deserialize :: "malachite \<Rightarrow> encoded \<Rightarrow> decode_error + bitvec" where
  "deserialize M e =
     (case e of
        EncodedSmall v meta \<Rightarrow>
          if 1 \<le> drop_bit 1 meta \<and> drop_bit 1 meta \<le> 64 then Inr (from_small v meta)
          else Inl InvalidBitVectorSize
      | EncodedLarge v meta \<Rightarrow>
          if 65 \<le> drop_bit 1 meta \<and> drop_bit 1 meta \<le> MAX_BITS then Inr (from_large M v meta)
          else Inl InvalidBitVectorSize)"

section \<open>Casts against the abstract value\<close>

lemma cast_residue:
  assumes M: "malachite_ok M" and b: "wf_bv b"
  shows "int (if is_signed b \<and> nbits b < n \<and> msb_bv M b then uval b + (2 ^ n - 2 ^ nbits b) else uval b)
      mod 2 ^ n = ival b mod 2 ^ n"
proof (cases "is_signed b \<and> msb_bv M b")
  case True
  then have i: "ival b = int (uval b) - 2 ^ nbits b" using M b by (simp add: ival_def sval_def msb_iff)
  show ?thesis
  proof (cases "nbits b < n")
    case n: True
    have "(2 :: nat) ^ nbits b \<le> 2 ^ n" using n by (intro power_increasing) simp_all
    then have "int (uval b + (2 ^ n - 2 ^ nbits b)) = ival b + 2 ^ n"
      unfolding i of_nat_add by (simp add: of_nat_diff)
    with True n show ?thesis by (simp only: simp_thms if_True mod_add_self2)
  next
    case False
    then have d: "(2 :: int) ^ n dvd 2 ^ nbits b" by (simp add: le_imp_power_dvd)
    then have "(int (uval b) - 2 ^ nbits b) mod 2 ^ n = int (uval b) mod 2 ^ n"
      by (metis diff_zero dvd_imp_mod_0 mod_diff_right_eq)
    with False show ?thesis unfolding i by simp
  qed
next
  case False
  then have "ival b = int (uval b)" using M b by (auto simp: ival_def sval_def msb_iff)
  with False show ?thesis by auto
qed

lemma high_bits_eq: "k \<le> n \<Longrightarrow> mask n XOR mask k = 2 ^ n - (2 ^ k :: nat)"
  using or_high_bits [of 0 k n] by simp

lemma unat_mask_u64': "unat n \<le> 64 \<Longrightarrow> unat (mask_u64 n) = mask (unat n)"
  unfolding mask_u64_eq unat_mask mask_eq_exp_minus_1 [where ?'a = nat] by (simp add: min_def)

lemma cast_eq:
  assumes M: "malachite_ok M" and b: "wf_bv b"
  shows "cast M b n =
    (if valid_bits n then Inr (mk_int (meta_of (is_signed b) n) (ival b)) else Inl Panicked)"
proof (cases "valid_bits n")
  case True
  let ?ext = "is_signed b \<and> nbits b < unat n \<and> msb_bv M b" and ?m = "meta_of (is_signed b) n"
  let ?v = "if ?ext then uval b + (2 ^ unat n - 2 ^ nbits b) else uval b"
  have w: "width ?m = unat n" using True by simp
  have mk: "mk_bv ?m ?v = mk_int ?m (ival b)"
    by (rule mk_bv_mod_cong) (simp only: w cast_residue [OF M b])
  have ext: "bits b < n \<longleftrightarrow> nbits b < unat n" by (simp add: word_less_nat_alt)
  have or_eq: "uval b OR (2 ^ unat n - 2 ^ nbits b) = uval b + (2 ^ unat n - 2 ^ nbits b)" if "nbits b < unat n"
    using or_high_bits [OF wf_uval_less [OF b], of "unat n"] that by (simp add: high_bits_eq)
  have high: "nt_sub (nt_low_mask M (unat n)) (nt_low_mask M (nbits b)) = Inr (2 ^ unat n - 2 ^ nbits b)"
    if "nbits b < unat n"
    using that M by (simp add: nt_sub_def malachite_okD diff_le_mono)
  consider (ss) "is_small b" "unat n \<le> 64" | (sl) "is_small b" "64 < unat n"
    | (ls) "\<not> is_small b" "unat n \<le> 64" | (ll) "\<not> is_small b" "64 < unat n" by linarith
  then have "cast M b n = Inr (mk_bv ?m ?v)"
  proof cases
    case ss
    have "unat (small b OR (mask_u64 n XOR mask_u64 (bits b))) = uval b + (2 ^ unat n - 2 ^ nbits b)"
      if "nbits b < unat n"
      using that ss b or_eq [OF that]
      by (simp add: unsigned_or_eq unsigned_xor_eq wf_small unat_mask_u64 unat_mask_u64' high_bits_eq)
    then show ?thesis
      using ss True b by (simp add: cast_def pack_meta_eq le_64_iff ext from_small_mk wf_small Let_def)
  next
    case sl
    then show ?thesis
      using True b M high or_eq
      by (simp add: cast_def pack_meta_eq le_64_iff ext from_large_mk wf_small Let_def)
  next
    case ls
    then have "\<not> ?ext" by (simp add: is_small_iff)
    moreover have "uval b mod 2 ^ unat n < 2 ^ 64"
    proof -
      have "uval b mod 2 ^ unat n < 2 ^ unat n" by simp
      also have "(2 :: nat) ^ unat n \<le> 2 ^ 64" using ls by (intro power_increasing) simp_all
      finally show ?thesis .
    qed
    moreover have "mk_bv ?m (uval b mod 2 ^ unat n) = mk_bv ?m (uval b)" by (rule mk_bv_cong_mod) (simp add: w)
    ultimately show ?thesis
      using ls True b M
      by (auto simp: cast_def pack_meta_eq le_64_iff ext from_small_mk wf_large Let_def malachite_okD
          u64_try_from_def unat_word_of_nat)
  next
    case ll
    then show ?thesis
      using True b M high or_eq
      by (simp add: cast_def pack_meta_eq le_64_iff ext from_large_mk wf_large Let_def)
  qed
  with True mk show ?thesis by simp
qed (simp add: cast_def pack_meta_eq)

lemma sval_signed_bv [simp]: "sval (signed_bv b) = sval b" "sval (unsigned_bv b) = sval b"
  by (simp_all add: sval_def)

lemma signed_cast_eq:
  assumes "malachite_ok M" "wf_bv b"
  shows "signed_cast M b n = (if valid_bits n then Inr (mk_int (meta_of True n) (sval b)) else Inl Panicked)"
  using assms by (simp add: signed_cast_def cast_eq ival_def)

lemma unsigned_cast_eq:
  assumes "malachite_ok M" "wf_bv b"
  shows "unsigned_cast M b n = (if valid_bits n then Inr (mk_bv (meta_of False n) (uval b)) else Inl Panicked)"
  using assms by (simp add: unsigned_cast_def cast_eq ival_def mk_int_of_nat)

lemma to_uint_eq: "wf_bv b \<Longrightarrow> to_uint n b = (if uval b < 2 ^ n then Some (uval b) else None)"
  by (simp add: to_uint_def wf_small wf_large Let_def)

lemma to_sint_eq:
  "malachite_ok M \<Longrightarrow> wf_bv b \<Longrightarrow>
    to_sint M n b = (if - (2 ^ (n - 1)) \<le> sval b \<and> sval b < 2 ^ (n - 1) then Some (sval b) else None)"
  by (simp add: to_sint_def small_signed_eq large_signed_eq Let_def)

lemma to_bigint_eq: "wf_bv b \<Longrightarrow> to_bigint b = int (uval b)"
  by (simp add: to_bigint_def wf_small wf_large)

section \<open>Bytes against the abstract value\<close>

lemma length_le_digits [simp]: "length (le_digits n v) = n"
  by (induction n arbitrary: v) simp_all

lemma le_value_less: "le_value bs < 256 ^ length bs"
proof (induction bs)
  case (Cons b bs)
  have "unat b < 256" using unat_lt_pow [of b] by simp
  with Cons show ?case by simp
qed simp

lemma le_value_append: "le_value (xs @ ys) = le_value xs + 256 ^ length xs * le_value ys"
  by (induction xs) (simp_all add: algebra_simps)

lemma le_value_zeros [simp]: "le_value (replicate k 0) = 0"
  by (induction k) simp_all

lemma le_value_le_digits: "le_value (le_digits n v) = v mod 256 ^ n"
  by (induction n arbitrary: v) (simp_all add: unat_word_of_nat mod_mult2_eq)

lemma le_digits_le_value: "length bs = n \<Longrightarrow> le_digits n (le_value bs) = bs"
proof (induction bs arbitrary: n)
  case (Cons b bs)
  then obtain k where n: "n = Suc k" by (cases n) simp_all
  have b: "unat b < 256" using unat_lt_pow [of b] by simp
  have "word_of_nat (unat b + 256 * le_value bs) = b"
    using b by (simp only: word_unat_eq_iff unat_word_of_nat) simp
  with Cons n b show ?case by simp
qed simp

lemma take_le_digits: "k \<le> n \<Longrightarrow> take k (le_digits n v) = le_digits k v"
proof (induction k arbitrary: n v)
  case (Suc k)
  then obtain j where "n = Suc j" by (cases n) simp_all
  with Suc show ?case by simp
qed simp

lemma le_digits_zero: "le_digits k 0 = replicate k 0"
  by (induction k) simp_all

lemma le_digits_pad:
  assumes "length bs \<le> n" shows "le_digits n (le_value bs) = bs @ replicate (n - length bs) 0"
  using assms le_digits_le_value [of "bs @ replicate (n - length bs) 0" n] by (simp add: le_value_append)

lemma digits_length:
  assumes M: "malachite_ok M" and v: "v < 256 ^ n"
  shows "length (nt_to_digits_asc M v) \<le> n"
proof (rule ccontr)
  let ?ds = "nt_to_digits_asc M v"
  assume "\<not> length ?ds \<le> n"
  then have "?ds \<noteq> []" and len: "n \<le> length (butlast ?ds)" by auto
  then have "le_value ?ds = le_value (butlast ?ds) + 256 ^ length (butlast ?ds) * unat (last ?ds)"
    using le_value_append [of "butlast ?ds" "[last ?ds]"] by simp
  moreover have "0 < unat (last ?ds)" using malachite_digits(2) [OF M \<open>?ds \<noteq> []\<close>] by (simp add: unat_gt_0)
  then have "256 ^ length (butlast ?ds) * 1 \<le> 256 ^ length (butlast ?ds) * unat (last ?ds)"
    by (intro mult_left_mono) simp_all
  moreover have "(256 :: nat) ^ n \<le> 256 ^ length (butlast ?ds)" using len by (intro power_increasing) simp_all
  ultimately show False using v malachite_digits(1) [OF M, of v] by linarith
qed

lemma div_ceil_8: "n \<le> 8 * div_ceil n 8" "div_ceil n 8 \<le> k \<longleftrightarrow> n \<le> 8 * k"
  by (auto simp: div_ceil_def)

lemma pow_bytes: "(2 :: nat) ^ n \<le> 256 ^ div_ceil n 8"
proof -
  have "(2 :: nat) ^ n \<le> 2 ^ (8 * div_ceil n 8)" by (intro power_increasing div_ceil_8) simp
  also have "\<dots> = 256 ^ div_ceil n 8" by (simp add: power_mult)
  finally show ?thesis .
qed

lemma uval_bytes: "wf_bv b \<Longrightarrow> uval b < 256 ^ bytes_bv b"
  unfolding bytes_bv_def using wf_uval_less [of b] pow_bytes [of "nbits b"] by (rule less_le_trans)

lemma small_bytes: "is_small b \<Longrightarrow> bytes_bv b \<le> 8"
  by (simp add: bytes_bv_def div_ceil_8 is_small_iff)

lemma to_le_bytes_eq:
  assumes M: "malachite_ok M" and b: "wf_bv b"
  shows "to_le_bytes M b len =
    (if len = bytes_bv b then Inr (le_digits len (uval b)) else Inl Panicked)"
proof (cases "len = bytes_bv b")
  case True
  have "length (nt_to_digits_asc M (uval b)) \<le> len"
    unfolding True by (rule digits_length [OF M uval_bytes [OF b]])
  moreover from this have "le_digits len (uval b) =
      nt_to_digits_asc M (uval b) @ replicate (len - length (nt_to_digits_asc M (uval b))) 0"
    using le_digits_pad by (metis M malachite_digits(1))
  ultimately show ?thesis using True b small_bytes [of b]
    by (simp add: to_le_bytes_def expect_buffer_size_def bytes_bv_def u64_to_le_bytes_def wf_small
        take_le_digits wf_large Let_def)
qed (simp add: to_le_bytes_def expect_buffer_size_def bytes_bv_def)

lemma to_be_bytes_eq:
  assumes M: "malachite_ok M" and b: "wf_bv b"
  shows "to_be_bytes M b len =
    (if len = bytes_bv b then Inr (rev (le_digits len (uval b))) else Inl Panicked)"
proof (cases "len = bytes_bv b")
  case True
  have "length (nt_to_digits_asc M (uval b)) \<le> len"
    unfolding True by (rule digits_length [OF M uval_bytes [OF b]])
  moreover from this have "le_digits len (uval b) =
      nt_to_digits_asc M (uval b) @ replicate (len - length (nt_to_digits_asc M (uval b))) 0"
    using le_digits_pad by (metis M malachite_digits(1))
  ultimately show ?thesis using True b small_bytes [of b]
    by (simp add: to_be_bytes_def expect_buffer_size_def bytes_bv_def u64_to_be_bytes_def wf_small
        drop_rev take_le_digits wf_large Let_def malachite_digits(3) [OF M])
qed (simp add: to_be_bytes_def expect_buffer_size_def bytes_bv_def)

lemma byte_value_lt_64: "length bs \<le> 8 \<Longrightarrow> le_value bs < 2 ^ 64"
  using le_value_less [of bs] power_increasing [of "length bs" 8 "256 :: nat"] by simp

lemma from_le_bytes_with_eq:
  assumes M: "malachite_ok M"
  shows "from_le_bytes_with M bs n =
    (if valid_bits n \<and> length bs = div_ceil (unat n) 8 then Inr (mk_bv (meta_of False n) (le_value bs))
     else Inl Panicked)"
proof (cases "valid_bits n \<and> length bs = div_ceil (unat n) 8")
  case True
  then have "length bs \<le> 8" if "unat n \<le> 64" using that by (simp add: div_ceil_8)
  then have "le_value bs < 2 ^ 64" if "unat n \<le> 64" using that byte_value_lt_64 by blast
  with True M show ?thesis
    by (simp add: from_le_bytes_with_def pack_meta_eq expect_buffer_size_def le_64_iff from_small_mk
        from_large_mk malachite_okD u64_from_le_bytes_def le_value_append unat_word_of_nat)
qed (auto simp: from_le_bytes_with_def pack_meta_eq expect_buffer_size_def)

lemma from_be_bytes_with_eq:
  assumes M: "malachite_ok M"
  shows "from_be_bytes_with M bs n =
    (if valid_bits n \<and> length bs = div_ceil (unat n) 8 then Inr (mk_bv (meta_of False n) (le_value (rev bs)))
     else Inl Panicked)"
proof (cases "valid_bits n \<and> length bs = div_ceil (unat n) 8")
  case True
  then have "length (rev bs) \<le> 8" if "unat n \<le> 64" using that by (simp add: div_ceil_8)
  then have "le_value (rev bs) < 2 ^ 64" if "unat n \<le> 64" using that byte_value_lt_64 by blast
  with True M show ?thesis
    by (simp add: from_be_bytes_with_def pack_meta_eq expect_buffer_size_def le_64_iff from_small_mk
        from_large_mk malachite_okD u64_from_be_bytes_def le_value_append unat_word_of_nat)
qed (auto simp: from_be_bytes_with_def pack_meta_eq expect_buffer_size_def)

section \<open>Round trips\<close>

lemma meta_of_bits: "wf_bv b \<Longrightarrow> meta_of (is_signed b) (bits b) = bv_meta b"
proof -
  assume b: "wf_bv b"
  have "unat (meta_of (is_signed b) (bits b)) = 2 * nbits b + of_bool (is_signed b)"
    by (rule unat_meta_of [OF valid_bits_of_wf [OF b]])
  also have "\<dots> = unat (bv_meta b)" by (simp add: nbits_width width_eq is_signed_iff)
  finally show ?thesis by (simp add: word_unat_eq_iff)
qed

lemma unsigned_collapse: "wf_bv b \<Longrightarrow> mk_bv (meta_of False (bits b)) (uval b) = unsigned_bv b"
  using meta_of_bits [of "unsigned_bv b"] wf_collapse [of "unsigned_bv b"] by simp

lemma signed_unsigned_meta: "signed_meta (unsigned_meta m) = signed_meta m"
proof -
  have "(m AND NOT x) OR x = m OR x" for x by (rule bit_word_eqI) (auto simp: bit_simps)
  then show ?thesis by (simp only: signed_meta_def unsigned_meta_def)
qed

lemma bytes_roundtrip:
  assumes M: "malachite_ok M" and b: "wf_bv b"
  shows "and_then (into_bytes M big b (bytes_bv b)) (\<lambda>bs. from_bytes_with M big bs (bits b) sg) =
    Inr (if sg then signed_bv b else unsigned_bv b)"
proof -
  have v: "uval b mod 256 ^ bytes_bv b = uval b" using uval_bytes [OF b] by simp
  have "signed_bv (unsigned_bv b) = signed_bv b"
    by (simp add: signed_bv_def unsigned_bv_def signed_unsigned_meta)
  with v show ?thesis using b valid_bits_of_wf [OF b] unsigned_collapse [OF b]
    by (simp add: into_bytes_def from_bytes_with_def to_be_bytes_eq [OF M] to_le_bytes_eq [OF M]
        from_be_bytes_with_eq [OF M] from_le_bytes_with_eq [OF M] le_value_le_digits flip: bytes_bv_def)
qed

lemma from_into_bytes:
  assumes M: "malachite_ok M" and n: "valid_bits n" and len: "8 * length bs = unat n"
  shows "and_then (from_bytes_with M big bs n sg) (\<lambda>b. into_bytes M big b (length bs)) = Inr bs"
proof -
  have pow: "(256 :: nat) ^ length bs = 2 ^ unat n" by (simp add: power_mult flip: len)
  have "length bs = div_ceil (unat n) 8" by (simp add: div_ceil_def flip: len)
  moreover have "le_value bs mod 2 ^ unat n = le_value bs" "le_value (rev bs) mod 2 ^ unat n = le_value (rev bs)"
    using le_value_less [of bs] le_value_less [of "rev bs"] by (simp_all add: pow)
  moreover have "wf_bv (mk_bv (meta_of False n) v)" "bytes_bv (mk_bv (meta_of False n) v) = length bs"
    "bytes_bv (signed_bv (mk_bv (meta_of False n) v)) = length bs" for v
    using n calculation(1) by (simp_all add: bytes_bv_def valid_bits_iff)
  ultimately show ?thesis using n
    by (simp add: into_bytes_def from_bytes_with_def to_be_bytes_eq [OF M] to_le_bytes_eq [OF M]
        from_be_bytes_with_eq [OF M] from_le_bytes_with_eq [OF M] le_digits_le_value)
qed

lemma deserialize_serialize:
  assumes M: "malachite_ok M" and b: "wf_bv b"
  shows "deserialize M (serialize b) = Inr b"
proof -
  have n: "1 \<le> nbits b" "nbits b < 2 ^ 31"
    using wf_pos [OF b] width_less [of "bv_meta b"] by (simp_all add: nbits_width)
  have bts: "drop_bit 1 (bv_meta b) = bits b" by (simp add: bits_def)
  show ?thesis
  proof (cases "is_small b")
    case True
    with n have "1 \<le> bits b \<and> bits b \<le> 64" by (simp add: is_small_def word_le_nat_alt)
    moreover have "from_small (small b) (bv_meta b) = b"
      using True wf_collapse [OF b] by (simp add: from_small_wf wf_small [OF b])
    ultimately show ?thesis using True by (simp only: serialize_def deserialize_def bts encoded.case if_True simp_thms)
  next
    case False
    with n have "65 \<le> bits b \<and> bits b \<le> MAX_BITS"
      by (simp add: is_small_iff word_le_nat_alt MAX_BITS_eq)
    moreover have "from_large M (large b) (bv_meta b) = b"
      using False wf_collapse [OF b] M by (simp add: from_large_wf wf_large [OF b])
    ultimately show ?thesis
      using False by (simp only: serialize_def deserialize_def bts encoded.case if_True if_False simp_thms)
  qed
qed

lemma deserialize_wf: "malachite_ok M \<Longrightarrow> deserialize M e = Inr b \<Longrightarrow> wf_bv b"
  by (auto simp: deserialize_def from_small_mk from_large_mk width_def word_le_nat_alt
      split: encoded.splits if_splits)

section \<open>Properties\<close>

text \<open>
  C23 A cast keeps the number a vector stands for, reduced modulo two to the new width: \<open>cast\<close> under
  the vector's own flag, \<open>signed_cast\<close> with sign extension and \<open>unsigned_cast\<close> with zero extension,
  across the small and the large representation in all four combinations; an invalid width panics
  and nothing else does.
\<close>

theorem bv_casts:
  assumes "malachite_ok M" and "wf_bv b"
  shows "(cast M b n =
      (if valid_bits n then Inr (mk_int (meta_of (is_signed b) n) (ival b)) else Inl Panicked)) \<and>
    (signed_cast M b n =
      (if valid_bits n then Inr (mk_int (meta_of True n) (sval b)) else Inl Panicked)) \<and>
    (unsigned_cast M b n =
      (if valid_bits n then Inr (mk_int (meta_of False n) (int (uval b))) else Inl Panicked))"
  using assms by (simp only: cast_eq signed_cast_eq unsigned_cast_eq mk_int_of_nat simp_thms)

lemma bv_casts_witness:
  "signed_cast malachite_ref (byte_200 False) 96 = Inr (mk_int (meta_of True 96) (- 56)) \<and>
   unsigned_cast malachite_ref (byte_200 False) 0 = Inl Panicked"
  using bv_casts [OF malachite_ref_ok samples(1), of False 96] bv_casts [OF malachite_ref_ok samples(1), of False 0]
  by (simp add: valid_bits_iff)

text \<open>
  C25 Writing a vector to bytes and reading them back, in either byte order and for any width, also
  one that is not a whole number of bytes, gives the vector with the requested signedness; no write
  or read of a buffer of the right size panics.
\<close>

theorem bv_bytes_roundtrip:
  assumes "malachite_ok M" and "wf_bv b"
  shows "and_then (into_bytes M big b (bytes_bv b)) (\<lambda>bs. from_bytes_with M big bs (bits b) sg) =
    Inr (if sg then signed_bv b else unsigned_bv b)"
  using assms by (rule bytes_roundtrip)

lemma bv_bytes_roundtrip_witness:
  "and_then (into_bytes malachite_ref True wide_7 (bytes_bv wide_7)) (\<lambda>bs. from_bytes_with malachite_ref True bs 72 True) =
    Inr (signed_bv wide_7)"
  using bv_bytes_roundtrip [OF malachite_ref_ok samples(2), of True True] by simp

text \<open>
  Reading a buffer of whole bytes and writing the vector back gives the same bytes, in either
  byte order.
\<close>

theorem bv_read_write_bytes:
  assumes "malachite_ok M" and "valid_bits n" and "8 * length bs = unat n"
  shows "and_then (from_bytes_with M big bs n sg) (\<lambda>b. into_bytes M big b (length bs)) = Inr bs"
  using assms by (rule from_into_bytes)

lemma bv_read_write_bytes_witness:
  "and_then (from_bytes_with malachite_ref False [0x78, 0x56, 0x34] 24 True)
     (\<lambda>b. into_bytes malachite_ref False b 3) = Inr [0x78, 0x56, 0x34]"
  using bv_read_write_bytes [OF malachite_ref_ok, of 24 "[0x78, 0x56, 0x34]" False True]
  by (simp add: valid_bits_iff numeral_3_eq_3)

text \<open>
  C26 The encoded form is faithful and safe: decoding the encoding of a vector gives the vector, and
  whatever encoded value is decoded, an accepted one is well-formed, so that no later operation
  reads the wrong field of the union.
\<close>

theorem bv_encoding:
  assumes "malachite_ok M"
  shows "(wf_bv b \<longrightarrow> deserialize M (serialize b) = Inr b) \<and> (deserialize M e = Inr c \<longrightarrow> wf_bv c)"
  using deserialize_serialize [OF assms] deserialize_wf [OF assms] by blast

lemma bv_encoding_witness:
  "deserialize malachite_ref (serialize wide_7) = Inr wide_7 \<and>
   wf_bv (mk_bv (meta_of False 8) 511) \<and> deserialize malachite_ref (EncodedSmall 511 (meta_of False 8)) = Inr (mk_bv (meta_of False 8) 511)"
proof -
  have v: "valid_bits 8" by (simp add: valid_bits_iff)
  then have "drop_bit 1 (meta_of False 8) = 8" using width_meta_of [OF v, of False] by (simp add: width_def word_unat_eq_iff)
  then have "deserialize malachite_ref (EncodedSmall 511 (meta_of False 8)) = Inr (mk_bv (meta_of False 8) 511)"
    using v by (simp add: deserialize_def from_small_mk)
  then show ?thesis
    using bv_encoding [OF malachite_ref_ok, of wide_7 "EncodedSmall 511 (meta_of False 8)" "mk_bv (meta_of False 8) 511"]
    by simp
qed

text \<open>
  Equality and order: vectors of one width compare as unsigned numbers, whatever their flags,
  \<open>signed_cmp\<close> compares the two's complement readings, and both orders panic exactly on different
  widths, where equality is false instead.
\<close>

theorem bv_comparisons:
  assumes "malachite_ok M" and "wf_bv a" and "wf_bv b"
  shows "(eq_bv a b \<longleftrightarrow> bits a = bits b \<and> uval a = uval b) \<and>
    (cmp_bv a b = (if bits a = bits b then Inr (compare (uval a) (uval b)) else Inl Panicked)) \<and>
    (signed_cmp M a b = (if bits a = bits b then Inr (compare (sval a) (sval b)) else Inl Panicked))"
  using assms by (simp only: eq_bv_iff cmp_bv_eq signed_cmp_eq simp_thms)

lemma bv_comparisons_witness:
  "eq_bv (byte_200 True) (byte_200 False) \<and> signed_cmp malachite_ref wide_7 wide_7 = Inr Equal \<and>
   cmp_bv wide_7 (byte_200 True) = Inl Panicked"
  using bv_comparisons [OF malachite_ref_ok, of "byte_200 True" "byte_200 False"]
    bv_comparisons [OF malachite_ref_ok, of wide_7 wide_7]
    bv_comparisons [OF malachite_ref_ok, of wide_7 "byte_200 True"]
  by (simp add: compare_def)

end
