(* ===== verification/ScalarEval.thy ===== *)
theory ScalarEval
  imports BitVecCast
begin

text \<open>
  Evaluation of the scalar operations of the intermediate languages, from
  \<open>fugue-core/src/il/common/evaluate.rs\<close>. The constant folders of the intermediate languages call
  \<open>IlScalarOp::evaluate\<close> with operands of any widths; the result is \<open>None\<close> where the operation has
  no value (a missing operand, a division by zero, a comparison of different widths). A Rust
  \<open>Option\<close> that is computed by code that may panic is an \<open>option outcome\<close> here, and \<open>some_then\<close> is
  the operator \<open>?\<close> on it.
\<close>

section \<open>The operations\<close>

datatype il_scalar_op =
    Add | And | ArithmeticRightShift | BoolAnd | BoolNot | BoolOr | BoolXor | Carry | Copy
  | CountLeadingZeros | CountOnes | IntEqual | IntLess | IntLessEqual | IntNotEqual
  | IntSignedLess | IntSignedLessEqual | LeftShift | LogicalRightShift | Mul | Negate | Not | Or
  | SignedBorrow | SignedCarry | SignedDiv | SignedRem | SignExtend | Sub | Truncate
  | UnsignedDiv | UnsignedRem | Xor | ZeroExtend

definition some_then :: "'a option outcome \<Rightarrow> ('a \<Rightarrow> 'b option outcome) \<Rightarrow> 'b option outcome" where
  "some_then m f = and_then m (\<lambda>x. case x of None \<Rightarrow> Inr None | Some v \<Rightarrow> f v)"

definition operand :: "bitvec list \<Rightarrow> nat \<Rightarrow> bitvec option outcome" where
  "operand ops index = Inr (if index < length ops then Some (ops ! index) else None)"

definition cast_operand :: "malachite \<Rightarrow> u32 \<Rightarrow> bitvec list \<Rightarrow> nat \<Rightarrow> bitvec option outcome" where
  "cast_operand M w ops index = some_then (operand ops index) (\<lambda>v.
     map_ok Some (if bits v = w then Inr v else cast M v w))"

definition bool_value :: "malachite \<Rightarrow> bool \<Rightarrow> u32 \<Rightarrow> bitvec option outcome" where
  "bool_value M b w = map_ok Some (from_u64 M (if b then 1 else 0) w)"

fun evaluate :: "malachite \<Rightarrow> il_scalar_op \<Rightarrow> u32 \<Rightarrow> bitvec list \<Rightarrow> bitvec option outcome" where
  "evaluate M Copy w ops = some_then (operand ops 0) (\<lambda>v. map_ok Some (cast M v w))"
| "evaluate M Truncate w ops = some_then (operand ops 0) (\<lambda>v. map_ok Some (cast M v w))"
| "evaluate M Not w ops = some_then (cast_operand M w ops 0) (\<lambda>v. map_ok Some (not_assign M v))"
| "evaluate M Negate w ops = some_then (cast_operand M w ops 0) (\<lambda>v. map_ok Some (neg_assign M v))"
| "evaluate M Add w ops =
     some_then (cast_operand M w ops 0) (\<lambda>a. some_then (cast_operand M w ops 1) (\<lambda>b.
       map_ok Some (add_assign M a b)))"
| "evaluate M Sub w ops =
     some_then (cast_operand M w ops 0) (\<lambda>a. some_then (cast_operand M w ops 1) (\<lambda>b.
       map_ok Some (sub_assign M a b)))"
| "evaluate M Mul w ops =
     some_then (cast_operand M w ops 0) (\<lambda>a. some_then (cast_operand M w ops 1) (\<lambda>b.
       map_ok Some (mul_assign M a b)))"
| "evaluate M And w ops =
     some_then (cast_operand M w ops 0) (\<lambda>a. some_then (cast_operand M w ops 1) (\<lambda>b.
       map_ok Some (bitand_assign a b)))"
| "evaluate M Or w ops =
     some_then (cast_operand M w ops 0) (\<lambda>a. some_then (cast_operand M w ops 1) (\<lambda>b.
       map_ok Some (bitor_assign a b)))"
| "evaluate M Xor w ops =
     some_then (cast_operand M w ops 0) (\<lambda>a. some_then (cast_operand M w ops 1) (\<lambda>b.
       map_ok Some (bitxor_assign a b)))"
| "evaluate M LeftShift w ops =
     some_then (cast_operand M w ops 0) (\<lambda>a. some_then (cast_operand M w ops 1) (\<lambda>b.
       map_ok Some (shl_assign M a b)))"
| "evaluate M LogicalRightShift w ops =
     some_then (cast_operand M w ops 0) (\<lambda>a. some_then (cast_operand M w ops 1) (\<lambda>b.
       if is_unsigned a then map_ok Some (shr_assign M a b)
       else and_then (unsigned_cast M a w) (\<lambda>a. map_ok Some (shr_assign M a b))))"
| "evaluate M ArithmeticRightShift w ops =
     some_then (cast_operand M w ops 0) (\<lambda>a. some_then (cast_operand M w ops 1) (\<lambda>b.
       map_ok Some (signed_shr M a b)))"
| "evaluate M ZeroExtend w ops = some_then (operand ops 0) (\<lambda>v. map_ok Some (unsigned_cast M v w))"
| "evaluate M SignExtend w ops = some_then (operand ops 0) (\<lambda>v. map_ok Some (signed_cast M v w))"
| "evaluate M BoolAnd w ops = some_then (operand ops 0) (\<lambda>a.
     if is_zero a then bool_value M False w
     else some_then (operand ops 1) (\<lambda>b. bool_value M (\<not> is_zero b) w))"
| "evaluate M BoolOr w ops = some_then (operand ops 0) (\<lambda>a.
     if \<not> is_zero a then bool_value M True w
     else some_then (operand ops 1) (\<lambda>b. bool_value M (\<not> is_zero b) w))"
| "evaluate M BoolXor w ops = some_then (operand ops 0) (\<lambda>a. some_then (operand ops 1) (\<lambda>b.
     bool_value M (is_zero a \<noteq> is_zero b) w))"
| "evaluate M BoolNot w ops = some_then (operand ops 0) (\<lambda>a. bool_value M (is_zero a) w)"
| "evaluate M CountOnes w ops = some_then (operand ops 0) (\<lambda>a.
     map_ok Some (from_u64 M (ucast (count_ones M a)) w))"
| "evaluate M CountLeadingZeros w ops = some_then (operand ops 0) (\<lambda>a.
     and_then (leading_zeros M a) (\<lambda>n. map_ok Some (from_u64 M (ucast n) w)))"
| "evaluate M UnsignedDiv w ops =
     some_then (cast_operand M w ops 0) (\<lambda>a. some_then (cast_operand M w ops 1) (\<lambda>b.
       if is_zero b then Inr None
       else if is_unsigned a \<and> is_unsigned b then map_ok Some (div_assign M a b)
       else and_then (unsigned_cast M a w) (\<lambda>a. and_then (unsigned_cast M b w) (\<lambda>b.
              map_ok Some (div_assign M a b)))))"
| "evaluate M SignedDiv w ops =
     some_then (cast_operand M w ops 0) (\<lambda>a. some_then (cast_operand M w ops 1) (\<lambda>b.
       if is_zero b then Inr None else map_ok Some (signed_div M a b)))"
| "evaluate M UnsignedRem w ops =
     some_then (cast_operand M w ops 0) (\<lambda>a. some_then (cast_operand M w ops 1) (\<lambda>b.
       if is_zero b then Inr None
       else if is_unsigned a \<and> is_unsigned b then map_ok Some (rem_assign M a b)
       else and_then (unsigned_cast M a w) (\<lambda>a. and_then (unsigned_cast M b w) (\<lambda>b.
              map_ok Some (rem_assign M a b)))))"
| "evaluate M SignedRem w ops =
     some_then (cast_operand M w ops 0) (\<lambda>a. some_then (cast_operand M w ops 1) (\<lambda>b.
       if is_zero b then Inr None else map_ok Some (signed_rem M a b)))"
| "evaluate M IntEqual w ops = some_then (operand ops 0) (\<lambda>a. some_then (operand ops 1) (\<lambda>b.
     if bits a = bits b then bool_value M (eq_bv a b) w else Inr None))"
| "evaluate M IntNotEqual w ops = some_then (operand ops 0) (\<lambda>a. some_then (operand ops 1) (\<lambda>b.
     if bits a = bits b then bool_value M (\<not> eq_bv a b) w else Inr None))"
| "evaluate M IntLess w ops = some_then (operand ops 0) (\<lambda>a. some_then (operand ops 1) (\<lambda>b.
     if bits a \<noteq> bits b then Inr None
     else and_then (if is_unsigned a \<and> is_unsigned b then cmp_bv a b
                    else cmp_bv (unsigned_bv a) (unsigned_bv b))
            (\<lambda>c. bool_value M (c = Less) w)))"
| "evaluate M IntLessEqual w ops = some_then (operand ops 0) (\<lambda>a. some_then (operand ops 1) (\<lambda>b.
     if bits a \<noteq> bits b then Inr None
     else and_then (if is_unsigned a \<and> is_unsigned b then cmp_bv a b
                    else cmp_bv (unsigned_bv a) (unsigned_bv b))
            (\<lambda>c. bool_value M (c \<noteq> Greater) w)))"
| "evaluate M IntSignedLess w ops = some_then (operand ops 0) (\<lambda>a. some_then (operand ops 1) (\<lambda>b.
     if bits a = bits b then and_then (signed_cmp M a b) (\<lambda>c. bool_value M (c = Less) w)
     else Inr None))"
| "evaluate M IntSignedLessEqual w ops = some_then (operand ops 0) (\<lambda>a. some_then (operand ops 1) (\<lambda>b.
     if bits a = bits b then and_then (signed_cmp M a b) (\<lambda>c. bool_value M (c \<noteq> Greater) w)
     else Inr None))"
| "evaluate M Carry w ops = some_then (operand ops 0) (\<lambda>a. some_then (operand ops 1) (\<lambda>b.
     if bits a \<noteq> bits b then Inr None
     else and_then (if is_unsigned a \<and> is_unsigned b then carry M a b
                    else carry M (unsigned_bv a) (unsigned_bv b))
            (\<lambda>c. bool_value M c w)))"
| "evaluate M SignedCarry w ops = some_then (operand ops 0) (\<lambda>a. some_then (operand ops 1) (\<lambda>b.
     if bits a = bits b then and_then (signed_carry M a b) (\<lambda>c. bool_value M c w) else Inr None))"
| "evaluate M SignedBorrow w ops = some_then (operand ops 0) (\<lambda>a. some_then (operand ops 1) (\<lambda>b.
     if bits a = bits b then and_then (signed_borrow M a b) (\<lambda>c. bool_value M c w) else Inr None))"

section \<open>The meaning of the operations\<close>

text \<open>
  The reference: for each operation an integer that the result stands for modulo two to the result
  width \<open>w\<close>, or \<open>None\<close>. The arithmetic operations first bring their operands to the width \<open>w\<close>:
  \<open>unsigned_at w\<close> and \<open>signed_at w\<close> are the two readings of the operand at that width. The
  comparisons and flags work at the operands' own width.
\<close>

definition unsigned_at :: "u32 \<Rightarrow> bitvec \<Rightarrow> int" where
  "unsigned_at w b = ival b mod 2 ^ unat w"

definition signed_at :: "u32 \<Rightarrow> bitvec \<Rightarrow> int" where
  "signed_at w b = (ival b + 2 ^ (unat w - 1)) mod 2 ^ unat w - 2 ^ (unat w - 1)"

definition out_of_range :: "u32 \<Rightarrow> int \<Rightarrow> bool" where
  "out_of_range w i \<longleftrightarrow> i < - (2 ^ (unat w - 1)) \<or> 2 ^ (unat w - 1) \<le> i"

fun unary_spec :: "il_scalar_op \<Rightarrow> u32 \<Rightarrow> bitvec \<Rightarrow> int option" where
  "unary_spec Copy w a = Some (ival a)"
| "unary_spec Truncate w a = Some (ival a)"
| "unary_spec ZeroExtend w a = Some (int (uval a))"
| "unary_spec SignExtend w a = Some (sval a)"
| "unary_spec Not w a = Some (- 1 - unsigned_at w a)"
| "unary_spec Negate w a = Some (- unsigned_at w a)"
| "unary_spec BoolNot w a = Some (of_bool (uval a = 0))"
| "unary_spec CountOnes w a = Some (int (length (filter (bit (uval a)) [0..<bit_length (uval a)])))"
| "unary_spec CountLeadingZeros w a = Some (int (nbits a - bit_length (uval a)))"
| "unary_spec _ w a = None"

fun arith_spec :: "il_scalar_op \<Rightarrow> u32 \<Rightarrow> bitvec \<Rightarrow> bitvec \<Rightarrow> int option" where
  "arith_spec Add w a b = Some (unsigned_at w a + unsigned_at w b)"
| "arith_spec Sub w a b = Some (unsigned_at w a - unsigned_at w b)"
| "arith_spec Mul w a b = Some (unsigned_at w a * unsigned_at w b)"
| "arith_spec And w a b = Some (and (unsigned_at w a) (unsigned_at w b))"
| "arith_spec Or w a b = Some (or (unsigned_at w a) (unsigned_at w b))"
| "arith_spec Xor w a b = Some (xor (unsigned_at w a) (unsigned_at w b))"
| "arith_spec LeftShift w a b = Some (unsigned_at w a * 2 ^ nat (unsigned_at w b))"
| "arith_spec LogicalRightShift w a b = Some (unsigned_at w a div 2 ^ nat (unsigned_at w b))"
| "arith_spec ArithmeticRightShift w a b = Some (signed_at w a div 2 ^ nat (unsigned_at w b))"
| "arith_spec UnsignedDiv w a b =
     (if unsigned_at w b = 0 then None else Some (unsigned_at w a div unsigned_at w b))"
| "arith_spec UnsignedRem w a b =
     (if unsigned_at w b = 0 then None else Some (unsigned_at w a mod unsigned_at w b))"
| "arith_spec SignedDiv w a b =
     (if unsigned_at w b = 0 then None else Some (signed_divide (signed_at w a) (signed_at w b)))"
| "arith_spec SignedRem w a b =
     (if unsigned_at w b = 0 then None else Some (signed_modulo (signed_at w a) (signed_at w b)))"
| "arith_spec _ w a b = None"

fun test_spec :: "il_scalar_op \<Rightarrow> bitvec \<Rightarrow> bitvec \<Rightarrow> bool option" where
  "test_spec BoolAnd a b = Some (uval a \<noteq> 0 \<and> uval b \<noteq> 0)"
| "test_spec BoolOr a b = Some (uval a \<noteq> 0 \<or> uval b \<noteq> 0)"
| "test_spec BoolXor a b = Some ((uval a \<noteq> 0) \<noteq> (uval b \<noteq> 0))"
| "test_spec IntEqual a b = (if bits a = bits b then Some (uval a = uval b) else None)"
| "test_spec IntNotEqual a b = (if bits a = bits b then Some (uval a \<noteq> uval b) else None)"
| "test_spec IntLess a b = (if bits a = bits b then Some (uval a < uval b) else None)"
| "test_spec IntLessEqual a b = (if bits a = bits b then Some (uval a \<le> uval b) else None)"
| "test_spec IntSignedLess a b = (if bits a = bits b then Some (sval a < sval b) else None)"
| "test_spec IntSignedLessEqual a b = (if bits a = bits b then Some (sval a \<le> sval b) else None)"
| "test_spec Carry a b = (if bits a = bits b then Some (2 ^ nbits a \<le> uval a + uval b) else None)"
| "test_spec SignedCarry a b =
     (if bits a = bits b then Some (out_of_range (bits a) (sval a + sval b)) else None)"
| "test_spec SignedBorrow a b =
     (if bits a = bits b then Some (out_of_range (bits a) (sval a - sval b)) else None)"
| "test_spec _ a b = None"

text \<open>The result of an evaluation as the reference prescribes it.\<close>

definition yields :: "bitvec option outcome \<Rightarrow> u32 \<Rightarrow> int option \<Rightarrow> bool" where
  "yields m w s \<longleftrightarrow>
     (case s of
        None \<Rightarrow> m = Inr None
      | Some i \<Rightarrow> \<exists>b. m = Inr (Some b) \<and> wf_bv b \<and> bits b = w \<and> int (uval b) = i mod 2 ^ unat w)"

definition unary_op :: "il_scalar_op \<Rightarrow> bool" where
  "unary_op op \<longleftrightarrow> op \<in> {Copy, Truncate, ZeroExtend, SignExtend, Not, Negate, BoolNot, CountOnes, CountLeadingZeros}"

definition arith_op :: "il_scalar_op \<Rightarrow> bool" where
  "arith_op op \<longleftrightarrow> op \<in> {Add, Sub, Mul, And, Or, Xor, LeftShift, LogicalRightShift, ArithmeticRightShift,
     UnsignedDiv, UnsignedRem, SignedDiv, SignedRem}"

definition test_op :: "il_scalar_op \<Rightarrow> bool" where
  "test_op op \<longleftrightarrow> \<not> unary_op op \<and> \<not> arith_op op"

section \<open>Lemmas\<close>

lemma some_then_simps [simp]:
  "some_then (Inl e) f = Inl e" "some_then (Inr None) f = Inr None" "some_then (Inr (Some x)) f = f x"
  by (simp_all add: some_then_def)

lemma operand_Cons [simp]:
  "operand [] i = Inr None" "operand (a # ops) 0 = Inr (Some a)" "operand (a # b # ops) (Suc 0) = Inr (Some b)"
  "operand [a] (Suc 0) = Inr None"
  by (simp_all add: operand_def)

lemma yields_intro:
  assumes "m = Inr (mk_int mt i)" "0 < width mt" "width mt = unat w"
  shows "yields (map_ok Some m) w (Some i)"
proof -
  have "bits (mk_int mt i) = w" using assms(3) by (simp add: word_unat_eq_iff width_def)
  with assms show ?thesis by (simp add: yields_def)
qed

lemma width_bits: "bits a = w \<Longrightarrow> width (bv_meta a) = unat w"
  by (auto simp: nbits_width [symmetric])

lemma valid_pos: "valid_bits w \<Longrightarrow> 0 < unat w"
  by (simp add: valid_bits_iff)

lemma yields_bool:
  assumes "malachite_ok M" "valid_bits w"
  shows "yields (bool_value M c w) w (Some (of_bool c))"
proof -
  have "from_u64 M (if c then 1 else 0) w = Inr (mk_int (meta_of False w) (of_bool c))"
    using assms mk_int_of_nat [of "meta_of False w" 1] mk_int_of_nat [of "meta_of False w" 0]
    by (auto simp: from_u64_eq)
  then show ?thesis unfolding bool_value_def
    using assms by (intro yields_intro [where mt = "meta_of False w"]) (simp_all add: valid_pos)
qed

text \<open>What the cast operand is: well-formed, of the width, with the two readings of the reference.\<close>

definition at_width :: "u32 \<Rightarrow> bitvec \<Rightarrow> bitvec \<Rightarrow> bool" where
  "at_width w v c \<longleftrightarrow> wf_bv c \<and> bits c = w \<and> int (uval c) = unsigned_at w v \<and> sval c = signed_at w v"

lemma sval_shift:
  assumes "wf_bv c"
  shows "sval c = (int (uval c) + 2 ^ (nbits c - 1)) mod 2 ^ nbits c - 2 ^ (nbits c - 1)"
proof -
  have h: "(2 :: int) ^ nbits c = 2 * 2 ^ (nbits c - 1)" by (rule half_pow_int [OF wf_pos [OF assms]])
  have "(sval c + 2 ^ (nbits c - 1)) mod 2 ^ nbits c = sval c + 2 ^ (nbits c - 1)"
    using sval_bounds [OF assms] h by (intro mod_pos_pos_trivial) linarith+
  moreover have "(sval c + 2 ^ (nbits c - 1)) mod 2 ^ nbits c = (int (uval c) + 2 ^ (nbits c - 1)) mod 2 ^ nbits c"
    using sval_mod [of c] by (metis mod_add_left_eq)
  ultimately show ?thesis by simp
qed

lemma at_width_intro:
  assumes "wf_bv c" "bits c = w" "int (uval c) = unsigned_at w v"
  shows "at_width w v c"
proof -
  have "(ival v mod 2 ^ unat w + 2 ^ (unat w - 1)) mod 2 ^ unat w = (ival v + 2 ^ (unat w - 1)) mod 2 ^ unat w"
    by (rule mod_add_left_eq)
  with assms show ?thesis
    using sval_shift [OF assms(1)] by (simp add: at_width_def unsigned_at_def signed_at_def)
qed

lemma cast_operand_at:
  assumes M: "malachite_ok M" and v: "wf_bv v" and w: "valid_bits w" and op: "operand ops i = Inr (Some v)"
  obtains c where "cast_operand M w ops i = Inr (Some c)" "at_width w v c"
proof (cases "bits v = w")
  case True
  have "int (uval v) = ival v mod 2 ^ unat w"
    using ival_cong [of v] wf_uval_width [OF v] True
    by (simp add: width_bits int_less_pow)
  then have "at_width w v v" using v True by (intro at_width_intro) (simp_all add: unsigned_at_def)
  then show thesis by (intro that [of v]) (simp_all add: cast_operand_def op True)
next
  case False
  let ?c = "mk_int (meta_of (is_signed v) w) (ival v)"
  have "cast_operand M w ops i = Inr (Some ?c)"
    using False M v w by (simp add: cast_operand_def op cast_eq)
  moreover have "at_width w v ?c"
    using w width_meta_of [OF w, of "is_signed v"]
    by (intro at_width_intro) (simp_all add: valid_pos unsigned_at_def word_unat_eq_iff width_def)
  ultimately show thesis by (rule that)
qed

lemma yields_intro_nat:
  assumes "m = Inr (mk_bv mt v)" "0 < width mt" "width mt = unat w" "int v = i"
  shows "yields (map_ok Some m) w (Some i)"
  using assms by (metis mk_int_of_nat yields_intro)

lemma yields_mk_int: "0 < width mt \<Longrightarrow> width mt = unat w \<Longrightarrow> yields (Inr (Some (mk_int mt i))) w (Some i)"
  using yields_intro [OF refl, of mt w i] by simp

lemma yields_mk_bv: "0 < width mt \<Longrightarrow> width mt = unat w \<Longrightarrow> yields (Inr (Some (mk_bv mt v))) w (Some (int v))"
  using yields_intro_nat [OF refl, of mt w v] by simp

lemma evaluate_unary:
  assumes M: "malachite_ok M" and w: "valid_bits w" and a: "wf_bv a" and op: "unary_op op"
  shows "yields (evaluate M op w (a # ops)) w (unary_spec op w a)"
proof -
  obtain c where c: "cast_operand M w (a # ops) 0 = Inr (Some c)" and at: "at_width w a c"
    using cast_operand_at [OF M a w] by (metis operand_Cons(2))
  note cw = at [unfolded at_width_def]
  have wc: "0 < width (bv_meta c)" "width (bv_meta c) = unat w"
    using cw valid_pos [OF w] width_bits by metis+
  have u32: "unat (ucast (x :: u32) :: u64) = unat x" for x
    using unat_lt_pow [of x] by (simp add: unsigned_ucast_eq take_bit_nat_eq_self)
  have u64: "yields (map_ok Some (from_u64 M v w)) w (Some (int (unat v)))" for v
    using M w valid_pos [OF w] 
    by (intro yields_intro_nat [where mt = "meta_of False w" and v = "unat v"]) (simp_all add: from_u64_eq)
  have "yields (map_ok Some (not_assign M c)) w (Some (- 1 - unsigned_at w a))"
    "yields (map_ok Some (neg_assign M c)) w (Some (- unsigned_at w a))"
    using cw wc by (auto simp: yields_mk_int not_assign_eq [OF M] neg_assign_eq [OF M])
  moreover have "yields (map_ok Some (cast M a w)) w (Some (ival a))"
    "yields (map_ok Some (signed_cast M a w)) w (Some (sval a))"
    "yields (map_ok Some (unsigned_cast M a w)) w (Some (int (uval a)))"
    using M w a valid_pos [OF w]
    by (auto simp: yields_mk_int yields_mk_bv cast_eq signed_cast_eq unsigned_cast_eq)
  moreover have "yields (map_ok Some (from_u64 M (ucast (count_ones M a)) w)) w (Some (int (card {i. bit (uval a) i})))"
    using u64 [of "ucast (count_ones M a)"] by (simp only: u32 count_ones_eq [OF M a])
  moreover have "nbits a - bit_length (uval a) < 2 ^ LENGTH(32)" using unat_lt_pow [of "bits a"] by simp
  then have "unat (word_of_nat (nbits a - bit_length (uval a)) :: u32) = nbits a - bit_length (uval a)"
    by (rule unat_word_of_nat_small)
  then have "yields (and_then (leading_zeros M a) (\<lambda>n. map_ok Some (from_u64 M (ucast n) w))) w
      (Some (int (nbits a - bit_length (uval a))))"
    using u64 [of "ucast (word_of_nat (nbits a - bit_length (uval a)) :: u32)"]
    by (simp add: leading_zeros_eq [OF M a] u32)
  moreover have "yields (bool_value M (is_zero a) w) w (Some (of_bool (uval a = 0)))"
    using yields_bool [OF M w] by (simp add: is_zero_iff [OF a])
  ultimately show ?thesis using op c by (auto simp: unary_op_def count_bits)
qed

lemma evaluate_test:
  assumes M: "malachite_ok M" and w: "valid_bits w" and a: "wf_bv a" and b: "wf_bv b" and op: "test_op op"
  shows "yields (evaluate M op w (a # b # ops)) w (map_option of_bool (test_spec op a b))"
proof -
  have cmp: "cmp_bv (unsigned_bv a) (unsigned_bv b) = cmp_bv a b"
    using a b by (simp add: cmp_bv_eq)
  have sgn: "carry M (unsigned_bv a) (unsigned_bv b) = Inr (2 ^ nbits a \<le> uval a + uval b)" if "bits a = bits b"
    using carry_eq [OF M, of "unsigned_bv a" "unsigned_bv b"] a b that by simp
  have uns: "carry M a b = Inr (2 ^ nbits a \<le> uval a + uval b)" if "bits a = bits b" "is_unsigned a" "is_unsigned b"
    using carry_eq [OF M a b] that by (simp add: is_unsigned_def)
  have none: "yields (Inr None) w None" by (simp add: yields_def)
  note bools = yields_bool [OF M w]
  note eqs = is_zero_iff [OF a] is_zero_iff [OF b] eq_bv_iff [OF a b] cmp_bv_eq [OF a b] cmp
    signed_cmp_eq [OF M a b] signed_carry_eq [OF M a b] signed_borrow_eq [OF M a b] compare_def out_of_range_def
  show ?thesis
  proof (cases op)
    case Carry
    then show ?thesis using bools [of "2 ^ nbits a \<le> uval a + uval b"] none uns sgn by auto
  next
    case IntLess
    then show ?thesis using bools [of True] bools [of False] none by (auto simp: eqs)
  next
    case IntLessEqual
    then show ?thesis using bools [of True] bools [of False] none by (auto simp: eqs)
  next
    case IntSignedLess
    then show ?thesis using bools [of True] bools [of False] none by (auto simp: eqs)
  next
    case IntSignedLessEqual
    then show ?thesis using bools [of True] bools [of False] none by (auto simp: eqs)
  next
    case BoolAnd
    then show ?thesis using bools [of "uval a \<noteq> 0 \<and> uval b \<noteq> 0"] by (cases "uval a = 0") (simp_all add: eqs)
  next
    case BoolOr
    then show ?thesis using bools [of "uval a \<noteq> 0 \<or> uval b \<noteq> 0"] by (cases "uval a = 0") (simp_all add: eqs)
  next
    case BoolXor
    then show ?thesis using bools [of True] bools [of False]
      by (cases "uval a = 0"; cases "uval b = 0") (simp_all add: eqs)
  next
    case IntEqual
    then show ?thesis using bools [of "uval a = uval b"] none by (simp add: eqs)
  next
    case IntNotEqual
    then show ?thesis using bools [of "uval a \<noteq> uval b"] none by (simp add: eqs)
  next
    case SignedCarry
    then show ?thesis using bools [of True] bools [of False] none by (auto simp: eqs)
  next
    case SignedBorrow
    then show ?thesis using bools [of True] bools [of False] none by (auto simp: eqs)
  qed (use op in \<open>auto simp: test_op_def unary_op_def arith_op_def\<close>)
qed

lemma unsigned_cast_at:
  assumes M: "malachite_ok M" and w: "valid_bits w" and c: "at_width w v c"
  obtains d where "unsigned_cast M c w = Inr d" "at_width w v d" "\<not> is_signed d"
proof -
  let ?d = "mk_bv (meta_of False w) (uval c)"
  have wc: "wf_bv c" "bits c = w" using c by (simp_all add: at_width_def)
  have "unsigned_cast M c w = Inr ?d" using M w wc by (simp add: unsigned_cast_eq)
  have bd: "bits ?d = w" using w nbits_mk_bv [of "meta_of False w" "uval c"] by (simp add: word_unat_eq_iff del: nbits_mk_bv)
  have "uval ?d = uval c" using w wf_uval_less [OF wc(1)] wc(2) by simp
  then have ad: "at_width w v ?d"
    using c w bd by (intro at_width_intro) (simp_all add: valid_pos at_width_def)
  have "\<not> is_signed ?d" using w by (simp add: is_signed_iff unat_meta_of)
  with ad \<open>unsigned_cast M c w = Inr ?d\<close> show thesis by (intro that [of ?d])
qed

lemma of_nat_bits: "int (x AND y) = int x AND int y" "int (x OR y) = int x OR int y" "int (x XOR y) = int x XOR int y"
  by (simp_all add: of_nat_and_eq of_nat_or_eq of_nat_xor_eq)

lemma arith_yields:
  assumes M: "malachite_ok M" and w: "valid_bits w" and c: "at_width w a c" and d: "at_width w b d"
  shows "yields (map_ok Some (add_assign M c d)) w (Some (unsigned_at w a + unsigned_at w b))"
    and "yields (map_ok Some (sub_assign M c d)) w (Some (unsigned_at w a - unsigned_at w b))"
    and "yields (map_ok Some (mul_assign M c d)) w (Some (unsigned_at w a * unsigned_at w b))"
    and "yields (map_ok Some (bitand_assign c d)) w (Some (unsigned_at w a AND unsigned_at w b))"
    and "yields (map_ok Some (bitor_assign c d)) w (Some (unsigned_at w a OR unsigned_at w b))"
    and "yields (map_ok Some (bitxor_assign c d)) w (Some (unsigned_at w a XOR unsigned_at w b))"
    and "yields (map_ok Some (shl_assign M c d)) w (Some (unsigned_at w a * 2 ^ nat (unsigned_at w b)))"
    and "yields (map_ok Some (signed_shr M c d)) w (Some (signed_at w a div 2 ^ nat (unsigned_at w b)))"
    and "\<not> is_signed c \<Longrightarrow>
      yields (map_ok Some (shr_assign M c d)) w (Some (unsigned_at w a div 2 ^ nat (unsigned_at w b)))"
proof -
  have cd: "wf_bv c" "bits c = w" "wf_bv d" "bits d = w" and s: "signed_at w a = sval c"
    and u: "unsigned_at w a = int (uval c)" "unsigned_at w b = int (uval d)"
    using c d by (simp_all add: at_width_def)
  have wd: "0 < width (bv_meta c)" "width (bv_meta c) = unat w"
    using cd valid_pos [OF w] width_bits by metis+
  note eqs = u s cd wd valid_pos [OF w] yields_mk_int yields_mk_bv
  show "yields (map_ok Some (add_assign M c d)) w (Some (unsigned_at w a + unsigned_at w b))"
    by (simp add: eqs add_assign_eq [OF M])
  show "yields (map_ok Some (sub_assign M c d)) w (Some (unsigned_at w a - unsigned_at w b))"
    by (simp add: eqs sub_assign_eq [OF M])
  show "yields (map_ok Some (mul_assign M c d)) w (Some (unsigned_at w a * unsigned_at w b))"
    by (simp add: eqs mul_assign_eq [OF M])
  show "yields (map_ok Some (bitand_assign c d)) w (Some (unsigned_at w a AND unsigned_at w b))"
    by (simp add: eqs bitand_assign_eq flip: of_nat_bits)
  show "yields (map_ok Some (bitor_assign c d)) w (Some (unsigned_at w a OR unsigned_at w b))"
    by (simp add: eqs bitor_assign_eq flip: of_nat_bits)
  show "yields (map_ok Some (bitxor_assign c d)) w (Some (unsigned_at w a XOR unsigned_at w b))"
    by (simp add: eqs bitxor_assign_eq flip: of_nat_bits)
  show "yields (map_ok Some (shl_assign M c d)) w (Some (unsigned_at w a * 2 ^ nat (unsigned_at w b)))"
    by (simp add: eqs shl_assign_eq [OF M])
  show "yields (map_ok Some (signed_shr M c d)) w (Some (signed_at w a div 2 ^ nat (unsigned_at w b)))"
    by (simp add: eqs signed_shr_eq [OF M])
  show "yields (map_ok Some (shr_assign M c d)) w (Some (unsigned_at w a div 2 ^ nat (unsigned_at w b)))"
    if "\<not> is_signed c"
    using that by (simp add: eqs shr_assign_eq [OF M] ival_def)
qed

lemma division_yields:
  assumes M: "malachite_ok M" and w: "valid_bits w" and c: "at_width w a c" and d: "at_width w b d"
    and nz: "unsigned_at w b \<noteq> 0"
  shows "yields (map_ok Some (signed_div M c d)) w (Some (signed_at w a sdiv signed_at w b))"
    and "yields (map_ok Some (signed_rem M c d)) w (Some (signed_at w a smod signed_at w b))"
    and "\<not> is_signed c \<Longrightarrow> \<not> is_signed d \<Longrightarrow>
      yields (map_ok Some (div_assign M c d)) w (Some (unsigned_at w a div unsigned_at w b))"
    and "\<not> is_signed c \<Longrightarrow> \<not> is_signed d \<Longrightarrow>
      yields (map_ok Some (rem_assign M c d)) w (Some (unsigned_at w a mod unsigned_at w b))"
proof -
  have cd: "wf_bv c" "bits c = w" "wf_bv d" "bits d = w" and s: "signed_at w a = sval c" "signed_at w b = sval d"
    and u: "unsigned_at w a = int (uval c)" "unsigned_at w b = int (uval d)"
    using c d by (simp_all add: at_width_def)
  have wd: "0 < width (bv_meta c)" "width (bv_meta c) = unat w"
    using cd valid_pos [OF w] width_bits by metis+
  have nz': "uval d \<noteq> 0" using nz u by simp
  note eqs = u s cd wd valid_pos [OF w] nz' yields_mk_int yields_mk_bv
  show "yields (map_ok Some (signed_div M c d)) w (Some (signed_at w a sdiv signed_at w b))"
    by (simp add: eqs signed_div_eq [OF M])
  show "yields (map_ok Some (signed_rem M c d)) w (Some (signed_at w a smod signed_at w b))"
    by (simp add: eqs signed_rem_eq [OF M])
  show "yields (map_ok Some (div_assign M c d)) w (Some (unsigned_at w a div unsigned_at w b))"
    if "\<not> is_signed c" "\<not> is_signed d"
    using that by (simp add: eqs div_assign_eq [OF M] ival_def signed_divide_int_def sgn_if)
  show "yields (map_ok Some (rem_assign M c d)) w (Some (unsigned_at w a mod unsigned_at w b))"
    if "\<not> is_signed c" "\<not> is_signed d"
    using that by (simp add: eqs rem_assign_eq [OF M] ival_def signed_modulo_int_def sgn_if)
qed

lemma evaluate_arith:
  assumes M: "malachite_ok M" and w: "valid_bits w" and a: "wf_bv a" and b: "wf_bv b" and op: "arith_op op"
  shows "yields (evaluate M op w (a # b # ops)) w (arith_spec op w a b)"
proof -
  obtain c where c: "cast_operand M w (a # b # ops) 0 = Inr (Some c)" and ac: "at_width w a c"
    using cast_operand_at [OF M a w] by (metis operand_Cons(2))
  obtain d where d: "cast_operand M w (a # b # ops) (Suc 0) = Inr (Some d)" and bd: "at_width w b d"
    using cast_operand_at [OF M b w] by (metis operand_Cons(3))
  obtain c' where c': "unsigned_cast M c w = Inr c'" "at_width w a c'" "\<not> is_signed c'"
    by (rule unsigned_cast_at [OF M w ac])
  obtain d' where d': "unsigned_cast M d w = Inr d'" "at_width w b d'" "\<not> is_signed d'"
    by (rule unsigned_cast_at [OF M w bd])
  have z: "is_zero d \<longleftrightarrow> unsigned_at w b = 0" 
    using bd by (auto simp: at_width_def is_zero_iff)
  have none: "yields (Inr None) w None" by (simp add: yields_def)
  note ar = arith_yields [OF M w ac bd] arith_yields [OF M w c'(2) bd]
    division_yields [OF M w ac bd] division_yields [OF M w c'(2) d'(2)]
  show ?thesis
    using op c d c' d' z none ar by (auto simp: arith_op_def is_unsigned_def)
qed

lemma bool_value_returns: "malachite_ok M \<Longrightarrow> valid_bits w \<Longrightarrow> \<exists>r. bool_value M c w = Inr r"
  by (simp add: bool_value_def from_u64_eq)

lemma evaluate_missing:
  assumes M: "malachite_ok M" and w: "valid_bits w" and a: "wf_bv a" and op: "\<not> unary_op op"
  shows "\<exists>r. evaluate M op w [a] = Inr r"
proof -
  obtain c where "cast_operand M w [a] 0 = Inr (Some c)"
    using cast_operand_at [OF M a w] by (metis operand_Cons(2))
  moreover have "cast_operand M w [a] (Suc 0) = Inr None" by (simp add: cast_operand_def)
  ultimately show ?thesis
    using op bool_value_returns [OF M w] by (cases op) (simp_all add: unary_op_def)
qed

lemma yields_returns: "yields m w s \<Longrightarrow> \<exists>r. m = Inr r"
  by (auto simp: yields_def split: option.splits)

lemma evaluate_returns:
  assumes M: "malachite_ok M" and w: "valid_bits w" and ops: "list_all wf_bv ops"
  shows "\<exists>r. evaluate M op w ops = Inr r"
proof -
  consider "ops = []" | a where "ops = [a]" "wf_bv a" | a b rest where "ops = a # b # rest" "wf_bv a" "wf_bv b"
    using ops by (cases ops; cases "tl ops") auto
  then show ?thesis
  proof cases
    case 1
    then show ?thesis by (cases op) (simp_all add: cast_operand_def)
  next
    case 2
    then show ?thesis
      using evaluate_missing [OF M w] evaluate_unary [OF M w, THEN yields_returns] by (cases "unary_op op") auto
  next
    case 3
    then show ?thesis
      using evaluate_unary [OF M w, THEN yields_returns] evaluate_arith [OF M w, THEN yields_returns]
        evaluate_test [OF M w, THEN yields_returns]
      by (cases "unary_op op"; cases "arith_op op") (auto simp: test_op_def)
  qed
qed

section \<open>Properties\<close>

definition scalar_spec :: "il_scalar_op \<Rightarrow> u32 \<Rightarrow> bitvec \<Rightarrow> bitvec \<Rightarrow> int option" where
  "scalar_spec op w a b =
     (if unary_op op then unary_spec op w a
      else if arith_op op then arith_spec op w a b
      else map_option of_bool (test_spec op a b))"

text \<open>
  C1 \<open>IlScalarOp::evaluate\<close> computes the reference meaning of every operation: for all
  well-formed operands, of whatever widths and signedness, and every valid result width, it returns
  a well-formed vector of exactly that width whose value is the reference value modulo two to the
  width, and \<open>None\<close> exactly where the reference has no value (division by zero, comparison of
  operands of different widths).
\<close>

theorem evaluate_correct:
  assumes "malachite_ok M" and "valid_bits w" and "wf_bv a" and "wf_bv b"
  shows "yields (evaluate M op w [a, b]) w (scalar_spec op w a b)"
  using assms evaluate_unary [of M w a op "[b]"] evaluate_arith [of M w a b op "[]"]
    evaluate_test [of M w a b op "[]"]
  by (simp add: scalar_spec_def test_op_def)

definition byte_100 :: bitvec where
  "byte_100 = \<lparr>bv_value = Small 100, bv_meta = meta_of False 8\<rparr>"

lemma evaluate_correct_witness:
  "yields (evaluate malachite_ref SignedCarry 8 [byte_100, byte_100]) 8 (scalar_spec SignedCarry 8 byte_100 byte_100) \<and>
   scalar_spec SignedCarry 8 byte_100 byte_100 = Some 1"
proof -
  have w: "wf_bv byte_100" by code_simp
  have "scalar_spec SignedCarry 8 byte_100 byte_100 = Some 1" by code_simp
  with evaluate_correct [OF malachite_ref_ok _ w w, of 8 SignedCarry] show ?thesis
    by (simp add: valid_bits_iff)
qed

text \<open>
  Constant folding cannot panic: \<open>IlScalarOp::evaluate\<close> returns for every operation, every
  valid width and every list of well-formed operands, also when operands are missing, although the
  bit vector operators it calls panic on operands of different widths and on division by zero.
\<close>

theorem evaluate_never_panics:
  assumes "malachite_ok M" and "valid_bits w" and "list_all wf_bv ops"
  shows "\<exists>r. evaluate M op w ops = Inr r"
  using assms by (rule evaluate_returns)

lemma evaluate_never_panics_witness:
  "\<exists>r. evaluate malachite_ref UnsignedDiv 32 [byte_100] = Inr r"
  by (rule evaluate_never_panics) (simp, simp add: valid_bits_iff, code_simp)

end
