(* ===== verification/StridedInterval.thy ===== *)
theory StridedInterval
  imports BitVecCast
begin

unbundle bit_operations_syntax

text \<open>
  The strided intervals of \<open>fugue-core/src/analysis/value/strided.rs\<close>, the value domain of the
  switch recovery and the value analyses: the empty interval of a width, or the numbers from \<open>lo\<close>
  to \<open>hi\<close> in steps of \<open>stride\<close>, all bit vectors of one width. The operations work on the bit
  vectors of \<open>BitVecArith\<close> and can panic where those can. Each operation refines an operation on
  triples of naturals (the \<open>_nat\<close> definitions, with \<open>si_of\<close> as the abstraction), and the soundness
  of the domain is proved there: what the operation computes contains what the operands contain.
\<close>

section \<open>The domain\<close>

datatype strided_interval = SIEmpty u32 | SIInterval bitvec bitvec bitvec

definition gt_bv :: "bitvec \<Rightarrow> bitvec \<Rightarrow> bool outcome" where
  "gt_bv a b = map_ok (\<lambda>c. c = Greater) (cmp_bv a b)"

definition lt_bv :: "bitvec \<Rightarrow> bitvec \<Rightarrow> bool outcome" where
  "lt_bv a b = map_ok (\<lambda>c. c = Less) (cmp_bv a b)"

definition ge_bv :: "bitvec \<Rightarrow> bitvec \<Rightarrow> bool outcome" where
  "ge_bv a b = map_ok (\<lambda>c. c \<noteq> Less) (cmp_bv a b)"

definition min_bv :: "bitvec \<Rightarrow> bitvec \<Rightarrow> bitvec outcome" where
  "min_bv a b = map_ok (\<lambda>g. if g then b else a) (gt_bv a b)"

definition max_bv :: "bitvec \<Rightarrow> bitvec \<Rightarrow> bitvec outcome" where
  "max_bv a b = map_ok (\<lambda>g. if g then a else b) (gt_bv a b)"

definition si_empty :: "u32 \<Rightarrow> strided_interval" where
  "si_empty w = SIEmpty w"

definition si_full :: "malachite \<Rightarrow> u32 \<Rightarrow> strided_interval outcome" where
  "si_full M w =
     and_then (zero M w) (\<lambda>lo. and_then (max_value_with M w False) (\<lambda>hi. and_then (one M w) (\<lambda>stride.
       Inr (SIInterval lo hi stride))))"

definition si_single :: "malachite \<Rightarrow> bitvec \<Rightarrow> strided_interval outcome" where
  "si_single M v = and_then (zero M (bits v)) (\<lambda>stride. Inr (SIInterval v v stride))"

definition si_range :: "malachite \<Rightarrow> bitvec \<Rightarrow> bitvec \<Rightarrow> bitvec \<Rightarrow> strided_interval outcome" where
  "si_range M lo hi stride =
     and_then (gt_bv lo hi) (\<lambda>gt.
       if gt then Inr (SIEmpty (bits lo))
       else if eq_bv lo hi then si_single M lo
       else
         and_then (sub_assign M hi lo) (\<lambda>span.
         and_then (if is_zero stride then one M (bits lo) else min_bv stride span) (\<lambda>stride.
         and_then (div_assign M span stride) (\<lambda>steps.
         and_then (mul_assign M steps stride) (\<lambda>reach.
         and_then (add_assign M lo reach) (\<lambda>hi.
           Inr (SIInterval lo hi stride)))))))"

definition si_masked :: "malachite \<Rightarrow> bitvec \<Rightarrow> strided_interval outcome" where
  "si_masked M msk =
     (if is_zero msk then si_single M msk
      else
        and_then (neg_assign M msk) (\<lambda>n.
        and_then (bitand_assign msk n) (\<lambda>stride.
        and_then (zero M (bits msk)) (\<lambda>lo. si_range M lo msk stride))))"

fun si_is_empty :: "strided_interval \<Rightarrow> bool" where
  "si_is_empty (SIEmpty _) = True"
| "si_is_empty (SIInterval _ _ _) = False"

fun si_lower :: "strided_interval \<Rightarrow> bitvec option" where
  "si_lower (SIEmpty _) = None"
| "si_lower (SIInterval lo _ _) = Some lo"

fun si_upper :: "strided_interval \<Rightarrow> bitvec option" where
  "si_upper (SIEmpty _) = None"
| "si_upper (SIInterval _ hi _) = Some hi"

fun si_stride :: "strided_interval \<Rightarrow> bitvec option" where
  "si_stride (SIEmpty _) = None"
| "si_stride (SIInterval _ _ stride) = Some stride"

fun si_width :: "strided_interval \<Rightarrow> u32" where
  "si_width (SIEmpty w) = w"
| "si_width (SIInterval lo _ _) = bits lo"

text \<open>
  The iterator's state is the value to yield next. \<open>si_iter_next\<close> is the closure given to
  \<open>iter::from_fn\<close>, and \<open>si_collect\<close> drives it for at most \<open>fuel\<close> calls.
\<close>

fun si_step :: "malachite \<Rightarrow> strided_interval \<Rightarrow> bitvec outcome" where
  "si_step M (SIEmpty w) = zero M w"
| "si_step M (SIInterval _ _ stride) = Inr stride"

definition si_iter_next ::
  "malachite \<Rightarrow> strided_interval \<Rightarrow> bitvec option \<Rightarrow> (bitvec option \<times> bitvec option) outcome" where
  "si_iter_next M si current =
     (case current of
        None \<Rightarrow> Inr (None, None)
      | Some v \<Rightarrow>
          (case si_upper si of
             None \<Rightarrow> Inr (None, None)
           | Some hi \<Rightarrow>
               and_then (si_step M si) (\<lambda>step.
               and_then (lt_bv v hi) (\<lambda>lt.
                 if lt \<and> \<not> is_zero step then
                   and_then (add_assign M v step) (\<lambda>nxt. Inr (Some v, Some nxt))
                 else Inr (Some v, None)))))"

fun si_collect :: "malachite \<Rightarrow> strided_interval \<Rightarrow> nat \<Rightarrow> bitvec option \<Rightarrow> bitvec list option outcome" where
  "si_collect M si 0 current = Inr None"
| "si_collect M si (Suc fuel) current =
     and_then (si_iter_next M si current) (\<lambda>(item, nxt).
       case item of
         None \<Rightarrow> Inr (Some [])
       | Some v \<Rightarrow> map_ok (map_option (\<lambda>vs. v # vs)) (si_collect M si fuel nxt))"

definition si_contains :: "malachite \<Rightarrow> strided_interval \<Rightarrow> bitvec \<Rightarrow> bool outcome" where
  "si_contains M si v =
     (case si of
        SIEmpty _ \<Rightarrow> Inr False
      | SIInterval lo hi stride \<Rightarrow>
          and_then (lt_bv v lo) (\<lambda>lt. and_then (if lt then Inr True else gt_bv v hi) (\<lambda>out.
            if out then Inr False
            else if is_zero stride then Inr (eq_bv v lo)
            else and_then (sub_assign M v lo) (\<lambda>d. map_ok is_zero (rem_assign M d stride)))))"

definition si_count :: "malachite \<Rightarrow> strided_interval \<Rightarrow> usize option outcome" where
  "si_count M si =
     (case si of
        SIEmpty _ \<Rightarrow> Inr (Some 0)
      | SIInterval lo hi stride \<Rightarrow>
          if is_zero stride then Inr (Some 1)
          else
            and_then (sub_assign M hi lo) (\<lambda>d. and_then (div_assign M d stride) (\<lambda>q.
              Inr (case to_uint 64 q of
                     None \<Rightarrow> None
                   | Some steps \<Rightarrow> checked_add (word_of_nat steps) 1))))"

definition si_meet :: "malachite \<Rightarrow> strided_interval \<Rightarrow> strided_interval \<Rightarrow> strided_interval outcome" where
  "si_meet M x y =
     (case (x, y) of
        (SIInterval l1 h1 s1, SIInterval l2 h2 s2) \<Rightarrow>
          and_then (max_bv l1 l2) (\<lambda>lo. and_then (min_bv h1 h2) (\<lambda>hi. and_then (gt_bv lo hi) (\<lambda>gt.
            if gt then Inr (SIEmpty (si_width x))
            else and_then (gcd_bv M s1 s2) (\<lambda>s. si_range M lo hi s))))
      | _ \<Rightarrow> Inr (SIEmpty (si_width x)))"

definition si_join :: "malachite \<Rightarrow> strided_interval \<Rightarrow> strided_interval \<Rightarrow> strided_interval outcome" where
  "si_join M x y =
     (case (x, y) of
        (SIInterval l1 h1 s1, SIInterval l2 h2 s2) \<Rightarrow>
          and_then (min_bv l1 l2) (\<lambda>lo. and_then (max_bv h1 h2) (\<lambda>hi. and_then (ge_bv l1 l2) (\<lambda>ge.
          and_then (if ge then sub_assign M l1 l2 else sub_assign M l2 l1) (\<lambda>offset.
          and_then (gcd_bv M s1 s2) (\<lambda>g. and_then (gcd_bv M g offset) (\<lambda>s.
            si_range M lo hi s))))))
      | _ \<Rightarrow> Inr (if si_is_empty x then y else x))"

definition si_widen :: "malachite \<Rightarrow> strided_interval \<Rightarrow> strided_interval \<Rightarrow> strided_interval outcome" where
  "si_widen M x y =
     (case (x, y) of
        (SIInterval l1 h1 s1, SIInterval l2 h2 s2) \<Rightarrow>
          and_then (lt_bv l2 l1) (\<lambda>lt. and_then (if lt then zero M (bits l1) else Inr l1) (\<lambda>lo.
          and_then (gt_bv h2 h1) (\<lambda>gt.
          and_then (if gt then max_value_with M (bits l1) False else Inr h1) (\<lambda>hi.
          and_then (gcd_bv M s1 s2) (\<lambda>g.
          and_then (sub_assign M l1 lo) (\<lambda>d1. and_then (gcd_bv M g d1) (\<lambda>g.
          and_then (sub_assign M l2 lo) (\<lambda>d2. and_then (gcd_bv M g d2) (\<lambda>s.
            si_range M lo hi s)))))))))
      | _ \<Rightarrow> Inr (if si_is_empty x then y else x))"

definition si_zero_extend :: "malachite \<Rightarrow> strided_interval \<Rightarrow> u32 \<Rightarrow> strided_interval outcome" where
  "si_zero_extend M x w =
     (case x of
        SIEmpty _ \<Rightarrow> Inr (SIEmpty w)
      | SIInterval lo hi stride \<Rightarrow>
          and_then (unsigned_cast M lo w) (\<lambda>lo. and_then (unsigned_cast M hi w) (\<lambda>hi.
          and_then (unsigned_cast M stride w) (\<lambda>stride. si_range M lo hi stride))))"

definition si_sign_extend :: "malachite \<Rightarrow> strided_interval \<Rightarrow> u32 \<Rightarrow> strided_interval outcome" where
  "si_sign_extend M x w =
     (case x of
        SIEmpty _ \<Rightarrow> Inr (SIEmpty w)
      | SIInterval lo hi stride \<Rightarrow>
          and_then (min_value_with M (bits lo) True) (\<lambda>sign.
          and_then (lt_bv lo sign) (\<lambda>ln. and_then (lt_bv hi sign) (\<lambda>hn.
            if ln \<noteq> hn then si_full M w
            else
              and_then (signed_cast M lo w) (\<lambda>lo. and_then (signed_cast M hi w) (\<lambda>hi.
              and_then (unsigned_cast M stride w) (\<lambda>stride.
                si_range M (unsigned_bv lo) (unsigned_bv hi) stride)))))))"

definition si_truncate :: "malachite \<Rightarrow> strided_interval \<Rightarrow> u32 \<Rightarrow> strided_interval outcome" where
  "si_truncate M x w =
     (case x of
        SIEmpty _ \<Rightarrow> Inr (SIEmpty w)
      | SIInterval lo hi stride \<Rightarrow>
          if bits lo \<le> w then si_zero_extend M x w
          else
            and_then (max_value_with M w False) (\<lambda>m. and_then (unsigned_cast M m (bits lo)) (\<lambda>limit.
            and_then (gt_bv hi limit) (\<lambda>gt.
              if gt then si_full M w
              else
                and_then (cast M lo w) (\<lambda>lo. and_then (cast M hi w) (\<lambda>hi.
                and_then (cast M stride w) (\<lambda>stride. si_range M lo hi stride)))))))"

definition si_cast_to :: "malachite \<Rightarrow> strided_interval \<Rightarrow> u32 \<Rightarrow> strided_interval outcome" where
  "si_cast_to M x w =
     (if si_width x = w then Inr x
      else if si_width x < w then si_zero_extend M x w
      else si_truncate M x w)"

definition si_scale :: "malachite \<Rightarrow> strided_interval \<Rightarrow> bitvec \<Rightarrow> strided_interval outcome" where
  "si_scale M x factor =
     (case x of
        SIEmpty _ \<Rightarrow> Inr (SIEmpty (si_width x))
      | SIInterval lo hi stride \<Rightarrow>
          if is_zero factor then and_then (zero M (bits lo)) (si_single M)
          else
            and_then (max_value_with M (bits lo) False) (\<lambda>m. and_then (div_assign M m factor) (\<lambda>headroom.
            and_then (gt_bv hi headroom) (\<lambda>gt.
              if gt then si_full M (bits lo)
              else
                and_then (mul_assign M lo factor) (\<lambda>lo. and_then (mul_assign M hi factor) (\<lambda>hi.
                and_then (mul_assign M stride factor) (\<lambda>stride. si_range M lo hi stride)))))))"

fun si_to_value :: "strided_interval \<Rightarrow> bitvec option" where
  "si_to_value (SIEmpty _) = None"
| "si_to_value (SIInterval lo _ stride) = (if is_zero stride then Some lo else None)"

definition si_add :: "malachite \<Rightarrow> strided_interval \<Rightarrow> strided_interval \<Rightarrow> strided_interval outcome" where
  "si_add M x y =
     (case (x, y) of
        (SIInterval l1 h1 s1, SIInterval l2 h2 s2) \<Rightarrow>
          and_then (max_value_with M (bits l1) False) (\<lambda>m. and_then (sub_assign M m h2) (\<lambda>headroom.
          and_then (gt_bv h1 headroom) (\<lambda>gt.
            if gt then si_full M (bits l1)
            else
              and_then (add_assign M l1 l2) (\<lambda>lo. and_then (add_assign M h1 h2) (\<lambda>hi.
              and_then (gcd_bv M s1 s2) (\<lambda>s. si_range M lo hi s))))))
      | _ \<Rightarrow> Inr (SIEmpty (si_width x)))"

definition si_sub :: "malachite \<Rightarrow> strided_interval \<Rightarrow> strided_interval \<Rightarrow> strided_interval outcome" where
  "si_sub M x y =
     (case (x, y) of
        (SIInterval l1 h1 s1, SIInterval l2 h2 s2) \<Rightarrow>
          and_then (lt_bv l1 h2) (\<lambda>lt.
            if lt then si_full M (bits l1)
            else
              and_then (sub_assign M l1 h2) (\<lambda>lo. and_then (sub_assign M h1 l2) (\<lambda>hi.
              and_then (gcd_bv M s1 s2) (\<lambda>s. si_range M lo hi s))))
      | _ \<Rightarrow> Inr (SIEmpty (si_width x)))"

definition si_mul :: "malachite \<Rightarrow> strided_interval \<Rightarrow> strided_interval \<Rightarrow> strided_interval outcome" where
  "si_mul M x y =
     (case (si_to_value x, si_to_value y) of
        (Some factor, _) \<Rightarrow> si_scale M y factor
      | (None, Some factor) \<Rightarrow> si_scale M x factor
      | (None, None) \<Rightarrow> si_full M (si_width x))"

definition si_amount :: "strided_interval \<Rightarrow> nat option" where
  "si_amount y = (case si_to_value y of None \<Rightarrow> None | Some v \<Rightarrow> to_uint 64 v)"

definition si_shl :: "malachite \<Rightarrow> strided_interval \<Rightarrow> strided_interval \<Rightarrow> strided_interval outcome" where
  "si_shl M x y =
     (case si_amount y of
        Some shift \<Rightarrow>
          if shift < unat (si_width x) then
            and_then (one M (si_width x)) (\<lambda>u.
            and_then (from_u64 M (word_of_nat shift) (si_width x)) (\<lambda>n.
            and_then (shl_assign M u n) (\<lambda>factor. si_scale M x factor)))
          else si_full M (si_width x)
      | None \<Rightarrow> si_full M (si_width x))"

definition si_shr :: "malachite \<Rightarrow> strided_interval \<Rightarrow> strided_interval \<Rightarrow> strided_interval outcome" where
  "si_shr M x y =
     (case si_amount y of
        None \<Rightarrow> si_full M (si_width x)
      | Some shift \<Rightarrow>
          if unat (si_width x) \<le> shift then and_then (zero M (si_width x)) (si_single M)
          else
            (case x of
               SIEmpty _ \<Rightarrow> Inr (SIEmpty (si_width x))
             | SIInterval lo hi _ \<Rightarrow>
                 and_then (from_u64 M (word_of_nat shift) (si_width x)) (\<lambda>places.
                 and_then (shr_assign M lo places) (\<lambda>lo. and_then (shr_assign M hi places) (\<lambda>hi.
                 and_then (one M (si_width x)) (\<lambda>u. si_range M lo hi u))))))"

definition si_bitand :: "malachite \<Rightarrow> strided_interval \<Rightarrow> strided_interval \<Rightarrow> strided_interval outcome" where
  "si_bitand M x y =
     (case (si_to_value x, si_to_value y) of
        (Some a, Some b) \<Rightarrow> and_then (bitand_assign a b) (si_single M)
      | (Some msk, None) \<Rightarrow> si_masked M msk
      | (None, Some msk) \<Rightarrow> si_masked M msk
      | (None, None) \<Rightarrow> si_full M (si_width x))"

definition si_bitor :: "malachite \<Rightarrow> strided_interval \<Rightarrow> strided_interval \<Rightarrow> strided_interval outcome" where
  "si_bitor M x y =
     (case (si_to_value x, si_to_value y) of
        (Some a, Some b) \<Rightarrow> and_then (bitor_assign a b) (si_single M)
      | _ \<Rightarrow> si_full M (si_width x))"

section \<open>Unsigned vectors as naturals\<close>

definition ubv :: "u32 \<Rightarrow> nat \<Rightarrow> bitvec" where
  "ubv w v = mk_bv (meta_of False w) v"

lemma ubv_collapse: "wf_bv b \<Longrightarrow> \<not> is_signed b \<Longrightarrow> bits b = w \<Longrightarrow> ubv w (uval b) = b"
  using meta_of_bits [of b] wf_collapse [of b] by (auto simp: ubv_def)

lemma ubv_facts [simp]:
  assumes "valid_bits w"
  shows "wf_bv (ubv w v)" "bits (ubv w v) = w" "uval (ubv w v) = v mod 2 ^ unat w" "\<not> is_signed (ubv w v)"
    "bv_meta (ubv w v) = meta_of False w"
proof -
  show "bits (ubv w v) = w"
    using assms nbits_mk_bv [of "meta_of False w" v] by (simp add: ubv_def word_unat_eq_iff del: nbits_mk_bv)
  show "wf_bv (ubv w v)" "uval (ubv w v) = v mod 2 ^ unat w" "\<not> is_signed (ubv w v)"
    "bv_meta (ubv w v) = meta_of False w"
    using assms by (simp_all add: ubv_def valid_bits_iff is_signed_iff unat_meta_of)
qed

lemma mk_int_ubv: "mk_int (meta_of False w) (int v) = ubv w v"
  by (simp add: ubv_def mk_int_of_nat)

lemma ival_ubv: "valid_bits w \<Longrightarrow> ival (ubv w v) = int (v mod 2 ^ unat w)"
  by (simp add: ival_def)

lemma ubv_add:
  assumes "malachite_ok M" "valid_bits w" "u < 2 ^ unat w" "v < 2 ^ unat w"
  shows "add_assign M (ubv w u) (ubv w v) = Inr (ubv w (u + v))"
  using assms mk_int_ubv [of w "u + v"] by (simp add: add_assign_eq)

lemma ubv_sub:
  assumes "malachite_ok M" "valid_bits w" "u < 2 ^ unat w" "v \<le> u"
  shows "sub_assign M (ubv w u) (ubv w v) = Inr (ubv w (u - v))"
  using assms mk_int_ubv [of w "u - v"] by (simp add: sub_assign_eq of_nat_diff)

lemma ubv_mul:
  assumes "malachite_ok M" "valid_bits w" "u < 2 ^ unat w" "v < 2 ^ unat w"
  shows "mul_assign M (ubv w u) (ubv w v) = Inr (ubv w (u * v))"
  using assms mk_int_ubv [of w "u * v"] by (simp add: mul_assign_eq)

lemma ubv_div:
  assumes "malachite_ok M" "valid_bits w" "u < 2 ^ unat w" "v < 2 ^ unat w" "v \<noteq> 0"
  shows "div_assign M (ubv w u) (ubv w v) = Inr (ubv w (u div v))"
  using assms mk_int_ubv [of w "u div v"] mk_int_ubv [of w 0]
  by (simp add: div_assign_eq ival_ubv signed_divide_int_def sgn_if zdiv_int)

lemma ubv_rem:
  assumes "malachite_ok M" "valid_bits w" "u < 2 ^ unat w" "v < 2 ^ unat w" "v \<noteq> 0"
  shows "rem_assign M (ubv w u) (ubv w v) = Inr (ubv w (u mod v))"
  using assms mk_int_ubv [of w "u mod v"] mk_int_ubv [of w 0]
  by (simp add: rem_assign_eq ival_ubv signed_modulo_int_def sgn_if zmod_int)

lemma ubv_cmp:
  assumes "valid_bits w" "u < 2 ^ unat w" "v < 2 ^ unat w"
  shows "gt_bv (ubv w u) (ubv w v) = Inr (v < u)" "lt_bv (ubv w u) (ubv w v) = Inr (u < v)"
    "ge_bv (ubv w u) (ubv w v) = Inr (v \<le> u)" "eq_bv (ubv w u) (ubv w v) \<longleftrightarrow> u = v"
    "min_bv (ubv w u) (ubv w v) = Inr (ubv w (min u v))" "max_bv (ubv w u) (ubv w v) = Inr (ubv w (max u v))"
  using assms
  by (auto simp: gt_bv_def lt_bv_def ge_bv_def min_bv_def max_bv_def cmp_bv_eq eq_bv_iff compare_def min_def max_def)

lemma ubv_is_zero: "valid_bits w \<Longrightarrow> v < 2 ^ unat w \<Longrightarrow> is_zero (ubv w v) \<longleftrightarrow> v = 0"
  by (simp add: is_zero_iff)

lemma ubv_consts:
  assumes "malachite_ok M" "valid_bits w"
  shows "zero M w = Inr (ubv w 0)" "one M w = Inr (ubv w 1)"
    "max_value_with M w False = Inr (ubv w (2 ^ unat w - 1))"
    "from_u64 M x w = Inr (ubv w (unat x))"
  using assms by (simp_all add: ubv_def zero_eq one_eq max_value_with_eq from_u64_eq)

text \<open>
  The stride computations use \<open>BitVec::gcd\<close>, which reads its operands in two's complement: an
  operand with its top bit set counts as its negation. \<open>gcd_nat\<close> is that function on naturals; below
  half the range it is the greatest common divisor.
\<close>

definition mag_nat :: "u32 \<Rightarrow> nat \<Rightarrow> nat" where
  "mag_nat w v = (if 2 ^ (unat w - 1) \<le> v then 2 ^ unat w - v else v)"

definition gcd_nat :: "u32 \<Rightarrow> nat \<Rightarrow> nat \<Rightarrow> nat" where
  "gcd_nat w u v = (if u = 0 then v else if v = 0 then u else gcd (mag_nat w u) (mag_nat w v))"

lemma ubv_gcd:
  assumes "malachite_ok M" "valid_bits w" "u < 2 ^ unat w" "v < 2 ^ unat w"
  shows "gcd_bv M (ubv w u) (ubv w v) = Inr (ubv w (gcd_nat w u v))"
proof -
  have "nat \<bar>sval (ubv w x)\<bar> = mag_nat w x" if "x < 2 ^ unat w" for x
    using that assms(2) magnitude [of "ubv w x"] by (simp add: mag_nat_def)
  note this [OF assms(3)] this [OF assms(4)]
  moreover have "gcd_bv M (ubv w u) (ubv w v) =
      (if u = 0 then Inr (ubv w v) else if v = 0 then Inr (ubv w u)
       else Inr (mk_bv (meta_of False w) (gcd (nat \<bar>sval (ubv w u)\<bar>) (nat \<bar>sval (ubv w v)\<bar>))))"
    using assms gcd_bv_eq [OF assms(1), of "ubv w u" "ubv w v"] by simp
  ultimately show ?thesis by (simp only: gcd_nat_def flip: ubv_def) simp
qed

lemma half_lt: "valid_bits w \<Longrightarrow> v < 2 ^ (unat w - 1) \<Longrightarrow> (v :: nat) < 2 ^ unat w"
  using less_trans [OF _ pow_pred_less [of "unat w"]] by (simp add: valid_bits_iff)

lemma gcd_nat_less:
  assumes "valid_bits w" "u < 2 ^ unat w" "v < 2 ^ unat w"
  shows "gcd_nat w u v < 2 ^ unat w"
proof (cases "u = 0 \<or> v = 0")
  case False
  then have pos: "0 < mag_nat w u" "mag_nat w u < 2 ^ unat w" using assms by (auto simp: mag_nat_def)
  then have "gcd (mag_nat w u) (mag_nat w v) < 2 ^ unat w"
    by (intro le_less_trans [OF gcd_le1_nat]) simp_all
  with False show ?thesis by (simp add: gcd_nat_def)
qed (use assms in \<open>auto simp: gcd_nat_def\<close>)

lemma gcd_nat_eq: "u < 2 ^ (unat w - 1) \<Longrightarrow> v < 2 ^ (unat w - 1) \<Longrightarrow> gcd_nat w u v = gcd u v"
  by (simp add: gcd_nat_def mag_nat_def)

section \<open>The operations on naturals\<close>

type_synonym si_nat = "(nat \<times> nat \<times> nat) option"

definition si_of :: "u32 \<Rightarrow> si_nat \<Rightarrow> strided_interval" where
  "si_of w x = (case x of None \<Rightarrow> SIEmpty w | Some (l, h, s) \<Rightarrow> SIInterval (ubv w l) (ubv w h) (ubv w s))"

text \<open>The invariant of the domain, and the numbers an interval stands for.\<close>

definition si_inv :: "u32 \<Rightarrow> si_nat \<Rightarrow> bool" where
  "si_inv w x = (case x of None \<Rightarrow> True
     | Some (l, h, s) \<Rightarrow> l \<le> h \<and> h < 2 ^ unat w \<and> (s = 0 \<longleftrightarrow> l = h) \<and> s dvd (h - l))"

definition si_gamma :: "si_nat \<Rightarrow> nat set" where
  "si_gamma x = (case x of None \<Rightarrow> {} | Some (l, h, s) \<Rightarrow> {v. l \<le> v \<and> v \<le> h \<and> s dvd (v - l)})"

definition full_nat :: "u32 \<Rightarrow> si_nat" where
  "full_nat w = Some (0, 2 ^ unat w - 1, 1)"

definition single_nat :: "nat \<Rightarrow> si_nat" where
  "single_nat v = Some (v, v, 0)"

definition range_nat :: "nat \<Rightarrow> nat \<Rightarrow> nat \<Rightarrow> si_nat" where
  "range_nat l h s =
     (if h < l then None
      else if l = h then Some (l, l, 0)
      else let s = (if s = 0 then 1 else min s (h - l)) in Some (l, l + (h - l) div s * s, s))"

definition value_nat :: "si_nat \<Rightarrow> nat option" where
  "value_nat x = (case x of None \<Rightarrow> None | Some (l, h, s) \<Rightarrow> if s = 0 then Some l else None)"

definition meet_nat :: "u32 \<Rightarrow> si_nat \<Rightarrow> si_nat \<Rightarrow> si_nat" where
  "meet_nat w x y = (case (x, y) of
     (Some (l1, h1, s1), Some (l2, h2, s2)) \<Rightarrow> range_nat (max l1 l2) (min h1 h2) (gcd_nat w s1 s2)
   | _ \<Rightarrow> None)"

definition join_nat :: "u32 \<Rightarrow> si_nat \<Rightarrow> si_nat \<Rightarrow> si_nat" where
  "join_nat w x y = (case (x, y) of
     (Some (l1, h1, s1), Some (l2, h2, s2)) \<Rightarrow>
       range_nat (min l1 l2) (max h1 h2) (gcd_nat w (gcd_nat w s1 s2) (max l1 l2 - min l1 l2))
   | (None, _) \<Rightarrow> y | (_, None) \<Rightarrow> x)"

definition widen_nat :: "u32 \<Rightarrow> si_nat \<Rightarrow> si_nat \<Rightarrow> si_nat" where
  "widen_nat w x y = (case (x, y) of
     (Some (l1, h1, s1), Some (l2, h2, s2)) \<Rightarrow>
       (let lo = (if l2 < l1 then 0 else l1); hi = (if h1 < h2 then 2 ^ unat w - 1 else h1)
        in range_nat lo hi (gcd_nat w (gcd_nat w (gcd_nat w s1 s2) (l1 - lo)) (l2 - lo)))
   | (None, _) \<Rightarrow> y | (_, None) \<Rightarrow> x)"

definition add_nat :: "u32 \<Rightarrow> si_nat \<Rightarrow> si_nat \<Rightarrow> si_nat" where
  "add_nat w x y = (case (x, y) of
     (Some (l1, h1, s1), Some (l2, h2, s2)) \<Rightarrow>
       if 2 ^ unat w - 1 - h2 < h1 then full_nat w
       else range_nat (l1 + l2) (h1 + h2) (gcd_nat w s1 s2)
   | _ \<Rightarrow> None)"

definition sub_nat :: "u32 \<Rightarrow> si_nat \<Rightarrow> si_nat \<Rightarrow> si_nat" where
  "sub_nat w x y = (case (x, y) of
     (Some (l1, h1, s1), Some (l2, h2, s2)) \<Rightarrow>
       if l1 < h2 then full_nat w else range_nat (l1 - h2) (h1 - l2) (gcd_nat w s1 s2)
   | _ \<Rightarrow> None)"

definition scale_nat :: "u32 \<Rightarrow> si_nat \<Rightarrow> nat \<Rightarrow> si_nat" where
  "scale_nat w x f = (case x of None \<Rightarrow> None
   | Some (l, h, s) \<Rightarrow>
       if f = 0 then single_nat 0
       else if (2 ^ unat w - 1) div f < h then full_nat w
       else range_nat (l * f) (h * f) (s * f))"

definition mul_nat :: "u32 \<Rightarrow> si_nat \<Rightarrow> si_nat \<Rightarrow> si_nat" where
  "mul_nat w x y = (case (value_nat x, value_nat y) of
     (Some f, _) \<Rightarrow> scale_nat w y f | (None, Some f) \<Rightarrow> scale_nat w x f | (None, None) \<Rightarrow> full_nat w)"

definition amount_nat :: "si_nat \<Rightarrow> nat option" where
  "amount_nat y = (case value_nat y of None \<Rightarrow> None | Some v \<Rightarrow> if v < 2 ^ 64 then Some v else None)"

definition shl_nat :: "u32 \<Rightarrow> si_nat \<Rightarrow> si_nat \<Rightarrow> si_nat" where
  "shl_nat w x y = (case amount_nat y of
     Some n \<Rightarrow> if n < unat w then scale_nat w x (2 ^ n) else full_nat w | None \<Rightarrow> full_nat w)"

definition shr_nat :: "u32 \<Rightarrow> si_nat \<Rightarrow> si_nat \<Rightarrow> si_nat" where
  "shr_nat w x y = (case amount_nat y of
     None \<Rightarrow> full_nat w
   | Some n \<Rightarrow>
       if unat w \<le> n then single_nat 0
       else (case x of None \<Rightarrow> None | Some (l, h, s) \<Rightarrow> range_nat (l div 2 ^ n) (h div 2 ^ n) 1))"

definition masked_nat :: "u32 \<Rightarrow> nat \<Rightarrow> si_nat" where
  "masked_nat w m = (if m = 0 then single_nat 0 else range_nat 0 m (m AND (2 ^ unat w - m)))"

definition and_nat :: "u32 \<Rightarrow> si_nat \<Rightarrow> si_nat \<Rightarrow> si_nat" where
  "and_nat w x y = (case (value_nat x, value_nat y) of
     (Some a, Some b) \<Rightarrow> single_nat (a AND b)
   | (Some m, None) \<Rightarrow> masked_nat w m | (None, Some m) \<Rightarrow> masked_nat w m | (None, None) \<Rightarrow> full_nat w)"

definition or_nat :: "u32 \<Rightarrow> si_nat \<Rightarrow> si_nat \<Rightarrow> si_nat" where
  "or_nat w x y = (case (value_nat x, value_nat y) of
     (Some a, Some b) \<Rightarrow> single_nat (a OR b) | _ \<Rightarrow> full_nat w)"

definition zext_nat :: "si_nat \<Rightarrow> si_nat" where
  "zext_nat x = (case x of None \<Rightarrow> None | Some (l, h, s) \<Rightarrow> range_nat l h s)"

definition sext_value :: "u32 \<Rightarrow> u32 \<Rightarrow> nat \<Rightarrow> nat" where
  "sext_value w w' v = (if 2 ^ (unat w - 1) \<le> v then v + (2 ^ unat w' - 2 ^ unat w) else v)"

definition sext_nat :: "u32 \<Rightarrow> u32 \<Rightarrow> si_nat \<Rightarrow> si_nat" where
  "sext_nat w w' x = (case x of None \<Rightarrow> None
   | Some (l, h, s) \<Rightarrow>
       if (l < 2 ^ (unat w - 1)) \<noteq> (h < 2 ^ (unat w - 1)) then full_nat w'
       else range_nat (sext_value w w' l) (sext_value w w' h) s)"

definition trunc_nat :: "u32 \<Rightarrow> si_nat \<Rightarrow> si_nat" where
  "trunc_nat w' x = (case x of None \<Rightarrow> None
   | Some (l, h, s) \<Rightarrow> if 2 ^ unat w' - 1 < h then full_nat w' else range_nat l h s)"

section \<open>Ranges\<close>

lemma gamma_simps [simp]: "si_gamma None = {}" "si_gamma (Some (l, h, s)) = {v. l \<le> v \<and> v \<le> h \<and> s dvd (v - l)}"
  by (simp_all add: si_gamma_def)

lemma inv_simps [simp]: "si_inv w None" "si_inv w (Some (l, h, s)) \<longleftrightarrow>
    l \<le> h \<and> h < 2 ^ unat w \<and> (s = 0 \<longleftrightarrow> l = h) \<and> s dvd (h - l)"
  by (simp_all add: si_inv_def)

lemma of_simps [simp]: "si_of w None = SIEmpty w"
  "si_of w (Some (l, h, s)) = SIInterval (ubv w l) (ubv w h) (ubv w s)"
  by (simp_all add: si_of_def)

lemma inv_stride_less: "si_inv w (Some (l, h, s)) \<Longrightarrow> s < 2 ^ unat w"
  using dvd_imp_le [of s "h - l"] by (cases "l = h") auto

lemma range_reach: "l \<le> h \<Longrightarrow> l + (h - l) div k * k \<le> (h :: nat)"
  using div_times_less_eq_dividend [of "h - l" k] by linarith

lemma range_inv: "h < 2 ^ unat w \<Longrightarrow> si_inv w (range_nat l h s)"
proof -
  assume h: "h < 2 ^ unat w"
  have le: "l + (h - l) div k * k < 2 ^ unat w" if "l \<le> h" for k
    using h that range_reach [of l h k] by linarith
  have pos: "0 < (h - l) div k * k" if "0 < k" "k \<le> h - l" for k
    using that by (simp add: div_greater_zero_iff)
  show ?thesis
    using h le [of s] le [of "h - l"] pos [of s] pos [of "h - l"]
    by (auto simp: range_nat_def Let_def min_def not_less)
qed

lemma range_sound:
  assumes "l \<le> v" "v \<le> h" "s dvd (v - l)"
  shows "v \<in> si_gamma (range_nat l h s)"
proof -
  consider "l = h" | "l < h" "s = 0" | "l < h" "0 < s" "s \<le> h - l" | "l < h" "h - l < s" using assms by linarith
  then show ?thesis
  proof cases
    case 3
    obtain k where k: "v - l = k * s" using assms(3) by (metis dvdE mult.commute)
    then have "k * s \<le> h - l" using assms(2) by linarith
    then have "k \<le> (h - l) div s" using 3 by (simp add: less_eq_div_iff_mult_less_eq)
    then have "k * s \<le> (h - l) div s * s" by (rule mult_le_mono1)
    then have "v \<le> l + (h - l) div s * s" using k assms(1) by linarith
    with 3 assms show ?thesis by (simp add: range_nat_def Let_def min_def)
  next
    case 4
    then have "v = l" using assms nat_dvd_not_less [of "v - l" s] by (metis diff_is_0_eq diff_le_mono le_antisym le_less_trans not_gr_zero)
    with 4 show ?thesis by (simp add: range_nat_def Let_def)
  qed (use assms in \<open>auto simp: range_nat_def Let_def\<close>)
qed

lemma full_inv: "valid_bits w \<Longrightarrow> si_inv w (full_nat w)"
  using one_less_power [of "2 :: nat" "unat w"] by (auto simp: full_nat_def valid_bits_iff)

lemma full_sound: "v < 2 ^ unat w \<Longrightarrow> v \<in> si_gamma (full_nat w)"
  by (simp add: full_nat_def)

lemma single_inv: "v < 2 ^ unat w \<Longrightarrow> si_inv w (single_nat v)"
  and single_gamma: "si_gamma (single_nat v) = {v}"
  by (auto simp: single_nat_def)

lemma si_full_of: "malachite_ok M \<Longrightarrow> valid_bits w \<Longrightarrow> si_full M w = Inr (si_of w (full_nat w))"
  by (simp add: si_full_def ubv_consts full_nat_def)

lemma si_single_of: "malachite_ok M \<Longrightarrow> valid_bits w \<Longrightarrow> si_single M (ubv w v) = Inr (si_of w (single_nat v))"
  by (simp add: si_single_def ubv_consts single_nat_def)

lemma si_range_of:
  assumes M: "malachite_ok M" and w: "valid_bits w"
    and b: "l < 2 ^ unat w" "h < 2 ^ unat w" "s < 2 ^ unat w"
  shows "si_range M (ubv w l) (ubv w h) (ubv w s) = Inr (si_of w (range_nat l h s))"
proof (cases "l < h")
  case True
  define t where "t = (if s = 0 then 1 else min s (h - l))"
  have t: "t \<noteq> 0" "t < 2 ^ unat w" using True b by (auto simp: t_def min_def)
  have d: "h - l < 2 ^ unat w" "(h - l) div t < 2 ^ unat w"
    using b by (auto intro: le_less_trans [OF div_le_dividend])
  have m: "(h - l) div t * t < 2 ^ unat w"
    using d(1) by (rule le_less_trans [OF div_times_less_eq_dividend])
  have st: "(if is_zero (ubv w s) then one M (bits (ubv w l)) else min_bv (ubv w s) (ubv w (h - l))) = Inr (ubv w t)"
    using M w b d by (simp add: ubv_is_zero ubv_consts ubv_cmp t_def)
  have "si_range M (ubv w l) (ubv w h) (ubv w s) = Inr (SIInterval (ubv w l) (ubv w (l + (h - l) div t * t)) (ubv w t))"
    unfolding si_range_def
    using True b
    by (simp add: ubv_cmp(1,4) [OF w] ubv_facts(2) [OF w] ubv_sub [OF M w] st ubv_div [OF M w d(1) t(2,1)]
        ubv_mul [OF M w d(2) t(2)] ubv_add [OF M w b(1) m] split del: if_split)
  with True show ?thesis by (simp add: range_nat_def Let_def t_def)
next
  case False
  then show ?thesis using M w b
    by (auto simp: si_range_def ubv_cmp range_nat_def single_nat_def si_single_of)
qed

section \<open>The operations refine the operations on naturals\<close>

lemma inv_bounds:
  assumes "si_inv w (Some (l, h, s))"
  shows "l < 2 ^ unat w" "h < 2 ^ unat w" "s < 2 ^ unat w" "l \<le> h" "s \<le> h - l"
  using assms inv_stride_less [OF assms] dvd_imp_le [of s "h - l"] by (cases "l = h"; auto)+

lemma si_cases2:
  obtains "x = None" | "y = None" | l1 h1 s1 l2 h2 s2 where "x = Some (l1, h1, s1)" "y = Some (l2, h2, s2)"
  by (cases x; cases y) auto

lemma width_of [simp]: "valid_bits w \<Longrightarrow> si_inv w x \<Longrightarrow> si_width (si_of w x) = w"
  by (cases x) auto

lemma is_empty_of [simp]: "si_is_empty (si_of w x) \<longleftrightarrow> x = None"
  by (cases x) auto

lemma si_meet_of:
  assumes M: "malachite_ok M" and w: "valid_bits w" and x: "si_inv w x" and y: "si_inv w y"
  shows "si_meet M (si_of w x) (si_of w y) = Inr (si_of w (meet_nat w x y))"
proof (cases rule: si_cases2 [where x = x and y = y])
  case (3 l1 h1 s1 l2 h2 s2)
  note b = inv_bounds [OF x [unfolded 3]] inv_bounds [OF y [unfolded 3]]
  have lt: "max l1 l2 < 2 ^ unat w" "min h1 h2 < 2 ^ unat w" using b by auto
  show ?thesis
    using b lt gcd_nat_less [OF w b(3) b(8)]
    by (simp add: 3 si_meet_def ubv_cmp [OF w] ubv_gcd [OF M w] si_range_of [OF M w] meet_nat_def ubv_facts(2) [OF w])
      (simp add: range_nat_def)
qed (use w x in \<open>auto simp: si_meet_def meet_nat_def split: strided_interval.splits option.splits\<close>)

lemma si_join_of:
  assumes M: "malachite_ok M" and w: "valid_bits w" and x: "si_inv w x" and y: "si_inv w y"
  shows "si_join M (si_of w x) (si_of w y) = Inr (si_of w (join_nat w x y))"
proof (cases rule: si_cases2 [where x = x and y = y])
  case (3 l1 h1 s1 l2 h2 s2)
  note b = inv_bounds [OF x [unfolded 3]] inv_bounds [OF y [unfolded 3]]
  let ?o = "max l1 l2 - min l1 l2"
  have lt: "min l1 l2 < 2 ^ unat w" "max h1 h2 < 2 ^ unat w" "?o < 2 ^ unat w" using b by auto
  have off: "(if l2 \<le> l1 then sub_assign M (ubv w l1) (ubv w l2) else sub_assign M (ubv w l2) (ubv w l1)) = Inr (ubv w ?o)"
    using b by (simp add: ubv_sub [OF M w] max_def min_def)
  note g = gcd_nat_less [OF w b(3) b(8)]
  show ?thesis
    using b lt g gcd_nat_less [OF w g lt(3)]
    by (simp add: 3 si_join_def ubv_cmp [OF w] off ubv_gcd [OF M w] si_range_of [OF M w] join_nat_def split del: if_split)
qed (auto simp: si_join_def join_nat_def split: strided_interval.splits option.splits)

lemma si_widen_of:
  assumes M: "malachite_ok M" and w: "valid_bits w" and x: "si_inv w x" and y: "si_inv w y"
  shows "si_widen M (si_of w x) (si_of w y) = Inr (si_of w (widen_nat w x y))"
proof (cases rule: si_cases2 [where x = x and y = y])
  case (3 l1 h1 s1 l2 h2 s2)
  note b = inv_bounds [OF x [unfolded 3]] inv_bounds [OF y [unfolded 3]]
  define lo hi where "lo = (if l2 < l1 then 0 else l1)" and "hi = (if h1 < h2 then 2 ^ unat w - 1 else h1)"
  have le: "lo \<le> l1" "lo \<le> l2" by (auto simp: lo_def)
  have lt: "lo < 2 ^ unat w" "hi < 2 ^ unat w" "l1 - lo < 2 ^ unat w" "l2 - lo < 2 ^ unat w"
    using b le by (auto simp: hi_def)
  have lo: "(if l2 < l1 then zero M (bits (ubv w l1)) else Inr (ubv w l1)) = Inr (ubv w lo)"
    using M w by (simp add: ubv_consts lo_def)
  have hi: "(if h1 < h2 then max_value_with M (bits (ubv w l1)) False else Inr (ubv w h1)) = Inr (ubv w hi)"
    using M w by (simp add: ubv_consts hi_def)
  note g = gcd_nat_less [OF w b(3) b(8)]
  note g1 = gcd_nat_less [OF w g lt(3)]
  note g2 = gcd_nat_less [OF w g1 lt(4)]
  have "si_widen M (si_of w x) (si_of w y) = Inr (si_of w (range_nat lo hi (gcd_nat w (gcd_nat w (gcd_nat w s1 s2) (l1 - lo)) (l2 - lo))))"
    using b lt le g g1 g2
    by (simp add: 3 si_widen_def ubv_cmp [OF w] lo hi ubv_sub [OF M w] ubv_gcd [OF M w] si_range_of [OF M w] split del: if_split)
  then show ?thesis by (simp add: 3 widen_nat_def lo_def hi_def)
qed (auto simp: si_widen_def widen_nat_def split: strided_interval.splits option.splits)

lemma si_add_of:
  assumes M: "malachite_ok M" and w: "valid_bits w" and x: "si_inv w x" and y: "si_inv w y"
  shows "si_add M (si_of w x) (si_of w y) = Inr (si_of w (add_nat w x y))"
proof (cases rule: si_cases2 [where x = x and y = y])
  case (3 l1 h1 s1 l2 h2 s2)
  note b = inv_bounds [OF x [unfolded 3]] inv_bounds [OF y [unfolded 3]]
  have d: "2 ^ unat w - 1 - h2 < 2 ^ unat w" by (simp add: less_imp_diff_less)
  have m: "sub_assign M (ubv w (2 ^ unat w - 1)) (ubv w h2) = Inr (ubv w (2 ^ unat w - 1 - h2))"
    using b by (intro ubv_sub [OF M w]) auto
  have sums: "l1 + l2 < 2 ^ unat w" "h1 + h2 < 2 ^ unat w" if "\<not> 2 ^ unat w - 1 - h2 < h1"
    using that b by auto
  show ?thesis
    using b d sums gcd_nat_less [OF w b(3) b(8)]
    by (simp add: 3 si_add_def ubv_consts [OF M w] ubv_facts(2) [OF w] m [simplified] ubv_cmp(1) [OF w] si_full_of [OF M w]
        ubv_add [OF M w] ubv_gcd [OF M w] si_range_of [OF M w] add_nat_def)
qed (use w x in \<open>auto simp: si_add_def add_nat_def split: strided_interval.splits option.splits\<close>)

lemma si_sub_of:
  assumes M: "malachite_ok M" and w: "valid_bits w" and x: "si_inv w x" and y: "si_inv w y"
  shows "si_sub M (si_of w x) (si_of w y) = Inr (si_of w (sub_nat w x y))"
proof (cases rule: si_cases2 [where x = x and y = y])
  case (3 l1 h1 s1 l2 h2 s2)
  note b = inv_bounds [OF x [unfolded 3]] inv_bounds [OF y [unfolded 3]]
  show ?thesis
    using b gcd_nat_less [OF w b(3) b(8)]
    by (simp add: 3 si_sub_def ubv_cmp(2) [OF w] ubv_facts(2) [OF w] si_full_of [OF M w] ubv_sub [OF M w] ubv_gcd [OF M w]
        si_range_of [OF M w] sub_nat_def)
qed (use w x in \<open>auto simp: si_sub_def sub_nat_def split: strided_interval.splits option.splits\<close>)

lemma si_scale_of:
  assumes M: "malachite_ok M" and w: "valid_bits w" and x: "si_inv w x" and f: "f < 2 ^ unat w"
  shows "si_scale M (si_of w x) (ubv w f) = Inr (si_of w (scale_nat w x f))"
proof (cases x)
  case (Some t)
  then obtain l h s where t: "x = Some (l, h, s)" by (cases t) auto
  note b = inv_bounds [OF x [unfolded t]]
  have q: "(2 ^ unat w - 1) div f < 2 ^ unat w"
    by (rule le_less_trans [OF div_le_dividend]) simp
  have m: "div_assign M (ubv w (2 ^ unat w - 1)) (ubv w f) = Inr (ubv w ((2 ^ unat w - 1) div f))" if "f \<noteq> 0"
    using f that by (intro ubv_div [OF M w]) auto
  have prods: "l * f < 2 ^ unat w" "h * f < 2 ^ unat w" "s * f < 2 ^ unat w"
    if "f \<noteq> 0" "\<not> (2 ^ unat w - 1) div f < h"
  proof -
    have "h * f \<le> 2 ^ unat w - 1" using that by (simp add: less_eq_div_iff_mult_less_eq not_less)
    moreover have "l * f \<le> h * f" "s * f \<le> h * f" using b by (auto intro: mult_le_mono1)
    moreover have "(2 :: nat) ^ unat w - 1 < 2 ^ unat w" by simp
    ultimately show "l * f < 2 ^ unat w" "h * f < 2 ^ unat w" "s * f < 2 ^ unat w" by linarith+
  qed
  show ?thesis
    using b f q prods
    by (simp add: t si_scale_def ubv_is_zero [OF w] ubv_consts [OF M w] ubv_facts(2) [OF w] si_single_of [OF M w] m [simplified]
        ubv_cmp(1) [OF w] si_full_of [OF M w] ubv_mul [OF M w] si_range_of [OF M w] scale_nat_def)
qed (simp add: si_scale_def scale_nat_def)

lemma value_of: "valid_bits w \<Longrightarrow> si_inv w x \<Longrightarrow> si_to_value (si_of w x) = map_option (ubv w) (value_nat x)"
  by (cases x) (auto simp: value_nat_def ubv_is_zero dest: inv_stride_less)

lemma value_less: "si_inv w x \<Longrightarrow> value_nat x = Some v \<Longrightarrow> v < 2 ^ unat w"
  by (cases x) (auto simp: value_nat_def split: if_splits)

lemma si_mul_of:
  assumes "malachite_ok M" "valid_bits w" "si_inv w x" "si_inv w y"
  shows "si_mul M (si_of w x) (si_of w y) = Inr (si_of w (mul_nat w x y))"
  using assms value_less [OF assms(3)] value_less [OF assms(4)]
  by (simp add: si_mul_def mul_nat_def value_of si_scale_of si_full_of split: option.splits)

lemma amount_of:
  assumes "valid_bits w" "si_inv w y" shows "si_amount (si_of w y) = amount_nat y"
  using assms value_less [OF assms(2)]
  by (auto simp: si_amount_def amount_nat_def value_of to_uint_eq split: option.splits)

lemma one_less_pow_width: "valid_bits w \<Longrightarrow> 1 < (2 :: nat) ^ unat w"
  by (rule one_less_power) (simp_all add: valid_bits_iff)

lemma shift_factor:
  assumes M: "malachite_ok M" and w: "valid_bits w" and n: "n < unat w"
  shows "from_u64 M (word_of_nat n) w = Inr (ubv w n)" "n < 2 ^ unat w"
    "shl_assign M (ubv w 1) (ubv w n) = Inr (ubv w (2 ^ n))" "2 ^ n < (2 :: nat) ^ unat w"
proof -
  have "unat w < 2 ^ 64" using w by (simp add: valid_bits_iff)
  with n show "from_u64 M (word_of_nat n) w = Inr (ubv w n)"
    by (simp add: ubv_consts [OF M w] unat_word_of_nat)
  show lt: "n < 2 ^ unat w" using n less_exp [of "unat w"] by linarith
  show "2 ^ n < (2 :: nat) ^ unat w" using n by simp
  have "1 < (2 :: nat) ^ unat w" by (rule one_less_pow_width [OF w])
  then show "shl_assign M (ubv w 1) (ubv w n) = Inr (ubv w (2 ^ n))"
    using lt w mk_int_ubv [of w "2 ^ n"] valid_bits_iff [of w] by (simp add: shl_assign_eq [OF M])
qed

lemma si_shl_of:
  assumes M: "malachite_ok M" and w: "valid_bits w" and v: "valid_bits w'"
    and x: "si_inv w x" and y: "si_inv w' y"
  shows "si_shl M (si_of w x) (si_of w' y) = Inr (si_of w (shl_nat w x y))"
  using assms shift_factor [OF M w]
  by (simp add: si_shl_def shl_nat_def amount_of si_full_of si_scale_of ubv_consts(2) split: option.splits)

lemma ubv_shr:
  assumes M: "malachite_ok M" and w: "valid_bits w" and "u < 2 ^ unat w" "n < 2 ^ unat w"
  shows "shr_assign M (ubv w u) (ubv w n) = Inr (ubv w (u div 2 ^ n))"
  using assms mk_int_ubv [of w "u div 2 ^ n"] by (simp add: shr_assign_eq ival_def zdiv_int)

lemma si_shr_of:
  assumes M: "malachite_ok M" and w: "valid_bits w" and v: "valid_bits w'"
    and x: "si_inv w x" and y: "si_inv w' y"
  shows "si_shr M (si_of w x) (si_of w' y) = Inr (si_of w (shr_nat w x y))"
proof (cases "amount_nat y")
  case None
  then show ?thesis using assms by (simp add: si_shr_def shr_nat_def amount_of si_full_of)
next
  case (Some n)
  show ?thesis
  proof (cases "unat w \<le> n \<or> x = None")
    case True
    then show ?thesis
      using assms Some by (auto simp: si_shr_def shr_nat_def amount_of ubv_consts(1) si_single_of)
  next
    case False
    then obtain l h s where t: "x = Some (l, h, s)" by (cases x) auto
    note b = inv_bounds [OF x [unfolded t]]
    have n: "n < unat w" using False by simp
    have d: "l div 2 ^ n < 2 ^ unat w" "h div 2 ^ n < 2 ^ unat w"
      using b by (auto intro: le_less_trans [OF div_le_dividend])
    have one: "1 < (2 :: nat) ^ unat w" by (rule one_less_pow_width [OF w])
    show ?thesis
      using b n d one Some v y w shift_factor(1,2) [OF M w n]
      by (simp add: t si_shr_def shr_nat_def amount_of ubv_shr [OF M w] ubv_consts(2) [OF M w] si_range_of [OF M w])
  qed
qed

lemma ubv_neg:
  assumes M: "malachite_ok M" and w: "valid_bits w" and "m < 2 ^ unat w"
  shows "neg_assign M (ubv w m) = Inr (ubv w (2 ^ unat w - m))"
proof -
  have "int (2 ^ unat w - m) = - int m + 2 ^ unat w" using assms(3) by (simp add: of_nat_diff)
  then have "mk_int (meta_of False w) (- int m) = ubv w (2 ^ unat w - m)"
    unfolding ubv_def using w by (intro mk_bv_mod_cong [symmetric]) simp
  then show ?thesis using assms by (simp add: neg_assign_eq)
qed

lemma si_masked_of:
  assumes M: "malachite_ok M" and w: "valid_bits w" and m: "m < 2 ^ unat w"
  shows "si_masked M (ubv w m) = Inr (si_of w (masked_nat w m))"
proof (cases "m = 0")
  case True
  then show ?thesis using assms by (simp add: si_masked_def masked_nat_def ubv_is_zero si_single_of)
next
  case False
  let ?n = "2 ^ unat w - m"
  have n: "?n < 2 ^ unat w" using False m by simp
  have "bitand_assign (ubv w m) (ubv w ?n) = Inr (ubv w (m AND ?n))"
    using w m n by (simp add: bitand_assign_eq flip: ubv_def)
  with False w M m n bitop_less(1) [OF m n] show ?thesis
    by (simp add: si_masked_def masked_nat_def ubv_is_zero ubv_neg ubv_consts(1) si_range_of)
qed

lemma ubv_bits:
  assumes "valid_bits w" "a < 2 ^ unat w" "b < 2 ^ unat w"
  shows "bitand_assign (ubv w a) (ubv w b) = Inr (ubv w (a AND b))"
    "bitor_assign (ubv w a) (ubv w b) = Inr (ubv w (a OR b))"
  using assms by (simp_all add: bitand_assign_eq bitor_assign_eq flip: ubv_def)

lemma si_bitand_of:
  assumes "malachite_ok M" "valid_bits w" "si_inv w x" "si_inv w y"
  shows "si_bitand M (si_of w x) (si_of w y) = Inr (si_of w (and_nat w x y))"
  using assms value_less [OF assms(3)] value_less [OF assms(4)]
  by (simp add: si_bitand_def and_nat_def value_of si_masked_of si_single_of si_full_of ubv_bits split: option.splits)

lemma si_bitor_of:
  assumes "malachite_ok M" "valid_bits w" "si_inv w x" "si_inv w y"
  shows "si_bitor M (si_of w x) (si_of w y) = Inr (si_of w (or_nat w x y))"
  using assms value_less [OF assms(3)] value_less [OF assms(4)]
  by (simp add: si_bitor_def or_nat_def value_of si_single_of si_full_of ubv_bits split: option.splits)

lemma ubv_cast:
  assumes "malachite_ok M" "valid_bits w" "valid_bits w'" "v < 2 ^ unat w"
  shows "unsigned_cast M (ubv w v) w' = Inr (ubv w' v)" "cast M (ubv w v) w' = Inr (ubv w' v)"
  using assms mk_int_ubv [of w' v] by (simp_all add: unsigned_cast_eq cast_eq ival_ubv flip: ubv_def)

lemma pow_mono: "w \<le> w' \<Longrightarrow> (2 :: nat) ^ unat w \<le> 2 ^ unat w'"
  by (rule power_increasing) (simp_all add: word_le_nat_alt)

lemma si_zero_extend_of:
  assumes M: "malachite_ok M" and w: "valid_bits w" and v: "valid_bits w'" and x: "si_inv w x" and le: "w \<le> w'"
  shows "si_zero_extend M (si_of w x) w' = Inr (si_of w' (zext_nat x))"
proof (cases x)
  case (Some t)
  then obtain l h s where t: "x = Some (l, h, s)" by (cases t) auto
  note b = inv_bounds [OF x [unfolded t]]
  have "l < 2 ^ unat w'" "h < 2 ^ unat w'" "s < 2 ^ unat w'" using b pow_mono [OF le] by linarith+
  with b t show ?thesis
    by (simp add: si_zero_extend_def zext_nat_def ubv_cast(1) [OF M w v] si_range_of [OF M v])
qed (simp add: si_zero_extend_def zext_nat_def)

lemma si_truncate_of:
  assumes M: "malachite_ok M" and w: "valid_bits w" and v: "valid_bits w'" and x: "si_inv w x"
  shows "si_truncate M (si_of w x) w' = Inr (si_of w' (if w \<le> w' then zext_nat x else trunc_nat w' x))"
proof (cases x)
  case (Some t)
  then obtain l h s where t: "x = Some (l, h, s)" by (cases t) auto
  note b = inv_bounds [OF x [unfolded t]]
  show ?thesis
  proof (cases "w \<le> w'")
    case True
    with si_zero_extend_of [OF M w v x] t w show ?thesis by (simp add: si_truncate_def)
  next
    case False
    then have lim: "2 ^ unat w' - 1 < (2 :: nat) ^ unat w"
    proof -
      have "(2 :: nat) ^ unat w' \<le> 2 ^ unat w" using False by (intro pow_mono) simp
      then show ?thesis using one_less_pow_width [OF v] by linarith
    qed
    have "l < 2 ^ unat w'" "h < 2 ^ unat w'" "s < 2 ^ unat w'" if "\<not> 2 ^ unat w' - 1 < h"
      using that b zero_less_power [of "2 :: nat" "unat w'"] by linarith+
    with False b t lim show ?thesis
      by (simp add: si_truncate_def trunc_nat_def ubv_facts(2) [OF w] ubv_consts(3) [OF M v] ubv_cast(1) [OF M v w]
          ubv_cast(2) [OF M w v] ubv_cmp(1) [OF w] si_full_of [OF M v] si_range_of [OF M v])
  qed
qed (simp add: si_truncate_def trunc_nat_def zext_nat_def)

lemma ubv_signed_cast:
  assumes M: "malachite_ok M" and w: "valid_bits w" and v: "valid_bits w'" and le: "w \<le> w'" and u: "u < 2 ^ unat w"
  shows "\<exists>c. signed_cast M (ubv w u) w' = Inr c \<and> unsigned_bv c = ubv w' (sext_value w w' u)"
    "sext_value w w' u < 2 ^ unat w'"
proof -
  have pow: "(2 :: nat) ^ unat w \<le> 2 ^ unat w'" by (rule pow_mono [OF le])
  show lt: "sext_value w w' u < 2 ^ unat w'" 
    unfolding sext_value_def using u pow by (simp only: split: if_split) linarith
  let ?c = "mk_int (meta_of True w') (sval (ubv w u))"
  have bc: "bits ?c = w'" using v width_meta_of [OF v, of True] by (simp add: width_def word_unat_eq_iff)
  have "int (sext_value w w' u) = sval (ubv w u) + (if 2 ^ (unat w - 1) \<le> u then 2 ^ unat w' else 0)"
  proof -
    have "int (u + (2 ^ unat w' - 2 ^ unat w)) = int u - 2 ^ unat w + 2 ^ unat w'"
      using pow unfolding of_nat_add by (subst of_nat_diff) simp_all
    then show ?thesis using u w by (simp only: sext_value_def sval_def ubv_facts split: if_split) simp
  qed
  then have "sval (ubv w u) mod 2 ^ unat w' = int (sext_value w w' u) mod 2 ^ unat w'" by simp
  also have "\<dots> = int (sext_value w w' u)" using int_less_pow [OF lt] by simp
  finally have "uval ?c = sext_value w w' u" using v by simp
  moreover have "wf_bv ?c" using v by (simp add: valid_bits_iff)
  ultimately have "unsigned_bv ?c = ubv w' (sext_value w w' u)"
    using ubv_collapse [of "unsigned_bv ?c" w'] bc by simp
  moreover have "signed_cast M (ubv w u) w' = Inr ?c" using M w v by (simp add: signed_cast_eq)
  ultimately show "\<exists>c. signed_cast M (ubv w u) w' = Inr c \<and> unsigned_bv c = ubv w' (sext_value w w' u)" by blast
qed

lemma si_sign_extend_of:
  assumes M: "malachite_ok M" and w: "valid_bits w" and v: "valid_bits w'" and x: "si_inv w x" and le: "w \<le> w'"
  shows "si_sign_extend M (si_of w x) w' = Inr (si_of w' (sext_nat w w' x))"
proof (cases x)
  case (Some t)
  then obtain l h s where t: "x = Some (l, h, s)" by (cases t) auto
  note b = inv_bounds [OF x [unfolded t]]
  let ?sign = "mk_bv (meta_of True w) (2 ^ (unat w - 1))"
  have half: "2 ^ (unat w - 1) < (2 :: nat) ^ unat w" using w by (intro pow_pred_less) (simp add: valid_bits_iff)
  have bs: "bits ?sign = w" using w nbits_mk_bv [of "meta_of True w" "2 ^ (unat w - 1)"] by (simp add: word_unat_eq_iff del: nbits_mk_bv)
  have lt: "lt_bv (ubv w u) ?sign = Inr (u < 2 ^ (unat w - 1))" if "u < 2 ^ unat w" for u
    using that w half bs by (auto simp: lt_bv_def cmp_bv_eq compare_def valid_bits_iff)
  obtain cl ch where c: "signed_cast M (ubv w l) w' = Inr cl" "unsigned_bv cl = ubv w' (sext_value w w' l)"
      "signed_cast M (ubv w h) w' = Inr ch" "unsigned_bv ch = ubv w' (sext_value w w' h)"
    using ubv_signed_cast(1) [OF M w v le] b by metis
  have "s < 2 ^ unat w'" using b pow_mono [OF le] by linarith
  then show ?thesis
    using b t c ubv_signed_cast(2) [OF M w v le]
    by (simp add: si_sign_extend_def sext_nat_def ubv_facts(2) [OF w] min_value_with_eq [OF M w] lt [simplified]
        si_full_of [OF M v] ubv_cast(1) [OF M w v] si_range_of [OF M v])
qed (simp add: si_sign_extend_def sext_nat_def)

lemma si_cast_to_of:
  assumes M: "malachite_ok M" and w: "valid_bits w" and v: "valid_bits w'" and x: "si_inv w x"
  shows "si_cast_to M (si_of w x) w' =
    Inr (si_of w' (if w = w' then x else if w < w' then zext_nat x else trunc_nat w' x))"
  using assms si_zero_extend_of [OF M w v x] si_truncate_of [OF M w v x]
  by (auto simp: si_cast_to_def)

section \<open>Soundness\<close>

text \<open>
  A stride is narrow when its top bit is clear. \<open>BitVec::gcd\<close> is the greatest common divisor on
  narrow operands only, so the operations that combine strides are sound for those.
\<close>

definition narrow :: "u32 \<Rightarrow> si_nat \<Rightarrow> bool" where
  "narrow w x = (case x of None \<Rightarrow> True | Some (l, h, s) \<Rightarrow> s < 2 ^ (unat w - 1))"

lemma narrow_simps [simp]: "narrow w None" "narrow w (Some (l, h, s)) \<longleftrightarrow> s < 2 ^ (unat w - 1)"
  by (simp_all add: narrow_def)

lemma gamma_less: "si_inv w x \<Longrightarrow> v \<in> si_gamma x \<Longrightarrow> v < 2 ^ unat w"
  by (cases x) auto

lemma gamma_cases:
  assumes "v \<in> si_gamma x"
  obtains l h s where "x = Some (l, h, s)" "l \<le> v" "v \<le> h" "s dvd (v - l)"
  using assms by (cases x) auto

lemma gcd_nat_dvd:
  assumes "s1 < 2 ^ (unat w - 1)" "s2 < 2 ^ (unat w - 1)" "s1 dvd a" "s2 dvd b"
  shows "gcd_nat w s1 s2 dvd a + b"
  unfolding gcd_nat_eq [OF assms(1,2)] using assms(3,4) by (meson dvd_add dvd_trans gcd_dvd1 gcd_dvd2)

lemma gcd_half: "0 < unat w \<Longrightarrow> s1 < 2 ^ (unat w - 1) \<Longrightarrow> s2 < 2 ^ (unat w - 1) \<Longrightarrow> gcd_nat w s1 s2 < 2 ^ (unat w - 1)"
  by (cases "s1 = 0") (auto simp: gcd_nat_eq intro: le_less_trans [OF gcd_le1_nat])

lemma add_sound:
  assumes "si_inv w x" "si_inv w y" "narrow w x" "narrow w y" "a \<in> si_gamma x" "b \<in> si_gamma y"
  shows "(a + b) mod 2 ^ unat w \<in> si_gamma (add_nat w x y)"
proof -
  obtain l1 h1 s1 where x: "x = Some (l1, h1, s1)" "l1 \<le> a" "a \<le> h1" "s1 dvd (a - l1)" using assms(5) by (rule gamma_cases)
  obtain l2 h2 s2 where y: "y = Some (l2, h2, s2)" "l2 \<le> b" "b \<le> h2" "s2 dvd (b - l2)" using assms(6) by (rule gamma_cases)
  show ?thesis
  proof (cases "2 ^ unat w - 1 - h2 < h1")
    case True
    then show ?thesis by (simp add: x y add_nat_def full_sound)
  next
    case False
    then have "h1 + h2 < 2 ^ unat w" using inv_bounds(2) [OF assms(2) [unfolded y(1)]] by linarith
    then have "(a + b) mod 2 ^ unat w = a + b" using x y by simp
    moreover have "gcd_nat w s1 s2 dvd (a - l1) + (b - l2)"
      using assms(3,4) x y by (intro gcd_nat_dvd) simp_all
    moreover have "(a - l1) + (b - l2) = a + b - (l1 + l2)" using x y by linarith
    ultimately have "(a + b) mod 2 ^ unat w \<in> si_gamma (range_nat (l1 + l2) (h1 + h2) (gcd_nat w s1 s2))"
      using x y by (auto intro!: range_sound)
    then show ?thesis using False by (simp add: x y add_nat_def)
  qed
qed

lemma sub_sound:
  assumes "si_inv w x" "si_inv w y" "narrow w x" "narrow w y" "a \<in> si_gamma x" "b \<in> si_gamma y"
  shows "(a + 2 ^ unat w - b) mod 2 ^ unat w \<in> si_gamma (sub_nat w x y)"
proof -
  obtain l1 h1 s1 where x: "x = Some (l1, h1, s1)" "l1 \<le> a" "a \<le> h1" "s1 dvd (a - l1)" using assms(5) by (rule gamma_cases)
  obtain l2 h2 s2 where y: "y = Some (l2, h2, s2)" "l2 \<le> b" "b \<le> h2" "s2 dvd (b - l2)" using assms(6) by (rule gamma_cases)
  show ?thesis
  proof (cases "l1 < h2")
    case True
    then show ?thesis by (simp add: x y sub_nat_def full_sound)
  next
    case False
    have "a < 2 ^ unat w" by (rule gamma_less [OF assms(1,5)])
    moreover have "a + 2 ^ unat w - b = (a - b) + 2 ^ unat w" using False x y by linarith
    ultimately have v: "(a + 2 ^ unat w - b) mod 2 ^ unat w = a - b"
      by (simp only: mod_add_self2) (simp add: less_imp_diff_less)
    have "s2 dvd (h2 - l2)" using assms(2) y by simp
    then have "s2 dvd (h2 - l2) - (b - l2)" using y(4) by (rule dvd_diff_nat)
    then have "s2 dvd (h2 - b)" using y by simp
    then have "gcd_nat w s1 s2 dvd (a - l1) + (h2 - b)"
      using assms(3,4) x y by (intro gcd_nat_dvd) simp_all
    moreover have "(a - l1) + (h2 - b) = a - b - (l1 - h2)" using x y False by linarith
    ultimately have "a - b \<in> si_gamma (range_nat (l1 - h2) (h1 - l2) (gcd_nat w s1 s2))"
      using x y by (auto intro!: range_sound diff_le_mono)
    then show ?thesis using False v by (simp add: x y sub_nat_def)
  qed
qed

lemma scale_sound:
  assumes x: "si_inv w x" and a: "a \<in> si_gamma x"
  shows "(a * f) mod 2 ^ unat w \<in> si_gamma (scale_nat w x f)"
proof -
  obtain l h s where t: "x = Some (l, h, s)" "l \<le> a" "a \<le> h" "s dvd (a - l)" using a by (rule gamma_cases)
  consider "f = 0" | "f \<noteq> 0" "(2 ^ unat w - 1) div f < h" | "f \<noteq> 0" "h \<le> (2 ^ unat w - 1) div f" by linarith
  then show ?thesis
  proof cases
    case 3
    have "h * f \<le> 2 ^ unat w - 1" using 3 by (simp add: less_eq_div_iff_mult_less_eq)
    moreover have le: "a * f \<le> h * f" "l * f \<le> a * f" using t by (auto intro: mult_le_mono1)
    ultimately have "(a * f) mod 2 ^ unat w = a * f"
      using zero_less_power [of "2 :: nat" "unat w"] by (intro mod_less) linarith
    moreover have "s * f dvd a * f - l * f" using t by (simp add: mult_dvd_mono flip: diff_mult_distrib)
    ultimately have "(a * f) mod 2 ^ unat w \<in> si_gamma (range_nat (l * f) (h * f) (s * f))"
      using le by (simp only: range_sound)
    then show ?thesis using 3 by (simp add: t scale_nat_def)
  qed (simp_all add: t scale_nat_def single_gamma full_sound)
qed

lemma value_gamma: "si_inv w x \<Longrightarrow> value_nat x = Some f \<Longrightarrow> a \<in> si_gamma x \<Longrightarrow> a = f"
  by (cases x) (auto simp: value_nat_def split: if_splits)

lemma mul_sound:
  assumes "si_inv w x" "si_inv w y" "a \<in> si_gamma x" "b \<in> si_gamma y"
  shows "(a * b) mod 2 ^ unat w \<in> si_gamma (mul_nat w x y)"
  using assms scale_sound [OF assms(1,3), of b] scale_sound [OF assms(2,4), of a]
    value_gamma [OF assms(1) _ assms(3)] value_gamma [OF assms(2) _ assms(4)]
  by (auto simp: mul_nat_def full_sound mult.commute split: option.splits)

lemma shl_sound:
  assumes "si_inv w x" "si_inv w' y" "a \<in> si_gamma x" "n \<in> si_gamma y"
  shows "(a * 2 ^ n) mod 2 ^ unat w \<in> si_gamma (shl_nat w x y)"
  using assms scale_sound [OF assms(1,3), of "2 ^ n"] value_gamma [OF assms(2) _ assms(4)]
  by (auto simp: shl_nat_def amount_nat_def full_sound split: option.splits)

lemma shr_sound:
  assumes "si_inv w x" "si_inv w' y" "a \<in> si_gamma x" "n \<in> si_gamma y"
  shows "a div 2 ^ n \<in> si_gamma (shr_nat w x y)"
proof -
  obtain l h s where t: "x = Some (l, h, s)" "l \<le> a" "a \<le> h" "s dvd (a - l)" using assms(3) by (rule gamma_cases)
  have lt: "a < 2 ^ unat w" by (rule gamma_less [OF assms(1,3)])
  then have "a div 2 ^ n < 2 ^ unat w" by (rule le_less_trans [OF div_le_dividend])
  moreover have "a div 2 ^ n = 0" if "unat w \<le> n"
    using that lt power_increasing [of "unat w" n "2 :: nat"] by (intro div_less) linarith
  moreover have "a div 2 ^ n \<in> si_gamma (range_nat (l div 2 ^ n) (h div 2 ^ n) 1)"
    using t by (intro range_sound) (simp_all add: div_le_mono)
  ultimately show ?thesis
    using value_gamma [OF assms(2) _ assms(4)] t(1)
    by (auto simp: shr_nat_def amount_nat_def full_sound single_gamma split: option.splits)
qed

lemma join_sound:
  assumes w: "valid_bits w" and "narrow w x" "narrow w y"
    and off: "\<And>l1 h1 s1 l2 h2 s2. x = Some (l1, h1, s1) \<Longrightarrow> y = Some (l2, h2, s2) \<Longrightarrow>
      max l1 l2 - min l1 l2 < 2 ^ (unat w - 1)"
  shows "si_gamma x \<union> si_gamma y \<subseteq> si_gamma (join_nat w x y)"
proof (cases rule: si_cases2 [where x = x and y = y])
  case (3 l1 h1 s1 l2 h2 s2)
  let ?o = "max l1 l2 - min l1 l2" and ?g = "gcd_nat w s1 s2" and ?l = "min l1 l2"
  have g: "?g = gcd s1 s2" using assms(2,3) 3 by (simp add: gcd_nat_eq)
  have gg: "gcd_nat w ?g ?o = gcd (gcd s1 s2) ?o"
    using gcd_half [of w s1 s2] assms(2,3) 3 off [OF 3] w g by (simp add: gcd_nat_eq valid_bits_iff)
  have d: "gcd (gcd s1 s2) ?o dvd s1" "gcd (gcd s1 s2) ?o dvd s2" "gcd (gcd s1 s2) ?o dvd (l1 - ?l)"
    "gcd (gcd s1 s2) ?o dvd (l2 - ?l)"
    by (auto intro: dvd_trans [OF gcd_dvd1] simp: min_def max_def)
  have "v \<in> si_gamma (join_nat w x y)" if "v \<in> si_gamma x \<or> v \<in> si_gamma y" for v
  proof -
    have "gcd (gcd s1 s2) ?o dvd (v - ?l)"
    proof (cases "v \<in> si_gamma x")
      case True
      then have "s1 dvd (v - l1)" using 3 by simp
      then have "gcd (gcd s1 s2) ?o dvd (v - l1) + (l1 - ?l)" by (intro dvd_add dvd_trans [OF d(1)] d(3))
      moreover have "(v - l1) + (l1 - ?l) = v - ?l" using True 3 by auto
      ultimately show ?thesis by simp
    next
      case False
      then have "v \<in> si_gamma y" using that by simp
      then have "s2 dvd (v - l2)" using 3 by simp
      then have "gcd (gcd s1 s2) ?o dvd (v - l2) + (l2 - ?l)" by (intro dvd_add dvd_trans [OF d(2)] d(4))
      moreover have "(v - l2) + (l2 - ?l) = v - ?l" using \<open>v \<in> si_gamma y\<close> 3 by auto
      ultimately show ?thesis by simp
    qed
    then show ?thesis using that 3 gg by (auto simp: join_nat_def intro!: range_sound)
  qed
  then show ?thesis by blast
qed (auto simp: join_nat_def split: option.splits)

lemma meet_sound:
  assumes "narrow w x" "narrow w y"
  shows "si_gamma x \<inter> si_gamma y \<subseteq> si_gamma (meet_nat w x y)"
proof (cases rule: si_cases2 [where x = x and y = y])
  case (3 l1 h1 s1 l2 h2 s2)
  have "v \<in> si_gamma (meet_nat w x y)" if "v \<in> si_gamma x" "v \<in> si_gamma y" for v
  proof -
    have "gcd s1 s2 dvd (v - max l1 l2)"
      using that 3 by (auto simp: max_def intro: dvd_trans [OF gcd_dvd1] dvd_trans [OF gcd_dvd2])
    then show ?thesis
      using that assms 3 by (auto simp: meet_nat_def gcd_nat_eq intro!: range_sound)
  qed
  then show ?thesis by blast
qed auto

lemma widen_sound:
  assumes w: "valid_bits w" and "narrow w x" "narrow w y"
    and lo: "\<And>l1 h1 s1 l2 h2 s2. x = Some (l1, h1, s1) \<Longrightarrow> y = Some (l2, h2, s2) \<Longrightarrow>
      l1 < 2 ^ (unat w - 1) \<and> l2 < 2 ^ (unat w - 1)"
    and y: "si_inv w y"
  shows "si_gamma x \<union> si_gamma y \<subseteq> si_gamma (widen_nat w x y)"
proof (cases rule: si_cases2 [where x = x and y = y])
  case (3 l1 h1 s1 l2 h2 s2)
  define l h where "l = (if l2 < l1 then 0 else l1)" and "h = (if h1 < h2 then 2 ^ unat w - 1 else h1)"
  have lt: "s1 < 2 ^ (unat w - 1)" "s2 < 2 ^ (unat w - 1)" "l1 - l < 2 ^ (unat w - 1)" "l2 - l < 2 ^ (unat w - 1)"
    using assms(2,3) lo [OF 3] 3 by auto
  have pos: "0 < unat w" using w by (simp add: valid_bits_iff)
  let ?g = "gcd (gcd (gcd s1 s2) (l1 - l)) (l2 - l)"
  note g1 = gcd_half [OF pos lt(1,2), unfolded gcd_nat_eq [OF lt(1,2)]]
  note g2 = gcd_half [OF pos g1 lt(3), unfolded gcd_nat_eq [OF g1 lt(3)]]
  have gg: "gcd_nat w (gcd_nat w (gcd_nat w s1 s2) (l1 - l)) (l2 - l) = ?g"
    by (simp only: gcd_nat_eq [OF lt(1,2)] gcd_nat_eq [OF g1 lt(3)] gcd_nat_eq [OF g2 lt(4)])
  have d: "?g dvd s1" "?g dvd s2" "?g dvd (l1 - l)" "?g dvd (l2 - l)"
    by (meson dvd_trans gcd_dvd1 gcd_dvd2)+
  have h2: "h2 < 2 ^ unat w" using y 3 by simp
  have "v \<in> si_gamma (range_nat l h ?g)" if "v \<in> si_gamma x \<or> v \<in> si_gamma y" for v
  proof (rule range_sound)
    show "l \<le> v" "v \<le> h" using that 3 h2 by (auto simp: l_def h_def)
    from that show "?g dvd (v - l)"
    proof
      assume "v \<in> si_gamma x"
      then have "s1 dvd (v - l1)" "v - l = (v - l1) + (l1 - l)" using 3 by (auto simp: l_def)
      then show ?thesis using d by (metis dvd_add dvd_trans)
    next
      assume "v \<in> si_gamma y"
      then have "s2 dvd (v - l2)" "v - l = (v - l2) + (l2 - l)" using 3 by (auto simp: l_def)
      then show ?thesis using d by (metis dvd_add dvd_trans)
    qed
  qed
  moreover have "widen_nat w x y = range_nat l h ?g" 
    unfolding gg [symmetric] unfolding l_def h_def by (simp add: 3 widen_nat_def Let_def)
  ultimately show ?thesis by auto
qed (auto simp: widen_nat_def split: option.splits)

lemma odd_and_neg:
  assumes "odd q" "q < 2 ^ n" shows "q AND (2 ^ n - q) = (1 :: nat)"
proof -
  let ?c = "q XOR mask n"
  have n: "0 < n" using assms by (cases n) auto
  have "2 ^ n - q = ?c + 1" using assms(2) by (simp add: xor_mask_nat)
  moreover have "even ?c" using assms(1) n by (simp add: even_xor_iff even_mask_iff)
  then have "?c + 1 = ?c OR 1" using or_one_eq [of ?c] by simp
  moreover have "bit (q AND (?c OR 1)) i = bit 1 i" for i
  proof (cases "i = 0")
    case True
    then show ?thesis using assms(1) by (simp add: bit_0 even_and_iff even_or_iff)
  next
    case False
    then have "\<not> bit (1 :: nat) i" by (simp add: bit_Suc_0_iff)
    moreover have "bit q i \<Longrightarrow> i < n"
      using assms(2) by (metis bit_take_bit_iff take_bit_nat_eq_self_iff)
    ultimately show ?thesis by (auto simp: bit_simps)
  qed
  ultimately show ?thesis by (metis bit_eqI)
qed

lemma odd_part:
  assumes "0 < (m :: nat)" obtains k q where "m = 2 ^ k * q" "odd q"
proof -
  have "\<exists>k q. m = 2 ^ k * q \<and> odd q" using assms
  proof (induction m rule: less_induct)
    case (less m)
    show ?case
    proof (cases "odd m")
      case True
      then show ?thesis by (intro exI [of _ 0] exI [of _ m]) simp
    next
      case False
      then obtain j where "m = 2 * j" by (auto elim: evenE)
      with less.IH [of j] less.prems obtain k q where "j = 2 ^ k * q" "odd q" by auto
      with \<open>m = 2 * j\<close> show ?thesis by (intro exI [of _ "Suc k"] exI [of _ q]) simp
    qed
  qed
  then show thesis using that by blast
qed

lemma and_le: "a AND m \<le> (m :: nat)"
proof -
  have "(a AND m) AND (m XOR (a AND m)) = 0" by (rule bit_eqI) (auto simp: bit_simps)
  then have "(a AND m) + (m XOR (a AND m)) = (a AND m) OR (m XOR (a AND m))" by (rule disjunctive_add_eq_or)
  also have "\<dots> = m" by (rule bit_eqI) (auto simp: bit_simps)
  finally show ?thesis by linarith
qed

text \<open>The lowest set bit of a mask divides every masked value.\<close>

lemma low_bit_dvd:
  assumes m: "0 < m" "(m :: nat) < 2 ^ n"
  shows "(m AND (2 ^ n - m)) dvd (a AND m)"
proof -
  obtain k q where q: "m = 2 ^ k * q" "odd q" by (rule odd_part [OF m(1)])
  have k: "k < n"
  proof (rule ccontr)
    assume "\<not> k < n"
    then have "(2 :: nat) ^ n \<le> 2 ^ k" by (intro power_increasing) simp_all
    also have "\<dots> \<le> m" using q by (cases q) simp_all
    finally show False using m by simp
  qed
  have split: "(2 :: nat) ^ n = 2 ^ k * 2 ^ (n - k)" using k by (simp flip: power_add)
  have "q < 2 ^ (n - k)" using m(2) unfolding q split by simp
  then have "q AND (2 ^ (n - k) - q) = 1" by (rule odd_and_neg [OF q(2)])
  moreover have "2 ^ n - m = 2 ^ k * (2 ^ (n - k) - q)" by (simp add: q split diff_mult_distrib2)
  moreover have "(2 ^ k * x) AND (2 ^ k * y) = 2 ^ k * (x AND y)" for x y :: nat
    using push_bit_and [of k x y] by (simp add: push_bit_eq_mult mult.commute)
  ultimately have "m AND (2 ^ n - m) = 2 ^ k" by (simp add: q)
  moreover have "take_bit k m = 0" by (simp add: q take_bit_eq_mod)
  then have "take_bit k (a AND m) = 0" by simp
  then have "2 ^ k dvd (a AND m)" by (simp only: take_bit_eq_mod mod_eq_0_iff_dvd)
  ultimately show ?thesis by simp
qed

lemma masked_sound: "m < 2 ^ unat w \<Longrightarrow> a AND m \<in> si_gamma (masked_nat w m)"
  using range_sound [of 0 "a AND m" m "m AND (2 ^ unat w - m)"] low_bit_dvd [of m "unat w" a]
  by (auto simp: masked_nat_def single_gamma and_le)

lemma and_sound:
  assumes "si_inv w x" "si_inv w y" "a \<in> si_gamma x" "b \<in> si_gamma y"
  shows "a AND b \<in> si_gamma (and_nat w x y)"
proof -
  have "a AND b < 2 ^ unat w"
    using gamma_less [OF assms(2,4)] and_le [of a b] by linarith
  then show ?thesis
    using assms value_gamma [OF assms(1) _ assms(3)] value_gamma [OF assms(2) _ assms(4)]
      masked_sound [OF gamma_less [OF assms(2,4)], of a] masked_sound [OF gamma_less [OF assms(1,3)], of b]
    by (auto simp: and_nat_def full_sound single_gamma and.commute split: option.splits)
qed

lemma or_sound:
  assumes "si_inv w x" "si_inv w y" "a \<in> si_gamma x" "b \<in> si_gamma y"
  shows "a OR b \<in> si_gamma (or_nat w x y)"
  using bitop_less(2) [OF gamma_less [OF assms(1,3)] gamma_less [OF assms(2,4)]]
    value_gamma [OF assms(1) _ assms(3)] value_gamma [OF assms(2) _ assms(4)]
  by (auto simp: or_nat_def full_sound single_gamma split: option.splits)

lemma zext_sound: "v \<in> si_gamma x \<Longrightarrow> v \<in> si_gamma (zext_nat x)"
  by (cases x) (auto simp: zext_nat_def intro!: range_sound)

lemma trunc_sound:
  assumes "v \<in> si_gamma x" shows "v mod 2 ^ unat w' \<in> si_gamma (trunc_nat w' x)"
proof -
  obtain l h s where t: "x = Some (l, h, s)" "l \<le> v" "v \<le> h" "s dvd (v - l)" using assms by (rule gamma_cases)
  have "v mod 2 ^ unat w' = v" if "\<not> 2 ^ unat w' - 1 < h"
    using that t zero_less_power [of "2 :: nat" "unat w'"] by (intro mod_less) linarith
  with t show ?thesis by (auto simp: trunc_nat_def full_sound intro!: range_sound)
qed

lemma sext_sound:
  assumes x: "si_inv w x" and v: "v \<in> si_gamma x" and le: "w \<le> w'"
  shows "sext_value w w' v \<in> si_gamma (sext_nat w w' x)"
proof -
  obtain l h s where t: "x = Some (l, h, s)" "l \<le> v" "v \<le> h" "s dvd (v - l)" using v by (rule gamma_cases)
  have lt: "sext_value w w' v < 2 ^ unat w'"
    unfolding sext_value_def using gamma_less [OF x v] pow_mono [OF le] by (simp only: split: if_split) linarith
  show ?thesis
  proof (cases "(l < 2 ^ (unat w - 1)) = (h < 2 ^ (unat w - 1))")
    case True
    then have "sext_value w w' v \<in> si_gamma (range_nat (sext_value w w' l) (sext_value w w' h) s)"
      using t by (intro range_sound) (auto simp: sext_value_def)
    with True t show ?thesis by (simp add: sext_nat_def)
  qed (use t lt in \<open>auto simp: sext_nat_def full_sound\<close>)
qed

section \<open>The invariant is kept\<close>

lemma range_inv_le: "h < 2 ^ unat w \<Longrightarrow> h' \<le> h \<Longrightarrow> si_inv w (range_nat l h' s)"
  by (rule range_inv) simp

lemma binary_inv:
  assumes w: "valid_bits w" and x: "si_inv w x" and y: "si_inv w y"
  shows "si_inv w (add_nat w x y)" "si_inv w (sub_nat w x y)" "si_inv w (meet_nat w x y)"
    "si_inv w (join_nat w x y)" "si_inv w (widen_nat w x y)"
proof -
  note full = full_inv [OF w]
  show "si_inv w (add_nat w x y)" "si_inv w (sub_nat w x y)" "si_inv w (meet_nat w x y)"
    "si_inv w (join_nat w x y)" "si_inv w (widen_nat w x y)"
    using x y full one_less_pow_width [OF w]
    by (cases rule: si_cases2 [where x = x and y = y];
        auto simp: add_nat_def sub_nat_def meet_nat_def join_nat_def widen_nat_def Let_def
          intro!: range_inv split: option.splits)+
qed

lemma scale_inv:
  assumes w: "valid_bits w" and x: "si_inv w x" shows "si_inv w (scale_nat w x f)"
proof (cases x)
  case (Some t)
  obtain l h s where t: "x = Some (l, h, s)" using Some by (cases t) auto
  have "h * f < 2 ^ unat w" if "f \<noteq> 0" "\<not> (2 ^ unat w - 1) div f < h"
  proof -
    have "h * f \<le> 2 ^ unat w - 1" using that by (simp add: less_eq_div_iff_mult_less_eq not_less)
    then show ?thesis using one_less_pow_width [OF w] by linarith
  qed
  then show ?thesis by (auto simp: t scale_nat_def full_inv [OF w] single_inv intro!: range_inv)
qed (simp add: scale_nat_def)

lemma other_inv:
  assumes w: "valid_bits w" and x: "si_inv w x" and y: "si_inv w y"
  shows "si_inv w (mul_nat w x y)" "si_inv w (and_nat w x y)" "si_inv w (or_nat w x y)"
proof -
  note full = full_inv [OF w] and v = value_less [OF x] value_less [OF y]
  have "si_inv w (masked_nat w m)" if "m < 2 ^ unat w" for m
    using that by (auto simp: masked_nat_def single_inv intro!: range_inv)
  then show "si_inv w (mul_nat w x y)" "si_inv w (and_nat w x y)" "si_inv w (or_nat w x y)"
    using full v scale_inv [OF w x] scale_inv [OF w y]
    by (auto simp: mul_nat_def and_nat_def or_nat_def single_inv bitop_less split: option.splits)
qed

lemma shift_inv:
  assumes w: "valid_bits w" and x: "si_inv w x"
  shows "si_inv w (shl_nat w x y)" "si_inv w (shr_nat w x y)"
  using full_inv [OF w] scale_inv [OF w x] x
  by (auto simp: shl_nat_def shr_nat_def single_inv intro!: range_inv le_less_trans [OF div_le_dividend]
      split: option.splits)

lemma resize_inv:
  assumes v: "valid_bits w'" and x: "si_inv w x"
  shows "w \<le> w' \<Longrightarrow> si_inv w' (zext_nat x)" "w \<le> w' \<Longrightarrow> si_inv w' (sext_nat w w' x)" "si_inv w' (trunc_nat w' x)"
proof -
  show "si_inv w' (zext_nat x)" if "w \<le> w'"
    using x by (auto simp: zext_nat_def intro!: range_inv less_le_trans [OF _ pow_mono [OF that]] split: option.splits)
  show "si_inv w' (sext_nat w w' x)" if le: "w \<le> w'"
  proof -
    have "sext_value w w' u < 2 ^ unat w'" if "u < 2 ^ unat w" for u
      unfolding sext_value_def using that pow_mono [OF le] by (simp only: split: if_split) linarith
    then show ?thesis using x full_inv [OF v] by (auto simp: sext_nat_def intro!: range_inv split: option.splits)
  qed
  show "si_inv w' (trunc_nat w' x)"
    using full_inv [OF v] one_less_pow_width [OF v] by (auto simp: trunc_nat_def intro!: range_inv split: option.splits)
qed

section \<open>Joins of many intervals\<close>

text \<open>
  What the fixpoint over block arguments needs of the domain: a join that stays inside a set of
  acceptable elements and contains both operands. The intervals whose start and stride have a clear
  top bit are such a set; they are closed under join, meet and widening.
\<close>

locale join_domain =
  fixes ok :: "'a \<Rightarrow> bool" and gamma :: "'a \<Rightarrow> 'b set" and join :: "'a \<Rightarrow> 'a \<Rightarrow> 'a"
  assumes ok_join: "ok x \<Longrightarrow> ok y \<Longrightarrow> ok (join x y)"
    and join_upper: "ok x \<Longrightarrow> ok y \<Longrightarrow> gamma x \<union> gamma y \<subseteq> gamma (join x y)"
begin

lemma fold_join_ok: "ok acc \<Longrightarrow> list_all ok xs \<Longrightarrow> ok (fold (\<lambda>x acc. join acc x) xs acc)"
  by (induction xs arbitrary: acc) (simp_all add: ok_join)

lemma fold_join_upper:
  "ok acc \<Longrightarrow> list_all ok xs \<Longrightarrow>
    gamma acc \<union> (\<Union>x \<in> set xs. gamma x) \<subseteq> gamma (fold (\<lambda>x acc. join acc x) xs acc)"
proof (induction xs arbitrary: acc)
  case (Cons x xs)
  from Cons.IH [of "join acc x"] Cons.prems join_upper [of acc x] ok_join [of acc x]
  show ?case by auto
qed simp

end

definition low :: "u32 \<Rightarrow> si_nat \<Rightarrow> bool" where
  "low w x = (case x of None \<Rightarrow> True | Some (l, h, s) \<Rightarrow> l < 2 ^ (unat w - 1) \<and> s < 2 ^ (unat w - 1))"

definition ok_low :: "u32 \<Rightarrow> si_nat \<Rightarrow> bool" where
  "ok_low w x \<longleftrightarrow> valid_bits w \<and> si_inv w x \<and> low w x"

lemma low_narrow: "low w x \<Longrightarrow> narrow w x"
  by (cases x) (auto simp: low_def)

lemma range_low:
  assumes "l < 2 ^ (unat w - 1)" "s < 2 ^ (unat w - 1)" "s = 0 \<Longrightarrow> h \<le> l"
  shows "low w (range_nat l h s)"
  using assms by (auto simp: low_def range_nat_def Let_def)

lemma gcd_zero: "gcd_nat w a b = 0 \<Longrightarrow> a < 2 ^ (unat w - 1) \<Longrightarrow> b < 2 ^ (unat w - 1) \<Longrightarrow> a = 0 \<and> b = 0"
  by (simp add: gcd_nat_eq)

lemma join_low:
  assumes x: "ok_low w x" and y: "ok_low w y"
  shows "low w (join_nat w x y)"
proof (cases rule: si_cases2 [where x = x and y = y])
  case (3 l1 h1 s1 l2 h2 s2)
  let ?o = "max l1 l2 - min l1 l2"
  have b: "l1 < 2 ^ (unat w - 1)" "l2 < 2 ^ (unat w - 1)" "s1 < 2 ^ (unat w - 1)" "s2 < 2 ^ (unat w - 1)" "0 < unat w"
    using x y 3 by (auto simp: ok_low_def low_def valid_bits_iff)
  note g = gcd_half [OF b(5,3,4)]
  have o: "?o < 2 ^ (unat w - 1)" using b by auto
  have inv: "s1 = 0 \<longleftrightarrow> l1 = h1" "s2 = 0 \<longleftrightarrow> l2 = h2" using x y 3 by (simp_all add: ok_low_def)
  have "low w (range_nat (min l1 l2) (max h1 h2) (gcd_nat w (gcd_nat w s1 s2) ?o))"
  proof (rule range_low [OF _ gcd_half [OF b(5) g o]])
    show "min l1 l2 < 2 ^ (unat w - 1)" using b(1) by (simp add: min_less_iff_disj)
    show "max h1 h2 \<le> min l1 l2" if "gcd_nat w (gcd_nat w s1 s2) ?o = 0"
      using gcd_zero [OF that g o] gcd_zero [OF _ b(3,4)] inv by (auto simp: max_def min_def split: if_splits)
  qed
  then show ?thesis by (simp add: join_nat_def 3)
qed (use x y in \<open>auto simp: join_nat_def ok_low_def low_def split: option.splits\<close>)

lemma join_upper_low:
  assumes x: "ok_low w x" and y: "ok_low w y"
  shows "si_gamma x \<union> si_gamma y \<subseteq> si_gamma (join_nat w x y)"
  using x y by (intro join_sound) (auto simp: ok_low_def low_narrow low_def)

interpretation low_join: join_domain "ok_low w" si_gamma "join_nat w" for w
proof
  show "ok_low w (join_nat w x y)" if "ok_low w x" "ok_low w y" for x y
    using that join_low [OF that] binary_inv(4) [of w x y] by (simp add: ok_low_def)
  show "si_gamma x \<union> si_gamma y \<subseteq> si_gamma (join_nat w x y)" if "ok_low w x" "ok_low w y" for x y
    by (rule join_upper_low [OF that])
qed

section \<open>Membership, enumeration and counting\<close>

lemma si_contains_of:
  assumes M: "malachite_ok M" and w: "valid_bits w" and x: "si_inv w x" and v: "v < 2 ^ unat w"
  shows "si_contains M (si_of w x) (ubv w v) = Inr (v \<in> si_gamma x)"
proof (cases x)
  case (Some t)
  obtain l h s where t: "x = Some (l, h, s)" using Some by (cases t) auto
  note b = inv_bounds [OF x [unfolded t]]
  have "s = 0 \<Longrightarrow> l = h" using x t by simp
  moreover have "(v - l) mod s < 2 ^ unat w" using v by (intro le_less_trans [OF mod_less_eq_dividend]) simp
  ultimately show ?thesis using b v w
    by (auto simp: t si_contains_def ubv_cmp ubv_is_zero ubv_sub [OF M] ubv_rem [OF M] mod_eq_0_iff_dvd)
qed (simp add: si_contains_def)

definition elements :: "nat \<Rightarrow> nat \<Rightarrow> nat \<Rightarrow> nat list" where
  "elements l h s = map (\<lambda>i. l + i * s) [0..<Suc ((h - l) div s)]"

lemma set_elements:
  assumes "si_inv w (Some (l, h, s))" shows "set (elements l h s) = si_gamma (Some (l, h, s))"
proof -
  have le: "l \<le> h" and s: "s = 0 \<longleftrightarrow> l = h" using assms by auto
  show ?thesis
  proof (cases "s = 0")
    case True
    then show ?thesis using s by (auto simp: elements_def)
  next
    case False
    have "l + i * s \<le> h \<longleftrightarrow> i < Suc ((h - l) div s)" for i
      using False le less_eq_div_iff_mult_less_eq [of s i "h - l"] by (simp add: less_Suc_eq_le) linarith
    then have "(\<exists>i < Suc ((h - l) div s). v = l + i * s) \<longleftrightarrow> l \<le> v \<and> v \<le> h \<and> s dvd (v - l)" for v
      by (metis add_diff_cancel_left' dvd_triv_right dvdE le_add1 le_add_diff_inverse mult.commute)
    moreover have "set (elements l h s) = {v. \<exists>i < Suc ((h - l) div s). v = l + i * s}"
      by (auto simp: elements_def simp del: upt_Suc)
    ultimately show ?thesis by simp
  qed
qed

lemma distinct_elements: "s \<noteq> 0 \<Longrightarrow> distinct (elements l h s)"
  by (auto simp: elements_def distinct_map inj_on_def simp del: upt_Suc)

lemma card_gamma:
  assumes "si_inv w (Some (l, h, s))" shows "card (si_gamma (Some (l, h, s))) = Suc ((h - l) div s)"
proof (cases "s = 0")
  case True
  then have "si_gamma (Some (l, h, s)) = {l}" using assms by auto
  then show ?thesis using True by simp
next
  case False
  then show ?thesis
    using distinct_card [OF distinct_elements [OF False, of l h]] set_elements [OF assms]
    by (simp add: elements_def del: upt_Suc)
qed

lemma si_count_of:
  assumes M: "malachite_ok M" and w: "valid_bits w" and x: "si_inv w x"
  shows "si_count M (si_of w x) =
    Inr (if card (si_gamma x) < 2 ^ 64 then Some (word_of_nat (card (si_gamma x))) else None)"
proof (cases x)
  case (Some t)
  obtain l h s where t: "x = Some (l, h, s)" using Some by (cases t) auto
  note b = inv_bounds [OF x [unfolded t]] and c = card_gamma [OF x [unfolded t]]
  show ?thesis
  proof (cases "s = 0")
    case True
    then show ?thesis using w c by (simp add: t si_count_def ubv_is_zero del: gamma_simps)
  next
    case False
    let ?q = "(h - l) div s"
    have q: "?q < 2 ^ unat w" using b by (intro le_less_trans [OF div_le_dividend]) linarith
    have d: "h - l < 2 ^ unat w" using b by linarith
    have "si_count M (si_of w x) = Inr (case to_uint 64 (ubv w ?q) of None \<Rightarrow> None
        | Some steps \<Rightarrow> checked_add (word_of_nat steps) 1)"
      using b False w by (simp add: t si_count_def ubv_is_zero ubv_sub [OF M] ubv_div [OF M w d])
    moreover have "to_uint 64 (ubv w ?q) = (if ?q < 2 ^ 64 then Some ?q else None)"
      using q w by (simp add: to_uint_eq)
    moreover have "unat (word_of_nat ?q :: u64) = ?q" if "?q < 2 ^ 64"
      using that by (simp add: unat_word_of_nat_small)
    ultimately show ?thesis using c unfolding t by (auto simp: checked_add_def simp del: gamma_simps)
  qed
qed (simp add: si_count_def)

lemma si_collect_of:
  assumes M: "malachite_ok M" and w: "valid_bits w" and h: "h < 2 ^ unat w" and s: "s < 2 ^ unat w"
    and n: "v + n * s = h" and pos: "n \<noteq> 0 \<Longrightarrow> s \<noteq> 0"
  shows "si_collect M (si_of w (Some (l, h, s))) (Suc (Suc (n + k))) (Some (ubv w v)) =
    Inr (Some (map (\<lambda>i. ubv w (v + i * s)) [0..<Suc n]))"
  using n pos
proof (induction n arbitrary: v)
  case 0
  then show ?case using w h by (simp add: si_iter_next_def ubv_cmp)
next
  case (Suc n)
  have b: "v < 2 ^ unat w" "v < h" "v + s < 2 ^ unat w" "s \<noteq> 0" "v + s + n * s = h" using Suc.prems h by auto
  have nxt: "si_iter_next M (si_of w (Some (l, h, s))) (Some (ubv w v)) = Inr (Some (ubv w v), Some (ubv w (v + s)))"
    using b s h w by (simp add: si_iter_next_def ubv_cmp ubv_is_zero ubv_add [OF M])
  have "map (\<lambda>i. ubv w (v + i * s)) [0..<Suc (Suc n)] = ubv w v # map (\<lambda>i. ubv w (v + s + i * s)) [0..<Suc n]"
    by (subst upt_conv_Cons) (simp_all add: map_Suc_upt [symmetric] comp_def algebra_simps del: upt_Suc)
  then show ?case using Suc.IH [OF b(5)] b(4) nxt by (simp del: upt_Suc of_simps)
qed

section \<open>Properties\<close>

text \<open>
  C27 Addition and subtraction of strided intervals are sound: for intervals with narrow strides they
  return an interval of the same width that satisfies the domain's invariant and contains the
  wrapped sum (difference) of any two members, also when the bounds overflow.
\<close>

theorem si_add_sub_sound:
  assumes "malachite_ok M" and "valid_bits w" and "si_inv w x" and "si_inv w y"
    and "narrow w x" and "narrow w y" and "a \<in> si_gamma x" and "b \<in> si_gamma y"
  shows "(\<exists>z. si_add M (si_of w x) (si_of w y) = Inr (si_of w z) \<and> si_inv w z \<and>
      (a + b) mod 2 ^ unat w \<in> si_gamma z) \<and>
    (\<exists>z. si_sub M (si_of w x) (si_of w y) = Inr (si_of w z) \<and> si_inv w z \<and>
      (a + 2 ^ unat w - b) mod 2 ^ unat w \<in> si_gamma z)"
  using si_add_of [OF assms(1-4)] si_sub_of [OF assms(1-4)] binary_inv(1,2) [OF assms(2-4)]
    add_sound [OF assms(3-8)] sub_sound [OF assms(3-8)] by blast

lemma si_add_sub_sound_witness:
  "\<exists>z. si_add malachite_ref (si_of 8 (Some (0, 250, 2))) (si_of 8 (Some (8, 12, 4))) = Inr (si_of 8 z) \<and> 6 \<in> si_gamma z"
  using si_add_sub_sound [of malachite_ref 8 "Some (0, 250, 2)" "Some (8, 12, 4)" 250 12]
  by (auto simp: valid_bits_iff)

text \<open>
  C28 Multiplication, shifts and the bitwise operations of strided intervals are sound without any
  condition on strides: the result contains the wrapped result of the operation on any two members.
  The right operand of a shift may have another width.
\<close>

theorem si_mul_shift_bits_sound:
  assumes "malachite_ok M" and "valid_bits w" and "valid_bits w'" and "si_inv w x" and "si_inv w y"
    and "si_inv w' n" and "a \<in> si_gamma x" and "b \<in> si_gamma y" and "k \<in> si_gamma n"
  shows "(\<exists>z. si_mul M (si_of w x) (si_of w y) = Inr (si_of w z) \<and> si_inv w z \<and> (a * b) mod 2 ^ unat w \<in> si_gamma z) \<and>
    (\<exists>z. si_shl M (si_of w x) (si_of w' n) = Inr (si_of w z) \<and> si_inv w z \<and> (a * 2 ^ k) mod 2 ^ unat w \<in> si_gamma z) \<and>
    (\<exists>z. si_shr M (si_of w x) (si_of w' n) = Inr (si_of w z) \<and> si_inv w z \<and> a div 2 ^ k \<in> si_gamma z) \<and>
    (\<exists>z. si_bitand M (si_of w x) (si_of w y) = Inr (si_of w z) \<and> si_inv w z \<and> and a b \<in> si_gamma z) \<and>
    (\<exists>z. si_bitor M (si_of w x) (si_of w y) = Inr (si_of w z) \<and> si_inv w z \<and> or a b \<in> si_gamma z)"
  using si_mul_of [OF assms(1,2,4,5)] si_bitand_of [OF assms(1,2,4,5)] si_bitor_of [OF assms(1,2,4,5)]
    si_shl_of [OF assms(1-4,6)] si_shr_of [OF assms(1-4,6)] other_inv [OF assms(2,4,5)] shift_inv [OF assms(2,4)]
    mul_sound [OF assms(4,5,7,8)] and_sound [OF assms(4,5,7,8)] or_sound [OF assms(4,5,7,8)]
    shl_sound [OF assms(4,6,7,9)] shr_sound [OF assms(4,6,7,9)] by blast

lemma si_mul_shift_bits_sound_witness:
  "\<exists>z. si_shl malachite_ref (si_of 8 (Some (1, 7, 3))) (si_of 16 (Some (5, 5, 0))) = Inr (si_of 8 z) \<and> 128 \<in> si_gamma z"
  using si_mul_shift_bits_sound [of malachite_ref 8 16 "Some (1, 7, 3)" "Some (1, 7, 3)" "Some (5, 5, 0)" 4 4 5]
  by (auto simp: valid_bits_iff)

text \<open>
  C29 Changing the width of a strided interval is sound: zero extension contains the members, sign
  extension their sign-extended values and truncation their residues; \<open>cast_to\<close> picks zero extension
  or truncation.
\<close>

theorem si_resize_sound:
  assumes "malachite_ok M" and "valid_bits w" and "valid_bits w'" and "si_inv w x" and "v \<in> si_gamma x"
  shows "(w \<le> w' \<longrightarrow> (\<exists>z. si_zero_extend M (si_of w x) w' = Inr (si_of w' z) \<and> si_inv w' z \<and> v \<in> si_gamma z)) \<and>
    (w \<le> w' \<longrightarrow> (\<exists>z. si_sign_extend M (si_of w x) w' = Inr (si_of w' z) \<and> si_inv w' z \<and> sext_value w w' v \<in> si_gamma z)) \<and>
    (\<exists>z. si_truncate M (si_of w x) w' = Inr (si_of w' z) \<and> si_inv w' z \<and> v mod 2 ^ unat w' \<in> si_gamma z) \<and>
    (\<exists>z. si_cast_to M (si_of w x) w' = Inr (si_of w' z) \<and> si_inv w' z \<and> v mod 2 ^ unat w' \<in> si_gamma z)"
proof -
  note M = assms(1) and w = assms(2) and w' = assms(3) and x = assms(4) and v = assms(5)
  have small: "v mod 2 ^ unat w' = v" if "w \<le> w'"
    using gamma_less [OF x v] pow_mono [OF that] by (intro mod_less) linarith
  note inv = resize_inv [OF w' x] and sound = zext_sound [OF v] sext_sound [OF x v] trunc_sound [OF v]
  show ?thesis
    using si_zero_extend_of [OF M w w' x] si_sign_extend_of [OF M w w' x] inv sound small x v
    by (auto simp: si_truncate_of [OF M w w' x] si_cast_to_of [OF M w w' x])
qed

lemma si_resize_sound_witness:
  "\<exists>z. si_sign_extend malachite_ref (si_of 8 (Some (200, 220, 10))) 16 = Inr (si_of 16 z) \<and> 65490 \<in> si_gamma z"
  using si_resize_sound [of malachite_ref 8 16 "Some (200, 220, 10)" 210]
  by (auto simp: valid_bits_iff sext_value_def)

text \<open>
  C18 Join, widening and meet: for intervals whose starts and strides have a clear top bit, join and
  widening contain both operands and the meet contains what the operands have in common, all within
  the invariant and again with clear top bits for the join; join and meet of arbitrary intervals
  still return and keep the invariant.
\<close>

theorem si_join_widen_meet_sound:
  assumes "malachite_ok M" and "ok_low w x" and "ok_low w y"
  shows "(\<exists>z. si_join M (si_of w x) (si_of w y) = Inr (si_of w z) \<and> ok_low w z \<and> si_gamma x \<union> si_gamma y \<subseteq> si_gamma z) \<and>
    (\<exists>z. si_widen M (si_of w x) (si_of w y) = Inr (si_of w z) \<and> si_inv w z \<and> si_gamma x \<union> si_gamma y \<subseteq> si_gamma z) \<and>
    (\<exists>z. si_meet M (si_of w x) (si_of w y) = Inr (si_of w z) \<and> si_inv w z \<and> si_gamma x \<inter> si_gamma y \<subseteq> si_gamma z)"
proof -
  have w: "valid_bits w" and x: "si_inv w x" "low w x" and y: "si_inv w y" "low w y"
    using assms by (auto simp: ok_low_def)
  note n = low_narrow [OF x(2)] low_narrow [OF y(2)]
  have "si_gamma x \<union> si_gamma y \<subseteq> si_gamma (widen_nat w x y)"
    using x y by (intro widen_sound [OF w n]) (auto simp: low_def)
  then show ?thesis
    using low_join.ok_join [OF assms(2,3)] low_join.join_upper [OF assms(2,3)] meet_sound [OF n]
      binary_inv [OF w x(1) y(1)]
    by (auto simp: si_join_of [OF assms(1) w x(1) y(1)] si_widen_of [OF assms(1) w x(1) y(1)]
        si_meet_of [OF assms(1) w x(1) y(1)])
qed

lemma si_join_widen_meet_sound_witness:
  "\<exists>z. si_join malachite_ref (si_of 8 (Some (10, 10, 0))) (si_of 8 (Some (31, 73, 21))) = Inr (si_of 8 z) \<and>
     {10, 31, 52, 73} \<subseteq> si_gamma z"
proof -
  have "ok_low 8 (Some (10, 10, 0))" "ok_low 8 (Some (31, 73, 21))"
    by (simp_all add: ok_low_def low_def valid_bits_iff)
  from si_join_widen_meet_sound [OF malachite_ref_ok this]
  obtain z where "si_join malachite_ref (si_of 8 (Some (10, 10, 0))) (si_of 8 (Some (31, 73, 21))) = Inr (si_of 8 z)"
    and "si_gamma (Some (10, 10, 0)) \<union> si_gamma (Some (31, 73, 21)) \<subseteq> si_gamma z" by blast
  moreover have "{10, 31, 52, 73} \<subseteq> si_gamma (Some (10, 10, 0)) \<union> si_gamma (Some (31, 73, 21))" by simp
  ultimately show ?thesis by blast
qed

text \<open>
  Joining the intervals of all inputs of a block argument, as the interval analysis does, gives an
  interval that contains every member of every input.
\<close>

theorem si_join_all:
  assumes "ok_low w acc" and "list_all (ok_low w) xs" and "x \<in> set xs" and "v \<in> si_gamma x"
  shows "v \<in> si_gamma (fold (\<lambda>x acc. join_nat w acc x) xs acc)"
  using low_join.fold_join_upper [OF assms(1,2)] assms(3,4) by auto

lemma si_join_all_witness:
  "31 \<in> si_gamma (fold (\<lambda>x acc. join_nat 8 acc x) [Some (10, 10, 0), Some (31, 73, 21)] None)"
  by (rule si_join_all [where x = "Some (31, 73, 21)"])
    (auto simp: ok_low_def low_def valid_bits_iff)

text \<open>
  C30 \<open>contains\<close> decides membership, \<open>count\<close> is the number of members whenever that fits a machine
  word and \<open>None\<close> otherwise, and the iterator terminates: driven for two calls more than there are
  steps it yields every member exactly once, in ascending order, and then stops.
\<close>

theorem si_contains_count_iter:
  assumes "malachite_ok M" and "valid_bits w" and "si_inv w (Some (l, h, s))" and "v < 2 ^ unat w"
  shows "si_contains M (si_of w (Some (l, h, s))) (ubv w v) = Inr (v \<in> si_gamma (Some (l, h, s))) \<and>
    si_count M (si_of w (Some (l, h, s))) =
      Inr (if card (si_gamma (Some (l, h, s))) < 2 ^ 64
           then Some (word_of_nat (card (si_gamma (Some (l, h, s))))) else None) \<and>
    si_collect M (si_of w (Some (l, h, s))) (Suc (Suc ((h - l) div s + k)))
        (si_lower (si_of w (Some (l, h, s)))) = Inr (Some (map (ubv w) (elements l h s))) \<and>
    set (elements l h s) = si_gamma (Some (l, h, s)) \<and> sorted (elements l h s) \<and> distinct (elements l h s)"
proof -
  note x = assms(3) and b = inv_bounds [OF assms(3)]
  have n: "l + (h - l) div s * s = h" using x by (auto simp: dvd_div_mult_self)
  have "(h - l) div s \<noteq> 0 \<Longrightarrow> s \<noteq> 0" by (cases "s = 0") simp_all
  note c = si_collect_of [OF assms(1,2) b(2,3) n this, of l k]
  have "sorted (elements l h s)" by (auto simp: elements_def sorted_iff_nth_mono nth_append simp del: upt_Suc)
  moreover have "distinct (elements l h s)"
    using distinct_elements [of s l h] by (cases "s = 0") (simp_all add: elements_def)
  ultimately show ?thesis
    using c si_contains_of [OF assms(1,2) x assms(4)] si_count_of [OF assms(1,2) x] set_elements [OF x]
    by (simp add: elements_def comp_def del: upt_Suc gamma_simps)
qed

lemma si_contains_count_iter_witness:
  "si_contains malachite_ref (si_of 8 (Some (10, 31, 7))) (ubv 8 24) = Inr True \<and>
   si_collect malachite_ref (si_of 8 (Some (10, 31, 7))) 5 (Some (ubv 8 10)) = Inr (Some (map (ubv 8) [10, 17, 24, 31]))"
proof -
  have e: "elements 10 31 7 = [10, 17, 24, 31]" by code_simp
  have f: "Suc (Suc ((31 - 10) div 7 + 0)) = 5" by simp
  from si_contains_count_iter [of malachite_ref 8 10 31 7 24 0] show ?thesis
    unfolding e f by (simp add: valid_bits_iff)
qed

lemma join_nat_loses:
  "join_nat 8 (single_nat 0) (single_nat 193) = Some (0, 193, 193)"
  "join_nat 8 (Some (0, 193, 193)) (single_nat 21) = Some (0, 189, 21)"
  by code_simp+

text \<open>
  C39 Without the condition on strides the join is not sound. The join of the constants 0 and 193 is the
  interval from 0 to 193 with stride 193; joining the constant 21 to it computes the stride as
  \<open>193.gcd(21)\<close>, which \<open>BitVec::gcd\<close> evaluates as the greatest common divisor of 63 and 21 because
  it reads 193 as -63, and the result ends at 189: it has lost 193.
\<close>

theorem si_join_unsound:
  "si_join malachite_ref (si_of 8 (single_nat 0)) (si_of 8 (single_nat 193)) = Inr (si_of 8 (Some (0, 193, 193))) \<and>
   si_join malachite_ref (si_of 8 (Some (0, 193, 193))) (si_of 8 (single_nat 21)) = Inr (si_of 8 (Some (0, 189, 21))) \<and>
   193 \<in> si_gamma (Some (0, 193, 193)) \<and> 193 \<notin> si_gamma (Some (0, 189, 21))"
  using si_join_of [OF malachite_ref_ok, of 8 "single_nat 0" "single_nat 193"]
    si_join_of [OF malachite_ref_ok, of 8 "Some (0, 193, 193)" "single_nat 21"]
  by (simp add: valid_bits_iff join_nat_loses single_inv)

end
