(* ===== verification/IlPool.thy ===== *)
theory IlPool
  imports Prelude "HOL-Library.Multiset"
begin

text \<open>
  The index structures the intermediate languages are stored in, from
  \<open>fugue-core/src/il/common/id.rs\<close>, \<open>pool.rs\<close> and \<open>span.rs\<close>: one-based identifiers, index ranges
  into pools, the mapper that renumbers indices when operations are dropped, the pool itself and
  compressed rows (\<open>IlCsr\<close>), and the spans that say which source a stored node comes from.

  Vectors are lists and \<open>usize\<close> values are naturals below two to the 64; the stored 32-bit fields
  are words. The address of a span is only compared, so its type is a parameter. \<open>il_error\<close> has the
  variants of \<open>IlError\<close> that this code raises; code that can also panic has the error type
  \<open>il_fail\<close>. \<open>sort_unstable_by_key\<close> is the library's \<open>sort_key\<close>, one of the orders it may produce.
\<close>

section \<open>Errors\<close>

datatype il_error =
    ReversedRange nat nat | RangeOutOfBounds nat nat | IntegerOverflow | MissingIndexBoundary
  | OverlappingRanges nat nat | IdExhausted | GraphBlockCountMismatch nat nat
  | InconsistentBlockSources | InvalidArtefact | MissingComponent string | WidthMismatch

datatype 'e failure = Error 'e | Panic panic

type_synonym il_fail = "il_error failure"

type_synonym 'a il_result = "il_error + 'a"

definition lift_error :: "'e + 'a \<Rightarrow> 'e failure + 'a" where
  "lift_error m = (case m of Inl e \<Rightarrow> Inl (Error e) | Inr x \<Rightarrow> Inr x)"

definition lift_panic :: "'a outcome \<Rightarrow> 'e failure + 'a" where
  "lift_panic m = (case m of Inl e \<Rightarrow> Inl (Panic e) | Inr x \<Rightarrow> Inr x)"

definition or_panic :: "'e + 'a \<Rightarrow> 'a outcome" where
  "or_panic m = (case m of Inl _ \<Rightarrow> Inl ExpectFailed | Inr x \<Rightarrow> Inr x)"

definition usize_checked_add :: "nat \<Rightarrow> nat \<Rightarrow> nat option" where
  "usize_checked_add a b = (if a + b < 2 ^ 64 then Some (a + b) else None)"

definition ok_or :: "'e \<Rightarrow> 'a option \<Rightarrow> 'e + 'a" where
  "ok_or e m = (case m of None \<Rightarrow> Inl e | Some x \<Rightarrow> Inr x)"

section \<open>Identifiers\<close>

text \<open>The macro \<open>il_id!\<close> generates the identifier types; an identifier is its nonzero value.\<close>

type_synonym il_id = u32

definition try_from_index :: "nat \<Rightarrow> il_id il_result" where
  "try_from_index i =
     ok_or IdExhausted
       (case usize_checked_add i 1 of
          None \<Rightarrow> None
        | Some v \<Rightarrow> (case u32_try_from v of None \<Rightarrow> None | Some w \<Rightarrow> if w = 0 then None else Some w))"

definition id_index :: "il_id \<Rightarrow> nat" where
  "id_index x = unat x - 1"

section \<open>Index ranges\<close>

record il_index_range =
  r_start :: u32
  r_end :: u32

definition range_new :: "nat \<Rightarrow> nat \<Rightarrow> il_index_range il_result" where
  "range_new s e =
     (if e < s then Inl (ReversedRange s e)
      else
        and_then (ok_or IntegerOverflow (u32_try_from s)) (\<lambda>s'.
        and_then (ok_or IntegerOverflow (u32_try_from e)) (\<lambda>e'.
          Inr \<lparr>r_start = s', r_end = e'\<rparr>)))"

definition range_empty :: il_index_range where
  "range_empty = \<lparr>r_start = 0, r_end = 0\<rparr>"

definition start_of :: "il_index_range \<Rightarrow> nat" where
  "start_of r = unat (r_start r)"

definition end_of :: "il_index_range \<Rightarrow> nat" where
  "end_of r = unat (r_end r)"

definition range_len :: "il_index_range \<Rightarrow> nat" where
  "range_len r = unat (r_end r - r_start r)"

definition range_is_empty :: "il_index_range \<Rightarrow> bool" where
  "range_is_empty r \<longleftrightarrow> r_start r = r_end r"

definition contains_index :: "il_index_range \<Rightarrow> nat \<Rightarrow> bool" where
  "contains_index r i \<longleftrightarrow> start_of r \<le> i \<and> i < end_of r"

definition verify_bounds :: "il_index_range \<Rightarrow> nat \<Rightarrow> unit il_result" where
  "verify_bounds r len =
     (if end_of r < start_of r then Inl (ReversedRange (start_of r) (end_of r))
      else if len < end_of r then Inl (RangeOutOfBounds (end_of r) len)
      else Inr ())"

definition sub_slice :: "nat \<Rightarrow> nat \<Rightarrow> 'a list \<Rightarrow> 'a list" where
  "sub_slice s e xs = take (e - s) (drop s xs)"

definition range_slice :: "il_index_range \<Rightarrow> 'a list \<Rightarrow> 'a list outcome" where
  "range_slice r xs =
     and_then (assert_or IndexOutOfBounds (start_of r \<le> end_of r \<and> end_of r \<le> length xs)) (\<lambda>_.
       Inr (sub_slice (start_of r) (end_of r) xs))"

definition checked_slice :: "il_index_range \<Rightarrow> 'a list \<Rightarrow> il_fail + 'a list" where
  "checked_slice r xs =
     and_then (lift_error (verify_bounds r (length xs))) (\<lambda>_. lift_panic (range_slice r xs))"

section \<open>Spans\<close>

record 'a source_span =
  s_destination :: il_index_range
  s_address :: 'a
  first_source_index :: u32
  source_count :: u32

record parent_span =
  p_destination :: il_index_range
  p_source :: il_index_range

definition source_span_try_new ::
  "il_index_range \<Rightarrow> 'a \<Rightarrow> u32 \<Rightarrow> u32 \<Rightarrow> 'a source_span il_result" where
  "source_span_try_new d a first cnt =
     and_then (ok_or IntegerOverflow (checked_add first cnt)) (\<lambda>_.
       Inr \<lparr>s_destination = d, s_address = a, first_source_index = first, source_count = cnt\<rparr>)"

text \<open>
  \<open>slice::binary_search_by\<close> of the standard library: halve the window until one element is left,
  keeping the lower half when the probe compares greater.
\<close>

datatype probe = Below | Match | Above

function bsearch_loop :: "(nat \<Rightarrow> probe) \<Rightarrow> nat \<Rightarrow> nat \<Rightarrow> nat" where
  "bsearch_loop f base window =
     (if window \<le> 1 then base
      else let half = window div 2; mid = base + half
           in bsearch_loop f (if f mid = Above then base else mid) (window - half))"
  by pat_completeness auto

termination bsearch_loop
  by (relation "measure (\<lambda>(f, base, window). window)") auto

definition binary_search_by :: "'a list \<Rightarrow> ('a \<Rightarrow> probe) \<Rightarrow> nat option" where
  "binary_search_by xs f =
     (if xs = [] then None
      else let base = bsearch_loop (\<lambda>i. f (xs ! i)) 0 (length xs)
           in if f (xs ! base) = Match then Some base else None)"

definition find_destination_span :: "'s list \<Rightarrow> nat \<Rightarrow> ('s \<Rightarrow> il_index_range) \<Rightarrow> 's option" where
  "find_destination_span spans node destination =
     map_option (\<lambda>i. spans ! i)
       (binary_search_by spans (\<lambda>span.
          let r = destination span in
          if contains_index r node then Match else if node < start_of r then Above else Below))"

definition source_span_find :: "'a source_span list \<Rightarrow> nat \<Rightarrow> 'a source_span option" where
  "source_span_find spans node = find_destination_span spans node s_destination"

definition parent_span_find :: "parent_span list \<Rightarrow> nat \<Rightarrow> parent_span option" where
  "parent_span_find spans node = find_destination_span spans node p_destination"

definition contains_source :: "'a source_span \<Rightarrow> 'a \<Rightarrow> u32 \<Rightarrow> bool" where
  "contains_source span a i \<longleftrightarrow>
     s_address span = a \<and>
     (case checked_sub i (first_source_index span) of
        None \<Rightarrow> False | Some off \<Rightarrow> off < source_count span)"

definition source_span_find_all :: "'a source_span list \<Rightarrow> 'a \<Rightarrow> u32 \<Rightarrow> 'a source_span list" where
  "source_span_find_all spans a i = filter (\<lambda>span. contains_source span a i) spans"

definition parent_contains_source :: "parent_span \<Rightarrow> nat \<Rightarrow> bool" where
  "parent_contains_source span node \<longleftrightarrow> start_of (p_source span) \<le> node \<and> node < end_of (p_source span)"

definition parent_span_find_all :: "parent_span list \<Rightarrow> nat \<Rightarrow> parent_span list" where
  "parent_span_find_all spans node = filter (\<lambda>span. parent_contains_source span node) spans"

text \<open>\<open>StructureError\<close> of the verifiers; \<open>StructureIl\<close> wraps an \<open>IlError\<close>.\<close>

datatype structure_error =
    BlockSourceCount nat nat | DuplicateSuccessor u32 u32 | EdgeKindCount nat nat
  | EdgeKindMismatch u32 nat u8 | StructureIl il_error | OverlappingBlockOps u32 nat
  | OverlappingParentSpan nat | OverlappingSourceSpan nat

definition as_structure :: "'a il_result \<Rightarrow> structure_error + 'a" where
  "as_structure m = (case m of Inl e \<Rightarrow> Inl (StructureIl e) | Inr x \<Rightarrow> Inr x)"

fun source_spans_verify_from :: "nat \<Rightarrow> 'a source_span list \<Rightarrow> nat \<Rightarrow> structure_error + unit" where
  "source_spans_verify_from previous_end [] node_count = Inr ()"
| "source_spans_verify_from previous_end (span # spans) node_count =
     and_then (as_structure (verify_bounds (s_destination span) node_count)) (\<lambda>_.
       if start_of (s_destination span) < previous_end
       then Inl (OverlappingSourceSpan (start_of (s_destination span)))
       else source_spans_verify_from (end_of (s_destination span)) spans node_count)"

definition source_spans_verify :: "'a source_span list \<Rightarrow> nat \<Rightarrow> structure_error + unit" where
  "source_spans_verify spans node_count = source_spans_verify_from 0 spans node_count"

fun parent_spans_verify_from :: "nat \<Rightarrow> parent_span list \<Rightarrow> nat \<Rightarrow> structure_error + unit" where
  "parent_spans_verify_from previous_end [] node_count = Inr ()"
| "parent_spans_verify_from previous_end (span # spans) node_count =
     and_then (as_structure (verify_bounds (p_destination span) node_count)) (\<lambda>_.
     and_then (as_structure (verify_bounds (p_source span) (2 ^ 64 - 1))) (\<lambda>_.
       if start_of (p_destination span) < previous_end
       then Inl (OverlappingParentSpan (start_of (p_destination span)))
       else parent_spans_verify_from (end_of (p_destination span)) spans node_count))"

definition parent_spans_verify :: "parent_span list \<Rightarrow> nat \<Rightarrow> structure_error + unit" where
  "parent_spans_verify spans node_count = parent_spans_verify_from 0 spans node_count"

text \<open>The operations a span or block holds, with their identifiers.\<close>

definition with_ids :: "nat \<Rightarrow> 'o list \<Rightarrow> (il_id \<times> 'o) list outcome" where
  "with_ids start xs =
     collect_ok (\<lambda>(i, x). map_ok (\<lambda>w. (w, x)) (or_panic (try_from_index (start + i)))) (List.enumerate 0 xs)"

definition source_span_ops :: "'a source_span list \<Rightarrow> 'o list \<Rightarrow> 'a \<Rightarrow> (il_id \<times> 'o) list outcome" where
  "source_span_ops spans ops a =
     map_ok concat (collect_ok
       (\<lambda>span. and_then (range_slice (s_destination span) ops) (with_ids (start_of (s_destination span))))
       (filter (\<lambda>span. s_address span = a) spans))"

text \<open>\<open>try_merge\<close> returns whether it merged, with the updated span.\<close>

definition source_span_try_merge :: "'a source_span \<Rightarrow> 'a source_span \<Rightarrow> (bool \<times> 'a source_span) il_result" where
  "source_span_try_merge this span =
     and_then (ok_or IntegerOverflow (checked_add (first_source_index this) (source_count this))) (\<lambda>nxt.
       if s_address this \<noteq> s_address span \<or>
          end_of (s_destination this) \<noteq> start_of (s_destination span) \<or>
          nxt \<noteq> first_source_index span
       then Inr (False, this)
       else
         and_then (range_new (start_of (s_destination this)) (end_of (s_destination span))) (\<lambda>d.
         and_then (ok_or IntegerOverflow (checked_add (source_count this) (source_count span))) (\<lambda>c.
           Inr (True, this\<lparr>s_destination := d, source_count := c\<rparr>))))"

definition parent_span_try_merge :: "parent_span \<Rightarrow> parent_span \<Rightarrow> (bool \<times> parent_span) il_result" where
  "parent_span_try_merge this span =
     (if end_of (p_destination this) \<noteq> start_of (p_destination span) \<or>
         end_of (p_source this) \<noteq> start_of (p_source span)
      then Inr (False, this)
      else
        and_then (range_new (start_of (p_destination this)) (end_of (p_destination span))) (\<lambda>d.
        and_then (range_new (start_of (p_source this)) (end_of (p_source span))) (\<lambda>s.
          Inr (True, \<lparr>p_destination = d, p_source = s\<rparr>))))"

text \<open>
  The merge loops push onto \<open>merged\<close> unless the last element takes the span; \<open>merged\<close> is kept
  reversed here, its last element first.
\<close>

fun merge_loop :: "('s \<Rightarrow> 's \<Rightarrow> (bool \<times> 's) il_result) \<Rightarrow> 's list \<Rightarrow> 's list \<Rightarrow> 's list il_result" where
  "merge_loop mrg merged [] = Inr (rev merged)"
| "merge_loop mrg [] (span # spans) = merge_loop mrg [span] spans"
| "merge_loop mrg (previous # merged) (span # spans) =
     and_then (mrg previous span) (\<lambda>(done, previous).
       if done then merge_loop mrg (previous # merged) spans
       else merge_loop mrg (span # previous # merged) spans)"

definition merge_parent_spans :: "parent_span list \<Rightarrow> parent_span list il_result" where
  "merge_parent_spans spans =
     merge_loop parent_span_try_merge [] (sort_key (\<lambda>s. start_of (p_destination s)) spans)"

section \<open>The index mapper\<close>

record il_index_mapper =
  indices :: "nat list"

fun first_descent :: "nat list \<Rightarrow> (nat \<times> nat) option" where
  "first_descent (a # b # xs) = (if b < a then Some (a, b) else first_descent (b # xs))"
| "first_descent _ = None"

definition mapper_new :: "nat list \<Rightarrow> il_index_mapper il_result" where
  "mapper_new xs =
     (if xs = [] then Inl MissingIndexBoundary
      else case first_descent xs of
             Some (a, b) \<Rightarrow> Inl (ReversedRange a b)
           | None \<Rightarrow> Inr \<lparr>indices = xs\<rparr>)"

fun kept_indices :: "nat list \<Rightarrow> (nat \<Rightarrow> bool) \<Rightarrow> nat list \<Rightarrow> nat list" where
  "kept_indices acc kept [] = acc"
| "kept_indices acc kept (i # is) = kept_indices (acc @ [acc ! i + (if kept i then 1 else 0)]) kept is"

definition mapper_from_kept :: "nat \<Rightarrow> (nat \<Rightarrow> bool) \<Rightarrow> il_index_mapper" where
  "mapper_from_kept len kept = \<lparr>indices = kept_indices [0] kept [0..<len]\<rparr>"

definition source_len :: "il_index_mapper \<Rightarrow> nat" where
  "source_len m = length (indices m) - 1"

definition checked_map_index :: "il_index_mapper \<Rightarrow> nat \<Rightarrow> nat option" where
  "checked_map_index m i = (if i < length (indices m) then Some (indices m ! i) else None)"

definition map_index :: "il_index_mapper \<Rightarrow> nat \<Rightarrow> nat outcome" where
  "map_index m i = expect (checked_map_index m i)"

definition checked_map_range :: "il_index_mapper \<Rightarrow> il_index_range \<Rightarrow> il_index_range il_result" where
  "checked_map_range m r =
     and_then (verify_bounds r (source_len m)) (\<lambda>_.
       range_new (indices m ! start_of r) (indices m ! end_of r))"

definition map_range :: "il_index_mapper \<Rightarrow> il_index_range \<Rightarrow> il_index_range outcome" where
  "map_range m r = or_panic (checked_map_range m r)"

fun mapper_parent_loop :: "il_index_mapper \<Rightarrow> parent_span list \<Rightarrow> nat list \<Rightarrow> il_fail + parent_span list" where
  "mapper_parent_loop m spans [] = lift_error (merge_parent_spans spans)"
| "mapper_parent_loop m spans (i # is) =
     and_then (lift_error (range_new i (i + 1))) (\<lambda>source.
     and_then (lift_panic (map_range m source)) (\<lambda>destination.
       mapper_parent_loop m
         (if range_is_empty destination then spans
          else spans @ [\<lparr>p_destination = destination, p_source = source\<rparr>]) is))"

definition mapper_parent_spans :: "il_index_mapper \<Rightarrow> il_fail + parent_span list" where
  "mapper_parent_spans m = mapper_parent_loop m [] [0..<source_len m]"

fun mapper_remap_source_spans :: "il_index_mapper \<Rightarrow> 'a source_span list \<Rightarrow> 'a source_span list il_result" where
  "mapper_remap_source_spans m [] = Inr []"
| "mapper_remap_source_spans m (span # spans) =
     and_then (checked_map_range m (s_destination span)) (\<lambda>d.
       if range_is_empty d then mapper_remap_source_spans m spans
       else map_ok (\<lambda>rest. span\<lparr>s_destination := d\<rparr> # rest) (mapper_remap_source_spans m spans))"

fun mapper_remap_parent_spans :: "il_index_mapper \<Rightarrow> parent_span list \<Rightarrow> parent_span list il_result" where
  "mapper_remap_parent_spans m [] = Inr []"
| "mapper_remap_parent_spans m (span # spans) =
     and_then (checked_map_range m (p_destination span)) (\<lambda>d.
       if range_is_empty d then mapper_remap_parent_spans m spans
       else map_ok (\<lambda>rest. span\<lparr>p_destination := d\<rparr> # rest) (mapper_remap_parent_spans m spans))"

section \<open>The range map\<close>

record il_index_range_map =
  ranges :: "il_index_range list"

definition unmapped :: "nat \<Rightarrow> il_index_range_map" where
  "unmapped len = \<lparr>ranges = replicate len range_empty\<rparr>"

definition range_for :: "il_index_range_map \<Rightarrow> nat \<Rightarrow> il_index_range option" where
  "range_for m i = (if i < length (ranges m) then Some (ranges m ! i) else None)"

definition set_range :: "il_index_range_map \<Rightarrow> nat \<Rightarrow> il_index_range \<Rightarrow> il_index_range_map il_result" where
  "set_range m i r =
     (if length (ranges m) \<le> i then Inl (RangeOutOfBounds i (length (ranges m)))
      else Inr \<lparr>ranges = (ranges m)[i := r]\<rparr>)"

text \<open>The compaction loop of \<open>remap_into\<close>; \<open>retained\<close> is the kept prefix, reversed.\<close>

fun coalesce :: "il_index_range list \<Rightarrow> il_index_range list \<Rightarrow> il_index_range list il_result" where
  "coalesce retained [] = Inr (rev retained)"
| "coalesce [] (d # ds) = coalesce [d] ds"
| "coalesce (p # retained) (d # ds) =
     (if start_of d < end_of p then Inl (OverlappingRanges (start_of d) (end_of p))
      else if end_of p = start_of d then
        and_then (range_new (start_of p) (end_of d)) (\<lambda>j. coalesce (j # retained) ds)
      else coalesce (d # p # retained) ds)"

definition remap_into :: "il_index_range_map \<Rightarrow> il_index_range \<Rightarrow> il_fail + il_index_range list" where
  "remap_into m source =
     and_then (lift_error (verify_bounds source (length (ranges m)))) (\<lambda>_.
     and_then (lift_panic (range_slice source (ranges m))) (\<lambda>rs.
       lift_error (coalesce [] (sort_key start_of (filter (\<lambda>r. \<not> range_is_empty r) rs)))))"

fun map_remap_source_loop :: "il_index_range_map \<Rightarrow> 'a source_span list \<Rightarrow> 'a source_span list \<Rightarrow>
    il_fail + 'a source_span list" where
  "map_remap_source_loop m spans [] = Inr spans"
| "map_remap_source_loop m spans (span # rest) =
     and_then (remap_into m (s_destination span)) (\<lambda>ds.
       map_remap_source_loop m (spans @ map (\<lambda>d. span\<lparr>s_destination := d\<rparr>) ds) rest)"

definition map_remap_source_spans :: "il_index_range_map \<Rightarrow> 'a source_span list \<Rightarrow> il_fail + 'a source_span list" where
  "map_remap_source_spans m source_spans =
     and_then (map_remap_source_loop m [] source_spans) (\<lambda>spans.
       lift_error (merge_loop source_span_try_merge []
         (sort_key (\<lambda>s. start_of (s_destination s)) spans)))"

fun map_parent_loop :: "nat \<Rightarrow> il_index_range list \<Rightarrow> parent_span list \<Rightarrow> parent_span list il_result" where
  "map_parent_loop i [] spans = merge_parent_spans spans"
| "map_parent_loop i (d # ds) spans =
     (if range_is_empty d then map_parent_loop (Suc i) ds spans
      else
        and_then (range_new i (i + 1)) (\<lambda>source.
          map_parent_loop (Suc i) ds (spans @ [\<lparr>p_destination = d, p_source = source\<rparr>])))"

definition map_parent_spans :: "il_index_range_map \<Rightarrow> parent_span list il_result" where
  "map_parent_spans m = map_parent_loop 0 (ranges m) []"

fun map_remap_parent_loop :: "il_index_range_map \<Rightarrow> parent_span list \<Rightarrow> parent_span list \<Rightarrow>
    il_fail + parent_span list" where
  "map_remap_parent_loop m spans [] = Inr (sort_key (\<lambda>s. start_of (p_destination s)) spans)"
| "map_remap_parent_loop m spans (span # rest) =
     and_then (remap_into m (p_destination span)) (\<lambda>ds.
       map_remap_parent_loop m (spans @ map (\<lambda>d. \<lparr>p_destination = d, p_source = p_source span\<rparr>) ds) rest)"

definition map_remap_parent_spans :: "il_index_range_map \<Rightarrow> parent_span list \<Rightarrow> il_fail + parent_span list" where
  "map_remap_parent_spans m parent_spans = map_remap_parent_loop m [] parent_spans"

section \<open>Pools and compressed rows\<close>

record 'a il_pool =
  pool_values :: "'a list"

definition pool_append :: "'a il_pool \<Rightarrow> 'a list \<Rightarrow> 'a il_pool \<times> il_index_range il_result" where
  "pool_append p vs =
     (let start = length (pool_values p); p = p\<lparr>pool_values := pool_values p @ vs\<rparr>
      in (p, range_new start (length (pool_values p))))"

record 'a il_csr =
  offsets :: "u32 list"
  csr_values :: "'a list"

fun csr_rows_loop :: "u32 list \<Rightarrow> 'a list \<Rightarrow> 'a list list \<Rightarrow> 'a il_csr il_result" where
  "csr_rows_loop offs vals [] = Inr \<lparr>offsets = offs, csr_values = vals\<rparr>"
| "csr_rows_loop offs vals (row # rows) =
     (let vals = vals @ row in
      and_then (ok_or IntegerOverflow (u32_try_from (length vals))) (\<lambda>n.
        csr_rows_loop (offs @ [n]) vals rows))"

definition csr_try_from_rows :: "'a list list \<Rightarrow> 'a il_csr il_result" where
  "csr_try_from_rows rows = csr_rows_loop [0] [] rows"

definition csr_len :: "'a il_csr \<Rightarrow> nat" where
  "csr_len c = length (offsets c) - 1"

definition checked_row :: "'a il_csr \<Rightarrow> nat \<Rightarrow> 'a list option outcome" where
  "checked_row c i =
     (if Suc i < length (offsets c) then
        let s = unat (offsets c ! i); e = unat (offsets c ! Suc i) in
        and_then (assert_or IndexOutOfBounds (s \<le> e \<and> e \<le> length (csr_values c))) (\<lambda>_.
          Inr (Some (sub_slice s e (csr_values c))))
      else Inr None)"

definition csr_row :: "'a il_csr \<Rightarrow> nat \<Rightarrow> 'a list outcome" where
  "csr_row c i =
     and_then (assert_or IndexOutOfBounds (Suc i < length (offsets c))) (\<lambda>_.
       let s = unat (offsets c ! i); e = unat (offsets c ! Suc i) in
       and_then (assert_or IndexOutOfBounds (s \<le> e \<and> e \<le> length (csr_values c))) (\<lambda>_.
         Inr (sub_slice s e (csr_values c))))"

text \<open>The three loops of \<open>try_from_entries\<close>: count, prefix sums, placement with cursors.\<close>

fun csr_count :: "u32 list \<Rightarrow> (nat \<times> 'a) list \<Rightarrow> u32 list il_result" where
  "csr_count offs [] = Inr offs"
| "csr_count offs ((row, _) # es) =
     and_then (ok_or IntegerOverflow (usize_checked_add row 1)) (\<lambda>off.
       if length offs \<le> off then Inl (RangeOutOfBounds off (length offs))
       else
         and_then (ok_or IntegerOverflow (checked_add (offs ! off) 1)) (\<lambda>n.
           csr_count (offs[off := n]) es))"

fun csr_prefix :: "u32 \<Rightarrow> u32 list \<Rightarrow> u32 list il_result" where
  "csr_prefix previous [] = Inr []"
| "csr_prefix previous (n # ns) =
     and_then (ok_or IntegerOverflow (checked_add n previous)) (\<lambda>s.
       map_ok (\<lambda>ss. s # ss) (csr_prefix s ns))"

fun csr_place :: "u32 list \<Rightarrow> 'a list \<Rightarrow> (nat \<times> 'a) list \<Rightarrow> 'a list outcome" where
  "csr_place cursor vals [] = Inr vals"
| "csr_place cursor vals ((row, v) # es) =
     and_then (assert_or IndexOutOfBounds (row < length cursor \<and> unat (cursor ! row) < length vals)) (\<lambda>_.
       csr_place (cursor[row := cursor ! row + 1]) (vals[unat (cursor ! row) := v]) es)"

definition csr_try_from_entries :: "nat \<Rightarrow> (nat \<times> 'a) list \<Rightarrow> il_fail + 'a il_csr" where
  "csr_try_from_entries row_count entries =
     and_then (lift_error (ok_or IntegerOverflow (usize_checked_add row_count 1))) (\<lambda>n.
       let offs = replicate n 0 in
       case entries of
         [] \<Rightarrow> Inr \<lparr>offsets = offs, csr_values = []\<rparr>
       | (_, fill) # _ \<Rightarrow>
           and_then (lift_error (csr_count offs entries)) (\<lambda>offs.
           and_then (lift_error (map_ok (\<lambda>ns. hd offs # ns) (csr_prefix (hd offs) (tl offs)))) (\<lambda>offs.
           and_then (lift_panic (csr_place offs (replicate (unat (last offs)) fill) entries)) (\<lambda>vals.
             Inr \<lparr>offsets = offs, csr_values = vals\<rparr>))))"

text \<open>The panicking constructors for internal callers.\<close>

definition csr_from_rows :: "'a list list \<Rightarrow> 'a il_csr outcome" where
  "csr_from_rows rows = or_panic (csr_try_from_rows rows)"

definition csr_from_entries :: "nat \<Rightarrow> (nat \<times> 'a) list \<Rightarrow> 'a il_csr outcome" where
  "csr_from_entries row_count entries = or_panic (csr_try_from_entries row_count entries)"

declare bsearch_loop.simps [simp del]

section \<open>Lemmas\<close>

lemma lift_simps [simp]:
  "lift_error (Inl e) = Inl (Error e)" "lift_error (Inr x) = Inr x"
  "lift_panic (Inl p) = Inl (Panic p)" "lift_panic (Inr x) = Inr x"
  "as_structure (Inl e') = Inl (StructureIl e')" "as_structure (Inr x') = Inr x'"
  "ok_or e'' None = Inl e''" "ok_or e'' (Some x'') = Inr x''"
  by (simp_all add: lift_error_def lift_panic_def as_structure_def ok_or_def)

lemma range_new_ok: "s \<le> e \<Longrightarrow> e < 2 ^ 32 \<Longrightarrow>
    range_new s e = Inr \<lparr>r_start = word_of_nat s, r_end = word_of_nat e\<rparr>"
  by (simp add: range_new_def u32_try_from_def)

lemma range_new_inv:
  assumes "range_new s e = Inr r" shows "start_of r = s \<and> end_of r = e \<and> s \<le> e \<and> e < 2 ^ 32"
  using assms by (auto simp: range_new_def u32_try_from_def start_of_def end_of_def unat_word_of_nat split: if_splits)

lemma range_eqI: "start_of r = start_of r' \<Longrightarrow> end_of r = end_of r' \<Longrightarrow> r = (r' :: il_index_range)"
  by (cases r; cases r') (simp add: start_of_def end_of_def unsigned_word_eqI)

lemma u32_of_Suc_neq_0: "Suc i < 2 ^ 32 \<Longrightarrow> word_of_nat (Suc i) \<noteq> (0 :: u32)"
  using unat_word_of_nat_small [of "Suc i", where ?'a = 32] by (auto simp del: of_nat_Suc)

lemma try_from_index_eq:
  "try_from_index i = (if i < 2 ^ 32 - 1 then Inr (word_of_nat (i + 1)) else Inl IdExhausted)"
  using u32_of_Suc_neq_0 [of i]
  by (auto simp: try_from_index_def usize_checked_add_def u32_try_from_def ok_or_def simp del: of_nat_Suc split: option.splits)

lemma id_index_try_from_index: "try_from_index i = Inr w \<Longrightarrow> id_index w = i \<and> i < 2 ^ 32 - 1"
  using unat_word_of_nat_small [of "Suc i", where ?'a = 32]
  by (auto simp: try_from_index_eq id_index_def simp del: of_nat_Suc split: if_splits)

subsection \<open>Binary search\<close>

definition rank :: "probe \<Rightarrow> nat" where
  "rank p = (case p of Below \<Rightarrow> 0 | Match \<Rightarrow> 1 | Above \<Rightarrow> 2)"

lemma rank_simps [simp]: "rank Below = 0" "rank Match = 1" "rank Above = 2"
  by (simp_all add: rank_def)

lemma rank_Above: "rank Above \<le> rank p \<longleftrightarrow> p = Above"
  by (cases p) simp_all

definition bsearch_post :: "(nat \<Rightarrow> probe) \<Rightarrow> nat \<Rightarrow> nat \<Rightarrow> nat \<Rightarrow> bool" where
  "bsearch_post f base window r \<longleftrightarrow>
     base \<le> r \<and> r < base + window \<and> (r = base \<or> f r \<noteq> Above) \<and>
     (\<forall>i. r < i \<longrightarrow> i < base + window \<longrightarrow> f i = Above)"

lemma bsearch_loop_correct:
  assumes "\<And>i j. i \<le> j \<Longrightarrow> j < base + window \<Longrightarrow> rank (f i) \<le> rank (f j)" "0 < window"
  shows "bsearch_post f base window (bsearch_loop f base window)"
  using assms
proof (induction window arbitrary: base rule: less_induct)
  case (less window base)
  define half where "half = window div 2"
  have half: "half < window" "half \<le> window - half" using less.prems(2) by (auto simp: half_def)
  have mono: "\<And>i j. i \<le> j \<Longrightarrow> j < base + window \<Longrightarrow> rank (f i) \<le> rank (f j)" using less.prems(1) .
  consider "window = 1" | "half > 0" "f (base + half) = Above" | "half > 0" "f (base + half) \<noteq> Above"
    using less.prems(2) by (fastforce simp: half_def)
  then show ?case
  proof cases
    case 1
    then show ?thesis by (simp add: bsearch_loop.simps bsearch_post_def)
  next
    case 2
    have up: "f i = Above" if "base + half \<le> i" "i < base + window" for i
      using mono [OF that] 2 rank_Above by metis
    have eq: "bsearch_loop f base window = bsearch_loop f base (window - half)"
      using 2 half by (subst bsearch_loop.simps) (auto simp: Let_def half_def)
    have "bsearch_post f base (window - half) (bsearch_loop f base (window - half))"
      by (rule less.IH) (use half 2 mono in auto)
    then show ?thesis unfolding eq bsearch_post_def using up half(2) by (auto simp: not_le)
  next
    case 3
    have eq: "bsearch_loop f base window = bsearch_loop f (base + half) (window - half)"
      using 3 half by (subst bsearch_loop.simps) (auto simp: Let_def half_def)
    have "bsearch_post f (base + half) (window - half) (bsearch_loop f (base + half) (window - half))"
      by (rule less.IH) (use half 3 mono in auto)
    then show ?thesis unfolding eq bsearch_post_def using 3 half by auto
  qed
qed


lemma binary_search_by_Some:
  assumes "binary_search_by xs f = Some i" shows "i < length xs \<and> f (xs ! i) = Match"
proof -
  have "bsearch_loop g b w < b + w" if "0 < w" for g b w
    using that by (induction g b w rule: bsearch_loop.induct)
      (subst bsearch_loop.simps, fastforce simp: Let_def)
  from this [of "length xs" "\<lambda>i. f (xs ! i)" 0] show ?thesis using assms
    by (auto simp: binary_search_by_def Let_def split: if_splits)
qed

lemma binary_search_by_finds:
  assumes mono: "\<And>i j. i \<le> j \<Longrightarrow> j < length xs \<Longrightarrow> rank (f (xs ! i)) \<le> rank (f (xs ! j))"
    and m: "m < length xs" "f (xs ! m) = Match"
  shows "\<exists>i. binary_search_by xs f = Some i"
proof -
  define r where "r = bsearch_loop (\<lambda>i. f (xs ! i)) 0 (length xs)"
  have post: "bsearch_post (\<lambda>i. f (xs ! i)) 0 (length xs) r"
    unfolding r_def by (rule bsearch_loop_correct) (use assms in auto)
  have "m \<le> r" using post m by (metis add_0 bsearch_post_def not_le probe.distinct(5))
  then have "rank Match \<le> rank (f (xs ! r))" using mono [of m r] m post by (simp add: bsearch_post_def)
  moreover have "r = m \<or> f (xs ! r) \<noteq> Above" using post \<open>m \<le> r\<close> by (auto simp: bsearch_post_def)
  ultimately have "f (xs ! r) = Match" using m by (cases "f (xs ! r)") auto
  then show ?thesis using m by (auto simp: binary_search_by_def r_def Let_def)
qed

text \<open>Ranges in ascending order that start no earlier than \<open>lo\<close> and do not overlap.\<close>

fun ordered_ranges :: "nat \<Rightarrow> il_index_range list \<Rightarrow> bool" where
  "ordered_ranges lo [] = True"
| "ordered_ranges lo (r # rs) \<longleftrightarrow> lo \<le> start_of r \<and> start_of r \<le> end_of r \<and> ordered_ranges (end_of r) rs"

lemma ordered_ranges_mono: "ordered_ranges lo rs \<Longrightarrow> lo' \<le> lo \<Longrightarrow> ordered_ranges lo' rs"
  by (cases rs) auto

lemma ordered_ranges_set:
  "ordered_ranges lo rs \<Longrightarrow> r \<in> set rs \<Longrightarrow> lo \<le> start_of r \<and> start_of r \<le> end_of r"
proof (induction rs arbitrary: lo)
  case (Cons a rs)
  then have "ordered_ranges lo rs" using ordered_ranges_mono [of "end_of a" rs lo] by auto
  then show ?case using Cons by auto
qed simp

lemma ordered_ranges_nth:
  "ordered_ranges lo rs \<Longrightarrow> i < j \<Longrightarrow> j < length rs \<Longrightarrow> end_of (rs ! i) \<le> start_of (rs ! j)"
proof (induction rs arbitrary: lo i j)
  case (Cons a rs)
  then show ?case
    using ordered_ranges_set [of "end_of a" rs "rs ! (j - 1)"] Cons.IH [of "end_of a" "i - 1" "j - 1"]
    by (cases i; cases j) auto
qed simp

lemma verify_bounds_ok: "verify_bounds r n = Inr () \<longleftrightarrow> start_of r \<le> end_of r \<and> end_of r \<le> n"
  by (auto simp: verify_bounds_def)

lemma source_spans_verify_from_iff:
  "source_spans_verify_from lo spans n = Inr () \<longleftrightarrow>
     ordered_ranges lo (map s_destination spans) \<and> (\<forall>s \<in> set spans. end_of (s_destination s) \<le> n)"
  by (induction lo spans n rule: source_spans_verify_from.induct)
    (auto simp: outcome_simps as_structure_def verify_bounds_def)

lemma end_of_fits_usize [simp]: "\<not> 18446744073709551615 < end_of r" "end_of r \<le> 18446744073709551615"
  using unat_lt_pow [of "r_end r"] by (simp_all add: end_of_def)

lemma parent_spans_verify_from_iff:
  "parent_spans_verify_from lo spans n = Inr () \<longleftrightarrow>
     ordered_ranges lo (map p_destination spans) \<and> (\<forall>s \<in> set spans. end_of (p_destination s) \<le> n \<and>
       start_of (p_source s) \<le> end_of (p_source s))"
  by (induction lo spans n rule: parent_spans_verify_from.induct)
    (auto simp: outcome_simps as_structure_def verify_bounds_def)

lemma find_destination_span_iff:
  assumes "ordered_ranges 0 (map dst spans)"
  shows "find_destination_span spans node dst = Some s \<longleftrightarrow> s \<in> set spans \<and> contains_index (dst s) node"
proof
  assume "find_destination_span spans node dst = Some s"
  then show "s \<in> set spans \<and> contains_index (dst s) node"
    by (auto simp: find_destination_span_def Let_def dest!: binary_search_by_Some split: if_splits)
next
  let ?f = "\<lambda>span. if contains_index (dst span) node then Match
              else if node < start_of (dst span) then Above else Below"
  have apart: "end_of (dst (spans ! i)) \<le> start_of (dst (spans ! j))" if "i < j" "j < length spans" for i j
    using ordered_ranges_nth [OF assms, of i j] that by simp
  have "rank (?f (spans ! i)) \<le> rank (?f (spans ! j))" if "i \<le> j" "j < length spans" for i j
    using apart [of i j] that ordered_ranges_set [OF assms, of "dst (spans ! i)"]
      ordered_ranges_set [OF assms, of "dst (spans ! j)"]
    by (cases "i = j") (auto simp: contains_index_def)
  note mono = this
  assume s: "s \<in> set spans \<and> contains_index (dst s) node"
  then obtain m where m: "m < length spans" "spans ! m = s" by (auto simp: in_set_conv_nth)
  then obtain i where i: "binary_search_by spans ?f = Some i"
    using binary_search_by_finds [of spans ?f m] mono s by auto
  then have "contains_index (dst (spans ! i)) node" "i < length spans"
    using binary_search_by_Some [OF i] by (auto split: if_splits)
  then have "i = m" using apart [of i m] apart [of m i] m s
    by (cases i m rule: linorder_cases) (auto simp: contains_index_def)
  then show "find_destination_span spans node dst = Some s"
    using i m by (simp add: find_destination_span_def Let_def)
qed

subsection \<open>Compressed rows\<close>

definition row_of :: "nat \<Rightarrow> (nat \<times> 'a) list \<Rightarrow> 'a list" where
  "row_of r es = map snd (filter (\<lambda>e. fst e = r) es)"

definition row_base :: "nat \<Rightarrow> (nat \<times> 'a) list \<Rightarrow> nat" where
  "row_base r es = length (filter (\<lambda>e. fst e < r) es)"

lemma row_of_simps [simp]:
  "row_of r [] = []" "row_of r ((k, v) # es) = (if k = r then v # row_of r es else row_of r es)"
  "row_of r (es @ fs) = row_of r es @ row_of r fs"
  by (simp_all add: row_of_def)

lemma set_row_of [simp]: "v \<in> set (row_of r es) \<longleftrightarrow> (r, v) \<in> set es"
  by (force simp: row_of_def)

lemma row_base_0 [simp]: "row_base 0 es = 0"
  by (simp add: row_base_def)

lemma row_base_Suc: "row_base (Suc r) es = row_base r es + length (row_of r es)"
  by (induction es) (auto simp: row_base_def row_of_def)

lemma row_base_mono: "r \<le> s \<Longrightarrow> row_base r es \<le> row_base s es"
  by (induction s) (auto simp: row_base_Suc le_Suc_eq)

lemma row_base_le: "row_base r es \<le> length es"
  by (simp add: row_base_def)

lemma row_base_all: "\<forall>e \<in> set es. fst e < n \<Longrightarrow> row_base n es = length es"
  by (simp add: row_base_def)

lemma length_row_of_le: "length (row_of r es) \<le> length es"
  by (simp add: row_of_def)

lemma checked_add_1_u32: "unat a + 1 < 2 ^ 32 \<Longrightarrow> checked_add a (1 :: u32) = Some (a + 1) \<and> unat (a + 1) = unat a + 1"
  using unat_add_no_wrap [of a 1] by (simp add: checked_add_def)

lemma csr_count_ok:
  assumes "length offs < 2 ^ 64" "\<forall>e \<in> set es. Suc (fst e) < length offs"
    "\<forall>r. Suc r < length offs \<longrightarrow> unat (offs ! Suc r) + length (row_of r es) < 2 ^ 32"
  shows "\<exists>offs'. csr_count offs es = Inr offs' \<and> length offs' = length offs \<and> offs' ! 0 = offs ! 0 \<and>
    (\<forall>r. Suc r < length offs \<longrightarrow> unat (offs' ! Suc r) = unat (offs ! Suc r) + length (row_of r es))"
  using assms
proof (induction offs es rule: csr_count.induct)
  case (2 offs row v es)
  have row: "Suc row < length offs" "Suc row < 2 ^ 64" using 2(2,3) by auto
  have "unat (offs ! Suc row) + 1 < 2 ^ 32" using 2(4) [rule_format, of row] row by simp
  note step = checked_add_1_u32 [OF this]
  let ?offs = "offs[Suc row := offs ! Suc row + 1]"
  have "\<exists>offs'. csr_count ?offs es = Inr offs' \<and> length offs' = length ?offs \<and> offs' ! 0 = ?offs ! 0 \<and>
    (\<forall>r. Suc r < length ?offs \<longrightarrow> unat (offs' ! Suc r) = unat (?offs ! Suc r) + length (row_of r es))"
  proof (rule 2(1) [of "Suc row"])
    show "\<forall>r. Suc r < length ?offs \<longrightarrow> unat (?offs ! Suc r) + length (row_of r es) < 2 ^ 32"
      using 2(4) row step by (auto simp: nth_list_update)
  qed (use 2 row step in \<open>auto simp: usize_checked_add_def\<close>)
  then show ?case using row step by (auto simp: usize_checked_add_def nth_list_update)
qed simp

lemma lift_eq_Inr_iff [outcome_simps]:
  "lift_error m = Inr x \<longleftrightarrow> m = Inr x" "lift_panic m' = Inr x \<longleftrightarrow> m' = Inr x"
  "ok_or e m'' = Inr x \<longleftrightarrow> m'' = Some x" "lift_error m = Inl (Error f) \<longleftrightarrow> m = Inl f"
  "lift_error m \<noteq> Inl (Panic q)" "lift_panic m' = Inl (Panic q) \<longleftrightarrow> m' = Inl q"
  by (auto simp: lift_error_def lift_panic_def ok_or_def split: sum.splits option.splits)

lemma csr_count_rows: "csr_count offs es = Inr offs' \<Longrightarrow> \<forall>e \<in> set es. Suc (fst e) < length offs"
  by (induction offs es rule: csr_count.induct)
    (auto simp: outcome_simps usize_checked_add_def ok_or_def split: if_splits option.splits)

lemma csr_count_sums:
  assumes "csr_count offs es = Inr offs'"
  shows "length offs' = length offs \<and> offs' ! 0 = offs ! 0 \<and>
    (\<forall>r. Suc r < length offs \<longrightarrow> unat (offs' ! Suc r) = unat (offs ! Suc r) + length (row_of r es))"
  using assms
proof (induction offs es rule: csr_count.induct)
  case (2 offs row v es)
  then have a: "Suc row < 2 ^ 64" "Suc row < length offs"
      "unat (offs ! Suc row) + 1 < 2 ^ 32"
      "csr_count (offs[Suc row := offs ! Suc row + 1]) es = Inr offs'"
    using csr_count_rows [OF 2(2)]
    by (auto simp: outcome_simps usize_checked_add_def ok_or_def checked_add_def split: if_splits option.splits)
  have "usize_checked_add row 1 = Some (Suc row)" using a by (simp add: usize_checked_add_def)
  with 2(1) [of "Suc row" "offs ! Suc row + 1"] a checked_add_1_u32 [OF a(3)]
  show ?case by (auto simp: nth_list_update)
qed auto

lemma csr_prefix_ok:
  "csr_prefix p ns = (if unat p + sum_list (map unat ns) < 2 ^ 32
     then Inr (map (\<lambda>k. word_of_nat (unat p + sum_list (map unat (take (Suc k) ns)))) [0..<length ns])
     else Inl IntegerOverflow)"
proof (induction p ns rule: csr_prefix.induct)
  case (2 p n ns)
  show ?case
  proof (cases "unat n + unat p < 2 ^ 32")
    case True
    then have "checked_add n p = Some (n + p)" "unat (n + p) = unat n + unat p"
      using unat_add_no_wrap [of n p] by (auto simp: checked_add_def)
    moreover have "[0..<length (n # ns)] = 0 # map Suc [0..<length ns]"
      by (simp add: map_Suc_upt upt_conv_Cons del: upt_Suc)
    ultimately show ?thesis using 2 [of "n + p"]
      by (auto simp: add.assoc add.left_commute o_def simp del: upt_Suc)
  next
    case False
    then show ?thesis by (simp add: checked_add_def)
  qed
qed (use unat_lt_pow [where ?'a = 32] in simp)

text \<open>Placement: \<open>done\<close> has been placed, \<open>es\<close> is still to come.\<close>

definition place_inv :: "nat \<Rightarrow> (nat \<times> 'a) list \<Rightarrow> (nat \<times> 'a) list \<Rightarrow> u32 list \<Rightarrow> 'a list \<Rightarrow> bool" where
  "place_inv n all placed cursor vals \<longleftrightarrow>
     length vals = length all \<and> length cursor = Suc n \<and>
     (\<forall>r < n. unat (cursor ! r) = row_base r all + length (row_of r placed)) \<and>
     (\<forall>r < n. take (length (row_of r placed)) (drop (row_base r all) vals) = row_of r placed)"

lemma take_drop_update_ge: "b + k \<le> i \<Longrightarrow> take k (drop b (xs[i := v])) = take k (drop b xs)"
  by (cases "i < length xs") (auto simp: drop_update_swap)

lemma take_drop_update_next:
  "b + k < length xs \<Longrightarrow> take (Suc k) (drop b (xs[b + k := v])) = take k (drop b xs) @ [v]"
  by (simp add: drop_update_swap take_Suc_conv_app_nth)

lemma place_inv_step:
  assumes inv: "place_inv n (placed @ (r0, v) # es) placed cursor vals"
    and rows: "\<forall>e \<in> set (placed @ (r0, v) # es). fst e < n" and small: "length (placed @ (r0, v) # es) < 2 ^ 32"
  shows "r0 < length cursor \<and> unat (cursor ! r0) < length vals \<and>
    place_inv n (placed @ (r0, v) # es) (placed @ [(r0, v)])
      (cursor[r0 := cursor ! r0 + 1]) (vals[unat (cursor ! r0) := v])"
proof -
  let ?all = "placed @ (r0, v) # es"
  have r0: "r0 < n" using rows by simp
  have cur: "unat (cursor ! r0) = row_base r0 ?all + length (row_of r0 placed)"
    using inv r0 by (simp add: place_inv_def)
  have fits: "unat (cursor ! r0) < row_base (Suc r0) ?all" by (simp add: row_base_Suc cur)
  also have below: "\<dots> \<le> length ?all" by (rule row_base_le)
  finally have lt: "unat (cursor ! r0) < length vals" using inv by (simp add: place_inv_def)
  have "unat (cursor ! r0 + 1) = unat (cursor ! r0) + 1"
    using checked_add_1_u32 [of "cursor ! r0"] fits below small by linarith
  moreover have "take (length (row_of r placed)) (drop (row_base r ?all) (vals[unat (cursor ! r0) := v]))
      = row_of r placed" if "r < n" "r \<noteq> r0" for r
  proof (cases "r < r0")
    case True
    then have "row_base r ?all + length (row_of r placed) \<le> unat (cursor ! r0)"
      using row_base_mono [of "Suc r" r0 ?all] by (simp add: row_base_Suc cur)
    then show ?thesis using inv that by (simp add: take_drop_update_ge place_inv_def)
  next
    case False
    then have "unat (cursor ! r0) < row_base r ?all"
      using fits row_base_mono [of "Suc r0" r ?all] that by simp
    then show ?thesis using inv that by (simp add: place_inv_def)
  qed
  moreover have "take (Suc (length (row_of r0 placed))) (drop (row_base r0 ?all) (vals[unat (cursor ! r0) := v]))
      = row_of r0 placed @ [v]"
    using take_drop_update_next [of "row_base r0 ?all" "length (row_of r0 placed)" vals v] lt inv r0
    by (simp add: cur place_inv_def)
  ultimately show ?thesis using inv r0 lt cur by (auto simp: place_inv_def nth_list_update)
qed

lemma csr_place_ok:
  assumes "place_inv n (placed @ es) placed cursor vals" "\<forall>e \<in> set (placed @ es). fst e < n"
    "length (placed @ es) < 2 ^ 32"
  shows "\<exists>vals' cursor'. csr_place cursor vals es = Inr vals' \<and> place_inv n (placed @ es) (placed @ es) cursor' vals'"
  using assms
proof (induction cursor vals es arbitrary: placed rule: csr_place.induct)
  case (2 cursor vals r0 v es)
  note step = place_inv_step [OF 2(2-4)]
  show ?case using 2(1) [of "placed @ [(r0, v)]"] step 2(3,4) by simp
qed auto

text \<open>The offsets after the prefix sums are the row bases.\<close>

definition csr_offsets :: "nat \<Rightarrow> (nat \<times> 'a) list \<Rightarrow> u32 list" where
  "csr_offsets n es = map (\<lambda>k. word_of_nat (row_base k es)) [0..<Suc n]"

lemma csr_prefix_of_counts:
  assumes "length offs = Suc n" "offs ! 0 = 0" "\<And>r. r < n \<Longrightarrow> unat (offs ! Suc r) = length (row_of r es)"
    "\<forall>e \<in> set es. fst e < n"
  shows "map_ok (\<lambda>ns. hd offs # ns) (csr_prefix (hd offs) (tl offs)) =
    (if length es < 2 ^ 32 then Inr (csr_offsets n es) else Inl IntegerOverflow)"
proof -
  have nth: "tl offs ! k = offs ! Suc k" if "k < n" for k using assms(1) that by (cases offs) auto
  have sums: "sum_list (map unat (take k (tl offs))) = row_base k es" if "k \<le> n" for k
    using that
  proof (induction k)
    case (Suc k)
    then have "take (Suc k) (tl offs) = take k (tl offs) @ [offs ! Suc k]"
      using assms(1) nth [of k] by (simp add: take_Suc_conv_app_nth)
    then show ?case using Suc assms(3) by (simp add: row_base_Suc)
  qed simp
  have "hd offs = 0" using assms(1,2) by (cases offs) auto
  moreover have "[0..<Suc n] = 0 # map Suc [0..<n]" by (simp add: map_Suc_upt upt_conv_Cons del: upt_Suc)
  ultimately show ?thesis
    using assms(1) sums [of n] row_base_all [OF assms(4)] sums
    by (auto simp: csr_prefix_ok csr_offsets_def simp del: upt_Suc)
qed

lemma unat_csr_offsets:
  "k \<le> n \<Longrightarrow> length es < 2 ^ 32 \<Longrightarrow> unat (csr_offsets n es ! k) = row_base k es"
  using row_base_le [of k es] by (simp add: csr_offsets_def unat_word_of_nat del: upt_Suc)

lemma length_csr_offsets [simp]: "length (csr_offsets n es) = Suc n"
  by (simp add: csr_offsets_def)

text \<open>What a built store satisfies.\<close>

definition csr_holds :: "nat \<Rightarrow> (nat \<times> 'a) list \<Rightarrow> 'a il_csr \<Rightarrow> bool" where
  "csr_holds n es c \<longleftrightarrow>
     offsets c = csr_offsets n es \<and> length (csr_values c) = length es \<and> length es < 2 ^ 32 \<and>
     (\<forall>r < n. sub_slice (row_base r es) (row_base (Suc r) es) (csr_values c) = row_of r es)"

lemma csr_holds_row:
  assumes "csr_holds n es c"
  shows "csr_row c r = (if r < n then Inr (row_of r es) else Inl IndexOutOfBounds)"
    and "checked_row c r = Inr (if r < n then Some (row_of r es) else None)" and "csr_len c = n"
  using assms row_base_mono [of r "Suc r" es] row_base_le [of "Suc r" es]
  by (auto simp: csr_row_def checked_row_def csr_holds_def csr_len_def unat_csr_offsets Let_def assert_or_def)

lemma csr_try_from_entries_ok:
  assumes "\<forall>e \<in> set es. fst e < n" "length es < 2 ^ 32" "Suc n < 2 ^ 64"
  shows "\<exists>c. csr_try_from_entries n es = Inr c \<and> csr_holds n es c"
proof (cases es)
  case Nil
  have "replicate (Suc n) 0 = csr_offsets n es"
    by (rule nth_equalityI) (auto simp: csr_offsets_def Nil row_base_def nth_append simp del: upt_Suc replicate.simps)
  then show ?thesis using assms Nil
    by (auto simp: csr_try_from_entries_def usize_checked_add_def csr_holds_def sub_slice_def row_base_def)
next
  case (Cons e rest)
  obtain k fill where e: "e = (k, fill)" by (cases e)
  have "length (row_of r es) < 2 ^ 32" for r using length_row_of_le [of r es] assms(2) by linarith
  then obtain offs where offs: "csr_count (replicate (Suc n) 0) es = Inr offs" "length offs = Suc n" "offs ! 0 = 0"
      "\<And>r. r < n \<Longrightarrow> unat (offs ! Suc r) = length (row_of r es)"
    using csr_count_ok [of "replicate (Suc n) 0" es] assms by auto
  have pre: "map_ok (\<lambda>ns. hd offs # ns) (csr_prefix (hd offs) (tl offs)) = Inr (csr_offsets n es)"
    using csr_prefix_of_counts [OF offs(2-4) assms(1)] assms(2) by simp
  have last: "unat (last (csr_offsets n es)) = length es"
    using unat_csr_offsets [of n n es] assms(2) row_base_all [OF assms(1)]
    by (simp add: last_conv_nth csr_offsets_def del: upt_Suc)
  have "place_inv n ([] @ es) [] (csr_offsets n es) (replicate (length es) fill)"
    using unat_csr_offsets [of _ n es] assms(2) by (auto simp: place_inv_def)
  from csr_place_ok [OF this] assms obtain vals cursor where
    vals: "csr_place (csr_offsets n es) (replicate (length es) fill) es = Inr vals" "place_inv n es es cursor vals"
    by auto
  have "csr_holds n es \<lparr>offsets = csr_offsets n es, csr_values = vals\<rparr>"
    using vals(2) assms(2) by (simp add: csr_holds_def place_inv_def sub_slice_def row_base_Suc)
  then show ?thesis using offs(1) pre last vals(1) assms(3)
    by (simp add: csr_try_from_entries_def usize_checked_add_def Cons e del: replicate.simps)
qed

lemma csr_stages_fit:
  assumes "csr_count (replicate (Suc n) 0) es = Inr offs"
    "map_ok (\<lambda>ns. hd offs # ns) (csr_prefix (hd offs) (tl offs)) = Inr offs2"
  shows "(\<forall>e \<in> set es. fst e < n) \<and> length es < 2 ^ 32"
proof -
  have rows: "\<forall>e \<in> set es. fst e < n" using csr_count_rows [OF assms(1)] by auto
  then show ?thesis
    using csr_prefix_of_counts [of offs n es] csr_count_sums [OF assms(1)] assms(2) by (auto split: if_splits)
qed

lemma csr_try_from_entries_inv:
  assumes "csr_try_from_entries n es = Inr c \<or> csr_try_from_entries n es = Inl (Panic p)"
  shows "Suc n < 2 ^ 64 \<and> (\<forall>e \<in> set es. fst e < n) \<and> length es < 2 ^ 32"
proof (cases es)
  case Nil
  then show ?thesis using assms
    by (auto simp: csr_try_from_entries_def usize_checked_add_def split: if_splits)
next
  case (Cons e rest)
  obtain k fill where e: "e = (k, fill)" by (cases e)
  from assms obtain offs offs2 where "Suc n < 2 ^ 64" and offs: "csr_count (replicate (Suc n) 0) es = Inr offs"
    and pre: "map_ok (\<lambda>ns. hd offs # ns) (csr_prefix (hd offs) (tl offs)) = Inr offs2"
    by (auto simp: csr_try_from_entries_def usize_checked_add_def outcome_simps Cons e Let_def
        simp del: replicate.simps csr_count.simps csr_place.simps split: if_splits)
  then show ?thesis using csr_stages_fit [OF offs pre] by simp
qed

definition csr_row_offsets :: "'a list list \<Rightarrow> u32 list" where
  "csr_row_offsets rows = map (\<lambda>k. word_of_nat (length (concat (take k rows)))) [0..<Suc (length rows)]"

lemma csr_rows_loop_eq:
  assumes "length vals < 2 ^ 32"
  shows "csr_rows_loop offs vals rows =
    (if length vals + length (concat rows) < 2 ^ 32
     then Inr \<lparr>offsets = offs @ map (\<lambda>k. word_of_nat (length vals + length (concat (take (Suc k) rows)))) [0..<length rows],
               csr_values = vals @ concat rows\<rparr>
     else Inl IntegerOverflow)"
  using assms
proof (induction offs vals rows rule: csr_rows_loop.induct)
  case (2 offs vals row rows)
  show ?case
  proof (cases "length (vals @ row) < 2 ^ 32")
    case True
    have "[0..<length (row # rows)] = 0 # map Suc [0..<length rows]"
      by (simp add: map_Suc_upt upt_conv_Cons del: upt_Suc)
    with True show ?thesis using 2(1) [OF refl, of "word_of_nat (length (vals @ row))"]
      by (auto simp: u32_try_from_def add.assoc simp del: upt_Suc)
  next
    case False
    then show ?thesis by (simp add: u32_try_from_def)
  qed
qed simp

lemma csr_try_from_rows_eq:
  "csr_try_from_rows rows =
    (if length (concat rows) < 2 ^ 32
     then Inr \<lparr>offsets = csr_row_offsets rows, csr_values = concat rows\<rparr> else Inl IntegerOverflow)"
proof -
  have "[0..<Suc (length rows)] = 0 # map Suc [0..<length rows]"
    by (simp add: map_Suc_upt upt_conv_Cons del: upt_Suc)
  then show ?thesis by (simp add: csr_try_from_rows_def csr_rows_loop_eq csr_row_offsets_def del: upt_Suc)
qed

lemma concat_take_le: "length (concat (take k rows)) \<le> length (concat rows)"
  by (metis append_take_drop_id concat_append le_add1 length_append)

lemma sub_slice_concat:
  assumes "r < length rows"
  shows "sub_slice (length (concat (take r rows))) (length (concat (take (Suc r) rows))) (concat rows) = rows ! r"
proof -
  have "concat rows = concat (take r rows) @ rows ! r @ concat (drop (Suc r) rows)"
    using assms by (metis append_assoc append_take_drop_id concat_append concat.simps(2) id_take_nth_drop)
  then show ?thesis using assms by (simp add: sub_slice_def take_Suc_conv_app_nth)
qed

lemma csr_rows_row:
  assumes "csr_try_from_rows rows = Inr c"
  shows "csr_row c r = (if r < length rows then Inr (rows ! r) else Inl IndexOutOfBounds)"
    and "checked_row c r = Inr (if r < length rows then Some (rows ! r) else None)"
proof -
  have small: "length (concat rows) < 2 ^ 32" and c: "c = \<lparr>offsets = csr_row_offsets rows, csr_values = concat rows\<rparr>"
    using assms by (auto simp: csr_try_from_rows_eq split: if_splits)
  have off: "unat (csr_row_offsets rows ! k) = length (concat (take k rows))" if "k \<le> length rows" for k
    using that small concat_take_le [of k rows]
    by (simp add: csr_row_offsets_def unat_word_of_nat del: upt_Suc length_concat)
  have len: "length (csr_row_offsets rows) = Suc (length rows)" by (simp add: csr_row_offsets_def)
  have mono: "length (concat (take r rows)) \<le> length (concat (take (Suc r) rows))" if "r < length rows"
    using that by (simp add: take_Suc_conv_app_nth)
  show "csr_row c r = (if r < length rows then Inr (rows ! r) else Inl IndexOutOfBounds)"
    and "checked_row c r = Inr (if r < length rows then Some (rows ! r) else None)"
    using off mono sub_slice_concat [of r rows] concat_take_le [of "Suc r" rows]
    by (auto simp: csr_row_def checked_row_def c len Let_def assert_or_def simp del: length_concat)
qed

text \<open>
  The contract the users of compressed rows rely on: what was given as rows, or as entries of
  numbered rows, is what the rows return, and the build fails only on what does not fit.
\<close>

locale row_store =
  fixes build :: "'i \<Rightarrow> 'f + 'c" and row :: "'c \<Rightarrow> nat \<Rightarrow> 'b list outcome"
    and lookup :: "'c \<Rightarrow> nat \<Rightarrow> 'b list option outcome"
    and count :: "'i \<Rightarrow> nat" and content :: "'i \<Rightarrow> nat \<Rightarrow> 'b list" and fits :: "'i \<Rightarrow> bool"
  assumes build_fits: "build i = Inr c \<Longrightarrow> fits i"
    and fits_build: "fits i \<Longrightarrow> \<exists>c. build i = Inr c"
    and row_build: "build i = Inr c \<Longrightarrow>
      row c r = (if r < count i then Inr (content i r) else Inl IndexOutOfBounds)"
    and lookup_build: "build i = Inr c \<Longrightarrow> lookup c r = Inr (if r < count i then Some (content i r) else None)"
begin

lemma build_iff: "(\<exists>c. build i = Inr c) \<longleftrightarrow> fits i"
  using build_fits fits_build by blast

lemma stored:
  assumes "fits i"
  shows "\<exists>c. build i = Inr c \<and> (\<forall>r < count i. row c r = Inr (content i r) \<and> lookup c r = Inr (Some (content i r))) \<and>
    (\<forall>r \<ge> count i. lookup c r = Inr None)"
proof -
  obtain c where "build i = Inr c" using fits_build [OF assms] by blast
  then show ?thesis using row_build [of i c] lookup_build [of i c] by auto
qed

lemma lookup_default:
  assumes "build i = Inr c" and "\<And>r. count i \<le> r \<Longrightarrow> content i r = []"
  shows "map_ok (\<lambda>vs. case vs of None \<Rightarrow> [] | Some vs \<Rightarrow> vs) (lookup c r) = Inr (content i r)"
  using lookup_build [OF assms(1)] assms(2) by simp

end

definition entries_fit :: "nat \<times> (nat \<times> 'a) list \<Rightarrow> bool" where
  "entries_fit i \<longleftrightarrow> Suc (fst i) < 2 ^ 64 \<and> (\<forall>e \<in> set (snd i). fst e < fst i) \<and> length (snd i) < 2 ^ 32"

lemma or_panic_eq_Inr_iff [outcome_simps]: "or_panic m = Inr x \<longleftrightarrow> m = Inr x"
  by (simp add: or_panic_def split: sum.splits)

interpretation entry_rows: row_store "\<lambda>(n, es). csr_from_entries n es" csr_row checked_row fst
    "\<lambda>(n, es) r. row_of r es" entries_fit
proof unfold_locales
  fix i :: "nat \<times> (nat \<times> 'a) list" and c :: "'a il_csr" and r
  obtain n es where i: "i = (n, es)" by (cases i)
  show "entries_fit i" if "(case i of (n, es) \<Rightarrow> csr_from_entries n es) = Inr c"
    using that csr_try_from_entries_inv [of n es c] by (simp add: i csr_from_entries_def outcome_simps entries_fit_def)
  show "\<exists>c. (case i of (n, es) \<Rightarrow> csr_from_entries n es) = Inr c" if "entries_fit i"
    using that csr_try_from_entries_ok [of es n] by (auto simp: i csr_from_entries_def outcome_simps entries_fit_def)
  assume "(case i of (n, es) \<Rightarrow> csr_from_entries n es) = Inr c"
  then have "csr_holds n es c"
    using csr_try_from_entries_inv [of n es c] csr_try_from_entries_ok [of es n]
    by (auto simp: i csr_from_entries_def outcome_simps)
  from csr_holds_row [OF this]
  show "csr_row c r = (if r < fst i then Inr ((case i of (n, es) \<Rightarrow> \<lambda>r. row_of r es) r) else Inl IndexOutOfBounds)"
    and "checked_row c r = Inr (if r < fst i then Some ((case i of (n, es) \<Rightarrow> \<lambda>r. row_of r es) r) else None)"
    by (simp_all add: i)
qed

interpretation list_rows: row_store csr_from_rows csr_row checked_row length nth
    "\<lambda>rows. length (concat rows) < 2 ^ 32"
proof unfold_locales
  fix rows :: "'a list list" and c :: "'a il_csr" and r
  show "length (concat rows) < 2 ^ 32" if "csr_from_rows rows = Inr c"
    using that by (simp add: csr_from_rows_def outcome_simps csr_try_from_rows_eq split: if_splits)
  show "\<exists>c. csr_from_rows rows = Inr c" if "length (concat rows) < 2 ^ 32"
    using that by (simp add: csr_from_rows_def outcome_simps csr_try_from_rows_eq)
  assume "csr_from_rows rows = Inr c"
  then show "csr_row c r = (if r < length rows then Inr (rows ! r) else Inl IndexOutOfBounds)"
    and "checked_row c r = Inr (if r < length rows then Some (rows ! r) else None)"
    using csr_rows_row [of rows c r] by (auto simp: csr_from_rows_def outcome_simps)
qed

subsection \<open>The index mapper\<close>

definition kept_below :: "(nat \<Rightarrow> bool) \<Rightarrow> nat \<Rightarrow> nat" where
  "kept_below kept i = card {j. j < i \<and> kept j}"

lemma kept_below_0 [simp]: "kept_below kept 0 = 0"
  by (simp add: kept_below_def)

lemma kept_below_Suc: "kept_below kept (Suc i) = kept_below kept i + (if kept i then 1 else 0)"
proof -
  have "{j. j < Suc i \<and> kept j} = (if kept i then insert i {j. j < i \<and> kept j} else {j. j < i \<and> kept j})"
    by (auto simp: less_Suc_eq)
  then show ?thesis by (simp add: kept_below_def)
qed

lemma kept_below_le: "kept_below kept i \<le> i"
  by (induction i) (auto simp: kept_below_Suc)

lemma kept_below_mono: "i \<le> j \<Longrightarrow> kept_below kept i \<le> kept_below kept j"
  by (induction j) (auto simp: kept_below_Suc le_Suc_eq)

lemma kept_indices_eq:
  "k \<le> n \<Longrightarrow> kept_indices (map (kept_below kept) [0..<Suc k]) kept [k..<n] = map (kept_below kept) [0..<Suc n]"
proof (induction "n - k" arbitrary: k)
  case (Suc d)
  then have "[k..<n] = k # [Suc k..<n]" by (simp add: upt_conv_Cons)
  moreover have "map (kept_below kept) [0..<Suc k] @ [map (kept_below kept) [0..<Suc k] ! k + (if kept k then 1 else 0)]
      = map (kept_below kept) [0..<Suc (Suc k)]"
    by (simp add: kept_below_Suc nth_append)
  ultimately show ?case using Suc(1) [of "Suc k"] Suc(2,3) by (simp del: upt_Suc)
qed simp

lemma indices_from_kept: "indices (mapper_from_kept n kept) = map (kept_below kept) [0..<Suc n]"
  using kept_indices_eq [of 0 n kept] by (simp add: mapper_from_kept_def)

lemma source_len_from_kept [simp]: "source_len (mapper_from_kept n kept) = n"
  by (simp add: source_len_def indices_from_kept)

lemma map_range_from_kept:
  assumes "verify_bounds r n = Inr ()"
  shows "\<exists>r'. checked_map_range (mapper_from_kept n kept) r = Inr r' \<and>
    map_range (mapper_from_kept n kept) r = Inr r' \<and>
    start_of r' = kept_below kept (start_of r) \<and> end_of r' = kept_below kept (end_of r)"
proof -
  have r: "start_of r \<le> end_of r" "end_of r \<le> n" using assms by (auto simp: verify_bounds_ok)
  have "kept_below kept (end_of r) < 2 ^ 32"
    using kept_below_le [of kept "end_of r"] unat_lt_pow [of "r_end r"] by (simp add: end_of_def)
  then obtain r' where r': "range_new (kept_below kept (start_of r)) (kept_below kept (end_of r)) = Inr r'"
    using range_new_ok kept_below_mono [OF r(1)] by blast
  show ?thesis using r r' range_new_inv [OF r'] assms
    by (auto simp: checked_map_range_def map_range_def or_panic_def indices_from_kept simp del: upt_Suc)
qed

lemma length_nths_prefix: "e \<le> length xs \<Longrightarrow> length (nths (take e xs) {i. kept i}) = kept_below kept e"
  by (simp add: length_nths kept_below_def)

lemma nths_sub_slice:
  assumes "s \<le> e" "e \<le> length xs"
  shows "sub_slice (kept_below kept s) (kept_below kept e) (nths xs {i. kept i}) =
    nths (sub_slice s e xs) {i. kept (s + i)}"
proof -
  let ?K = "{i. kept i}"
  have split: "nths xs ?K = nths (take e xs) ?K @ nths (drop e xs) {i. kept (i + e)}"
    using assms nths_append [of "take e xs" "drop e xs" ?K] by simp
  have "take e xs = take s xs @ sub_slice s e xs"
    using assms by (simp add: sub_slice_def flip: take_add)
  then have "nths (take e xs) ?K = nths (take s xs) ?K @ nths (sub_slice s e xs) {i. kept (s + i)}"
    using assms nths_append [of "take s xs" "sub_slice s e xs" ?K] by (simp add: add.commute)
  moreover have "length (nths (take e xs) ?K) = kept_below kept e" "length (nths (take s xs) ?K) = kept_below kept s"
    using assms by (simp_all add: length_nths_prefix)
  ultimately show ?thesis
    unfolding split by (simp add: sub_slice_def)
qed

text \<open>
  C32: Dropping operations and renumbering agree. When the operations that \<open>kept\<close> rejects are
  dropped from \<open>xs\<close>, every range of \<open>xs\<close> is mapped to a range of the remaining list that holds
  exactly the kept operations of the old range, in their order.
\<close>

theorem mapper_compacts:
  assumes "verify_bounds r (length xs) = Inr ()"
  shows "\<exists>r'. checked_map_range (mapper_from_kept (length xs) kept) r = Inr r' \<and>
    range_slice r' (nths xs {i. kept i}) = Inr (nths (sub_slice (start_of r) (end_of r) xs) {i. kept (start_of r + i)})"
proof -
  have r: "start_of r \<le> end_of r" "end_of r \<le> length xs" using assms by (auto simp: verify_bounds_ok)
  obtain r' where r': "checked_map_range (mapper_from_kept (length xs) kept) r = Inr r'"
      "start_of r' = kept_below kept (start_of r)" "end_of r' = kept_below kept (end_of r)"
    using map_range_from_kept [OF assms] by blast
  have "kept_below kept (length xs) = length (nths xs {i. kept i})"
    using length_nths_prefix [of "length xs" xs kept] by simp
  then have "end_of r' \<le> length (nths xs {i. kept i})" using r'(3) kept_below_mono [OF r(2)] by metis
  then show ?thesis using r r' kept_below_mono [OF r(1), of kept] nths_sub_slice [OF r, of kept]
    by (auto simp: range_slice_def)
qed

theorem mapper_compacts_witness:
  "verify_bounds \<lparr>r_start = 1, r_end = 4\<rparr> (length ''abcde'') = Inr () \<and>
   (\<exists>r'. checked_map_range (mapper_from_kept (length ''abcde'') (\<lambda>i. i \<noteq> 0 \<and> i \<noteq> 2)) \<lparr>r_start = 1, r_end = 4\<rparr> = Inr r' \<and>
      range_slice r' ''bde'' = Inr ''bd'')"
  using mapper_compacts [of "\<lparr>r_start = 1, r_end = 4\<rparr>" "''abcde''" "\<lambda>i. i \<noteq> 0 \<and> i \<noteq> 2"]
  by (simp add: verify_bounds_def start_of_def end_of_def nths_Cons sub_slice_def)

subsection \<open>Remapping ranges\<close>

definition covers :: "il_index_range list \<Rightarrow> nat set" where
  "covers rs = (\<Union>r \<in> set rs. {start_of r..<end_of r})"

definition apart :: "il_index_range \<Rightarrow> il_index_range \<Rightarrow> bool" where
  "apart a b \<longleftrightarrow> end_of a \<le> start_of b \<or> end_of b \<le> start_of a"

lemma covers_simps [simp]: "covers [] = {}" "covers (r # rs) = {start_of r..<end_of r} \<union> covers rs"
  "covers (rev rs) = covers rs"
  by (auto simp: covers_def)

lemma sorted_wrt_sym_perm:
  assumes "mset xs = mset ys" "symp P" "sorted_wrt P xs" shows "sorted_wrt P ys"
  using assms
proof (induction ys arbitrary: xs)
  case (Cons y ys)
  then have "y \<in> set xs" by (metis list.set_intros(1) set_mset_mset)
  then obtain a b where xs: "xs = a @ y # b" by (meson split_list)
  then have ab: "mset (a @ b) = mset ys" "sorted_wrt P (a @ b)" using Cons.prems by (auto simp: sorted_wrt_append)
  have "P y z" if "z \<in> set ys" for z
    using that mset_eq_setD [OF ab(1)] Cons.prems(2,3) by (auto simp: xs sorted_wrt_append dest: sympD)
  then show ?case using Cons.IH [OF ab(1) Cons.prems(2) ab(2)] by simp
qed simp

lemma ordered_ranges_apart: "ordered_ranges lo rs \<Longrightarrow> sorted_wrt apart rs"
proof (induction rs arbitrary: lo)
  case (Cons r rs)
  then show ?case using ordered_ranges_set [of "end_of r" rs] by (auto simp: apart_def)
qed simp

lemma apart_ordered_ranges:
  "sorted (map start_of rs) \<Longrightarrow> sorted_wrt apart rs \<Longrightarrow> \<forall>r \<in> set rs. start_of r < end_of r \<Longrightarrow>
   \<forall>r \<in> set rs. lo \<le> start_of r \<Longrightarrow> ordered_ranges lo rs"
proof (induction rs arbitrary: lo)
  case (Cons r rs)
  have "end_of r \<le> start_of q" if "q \<in> set rs" for q using Cons.prems that by (fastforce simp: apart_def)
  then show ?case using Cons by simp
qed simp

lemma ordered_perm_iff:
  assumes "\<forall>r \<in> set rs. start_of r < end_of r" "mset rs' = mset rs" "sorted (map start_of rs')"
  shows "ordered_ranges 0 rs' \<longleftrightarrow> sorted_wrt apart rs"
proof -
  have "symp apart" by (auto simp: symp_def apart_def)
  then have "sorted_wrt apart rs' \<longleftrightarrow> sorted_wrt apart rs"
    using sorted_wrt_sym_perm assms(2) by metis
  then show ?thesis
    using ordered_ranges_apart apart_ordered_ranges [of rs' 0] assms mset_eq_setD [OF assms(2)] by auto
qed

lemma ordered_sort_iff:
  "\<forall>r \<in> set rs. start_of r < end_of r \<Longrightarrow> ordered_ranges 0 (sort_key start_of rs) \<longleftrightarrow> sorted_wrt apart rs"
  by (rule ordered_perm_iff) simp_all

lemma range_is_empty_iff: "range_is_empty r \<longleftrightarrow> start_of r = end_of r"
  by (simp add: range_is_empty_def start_of_def end_of_def word_unat_eq_iff)

lemma checked_slice_eq:
  "checked_slice r xs = and_then (lift_error (verify_bounds r (length xs))) (\<lambda>_. Inr (sub_slice (start_of r) (end_of r) xs))"
  by (auto simp: checked_slice_def range_slice_def verify_bounds_def)

definition gapped :: "il_index_range list \<Rightarrow> bool" where
  "gapped rs \<longleftrightarrow> sorted_wrt (\<lambda>a b. end_of a < start_of b) rs \<and> (\<forall>r \<in> set rs. start_of r < end_of r)"

lemma gapped_rev_Cons:
  "gapped (rev (p # rs)) \<longleftrightarrow> gapped (rev rs) \<and> (\<forall>q \<in> set rs. end_of q < start_of p) \<and> start_of p < end_of p"
  by (auto simp: gapped_def sorted_wrt_append)

lemma range_new_join:
  assumes "s \<le> end_of d"
  shows "\<exists>j. range_new s (end_of d) = Inr j \<and> start_of j = s \<and> end_of j = end_of d"
proof -
  have "end_of d < 2 ^ 32" using unat_lt_pow [of "r_end d"] by (simp add: end_of_def)
  then obtain j where "range_new s (end_of d) = Inr j" using range_new_ok assms by blast
  then show ?thesis using range_new_inv by blast
qed

lemma coalesce_ok:
  assumes "gapped (rev ret)" "ordered_ranges (case ret of [] \<Rightarrow> 0 | p # _ \<Rightarrow> end_of p) ds"
    "\<forall>r \<in> set ds. start_of r < end_of r"
  shows "\<exists>out. coalesce ret ds = Inr out \<and> gapped out \<and> covers out = covers ret \<union> covers ds"
  using assms
proof (induction ret ds rule: coalesce.induct)
  case (2 d ds)
  then show ?case by (auto simp: gapped_def)
next
  case (3 p ret d ds)
  have p: "gapped (rev ret)" "\<forall>q \<in> set ret. end_of q < start_of p" "start_of p < end_of p"
    using "3.prems"(1) unfolding gapped_rev_Cons by auto
  have d: "end_of p \<le> start_of d" "start_of d < end_of d" "ordered_ranges (end_of d) ds"
    using "3.prems" by auto
  show ?case
  proof (cases "end_of p = start_of d")
    case True
    obtain j where j: "range_new (start_of p) (end_of d) = Inr j" "start_of j = start_of p" "end_of j = end_of d"
      using range_new_join [of "start_of p" d] p(3) d True by auto
    have "gapped (rev (j # ret))" unfolding gapped_rev_Cons using p d j True by auto
    then obtain out where "coalesce (j # ret) ds = Inr out" "gapped out" "covers out = covers (j # ret) \<union> covers ds"
      using "3.IH"(1) [of j] True d j "3.prems"(3) by auto
    moreover have "{start_of p..<end_of d} = {start_of p..<end_of p} \<union> {start_of d..<end_of d}"
      using p(3) d True by (simp add: ivl_disj_un_two(3))
    ultimately show ?thesis using True j by auto
  next
    case False
    then have "gapped (rev (d # p # ret))" using p d by (auto simp: gapped_rev_Cons simp del: rev.simps)
    then show ?thesis using "3.IH"(2) False d "3.prems"(3) by auto
  qed
qed auto

lemma coalesce_error:
  assumes "coalesce ret ds = Inl e" "\<forall>r \<in> set ret \<union> set ds. start_of r < end_of r"
  shows "\<exists>s t. e = OverlappingRanges s t"
  using assms
proof (induction ret ds rule: coalesce.induct)
  case (3 p ret d ds)
  then show ?case using range_new_join [of "start_of p" d]
    by (cases "start_of d < end_of p"; cases "end_of p = start_of d") auto
qed auto

lemma coalesce_inv:
  assumes "coalesce ret ds = Inr out" "\<forall>r \<in> set ds. start_of r < end_of r"
  shows "ordered_ranges (case ret of [] \<Rightarrow> 0 | p # _ \<Rightarrow> end_of p) ds"
  using assms
proof (induction ret ds rule: coalesce.induct)
  case (3 p ret d ds)
  show ?case
  proof (cases "end_of p = start_of d")
    case True
    then obtain j where "range_new (start_of p) (end_of d) = Inr j" "coalesce (j # ret) ds = Inr out"
      using "3.prems" by (auto simp: outcome_simps)
    then show ?thesis using "3.IH"(1) [of j] True "3.prems"(2) range_new_inv [of "start_of p" "end_of d" j] by auto
  next
    case False
    then show ?thesis using "3.IH"(2) "3.prems" by (auto split: if_splits)
  qed
qed auto

lemma remap_into_eq:
  assumes "verify_bounds source (length (ranges m)) = Inr ()"
  shows "remap_into m source = lift_error (coalesce [] (sort_key start_of
    (filter (\<lambda>r. \<not> range_is_empty r) (sub_slice (start_of source) (end_of source) (ranges m)))))"
  using assms by (simp add: remap_into_def range_slice_def) (simp add: verify_bounds_ok)

text \<open>
  C31: \<open>remap_into\<close> replaces a range of old indices by the ranges they were moved to. Given
  well-formed stored ranges it succeeds exactly when the nonempty ones do not overlap; then its
  result is ascending, with a gap between neighbours (touching ranges have been joined), and
  covers exactly the indices the stored ranges cover.
\<close>

theorem remap_into_correct:
  assumes "verify_bounds source (length (ranges m)) = Inr ()"
    and "\<forall>r \<in> set (ranges m). start_of r \<le> end_of r"
    and "moved = filter (\<lambda>r. start_of r \<noteq> end_of r) (sub_slice (start_of source) (end_of source) (ranges m))"
  shows "(if sorted_wrt apart moved
          then \<exists>ds. remap_into m source = Inr ds \<and> gapped ds \<and> covers ds = covers moved
          else \<exists>s e. remap_into m source = Inl (Error (OverlappingRanges s e)))"
proof -
  have moved: "moved = filter (\<lambda>r. \<not> range_is_empty r) (sub_slice (start_of source) (end_of source) (ranges m))"
    using assms(3) by (simp add: range_is_empty_iff)
  have ne: "\<forall>r \<in> set moved. start_of r < end_of r"
    using assms(2,3) by (auto simp: sub_slice_def dest!: in_set_takeD in_set_dropD intro: le_neq_trans)
  have remap: "remap_into m source = lift_error (coalesce [] (sort_key start_of moved))"
    using remap_into_eq [OF assms(1)] moved by simp
  have cov: "covers (sort_key start_of moved) = covers moved" by (simp add: covers_def)
  show ?thesis
  proof (cases "sorted_wrt apart moved")
    case True
    then show ?thesis using coalesce_ok [of "[]" "sort_key start_of moved"] ne ordered_sort_iff [OF ne] remap cov
      by (auto simp: gapped_def)
  next
    case False
    have "coalesce [] (sort_key start_of moved) \<noteq> Inr out" for out
      using coalesce_inv [of "[]" "sort_key start_of moved" out] ordered_sort_iff [OF ne] False ne by auto
    then show ?thesis using False remap coalesce_error [of "[]" "sort_key start_of moved"] ne
      by (cases "coalesce [] (sort_key start_of moved)") auto
  qed
qed

definition moved_sample :: il_index_range_map where
  "moved_sample = \<lparr>ranges = [\<lparr>r_start = 4, r_end = 6\<rparr>, \<lparr>r_start = 0, r_end = 0\<rparr>, \<lparr>r_start = 2, r_end = 4\<rparr>,
     \<lparr>r_start = 9, r_end = 10\<rparr>]\<rparr>"

lemma moved_sample_slice:
  "filter (\<lambda>r. start_of r \<noteq> end_of r) (sub_slice 0 4 (ranges moved_sample)) =
     [\<lparr>r_start = 4, r_end = 6\<rparr>, \<lparr>r_start = 2, r_end = 4\<rparr>, \<lparr>r_start = 9, r_end = 10\<rparr>]"
  by (simp add: moved_sample_def sub_slice_def start_of_def end_of_def)

theorem remap_into_correct_witness:
  "\<exists>ds. remap_into moved_sample \<lparr>r_start = 0, r_end = 4\<rparr> = Inr ds \<and> gapped ds \<and> covers ds = {2..<6} \<union> {9}"
proof -
  have "{4..<6} \<union> {2..<4} \<union> {9..<10} = {2..<6} \<union> {9 :: nat}" by auto
  then show ?thesis
    using remap_into_correct [of "\<lparr>r_start = 0, r_end = 4\<rparr>" moved_sample, OF _ _ refl] moved_sample_slice
    by (auto simp: verify_bounds_def start_of_def end_of_def moved_sample_def apart_def Un_assoc)
qed

subsection \<open>Properties of spans and compressed rows\<close>

text \<open>
  On a span list the verifier accepts, the binary search over destinations finds a node's span:
  it returns \<open>Some\<close> of exactly the span whose destination holds the node, and \<open>None\<close> when none does.
\<close>

theorem source_span_find_correct:
  assumes "source_spans_verify spans node_count = Inr ()"
  shows "source_span_find spans node = Some s \<longleftrightarrow> s \<in> set spans \<and> contains_index (s_destination s) node"
  using assms find_destination_span_iff [of s_destination spans]
  by (simp add: source_span_find_def source_spans_verify_def source_spans_verify_from_iff)

theorem source_span_find_correct_witness:
  "source_span_find
     [\<lparr>s_destination = \<lparr>r_start = 0, r_end = 2\<rparr>, s_address = 4096 :: nat, first_source_index = 0, source_count = 2\<rparr>,
      \<lparr>s_destination = \<lparr>r_start = 2, r_end = 2\<rparr>, s_address = 4100, first_source_index = 0, source_count = 1\<rparr>,
      \<lparr>s_destination = \<lparr>r_start = 5, r_end = 7\<rparr>, s_address = 4104, first_source_index = 0, source_count = 1\<rparr>] 6
   = Some \<lparr>s_destination = \<lparr>r_start = 5, r_end = 7\<rparr>, s_address = 4104, first_source_index = 0, source_count = 1\<rparr>"
  by (subst source_span_find_correct [where node_count = 7])
    (auto simp: source_spans_verify_def verify_bounds_def contains_index_def start_of_def end_of_def)

text \<open>
  C17: The counting construction of compressed rows. \<open>try_from_entries\<close> succeeds exactly when every
  row number is below the row count, the entries number less than two to the 32 and the row count
  leaves room for the end offset; row \<open>r\<close> of the result then lists the values entered for \<open>r\<close>, in
  the order of the entries, and rows past the count are absent. No index of the placement loop is
  out of bounds and no offset overflows.
\<close>

theorem csr_try_from_entries_correct:
  "(if Suc n < 2 ^ 64 \<and> (\<forall>e \<in> set es. fst e < n) \<and> length es < 2 ^ 32
    then \<exists>c. csr_try_from_entries n es = Inr c \<and> csr_len c = n \<and>
      (\<forall>r. checked_row c r = Inr (if r < n then Some (map snd (filter (\<lambda>e. fst e = r) es)) else None))
    else \<exists>e. csr_try_from_entries n es = Inl (Error e))"
proof (cases "Suc n < 2 ^ 64 \<and> (\<forall>e \<in> set es. fst e < n) \<and> length es < 2 ^ 32")
  case True
  then obtain c where "csr_try_from_entries n es = Inr c" "csr_holds n es c"
    using csr_try_from_entries_ok by blast
  then show ?thesis using True csr_holds_row [of n es c] by (simp add: row_of_def)
next
  case False
  then show ?thesis using csr_try_from_entries_inv [of n es] failure.exhaust
    by (metis old.sum.exhaust)
qed

theorem csr_try_from_entries_correct_witness:
  "\<exists>c. csr_try_from_entries 3 [(2, CHR ''a''), (0, CHR ''b''), (2, CHR ''c'')] = Inr c \<and> csr_len c = 3 \<and>
     checked_row c 0 = Inr (Some ''b'') \<and> checked_row c 1 = Inr (Some []) \<and> checked_row c 2 = Inr (Some ''ac'') \<and>
     checked_row c 3 = Inr None"
  using csr_try_from_entries_correct [of 3 "[(2, CHR ''a''), (0, CHR ''b''), (2, CHR ''c'')]"] by auto

end
