(* ===== verification/IlGraph.thy ===== *)
theory IlGraph
  imports IlPool
begin

text \<open>
  The control flow graph the intermediate languages share, from \<open>fugue-core/src/il/common/graph.rs\<close>:
  blocks with ranges into the operation and successor pools, the graph's queries and verifier, the
  builder, and the predecessor index. \<open>verify_structure\<close> is from \<open>artefact.rs\<close>.

  Flag sets are words. A failed \<open>debug_assert!\<close> is the panic \<open>Panicked\<close>, as in builds with debug
  assertions. The builder's methods return the updated builder with their result. The type of
  source addresses is a parameter.
\<close>

section \<open>Flags and blocks\<close>

definition contains_flags :: "'w::len word \<Rightarrow> 'w word \<Rightarrow> bool" where
  "contains_flags flags other \<longleftrightarrow> flags AND other = other"

type_synonym il_block_properties = u16

definition ENTRY :: il_block_properties where "ENTRY = 1"

definition EXIT :: il_block_properties where "EXIT = 2"

type_synonym il_edge_kinds = u8

definition COMPUTED :: il_edge_kinds where "COMPUTED = 1"

definition FALL_THROUGH :: il_edge_kinds where "FALL_THROUGH = 2"

definition TAKEN :: il_edge_kinds where "TAKEN = 4"

definition UNCONDITIONAL :: il_edge_kinds where "UNCONDITIONAL = 8"

definition SINGULAR :: il_edge_kinds where
  "SINGULAR = FALL_THROUGH OR TAKEN OR UNCONDITIONAL"

datatype flow_kind =
    Branch | Call | CBranch | Fall | IBranch | ICall | Return | ServiceCall | SwitchBranch
  | SwitchCall | TailCallBranch

definition from_flow :: "flow_kind \<Rightarrow> il_edge_kinds option" where
  "from_flow kind =
     (case kind of
        Branch \<Rightarrow> Some UNCONDITIONAL
      | TailCallBranch \<Rightarrow> Some UNCONDITIONAL
      | CBranch \<Rightarrow> Some TAKEN
      | Fall \<Rightarrow> Some FALL_THROUGH
      | IBranch \<Rightarrow> Some COMPUTED
      | SwitchBranch \<Rightarrow> Some COMPUTED
      | Call \<Rightarrow> None
      | ICall \<Rightarrow> None
      | Return \<Rightarrow> None
      | ServiceCall \<Rightarrow> None
      | SwitchCall \<Rightarrow> None)"

definition is_computed :: "il_edge_kinds \<Rightarrow> bool" where
  "is_computed k = contains_flags k COMPUTED"

definition is_fall_through :: "il_edge_kinds \<Rightarrow> bool" where
  "is_fall_through k = contains_flags k FALL_THROUGH"

definition is_taken :: "il_edge_kinds \<Rightarrow> bool" where
  "is_taken k = contains_flags k TAKEN"

record il_block =
  block_ops :: il_index_range
  block_successors :: il_index_range
  block_properties :: il_block_properties

definition is_entry :: "il_block \<Rightarrow> bool" where
  "is_entry b = contains_flags (block_properties b) ENTRY"

definition is_exit :: "il_block \<Rightarrow> bool" where
  "is_exit b = contains_flags (block_properties b) EXIT"

section \<open>The graph\<close>

type_synonym il_block_id = il_id
type_synonym il_op_id = il_id

record 'a il_graph =
  g_blocks :: "il_block list"
  g_successors :: "il_block_id list"
  g_successor_kinds :: "il_edge_kinds list"
  g_block_sources :: "'a list"

definition graph_new ::
  "il_block list \<Rightarrow> il_block_id list \<Rightarrow> il_edge_kinds list \<Rightarrow> 'a il_graph outcome" where
  "graph_new blocks successors kinds =
     and_then (assert_or Panicked (list_all (\<lambda>b. end_of (block_successors b) \<le> length successors) blocks)) (\<lambda>_.
     and_then (assert_or Panicked (list_all (\<lambda>s. id_index s < length blocks) successors)) (\<lambda>_.
     and_then (assert_or Panicked (length successors = length kinds)) (\<lambda>_.
       Inr \<lparr>g_blocks = blocks, g_successors = successors, g_successor_kinds = kinds, g_block_sources = []\<rparr>)))"

definition set_block_sources :: "'a il_graph \<Rightarrow> 'a list \<Rightarrow> 'a il_graph outcome" where
  "set_block_sources g sources =
     and_then (assert_or Panicked (length sources = length (g_blocks g))) (\<lambda>_.
       Inr (g\<lparr>g_block_sources := sources\<rparr>))"

definition blocks_with_sources :: "'a il_graph \<Rightarrow> (il_block_id \<times> 'a) list outcome" where
  "blocks_with_sources g = with_ids 0 (g_block_sources g)"

definition block_source :: "'a il_graph \<Rightarrow> il_block_id \<Rightarrow> 'a option" where
  "block_source g b =
     (if id_index b < length (g_block_sources g) then Some (g_block_sources g ! id_index b) else None)"

definition block_for_op :: "'a il_graph \<Rightarrow> il_op_id \<Rightarrow> il_block_id option" where
  "block_for_op g operation =
     (case position (\<lambda>b. contains_index (block_ops b) (id_index operation)) (g_blocks g) of
        None \<Rightarrow> None
      | Some index \<Rightarrow> (case try_from_index index of Inl _ \<Rightarrow> None | Inr b \<Rightarrow> Some b))"

definition get_block :: "il_block list \<Rightarrow> il_block_id \<Rightarrow> il_block option" where
  "get_block blocks b = (if id_index b < length blocks then Some (blocks ! id_index b) else None)"

definition ops_for_block :: "'a il_graph \<Rightarrow> il_block_id \<Rightarrow> 'o list \<Rightarrow> (il_op_id \<times> 'o) list outcome" where
  "ops_for_block g block operations =
     (case get_block (g_blocks g) block of
        None \<Rightarrow> Inr []
      | Some b \<Rightarrow> and_then (range_slice (block_ops b) operations) (with_ids (start_of (block_ops b))))"

definition successors_for :: "'a il_graph \<Rightarrow> il_block_id \<Rightarrow> il_block_id list outcome" where
  "successors_for g block =
     (case get_block (g_blocks g) block of
        None \<Rightarrow> Inr []
      | Some b \<Rightarrow> range_slice (block_successors b) (g_successors g))"

definition successor_kinds_for :: "'a il_graph \<Rightarrow> il_block_id \<Rightarrow> il_edge_kinds list outcome" where
  "successor_kinds_for g block =
     (case get_block (g_blocks g) block of
        None \<Rightarrow> Inr []
      | Some b \<Rightarrow> range_slice (block_successors b) (g_successor_kinds g))"

definition set_op_ranges :: "'a il_graph \<Rightarrow> il_index_range list \<Rightarrow> 'a il_graph il_result" where
  "set_op_ranges g rs =
     (if length rs \<noteq> length (g_blocks g)
      then Inl (GraphBlockCountMismatch (length (g_blocks g)) (length rs))
      else Inr (g\<lparr>g_blocks := map (\<lambda>(b, r). b\<lparr>block_ops := r\<rparr>) (zip (g_blocks g) rs)\<rparr>))"

fun op_blocks_mark :: "il_block_id option list \<Rightarrow> il_block_id \<Rightarrow> nat list \<Rightarrow> il_block_id option list" where
  "op_blocks_mark acc b [] = acc"
| "op_blocks_mark acc b (operation # ops) =
     op_blocks_mark (if operation < length acc then acc[operation := Some b] else acc) b ops"

fun op_blocks_loop :: "il_block_id option list \<Rightarrow> nat \<Rightarrow> il_block list \<Rightarrow> il_block_id option list outcome" where
  "op_blocks_loop acc index [] = Inr acc"
| "op_blocks_loop acc index (block # blocks) =
     and_then (or_panic (try_from_index index)) (\<lambda>b.
       op_blocks_loop (op_blocks_mark acc b [start_of (block_ops block)..<end_of (block_ops block)]) (Suc index) blocks)"

definition op_blocks :: "'a il_graph \<Rightarrow> nat \<Rightarrow> il_block_id option list outcome" where
  "op_blocks g operation_count = op_blocks_loop (replicate operation_count None) 0 (g_blocks g)"

definition remap_op_ranges :: "'a il_graph \<Rightarrow> il_index_mapper \<Rightarrow> il_fail + 'a il_graph" where
  "remap_op_ranges g operation_map =
     and_then (lift_error (collect_ok (\<lambda>b. checked_map_range operation_map (block_ops b)) (g_blocks g))) (\<lambda>_.
     and_then (lift_panic (collect_ok
         (\<lambda>b. map_ok (\<lambda>r. b\<lparr>block_ops := r\<rparr>) (map_range operation_map (block_ops b))) (g_blocks g))) (\<lambda>blocks.
       Inr (g\<lparr>g_blocks := blocks\<rparr>)))"

definition entry_block :: "'a il_graph \<Rightarrow> il_block_id option outcome" where
  "entry_block g =
     (if g_blocks g = [] then Inr None
      else let index = (case position is_entry (g_blocks g) of None \<Rightarrow> 0 | Some i \<Rightarrow> i)
           in map_ok Some (or_panic (try_from_index index)))"

subsection \<open>The verifier\<close>

definition into_structure :: "il_fail + 'b \<Rightarrow> structure_error failure + 'b" where
  "into_structure m =
     (case m of Inl (Error e) \<Rightarrow> Inl (Error (StructureIl e)) | Inl (Panic p) \<Rightarrow> Inl (Panic p) | Inr x \<Rightarrow> Inr x)"

fun duplicate_in :: "il_block_id list \<Rightarrow> il_block_id list \<Rightarrow> il_block_id option" where
  "duplicate_in before [] = None"
| "duplicate_in before (s # ss) = (if s \<in> set before then Some s else duplicate_in (before @ [s]) ss)"

definition verify_successors :: "'a il_graph \<Rightarrow> il_block \<Rightarrow> il_block_id \<Rightarrow> structure_error failure + unit" where
  "verify_successors g block block_id =
     and_then (into_structure (checked_slice (block_successors block) (g_successors g))) (\<lambda>ss.
       case duplicate_in [] ss of
         Some s \<Rightarrow> Inl (Error (DuplicateSuccessor block_id s))
       | None \<Rightarrow> Inr ())"

fun verify_targets :: "nat \<Rightarrow> il_block_id list \<Rightarrow> il_fail + unit" where
  "verify_targets n [] = Inr ()"
| "verify_targets n (s # ss) =
     (if n \<le> id_index s then Inl (Error (RangeOutOfBounds (id_index s) n)) else verify_targets n ss)"

fun verify_blocks :: "'a il_graph \<Rightarrow> nat \<Rightarrow> il_block list \<Rightarrow> (il_index_range \<times> il_block_id) list \<Rightarrow>
    structure_error failure + (il_index_range \<times> il_block_id) list" where
  "verify_blocks g index [] op_ranges = Inr op_ranges"
| "verify_blocks g index (block # blocks) op_ranges =
     and_then (into_structure (lift_error (try_from_index index))) (\<lambda>block_id.
     and_then (into_structure (lift_error (verify_bounds (block_ops block) (2 ^ 64 - 1)))) (\<lambda>_.
     and_then (verify_successors g block block_id) (\<lambda>_.
       let op_ranges = (if range_is_empty (block_ops block) then op_ranges else op_ranges @ [(block_ops block, block_id)]) in
       and_then (into_structure (checked_slice (block_successors block) (g_successors g))) (\<lambda>ss.
       and_then (into_structure (verify_targets (length (g_blocks g)) ss)) (\<lambda>_.
         verify_blocks g (Suc index) blocks op_ranges)))))"

fun verify_disjoint_ops :: "nat \<Rightarrow> (il_index_range \<times> il_block_id) list \<Rightarrow> structure_error failure + unit" where
  "verify_disjoint_ops previous_end [] = Inr ()"
| "verify_disjoint_ops previous_end ((ops, block_id) # rest) =
     (if start_of ops < previous_end then Inl (Error (OverlappingBlockOps block_id (start_of ops)))
      else verify_disjoint_ops (end_of ops) rest)"

definition graph_verify :: "'a il_graph \<Rightarrow> structure_error failure + unit" where
  "graph_verify g =
     and_then (verify_blocks g 0 (g_blocks g) []) (\<lambda>op_ranges.
     and_then (verify_disjoint_ops 0 (sort_key (\<lambda>(r, _). start_of r) op_ranges)) (\<lambda>_.
       if length (g_successor_kinds g) \<noteq> length (g_successors g)
       then Inl (Error (EdgeKindCount (length (g_successors g)) (length (g_successor_kinds g))))
       else if g_block_sources g \<noteq> [] \<and> length (g_block_sources g) \<noteq> length (g_blocks g)
       then Inl (Error (BlockSourceCount (length (g_blocks g)) (length (g_block_sources g))))
       else Inr ()))"

definition verify_node_bounds :: "'a il_graph \<Rightarrow> nat \<Rightarrow> structure_error failure + unit" where
  "verify_node_bounds g node_count =
     map_ok (\<lambda>_. ()) (collect_ok
       (\<lambda>b. into_structure (lift_error (verify_bounds (block_ops b) node_count))) (g_blocks g))"

definition verify_structure ::
  "'a il_graph \<Rightarrow> 'a source_span list \<Rightarrow> parent_span list option \<Rightarrow> nat \<Rightarrow> structure_error failure + unit" where
  "verify_structure g source_spans parent_spans node_count =
     and_then (graph_verify g) (\<lambda>_.
     and_then (verify_node_bounds g node_count) (\<lambda>_.
     and_then (lift_error (source_spans_verify source_spans node_count)) (\<lambda>_.
       case parent_spans of
         None \<Rightarrow> Inr ()
       | Some spans \<Rightarrow> lift_error (parent_spans_verify spans node_count))))"

section \<open>The builder\<close>

record builder_block =
  bb_operations :: il_index_range
  bb_properties :: il_block_properties
  bb_successors :: "(il_block_id \<times> il_edge_kinds) list"

record 'a graph_builder =
  gb_blocks :: "builder_block list"
  gb_sources :: "'a list option"

definition builder_new :: "'a graph_builder" where
  "builder_new = \<lparr>gb_blocks = [], gb_sources = None\<rparr>"

definition try_push_block :: "'a graph_builder \<Rightarrow> il_index_range \<Rightarrow> il_block_properties \<Rightarrow>
    'a graph_builder \<times> il_block_id il_result" where
  "try_push_block gb operations properties =
     (case try_from_index (length (gb_blocks gb)) of
        Inl e \<Rightarrow> (gb, Inl e)
      | Inr b \<Rightarrow>
          (gb\<lparr>gb_blocks := gb_blocks gb @
             [\<lparr>bb_operations = operations, bb_properties = properties, bb_successors = []\<rparr>]\<rparr>, Inr b))"

definition push_block :: "'a graph_builder \<Rightarrow> il_index_range \<Rightarrow> il_block_properties \<Rightarrow>
    'a graph_builder \<times> il_block_id il_result" where
  "push_block gb operations properties =
     (if gb_sources gb \<noteq> None then (gb, Inl InconsistentBlockSources)
      else try_push_block gb operations properties)"

definition push_block_with_source :: "'a graph_builder \<Rightarrow> il_index_range \<Rightarrow> il_block_properties \<Rightarrow> 'a \<Rightarrow>
    'a graph_builder \<times> (il_fail + il_block_id)" where
  "push_block_with_source gb operations properties source =
     (if gb_sources gb = None \<and> gb_blocks gb \<noteq> [] then (gb, Inl (Error InconsistentBlockSources))
      else
        let gb = (if gb_sources gb = None then gb\<lparr>gb_sources := Some []\<rparr> else gb);
            (gb, result) = try_push_block gb operations properties
        in case result of
             Inl e \<Rightarrow> (gb, Inl (Error e))
           | Inr b \<Rightarrow>
               (case gb_sources gb of
                  None \<Rightarrow> (gb, Inl (Panic ExpectFailed))
                | Some sources \<Rightarrow> (gb\<lparr>gb_sources := Some (sources @ [source])\<rparr>, Inr b)))"

fun merge_successor :: "(il_block_id \<times> il_edge_kinds) list \<Rightarrow> il_block_id \<Rightarrow> il_edge_kinds \<Rightarrow>
    (il_block_id \<times> il_edge_kinds) list" where
  "merge_successor [] successor kinds = [(successor, kinds)]"
| "merge_successor ((target, existing) # rest) successor kinds =
     (if target = successor then (target, existing OR kinds) # rest
      else (target, existing) # merge_successor rest successor kinds)"

definition add_successor :: "'a graph_builder \<Rightarrow> il_block_id \<Rightarrow> il_block_id \<Rightarrow> il_edge_kinds \<Rightarrow>
    'a graph_builder \<times> unit il_result" where
  "add_successor gb block successor kinds =
     (if length (gb_blocks gb) \<le> id_index successor
      then (gb, Inl (RangeOutOfBounds (id_index successor) (length (gb_blocks gb))))
      else if length (gb_blocks gb) \<le> id_index block
      then (gb, Inl (RangeOutOfBounds (id_index block) (length (gb_blocks gb))))
      else
        let b = gb_blocks gb ! id_index block
        in (gb\<lparr>gb_blocks := (gb_blocks gb)[id_index block :=
              b\<lparr>bb_successors := merge_successor (bb_successors b) successor kinds\<rparr>]\<rparr>, Inr ()))"

fun verify_op_ranges_loop :: "nat \<Rightarrow> nat \<Rightarrow> il_index_range list \<Rightarrow> unit il_result" where
  "verify_op_ranges_loop operation_count previous_end [] = Inr ()"
| "verify_op_ranges_loop operation_count previous_end (r # rs) =
     and_then (verify_bounds r operation_count) (\<lambda>_.
       if start_of r < previous_end then Inl (OverlappingRanges (start_of r) previous_end)
       else verify_op_ranges_loop operation_count (end_of r) rs)"

definition verify_op_ranges :: "'a graph_builder \<Rightarrow> nat \<Rightarrow> unit il_result" where
  "verify_op_ranges gb operation_count =
     verify_op_ranges_loop operation_count 0
       (sort_key start_of (filter (\<lambda>r. \<not> range_is_empty r) (map bb_operations (gb_blocks gb))))"

fun build_loop :: "il_block_id il_pool \<Rightarrow> il_edge_kinds list \<Rightarrow> il_block list \<Rightarrow> builder_block list \<Rightarrow>
    (il_block list \<times> il_block_id list \<times> il_edge_kinds list) il_result" where
  "build_loop pool kinds blocks [] = Inr (blocks, pool_values pool, kinds)"
| "build_loop pool kinds blocks (b # bs) =
     (let (pool, result) = pool_append pool (map fst (bb_successors b)) in
      and_then result (\<lambda>r.
        build_loop pool (kinds @ map snd (bb_successors b))
          (blocks @ [\<lparr>block_ops = bb_operations b, block_successors = r, block_properties = bb_properties b\<rparr>]) bs))"

definition build :: "'a graph_builder \<Rightarrow> nat \<Rightarrow> il_fail + 'a il_graph" where
  "build gb operation_count =
     and_then (lift_error (verify_op_ranges gb operation_count)) (\<lambda>_.
     and_then (lift_error (build_loop \<lparr>pool_values = []\<rparr> [] [] (gb_blocks gb))) (\<lambda>(blocks, successors, kinds).
     and_then (lift_panic (graph_new blocks successors kinds)) (\<lambda>graph.
       case gb_sources gb of
         Some sources \<Rightarrow> lift_panic (set_block_sources graph sources)
       | None \<Rightarrow> Inr graph)))"

section \<open>Predecessors\<close>

record il_block_predecessors =
  predecessors :: "il_block_id il_csr"

definition predecessor_entries :: "il_block list \<Rightarrow> il_block_id list \<Rightarrow> (nat \<times> il_block_id) list outcome" where
  "predecessor_entries blocks successors =
     map_ok concat (collect_ok
       (\<lambda>(index, block).
          and_then (or_panic (try_from_index index)) (\<lambda>b.
          and_then (range_slice (block_successors block) successors) (\<lambda>ss.
            Inr (map (\<lambda>s. (id_index s, b)) ss))))
       (List.enumerate 0 blocks))"

definition predecessors_new :: "il_block list \<Rightarrow> il_block_id list \<Rightarrow> il_block_predecessors outcome" where
  "predecessors_new blocks successors =
     and_then (predecessor_entries blocks successors) (\<lambda>entries.
     and_then (csr_from_entries (length blocks) entries) (\<lambda>csr.
       Inr \<lparr>predecessors = csr\<rparr>))"

definition predecessors_for :: "il_block_predecessors \<Rightarrow> il_block_id \<Rightarrow> il_block_id list outcome" where
  "predecessors_for p block =
     map_ok (\<lambda>row. case row of None \<Rightarrow> [] | Some bs \<Rightarrow> bs) (checked_row (predecessors p) (id_index block))"

section \<open>What the verifier accepts\<close>

definition successors_of :: "il_block_id list \<Rightarrow> il_block \<Rightarrow> il_block_id list" where
  "successors_of successors b = sub_slice (start_of (block_successors b)) (end_of (block_successors b)) successors"

definition block_ok :: "nat \<Rightarrow> il_block_id list \<Rightarrow> il_block \<Rightarrow> bool" where
  "block_ok n successors b \<longleftrightarrow>
     start_of (block_ops b) \<le> end_of (block_ops b) \<and>
     start_of (block_successors b) \<le> end_of (block_successors b) \<and>
     end_of (block_successors b) \<le> length successors \<and>
     distinct (successors_of successors b) \<and> (\<forall>s \<in> set (successors_of successors b). id_index s < n)"

definition filled_ops :: "il_block list \<Rightarrow> il_index_range list" where
  "filled_ops blocks = filter (\<lambda>r. \<not> range_is_empty r) (map block_ops blocks)"

definition graph_ok :: "'a il_graph \<Rightarrow> bool" where
  "graph_ok g \<longleftrightarrow>
     length (g_blocks g) < 2 ^ 32 \<and>
     (\<forall>b \<in> set (g_blocks g). block_ok (length (g_blocks g)) (g_successors g) b) \<and>
     sorted_wrt apart (filled_ops (g_blocks g)) \<and>
     length (g_successor_kinds g) = length (g_successors g) \<and>
     (g_block_sources g = [] \<or> length (g_block_sources g) = length (g_blocks g))"

lemma into_structure_simps [simp]:
  "into_structure (Inl (Error e)) = Inl (Error (StructureIl e))" "into_structure (Inl (Panic p)) = Inl (Panic p)"
  "into_structure (Inr x) = Inr x"
  by (simp_all add: into_structure_def)

lemma into_structure_eq_Inr_iff [outcome_simps]: "into_structure m = Inr x \<longleftrightarrow> m = Inr x"
  by (auto simp: into_structure_def split: sum.splits failure.splits)

lemma into_structure_Panic [simp]: "into_structure (lift_error m) \<noteq> Inl (Panic p)"
  by (cases m) auto

lemma duplicate_in_None: "duplicate_in before ss = None \<longleftrightarrow> distinct ss \<and> set before \<inter> set ss = {}"
  by (induction before ss rule: duplicate_in.induct) auto

lemma verify_targets_ok: "verify_targets n ss = Inr () \<longleftrightarrow> (\<forall>s \<in> set ss. id_index s < n)"
  by (induction n ss rule: verify_targets.induct) auto

lemma verify_targets_Panic [simp]: "verify_targets n ss \<noteq> Inl (Panic p)"
  by (induction n ss rule: verify_targets.induct) auto

lemma verify_successors_ok:
  "verify_successors g b w = Inr () \<longleftrightarrow>
     verify_bounds (block_successors b) (length (g_successors g)) = Inr () \<and>
     distinct (successors_of (g_successors g) b)"
  using duplicate_in_None [of "[]" "successors_of (g_successors g) b"]
  by (cases "duplicate_in [] (successors_of (g_successors g) b)")
    (auto simp: verify_successors_def checked_slice_eq outcome_simps successors_of_def)

lemma try_from_index_ok: "i < 2 ^ 32 - 1 \<Longrightarrow> \<exists>w. try_from_index i = Inr w"
  by (simp add: try_from_index_eq)

lemma verify_block_step:
  "verify_blocks g i (b # bs) rs = Inr out \<longleftrightarrow>
     (\<exists>w. try_from_index i = Inr w \<and> block_ok (length (g_blocks g)) (g_successors g) b \<and>
       verify_blocks g (Suc i) bs (if range_is_empty (block_ops b) then rs else rs @ [(block_ops b, w)]) = Inr out)"
  by (auto simp: outcome_simps Let_def verify_successors_ok checked_slice_eq verify_bounds_ok verify_targets_ok
      block_ok_def successors_of_def)

lemma verify_blocks_ops: "verify_blocks g i bs rs = Inr out \<Longrightarrow> map fst out = map fst rs @ filled_ops bs"
proof (induction bs arbitrary: i rs)
  case (Cons b bs)
  then show ?case by (fastforce simp: verify_block_step filled_ops_def simp del: verify_blocks.simps)
qed (simp add: filled_ops_def)

lemma verify_blocks_iff:
  "(\<exists>out. verify_blocks g i bs rs = Inr out) \<longleftrightarrow>
     (\<forall>b \<in> set bs. block_ok (length (g_blocks g)) (g_successors g) b) \<and> (bs = [] \<or> i + length bs < 2 ^ 32)"
proof (induction bs arbitrary: i rs)
  case (Cons b bs)
  show ?case
  proof (cases "i < 2 ^ 32 - 1")
    case True
    then obtain w where w: "try_from_index i = Inr w" using try_from_index_ok by blast
    show ?thesis
      using Cons [of "Suc i" "if range_is_empty (block_ops b) then rs else rs @ [(block_ops b, w)]"] True
      by (cases bs) (auto simp: verify_block_step w simp del: verify_blocks.simps)
  next
    case False
    then show ?thesis by (simp add: verify_block_step try_from_index_eq del: verify_blocks.simps)
  qed
qed simp

lemma verify_disjoint_ops_iff:
  "\<forall>r \<in> set rs. start_of (fst r) \<le> end_of (fst r) \<Longrightarrow>
   verify_disjoint_ops lo rs = Inr () \<longleftrightarrow> ordered_ranges lo (map fst rs)"
  by (induction lo rs rule: verify_disjoint_ops.induct) auto

lemma filled_ops_nonempty:
  "\<forall>b \<in> set bs. block_ok n ss b \<Longrightarrow> \<forall>r \<in> set (filled_ops bs). start_of r < end_of r"
  by (auto simp: filled_ops_def block_ok_def range_is_empty_iff intro: le_neq_implies_less)

lemma graph_verify_iff: "graph_verify g = Inr () \<longleftrightarrow> graph_ok g"
proof (cases "\<exists>out. verify_blocks g 0 (g_blocks g) [] = Inr out")
  case True
  then obtain out where out: "verify_blocks g 0 (g_blocks g) [] = Inr out" by blast
  let ?sorted = "sort_key (\<lambda>(r, _). start_of r) out"
  have blocks: "\<forall>b \<in> set (g_blocks g). block_ok (length (g_blocks g)) (g_successors g) b" "length (g_blocks g) < 2 ^ 32"
    using True verify_blocks_iff [of g 0 "g_blocks g" "[]"] by auto
  have ops: "map fst out = filled_ops (g_blocks g)" using verify_blocks_ops [OF out] by simp
  note ne = filled_ops_nonempty [OF blocks(1)]
  have "mset (map fst ?sorted) = mset (filled_ops (g_blocks g))" using ops by (metis mset_map mset_sort)
  moreover have "sorted (map start_of (map fst ?sorted))"
    using sorted_sort_key [of "\<lambda>(r, _). start_of r" out] by (simp add: o_def case_prod_unfold)
  moreover have "\<forall>r \<in> set ?sorted. start_of (fst r) \<le> end_of (fst r)"
    using ne unfolding ops [symmetric] by (auto intro: less_imp_le)
  ultimately have "verify_disjoint_ops 0 ?sorted = Inr () \<longleftrightarrow> sorted_wrt apart (filled_ops (g_blocks g))"
    using verify_disjoint_ops_iff [of ?sorted 0] ordered_perm_iff [OF ne] by simp
  then show ?thesis using blocks by (auto simp: graph_verify_def graph_ok_def out outcome_simps)
next
  case False
  then show ?thesis using verify_blocks_iff [of g 0 "g_blocks g" "[]"]
    by (auto simp: graph_verify_def graph_ok_def outcome_simps)
qed

lemma verify_blocks_Panic: "verify_blocks g i bs rs \<noteq> Inl (Panic p)"
  by (induction g i bs rs rule: verify_blocks.induct)
    (auto simp: outcome_simps Let_def verify_successors_def checked_slice_eq into_structure_def
      split: option.splits sum.splits failure.splits)

lemma verify_disjoint_ops_Panic: "verify_disjoint_ops lo rs \<noteq> Inl (Panic p)"
  by (induction lo rs rule: verify_disjoint_ops.induct) auto

section \<open>Building\<close>

text \<open>One call of the builder, with any arguments the identifier type allows.\<close>

inductive builder_step :: "'a graph_builder \<Rightarrow> 'a graph_builder \<Rightarrow> bool" where
  push: "push_block gb r p = (gb', res) \<Longrightarrow> builder_step gb gb'"
| push_source: "push_block_with_source gb r p a = (gb', res') \<Longrightarrow> builder_step gb gb'"
| add: "s \<noteq> 0 \<Longrightarrow> add_successor gb b s k = (gb', res'') \<Longrightarrow> builder_step gb gb'"

inductive built :: "'a graph_builder \<Rightarrow> bool" where
  fresh: "built builder_new"
| step: "built gb \<Longrightarrow> builder_step gb gb' \<Longrightarrow> built gb'"

definition builder_block_ok :: "nat \<Rightarrow> builder_block \<Rightarrow> bool" where
  "builder_block_ok n b \<longleftrightarrow>
     distinct (map fst (bb_successors b)) \<and> (\<forall>s \<in> fst ` set (bb_successors b). s \<noteq> 0 \<and> id_index s < n)"

definition builder_ok :: "'a graph_builder \<Rightarrow> bool" where
  "builder_ok gb \<longleftrightarrow>
     length (gb_blocks gb) < 2 ^ 32 \<and> (\<forall>b \<in> set (gb_blocks gb). builder_block_ok (length (gb_blocks gb)) b) \<and>
     (\<forall>sources. gb_sources gb = Some sources \<longrightarrow> length sources = length (gb_blocks gb))"

lemma try_push_block_cases:
  assumes "try_push_block gb r p = (gb', res)"
  obtains "gb' = gb" "res = Inl IdExhausted"
  | b where "res = Inr b" "length (gb_blocks gb) < 2 ^ 32 - 1" "gb_sources gb' = gb_sources gb"
      "gb_blocks gb' = gb_blocks gb @ [\<lparr>bb_operations = r, bb_properties = p, bb_successors = []\<rparr>]"
  using assms by (auto simp: try_push_block_def try_from_index_eq split: if_splits)

lemma builder_block_ok_mono: "builder_block_ok n b \<Longrightarrow> n \<le> m \<Longrightarrow> builder_block_ok m b"
  by (force simp: builder_block_ok_def)

lemma try_push_block_ok:
  assumes "try_push_block gb r p = (gb', Inr b)"
    and "length (gb_blocks gb) < 2 ^ 32" "\<forall>x \<in> set (gb_blocks gb). builder_block_ok (length (gb_blocks gb)) x"
  shows "length (gb_blocks gb') < 2 ^ 32 \<and> (\<forall>x \<in> set (gb_blocks gb'). builder_block_ok (length (gb_blocks gb')) x) \<and>
    length (gb_blocks gb') = Suc (length (gb_blocks gb)) \<and> gb_sources gb' = gb_sources gb"
proof -
  have "builder_block_ok n \<lparr>bb_operations = r, bb_properties = p, bb_successors = []\<rparr>" for n r p
    by (simp add: builder_block_ok_def)
  moreover have "\<forall>x \<in> set (gb_blocks gb). builder_block_ok (Suc (length (gb_blocks gb))) x"
    using assms(3) builder_block_ok_mono [OF _ le_SucI [OF order_refl]] by blast
  ultimately show ?thesis using assms(1,2) by (auto elim!: try_push_block_cases)
qed

lemma merge_successor_keys:
  "fst ` set (merge_successor xs s k) = insert s (fst ` set xs)"
  "distinct (map fst xs) \<Longrightarrow> distinct (map fst (merge_successor xs s k))"
proof -
  show keys: "fst ` set (merge_successor xs s k) = insert s (fst ` set xs)" for xs
    by (induction xs s k rule: merge_successor.induct) auto
  have mem: "(a, c) \<in> set (merge_successor xs s k) \<Longrightarrow> a = s \<or> a \<in> fst ` set xs" for a c xs s k
    by (induction xs s k rule: merge_successor.induct) (force split: if_splits)+
  show "distinct (map fst xs) \<Longrightarrow> distinct (map fst (merge_successor xs s k))"
    by (induction xs s k rule: merge_successor.induct) (auto dest: mem)
qed

lemma builder_ok_push: "builder_ok gb \<Longrightarrow> push_block gb r p = (gb', res) \<Longrightarrow> builder_ok gb'"
proof -
  assume ok: "builder_ok gb" and push: "push_block gb r p = (gb', res)"
  show "builder_ok gb'"
  proof (cases res)
    case (Inl e)
    then show ?thesis using ok push by (auto simp: push_block_def elim: try_push_block_cases split: if_splits)
  next
    case (Inr b)
    then show ?thesis using ok push try_push_block_ok [of gb r p gb' b]
      by (auto simp: push_block_def builder_ok_def split: if_splits)
  qed
qed

lemma builder_ok_push_source:
  assumes ok: "builder_ok gb" and push: "push_block_with_source gb r p a = (gb', res)"
  shows "builder_ok gb' \<and> (\<forall>q. res \<noteq> Inl (Panic q))"
proof (cases "gb_sources gb = None \<and> gb_blocks gb \<noteq> []")
  case True
  then show ?thesis using ok push by (auto simp: push_block_with_source_def)
next
  case False
  define gb0 where "gb0 = (if gb_sources gb = None then gb\<lparr>gb_sources := Some []\<rparr> else gb)"
  obtain sources where s: "gb_sources gb0 = Some sources" "length sources = length (gb_blocks gb0)" and ok0: "builder_ok gb0"
    using False ok by (cases "gb_sources gb") (auto simp: gb0_def builder_ok_def)
  obtain gb1 res1 where g1: "try_push_block gb0 r p = (gb1, res1)" by (cases "try_push_block gb0 r p")
  have eq: "push_block_with_source gb r p a =
      (case res1 of Inl e \<Rightarrow> (gb1, Inl (Error e))
       | Inr b \<Rightarrow> (case gb_sources gb1 of None \<Rightarrow> (gb1, Inl (Panic ExpectFailed))
                  | Some sources \<Rightarrow> (gb1\<lparr>gb_sources := Some (sources @ [a])\<rparr>, Inr b)))"
    using False g1 by (auto simp: push_block_with_source_def gb0_def Let_def)
  show ?thesis
  proof (cases res1)
    case (Inl e)
    then have "gb1 = gb0" using g1 by (auto elim: try_push_block_cases)
    then show ?thesis using eq push Inl ok0 by auto
  next
    case (Inr b)
    then show ?thesis using eq push g1 s try_push_block_ok [of gb0 r p gb1 b] ok0
      by (auto simp: builder_ok_def)
  qed
qed

lemma builder_ok_add:
  assumes ok: "builder_ok gb" and s: "s \<noteq> 0" and add: "add_successor gb b s k = (gb', res)"
  shows "builder_ok gb'"
proof (cases "id_index s < length (gb_blocks gb) \<and> id_index b < length (gb_blocks gb)")
  case True
  let ?b = "gb_blocks gb ! id_index b"
  have "builder_block_ok (length (gb_blocks gb)) ?b" using ok True by (simp add: builder_ok_def)
  then have "builder_block_ok (length (gb_blocks gb)) (?b\<lparr>bb_successors := merge_successor (bb_successors ?b) s k\<rparr>)"
    using s True by (simp add: builder_block_ok_def merge_successor_keys)
  then show ?thesis using ok add True
    by (auto simp: add_successor_def builder_ok_def Let_def dest!: set_update_subset_insert [THEN subsetD])
next
  case False
  then show ?thesis using ok add by (auto simp: add_successor_def not_less split: if_splits)
qed

lemma built_ok: "built gb \<Longrightarrow> builder_ok gb"
proof (induction rule: built.induct)
  case fresh
  then show ?case by (simp add: builder_ok_def builder_new_def)
next
  case (step gb gb')
  from step(2) show ?case
  proof cases
    case push
    then show ?thesis using builder_ok_push [OF step(3)] by simp
  next
    case push_source
    then show ?thesis using builder_ok_push_source [OF step(3)] by simp
  next
    case add
    then show ?thesis using builder_ok_add [OF step(3)] by simp
  qed
qed

text \<open>The loop of \<open>build\<close> lays the successors of the blocks end to end.\<close>

lemma pool_append_eq:
  "pool_append p vs = (p\<lparr>pool_values := pool_values p @ vs\<rparr>, range_new (length (pool_values p)) (length (pool_values p) + length vs))"
  by (simp add: pool_append_def Let_def)

definition laid_out :: "nat \<Rightarrow> builder_block list \<Rightarrow> il_block list \<Rightarrow> bool" where
  "laid_out base bs blocks \<longleftrightarrow>
     length blocks = length bs \<and>
     (\<forall>k < length bs.
        block_ops (blocks ! k) = bb_operations (bs ! k) \<and>
        block_properties (blocks ! k) = bb_properties (bs ! k) \<and>
        start_of (block_successors (blocks ! k)) = base + length (concat (map bb_successors (take k bs))) \<and>
        end_of (block_successors (blocks ! k)) = base + length (concat (map bb_successors (take (Suc k) bs))))"

lemma laid_out_Cons:
  assumes "laid_out (base + length (bb_successors b)) bs blocks"
    "block_ops x = bb_operations b" "block_properties x = bb_properties b"
    "start_of (block_successors x) = base" "end_of (block_successors x) = base + length (bb_successors b)"
  shows "laid_out base (b # bs) (x # blocks)"
  unfolding laid_out_def
proof (intro conjI allI impI)
  fix k assume "k < length (b # bs)"
  then show "block_ops ((x # blocks) ! k) = bb_operations ((b # bs) ! k)"
    "block_properties ((x # blocks) ! k) = bb_properties ((b # bs) ! k)"
    "start_of (block_successors ((x # blocks) ! k)) = base + length (concat (map bb_successors (take k (b # bs))))"
    "end_of (block_successors ((x # blocks) ! k)) = base + length (concat (map bb_successors (take (Suc k) (b # bs))))"
    using assms by (cases k; simp add: laid_out_def)+
qed (use assms in \<open>simp add: laid_out_def\<close>)

lemma build_loop_layout:
  assumes "build_loop pool kinds acc bs = Inr (blocks, successors, kinds')"
  shows "\<exists>new. blocks = acc @ new \<and> laid_out (length (pool_values pool)) bs new \<and>
    successors = pool_values pool @ map fst (concat (map bb_successors bs)) \<and>
    kinds' = kinds @ map snd (concat (map bb_successors bs)) \<and>
    (bs = [] \<or> length successors < 2 ^ 32)"
  using assms
proof (induction pool kinds acc bs rule: build_loop.induct)
  case (1 pool kinds blocks)
  then show ?case by (simp add: laid_out_def)
next
  case (2 pool kinds acc b bs)
  then obtain r where r: "range_new (length (pool_values pool)) (length (pool_values pool) + length (bb_successors b)) = Inr r"
    and rest: "build_loop (pool\<lparr>pool_values := pool_values pool @ map fst (bb_successors b)\<rparr>)
      (kinds @ map snd (bb_successors b))
      (acc @ [\<lparr>block_ops = bb_operations b, block_successors = r, block_properties = bb_properties b\<rparr>]) bs
      = Inr (blocks, successors, kinds')"
    by (auto simp: pool_append_eq outcome_simps)
  note range = range_new_inv [OF r]
  from 2(1) [OF _ refl _ , of _ _ r] rest r obtain new where
    new: "blocks = (acc @ [\<lparr>block_ops = bb_operations b, block_successors = r, block_properties = bb_properties b\<rparr>]) @ new"
      "laid_out (length (pool_values pool) + length (bb_successors b)) bs new"
      "successors = pool_values pool @ map fst (bb_successors b) @ map fst (concat (map bb_successors bs))"
      "kinds' = kinds @ map snd (bb_successors b) @ map snd (concat (map bb_successors bs))"
      "bs = [] \<or> length successors < 2 ^ 32"
    by (auto simp: pool_append_eq)
  have "length successors < 2 ^ 32" using new(3,5) range by (cases bs) auto
  then show ?case using new laid_out_Cons [OF new(2)] range by auto
qed

lemma build_loop_ok:
  "length (pool_values pool) + length (concat (map bb_successors bs)) < 2 ^ 32 \<Longrightarrow> \<exists>res. build_loop pool kinds acc bs = Inr res"
proof (induction bs arbitrary: pool kinds acc)
  case (Cons b bs)
  obtain r where r: "range_new (length (pool_values pool)) (length (pool_values pool) + length (bb_successors b)) = Inr r"
    using range_new_ok [of "length (pool_values pool)"] Cons.prems by force
  show ?case
    using r Cons.prems
      Cons.IH [of "pool\<lparr>pool_values := pool_values pool @ map fst (bb_successors b)\<rparr>" "kinds @ map snd (bb_successors b)"
        "acc @ [\<lparr>block_ops = bb_operations b, block_successors = r, block_properties = bb_properties b\<rparr>]"]
    by (simp add: pool_append_eq)
qed simp

definition edge_total :: "'a graph_builder \<Rightarrow> nat" where
  "edge_total gb = length (concat (map bb_successors (gb_blocks gb)))"

definition filled_ranges :: "'a graph_builder \<Rightarrow> il_index_range list" where
  "filled_ranges gb = filter (\<lambda>r. start_of r \<noteq> end_of r) (map bb_operations (gb_blocks gb))"

lemma verify_op_ranges_loop_iff:
  "verify_op_ranges_loop n lo rs = Inr () \<longleftrightarrow> ordered_ranges lo rs \<and> (\<forall>r \<in> set rs. end_of r \<le> n)"
  by (induction n lo rs rule: verify_op_ranges_loop.induct) (auto simp: outcome_simps verify_bounds_ok)

lemma verify_op_ranges_iff:
  "verify_op_ranges gb n = Inr () \<longleftrightarrow>
     (\<forall>r \<in> set (filled_ranges gb). start_of r \<le> end_of r \<and> end_of r \<le> n) \<and> sorted_wrt apart (filled_ranges gb)"
proof -
  let ?rs = "filled_ranges gb"
  have eq: "verify_op_ranges gb n = verify_op_ranges_loop n 0 (sort_key start_of ?rs)"
    by (simp add: verify_op_ranges_def filled_ranges_def range_is_empty_iff)
  show ?thesis
  proof (cases "\<forall>r \<in> set ?rs. start_of r \<le> end_of r")
    case True
    then have "\<forall>r \<in> set ?rs. start_of r < end_of r" by (auto simp: filled_ranges_def intro: le_neq_implies_less)
    then show ?thesis using True ordered_sort_iff by (auto simp: eq verify_op_ranges_loop_iff)
  next
    case False
    then show ?thesis using ordered_ranges_set [of 0 "sort_key start_of ?rs"]
      by (auto simp: eq verify_op_ranges_loop_iff)
  qed
qed

lemma laid_out_slices:
  assumes "laid_out 0 bs blocks" "k < length bs"
  shows "successors_of (map fst (concat (map bb_successors bs))) (blocks ! k) = map fst (bb_successors (bs ! k))"
    and "start_of (block_successors (blocks ! k)) \<le> end_of (block_successors (blocks ! k))"
    and "end_of (block_successors (blocks ! k)) \<le> length (concat (map bb_successors bs))"
    and "sub_slice (start_of (block_successors (blocks ! k))) (end_of (block_successors (blocks ! k)))
      (map snd (concat (map bb_successors bs))) = map snd (bb_successors (bs ! k))"
proof -
  have slice: "sub_slice (start_of (block_successors (blocks ! k))) (end_of (block_successors (blocks ! k)))
      (map f (concat (map bb_successors bs))) = map f (bb_successors (bs ! k))" for f :: "il_block_id \<times> il_edge_kinds \<Rightarrow> 'b"
    using sub_slice_concat [of k "map bb_successors bs"] assms
    by (simp add: laid_out_def sub_slice_def take_map drop_map)
  show "successors_of (map fst (concat (map bb_successors bs))) (blocks ! k) = map fst (bb_successors (bs ! k))"
    using slice by (simp add: successors_of_def)
  show "sub_slice (start_of (block_successors (blocks ! k))) (end_of (block_successors (blocks ! k)))
      (map snd (concat (map bb_successors bs))) = map snd (bb_successors (bs ! k))" using slice .
  show "start_of (block_successors (blocks ! k)) \<le> end_of (block_successors (blocks ! k))"
    using assms by (simp add: laid_out_def take_Suc_conv_app_nth)
  show "end_of (block_successors (blocks ! k)) \<le> length (concat (map bb_successors bs))"
    using assms concat_take_le [of "Suc k" "map bb_successors bs"] by (simp add: laid_out_def take_map del: length_concat)
qed

lemma laid_out_filled_ops:
  "laid_out 0 bs blocks \<Longrightarrow> map block_ops blocks = map bb_operations bs"
  by (auto simp: laid_out_def intro: nth_equalityI)

lemma laid_out_block_ok:
  assumes lay: "laid_out 0 (gb_blocks gb) blocks" and ok: "builder_ok gb" and k: "k < length blocks"
    and ranges: "\<forall>r \<in> set (filled_ranges gb). start_of r \<le> end_of r"
  shows "block_ok (length blocks) (map fst (concat (map bb_successors (gb_blocks gb)))) (blocks ! k)"
proof -
  have k': "k < length (gb_blocks gb)" "length blocks = length (gb_blocks gb)" using lay k by (auto simp: laid_out_def)
  then have "builder_block_ok (length blocks) (gb_blocks gb ! k)" using ok by (simp add: builder_ok_def)
  moreover have "start_of (bb_operations (gb_blocks gb ! k)) \<le> end_of (bb_operations (gb_blocks gb ! k))"
    using ranges k' by (cases "start_of (bb_operations (gb_blocks gb ! k)) = end_of (bb_operations (gb_blocks gb ! k))")
      (auto simp: filled_ranges_def)
  ultimately show ?thesis
    using laid_out_slices [OF lay k'(1)] lay k' by (auto simp: block_ok_def builder_block_ok_def laid_out_def)
qed

lemma build_result:
  assumes ok: "builder_ok gb" and ver: "verify_op_ranges gb n = Inr ()"
    and loop: "build_loop \<lparr>pool_values = []\<rparr> [] [] (gb_blocks gb) = Inr (blocks, successors, kinds)"
  shows "\<exists>g. build gb n = Inr g \<and> g_blocks g = blocks \<and> g_successors g = successors \<and> g_successor_kinds g = kinds \<and>
    g_block_sources g = (case gb_sources gb of None \<Rightarrow> [] | Some s \<Rightarrow> s) \<and> graph_ok g"
proof -
  have lay: "laid_out 0 (gb_blocks gb) blocks" and succ: "successors = map fst (concat (map bb_successors (gb_blocks gb)))"
    and kinds: "kinds = map snd (concat (map bb_successors (gb_blocks gb)))"
    using build_loop_layout [OF loop] by auto
  have ranges: "\<forall>r \<in> set (filled_ranges gb). start_of r \<le> end_of r" "sorted_wrt apart (filled_ranges gb)"
    using ver by (auto simp: verify_op_ranges_iff)
  have len: "length blocks = length (gb_blocks gb)" using lay by (simp add: laid_out_def)
  have blk: "\<forall>b \<in> set blocks. block_ok (length blocks) successors b"
    using laid_out_block_ok [OF lay ok _ ranges(1)] by (auto simp: in_set_conv_nth succ)
  have filled: "filled_ops blocks = filled_ranges gb"
    using laid_out_filled_ops [OF lay] by (simp add: filled_ops_def filled_ranges_def range_is_empty_iff)
  have targets: "\<forall>s \<in> set successors. id_index s < length blocks"
    using ok by (force simp: succ len builder_ok_def builder_block_ok_def)
  have new: "graph_new blocks successors kinds =
      Inr \<lparr>g_blocks = blocks, g_successors = successors, g_successor_kinds = kinds, g_block_sources = []\<rparr>"
    using blk targets by (auto simp: graph_new_def list_all_iff block_ok_def succ kinds)
  have lk: "length kinds = length successors" by (simp add: succ kinds)
  have "length blocks < 2 ^ 32" using ok by (simp add: len builder_ok_def)
  with lk blk filled ranges(2) ok show ?thesis
    by (cases "gb_sources gb")
      (auto simp: build_def ver loop new set_block_sources_def graph_ok_def len builder_ok_def)
qed

lemma build_cases:
  assumes "builder_ok gb"
  shows "(\<exists>g. build gb n = Inr g) \<longleftrightarrow>
      (\<forall>r \<in> set (filled_ranges gb). start_of r \<le> end_of r \<and> end_of r \<le> n) \<and>
      sorted_wrt apart (filled_ranges gb) \<and> edge_total gb < 2 ^ 32"
    and "build gb n \<noteq> Inl (Panic p)"
proof -
  let ?loop = "build_loop \<lparr>pool_values = []\<rparr> [] [] (gb_blocks gb)"
  have loop: "(\<exists>res. ?loop = Inr res) \<longleftrightarrow> edge_total gb < 2 ^ 32"
    using build_loop_ok [of "\<lparr>pool_values = []\<rparr>" "gb_blocks gb" "[]" "[]"]
      build_loop_layout [of "\<lparr>pool_values = []\<rparr>" "[]" "[]" "gb_blocks gb"]
    by (force simp: edge_total_def)
  show "(\<exists>g. build gb n = Inr g) \<longleftrightarrow>
      (\<forall>r \<in> set (filled_ranges gb). start_of r \<le> end_of r \<and> end_of r \<le> n) \<and>
      sorted_wrt apart (filled_ranges gb) \<and> edge_total gb < 2 ^ 32"
  proof
    assume "\<exists>g. build gb n = Inr g"
    then have "verify_op_ranges gb n = Inr ()" "\<exists>res. ?loop = Inr res" by (auto simp: build_def outcome_simps)
    then show "(\<forall>r \<in> set (filled_ranges gb). start_of r \<le> end_of r \<and> end_of r \<le> n) \<and>
      sorted_wrt apart (filled_ranges gb) \<and> edge_total gb < 2 ^ 32" using loop verify_op_ranges_iff by blast
  next
    assume "(\<forall>r \<in> set (filled_ranges gb). start_of r \<le> end_of r \<and> end_of r \<le> n) \<and>
      sorted_wrt apart (filled_ranges gb) \<and> edge_total gb < 2 ^ 32"
    then show "\<exists>g. build gb n = Inr g"
      using loop verify_op_ranges_iff [of gb n] build_result [OF assms] by (metis prod_cases3)
  qed
  show "build gb n \<noteq> Inl (Panic p)"
  proof (cases "verify_op_ranges gb n = Inr () \<and> (\<exists>res. ?loop = Inr res)")
    case True
    then show ?thesis using build_result [OF assms] by (metis prod_cases3 sum.distinct(2))
  next
    case False
    then show ?thesis by (auto simp: build_def outcome_simps)
  qed
qed

lemma id_index_of_nat: "i < 2 ^ 32 - 1 \<Longrightarrow> id_index (word_of_nat (Suc i)) = i"
  using id_index_try_from_index [of i "word_of_nat (Suc i)"] by (simp add: try_from_index_eq)

lemma build_edges:
  assumes ok: "builder_ok gb" and g: "build gb n = Inr g" and i: "id_index b < length (gb_blocks gb)"
  shows "successors_for g b = Inr (map fst (bb_successors (gb_blocks gb ! id_index b)))"
    and "successor_kinds_for g b = Inr (map snd (bb_successors (gb_blocks gb ! id_index b)))"
proof -
  obtain blocks successors kinds where ver: "verify_op_ranges gb n = Inr ()"
    and loop: "build_loop \<lparr>pool_values = []\<rparr> [] [] (gb_blocks gb) = Inr (blocks, successors, kinds)"
    using g by (auto simp: build_def outcome_simps)
  have g': "g_blocks g = blocks" "g_successors g = successors" "g_successor_kinds g = kinds"
    using build_result [OF ok ver loop] g by auto
  have lay: "laid_out 0 (gb_blocks gb) blocks" and succ: "successors = map fst (concat (map bb_successors (gb_blocks gb)))"
    and kinds: "kinds = map snd (concat (map bb_successors (gb_blocks gb)))"
    using build_loop_layout [OF loop] by auto
  have len: "length blocks = length (gb_blocks gb)" using lay by (simp add: laid_out_def)
  note slices = laid_out_slices [OF lay i]
  show "successors_for g b = Inr (map fst (bb_successors (gb_blocks gb ! id_index b)))"
    "successor_kinds_for g b = Inr (map snd (bb_successors (gb_blocks gb ! id_index b)))"
    using slices lay i
    by (auto simp: successors_for_def successor_kinds_for_def get_block_def g' len range_slice_def succ kinds
        successors_of_def)
qed

text \<open>
  C10: Whatever sequence of calls made the builder, \<open>build\<close> succeeds exactly when the nonempty
  operation ranges lie within the operation count and do not overlap and the edges fit the
  successor pool; it never fails an assertion; and the graph it returns passes the verifier and has
  for every block the successors and edge kinds recorded for it.
\<close>

theorem build_correct:
  assumes "built gb"
  shows "((\<exists>g. build gb n = Inr g) \<longleftrightarrow>
      (\<forall>r \<in> set (filled_ranges gb). start_of r \<le> end_of r \<and> end_of r \<le> n) \<and>
      sorted_wrt apart (filled_ranges gb) \<and> edge_total gb < 2 ^ 32) \<and>
    (\<forall>p. build gb n \<noteq> Inl (Panic p)) \<and>
    (\<forall>g. build gb n = Inr g \<longrightarrow> graph_verify g = Inr () \<and>
      (\<forall>b. id_index b < length (gb_blocks gb) \<longrightarrow>
        successors_for g b = Inr (map fst (bb_successors (gb_blocks gb ! id_index b))) \<and>
        successor_kinds_for g b = Inr (map snd (bb_successors (gb_blocks gb ! id_index b)))))"
proof -
  have ok: "builder_ok gb" using built_ok [OF assms] .
  have "graph_ok g" if g: "build gb n = Inr g" for g
  proof -
    obtain blocks successors kinds where "verify_op_ranges gb n = Inr ()"
      "build_loop \<lparr>pool_values = []\<rparr> [] [] (gb_blocks gb) = Inr (blocks, successors, kinds)"
      using g by (auto simp: build_def outcome_simps)
    from build_result [OF ok this] show ?thesis using g by auto
  qed
  then show ?thesis using build_cases [OF ok] build_edges [OF ok] by (simp add: graph_verify_iff)
qed

text \<open>A builder with two blocks and an edge added twice, with different kinds.\<close>

definition sample_builder :: "nat graph_builder" where
  "sample_builder =
     fst (add_successor (fst (add_successor (fst (push_block (fst (push_block builder_new
       \<lparr>r_start = 0, r_end = 2\<rparr> 1)) \<lparr>r_start = 2, r_end = 5\<rparr> 2)) 1 2 2)) 1 2 4)"

lemma sample_builder_eq:
  "sample_builder =
     \<lparr>gb_blocks =
        [\<lparr>bb_operations = \<lparr>r_start = 0, r_end = 2\<rparr>, bb_properties = 1, bb_successors = [(2, 6)]\<rparr>,
         \<lparr>bb_operations = \<lparr>r_start = 2, r_end = 5\<rparr>, bb_properties = 2, bb_successors = []\<rparr>],
      gb_sources = None\<rparr>"
  by (simp add: sample_builder_def builder_new_def push_block_def try_push_block_def try_from_index_eq
      add_successor_def id_index_def Let_def)

lemma built_sample: "built sample_builder"
proof -
  have "built (fst (push_block gb r p))" if "built gb" for gb :: "nat graph_builder" and r p
    by (rule built.step [OF that builder_step.push]) (simp add: prod_eq_iff)
  moreover have "built (fst (add_successor gb b s k))" if "built gb" "s \<noteq> 0" for gb :: "nat graph_builder" and b s k
    by (rule built.step [OF that(1) builder_step.add [OF that(2)]]) (simp add: prod_eq_iff)
  ultimately show ?thesis unfolding sample_builder_def by (simp add: built.fresh)
qed

theorem build_correct_witness:
  "built sample_builder \<and>
   (\<exists>g. build sample_builder 5 = Inr g \<and> graph_verify g = Inr () \<and> successors_for g 1 = Inr [2] \<and>
      successor_kinds_for g 1 = Inr [6])"
proof -
  have "\<exists>g. build sample_builder 5 = Inr g"
    using build_correct [OF built_sample, of 5]
    by (simp add: sample_builder_eq filled_ranges_def edge_total_def start_of_def end_of_def apart_def)
  then obtain g where g: "build sample_builder 5 = Inr g" by blast
  then have "successors_for g 1 = Inr [2] \<and> successor_kinds_for g 1 = Inr [6] \<and> graph_verify g = Inr ()"
    using build_correct [OF built_sample, of 5]
    by (simp add: sample_builder_eq id_index_def)
  then show ?thesis using g built_sample by blast
qed

section \<open>Edges as a map\<close>

definition edges :: "'a graph_builder \<Rightarrow> nat \<Rightarrow> il_block_id \<Rightarrow> il_edge_kinds option" where
  "edges gb i s = (if i < length (gb_blocks gb) then map_of (bb_successors (gb_blocks gb ! i)) s else None)"

definition add_kinds :: "il_edge_kinds \<Rightarrow> il_edge_kinds option \<Rightarrow> il_edge_kinds" where
  "add_kinds k old = (case old of None \<Rightarrow> k | Some e \<Rightarrow> e OR k)"

lemma map_of_merge_successor:
  "map_of (merge_successor xs s k) = (map_of xs)(s \<mapsto> add_kinds k (map_of xs s))"
  by (induction xs s k rule: merge_successor.induct) (auto simp: add_kinds_def)

text \<open>
  Refinement of the edge map. The successor lists of the builder implement a map from pairs of
  blocks to kind sets: \<open>add_successor\<close> with blocks in range adds the kinds to the entry of the pair
  and changes nothing else, and otherwise reports the block and leaves the builder as it is.
\<close>

theorem add_successor_refines:
  "(if id_index s < length (gb_blocks gb) \<and> id_index b < length (gb_blocks gb)
    then \<exists>gb'. add_successor gb b s k = (gb', Inr ()) \<and> length (gb_blocks gb') = length (gb_blocks gb) \<and>
      edges gb' = (edges gb)(id_index b := (edges gb (id_index b))(s \<mapsto> add_kinds k (edges gb (id_index b) s)))
    else \<exists>i. add_successor gb b s k = (gb, Inl (RangeOutOfBounds i (length (gb_blocks gb)))) \<and>
      i \<in> {id_index s, id_index b} \<and> length (gb_blocks gb) \<le> i)"
proof (cases "id_index s < length (gb_blocks gb) \<and> id_index b < length (gb_blocks gb)")
  case True
  then show ?thesis
    by (auto simp: add_successor_def Let_def edges_def map_of_merge_successor fun_eq_iff nth_list_update)
next
  case False
  then show ?thesis by (auto simp: add_successor_def)
qed

section \<open>Predecessors\<close>

text \<open>A flow graph as the analyses take it: blocks with a successor pool.\<close>

definition flow_ok :: "il_block list \<Rightarrow> il_block_id list \<Rightarrow> bool" where
  "flow_ok blocks successors \<longleftrightarrow>
     length blocks < 2 ^ 32 \<and>
     (\<forall>b \<in> set blocks. start_of (block_successors b) \<le> end_of (block_successors b) \<and>
        end_of (block_successors b) \<le> length successors \<and>
        (\<forall>s \<in> set (successors_of successors b). s \<noteq> 0 \<and> id_index s < length blocks)) \<and>
     sum_list (map (\<lambda>b. length (successors_of successors b)) blocks) < 2 ^ 32"

definition flows :: "il_block list \<Rightarrow> il_block_id list \<Rightarrow> nat \<Rightarrow> nat \<Rightarrow> bool" where
  "flows blocks successors i j \<longleftrightarrow> i < length blocks \<and> j \<in> id_index ` set (successors_of successors (blocks ! i))"

definition node_id :: "nat \<Rightarrow> il_block_id" where
  "node_id i = word_of_nat (Suc i)"

lemma node_id_index: "w \<noteq> 0 \<Longrightarrow> node_id (id_index w) = w"
  by (simp add: node_id_def id_index_def unat_eq_0 Suc_diff_1 flip: unat_gt_0)

lemma index_node_id: "i < 2 ^ 32 - 1 \<Longrightarrow> id_index (node_id i) = i"
  using id_index_of_nat [of i] by (simp add: node_id_def)

lemma try_from_index_node: "i < 2 ^ 32 - 1 \<Longrightarrow> try_from_index i = Inr (node_id i)"
  by (simp add: try_from_index_eq node_id_def)

lemma range_slice_ok:
  "start_of r \<le> end_of r \<Longrightarrow> end_of r \<le> length xs \<Longrightarrow> range_slice r xs = Inr (sub_slice (start_of r) (end_of r) xs)"
  by (simp add: range_slice_def)

definition flow_entries :: "il_block list \<Rightarrow> il_block_id list \<Rightarrow> (nat \<times> il_block_id) list" where
  "flow_entries blocks successors =
     concat (map (\<lambda>(i, b). map (\<lambda>s. (id_index s, node_id i)) (successors_of successors b)) (List.enumerate 0 blocks))"

lemma predecessor_entries_eq:
  assumes "flow_ok blocks successors"
  shows "predecessor_entries blocks successors = Inr (flow_entries blocks successors)"
proof -
  have "(case e of (i, b) \<Rightarrow> and_then (or_panic (try_from_index i)) (\<lambda>w.
      and_then (range_slice (block_successors b) successors) (\<lambda>ss. Inr (map (\<lambda>s. (id_index s, w)) ss)))) =
      Inr ((\<lambda>(i, b). map (\<lambda>s. (id_index s, node_id i)) (successors_of successors b)) e)"
    if mem: "e \<in> set (List.enumerate 0 blocks)" for e
  proof -
    obtain i where e: "e = (i, blocks ! i)" "i < length blocks" using mem unfolding in_set_enumerate_eq by (metis add_0_right diff_zero prod.collapse)
    then have "try_from_index i = Inr (node_id i)" using assms by (auto simp: flow_ok_def intro!: try_from_index_node)
    then show ?thesis using e assms by (simp add: flow_ok_def range_slice_ok successors_of_def or_panic_def)
  qed
  then show ?thesis
    unfolding predecessor_entries_def flow_entries_def by (subst collect_ok_all) (auto simp: map_ok_def)
qed

lemma mem_flow_entries:
  "(j, w) \<in> set (flow_entries blocks successors) \<longleftrightarrow> (\<exists>i. flows blocks successors i j \<and> w = node_id i)"
  by (force simp: flow_entries_def flows_def in_set_enumerate_eq)

lemma length_flow_entries:
  "length (flow_entries blocks successors) = sum_list (map (\<lambda>b. length (successors_of successors b)) blocks)"
proof -
  have "length (flow_entries blocks successors) =
      sum_list (map ((\<lambda>b. length (successors_of successors b)) \<circ> snd) (List.enumerate 0 blocks))"
    by (simp add: flow_entries_def length_concat o_def case_prod_unfold)
  then show ?thesis by (simp flip: map_map)
qed

lemma flow_entries_fit:
  assumes "flow_ok blocks successors" shows "entries_fit (length blocks, flow_entries blocks successors)"
  using assms mem_flow_entries [of _ _ blocks successors]
  by (fastforce simp: entries_fit_def length_flow_entries flow_ok_def flows_def)

lemma predecessors_built:
  assumes "flow_ok blocks successors"
  shows "\<exists>p. predecessors_new blocks successors = Inr p \<and>
    (\<forall>b. predecessors_for p b = Inr (row_of (id_index b) (flow_entries blocks successors)))"
proof -
  let ?i = "(length blocks, flow_entries blocks successors)"
  obtain c where c: "csr_from_entries (length blocks) (flow_entries blocks successors) = Inr c"
    using entry_rows.fits_build [OF flow_entries_fit [OF assms]] by auto
  have "row_of r (flow_entries blocks successors) = []" if "length blocks \<le> r" for r
    using that flow_entries_fit [OF assms] by (force simp: row_of_def entries_fit_def filter_empty_conv)
  then have "map_ok (\<lambda>vs. case vs of None \<Rightarrow> [] | Some vs \<Rightarrow> vs) (checked_row c r) =
      Inr (row_of r (flow_entries blocks successors))" for r
    using entry_rows.lookup_default [of ?i c] c by simp
  then show ?thesis using c
    by (simp add: predecessors_new_def predecessor_entries_eq [OF assms] predecessors_for_def)
qed

text \<open>
  The predecessor index of a well-formed flow graph is built without a panic, and lists for
  every block exactly the blocks that have it as a successor.
\<close>

theorem predecessors_correct:
  assumes "flow_ok blocks successors"
  shows "\<exists>p. predecessors_new blocks successors = Inr p \<and>
    (\<forall>b. \<exists>ps. predecessors_for p b = Inr ps \<and>
      set ps = {q. q \<noteq> 0 \<and> id_index q < length blocks \<and>
        id_index b \<in> id_index ` set (successors_of successors (blocks ! id_index q))})"
proof -
  have nz: "node_id i \<noteq> 0" "id_index (node_id i) = i" if "i < length blocks" for i
    using that assms u32_of_Suc_neq_0 [of i] index_node_id [of i] by (auto simp: flow_ok_def node_id_def simp del: of_nat_Suc)
  have "w \<in> set (row_of (id_index b) (flow_entries blocks successors)) \<longleftrightarrow>
      w \<noteq> 0 \<and> id_index w < length blocks \<and> id_index b \<in> id_index ` set (successors_of successors (blocks ! id_index w))" for w b
    using node_id_index [of w] by (auto simp: mem_flow_entries flows_def nz intro!: exI [of _ "id_index w"])
  then show ?thesis using predecessors_built [OF assms] by blast
qed

definition diamond_blocks :: "il_block list" where
  "diamond_blocks =
     map (\<lambda>(s, e). \<lparr>block_ops = range_empty, block_successors = \<lparr>r_start = s, r_end = e\<rparr>, block_properties = 0\<rparr>)
       [(0, 2), (2, 3), (3, 4), (4, 4)]"

definition diamond_successors :: "il_block_id list" where
  "diamond_successors = [2, 3, 4, 4]"

lemma diamond_flow_ok: "flow_ok diamond_blocks diamond_successors"
  by (simp add: flow_ok_def diamond_blocks_def diamond_successors_def successors_of_def sub_slice_def
      start_of_def end_of_def id_index_def)

theorem predecessors_correct_witness:
  "\<exists>p. predecessors_new diamond_blocks diamond_successors = Inr p \<and>
     (\<exists>ps. predecessors_for p 4 = Inr ps \<and> 2 \<in> set ps \<and> 3 \<in> set ps \<and> 1 \<notin> set ps)"
proof -
  obtain p ps where "predecessors_new diamond_blocks diamond_successors = Inr p" "predecessors_for p 4 = Inr ps"
    "set ps = {q. q \<noteq> 0 \<and> id_index q < length diamond_blocks \<and>
        id_index 4 \<in> id_index ` set (successors_of diamond_successors (diamond_blocks ! id_index q))}"
    using predecessors_correct [OF diamond_flow_ok] by blast
  then show ?thesis
    by (auto simp: diamond_blocks_def diamond_successors_def successors_of_def sub_slice_def start_of_def end_of_def
        id_index_def)
qed

section \<open>Operations and their blocks\<close>

lemma sorted_wrt_filter_iff: "sorted_wrt R (filter P xs) \<longleftrightarrow> sorted_wrt (\<lambda>a b. P a \<longrightarrow> P b \<longrightarrow> R a b) xs"
  by (induction xs) auto

lemma contains_index_unique:
  assumes "sorted_wrt apart (filled_ops blocks)" "k < length blocks" "k' < length blocks"
    "contains_index (block_ops (blocks ! k)) i" "contains_index (block_ops (blocks ! k')) i"
  shows "k = k'"
proof -
  have "sorted_wrt (\<lambda>a b. \<not> range_is_empty a \<longrightarrow> \<not> range_is_empty b \<longrightarrow> apart a b) (map block_ops blocks)"
    using assms(1) by (simp add: filled_ops_def sorted_wrt_filter_iff)
  from this [unfolded sorted_wrt_iff_nth_less, rule_format, of k k']
    this [unfolded sorted_wrt_iff_nth_less, rule_format, of k' k]
  show ?thesis using assms(2-5)
    by (cases k k' rule: linorder_cases) (auto simp: contains_index_def apart_def range_is_empty_iff)
qed

lemma op_blocks_mark_eq:
  "length (op_blocks_mark acc b ops) = length acc \<and>
   (\<forall>i < length acc. op_blocks_mark acc b ops ! i = (if i \<in> set ops then Some b else acc ! i))"
  by (induction acc b ops rule: op_blocks_mark.induct) (auto simp: nth_list_update)

lemma op_blocks_loop_eq:
  assumes "idx + length bs < 2 ^ 32"
  shows "\<exists>r. op_blocks_loop acc idx bs = Inr r \<and> length r = length acc \<and>
    (\<forall>i < length acc. (\<forall>k < length bs. \<not> contains_index (block_ops (bs ! k)) i) \<longrightarrow> r ! i = acc ! i) \<and>
    (\<forall>i < length acc. \<forall>k < length bs. contains_index (block_ops (bs ! k)) i \<longrightarrow>
       (\<forall>l < length bs. k < l \<longrightarrow> \<not> contains_index (block_ops (bs ! l)) i) \<longrightarrow> r ! i = Some (node_id (idx + k)))"
  using assms
proof (induction acc idx bs rule: op_blocks_loop.induct)
  case (2 acc idx b bs)
  let ?ops = "[start_of (block_ops b)..<end_of (block_ops b)]"
  have idx: "or_panic (try_from_index idx) = Inr (node_id idx)"
    using 2(2) by (simp add: try_from_index_node or_panic_def)
  obtain r where r: "op_blocks_loop (op_blocks_mark acc (node_id idx) ?ops) (Suc idx) bs = Inr r" "length r = length acc"
    "\<And>i. i < length acc \<Longrightarrow> \<forall>k < length bs. \<not> contains_index (block_ops (bs ! k)) i \<Longrightarrow>
       r ! i = (if contains_index (block_ops b) i then Some (node_id idx) else acc ! i)"
    "\<And>i k. i < length acc \<Longrightarrow> k < length bs \<Longrightarrow> contains_index (block_ops (bs ! k)) i \<Longrightarrow>
       \<forall>l < length bs. k < l \<longrightarrow> \<not> contains_index (block_ops (bs ! l)) i \<Longrightarrow> r ! i = Some (node_id (Suc idx + k))"
    using 2(1) [of "node_id idx"] 2(2) op_blocks_mark_eq [of acc "node_id idx" ?ops] by (auto simp: contains_index_def)
  have "r ! i = Some (node_id (idx + k))" if "i < length acc" "k < length (b # bs)" "contains_index (block_ops ((b # bs) ! k)) i"
    "\<forall>l < length (b # bs). k < l \<longrightarrow> \<not> contains_index (block_ops ((b # bs) ! l)) i" for i k
  proof (cases k)
    case 0
    have "\<forall>l < length bs. \<not> contains_index (block_ops (bs ! l)) i"
      using that(4) 0 by (metis Suc_less_eq length_Cons nth_Cons_Suc zero_less_Suc)
    then show ?thesis using r(3) [of i] that 0 by simp
  next
    case (Suc k')
    have "\<forall>l < length bs. k' < l \<longrightarrow> \<not> contains_index (block_ops (bs ! l)) i"
      using that(4) Suc by (metis Suc_less_eq length_Cons nth_Cons_Suc)
    then show ?thesis using r(4) [of i k'] that Suc by simp
  qed
  moreover have "r ! i = acc ! i" if "i < length acc" "\<forall>k < length (b # bs). \<not> contains_index (block_ops ((b # bs) ! k)) i" for i
    using that r(3) [of i] by (metis Suc_less_eq length_Cons nth_Cons_0 nth_Cons_Suc zero_less_Suc)
  ultimately show ?case using idx r(1,2) by auto
qed simp

text \<open>
  The table of \<open>op_blocks\<close> and the search of \<open>block_for_op\<close> agree on every graph the verifier
  accepts: the table has an entry per operation, and it is the block the search finds, \<open>None\<close> when
  no block holds the operation.
\<close>

theorem op_blocks_agree:
  assumes "graph_verify g = Inr ()"
  shows "\<exists>table. op_blocks g n = Inr table \<and> length table = n \<and>
    (\<forall>op. id_index op < n \<longrightarrow> table ! id_index op = block_for_op g op)"
proof -
  have ok: "graph_ok g" using assms by (simp add: graph_verify_iff)
  then obtain t where t: "op_blocks g n = Inr t" "length t = n"
    "\<And>i. i < n \<Longrightarrow> \<forall>k < length (g_blocks g). \<not> contains_index (block_ops (g_blocks g ! k)) i \<Longrightarrow> t ! i = None"
    "\<And>i k. i < n \<Longrightarrow> k < length (g_blocks g) \<Longrightarrow> contains_index (block_ops (g_blocks g ! k)) i \<Longrightarrow>
       \<forall>l < length (g_blocks g). k < l \<longrightarrow> \<not> contains_index (block_ops (g_blocks g ! l)) i \<Longrightarrow> t ! i = Some (node_id k)"
    using op_blocks_loop_eq [of 0 "g_blocks g" "replicate n None"] by (auto simp: op_blocks_def graph_ok_def)
  have "t ! id_index op = block_for_op g op" if "id_index op < n" for op
  proof (cases "position (\<lambda>b. contains_index (block_ops b) (id_index op)) (g_blocks g)")
    case None
    then have "\<forall>k < length (g_blocks g). \<not> contains_index (block_ops (g_blocks g ! k)) (id_index op)"
      by (simp add: position_None_iff)
    then show ?thesis using t(3) [OF that] None by (simp add: block_for_op_def)
  next
    case (Some k)
    then have k: "k < length (g_blocks g)" "contains_index (block_ops (g_blocks g ! k)) (id_index op)"
      by (auto simp: position_Some_iff)
    have "sorted_wrt apart (filled_ops (g_blocks g))" using ok by (simp add: graph_ok_def)
    from contains_index_unique [OF this k(1) _ k(2)]
    have "\<forall>l < length (g_blocks g). k < l \<longrightarrow> \<not> contains_index (block_ops (g_blocks g ! l)) (id_index op)"
      by blast
    then have "t ! id_index op = Some (node_id k)" by (rule t(4) [OF that k])
    moreover have "try_from_index k = Inr (node_id k)" using k ok by (auto simp: graph_ok_def intro!: try_from_index_node)
    ultimately show ?thesis by (simp add: block_for_op_def Some)
  qed
  then show ?thesis using t(1,2) by blast
qed

definition sample_graph :: "nat il_graph" where
  "sample_graph =
     \<lparr>g_blocks =
        [\<lparr>block_ops = \<lparr>r_start = 2, r_end = 5\<rparr>, block_successors = \<lparr>r_start = 0, r_end = 1\<rparr>, block_properties = ENTRY\<rparr>,
         \<lparr>block_ops = \<lparr>r_start = 0, r_end = 2\<rparr>, block_successors = \<lparr>r_start = 1, r_end = 1\<rparr>, block_properties = EXIT\<rparr>],
      g_successors = [2], g_successor_kinds = [UNCONDITIONAL], g_block_sources = []\<rparr>"

lemma sample_graph_ok: "graph_ok sample_graph"
  by (simp add: graph_ok_def sample_graph_def block_ok_def successors_of_def sub_slice_def start_of_def end_of_def
      id_index_def filled_ops_def range_is_empty_def apart_def)

lemma sample_graph_verified: "graph_verify sample_graph = Inr ()"
  using sample_graph_ok by (simp add: graph_verify_iff)

theorem op_blocks_agree_witness:
  "\<exists>table. op_blocks sample_graph 6 = Inr table \<and> length table = 6 \<and> table ! 1 = Some 2 \<and> table ! 4 = Some 1 \<and> table ! 5 = None"
proof -
  obtain table where t: "op_blocks sample_graph 6 = Inr table" "length table = 6"
    and eq: "\<And>op. id_index op < 6 \<Longrightarrow> table ! id_index op = block_for_op sample_graph op"
    using op_blocks_agree [OF sample_graph_verified] by blast
  have "table ! 1 = Some 2" "table ! 4 = Some 1" "table ! 5 = None"
    using eq [of 2] eq [of 5] eq [of 6]
    by (simp_all add: id_index_def block_for_op_def sample_graph_def contains_index_def start_of_def end_of_def
        try_from_index_eq)
  then show ?thesis using t by blast
qed

text \<open>Dropping operations from a verified graph.\<close>

definition remapped :: "(nat \<Rightarrow> bool) \<Rightarrow> nat \<Rightarrow> il_block \<Rightarrow> il_block" where
  "remapped kept n b =
     b\<lparr>block_ops := (case checked_map_range (mapper_from_kept n kept) (block_ops b) of Inr r \<Rightarrow> r | Inl _ \<Rightarrow> range_empty)\<rparr>"

lemma verify_node_bounds_iff:
  "verify_node_bounds g n = Inr () \<longleftrightarrow> (\<forall>b \<in> set (g_blocks g). verify_bounds (block_ops b) n = Inr ())"
proof -
  have "(\<exists>us. collect_ok (\<lambda>b. into_structure (lift_error (verify_bounds (block_ops b) n))) bs = Inr us) \<longleftrightarrow>
      (\<forall>b \<in> set bs. verify_bounds (block_ops b) n = Inr ())" for bs
    by (induction bs) (auto simp: outcome_simps)
  then show ?thesis by (auto simp: verify_node_bounds_def outcome_simps)
qed

lemma remapped_ops:
  assumes "verify_bounds (block_ops b) n = Inr ()"
  shows "checked_map_range (mapper_from_kept n kept) (block_ops b) = Inr (block_ops (remapped kept n b))"
    and "map_range (mapper_from_kept n kept) (block_ops b) = Inr (block_ops (remapped kept n b))"
    and "start_of (block_ops (remapped kept n b)) = kept_below kept (start_of (block_ops b))"
    and "end_of (block_ops (remapped kept n b)) = kept_below kept (end_of (block_ops b))"
  using map_range_from_kept [OF assms, of kept] by (auto simp: remapped_def)

lemma remap_op_ranges_eq:
  assumes "verify_node_bounds g n = Inr ()"
  shows "remap_op_ranges g (mapper_from_kept n kept) = Inr (g\<lparr>g_blocks := map (remapped kept n) (g_blocks g)\<rparr>)"
proof -
  have b: "verify_bounds (block_ops b) n = Inr ()" if "b \<in> set (g_blocks g)" for b
    using assms that by (simp add: verify_node_bounds_iff)
  have "remapped kept n b = b\<lparr>block_ops := block_ops (remapped kept n b)\<rparr>" for b by (simp add: remapped_def)
  then have "map_ok (\<lambda>r. b\<lparr>block_ops := r\<rparr>) (map_range (mapper_from_kept n kept) (block_ops b)) = Inr (remapped kept n b)"
    if "b \<in> set (g_blocks g)" for b using remapped_ops(2) [OF b [OF that], of kept] by (simp add: map_ok_def)
  then show ?thesis
    using remapped_ops(1) [OF b] by (simp add: remap_op_ranges_def collect_ok_all [where g = "remapped kept n"]
        collect_ok_all [where g = "\<lambda>b. block_ops (remapped kept n b)"])
qed

lemma apart_remapped:
  assumes "verify_bounds (block_ops a) n = Inr ()" "verify_bounds (block_ops b) n = Inr ()"
    "apart (block_ops a) (block_ops b)"
  shows "apart (block_ops (remapped kept n a)) (block_ops (remapped kept n b))"
  using assms(3) kept_below_mono [of _ _ kept] by (auto simp: apart_def remapped_ops [OF assms(1)] remapped_ops [OF assms(2)])

lemma graph_ok_remapped:
  assumes "graph_ok g" "verify_node_bounds g n = Inr ()"
  shows "graph_ok (g\<lparr>g_blocks := map (remapped kept n) (g_blocks g)\<rparr>)"
proof -
  have b: "\<forall>b \<in> set (g_blocks g). verify_bounds (block_ops b) n = Inr ()" using assms(2) by (simp add: verify_node_bounds_iff)
  have "sorted_wrt (\<lambda>a b. \<not> range_is_empty a \<longrightarrow> \<not> range_is_empty b \<longrightarrow> apart a b) (map block_ops (g_blocks g))"
    using assms(1) by (simp add: graph_ok_def filled_ops_def sorted_wrt_filter_iff)
  then have old: "sorted_wrt (\<lambda>a b. \<not> range_is_empty (block_ops a) \<longrightarrow> \<not> range_is_empty (block_ops b) \<longrightarrow>
      apart (block_ops a) (block_ops b)) (g_blocks g)" by (simp add: sorted_wrt_map)
  have "sorted_wrt (\<lambda>a b. \<not> range_is_empty (block_ops (remapped kept n a)) \<longrightarrow>
      \<not> range_is_empty (block_ops (remapped kept n b)) \<longrightarrow>
      apart (block_ops (remapped kept n a)) (block_ops (remapped kept n b))) (g_blocks g)"
    by (rule sorted_wrt_mono_rel [OF _ old])
      (use b in \<open>auto simp: range_is_empty_iff remapped_ops intro!: apart_remapped\<close>)
  then have "sorted_wrt apart (filled_ops (map (remapped kept n) (g_blocks g)))"
    by (simp add: filled_ops_def sorted_wrt_filter_iff sorted_wrt_map)
  moreover have "block_ok m ss (remapped kept n x)" if "x \<in> set (g_blocks g)" "block_ok m ss x" for m ss x
    using that b remapped_ops [of x n kept] kept_below_mono [of "start_of (block_ops x)" "end_of (block_ops x)" kept]
    by (simp add: block_ok_def successors_of_def) (simp add: remapped_def)
  ultimately show ?thesis using assms(1) by (auto simp: graph_ok_def)
qed

text \<open>
  C33: Dropping operations from a verified graph: \<open>remap_op_ranges\<close> with the mapper of the kept
  operations succeeds, the graph passes the verifier again, its edges are untouched and each block
  holds exactly the kept operations of its old range, in order.
\<close>

theorem remap_op_ranges_correct:
  assumes "graph_verify g = Inr ()" "verify_node_bounds g (length ops) = Inr ()"
  shows "\<exists>g'. remap_op_ranges g (mapper_from_kept (length ops) kept) = Inr g' \<and>
    graph_verify g' = Inr () \<and> g_successors g' = g_successors g \<and>
    map block_successors (g_blocks g') = map block_successors (g_blocks g) \<and>
    (\<forall>i < length (g_blocks g). let r = block_ops (g_blocks g ! i) in
       range_slice (block_ops (g_blocks g' ! i)) (nths ops {k. kept k}) =
         Inr (nths (sub_slice (start_of r) (end_of r) ops) {k. kept (start_of r + k)}))"
proof -
  let ?g = "g\<lparr>g_blocks := map (remapped kept (length ops)) (g_blocks g)\<rparr>"
  have ok: "graph_ok ?g" using graph_ok_remapped assms by (simp add: graph_verify_iff)
  have "range_slice (block_ops (remapped kept (length ops) b)) (nths ops {k. kept k}) =
      Inr (nths (sub_slice (start_of (block_ops b)) (end_of (block_ops b)) ops) {k. kept (start_of (block_ops b) + k)})"
    if "b \<in> set (g_blocks g)" for b
  proof -
    have b: "verify_bounds (block_ops b) (length ops) = Inr ()" using assms(2) that by (simp add: verify_node_bounds_iff)
    then have "kept_below kept (end_of (block_ops b)) \<le> kept_below kept (length ops)"
      "kept_below kept (start_of (block_ops b)) \<le> kept_below kept (end_of (block_ops b))"
      by (auto simp: verify_bounds_ok intro!: kept_below_mono)
    moreover have "kept_below kept (length ops) = length (nths ops {k. kept k})"
      using length_nths_prefix [of "length ops" ops kept] by simp
    ultimately show ?thesis using b nths_sub_slice [of "start_of (block_ops b)" "end_of (block_ops b)" ops kept]
      by (simp add: remapped_ops [OF b] range_slice_ok) (simp add: verify_bounds_ok)
  qed
  moreover have "block_successors (remapped kept (length ops) b) = block_successors b" for b by (simp add: remapped_def)
  ultimately show ?thesis
    using remap_op_ranges_eq [OF assms(2), of kept] ok by (auto simp: graph_verify_iff Let_def)
qed

theorem remap_op_ranges_correct_witness:
  "\<exists>g'. remap_op_ranges sample_graph (mapper_from_kept 5 (\<lambda>i. i \<noteq> 1 \<and> i \<noteq> 3)) = Inr g' \<and> graph_verify g' = Inr () \<and>
     range_slice (block_ops (g_blocks g' ! 0)) ''ace'' = Inr ''ce'' \<and>
     range_slice (block_ops (g_blocks g' ! 1)) ''ace'' = Inr ''a''"
proof -
  have "verify_node_bounds sample_graph (length ''abcde'') = Inr ()"
    by (simp add: verify_node_bounds_iff sample_graph_def verify_bounds_def start_of_def end_of_def)
  note bounds = this
  have five: "length ''abcde'' = 5" by simp
  from remap_op_ranges_correct [OF sample_graph_verified bounds, of "\<lambda>i. i \<noteq> 1 \<and> i \<noteq> 3"]
  obtain g' where g': "remap_op_ranges sample_graph (mapper_from_kept 5 (\<lambda>i. i \<noteq> 1 \<and> i \<noteq> 3)) = Inr g'"
      "graph_verify g' = Inr ()"
    and ops: "\<And>i. i < length (g_blocks sample_graph) \<Longrightarrow> let r = block_ops (g_blocks sample_graph ! i) in
       range_slice (block_ops (g_blocks g' ! i)) (nths ''abcde'' {k. k \<noteq> 1 \<and> k \<noteq> 3}) =
         Inr (nths (sub_slice (start_of r) (end_of r) ''abcde'') {k. start_of r + k \<noteq> 1 \<and> start_of r + k \<noteq> 3})"
    unfolding five by blast
  show ?thesis using g' ops [of 0] ops [of 1]
    by (auto simp: sample_graph_def Let_def start_of_def end_of_def sub_slice_def nths_Cons)
qed

end
