(* ===== verification/FlowGraph.thy ===== *)
theory FlowGraph
  imports Main
begin

text \<open>
  Flow graphs in the abstract: walks from an entry, dominance, and the iteration that computes
  dominators by intersecting the dominator chains of the predecessors in reverse postorder. The
  analysis of \<open>fugue-core/src/il/common/dominance.rs\<close> is an instance: the locale \<open>numbered_graph\<close>
  states what its depth-first numbering promises, and the theory \<open>Dominance\<close> interprets it.
\<close>

section \<open>Walks and dominance\<close>

inductive walk :: "('v \<Rightarrow> 'v \<Rightarrow> bool) \<Rightarrow> 'v \<Rightarrow> 'v list \<Rightarrow> 'v \<Rightarrow> bool" for E r where
  start: "walk E r [r] r"
| step: "walk E r vs u \<Longrightarrow> E u v \<Longrightarrow> walk E r (vs @ [v]) v"

definition reaches :: "('v \<Rightarrow> 'v \<Rightarrow> bool) \<Rightarrow> 'v \<Rightarrow> 'v \<Rightarrow> bool" where
  "reaches E r v \<longleftrightarrow> (\<exists>vs. walk E r vs v)"

text \<open>\<open>d\<close> dominates \<open>v\<close>: \<open>v\<close> can be reached, and only through \<open>d\<close>.\<close>

definition dominates_in :: "('v \<Rightarrow> 'v \<Rightarrow> bool) \<Rightarrow> 'v \<Rightarrow> 'v \<Rightarrow> 'v \<Rightarrow> bool" where
  "dominates_in E r d v \<longleftrightarrow> reaches E r v \<and> (\<forall>vs. walk E r vs v \<longrightarrow> d \<in> set vs)"

lemma walk_ends: "walk E r vs v \<Longrightarrow> vs \<noteq> [] \<and> last vs = v \<and> hd vs = r \<and> r \<in> set vs \<and> v \<in> set vs"
  by (induction rule: walk.induct) auto

lemma reaches_entry [simp]: "reaches E r r"
  unfolding reaches_def by (rule exI, rule walk.start)

lemma reaches_step: "reaches E r u \<Longrightarrow> E u v \<Longrightarrow> reaches E r v"
  unfolding reaches_def by (auto intro: walk.step)

lemma reaches_induct [consumes 1, case_names entry step]:
  assumes "reaches E r v" "P r" "\<And>u v. reaches E r u \<Longrightarrow> P u \<Longrightarrow> E u v \<Longrightarrow> P v"
  shows "P v"
proof -
  obtain vs where "walk E r vs v" using assms(1) by (auto simp: reaches_def)
  then show ?thesis by (induction rule: walk.induct) (use assms(2,3) in \<open>auto simp: reaches_def\<close>)
qed

lemma walk_prefix:
  assumes "walk E r vs v" "d \<in> set vs"
  shows "\<exists>us. walk E r us d \<and> set us \<subseteq> set vs \<and> length us \<le> length vs"
  using assms
proof (induction rule: walk.induct)
  case start
  then show ?case using walk.start [of E r] by auto
next
  case (step vs u v)
  then show ?case
  proof (cases "d \<in> set vs")
    case False
    then show ?thesis using step walk.step [OF step(1,2)] by (intro exI [of _ "vs @ [v]"]) auto
  qed (fastforce)
qed

lemma dominates_reaches: "dominates_in E r d v \<Longrightarrow> reaches E r v \<and> reaches E r d"
  unfolding dominates_in_def reaches_def using walk_prefix [of E r] by meson

lemma dominates_refl: "reaches E r v \<Longrightarrow> dominates_in E r v v"
  by (auto simp: dominates_in_def dest: walk_ends)

lemma entry_dominates: "reaches E r v \<Longrightarrow> dominates_in E r r v"
  by (auto simp: dominates_in_def dest: walk_ends)

lemma dominates_trans: "dominates_in E r a b \<Longrightarrow> dominates_in E r b c \<Longrightarrow> dominates_in E r a c"
  unfolding dominates_in_def using walk_prefix [of E r] by (meson subsetD)

lemma dominates_entry: "dominates_in E r d r \<longleftrightarrow> d = r"
proof
  assume "dominates_in E r d r"
  then show "d = r" using walk.start [of E r] by (auto simp: dominates_in_def)
qed (simp add: dominates_refl)

lemma dominates_antisym:
  assumes "dominates_in E r a b" "dominates_in E r b a" shows "a = b"
proof (rule ccontr)
  assume neq: "a \<noteq> b"
  have walk: "\<exists>vs. walk E r vs a" using assms(2) by (auto simp: dominates_in_def reaches_def)
  define n where "n = (LEAST k. \<exists>vs. walk E r vs a \<and> length vs = k)"
  obtain vs where vs: "walk E r vs a" "length vs = n"
    using LeastI_ex [of "\<lambda>k. \<exists>vs. walk E r vs a \<and> length vs = k"] walk unfolding n_def by blast
  have "\<exists>us. walk E r us b \<and> length us < n"
  proof -
    have "b \<in> set vs" using assms(2) vs by (auto simp: dominates_in_def)
    from vs(1) show ?thesis
    proof (cases rule: walk.cases)
      case start
      then show ?thesis using \<open>b \<in> set vs\<close> neq by auto
    next
      case (step ws u)
      then have "b \<in> set ws" using \<open>b \<in> set vs\<close> neq by auto
      from walk_prefix [OF step(2) this] show ?thesis using vs(2) step(1) by auto
    qed
  qed
  then obtain us where us: "walk E r us b" "length us < n" by blast
  then have "a \<in> set us" using assms(1) by (auto simp: dominates_in_def)
  then obtain ws where "walk E r ws a" "length ws < n" using walk_prefix [OF us(1)] us(2) by fastforce
  then show False using not_less_Least [of "length ws" "\<lambda>k. \<exists>vs. walk E r vs a \<and> length vs = k"] unfolding n_def by blast
qed

lemma dominates_pred:
  assumes "dominates_in E r d v" "d \<noteq> v" "reaches E r u" "E u v"
  shows "dominates_in E r d u"
  unfolding dominates_in_def
proof (intro conjI allI impI)
  fix vs assume "walk E r vs u"
  from walk.step [OF this assms(4)] have "d \<in> set (vs @ [v])" using assms(1) by (auto simp: dominates_in_def)
  then show "d \<in> set vs" using assms(2) by simp
qed (rule assms(3))

text \<open>A walk that avoids \<open>d\<close> can be continued along edges that avoid \<open>d\<close>.\<close>

lemma avoid_extend:
  assumes "\<not> dominates_in E r d u" "reaches E r u" "E u v" "v \<noteq> d"
  shows "\<not> dominates_in E r d v"
  using assms dominates_pred [of E r d v u] by blast

section \<open>Dominator chains\<close>

text \<open>
  The state of the iteration is a partial map to immediate dominators, the entry its own. The
  chain of a node is the node with all nodes above it.
\<close>

definition up :: "'v \<Rightarrow> ('v \<Rightarrow> 'v option) \<Rightarrow> 'v \<Rightarrow> 'v \<Rightarrow> bool" where
  "up r idom a b \<longleftrightarrow> a \<noteq> r \<and> idom a = Some b"

definition chain :: "'v \<Rightarrow> ('v \<Rightarrow> 'v option) \<Rightarrow> 'v \<Rightarrow> 'v set" where
  "chain r idom b = {x. (up r idom)\<^sup>*\<^sup>* b x}"

definition chain_ok :: "('v \<Rightarrow> 'v \<Rightarrow> bool) \<Rightarrow> 'v \<Rightarrow> ('v \<Rightarrow> nat) \<Rightarrow> ('v \<Rightarrow> 'v option) \<Rightarrow> bool" where
  "chain_ok E r pos idom \<longleftrightarrow>
     idom r = Some r \<and>
     (\<forall>b m. idom b = Some m \<longrightarrow> reaches E r b \<and> (b \<noteq> r \<longrightarrow> idom m \<noteq> None \<and> pos m < pos b))"

definition ready_preds :: "('v \<Rightarrow> 'v \<Rightarrow> bool) \<Rightarrow> 'v \<Rightarrow> ('v \<Rightarrow> 'v option) \<Rightarrow> 'v \<Rightarrow> 'v set" where
  "ready_preds E r idom b = {p. E p b \<and> reaches E r p \<and> idom p \<noteq> None}"

lemma chain_refl [simp]: "b \<in> chain r idom b"
  by (simp add: chain_def)

lemma chain_entry [simp]: "chain r idom r = {r}"
  by (auto simp: chain_def up_def elim: converse_rtranclpE)

lemma chain_None: "idom b = None \<Longrightarrow> chain r idom b = {b}"
  by (auto simp: chain_def up_def elim: converse_rtranclpE)

lemma chain_Some: "b \<noteq> r \<Longrightarrow> idom b = Some m \<Longrightarrow> chain r idom b = insert b (chain r idom m)"
  by (auto simp: chain_def up_def intro: converse_rtranclp_into_rtranclp elim: converse_rtranclpE)

lemma chain_trans: "x \<in> chain r idom b \<Longrightarrow> y \<in> chain r idom x \<Longrightarrow> y \<in> chain r idom b"
  unfolding chain_def by (simp add: rtranclp_trans)

lemma chain_induct [consumes 1, case_names here up]:
  assumes "x \<in> chain r idom b" "P x"
    "\<And>b m. b \<noteq> r \<Longrightarrow> idom b = Some m \<Longrightarrow> x \<in> chain r idom m \<Longrightarrow> P m \<Longrightarrow> P b"
  shows "P b"
proof -
  have "(up r idom)\<^sup>*\<^sup>* b x" using assms(1) by (simp add: chain_def)
  then show ?thesis
    by (induction rule: converse_rtranclp_induct) (use assms(2,3) in \<open>auto simp: up_def chain_def\<close>)
qed

lemma chain_linear: "x \<in> chain r idom b \<Longrightarrow> y \<in> chain r idom b \<Longrightarrow> x \<in> chain r idom y \<or> y \<in> chain r idom x"
proof (induction rule: chain_induct)
  case (up b m)
  then show ?case using chain_Some [of b r idom m] by auto
qed simp

lemma chain_pos:
  assumes "chain_ok E r pos idom" "x \<in> chain r idom b" shows "x = b \<or> pos x < pos b"
  using assms(2)
proof (induction rule: chain_induct)
  case (up b m)
  then show ?case using assms(1) by (fastforce simp: chain_ok_def)
qed simp

lemma chain_ready:
  assumes "chain_ok E r pos idom" "x \<in> chain r idom b" "idom b \<noteq> None"
  shows "idom x \<noteq> None \<and> reaches E r x"
  using assms(2,3)
proof (induction rule: chain_induct)
  case here
  then show ?case using assms(1) by (auto simp: chain_ok_def)
next
  case (up b m)
  then show ?case using assms(1) by (auto simp: chain_ok_def)
qed

lemma chain_to_entry:
  assumes ok: "chain_ok E r pos idom" shows "idom b \<noteq> None \<Longrightarrow> r \<in> chain r idom b"
proof (induction "pos b" arbitrary: b rule: less_induct)
  case less
  show ?case
  proof (cases "b = r")
    case False
    then obtain m where m: "idom b = Some m" "idom m \<noteq> None" "pos m < pos b"
      using ok less.prems unfolding chain_ok_def by blast
    then show ?thesis using less.hyps [of m] chain_Some [of b r idom m, OF False m(1)] by simp
  qed simp
qed

text \<open>Replacing the parent of one node \<open>c\<close>; \<open>f\<close> is the new map.\<close>

lemma chain_update_other:
  assumes f: "\<And>a. a \<noteq> c \<Longrightarrow> f a = idom a" and c: "c \<notin> chain r idom b"
  shows "chain r f b = chain r idom b"
proof -
  have fwd: "y \<in> chain r f b" if "y \<in> chain r idom b" for y
    using that c
  proof (induction rule: chain_induct)
    case (up b m)
    then have "b \<noteq> c" "c \<notin> chain r idom m" using chain_Some [of b r idom m] by auto
    then show ?case using up f [of b] chain_Some [of b r f m] by simp
  qed simp
  have bwd: "y \<in> chain r idom b" if "y \<in> chain r f b" for y
    using that c
  proof (induction rule: chain_induct)
    case (up b m)
    then have "b \<noteq> c" by auto
    then show ?case using up f [of b] chain_Some [of b r idom m] by simp
  qed simp
  show ?thesis using fwd bwd by blast
qed

lemma chain_update_self:
  assumes "\<And>a. a \<noteq> c \<Longrightarrow> f a = idom a" "f c = Some x" "c \<noteq> r" "c \<notin> chain r idom x"
  shows "chain r f c = insert c (chain r idom x)"
  using chain_Some [of c r f x] chain_update_other [of c f idom r x] assms by simp

text \<open>The chain of a node below \<open>c\<close>: the part down to \<open>c\<close> stays, the rest is that of the new parent.\<close>

lemma chain_update_below:
  assumes f: "\<And>a. a \<noteq> c \<Longrightarrow> f a = idom a" "f c = Some x"
    and ok: "chain_ok E r pos idom" and c: "c \<noteq> r" "c \<notin> chain r idom x" and b: "c \<in> chain r idom b"
  shows "chain r f b = {y \<in> chain r idom b. c \<in> chain r idom y} \<union> chain r idom x"
  using b
proof (induction rule: chain_induct)
  case here
  have "y = c" if "y \<in> chain r idom c" "c \<in> chain r idom y" for y
    using chain_pos [OF ok that(1)] chain_pos [OF ok that(2)] by auto
  then show ?case using chain_update_self [OF f c] by auto
next
  case (up b m)
  have "pos m < pos b" using up(1,2) ok by (simp add: chain_ok_def)
  then have "b \<noteq> c" using chain_pos [OF ok up(3)] by auto
  then have "chain r f b = insert b (chain r f m)" using chain_Some [of b r f m] up(1,2) f by simp
  moreover have "c \<in> chain r idom b" using up chain_Some [of b r idom m] by simp
  ultimately show ?case using up chain_Some [of b r idom m] by auto
qed

lemma chain_update_subset:
  assumes f: "\<And>a. a \<noteq> c \<Longrightarrow> f a = idom a" "f c = Some x"
    and ok: "chain_ok E r pos idom" and c: "c \<noteq> r" and x: "x \<in> chain r idom c" "x \<noteq> c"
  shows "chain r f b \<subseteq> chain r idom b"
proof (cases "c \<in> chain r idom b")
  case True
  have below: "c \<notin> chain r idom x" using chain_pos [OF ok x(1)] chain_pos [OF ok, of c x] x(2) by auto
  have "chain r f b = {y \<in> chain r idom b. c \<in> chain r idom y} \<union> chain r idom x"
    by (rule chain_update_below [OF f ok c below True])
  moreover have "chain r idom x \<subseteq> chain r idom b" using True x(1) chain_trans by (metis subsetI)
  ultimately show ?thesis by auto
next
  case False
  then show ?thesis using chain_update_other [of c f idom r b] f by simp
qed

section \<open>The iteration over a reverse postorder\<close>

text \<open>
  What the iteration keeps while it visits the nodes in the order of their numbers, with the nodes
  below \<open>k\<close> visited in the current round: the state is well-formed; visited nodes have a chain;
  either the first round is under way or all nodes have one; the chain of a visited node lies in
  that of each earlier predecessor, and for a node still to visit this holds above \<open>k\<close>; a node is
  above \<open>b\<close> when it is above all ready predecessors of \<open>b\<close>; and every dominator is in the chain.
\<close>

definition rounds :: "('v \<Rightarrow> 'v \<Rightarrow> bool) \<Rightarrow> 'v \<Rightarrow> ('v \<Rightarrow> nat) \<Rightarrow> nat \<Rightarrow> ('v \<Rightarrow> 'v option) \<Rightarrow> bool" where
  "rounds E r pos k idom \<longleftrightarrow>
     chain_ok E r pos idom \<and>
     (\<forall>b. reaches E r b \<longrightarrow> pos b < k \<longrightarrow> idom b \<noteq> None) \<and>
     ((\<forall>b. idom b \<noteq> None \<longrightarrow> b = r \<or> pos b < k) \<or> (\<forall>b. reaches E r b \<longrightarrow> idom b \<noteq> None))"

definition aligned :: "('v \<Rightarrow> 'v \<Rightarrow> bool) \<Rightarrow> 'v \<Rightarrow> ('v \<Rightarrow> nat) \<Rightarrow> nat \<Rightarrow> ('v \<Rightarrow> 'v option) \<Rightarrow> bool" where
  "aligned E r pos k idom \<longleftrightarrow>
     (\<forall>b f z. idom b \<noteq> None \<longrightarrow> b \<noteq> r \<longrightarrow> E f b \<longrightarrow> reaches E r f \<longrightarrow> pos f < pos b \<longrightarrow>
        z \<in> chain r idom b \<longrightarrow> z \<noteq> b \<longrightarrow> pos b < k \<or> k \<le> pos z \<longrightarrow> z \<in> chain r idom f)"

definition descending :: "('v \<Rightarrow> 'v \<Rightarrow> bool) \<Rightarrow> 'v \<Rightarrow> ('v \<Rightarrow> 'v option) \<Rightarrow> bool" where
  "descending E r idom \<longleftrightarrow>
     (\<forall>b v. idom b \<noteq> None \<longrightarrow> b \<noteq> r \<longrightarrow> (\<forall>p \<in> ready_preds E r idom b. v \<in> chain r idom p) \<longrightarrow> v \<in> chain r idom b)"

definition covering :: "('v \<Rightarrow> 'v \<Rightarrow> bool) \<Rightarrow> 'v \<Rightarrow> ('v \<Rightarrow> 'v option) \<Rightarrow> bool" where
  "covering E r idom \<longleftrightarrow> (\<forall>b d. idom b \<noteq> None \<longrightarrow> dominates_in E r d b \<longrightarrow> d \<in> chain r idom b)"

definition chk_inv :: "('v \<Rightarrow> 'v \<Rightarrow> bool) \<Rightarrow> 'v \<Rightarrow> ('v \<Rightarrow> nat) \<Rightarrow> nat \<Rightarrow> ('v \<Rightarrow> 'v option) \<Rightarrow> bool" where
  "chk_inv E r pos k idom \<longleftrightarrow>
     rounds E r pos k idom \<and> aligned E r pos k idom \<and> descending E r idom \<and> covering E r idom"

text \<open>The contract of the numbering: no two nodes share a number, and every node but the entry has
  a predecessor with a smaller one.\<close>

locale numbered_graph =
  fixes E :: "'v \<Rightarrow> 'v \<Rightarrow> bool" and r :: 'v and pos :: "'v \<Rightarrow> nat"
  assumes pos_inj: "reaches E r u \<Longrightarrow> reaches E r v \<Longrightarrow> pos u = pos v \<Longrightarrow> u = v"
    and forward_pred: "reaches E r v \<Longrightarrow> v \<noteq> r \<Longrightarrow> \<exists>f. reaches E r f \<and> E f v \<and> pos f < pos v"
begin

lemma entry_pos: "reaches E r v \<Longrightarrow> v \<noteq> r \<Longrightarrow> pos r < pos v"
proof (induction "pos v" arbitrary: v rule: less_induct)
  case less
  obtain f where f: "reaches E r f" "E f v" "pos f < pos v" using forward_pred [OF less.prems] by blast
  then show ?case using less.hyps [OF f(3,1)] by (cases "f = r") auto
qed

text \<open>The common part of the predecessors' chains, as the node that heads it.\<close>

lemma meet_below:
  assumes inv: "rounds E r pos k idom" and c: "reaches E r c" "c \<noteq> r" "pos c = k"
    and x: "\<And>z. z \<in> chain r idom x \<longleftrightarrow> (\<forall>p \<in> ready_preds E r idom c. z \<in> chain r idom p)"
  shows "pos x < pos c" "c \<notin> chain r idom x"
proof -
  obtain f where f: "reaches E r f" "E f c" "pos f < pos c" using forward_pred [OF c(1,2)] by blast
  then have "f \<in> ready_preds E r idom c" using inv c(3) by (auto simp: ready_preds_def rounds_def)
  then have "x \<in> chain r idom f" using x [of x] by simp
  moreover have ok: "chain_ok E r pos idom" using inv by (simp add: rounds_def)
  ultimately show "pos x < pos c" using chain_pos [OF ok] f(3) by fastforce
  then show "c \<notin> chain r idom x" using chain_pos [OF ok, of c x] by auto
qed

lemma rounds_step:
  assumes inv: "rounds E r pos k idom" and c: "reaches E r c" "c \<noteq> r" "pos c = k"
    and x: "\<And>z. z \<in> chain r idom x \<longleftrightarrow> (\<forall>p \<in> ready_preds E r idom c. z \<in> chain r idom p)"
      "idom x \<noteq> None"
    and f: "\<And>a. a \<noteq> c \<Longrightarrow> f a = idom a" "f c = Some x"
  shows "rounds E r pos (Suc k) f"
proof -
  note below = meet_below [OF inv c x(1)]
  have set: "f b \<noteq> None \<longleftrightarrow> b = c \<or> idom b \<noteq> None" for b using f by (cases "b = c") auto
  have "f r = Some r" using f c(2) inv by (auto simp: rounds_def chain_ok_def)
  moreover have "reaches E r b \<and> (b \<noteq> r \<longrightarrow> f m \<noteq> None \<and> pos m < pos b)" if "f b = Some m" for b m
  proof (cases "b = c")
    case True
    then show ?thesis using that f c(1) below(1) set x(2) by auto
  next
    case False
    then show ?thesis using that f set inv by (auto simp: rounds_def chain_ok_def)
  qed
  moreover have "f b \<noteq> None" if "reaches E r b" "pos b < Suc k" for b
    using that set inv pos_inj [OF that(1) c(1)] c(3) by (cases "pos b = k") (auto simp: rounds_def)
  moreover have "(\<forall>b. f b \<noteq> None \<longrightarrow> b = r \<or> pos b < Suc k) \<or> (\<forall>b. reaches E r b \<longrightarrow> f b \<noteq> None)"
  proof (cases "\<forall>b. idom b \<noteq> None \<longrightarrow> b = r \<or> pos b < k")
    case True
    then have "\<forall>b. f b \<noteq> None \<longrightarrow> b = r \<or> pos b < Suc k" using set c(3) by (metis less_SucI lessI)
    then show ?thesis ..
  next
    case False
    then have "\<forall>b. reaches E r b \<longrightarrow> idom b \<noteq> None" using inv unfolding rounds_def by blast
    then show ?thesis using set by blast
  qed
  ultimately show ?thesis unfolding rounds_def chain_ok_def by blast
qed

text \<open>The first visit of a node: no chain of a ready node changes.\<close>

lemma first_chain:
  assumes inv: "rounds E r pos k idom" and c: "idom c = None" and f: "\<And>a. a \<noteq> c \<Longrightarrow> f a = idom a"
    and b: "idom b \<noteq> None"
  shows "chain r f b = chain r idom b"
proof -
  have ok: "chain_ok E r pos idom" using inv by (simp add: rounds_def)
  have "c \<notin> chain r idom b" using chain_ready [OF ok _ b] c by blast
  then show ?thesis using chain_update_other f by metis
qed

lemma first_step:
  assumes inv: "chk_inv E r pos k idom" and c: "reaches E r c" "c \<noteq> r" "pos c = k" "idom c = None"
    and x: "\<And>z. z \<in> chain r idom x \<longleftrightarrow> (\<forall>p \<in> ready_preds E r idom c. z \<in> chain r idom p)"
      "idom x \<noteq> None"
    and f: "\<And>a. a \<noteq> c \<Longrightarrow> f a = idom a" "f c = Some x"
  shows "chk_inv E r pos (Suc k) f"
proof -
  have rounds: "rounds E r pos k idom" and al: "aligned E r pos k idom" and de: "descending E r idom"
    and co: "covering E r idom" using inv by (auto simp: chk_inv_def)
  note below = meet_below [OF rounds c(1-3) x(1)]
  have small: "b = r \<or> pos b < k" if "idom b \<noteq> None" for b
    using rounds that c unfolding rounds_def by blast
  have same: "chain r f b = chain r idom b" if "idom b \<noteq> None" for b
    using first_chain [OF rounds c(4) f(1) that] .
  have self: "chain r f c = insert c (chain r idom x)" by (rule chain_update_self [OF f c(2) below(2)])
  have ready: "idom b \<noteq> None" if "reaches E r b" "pos b < k" for b using rounds that by (simp add: rounds_def)
  have set: "f b \<noteq> None \<longleftrightarrow> b = c \<or> idom b \<noteq> None" for b using f by (cases "b = c") auto
  have sub: "ready_preds E r idom b \<subseteq> ready_preds E r f b" for b using set by (auto simp: ready_preds_def)
  have "aligned E r pos (Suc k) f"
    unfolding aligned_def
  proof (intro allI impI)
    fix b q z
    assume h: "f b \<noteq> None" "b \<noteq> r" "E q b" "reaches E r q" "pos q < pos b" "z \<in> chain r f b" "z \<noteq> b"
    have b: "b = c \<or> idom b \<noteq> None \<and> pos b < k" using h(1,2) set small by blast
    then have q: "idom q \<noteq> None" using ready [OF h(4)] h(5) c(3) by auto
    show "z \<in> chain r f q"
    proof (cases "b = c")
      case True
      then have "q \<in> ready_preds E r idom c" using h q by (simp add: ready_preds_def)
      then show ?thesis using True h(6,7) self x(1) same [OF q] by auto
    next
      case False
      then have "z \<in> chain r idom b" "pos b < k" "idom b \<noteq> None" using b h(6) same by auto
      then show ?thesis using al h same [OF q] unfolding aligned_def by blast
    qed
  qed
  moreover have "descending E r f"
    unfolding descending_def
  proof (intro allI impI)
    fix b v
    assume h: "f b \<noteq> None" "b \<noteq> r" "\<forall>p \<in> ready_preds E r f b. v \<in> chain r f p"
    have v: "\<forall>p \<in> ready_preds E r idom b. v \<in> chain r idom p"
    proof
      fix p assume p: "p \<in> ready_preds E r idom b"
      then have "idom p \<noteq> None" by (simp add: ready_preds_def)
      moreover have "v \<in> chain r f p" using h(3) sub p by blast
      ultimately show "v \<in> chain r idom p" using same by simp
    qed
    show "v \<in> chain r f b"
    proof (cases "b = c")
      case True
      then show ?thesis using v x(1) self by simp
    next
      case False
      then have "idom b \<noteq> None" using h(1) set by blast
      then show ?thesis using de h(2) v same [of b] unfolding descending_def by blast
    qed
  qed
  moreover have "covering E r f"
    unfolding covering_def
  proof (intro allI impI)
    fix b d assume h: "f b \<noteq> None" "dominates_in E r d b"
    show "d \<in> chain r f b"
    proof (cases "b = c")
      case True
      have "d \<in> chain r idom p" if "d \<noteq> c" "p \<in> ready_preds E r idom c" for p
        using dominates_pred [of E r d c p] h(2) that True co by (auto simp: ready_preds_def covering_def)
      then show ?thesis using x(1) self True by auto
    next
      case False
      then show ?thesis using h set same co by (auto simp: covering_def)
    qed
  qed
  ultimately show ?thesis using rounds_step [OF rounds c(1-3) x f] by (simp add: chk_inv_def)
qed

text \<open>Later visits: chains only shrink.\<close>

lemma aligned_above:
  assumes al: "aligned E r pos k idom" and ok: "chain_ok E r pos idom" and c: "pos c = k" "c \<noteq> r"
    and b: "c \<in> chain r idom b" "c \<noteq> b" "idom b \<noteq> None" and q: "E q b" "reaches E r q" "pos q < pos b"
  shows "c \<in> chain r idom q"
proof -
  have "b \<noteq> r" using b c(2) by auto
  moreover have "pos c < pos b" using chain_pos [OF ok b(1)] b(2) by auto
  ultimately show ?thesis using al b q c unfolding aligned_def by blast
qed

lemma dominates_above:
  assumes al: "aligned E r pos k idom" and ok: "chain_ok E r pos idom" and all: "\<And>b. reaches E r b \<Longrightarrow> idom b \<noteq> None"
    and c: "pos c = k" "c \<noteq> r" and d: "pos d < pos c" "\<not> dominates_in E r d c"
  shows "c \<in> chain r idom b \<Longrightarrow> reaches E r b \<Longrightarrow> \<not> dominates_in E r d b"
proof (induction "pos b" arbitrary: b rule: less_induct)
  case less
  show ?case
  proof (cases "b = c")
    case False
    have "b \<noteq> r" using less.prems c(2) by auto
    then obtain q where q: "reaches E r q" "E q b" "pos q < pos b" using forward_pred less.prems(2) by blast
    have "c \<in> chain r idom q"
      using aligned_above [OF al ok c less.prems(1) _ all [OF less.prems(2)] q(2,1,3)] False by simp
    then have "\<not> dominates_in E r d q" using less.hyps [OF q(3)] q(1) by simp
    moreover have "b \<noteq> d" using chain_pos [OF ok less.prems(1)] d(1) by auto
    ultimately show ?thesis using avoid_extend q by metis
  qed (use d in simp)
qed

lemma later_step:
  assumes inv: "chk_inv E r pos k idom" and c: "reaches E r c" "c \<noteq> r" "pos c = k" "idom c = Some m"
    and x: "\<And>z. z \<in> chain r idom x \<longleftrightarrow> (\<forall>p \<in> ready_preds E r idom c. z \<in> chain r idom p)"
      "idom x \<noteq> None"
    and f: "\<And>a. a \<noteq> c \<Longrightarrow> f a = idom a" "f c = Some x"
  shows "chk_inv E r pos (Suc k) f" "x \<in> chain r idom m"
proof -
  have rounds: "rounds E r pos k idom" and al: "aligned E r pos k idom" and de: "descending E r idom"
    and co: "covering E r idom" using inv by (auto simp: chk_inv_def)
  have ok: "chain_ok E r pos idom" using rounds by (simp add: rounds_def)
  note below = meet_below [OF rounds c(1-3) x(1)]
  have all: "idom b \<noteq> None" if "reaches E r b" for b using rounds c that unfolding rounds_def by force
  have set: "f b \<noteq> None \<longleftrightarrow> idom b \<noteq> None" for b using f c(4) by (cases "b = c") auto
  then have preds: "ready_preds E r f b = ready_preds E r idom b" for b by (simp add: ready_preds_def)
  have "x \<in> chain r idom c" using de c(2,4) x(1) [of x] unfolding descending_def by auto
  moreover have "x \<noteq> c" using below(1) by auto
  ultimately have xc: "x \<in> chain r idom c" "x \<noteq> c" by auto
  then show "x \<in> chain r idom m" using chain_Some [of c r idom m] c by auto
  have shrink: "chain r f b \<subseteq> chain r idom b" for b by (rule chain_update_subset [OF f ok c(2) xc])
  have keep: "chain r f b = chain r idom b" if "c \<notin> chain r idom b" for b
    using chain_update_other f(1) that by metis
  have split: "chain r f b = {y \<in> chain r idom b. c \<in> chain r idom y} \<union> chain r idom x" if "c \<in> chain r idom b" for b
    by (rule chain_update_below [OF f ok c(2) below(2) that])
  have low: "c \<notin> chain r idom b" if "pos b < k" for b using chain_pos [OF ok, of c b] that c(3) by auto
  have upper: "z \<in> chain r f b" if "z \<in> chain r idom b" "k < pos z" for b z
  proof (cases "c \<in> chain r idom b")
    case True
    have "z \<notin> chain r idom c" using chain_pos [OF ok, of z c] that(2) c(3) by auto
    then show ?thesis using chain_linear [OF that(1) True] split [OF True] that(1) by auto
  qed (use that keep in simp)
  have self: "chain r f c = insert c (chain r idom x)" by (rule chain_update_self [OF f c(2) below(2)])
  have "aligned E r pos (Suc k) f"
    unfolding aligned_def
  proof (intro allI impI)
    fix b q z
    assume h: "f b \<noteq> None" "b \<noteq> r" "E q b" "reaches E r q" "pos q < pos b" "z \<in> chain r f b" "z \<noteq> b"
      "pos b < Suc k \<or> Suc k \<le> pos z"
    have b: "idom b \<noteq> None" using h(1) set by simp
    have zb: "z \<in> chain r idom b" using h(6) shrink by blast
    show "z \<in> chain r f q"
    proof (cases "b = c")
      case True
      then have "q \<in> ready_preds E r idom c" using h all by (simp add: ready_preds_def)
      then show ?thesis using True h(6,7) self x(1) keep [OF low [of q]] h(5) c(3) by auto
    next
      case False
      then have "pos b < k \<or> k < pos z" using h(8) pos_inj [of b c] c ok b by (force simp: chain_ok_def)
      then show ?thesis
      proof
        assume "pos b < k"
        then have "z \<in> chain r idom q" using al b h zb unfolding aligned_def by blast
        then show ?thesis using keep [OF low [of q]] h(5) \<open>pos b < k\<close> by simp
      next
        assume "k < pos z"
        moreover from this have "z \<in> chain r idom q" using al b h zb less_imp_le unfolding aligned_def by blast
        ultimately show ?thesis using upper by blast
      qed
    qed
  qed
  moreover have "descending E r f"
    unfolding descending_def
  proof (intro allI impI)
    fix b v
    assume h: "f b \<noteq> None" "b \<noteq> r" "\<forall>p \<in> ready_preds E r f b. v \<in> chain r f p"
    have b: "idom b \<noteq> None" "reaches E r b" using h(1) set ok by (auto simp: chain_ok_def)
    have v: "\<forall>p \<in> ready_preds E r idom b. v \<in> chain r idom p" using h(3) shrink preds by blast
    have vb: "v \<in> chain r idom b" using de b h(2) v unfolding descending_def by blast
    show "v \<in> chain r f b"
    proof (cases "b = c")
      case True
      then show ?thesis using v x(1) self by simp
    next
      case False
      show ?thesis
      proof (cases "c \<in> chain r idom b")
        case True
        obtain q where q: "reaches E r q" "E q b" "pos q < pos b" using forward_pred [OF b(2) h(2)] by blast
        have cq: "c \<in> chain r idom q" using aligned_above [OF al ok c(3,2) True _ b(1) q(2,1,3)] False by simp
        have "q \<in> ready_preds E r f b" using q all preds by (simp add: ready_preds_def)
        then have "v \<in> chain r f q" using h(3) by blast
        then show ?thesis using split [OF cq] split [OF True] vb by auto
      qed (use vb keep in simp)
    qed
  qed
  moreover have "covering E r f"
    unfolding covering_def
  proof (intro allI impI)
    fix b d assume h: "f b \<noteq> None" "dominates_in E r d b"
    have b: "idom b \<noteq> None" "reaches E r b" using h set ok by (auto simp: chain_ok_def)
    have db: "d \<in> chain r idom b" using co b h(2) unfolding covering_def by blast
    show "d \<in> chain r f b"
    proof (cases "c \<in> chain r idom b \<and> c \<notin> chain r idom d")
      case True
      then have dc: "d \<in> chain r idom c" "d \<noteq> c" using chain_linear [OF db] by auto
      then have "pos d < pos c" using chain_pos [OF ok] by auto
      then have "dominates_in E r d c" using dominates_above [OF al ok all c(3,2)] True h(2) b(2) by blast
      then have "d \<in> chain r idom p" if "p \<in> ready_preds E r idom c" for p
        using dominates_pred [of E r d c p] dc(2) that co by (auto simp: ready_preds_def covering_def)
      then show ?thesis using x(1) split True by blast
    next
      case False
      then show ?thesis using db keep split by blast
    qed
  qed
  ultimately show "chk_inv E r pos (Suc k) f" using rounds_step [OF rounds c(1-3) x f] by (simp add: chk_inv_def)
qed

text \<open>Start, wrap-around and end of the rounds.\<close>

lemma chk_inv_start:
  assumes f: "f r = Some r" "\<And>a. a \<noteq> r \<Longrightarrow> f a = None" and "pos r < k" "\<And>b. reaches E r b \<Longrightarrow> pos b < k \<Longrightarrow> b = r"
  shows "chk_inv E r pos k f"
proof -
  have only: "b = r" if "f b \<noteq> None" for b using that f(2) [of b] by (cases "b = r") auto
  have "reaches E r b \<and> (b \<noteq> r \<longrightarrow> f m \<noteq> None \<and> pos m < pos b)" if "f b = Some m" for b m
    using only [of b] that by simp
  moreover have "f b \<noteq> None" if "reaches E r b" "pos b < k" for b using assms(4) [OF that] f(1) by simp
  ultimately have "rounds E r pos k f" using f(1) only assms(3) by (simp add: rounds_def chain_ok_def)
  moreover have "aligned E r pos k f" using only unfolding aligned_def by metis
  moreover have "descending E r f" using only unfolding descending_def by metis
  moreover have "d \<in> chain r f b" if "f b \<noteq> None" "dominates_in E r d b" for b d
    using only [OF that(1)] that(2) by (simp add: dominates_entry)
  then have "covering E r f" by (simp add: covering_def)
  ultimately show ?thesis by (simp add: chk_inv_def)
qed

lemma chk_inv_wrap:
  assumes inv: "chk_inv E r pos n idom" and n: "\<And>b. reaches E r b \<Longrightarrow> pos b < n"
  shows "chk_inv E r pos k idom" "\<And>b. reaches E r b \<Longrightarrow> idom b \<noteq> None"
proof -
  have rounds: "rounds E r pos n idom" using inv by (simp add: chk_inv_def)
  show all: "idom b \<noteq> None" if "reaches E r b" for b using rounds n [OF that] that by (simp add: rounds_def)
  have "pos b < n" if "idom b \<noteq> None" for b using rounds n [of b] that by (auto simp: rounds_def chain_ok_def)
  then have "aligned E r pos k idom" using inv unfolding chk_inv_def aligned_def by blast
  moreover have "rounds E r pos k idom" using rounds all by (simp add: rounds_def)
  ultimately show "chk_inv E r pos k idom" using inv by (simp add: chk_inv_def)
qed

lemma fixpoint_dominators:
  assumes inv: "chk_inv E r pos k idom" and all: "\<And>b. reaches E r b \<Longrightarrow> idom b \<noteq> None"
    and stable: "\<And>b m z p. reaches E r b \<Longrightarrow> b \<noteq> r \<Longrightarrow> idom b = Some m \<Longrightarrow> z \<in> chain r idom m \<Longrightarrow>
      p \<in> ready_preds E r idom b \<Longrightarrow> z \<in> chain r idom p"
    and b: "reaches E r b"
  shows "d \<in> chain r idom b \<longleftrightarrow> dominates_in E r d b"
proof
  assume "dominates_in E r d b"
  then show "d \<in> chain r idom b" using inv all [OF b] unfolding chk_inv_def covering_def by blast
next
  have "d \<in> set vs" if "walk E r vs b" "d \<in> chain r idom b" for vs b d
    using that
  proof (induction rule: walk.induct)
    case (step vs u v)
    have u: "reaches E r u" using step(1) by (auto simp: reaches_def)
    then have v: "reaches E r v" using reaches_step step(2) by metis
    show ?case
    proof (cases "v = r \<or> d = v")
      case True
      then show ?thesis using step.prems by auto
    next
      case False
      then obtain m where m: "idom v = Some m" using all [OF v] by blast
      then have "d \<in> chain r idom m" using step.prems chain_Some [of v r idom m] False by simp
      moreover have "u \<in> ready_preds E r idom v" using u step(2) all by (simp add: ready_preds_def)
      ultimately have "d \<in> chain r idom u" using stable [OF v _ m] False by blast
      then show ?thesis using step.IH by simp
    qed
  qed simp
  then show "dominates_in E r d b" if "d \<in> chain r idom b" using that b by (simp add: dominates_in_def)
qed

end

end
