(* ===== verification/Dominance.thy ===== *)
theory Dominance
  imports IlGraph FlowGraph
begin

text \<open>
  Dominators, dominance frontiers and phi placement, from
  \<open>fugue-core/src/il/common/dominance.rs\<close>.

  A loop whose end is not evident from its state is a \<open>partial_function\<close> into \<open>'a run\<close>: \<open>None\<close>
  is a loop that does not end, \<open>Some (Inl p)\<close> a panic, \<open>Some (Inr x)\<close> a return. Stacks are lists
  with the top first. Identifiers are the nodes of the graph; vectors are indexed by their indices.
\<close>

section \<open>The solver\<close>

record dominance_solver =
  ds_blocks :: "il_block list"
  ds_successors :: "il_block_id list"
  ds_entry :: il_block_id
  ds_predecessors :: il_block_predecessors
  ds_reachable :: "bool list"
  ds_reverse_postorder :: "il_block_id list"
  ds_positions :: "u32 list"
  ds_immediate_dominators :: "il_block_id option list"

fun push_unvisited :: "bool list \<Rightarrow> il_block_id list \<Rightarrow> (il_block_id \<times> bool) list \<Rightarrow> (il_block_id \<times> bool) list outcome" where
  "push_unvisited visited [] stack = Inr stack"
| "push_unvisited visited (s # ss) stack =
     and_then (get_at visited (id_index s)) (\<lambda>v.
       push_unvisited visited ss (if v then stack else (s, False) # stack))"

lemma and_then_cong [fundef_cong]:
  "m = m' \<Longrightarrow> (\<And>x. m' = Inr x \<Longrightarrow> f x = g x) \<Longrightarrow> and_then m f = and_then m' g"
  by (cases m') auto

function rpo_loop :: "il_block list \<Rightarrow> il_block_id list \<Rightarrow> bool list \<Rightarrow> bool list \<Rightarrow> (il_block_id \<times> bool) list \<Rightarrow>
    il_block_id list \<Rightarrow> (bool list \<times> il_block_id list) outcome" where
  "rpo_loop blocks successors visited reachable [] postorder = Inr (reachable, postorder)"
| "rpo_loop blocks successors visited reachable ((block, True) # stack) postorder =
     rpo_loop blocks successors visited reachable stack (postorder @ [block])"
| "rpo_loop blocks successors visited reachable ((block, False) # stack) postorder =
     and_then (get_at visited (id_index block)) (\<lambda>seen.
       if seen then rpo_loop blocks successors visited reachable stack postorder
       else
         and_then (put_at visited (id_index block) True) (\<lambda>visited.
         and_then (put_at reachable (id_index block) True) (\<lambda>reachable.
         and_then (get_at blocks (id_index block)) (\<lambda>b.
         and_then (range_slice (block_successors b) successors) (\<lambda>ss.
         and_then (push_unvisited visited (rev ss) ((block, True) # stack)) (\<lambda>stack.
           rpo_loop blocks successors visited reachable stack postorder))))))"
  by pat_completeness auto

lemma unvisited_less:
  "i < length xs \<Longrightarrow> \<not> xs ! i \<Longrightarrow> length (filter Not (xs[i := True])) < length (filter Not xs)"
proof (induction xs arbitrary: i)
  case (Cons x xs)
  then show ?case by (cases i) auto
qed simp

termination rpo_loop
  by (relation "measures [\<lambda>(_, _, visited, _, _, _). length (filter Not visited), \<lambda>(_, _, _, _, stack, _). length stack]")
    (auto simp: get_at_def put_at_def unvisited_less split: if_splits)

fun set_positions :: "u32 list \<Rightarrow> nat \<Rightarrow> il_block_id list \<Rightarrow> u32 list outcome" where
  "set_positions positions index [] = Inr positions"
| "set_positions positions index (block # order) =
     and_then (put_at positions (id_index block) (word_of_nat index)) (\<lambda>positions.
       set_positions positions (Suc index) order)"

definition compute_reverse_postorder :: "dominance_solver \<Rightarrow> dominance_solver outcome" where
  "compute_reverse_postorder s =
     and_then (rpo_loop (ds_blocks s) (ds_successors s) (replicate (length (ds_blocks s)) False) (ds_reachable s)
       [(ds_entry s, False)] []) (\<lambda>(reachable, postorder).
     and_then (set_positions (ds_positions s) 0 (rev postorder)) (\<lambda>positions.
       Inr (s\<lparr>ds_reachable := reachable, ds_reverse_postorder := rev postorder, ds_positions := positions\<rparr>)))"

definition solver_new :: "il_block list \<Rightarrow> il_block_id list \<Rightarrow> il_block_id \<Rightarrow> dominance_solver outcome" where
  "solver_new blocks successors entry =
     and_then (predecessors_new blocks successors) (\<lambda>preds.
       compute_reverse_postorder
         \<lparr>ds_blocks = blocks, ds_successors = successors, ds_entry = entry, ds_predecessors = preds,
          ds_reachable = replicate (length blocks) False, ds_reverse_postorder = [],
          ds_positions = replicate (length blocks) (- 1),
          ds_immediate_dominators = replicate (length blocks) None\<rparr>)"

fun filter_ok :: "('a \<Rightarrow> 'e + bool) \<Rightarrow> 'a list \<Rightarrow> 'e + 'a list" where
  "filter_ok P [] = Inr []"
| "filter_ok P (x # xs) = and_then (P x) (\<lambda>b. map_ok (\<lambda>ys. if b then x # ys else ys) (filter_ok P xs))"

definition processed_predecessors :: "dominance_solver \<Rightarrow> il_block_id \<Rightarrow> il_block_id list outcome" where
  "processed_predecessors s block =
     and_then (predecessors_for (ds_predecessors s) block) (\<lambda>ps.
       filter_ok (\<lambda>p.
         and_then (get_at (ds_reachable s) (id_index p)) (\<lambda>reachable.
           if reachable then map_ok (\<lambda>d. d \<noteq> None) (get_at (ds_immediate_dominators s) (id_index p))
           else Inr False)) ps)"

text \<open>The inner loops of \<open>intersect\<close>: climb from \<open>first\<close> while its position is the larger one.\<close>

partial_function (option) climb :: "u32 list \<Rightarrow> il_block_id option list \<Rightarrow> il_block_id \<Rightarrow> il_block_id \<Rightarrow> il_block_id run" where
  "climb positions idoms first second =
     run_then (Some (get_at positions (id_index first))) (\<lambda>a.
     run_then (Some (get_at positions (id_index second))) (\<lambda>b.
       if b < a then
         run_then (Some (and_then (get_at idoms (id_index first)) expect)) (\<lambda>next.
           climb positions idoms next second)
       else Some (Inr first)))"

partial_function (option) intersect :: "u32 list \<Rightarrow> il_block_id option list \<Rightarrow> il_block_id \<Rightarrow> il_block_id \<Rightarrow> il_block_id run" where
  "intersect positions idoms first second =
     (if first = second then Some (Inr first)
      else
        run_then (climb positions idoms first second) (\<lambda>first.
        run_then (climb positions idoms second first) (\<lambda>second.
          intersect positions idoms first second)))"

fun intersect_all :: "u32 list \<Rightarrow> il_block_id option list \<Rightarrow> il_block_id \<Rightarrow> il_block_id list \<Rightarrow> il_block_id run" where
  "intersect_all positions idoms current [] = Some (Inr current)"
| "intersect_all positions idoms current (p # ps) =
     run_then (intersect positions idoms p current) (\<lambda>current. intersect_all positions idoms current ps)"

fun solve_pass :: "dominance_solver \<Rightarrow> bool \<Rightarrow> il_block_id list \<Rightarrow> (dominance_solver \<times> bool) run" where
  "solve_pass s changed [] = Some (Inr (s, changed))"
| "solve_pass s changed (block # order) =
     run_then (Some (processed_predecessors s block)) (\<lambda>ps.
       case ps of
         [] \<Rightarrow> solve_pass s changed order
       | p # ps \<Rightarrow>
           run_then (intersect_all (ds_positions s) (ds_immediate_dominators s) p ps) (\<lambda>d.
           run_then (Some (get_at (ds_immediate_dominators s) (id_index block))) (\<lambda>old.
             if old \<noteq> Some d then
               run_then (Some (put_at (ds_immediate_dominators s) (id_index block) (Some d))) (\<lambda>idoms.
                 solve_pass (s\<lparr>ds_immediate_dominators := idoms\<rparr>) True order)
             else solve_pass s changed order)))"

partial_function (option) solve_loop :: "dominance_solver \<Rightarrow> dominance_solver run" where
  "solve_loop s =
     run_then (solve_pass s False (drop 1 (ds_reverse_postorder s))) (\<lambda>(s, changed).
       if changed then solve_loop s else Some (Inr s))"

definition solve_immediate_dominators :: "dominance_solver \<Rightarrow> dominance_solver run" where
  "solve_immediate_dominators s =
     run_then (Some (put_at (ds_immediate_dominators s) (id_index (ds_entry s)) (Some (ds_entry s)))) (\<lambda>idoms.
       solve_loop (s\<lparr>ds_immediate_dominators := idoms\<rparr>))"

fun child_entries :: "nat \<Rightarrow> il_block_id option list \<Rightarrow> (nat \<times> il_block_id) list outcome" where
  "child_entries index [] = Inr []"
| "child_entries index (None # ds) = child_entries (Suc index) ds"
| "child_entries index (Some d # ds) =
     and_then (or_panic (try_from_index index)) (\<lambda>block.
       map_ok (\<lambda>es. (id_index d, block) # es) (child_entries (Suc index) ds))"

definition compute_children :: "dominance_solver \<Rightarrow> il_block_id il_csr outcome" where
  "compute_children s =
     and_then (child_entries 0 (ds_immediate_dominators s)) (\<lambda>es. csr_from_entries (length (ds_blocks s)) es)"

definition increment :: "u32 \<Rightarrow> u32 outcome" where
  "increment n = (case checked_add n 1 of None \<Rightarrow> Inl ArithmeticOverflow | Some m \<Rightarrow> Inr m)"

partial_function (option) intervals_loop :: "bool list \<Rightarrow> il_block_id il_csr \<Rightarrow> u32 list \<Rightarrow> u32 list \<Rightarrow> u32 \<Rightarrow>
    (il_block_id \<times> bool) list \<Rightarrow> (u32 list \<times> u32 list) run" where
  "intervals_loop reachable children preorder postorder next stack =
     (case stack of
        [] \<Rightarrow> Some (Inr (preorder, postorder))
      | (block, expanded) # stack \<Rightarrow>
          run_then (Some (get_at reachable (id_index block))) (\<lambda>r.
            if \<not> r then intervals_loop reachable children preorder postorder next stack
            else if expanded then
              run_then (Some (put_at postorder (id_index block) next)) (\<lambda>postorder.
              run_then (Some (increment next)) (\<lambda>next.
                intervals_loop reachable children preorder postorder next stack))
            else
              run_then (Some (put_at preorder (id_index block) next)) (\<lambda>preorder.
              run_then (Some (increment next)) (\<lambda>next.
              run_then (Some (csr_row children (id_index block))) (\<lambda>cs.
                intervals_loop reachable children preorder postorder next
                  (map (\<lambda>c. (c, False)) cs @ (block, True) # stack))))))"

definition compute_intervals :: "dominance_solver \<Rightarrow> il_block_id il_csr \<Rightarrow> (u32 list \<times> u32 list) run" where
  "compute_intervals s children =
     intervals_loop (ds_reachable s) children (replicate (length (ds_blocks s)) (- 1))
       (replicate (length (ds_blocks s)) (- 1)) 0 [(ds_entry s, False)]"

section \<open>The dominance tree\<close>

record il_dominance =
  d_entry :: "il_block_id option"
  d_immediate_dominators :: "il_block_id option list"
  d_children :: "il_block_id il_csr"
  d_preorder :: "u32 list"
  d_postorder :: "u32 list"
  d_reachable :: "bool list"

definition solve :: "dominance_solver \<Rightarrow> il_dominance run" where
  "solve s =
     run_then (solve_immediate_dominators s) (\<lambda>s.
     run_then (Some (put_at (ds_immediate_dominators s) (id_index (ds_entry s)) None)) (\<lambda>idoms.
       let s = s\<lparr>ds_immediate_dominators := idoms\<rparr> in
       run_then (Some (compute_children s)) (\<lambda>children.
       run_then (compute_intervals s children) (\<lambda>(preorder, postorder).
         Some (Inr
           \<lparr>d_entry = Some (ds_entry s), d_immediate_dominators = ds_immediate_dominators s, d_children = children,
            d_preorder = preorder, d_postorder = postorder, d_reachable = ds_reachable s\<rparr>)))))"

definition from_blocks :: "il_block list \<Rightarrow> il_block_id list \<Rightarrow> il_block_id \<Rightarrow> il_dominance run" where
  "from_blocks blocks successors entry = run_then (Some (solver_new blocks successors entry)) solve"

definition il_dominance_default :: il_dominance where
  "il_dominance_default =
     \<lparr>d_entry = None, d_immediate_dominators = [], d_children = \<lparr>offsets = [0], csr_values = []\<rparr>,
      d_preorder = [], d_postorder = [], d_reachable = []\<rparr>"

definition analyse_dominance :: "'a il_graph \<Rightarrow> il_dominance run" where
  "analyse_dominance g =
     run_then (Some (entry_block g)) (\<lambda>entry.
       case entry of
         None \<Rightarrow> Some (Inr il_dominance_default)
       | Some entry \<Rightarrow> from_blocks (g_blocks g) (g_successors g) entry)"

definition immediate_dominator :: "il_dominance \<Rightarrow> il_block_id \<Rightarrow> il_block_id option" where
  "immediate_dominator d block = Option.bind (lookup_at (d_immediate_dominators d) (id_index block)) id"

definition row_or_empty :: "'a il_csr \<Rightarrow> nat \<Rightarrow> 'a list outcome" where
  "row_or_empty c i = map_ok (\<lambda>row. case row of None \<Rightarrow> [] | Some vs \<Rightarrow> vs) (checked_row c i)"

definition children_for :: "il_dominance \<Rightarrow> il_block_id \<Rightarrow> il_block_id list outcome" where
  "children_for d block = row_or_empty (d_children d) (id_index block)"

definition is_reachable :: "il_dominance \<Rightarrow> il_block_id \<Rightarrow> bool" where
  "is_reachable d block = (case lookup_at (d_reachable d) (id_index block) of None \<Rightarrow> False | Some r \<Rightarrow> r)"

definition dominates :: "il_dominance \<Rightarrow> il_block_id \<Rightarrow> il_block_id \<Rightarrow> bool" where
  "dominates d dominator block =
     (if \<not> is_reachable d dominator \<or> \<not> is_reachable d block then False
      else
        case (lookup_at (d_preorder d) (id_index dominator), lookup_at (d_postorder d) (id_index dominator),
              lookup_at (d_preorder d) (id_index block), lookup_at (d_postorder d) (id_index block)) of
          (Some dominator_preorder, Some dominator_postorder, Some block_preorder, Some block_postorder) \<Rightarrow>
            dominator_preorder \<le> block_preorder \<and> block_postorder \<le> dominator_postorder
        | _ \<Rightarrow> False)"

text \<open>The event iterator: \<open>next\<close> pops an event and replaces an entered block by its children.\<close>

datatype dominance_event = Enter il_block_id | Exit il_block_id

definition events_from :: "il_dominance \<Rightarrow> il_block_id \<Rightarrow> dominance_event list" where
  "events_from d root = (if is_reachable d root then [Enter root] else [])"

definition events_next :: "il_dominance \<Rightarrow> dominance_event list \<Rightarrow> (dominance_event option \<times> dominance_event list) outcome" where
  "events_next d pending =
     (case pending of
        [] \<Rightarrow> Inr (None, [])
      | Enter block # rest \<Rightarrow>
          and_then (children_for d block) (\<lambda>cs. Inr (Some (Enter block), map Enter cs @ Exit block # rest))
      | Exit block # rest \<Rightarrow> Inr (Some (Exit block), rest))"

section \<open>Dominance frontiers\<close>

partial_function (option) tree_postorder_loop :: "il_dominance \<Rightarrow> (il_block_id \<times> bool) list \<Rightarrow> il_block_id list \<Rightarrow> il_block_id list run" where
  "tree_postorder_loop d stack order =
     (case stack of
        [] \<Rightarrow> Some (Inr order)
      | (block, expanded) # stack \<Rightarrow>
          if \<not> is_reachable d block then tree_postorder_loop d stack order
          else if expanded then tree_postorder_loop d stack (order @ [block])
          else
            run_then (Some (children_for d block)) (\<lambda>cs.
              tree_postorder_loop d (map (\<lambda>c. (c, False)) cs @ (block, True) # stack) order))"

definition tree_postorder :: "il_dominance \<Rightarrow> il_block_id list run" where
  "tree_postorder d =
     (case d_entry d of None \<Rightarrow> Some (Inr []) | Some entry \<Rightarrow> tree_postorder_loop d [(entry, False)] [])"

definition add_frontier :: "il_block_id list list \<Rightarrow> il_block_id \<Rightarrow> il_block_id \<Rightarrow> il_block_id list list outcome" where
  "add_frontier frontiers block frontier =
     and_then (get_at frontiers (id_index block)) (\<lambda>fs.
       Inr (if frontier \<in> set fs then frontiers else frontiers[id_index block := fs @ [frontier]]))"

fun successor_frontiers :: "il_dominance \<Rightarrow> il_block_id \<Rightarrow> il_block_id list list \<Rightarrow> il_block_id list \<Rightarrow> il_block_id list list outcome" where
  "successor_frontiers d block frontiers [] = Inr frontiers"
| "successor_frontiers d block frontiers (s # ss) =
     (if is_reachable d s \<and> immediate_dominator d s \<noteq> Some block
      then and_then (add_frontier frontiers block s) (\<lambda>frontiers. successor_frontiers d block frontiers ss)
      else successor_frontiers d block frontiers ss)"

definition add_successor_frontiers :: "il_dominance \<Rightarrow> il_block list \<Rightarrow> il_block_id list \<Rightarrow> il_block_id \<Rightarrow>
    il_block_id list list \<Rightarrow> il_block_id list list outcome" where
  "add_successor_frontiers d blocks successors block frontiers =
     and_then (get_at blocks (id_index block)) (\<lambda>b.
     and_then (range_slice (block_successors b) successors) (\<lambda>ss.
       successor_frontiers d block frontiers ss))"

text \<open>\<open>0..frontiers[child].len()\<close> is fixed before its loop; the element is read again in each turn.\<close>

fun child_frontiers :: "il_dominance \<Rightarrow> il_block_id \<Rightarrow> il_block_id \<Rightarrow> nat list \<Rightarrow> il_block_id list list \<Rightarrow> il_block_id list list outcome" where
  "child_frontiers d block child [] frontiers = Inr frontiers"
| "child_frontiers d block child (index # is) frontiers =
     and_then (get_at frontiers (id_index child)) (\<lambda>fs.
     and_then (get_at fs index) (\<lambda>frontier.
       if immediate_dominator d frontier \<noteq> Some block
       then and_then (add_frontier frontiers block frontier) (child_frontiers d block child is)
       else child_frontiers d block child is frontiers))"

fun children_frontiers :: "il_dominance \<Rightarrow> il_block_id \<Rightarrow> il_block_id list \<Rightarrow> il_block_id list list \<Rightarrow> il_block_id list list outcome" where
  "children_frontiers d block [] frontiers = Inr frontiers"
| "children_frontiers d block (child # cs) frontiers =
     and_then (get_at frontiers (id_index child)) (\<lambda>fs.
     and_then (child_frontiers d block child [0..<length fs] frontiers) (\<lambda>frontiers.
       children_frontiers d block cs frontiers))"

definition add_child_frontiers :: "il_dominance \<Rightarrow> il_block_id \<Rightarrow> il_block_id list list \<Rightarrow> il_block_id list list outcome" where
  "add_child_frontiers d block frontiers =
     and_then (children_for d block) (\<lambda>cs. children_frontiers d block cs frontiers)"

record il_dominance_frontier =
  df_frontiers :: "il_block_id il_csr"

definition from_frontiers :: "il_block_id list list \<Rightarrow> il_dominance_frontier outcome" where
  "from_frontiers frontiers = map_ok (\<lambda>c. \<lparr>df_frontiers = c\<rparr>) (csr_from_rows (map sort frontiers))"

fun frontiers_loop :: "il_dominance \<Rightarrow> il_block list \<Rightarrow> il_block_id list \<Rightarrow> il_block_id list \<Rightarrow> il_block_id list list \<Rightarrow>
    il_block_id list list outcome" where
  "frontiers_loop d blocks successors [] frontiers = Inr frontiers"
| "frontiers_loop d blocks successors (block # order) frontiers =
     and_then (add_successor_frontiers d blocks successors block frontiers) (\<lambda>frontiers.
     and_then (add_child_frontiers d block frontiers) (\<lambda>frontiers.
       frontiers_loop d blocks successors order frontiers))"

definition frontiers :: "il_dominance \<Rightarrow> il_block list \<Rightarrow> il_block_id list \<Rightarrow> il_dominance_frontier run" where
  "frontiers d blocks successors =
     run_then (tree_postorder d) (\<lambda>order.
       Some (and_then (frontiers_loop d blocks successors order (replicate (length blocks) [])) from_frontiers))"

definition frontier_for :: "il_dominance_frontier \<Rightarrow> il_block_id \<Rightarrow> il_block_id list outcome" where
  "frontier_for df block = row_or_empty (df_frontiers df) (id_index block)"

section \<open>Phi placement\<close>

record phi_state =
  placed :: "bool list"
  queued :: "bool list"
  queue :: "il_block_id list"
  phis :: "il_block_id list"

fun queue_definitions :: "nat \<Rightarrow> phi_state \<Rightarrow> il_block_id list \<Rightarrow> il_fail + phi_state" where
  "queue_definitions block_count s [] = Inr s"
| "queue_definitions block_count s (definition # ds) =
     (if block_count \<le> id_index definition then Inl (Error (RangeOutOfBounds (id_index definition) block_count))
      else
        and_then (lift_panic (get_at (queued s) (id_index definition))) (\<lambda>q.
          queue_definitions block_count
            (if q then s
             else s\<lparr>queued := (queued s)[id_index definition := True], queue := definition # queue s\<rparr>) ds))"

fun place_frontier :: "phi_state \<Rightarrow> il_block_id list \<Rightarrow> phi_state outcome" where
  "place_frontier s [] = Inr s"
| "place_frontier s (frontier # fs) =
     and_then (get_at (placed s) (id_index frontier)) (\<lambda>p.
       if p then place_frontier s fs
       else
         let s = s\<lparr>placed := (placed s)[id_index frontier := True], phis := phis s @ [frontier]\<rparr> in
         and_then (get_at (queued s) (id_index frontier)) (\<lambda>q.
           place_frontier
             (if q then s
              else s\<lparr>queued := (queued s)[id_index frontier := True], queue := frontier # queue s\<rparr>) fs))"

function place_loop :: "il_dominance_frontier \<Rightarrow> phi_state \<Rightarrow> phi_state outcome" where
  "place_loop df s =
     (case queue s of
        [] \<Rightarrow> Inr s
      | block # rest \<Rightarrow>
          and_then (frontier_for df block) (\<lambda>fs.
          and_then (place_frontier (s\<lparr>queue := rest\<rparr>) fs) (\<lambda>s. place_loop df s)))"
  by pat_completeness auto

lemma unvisited_Suc:
  "i < length xs \<Longrightarrow> \<not> xs ! i \<Longrightarrow> Suc (length (filter Not (xs[i := True]))) = length (filter Not xs)"
proof (induction xs arbitrary: i)
  case (Cons x xs)
  then show ?case by (cases i) auto
qed simp

lemma place_frontier_work:
  "place_frontier s fs = Inr s' \<Longrightarrow>
   length (filter Not (queued s')) + length (queue s') = length (filter Not (queued s)) + length (queue s)"
proof (induction s fs arbitrary: s' rule: place_frontier.induct)
  case (2 s f fs)
  then show ?case
    by (auto simp: outcome_simps get_at_def Let_def split: if_splits) (metis add_Suc_shift unvisited_Suc)+
qed simp

termination place_loop
  by (relation "measure (\<lambda>(df, s). length (filter Not (queued s)) + length (queue s))")
    (auto dest!: place_frontier_work)

definition place_phis :: "il_dominance_frontier \<Rightarrow> nat \<Rightarrow> il_block_id list \<Rightarrow> il_fail + il_block_id list" where
  "place_phis df block_count definitions =
     and_then (queue_definitions block_count
       \<lparr>placed = replicate block_count False, queued = replicate block_count False, queue = [], phis = []\<rparr> definitions) (\<lambda>s.
     and_then (lift_panic (place_loop df s)) (\<lambda>s.
       Inr (sort (phis s))))"

definition analyse_frontier :: "'a il_graph \<Rightarrow> il_dominance_frontier run" where
  "analyse_frontier g = run_then (analyse_dominance g) (\<lambda>d. frontiers d (g_blocks g) (g_successors g))"

declare place_loop.simps [simp del]

section \<open>The depth-first numbering\<close>

definition node :: "nat \<Rightarrow> il_block_id \<Rightarrow> bool" where
  "node n b \<longleftrightarrow> b \<noteq> 0 \<and> id_index b < n"

text \<open>The edges of a flow graph between identifiers; an ill-formed graph has none.\<close>

definition flow_edge :: "il_block list \<Rightarrow> il_block_id list \<Rightarrow> il_block_id \<Rightarrow> il_block_id \<Rightarrow> bool" where
  "flow_edge blocks successors a b \<longleftrightarrow>
     flow_ok blocks successors \<and> node (length blocks) a \<and> b \<in> set (successors_of successors (blocks ! id_index a))"

lemma id_index_inj: "a \<noteq> 0 \<Longrightarrow> b \<noteq> 0 \<Longrightarrow> id_index a = id_index b \<Longrightarrow> a = b"
  by (metis node_id_index)

lemma node_inj: "node n a \<Longrightarrow> node n b \<Longrightarrow> id_index a = id_index b \<longleftrightarrow> a = b"
  using id_index_inj by (auto simp: node_def)

lemma flow_edge_nodes: "flow_edge blocks successors a b \<Longrightarrow> node (length blocks) a \<and> node (length blocks) b"
  by (auto simp: flow_edge_def flow_ok_def node_def)

lemma reaches_node:
  assumes "node (length blocks) entry" "reaches (flow_edge blocks successors) entry b"
  shows "node (length blocks) b"
  using assms(2) by (induction rule: reaches_induct) (use assms(1) flow_edge_nodes in blast)+

lemma push_unvisited_eq:
  "\<forall>s \<in> set ss. id_index s < length visited \<Longrightarrow>
   push_unvisited visited ss stack = Inr (rev (map (\<lambda>s. (s, False)) (filter (\<lambda>s. \<not> visited ! id_index s) ss)) @ stack)"
  by (induction visited ss stack rule: push_unvisited.induct) (auto simp: get_at_def)

definition opened :: "(il_block_id \<times> bool) list \<Rightarrow> il_block_id list" where
  "opened stack = map fst (filter snd stack)"

definition pending :: "(il_block_id \<times> bool) list \<Rightarrow> il_block_id set" where
  "pending stack = {b. (b, False) \<in> set stack}"

lemma opened_simps [simp]:
  "opened [] = []" "opened ((b, True) # stack) = b # opened stack" "opened ((b, False) # stack) = opened stack"
  "opened (map (\<lambda>s. (s, False)) ss @ stack) = opened stack"
  by (auto simp: opened_def filter_empty_conv)

lemma pending_simps [simp]:
  "pending [] = {}" "pending ((b, True) # stack) = pending stack" "pending ((b, False) # stack) = insert b (pending stack)"
  "pending (map (\<lambda>s. (s, False)) ss @ stack) = set ss \<union> pending stack"
  by (auto simp: pending_def)

text \<open>Every entry of the stack was pushed by the nearest open block below it.\<close>

fun stack_ok :: "('v \<Rightarrow> 'v \<Rightarrow> bool) \<Rightarrow> 'v \<Rightarrow> ('v \<times> bool) list \<Rightarrow> bool" where
  "stack_ok E r [] = True"
| "stack_ok E r ((b, f) # stack) \<longleftrightarrow>
     (b = r \<or> (case filter snd stack of [] \<Rightarrow> False | (w, _) # _ \<Rightarrow> E w b)) \<and> stack_ok E r stack"

lemma stack_ok_push:
  "stack_ok E r stack \<Longrightarrow> filter snd stack = (w, True) # rest \<Longrightarrow> \<forall>s \<in> set ss. E w s \<Longrightarrow>
   stack_ok E r (map (\<lambda>s. (s, False)) ss @ stack)"
proof (induction ss)
  case (Cons s ss)
  have "filter snd (map (\<lambda>s. (s, False)) ss @ stack) = (w, True) # rest" using Cons.prems(2) by (auto simp: filter_empty_conv)
  then show ?case using Cons by simp
qed simp

definition dfs_inv :: "il_block list \<Rightarrow> il_block_id list \<Rightarrow> il_block_id \<Rightarrow> bool list \<Rightarrow> (il_block_id \<times> bool) list \<Rightarrow>
    il_block_id list \<Rightarrow> bool" where
  "dfs_inv blocks successors entry visited stack post \<longleftrightarrow>
     length visited = length blocks \<and>
     (\<forall>b \<in> fst ` set stack \<union> set post. node (length blocks) b \<and> reaches (flow_edge blocks successors) entry b) \<and>
     distinct (post @ opened stack) \<and>
     (\<forall>b. node (length blocks) b \<longrightarrow> visited ! id_index b \<longleftrightarrow> b \<in> set post \<union> set (opened stack)) \<and>
     (\<forall>a b. a \<in> set post \<union> set (opened stack) \<longrightarrow> flow_edge blocks successors a b \<longrightarrow>
        b \<in> set post \<union> set (opened stack) \<union> pending stack) \<and>
     stack_ok (flow_edge blocks successors) entry stack \<and>
     (\<forall>us b vs. post = us @ b # vs \<longrightarrow> b \<noteq> entry \<longrightarrow>
        (\<exists>w. flow_edge blocks successors w b \<and> w \<in> set vs \<union> set (opened stack))) \<and>
     (case stack of [] \<Rightarrow> post \<noteq> [] \<and> last post = entry
      | _ \<Rightarrow> stack = [(entry, False)] \<and> post = [] \<or> last stack = (entry, True))"

lemma dfs_finish:
  assumes inv: "dfs_inv blocks successors entry visited ((b, True) # stack) post"
  shows "dfs_inv blocks successors entry visited stack (post @ [b])"
proof -
  let ?E = "flow_edge blocks successors"
  have parent: "\<exists>w. ?E w c \<and> w \<in> set vs \<union> set (opened stack)"
    if split: "post @ [b] = us @ c # vs" and c: "c \<noteq> entry" for us c vs
  proof (cases "vs = []")
    case True
    then have "c = b" using split by simp
    then obtain w rest where "filter snd stack = (w, True) # rest" "?E w c"
      using inv c by (auto simp: dfs_inv_def split: list.splits) (metis filter_eq_ConsD snd_conv)
    then show ?thesis by (auto simp: opened_def)
  next
    case False
    then obtain vs' where vs: "vs = vs' @ [b]" using split by (metis last_ConsR last_appendR last_snoc append_butlast_last_id list.distinct(1))
    then have "post = us @ c # vs'" using split by simp
    then obtain w where "?E w c" "w \<in> set vs' \<union> set (opened ((b, True) # stack))"
      using inv c unfolding dfs_inv_def by blast
    then show ?thesis using vs by auto
  qed
  show ?thesis using inv parent unfolding dfs_inv_def by (auto split: list.splits)
qed

lemma dfs_skip:
  assumes inv: "dfs_inv blocks successors entry visited ((b, False) # stack) post" and b: "visited ! id_index b"
  shows "dfs_inv blocks successors entry visited stack post"
proof -
  have "node (length blocks) b" using inv by (simp add: dfs_inv_def)
  then have in_post: "b \<in> set post \<union> set (opened stack)" using inv b by (simp add: dfs_inv_def)
  have "case stack of [] \<Rightarrow> post \<noteq> [] \<and> last post = entry
      | _ \<Rightarrow> stack = [(entry, False)] \<and> post = [] \<or> last stack = (entry, True)"
    using inv in_post by (cases stack) (auto simp: dfs_inv_def)
  moreover have "c \<in> set post \<union> set (opened stack) \<union> pending stack"
    if "a \<in> set post \<union> set (opened stack)" "flow_edge blocks successors a c" for a c
    using inv that in_post unfolding dfs_inv_def by fastforce
  ultimately show ?thesis using inv unfolding dfs_inv_def by simp
qed

lemma dfs_expand:
  assumes inv: "dfs_inv blocks successors entry visited ((b, False) # stack) post" and b: "\<not> visited ! id_index b"
    and ok: "flow_ok blocks successors" and vis: "visited' = visited[id_index b := True]"
    and new: "new = filter (\<lambda>s. \<not> visited' ! id_index s) (successors_of successors (blocks ! id_index b))"
  shows "dfs_inv blocks successors entry visited' (map (\<lambda>s. (s, False)) new @ (b, True) # stack) post"
proof -
  let ?E = "flow_edge blocks successors"
  have nb: "node (length blocks) b" "reaches ?E entry b" using inv by (auto simp: dfs_inv_def)
  have E: "?E b s \<longleftrightarrow> s \<in> set (successors_of successors (blocks ! id_index b))" for s
    using ok nb(1) by (simp add: flow_edge_def)
  have fresh: "b \<notin> set post \<union> set (opened stack)" using inv b nb(1) by (simp add: dfs_inv_def)
  have vis': "visited' ! id_index c \<longleftrightarrow> c = b \<or> visited ! id_index c" if "node (length blocks) c" for c
    using that nb(1) node_inj [OF that nb(1)] inv by (auto simp: vis dfs_inv_def node_def nth_list_update)
  have seen: "visited' ! id_index c \<longleftrightarrow> c \<in> set post \<union> set (opened ((b, True) # stack))" if "node (length blocks) c" for c
    using vis' [OF that] inv that by (auto simp: dfs_inv_def)
  have stack: "stack_ok ?E entry (map (\<lambda>s. (s, False)) new @ (b, True) # stack)"
    by (rule stack_ok_push [of _ _ _ b]) (use inv E new in \<open>auto simp: dfs_inv_def\<close>)
  have nodes: "node (length blocks) s \<and> reaches ?E entry s" if "s \<in> set new" for s
    using that new E reaches_step [OF nb(2)] flow_edge_nodes by fastforce
  have closed: "c \<in> set post \<union> set (opened ((b, True) # stack)) \<union> (set new \<union> pending stack)"
    if "a \<in> set post \<union> set (opened ((b, True) # stack))" "?E a c" for a c
  proof (cases "a = b")
    case True
    then have "c \<in> set (successors_of successors (blocks ! id_index b))" "node (length blocks) c"
      using that(2) E flow_edge_nodes [OF that(2)] by auto
    then show ?thesis using seen [of c] new by auto
  next
    case False
    then have "c \<in> set post \<union> set (opened stack) \<union> insert b (pending stack)"
      using that inv unfolding dfs_inv_def by fastforce
    then show ?thesis by auto
  qed
  have "\<forall>us c vs. post = us @ c # vs \<longrightarrow> c \<noteq> entry \<longrightarrow> (\<exists>w. ?E w c \<and> w \<in> set vs \<union> set (opened ((b, False) # stack)))"
    using inv unfolding dfs_inv_def by blast
  then have parents: "\<exists>w. ?E w c \<and> (w \<in> set vs \<or> w \<in> set (opened stack))" if "post = us @ c # vs" "c \<noteq> entry" for us c vs
    using that by simp
  have bottom: "last (map (\<lambda>s. (s, False)) new @ (b, True) # stack) = (entry, True)"
    using inv by (auto simp: dfs_inv_def)
  show ?thesis
    unfolding dfs_inv_def
  proof (intro conjI)
    show "length visited' = length blocks" using inv vis by (simp add: dfs_inv_def)
    show "\<forall>c \<in> fst ` set (map (\<lambda>s. (s, False)) new @ (b, True) # stack) \<union> set post.
        node (length blocks) c \<and> reaches ?E entry c"
      using inv nodes by (auto simp: dfs_inv_def)
    show "distinct (post @ opened (map (\<lambda>s. (s, False)) new @ (b, True) # stack))"
      using inv fresh by (auto simp: dfs_inv_def)
    show "\<forall>c. node (length blocks) c \<longrightarrow>
        visited' ! id_index c \<longleftrightarrow> c \<in> set post \<union> set (opened (map (\<lambda>s. (s, False)) new @ (b, True) # stack))"
      using seen by simp
    show "\<forall>a c. a \<in> set post \<union> set (opened (map (\<lambda>s. (s, False)) new @ (b, True) # stack)) \<longrightarrow> ?E a c \<longrightarrow>
        c \<in> set post \<union> set (opened (map (\<lambda>s. (s, False)) new @ (b, True) # stack)) \<union>
          pending (map (\<lambda>s. (s, False)) new @ (b, True) # stack)"
      using closed by simp
    show "\<forall>us c vs. post = us @ c # vs \<longrightarrow> c \<noteq> entry \<longrightarrow>
        (\<exists>w. ?E w c \<and> w \<in> set vs \<union> set (opened (map (\<lambda>s. (s, False)) new @ (b, True) # stack)))"
    proof (intro allI impI)
      fix us c vs assume "post = us @ c # vs" "c \<noteq> entry"
      from parents [OF this] show "\<exists>w. ?E w c \<and> w \<in> set vs \<union> set (opened (map (\<lambda>s. (s, False)) new @ (b, True) # stack))"
        by auto
    qed
    show "case map (\<lambda>s. (s, False)) new @ (b, True) # stack of [] \<Rightarrow> post \<noteq> [] \<and> last post = entry
      | _ \<Rightarrow> map (\<lambda>s. (s, False)) new @ (b, True) # stack = [(entry, False)] \<and> post = [] \<or>
          last (map (\<lambda>s. (s, False)) new @ (b, True) # stack) = (entry, True)"
      using bottom by (cases "map (\<lambda>s. (s, False)) new @ (b, True) # stack") auto
  qed (rule stack)
qed

definition rpo_ok :: "il_block list \<Rightarrow> il_block_id list \<Rightarrow> il_block_id \<Rightarrow> bool list \<Rightarrow> il_block_id list \<Rightarrow> bool" where
  "rpo_ok blocks successors entry reachable order \<longleftrightarrow>
     length reachable = length blocks \<and> distinct order \<and> order \<noteq> [] \<and> hd order = entry \<and>
     set order = {b. reaches (flow_edge blocks successors) entry b} \<and>
     (\<forall>b. node (length blocks) b \<longrightarrow> reachable ! id_index b \<longleftrightarrow> b \<in> set order) \<and>
     (\<forall>us b vs. order = us @ b # vs \<longrightarrow> b \<noteq> entry \<longrightarrow> (\<exists>w \<in> set us. flow_edge blocks successors w b))"

lemma dfs_done:
  assumes inv: "dfs_inv blocks successors entry visited [] post"
  shows "rpo_ok blocks successors entry visited (rev post)"
proof -
  let ?E = "flow_edge blocks successors"
  have "b \<in> set post" if "reaches ?E entry b" for b
    using that
  proof (induction rule: reaches_induct)
    case entry
    show ?case using inv by (auto simp: dfs_inv_def)
  next
    case (step u v)
    then show ?case using inv by (auto simp: dfs_inv_def)
  qed
  moreover have "\<forall>b \<in> set post. reaches ?E entry b" using inv by (simp add: dfs_inv_def)
  ultimately have "set post = {b. reaches ?E entry b}" by blast
  moreover have "\<exists>w \<in> set us. ?E w b" if "rev post = us @ b # vs" "b \<noteq> entry" for us b vs
  proof -
    have "rev (rev post) = rev (us @ b # vs)" using that(1) by simp
    then have "post = rev vs @ b # rev us" by simp
    then have "\<exists>w. ?E w b \<and> w \<in> set (rev us) \<union> set (opened [])" using inv that(2) unfolding dfs_inv_def by blast
    then show ?thesis by auto
  qed
  moreover have "length visited = length blocks" "distinct post" "post \<noteq> []" "last post = entry"
    "\<forall>b. node (length blocks) b \<longrightarrow> visited ! id_index b \<longleftrightarrow> b \<in> set post"
    using inv by (simp_all add: dfs_inv_def)
  ultimately show ?thesis unfolding rpo_ok_def by (auto simp: hd_rev)
qed

lemma rpo_loop_ok:
  assumes "dfs_inv blocks successors entry visited stack post" "flow_ok blocks successors" "reachable = visited"
  shows "\<exists>reachable' post'. rpo_loop blocks successors visited reachable stack post = Inr (reachable', post') \<and>
    rpo_ok blocks successors entry reachable' (rev post')"
  using assms
proof (induction blocks successors visited reachable stack post rule: rpo_loop.induct)
  case (1 blocks successors visited reachable post)
  then show ?case using dfs_done by auto
next
  case (2 blocks successors visited reachable b stack post)
  then show ?case using dfs_finish by simp
next
  case (3 blocks successors visited reachable b stack post)
  have nb: "node (length blocks) b" "length visited = length blocks" using 3(3) by (auto simp: dfs_inv_def)
  then have get: "get_at visited (id_index b) = Inr (visited ! id_index b)" "id_index b < length blocks"
    by (auto simp: get_at_def node_def)
  show ?case
  proof (cases "visited ! id_index b")
    case True
    then show ?thesis using 3(1) [OF get(1) True dfs_skip [OF 3(3) True] 3(4,5)] get by simp
  next
    case False
    let ?v = "visited[id_index b := True]" and ?ss = "successors_of successors (blocks ! id_index b)"
    let ?new = "filter (\<lambda>s. \<not> ?v ! id_index s) ?ss"
    have blk: "start_of (block_successors (blocks ! id_index b)) \<le> end_of (block_successors (blocks ! id_index b))"
      "end_of (block_successors (blocks ! id_index b)) \<le> length successors" "\<forall>s \<in> set ?ss. id_index s < length blocks"
      using 3(4) get(2) by (auto simp: flow_ok_def)
    have push: "push_unvisited ?v (rev ?ss) ((b, True) # stack) = Inr (map (\<lambda>s. (s, False)) ?new @ (b, True) # stack)"
      using push_unvisited_eq [of "rev ?ss" ?v] blk(3) nb(2) by (simp add: rev_map rev_filter)
    have inv: "dfs_inv blocks successors entry ?v (map (\<lambda>s. (s, False)) ?new @ (b, True) # stack) post"
      using dfs_expand [OF 3(3) False 3(4) refl refl] .
    have gets: "put_at visited (id_index b) True = Inr ?v" "put_at reachable (id_index b) True = Inr ?v"
      "get_at blocks (id_index b) = Inr (blocks ! id_index b)"
      "range_slice (block_successors (blocks ! id_index b)) successors = Inr ?ss"
      using get(2) nb 3(5) blk by (auto simp: put_at_def get_at_def range_slice_ok successors_of_def)
    show ?thesis
      using 3(2) [OF get(1) False gets push inv 3(4) refl] get(1) False gets push by simp
  qed
qed

lemma dfs_start:
  "node (length blocks) entry \<Longrightarrow> dfs_inv blocks successors entry (replicate (length blocks) False) [(entry, False)] []"
  by (auto simp: dfs_inv_def node_def)

definition rpo_order :: "il_block list \<Rightarrow> il_block_id list \<Rightarrow> il_block_id \<Rightarrow> il_block_id list" where
  "rpo_order blocks successors entry =
     (case rpo_loop blocks successors (replicate (length blocks) False) (replicate (length blocks) False) [(entry, False)] []
      of Inl _ \<Rightarrow> [] | Inr (_, post) \<Rightarrow> rev post)"

definition rpo_number :: "il_block list \<Rightarrow> il_block_id list \<Rightarrow> il_block_id \<Rightarrow> il_block_id \<Rightarrow> nat" where
  "rpo_number blocks successors entry b =
     (case position (\<lambda>x. x = b) (rpo_order blocks successors entry) of None \<Rightarrow> 0 | Some i \<Rightarrow> i)"

lemma rpo_run:
  assumes "flow_ok blocks successors" "node (length blocks) entry"
  shows "\<exists>reachable post. rpo_loop blocks successors (replicate (length blocks) False) (replicate (length blocks) False)
      [(entry, False)] [] = Inr (reachable, post) \<and>
    rev post = rpo_order blocks successors entry \<and>
    rpo_ok blocks successors entry reachable (rpo_order blocks successors entry)"
  using rpo_loop_ok [OF dfs_start [OF assms(2)] assms(1) refl] by (force simp: rpo_order_def)

lemma rpo_number_nth:
  "distinct (rpo_order blocks successors entry) \<Longrightarrow> i < length (rpo_order blocks successors entry) \<Longrightarrow>
   rpo_number blocks successors entry (rpo_order blocks successors entry ! i) = i"
  using position_Some_iff [of "\<lambda>x. x = rpo_order blocks successors entry ! i" "rpo_order blocks successors entry" i]
  by (auto simp: rpo_number_def nth_eq_iff_index_eq)

lemma reaches_isolated: "(\<And>v. \<not> E r v) \<Longrightarrow> reaches E r v \<longleftrightarrow> v = r"
proof
  assume iso: "\<And>v. \<not> E r v" and "reaches E r v"
  from this(2) show "v = r" by (induction rule: reaches_induct) (use iso in auto)
qed simp

lemma rpo_number_facts:
  assumes "flow_ok blocks successors" "node (length blocks) entry"
  shows "reaches (flow_edge blocks successors) entry b \<Longrightarrow> rpo_number blocks successors entry b < length (rpo_order blocks successors entry) \<and>
      rpo_order blocks successors entry ! rpo_number blocks successors entry b = b"
    and "rpo_number blocks successors entry entry = 0"
proof -
  let ?o = "rpo_order blocks successors entry"
  obtain reachable where ok: "rpo_ok blocks successors entry reachable ?o" using rpo_run [OF assms] by blast
  then have d: "distinct ?o" by (simp add: rpo_ok_def)
  show "reaches (flow_edge blocks successors) entry b \<Longrightarrow> rpo_number blocks successors entry b < length ?o \<and>
      ?o ! rpo_number blocks successors entry b = b"
  proof -
    assume "reaches (flow_edge blocks successors) entry b"
    then have "b \<in> set ?o" using ok by (simp add: rpo_ok_def)
    then obtain i where i: "i < length ?o" "?o ! i = b" by (auto simp: in_set_conv_nth)
    then show ?thesis using rpo_number_nth [OF d i(1)] by simp
  qed
  have "?o ! 0 = entry" "?o \<noteq> []" using ok by (auto simp: rpo_ok_def hd_conv_nth)
  then show "rpo_number blocks successors entry entry = 0" using rpo_number_nth [OF d, of 0] by simp
qed

interpretation rpo: numbered_graph "flow_edge blocks successors" entry "rpo_number blocks successors entry"
  for blocks successors entry
proof
  let ?E = "flow_edge blocks successors" and ?o = "rpo_order blocks successors entry"
  let ?pos = "rpo_number blocks successors entry"
  consider "flow_ok blocks successors" "node (length blocks) entry" | "\<And>v. \<not> ?E entry v"
    using flow_edge_nodes unfolding flow_edge_def by blast
  then have "(reaches ?E entry u \<longrightarrow> reaches ?E entry v \<longrightarrow> ?pos u = ?pos v \<longrightarrow> u = v) \<and>
      (reaches ?E entry v \<longrightarrow> v \<noteq> entry \<longrightarrow> (\<exists>f. reaches ?E entry f \<and> ?E f v \<and> ?pos f < ?pos v))" for u v
  proof cases
    case 1
    obtain reachable where ok: "rpo_ok blocks successors entry reachable ?o" using rpo_run [OF 1] by blast
    have "\<exists>f. reaches ?E entry f \<and> ?E f v \<and> ?pos f < ?pos v" if v: "reaches ?E entry v" "v \<noteq> entry"
    proof -
      note i = rpo_number_facts(1) [OF 1 v(1)]
      then have "?o = take (?pos v) ?o @ v # drop (Suc (?pos v)) ?o" using id_take_nth_drop by metis
      then obtain w where w: "w \<in> set (take (?pos v) ?o)" "?E w v" using ok v(2) unfolding rpo_ok_def by blast
      then obtain k where k: "k < ?pos v" "?o ! k = w" "k < length ?o" by (auto simp: in_set_conv_nth)
      have "distinct ?o" "w \<in> set ?o" using ok k by (auto simp: rpo_ok_def)
      then have "?pos w = k" "reaches ?E entry w" using rpo_number_nth k ok by (auto simp: rpo_ok_def)
      then show ?thesis using k w by blast
    qed
    moreover have "u = v" if "reaches ?E entry u" "reaches ?E entry v" "?pos u = ?pos v"
      using rpo_number_facts(1) [OF 1 that(1)] rpo_number_facts(1) [OF 1 that(2)] that(3) by metis
    ultimately show ?thesis by blast
  next
    case 2
    then show ?thesis by (simp add: reaches_isolated)
  qed
  then show "reaches ?E entry u \<Longrightarrow> reaches ?E entry v \<Longrightarrow> ?pos u = ?pos v \<Longrightarrow> u = v"
    "reaches ?E entry v \<Longrightarrow> v \<noteq> entry \<Longrightarrow> \<exists>f. reaches ?E entry f \<and> ?E f v \<and> ?pos f < ?pos v" for u v
    by blast+
qed

lemma set_positions_ok:
  assumes "\<forall>b \<in> set order. node n b" "length positions = n" "distinct order" "k + length order \<le> 2 ^ 32"
  shows "\<exists>ps. set_positions positions k order = Inr ps \<and> length ps = n \<and>
    (\<forall>i < length order. ps ! id_index (order ! i) = word_of_nat (k + i)) \<and>
    (\<forall>b. node n b \<longrightarrow> b \<notin> set order \<longrightarrow> ps ! id_index b = positions ! id_index b)"
  using assms
proof (induction positions k order rule: set_positions.induct)
  case (2 positions k b order)
  have put: "put_at positions (id_index b) (word_of_nat k) = Inr (positions[id_index b := word_of_nat k])"
    using 2(2,3) by (simp add: put_at_def node_def)
  obtain ps where ps: "set_positions (positions[id_index b := word_of_nat k]) (Suc k) order = Inr ps" "length ps = n"
    "\<And>i. i < length order \<Longrightarrow> ps ! id_index (order ! i) = word_of_nat (Suc k + i)"
    "\<And>c. node n c \<Longrightarrow> c \<notin> set order \<Longrightarrow> ps ! id_index c = positions[id_index b := word_of_nat k] ! id_index c"
    using 2(1) [OF put] 2(2-5) by auto
  have "ps ! id_index b = word_of_nat k" using ps(4) [of b] 2(2-4) by (auto simp: node_def)
  then have "ps ! id_index ((b # order) ! i) = word_of_nat (k + i)" if "i < length (b # order)" for i
    using ps(3) that by (cases i) auto
  moreover have "ps ! id_index c = positions ! id_index c" if "node n c" "c \<notin> set (b # order)" for c
    using ps(4) [OF that(1)] that node_inj [OF that(1), of b] 2(2) by (simp add: nth_list_update)
  ultimately show ?case using put ps(1,2) by simp
qed simp

section \<open>Intersection of chains\<close>

text \<open>The vectors of the solver as maps from identifiers.\<close>

definition idom_map :: "nat \<Rightarrow> il_block_id option list \<Rightarrow> il_block_id \<Rightarrow> il_block_id option" where
  "idom_map n idoms b = (if node n b then idoms ! id_index b else None)"

definition numbered :: "il_block list \<Rightarrow> il_block_id list \<Rightarrow> il_block_id \<Rightarrow> u32 list \<Rightarrow> bool" where
  "numbered blocks successors entry positions \<longleftrightarrow>
     length positions = length blocks \<and>
     (\<forall>b. reaches (flow_edge blocks successors) entry b \<longrightarrow>
        unat (positions ! id_index b) = rpo_number blocks successors entry b)"

definition chained :: "il_block list \<Rightarrow> il_block_id list \<Rightarrow> il_block_id \<Rightarrow> il_block_id option list \<Rightarrow> bool" where
  "chained blocks successors entry idoms \<longleftrightarrow>
     node (length blocks) entry \<and> length idoms = length blocks \<and>
     chain_ok (flow_edge blocks successors) entry (rpo_number blocks successors entry) (idom_map (length blocks) idoms)"

lemma ready_facts:
  assumes "chained blocks successors entry idoms" "numbered blocks successors entry ps"
    "idom_map (length blocks) idoms b \<noteq> None"
  shows "reaches (flow_edge blocks successors) entry b" "node (length blocks) b"
    "get_at ps (id_index b) = Inr (ps ! id_index b)" "unat (ps ! id_index b) = rpo_number blocks successors entry b"
    "get_at idoms (id_index b) = Inr (idom_map (length blocks) idoms b)"
proof -
  show r: "reaches (flow_edge blocks successors) entry b" using assms by (auto simp: chained_def chain_ok_def)
  show n: "node (length blocks) b" using assms(3) by (auto simp: idom_map_def split: if_splits)
  show "get_at ps (id_index b) = Inr (ps ! id_index b)" "unat (ps ! id_index b) = rpo_number blocks successors entry b"
    "get_at idoms (id_index b) = Inr (idom_map (length blocks) idoms b)"
    using n r assms by (auto simp: numbered_def chained_def get_at_def node_def idom_map_def)
qed

lemma climb_ok:
  assumes ch: "chained blocks successors entry idoms" and nu: "numbered blocks successors entry ps"
    and ready: "idom_map (length blocks) idoms a \<noteq> None" "idom_map (length blocks) idoms b \<noteq> None"
  shows "\<exists>c. climb ps idoms a b = Some (Inr c) \<and> idom_map (length blocks) idoms c \<noteq> None \<and>
    rpo_number blocks successors entry c \<le> rpo_number blocks successors entry b \<and>
    rpo_number blocks successors entry c \<le> rpo_number blocks successors entry a \<and>
    chain entry (idom_map (length blocks) idoms) c \<inter> chain entry (idom_map (length blocks) idoms) b =
    chain entry (idom_map (length blocks) idoms) a \<inter> chain entry (idom_map (length blocks) idoms) b"
  using ready(1)
proof (induction "rpo_number blocks successors entry a" arbitrary: a rule: less_induct)
  case less
  let ?pos = "rpo_number blocks successors entry" and ?idom = "idom_map (length blocks) idoms"
  have ok: "chain_ok (flow_edge blocks successors) entry ?pos ?idom" using ch by (simp add: chained_def)
  note fa = ready_facts [OF ch nu less.prems] and fb = ready_facts [OF ch nu ready(2)]
  have lt: "ps ! id_index b < ps ! id_index a \<longleftrightarrow> ?pos b < ?pos a" using fa(4) fb(4) by (simp add: word_less_nat_alt)
  show ?case
  proof (cases "?pos b < ?pos a")
    case False
    then show ?thesis using fa fb lt less.prems by (subst climb.simps) (auto simp: not_less)
  next
    case True
    have ne: "a \<noteq> entry" using rpo.entry_pos [OF fb(1)] True by (cases "b = entry") auto
    obtain m where m: "?idom a = Some m" "?idom m \<noteq> None" "?pos m < ?pos a"
      using less.prems ok ne by (auto simp: chain_ok_def)
    have "a \<notin> chain entry ?idom b" using chain_pos [OF ok, of a b] True by auto
    then have "chain entry ?idom m \<inter> chain entry ?idom b = chain entry ?idom a \<inter> chain entry ?idom b"
      using chain_Some [of a entry ?idom m] ne m(1) by auto
    moreover have "climb ps idoms a b = climb ps idoms m b"
      using True fa fb lt m(1) by (subst climb.simps) simp
    ultimately show ?thesis using less.hyps [OF m(3,2)] m(3) by fastforce
  qed
qed

lemma intersect_ok:
  assumes ch: "chained blocks successors entry idoms" and nu: "numbered blocks successors entry ps"
    and ready: "idom_map (length blocks) idoms a \<noteq> None" "idom_map (length blocks) idoms b \<noteq> None"
  shows "\<exists>c. intersect ps idoms a b = Some (Inr c) \<and> idom_map (length blocks) idoms c \<noteq> None \<and>
    chain entry (idom_map (length blocks) idoms) c =
    chain entry (idom_map (length blocks) idoms) a \<inter> chain entry (idom_map (length blocks) idoms) b"
  using ready
proof (induction "rpo_number blocks successors entry a + rpo_number blocks successors entry b" arbitrary: a b rule: less_induct)
  case less
  let ?pos = "rpo_number blocks successors entry" and ?idom = "idom_map (length blocks) idoms"
  show ?case
  proof (cases "a = b")
    case True
    then show ?thesis using less.prems by (subst intersect.simps) simp
  next
    case False
    obtain c where c: "climb ps idoms a b = Some (Inr c)" "?idom c \<noteq> None" "?pos c \<le> ?pos b" "?pos c \<le> ?pos a"
      "chain entry ?idom c \<inter> chain entry ?idom b = chain entry ?idom a \<inter> chain entry ?idom b"
      using climb_ok [OF ch nu less.prems] by blast
    obtain d where d: "climb ps idoms b c = Some (Inr d)" "?idom d \<noteq> None" "?pos d \<le> ?pos c" "?pos d \<le> ?pos b"
      "chain entry ?idom d \<inter> chain entry ?idom c = chain entry ?idom b \<inter> chain entry ?idom c"
      using climb_ok [OF ch nu less.prems(2) c(2)] by blast
    have "?pos a \<noteq> ?pos b"
      using rpo.pos_inj [OF ready_facts(1) [OF ch nu less.prems(1)] ready_facts(1) [OF ch nu less.prems(2)]] False by blast
    then have "?pos c + ?pos d < ?pos a + ?pos b" using c(3,4) d(3,4) by linarith
    from less.hyps [OF this c(2) d(2)]
    show ?thesis using False c d by (subst intersect.simps) (auto simp: Int_commute)
  qed
qed

lemma intersect_all_ok:
  assumes "chained blocks successors entry idoms" "numbered blocks successors entry ps"
    "idom_map (length blocks) idoms p \<noteq> None" "\<forall>q \<in> set qs. idom_map (length blocks) idoms q \<noteq> None"
  shows "\<exists>c. intersect_all ps idoms p qs = Some (Inr c) \<and> idom_map (length blocks) idoms c \<noteq> None \<and>
    (\<forall>z. z \<in> chain entry (idom_map (length blocks) idoms) c \<longleftrightarrow>
       (\<forall>q \<in> set (p # qs). z \<in> chain entry (idom_map (length blocks) idoms) q))"
  using assms(3,4)
proof (induction qs arbitrary: p)
  case (Cons q qs)
  obtain c where c: "intersect ps idoms q p = Some (Inr c)" "idom_map (length blocks) idoms c \<noteq> None"
    "chain entry (idom_map (length blocks) idoms) c =
      chain entry (idom_map (length blocks) idoms) q \<inter> chain entry (idom_map (length blocks) idoms) p"
    using intersect_ok [OF assms(1,2), of q p] Cons.prems by auto
  then show ?case using Cons.IH [OF c(2)] Cons.prems by auto
qed auto

section \<open>The solver\<close>

lemma filter_ok_all: "(\<And>x. x \<in> set xs \<Longrightarrow> P x = Inr (p x)) \<Longrightarrow> filter_ok P xs = Inr (filter p xs)"
  by (induction xs) (auto simp: map_ok_def)

lemma mem_predecessor_row:
  assumes "flow_ok blocks successors" "node (length blocks) b"
  shows "w \<in> set (row_of (id_index b) (flow_entries blocks successors)) \<longleftrightarrow> flow_edge blocks successors w b"
proof -
  have nz: "node (length blocks) (node_id i) \<and> id_index (node_id i) = i" if "i < length blocks" for i
    using that assms(1) u32_of_Suc_neq_0 [of i] index_node_id [of i]
    by (auto simp: flow_ok_def node_def node_id_def simp del: of_nat_Suc)
  have succ: "id_index b \<in> id_index ` set (successors_of successors (blocks ! i)) \<longleftrightarrow>
      b \<in> set (successors_of successors (blocks ! i))" if "i < length blocks" for i
  proof -
    have "\<forall>s \<in> set (successors_of successors (blocks ! i)). s \<noteq> 0" using assms(1) that by (auto simp: flow_ok_def)
    then show ?thesis using assms(2) id_index_inj [of b] by (auto simp: node_def)
  qed
  show ?thesis
  proof
    assume "w \<in> set (row_of (id_index b) (flow_entries blocks successors))"
    then obtain i where "flows blocks successors i (id_index b)" "w = node_id i" by (auto simp: mem_flow_entries)
    then show "flow_edge blocks successors w b" using nz [of i] succ [of i] assms(1) by (auto simp: flows_def flow_edge_def)
  next
    assume e: "flow_edge blocks successors w b"
    then have "id_index w < length blocks" "w = node_id (id_index w)" using node_id_index by (auto simp: flow_edge_def node_def)
    then show "w \<in> set (row_of (id_index b) (flow_entries blocks successors))"
      using e succ [of "id_index w"] by (auto simp: mem_flow_entries flows_def flow_edge_def)
  qed
qed

definition solver_ok :: "dominance_solver \<Rightarrow> bool" where
  "solver_ok s \<longleftrightarrow>
     flow_ok (ds_blocks s) (ds_successors s) \<and> node (length (ds_blocks s)) (ds_entry s) \<and>
     (\<forall>b. predecessors_for (ds_predecessors s) b =
        Inr (row_of (id_index b) (flow_entries (ds_blocks s) (ds_successors s)))) \<and>
     ds_reverse_postorder s = rpo_order (ds_blocks s) (ds_successors s) (ds_entry s) \<and>
     rpo_ok (ds_blocks s) (ds_successors s) (ds_entry s) (ds_reachable s)
       (rpo_order (ds_blocks s) (ds_successors s) (ds_entry s)) \<and>
     numbered (ds_blocks s) (ds_successors s) (ds_entry s) (ds_positions s) \<and>
     length (ds_immediate_dominators s) = length (ds_blocks s)"

abbreviation s_edge :: "dominance_solver \<Rightarrow> il_block_id \<Rightarrow> il_block_id \<Rightarrow> bool" where
  "s_edge s \<equiv> flow_edge (ds_blocks s) (ds_successors s)"

abbreviation s_pos :: "dominance_solver \<Rightarrow> il_block_id \<Rightarrow> nat" where
  "s_pos s \<equiv> rpo_number (ds_blocks s) (ds_successors s) (ds_entry s)"

abbreviation s_idom :: "dominance_solver \<Rightarrow> il_block_id \<Rightarrow> il_block_id option" where
  "s_idom s \<equiv> idom_map (length (ds_blocks s)) (ds_immediate_dominators s)"

abbreviation s_chain :: "dominance_solver \<Rightarrow> il_block_id \<Rightarrow> il_block_id set" where
  "s_chain s \<equiv> chain (ds_entry s) (s_idom s)"

abbreviation s_inv :: "nat \<Rightarrow> dominance_solver \<Rightarrow> bool" where
  "s_inv k s \<equiv> chk_inv (s_edge s) (ds_entry s) (s_pos s) k (s_idom s)"

lemma solver_order: "solver_ok s \<Longrightarrow> set (ds_reverse_postorder s) = {b. reaches (s_edge s) (ds_entry s) b}"
  by (simp add: solver_ok_def rpo_ok_def)

lemma processed_predecessors_ok:
  assumes ok: "solver_ok s" and b: "reaches (s_edge s) (ds_entry s) b"
  shows "\<exists>ps. processed_predecessors s b = Inr ps \<and> set ps = ready_preds (s_edge s) (ds_entry s) (s_idom s) b"
proof -
  let ?row = "row_of (id_index b) (flow_entries (ds_blocks s) (ds_successors s))"
  have fl: "flow_ok (ds_blocks s) (ds_successors s)" and en: "node (length (ds_blocks s)) (ds_entry s)"
    using ok by (auto simp: solver_ok_def)
  have nb: "node (length (ds_blocks s)) b" using reaches_node [OF en b] .
  have row: "w \<in> set ?row \<longleftrightarrow> s_edge s w b" for w using mem_predecessor_row [OF fl nb] .
  have "(and_then (get_at (ds_reachable s) (id_index w)) (\<lambda>r.
      if r then map_ok (\<lambda>d. d \<noteq> None) (get_at (ds_immediate_dominators s) (id_index w)) else Inr False))
      = Inr (reaches (s_edge s) (ds_entry s) w \<and> s_idom s w \<noteq> None)" if "w \<in> set ?row" for w
  proof -
    have nw: "node (length (ds_blocks s)) w" using that row flow_edge_nodes by blast
    then have "ds_reachable s ! id_index w \<longleftrightarrow> reaches (s_edge s) (ds_entry s) w" "length (ds_reachable s) = length (ds_blocks s)"
      using ok by (auto simp: solver_ok_def rpo_ok_def)
    then show ?thesis using nw ok by (auto simp: get_at_def node_def solver_ok_def idom_map_def map_ok_def)
  qed
  then have step: "filter_ok (\<lambda>w. and_then (get_at (ds_reachable s) (id_index w)) (\<lambda>r.
      if r then map_ok (\<lambda>d. d \<noteq> None) (get_at (ds_immediate_dominators s) (id_index w)) else Inr False)) ?row =
      Inr (filter (\<lambda>w. reaches (s_edge s) (ds_entry s) w \<and> s_idom s w \<noteq> None) ?row)"
    by (rule filter_ok_all)
  have "predecessors_for (ds_predecessors s) b = Inr ?row" using ok by (simp add: solver_ok_def)
  then have "processed_predecessors s b = Inr (filter (\<lambda>w. reaches (s_edge s) (ds_entry s) w \<and> s_idom s w \<noteq> None) ?row)"
    unfolding processed_predecessors_def by (simp only: and_then_Inr step)
  then show ?thesis using row by (auto simp: ready_preds_def)
qed

definition weight :: "dominance_solver \<Rightarrow> il_block_id \<Rightarrow> nat" where
  "weight s b = (case s_idom s b of None \<Rightarrow> length (ds_reverse_postorder s) | Some m \<Rightarrow> s_pos s m)"

definition work :: "dominance_solver \<Rightarrow> nat" where
  "work s = (\<Sum>b \<in> set (ds_reverse_postorder s). weight s b)"

text \<open>One turn of the pass: the node that heads the common part becomes the immediate dominator.\<close>

lemma solver_update:
  assumes ok: "solver_ok s" and inv: "s_inv k s" and c: "reaches (s_edge s) (ds_entry s) c" "c \<noteq> ds_entry s" "s_pos s c = k"
    and x: "\<And>z. z \<in> s_chain s x \<longleftrightarrow> (\<forall>p \<in> ready_preds (s_edge s) (ds_entry s) (s_idom s) c. z \<in> s_chain s p)"
      "s_idom s x \<noteq> None"
    and s': "s' = s\<lparr>ds_immediate_dominators := (ds_immediate_dominators s)[id_index c := Some x]\<rparr>"
  shows "solver_ok s' \<and> s_inv (Suc k) s' \<and> (s_idom s c \<noteq> Some x \<longrightarrow> work s' < work s)"
proof -
  have en: "node (length (ds_blocks s)) (ds_entry s)" using ok by (simp add: solver_ok_def)
  have nc: "node (length (ds_blocks s)) c" using reaches_node [OF en c(1)] .
  have f: "s_idom s' a = s_idom s a" if "a \<noteq> c" for a
    using that node_inj [OF _ nc, of a] by (auto simp: s' idom_map_def nth_list_update)
  have fc: "s_idom s' c = Some x" using nc ok by (simp add: s' idom_map_def solver_ok_def node_def)
  have inv': "s_inv (Suc k) s' \<and> (\<forall>m. s_idom s c = Some m \<longrightarrow> x \<in> s_chain s m)"
  proof (cases "s_idom s c")
    case None
    then show ?thesis using rpo.first_step [OF inv c None x f fc] by (simp add: s')
  next
    case (Some m)
    then show ?thesis using rpo.later_step [OF inv c Some x f fc] by (simp add: s')
  qed
  have chain: "chain_ok (s_edge s) (ds_entry s) (s_pos s) (s_idom s)" using inv by (simp add: chk_inv_def rounds_def)
  have less: "work s' < work s" if "s_idom s c \<noteq> Some x"
  proof -
    have xr: "reaches (s_edge s) (ds_entry s) x" using chain x(2) by (auto simp: chain_ok_def)
    have "s_pos s x < length (ds_reverse_postorder s)"
      using rpo_number_facts(1) [OF _ en xr] ok by (simp add: solver_ok_def)
    moreover have "s_pos s x < s_pos s m" if "s_idom s c = Some m" for m
      using chain_pos [OF chain, of x m] inv' that \<open>s_idom s c \<noteq> Some x\<close> by auto
    ultimately have wc: "weight s' c < weight s c" using fc by (auto simp: weight_def s' split: option.splits)
    have wb: "weight s' b = weight s b" if "b \<noteq> c" for b using f [OF that] by (cases "s_idom s b") (simp_all add: weight_def s')
    have co: "c \<in> set (ds_reverse_postorder s)" using solver_order [OF ok] c(1) by simp
    have "sum (weight s') (set (ds_reverse_postorder s)) < sum (weight s) (set (ds_reverse_postorder s))"
    proof (rule sum_strict_mono_ex1)
      show "\<forall>b \<in> set (ds_reverse_postorder s). weight s' b \<le> weight s b" using wb wc by (metis order.refl less_imp_le)
      show "\<exists>b \<in> set (ds_reverse_postorder s). weight s' b < weight s b" using co wc by blast
    qed simp
    then show ?thesis by (simp add: work_def s')
  qed
  have "solver_ok s'" using ok by (simp add: solver_ok_def s')
  then show ?thesis using inv' less by simp
qed

definition settled :: "dominance_solver \<Rightarrow> il_block_id \<Rightarrow> bool" where
  "settled s b \<longleftrightarrow> (\<forall>m z p. s_idom s b = Some m \<longrightarrow> z \<in> s_chain s m \<longrightarrow>
     p \<in> ready_preds (s_edge s) (ds_entry s) (s_idom s) b \<longrightarrow> z \<in> s_chain s p)"

lemma s_inv_chained: "solver_ok s \<Longrightarrow> s_inv k s \<Longrightarrow>
  chained (ds_blocks s) (ds_successors s) (ds_entry s) (ds_immediate_dominators s)"
  by (simp add: chained_def solver_ok_def chk_inv_def rounds_def)

lemma solve_pass_ok:
  assumes "solver_ok s" "s_inv k s" "rest = drop k (ds_reverse_postorder s)" "0 < k" "k \<le> length (ds_reverse_postorder s)"
  shows "\<exists>s' ch'. solve_pass s ch rest = Some (Inr (s', ch')) \<and> solver_ok s' \<and>
    (\<exists>idoms. s' = s\<lparr>ds_immediate_dominators := idoms\<rparr>) \<and>
    s_inv (length (ds_reverse_postorder s)) s' \<and> work s' \<le> work s \<and> (ch \<longrightarrow> ch') \<and>
    (ch' \<longrightarrow> ch \<or> work s' < work s) \<and> (\<not> ch' \<longrightarrow> s' = s \<and> (\<forall>b \<in> set rest. settled s b))"
  using assms
proof (induction rest arbitrary: s ch k)
  case Nil
  then have "k = length (ds_reverse_postorder s)" by simp
  then show ?case using Nil by (intro exI [of _ s] exI [of _ ch]) (auto intro: exI [of _ "ds_immediate_dominators s"])
next
  case (Cons c rest)
  let ?o = "ds_reverse_postorder s"
  have klt: "k < length ?o" using Cons.prems(3) by (metis drop_eq_Nil list.distinct(1) not_le)
  then have ck: "c = ?o ! k" "rest = drop (Suc k) ?o" using Cons.prems(3) by (auto simp: Cons_nth_drop_Suc [symmetric])
  have o: "?o = rpo_order (ds_blocks s) (ds_successors s) (ds_entry s)" "distinct ?o" "hd ?o = ds_entry s" "?o \<noteq> []"
    using Cons.prems(1) by (auto simp: solver_ok_def rpo_ok_def)
  have pos: "s_pos s c = k" using rpo_number_nth [of "ds_blocks s" "ds_successors s" "ds_entry s" k] o klt ck by simp
  have c: "reaches (s_edge s) (ds_entry s) c" using solver_order [OF Cons.prems(1)] nth_mem [OF klt] ck(1) by simp
  have ne: "c \<noteq> ds_entry s"
    using o(2-4) ck(1) klt Cons.prems(4) by (metis hd_conv_nth length_greater_0_conv nth_eq_iff_index_eq less_numeral_extra(3))
  obtain ps where ps: "processed_predecessors s c = Inr ps" "set ps = ready_preds (s_edge s) (ds_entry s) (s_idom s) c"
    using processed_predecessors_ok [OF Cons.prems(1) c] by blast
  have "ready_preds (s_edge s) (ds_entry s) (s_idom s) c \<noteq> {}"
    using rpo.forward_pred [OF c ne] Cons.prems(2) pos by (fastforce simp: ready_preds_def chk_inv_def rounds_def)
  then obtain p qs where pq: "ps = p # qs" using ps(2) by (cases ps) auto
  have nu: "numbered (ds_blocks s) (ds_successors s) (ds_entry s) (ds_positions s)" using Cons.prems(1) by (simp add: solver_ok_def)
  obtain x where x: "intersect_all (ds_positions s) (ds_immediate_dominators s) p qs = Some (Inr x)" "s_idom s x \<noteq> None"
    "\<And>z. z \<in> s_chain s x \<longleftrightarrow> (\<forall>q \<in> ready_preds (s_edge s) (ds_entry s) (s_idom s) c. z \<in> s_chain s q)"
  proof -
    have rp: "set (p # qs) = ready_preds (s_edge s) (ds_entry s) (s_idom s) c" using ps(2) pq by simp
    then have "s_idom s q \<noteq> None" if "q \<in> set (p # qs)" for q using that by (simp add: ready_preds_def)
    then have "s_idom s p \<noteq> None" "\<forall>q \<in> set qs. s_idom s q \<noteq> None" by auto
    from intersect_all_ok [OF s_inv_chained [OF Cons.prems(1,2)] nu this] show ?thesis using that rp by metis
  qed
  have nc: "node (length (ds_blocks s)) c" "length (ds_immediate_dominators s) = length (ds_blocks s)"
    using reaches_node [OF _ c] Cons.prems(1) by (auto simp: solver_ok_def)
  then have get: "get_at (ds_immediate_dominators s) (id_index c) = Inr (s_idom s c)"
    by (simp add: get_at_def node_def idom_map_def)
  let ?s = "s\<lparr>ds_immediate_dominators := (ds_immediate_dominators s)[id_index c := Some x]\<rparr>"
  note upd = solver_update [OF Cons.prems(1,2) c ne pos x(3,2) refl]
  show ?case
  proof (cases "s_idom s c = Some x")
    case True
    have "?s = s" using True nc by (simp add: idom_map_def node_def list_update_same_conv)
    then have inv: "s_inv (Suc k) s" using upd by simp
    have st: "settled s c" using True x(3) by (simp add: settled_def)
    have eq: "solve_pass s ch (c # rest) = solve_pass s ch rest" using ps(1) pq x(1) get True by simp
    have "0 < Suc k" "Suc k \<le> length ?o" using klt by auto
    from Cons.IH [OF Cons.prems(1) inv ck(2) this, of ch] show ?thesis unfolding eq set_simps using st by blast
  next
    case False
    have put: "put_at (ds_immediate_dominators s) (id_index c) (Some x) =
        Inr ((ds_immediate_dominators s)[id_index c := Some x])" using nc by (simp add: put_at_def node_def)
    have eq: "solve_pass s ch (c # rest) = solve_pass ?s True rest" using ps(1) pq x(1) get False put by simp
    have ok: "solver_ok ?s" "s_inv (Suc k) ?s" "work ?s < work s" using upd False by auto
    have rest: "rest = drop (Suc k) (ds_reverse_postorder ?s)" "0 < Suc k" "Suc k \<le> length (ds_reverse_postorder ?s)"
      using ck(2) klt by auto
    obtain s' ch' idoms where s': "solve_pass ?s True rest = Some (Inr (s', ch'))" "solver_ok s'"
      "s' = ?s\<lparr>ds_immediate_dominators := idoms\<rparr>" "s_inv (length (ds_reverse_postorder ?s)) s'" "work s' \<le> work ?s" "ch'"
      using Cons.IH [OF ok(1,2) rest, of True] by blast
    have "s' = s\<lparr>ds_immediate_dominators := idoms\<rparr>" "s_inv (length ?o) s'" "work s' < work s"
      using s'(3-5) ok(3) by auto
    then show ?thesis unfolding eq using s'(1,2,6) by (intro exI [of _ s'] exI [of _ ch']) auto
  qed
qed

lemma s_pos_less:
  assumes "solver_ok s" "reaches (s_edge s) (ds_entry s) b" shows "s_pos s b < length (ds_reverse_postorder s)"
  using assms rpo_number_facts(1) [of "ds_blocks s" "ds_successors s" "ds_entry s" b] by (simp add: solver_ok_def)

lemma solver_rest: "solver_ok s \<Longrightarrow> reaches (s_edge s) (ds_entry s) b \<Longrightarrow> b \<noteq> ds_entry s \<Longrightarrow> b \<in> set (drop 1 (ds_reverse_postorder s))"
proof -
  assume ok: "solver_ok s" and b: "reaches (s_edge s) (ds_entry s) b" "b \<noteq> ds_entry s"
  have "b \<in> set (ds_reverse_postorder s)" using solver_order [OF ok] b(1) by simp
  moreover have "ds_reverse_postorder s = ds_entry s # drop 1 (ds_reverse_postorder s)"
  proof -
    have "ds_reverse_postorder s \<noteq> []" "hd (ds_reverse_postorder s) = ds_entry s" using ok by (auto simp: solver_ok_def rpo_ok_def)
    then show ?thesis by (cases "ds_reverse_postorder s") auto
  qed
  ultimately show ?thesis using b(2) by (metis set_ConsD)
qed

text \<open>The loop ends: each round that changes something takes work away.\<close>

lemma solve_loop_ok:
  assumes "solver_ok s" "s_inv 1 s"
  shows "\<exists>idoms. let s' = s\<lparr>ds_immediate_dominators := idoms\<rparr> in
    solve_loop s = Some (Inr s') \<and> solver_ok s' \<and>
    chain_ok (s_edge s) (ds_entry s) (s_pos s) (s_idom s') \<and>
    (\<forall>b. reaches (s_edge s) (ds_entry s) b \<longrightarrow> s_idom s' b \<noteq> None \<and>
       (\<forall>d. d \<in> s_chain s' b \<longleftrightarrow> dominates_in (s_edge s) (ds_entry s) d b))"
  using assms
proof (induction "work s" arbitrary: s rule: less_induct)
  case less
  let ?n = "length (ds_reverse_postorder s)"
  have "ds_reverse_postorder s \<noteq> []" using less.prems(1) by (auto simp: solver_ok_def rpo_ok_def)
  then have n: "0 < (1 :: nat)" "1 \<le> ?n" by (auto simp: Suc_le_eq)
  obtain s' ch idoms where pass: "solve_pass s False (drop 1 (ds_reverse_postorder s)) = Some (Inr (s', ch))" "solver_ok s'"
    "s' = s\<lparr>ds_immediate_dominators := idoms\<rparr>" "s_inv ?n s'" "ch \<longrightarrow> work s' < work s"
    "\<not> ch \<longrightarrow> s' = s \<and> (\<forall>b \<in> set (drop 1 (ds_reverse_postorder s)). settled s b)"
    using solve_pass_ok [OF less.prems refl n, of False] by blast
  have lt: "s_pos s' b < ?n" if "reaches (s_edge s') (ds_entry s') b" for b
    using s_pos_less [OF pass(2) that] pass(3) by simp
  note wrap = rpo.chk_inv_wrap [OF pass(4) lt]
  show ?case
  proof (cases ch)
    case True
    from less.hyps [OF _ pass(2) wrap(1) [of 1]] pass(5) True
    obtain idoms' where rec: "let s'' = s'\<lparr>ds_immediate_dominators := idoms'\<rparr> in
      solve_loop s' = Some (Inr s'') \<and> solver_ok s'' \<and>
      chain_ok (s_edge s') (ds_entry s') (s_pos s') (s_idom s'') \<and>
      (\<forall>b. reaches (s_edge s') (ds_entry s') b \<longrightarrow> s_idom s'' b \<noteq> None \<and>
         (\<forall>d. d \<in> s_chain s'' b \<longleftrightarrow> dominates_in (s_edge s') (ds_entry s') d b))" by blast
    have "solve_loop s = solve_loop s'" using pass(1) True by (subst solve_loop.simps) simp
    then show ?thesis using rec pass(3) by (intro exI [of _ idoms']) (simp add: Let_def)
  next
    case False
    then have same: "s' = s" and st: "\<And>b. b \<in> set (drop 1 (ds_reverse_postorder s)) \<Longrightarrow> settled s b" using pass(6) by auto
    have ready: "s_idom s b \<noteq> None" if "reaches (s_edge s) (ds_entry s) b" for b using wrap(2) that same by simp
    have "d \<in> s_chain s b \<longleftrightarrow> dominates_in (s_edge s) (ds_entry s) d b" if "reaches (s_edge s) (ds_entry s) b" for b d
    proof (rule rpo.fixpoint_dominators [OF less.prems(2) ready _ that])
      show "z \<in> s_chain s p" if "reaches (s_edge s) (ds_entry s) b" "b \<noteq> ds_entry s" "s_idom s b = Some m" "z \<in> s_chain s m"
        "p \<in> ready_preds (s_edge s) (ds_entry s) (s_idom s) b" for b m z p
        using st [OF solver_rest [OF less.prems(1) that(1,2)]] that(3-5) unfolding settled_def by blast
    qed
    moreover have "solve_loop s = Some (Inr s)" using pass(1) False same by (subst solve_loop.simps) simp
    moreover have "chain_ok (s_edge s) (ds_entry s) (s_pos s) (s_idom s)"
      using less.prems(2) by (simp add: chk_inv_def rounds_def)
    ultimately show ?thesis using ready less.prems(1)
      by (intro exI [of _ "ds_immediate_dominators s"]) (simp add: Let_def)
  qed
qed

lemma solver_new_ok:
  assumes fl: "flow_ok blocks successors" and en: "node (length blocks) entry"
  shows "\<exists>s. solver_new blocks successors entry = Inr s \<and> solver_ok s \<and> ds_blocks s = blocks \<and>
    ds_successors s = successors \<and> ds_entry s = entry \<and> ds_immediate_dominators s = replicate (length blocks) None"
proof -
  obtain p where p: "predecessors_new blocks successors = Inr p"
    "\<And>b. predecessors_for p b = Inr (row_of (id_index b) (flow_entries blocks successors))"
    using predecessors_built [OF fl] by blast
  obtain reachable post where rpo: "rpo_loop blocks successors (replicate (length blocks) False) (replicate (length blocks) False)
      [(entry, False)] [] = Inr (reachable, post)" "rev post = rpo_order blocks successors entry"
    "rpo_ok blocks successors entry reachable (rpo_order blocks successors entry)"
    using rpo_run [OF fl en] by blast
  let ?o = "rpo_order blocks successors entry"
  have nodes: "\<forall>b \<in> set ?o. node (length blocks) b" and d: "distinct ?o"
    using rpo(3) reaches_node [OF en] by (auto simp: rpo_ok_def)
  have "inj_on id_index (set ?o)" using nodes node_inj unfolding inj_on_def by blast
  then have "card (set ?o) \<le> card {..<length blocks}"
    by (intro card_inj_on_le [of id_index]) (use nodes in \<open>auto simp: node_def\<close>)
  then have small: "length ?o < 2 ^ 32" using d fl by (simp add: distinct_card flow_ok_def)
  obtain ps where ps: "set_positions (replicate (length blocks) (- 1)) 0 ?o = Inr ps" "length ps = length blocks"
    "\<And>i. i < length ?o \<Longrightarrow> ps ! id_index (?o ! i) = word_of_nat i"
    using set_positions_ok [OF nodes _ d, of "replicate (length blocks) (- 1)" 0] small by auto
  have "numbered blocks successors entry ps"
    unfolding numbered_def
  proof (intro conjI allI impI)
    fix b assume "reaches (flow_edge blocks successors) entry b"
    from rpo_number_facts(1) [OF fl en this] ps(3) [of "rpo_number blocks successors entry b"] small
    show "unat (ps ! id_index b) = rpo_number blocks successors entry b" by (simp add: unat_word_of_nat)
  qed (rule ps(2))
  then show ?thesis using p rpo ps(1) fl en
    by (simp add: solver_new_def compute_reverse_postorder_def solver_ok_def)
qed

lemma solve_immediate_dominators_ok:
  assumes ok: "solver_ok s" and none: "ds_immediate_dominators s = replicate (length (ds_blocks s)) None"
  shows "\<exists>idoms. let s' = s\<lparr>ds_immediate_dominators := idoms\<rparr> in
    solve_immediate_dominators s = Some (Inr s') \<and> solver_ok s' \<and>
    chain_ok (s_edge s) (ds_entry s) (s_pos s) (s_idom s') \<and>
    (\<forall>b. reaches (s_edge s) (ds_entry s) b \<longrightarrow> s_idom s' b \<noteq> None \<and>
       (\<forall>d. d \<in> s_chain s' b \<longleftrightarrow> dominates_in (s_edge s) (ds_entry s) d b))"
proof -
  let ?s = "s\<lparr>ds_immediate_dominators := (replicate (length (ds_blocks s)) None)[id_index (ds_entry s) := Some (ds_entry s)]\<rparr>"
  have en: "node (length (ds_blocks s)) (ds_entry s)" and fl: "flow_ok (ds_blocks s) (ds_successors s)"
    using ok by (auto simp: solver_ok_def)
  have ok': "solver_ok ?s" using ok by (simp add: solver_ok_def)
  have "s_idom ?s (ds_entry ?s) = Some (ds_entry ?s)" using en by (simp add: idom_map_def node_def)
  moreover have "s_idom ?s a = None" if "a \<noteq> ds_entry ?s" for a
    using that node_inj [OF _ en, of a] by (auto simp: idom_map_def nth_list_update node_def)
  moreover have zero: "s_pos ?s (ds_entry ?s) = 0" using rpo_number_facts(2) [OF fl en] by simp
  moreover have "b = ds_entry ?s" if "reaches (s_edge ?s) (ds_entry ?s) b" "s_pos ?s b < 1" for b
    using rpo.entry_pos [OF that(1)] that(2) by (cases "b = ds_entry ?s") auto
  ultimately have "s_inv 1 ?s" using rpo.chk_inv_start [of "s_idom ?s" "ds_entry ?s"] by simp
  from solve_loop_ok [OF ok' this] show ?thesis
    using en none by (simp add: solve_immediate_dominators_def put_at_def node_def Let_def)
qed

end
