(* ===== verification/DomTree.thy ===== *)
theory DomTree
  imports Dominance
begin

text \<open>
  The dominator tree that \<open>IlDominance\<close> stores: children, the nesting intervals that decide
  dominance, the dominance frontiers and the placement of phis, over the solver of \<open>Dominance\<close>.
\<close>

section \<open>Children\<close>

definition child_list :: "nat \<Rightarrow> il_block_id option list \<Rightarrow> (nat \<times> il_block_id) list" where
  "child_list k ds =
     concat (map (\<lambda>(i, d). case d of None \<Rightarrow> [] | Some m \<Rightarrow> [(id_index m, node_id i)]) (List.enumerate k ds))"

lemma child_entries_eq: "k + length ds < 2 ^ 32 \<Longrightarrow> child_entries k ds = Inr (child_list k ds)"
  by (induction k ds rule: child_entries.induct)
    (auto simp: child_list_def try_from_index_node or_panic_def map_ok_def)

lemma mem_child_list:
  "(j, w) \<in> set (child_list 0 ds) \<longleftrightarrow> (\<exists>i < length ds. \<exists>m. ds ! i = Some m \<and> j = id_index m \<and> w = node_id i)"
  (is "?l \<longleftrightarrow> ?r")
proof
  assume ?l
  then obtain i d where "(i, d) \<in> set (List.enumerate 0 ds)" "(j, w) \<in> set (case d of None \<Rightarrow> [] | Some m \<Rightarrow> [(id_index m, node_id i)])"
    by (auto simp: child_list_def)
  then show ?r by (cases d) (auto simp: in_set_enumerate_eq intro!: exI [of _ i])
next
  assume ?r
  then obtain i m where i: "i < length ds" "ds ! i = Some m" "j = id_index m" "w = node_id i" by blast
  then have "(i, Some m) \<in> set (List.enumerate 0 ds)" by (simp add: in_set_enumerate_eq)
  then show ?l using i by (force simp: child_list_def)
qed

lemma length_child_list: "length (child_list k ds) \<le> length ds"
  by (induction ds arbitrary: k) (auto simp: child_list_def split: option.splits intro: le_SucI)

lemma distinct_child_row:
  assumes "length ds < 2 ^ 32" shows "distinct (row_of r (child_list 0 ds))"
proof -
  have low: "i \<ge> k" if mem: "(j, w) \<in> set (child_list k es)" and that: "w = node_id i" "k + length es < 2 ^ 32" "i < 2 ^ 32 - 1"
    for j w i k and es :: "il_block_id option list"
  proof -
    obtain l where "k \<le> l" "l < k + length es" "w = node_id l"
      using mem by (auto simp: child_list_def in_set_enumerate_eq split: option.splits)
    then have "id_index (node_id i) = id_index (node_id l)" "l < 2 ^ 32 - 1" using that by auto
    then have "i = l" using index_node_id [of i] index_node_id [of l] that(3) by simp
    then show ?thesis using \<open>k \<le> l\<close> by simp
  qed
  have "distinct (row_of r (child_list k ds))" if "k + length ds < 2 ^ 32" for k
    using that
  proof (induction ds arbitrary: k)
    case (Cons d ds)
    have IH: "distinct (row_of r (child_list (Suc k) ds))" using Cons by simp
    have "child_list k (d # ds) = (case d of None \<Rightarrow> [] | Some m \<Rightarrow> [(id_index m, node_id k)]) @ child_list (Suc k) ds"
      by (simp add: child_list_def)
    moreover have "(r, node_id k) \<notin> set (child_list (Suc k) ds)"
      using low [of r "node_id k" "Suc k" ds k] Cons.prems by auto
    ultimately show ?case using IH by (cases d) auto
  qed (simp add: child_list_def)
  then show ?thesis using assms by simp
qed

lemma compute_children_ok:
  assumes n: "length (ds_immediate_dominators s) = length (ds_blocks s)" "length (ds_blocks s) < 2 ^ 32"
    and d: "\<And>b m. s_idom s b = Some m \<Longrightarrow> node (length (ds_blocks s)) m"
  shows "\<exists>c. compute_children s = Inr c \<and>
    (\<forall>b. node (length (ds_blocks s)) b \<longrightarrow> (\<exists>cs. csr_row c (id_index b) = Inr cs \<and> checked_row c (id_index b) = Inr (Some cs) \<and>
       distinct cs \<and> set cs = {x. s_idom s x = Some b})) \<and>
    (\<forall>i \<ge> length (ds_blocks s). checked_row c i = Inr None)"
proof -
  let ?n = "length (ds_blocks s)" and ?ds = "ds_immediate_dominators s"
  have idx: "node ?n (node_id i) \<and> id_index (node_id i) = i" if "i < ?n" for i
    using that n u32_of_Suc_neq_0 [of i] index_node_id [of i] by (auto simp: node_def node_id_def simp del: of_nat_Suc)
  have get: "?ds ! i = s_idom s (node_id i)" if "i < ?n" for i using idx [OF that] by (simp add: idom_map_def)
  have entries: "child_entries 0 ?ds = Inr (child_list 0 ?ds)" using child_entries_eq [of 0 ?ds] n by simp
  have mem: "(j, w) \<in> set (child_list 0 ?ds) \<longleftrightarrow> (\<exists>m. s_idom s w = Some m \<and> j = id_index m)" for j w
  proof
    assume "(j, w) \<in> set (child_list 0 ?ds)"
    then show "\<exists>m. s_idom s w = Some m \<and> j = id_index m" using get n by (auto simp: mem_child_list)
  next
    assume "\<exists>m. s_idom s w = Some m \<and> j = id_index m"
    then obtain m where m: "s_idom s w = Some m" "j = id_index m" by blast
    then have "node ?n w" "?ds ! id_index w = Some m" by (auto simp: idom_map_def split: if_splits)
    then show "(j, w) \<in> set (child_list 0 ?ds)"
      using m n node_id_index [of w] by (auto simp: mem_child_list node_def)
  qed
  have "fst e < ?n" if "e \<in> set (child_list 0 ?ds)" for e
    using that mem [of "fst e" "snd e"] d by (auto simp: node_def)
  then have "entries_fit (?n, child_list 0 ?ds)" using n length_child_list [of 0 ?ds] by (auto simp: entries_fit_def)
  from entry_rows.stored [OF this]
  obtain c where c: "csr_from_entries ?n (child_list 0 ?ds) = Inr c"
    "\<And>r. r < ?n \<Longrightarrow> csr_row c r = Inr (row_of r (child_list 0 ?ds)) \<and> checked_row c r = Inr (Some (row_of r (child_list 0 ?ds)))"
    "\<And>r. ?n \<le> r \<Longrightarrow> checked_row c r = Inr None" by auto
  have "set (row_of (id_index b) (child_list 0 ?ds)) = {x. s_idom s x = Some b}" if "node ?n b" for b
  proof -
    have "id_index b = id_index m \<longleftrightarrow> m = b" if m: "s_idom s x = Some m" for x m
      using node_inj [OF \<open>node ?n b\<close> d [OF m]] by blast
    then show ?thesis unfolding set_eq_iff set_row_of mem by blast
  qed
  moreover have "distinct (row_of r (child_list 0 ?ds))" for r using distinct_child_row n by simp
  ultimately show ?thesis using c entries by (auto simp: compute_children_def node_def)
qed

section \<open>Subtrees\<close>

definition tree_ok :: "nat \<Rightarrow> (il_block_id \<Rightarrow> il_block_id \<Rightarrow> bool) \<Rightarrow> il_block_id \<Rightarrow> (il_block_id \<Rightarrow> nat) \<Rightarrow>
    (il_block_id \<Rightarrow> il_block_id option) \<Rightarrow> (il_block_id \<Rightarrow> il_block_id list) \<Rightarrow> bool" where
  "tree_ok n E r pos idom ch \<longleftrightarrow>
     chain_ok E r pos idom \<and> (\<forall>b. idom b \<noteq> None \<longrightarrow> node n b) \<and>
     (\<forall>b. distinct (ch b) \<and> set (ch b) = {x. x \<noteq> r \<and> idom x = Some b})"

definition subtree :: "'v \<Rightarrow> ('v \<Rightarrow> 'v option) \<Rightarrow> 'v \<Rightarrow> 'v set" where
  "subtree r idom b = {x. idom x \<noteq> None \<and> b \<in> chain r idom x}"

lemma finite_nodes: "finite {b. node n b}"
  by (rule finite_subset [of _ UNIV]) simp_all

lemma finite_subtree [simp]: "finite (subtree r idom (b :: il_block_id))"
  by (rule finite_subset [of _ UNIV]) simp_all

lemma subtree_self: "idom b \<noteq> None \<Longrightarrow> b \<in> subtree r idom b"
  by (simp add: subtree_def)

lemma child_facts:
  assumes "tree_ok n E r pos idom ch" "c \<in> set (ch b)"
  shows "c \<noteq> r" "idom c = Some b" "idom b \<noteq> None" "pos b < pos c" "node n c" "b \<in> chain r idom c"
proof -
  show c: "c \<noteq> r" "idom c = Some b" using assms by (auto simp: tree_ok_def)
  then show "idom b \<noteq> None" "pos b < pos c" "node n c" using assms(1) by (auto simp: tree_ok_def chain_ok_def)
  show "b \<in> chain r idom c" using chain_Some [of c r idom b] c by simp
qed

lemma subtree_split:
  assumes tree: "tree_ok n E r pos idom ch" and b: "idom b \<noteq> None"
  shows "subtree r idom b = insert b (\<Union>c \<in> set (ch b). subtree r idom c)"
proof -
  have down: "x = b \<or> (\<exists>c \<in> set (ch b). c \<in> chain r idom x)" if "b \<in> chain r idom x" for x
    using that
  proof (induction rule: chain_induct)
    case (up x m)
    show ?case
    proof (cases "m = b")
      case True
      then have "x \<in> set (ch b)" using up(1,2) tree by (simp add: tree_ok_def)
      then show ?thesis using chain_refl [of x r idom] by blast
    next
      case False
      then show ?thesis using up chain_Some [of x r idom m] by auto
    qed
  qed simp
  have above: "b \<in> chain r idom x" if "c \<in> set (ch b)" "c \<in> chain r idom x" for c x
    using chain_trans [OF that(2) child_facts(6) [OF tree that(1)]] .
  show ?thesis
  proof (rule set_eqI, rule iffI)
    fix x assume "x \<in> subtree r idom b"
    then show "x \<in> insert b (\<Union>c \<in> set (ch b). subtree r idom c)" using down [of x] by (auto simp: subtree_def)
  next
    fix x assume "x \<in> insert b (\<Union>c \<in> set (ch b). subtree r idom c)"
    then consider "x = b" | c where "c \<in> set (ch b)" "idom x \<noteq> None" "c \<in> chain r idom x" by (auto simp: subtree_def)
    then show "x \<in> subtree r idom b" by cases (use above b in \<open>simp_all add: subtree_def\<close>)
  qed
qed

lemma subtree_parent:
  assumes "tree_ok n E r pos idom ch" "c \<in> set (ch b)" shows "b \<notin> subtree r idom c"
proof
  assume "b \<in> subtree r idom c"
  then have "c = b \<or> pos c < pos b" using chain_pos [of E r pos idom c b] assms(1) by (auto simp: subtree_def tree_ok_def)
  then show False using child_facts(4) [OF assms] by auto
qed

lemma siblings_apart:
  assumes tree: "tree_ok n E r pos idom ch" and c: "c \<in> set (ch b)" "c' \<in> set (ch b)" "c \<noteq> c'" and x: "c \<in> chain r idom x"
  shows "c' \<notin> chain r idom x"
proof
  assume "c' \<in> chain r idom x"
  with x have "c \<in> chain r idom c' \<or> c' \<in> chain r idom c" by (rule chain_linear)
  moreover have "d \<notin> chain r idom d'" if "d \<in> set (ch b)" "d' \<in> set (ch b)" "d \<noteq> d'" for d d'
  proof
    assume "d \<in> chain r idom d'"
    then have "d \<in> chain r idom b" using chain_Some [of d' r idom b] child_facts [OF tree that(2)] that(3) by auto
    then have "d = b \<or> pos d < pos b" using chain_pos [of E r pos idom d b] tree by (auto simp: tree_ok_def)
    then show False using child_facts(4) [OF tree that(1)] by auto
  qed
  ultimately show False using c by blast
qed

lemma subtree_induct [consumes 2, case_names node]:
  assumes tree: "tree_ok n E r pos idom ch" and b: "idom b \<noteq> None"
    and step: "\<And>b. idom b \<noteq> None \<Longrightarrow> (\<And>c. c \<in> set (ch b) \<Longrightarrow> P c) \<Longrightarrow> P b"
  shows "P b"
  using b
proof (induction "card (subtree r idom b)" arbitrary: b rule: less_induct)
  case less
  have "P c" if c: "c \<in> set (ch b)" for c
  proof (rule less.hyps)
    have "subtree r idom c \<subset> subtree r idom b"
      using subtree_split [OF tree less.prems] subtree_parent [OF tree c] subtree_self [of idom b r, OF less.prems] c by blast
    then show "card (subtree r idom c) < card (subtree r idom b)" by (rule psubset_card_mono [rotated]) simp
    show "idom c \<noteq> None" using child_facts(2) [OF tree c] by simp
  qed
  then show ?case by (rule step [OF less.prems])
qed

lemma card_subtree:
  assumes tree: "tree_ok n E r pos idom ch" and b: "idom b \<noteq> None"
  shows "card (subtree r idom b) = Suc (\<Sum>c \<leftarrow> ch b. card (subtree r idom c))"
proof -
  have disj: "subtree r idom c \<inter> subtree r idom c' = {}" if "c \<in> set (ch b)" "c' \<in> set (ch b)" "c \<noteq> c'" for c c'
    using siblings_apart [OF tree that] by (auto simp: subtree_def)
  have "card (\<Union>c \<in> set (ch b). subtree r idom c) = (\<Sum>c \<in> set (ch b). card (subtree r idom c))"
    by (rule card_UN_disjoint) (use disj in auto)
  moreover have "b \<notin> (\<Union>c \<in> set (ch b). subtree r idom c)" using subtree_parent [OF tree] by blast
  moreover have "distinct (ch b)" using tree by (simp add: tree_ok_def)
  ultimately show ?thesis using subtree_split [OF tree b] by (simp add: sum_list_distinct_conv_sum_set)
qed

section \<open>Intervals\<close>

definition num :: "u32 list \<Rightarrow> il_block_id \<Rightarrow> nat" where
  "num xs b = unat (xs ! id_index b)"

text \<open>The intervals of the nodes of \<open>S\<close> lie within \<open>lo\<close> and \<open>hi\<close> and nest as the chains do.\<close>

definition nested :: "il_block_id \<Rightarrow> (il_block_id \<Rightarrow> il_block_id option) \<Rightarrow> il_block_id set \<Rightarrow> nat \<Rightarrow> nat \<Rightarrow>
    u32 list \<Rightarrow> u32 list \<Rightarrow> bool" where
  "nested r idom S lo hi pre post \<longleftrightarrow>
     (\<forall>x \<in> S. lo \<le> num pre x \<and> num pre x < num post x \<and> num post x < hi) \<and>
     (\<forall>x \<in> S. \<forall>y \<in> S. num pre x \<le> num pre y \<and> num post y \<le> num post x \<longleftrightarrow> x \<in> chain r idom y)"

definition same_off :: "nat \<Rightarrow> il_block_id set \<Rightarrow> u32 list \<Rightarrow> u32 list \<Rightarrow> bool" where
  "same_off n S xs ys \<longleftrightarrow> length ys = length xs \<and> (\<forall>b. node n b \<longrightarrow> b \<notin> S \<longrightarrow> ys ! id_index b = xs ! id_index b)"

lemma same_off_trans: "same_off n S xs ys \<Longrightarrow> same_off n T ys zs \<Longrightarrow> same_off n (S \<union> T) xs zs"
  by (auto simp: same_off_def)

lemma same_off_num: "same_off n S xs ys \<Longrightarrow> node n b \<Longrightarrow> b \<notin> S \<Longrightarrow> num ys b = num xs b"
  by (simp add: same_off_def num_def)

lemma same_off_update: "node n b \<Longrightarrow> same_off n {b} xs (xs[id_index b := v])"
  using node_inj by (auto simp: same_off_def nth_list_update)

text \<open>What the loop does with a pushed block, or a list of pushed blocks: it numbers the subtrees.\<close>

definition interval_run :: "nat \<Rightarrow> il_block_id \<Rightarrow> (il_block_id \<Rightarrow> il_block_id option) \<Rightarrow> bool list \<Rightarrow> il_block_id il_csr \<Rightarrow>
    il_block_id set \<Rightarrow> nat \<Rightarrow> (il_block_id \<times> bool) list \<Rightarrow> bool" where
  "interval_run n r idom rl kids S k todo \<longleftrightarrow>
     (\<forall>pre post nxt stack. length pre = n \<longrightarrow> length post = n \<longrightarrow> unat nxt + 2 * k < 2 ^ 32 \<longrightarrow>
       (\<exists>pre' post' next'.
         intervals_loop rl kids pre post nxt (todo @ stack) =
           intervals_loop rl kids pre' post' next' stack \<and>
         same_off n S pre pre' \<and> same_off n S post post' \<and> unat next' = unat nxt + 2 * k \<and>
         nested r idom S (unat nxt) (unat next') pre' post'))"

lemma nested_cong:
  "\<forall>x \<in> S. num pre' x = num pre x \<and> num post' x = num post x \<Longrightarrow> nested r idom S lo hi pre post \<Longrightarrow> nested r idom S lo hi pre' post'"
  by (simp add: nested_def)

lemma nested_union:
  assumes "nested r idom S lo mid pre post" "nested r idom T mid hi pre post"
    and "\<And>x y. x \<in> S \<Longrightarrow> y \<in> T \<Longrightarrow> x \<notin> chain r idom y \<and> y \<notin> chain r idom x"
    and "lo \<le> mid" "mid \<le> hi"
  shows "nested r idom (S \<union> T) lo hi pre post"
  unfolding nested_def
proof (intro conjI ballI)
  fix x assume "x \<in> S \<union> T"
  then show "lo \<le> num pre x" "num pre x < num post x" "num post x < hi"
    using assms(1,2,4,5) unfolding nested_def by fastforce+
next
  fix x y assume "x \<in> S \<union> T" "y \<in> S \<union> T"
  moreover have "\<not> (num pre x \<le> num pre y \<and> num post y \<le> num post x)" if "x \<in> S \<and> y \<in> T \<or> x \<in> T \<and> y \<in> S"
    using that assms(1,2) unfolding nested_def by fastforce
  ultimately show "(num pre x \<le> num pre y \<and> num post y \<le> num post x) = (x \<in> chain r idom y)"
    using assms(1-3) unfolding nested_def by blast
qed

lemma interval_run_list:
  assumes tree: "tree_ok n E r pos idom ch" and cs: "set cs \<subseteq> set (ch b)" "distinct cs"
    and one: "\<And>c. c \<in> set cs \<Longrightarrow> interval_run n r idom rl cd (subtree r idom c) (card (subtree r idom c)) [(c, False)]"
  shows "interval_run n r idom rl cd (\<Union>c \<in> set cs. subtree r idom c) (\<Sum>c \<leftarrow> cs. card (subtree r idom c)) (map (\<lambda>c. (c, False)) cs)"
  using cs one
proof (induction cs)
  case Nil
  then show ?case by (auto simp: interval_run_def same_off_def nested_def)
next
  case (Cons c cs)
  let ?S = "subtree r idom c" and ?T = "\<Union>c \<in> set cs. subtree r idom c"
  let ?k = "card ?S" and ?l = "\<Sum>c \<leftarrow> cs. card (subtree r idom c)"
  have one: "interval_run n r idom rl cd ?S ?k [(c, False)]" using Cons.prems(3) by simp
  have rest: "interval_run n r idom rl cd ?T ?l (map (\<lambda>c. (c, False)) cs)" using Cons by simp
  have cross: "x \<notin> chain r idom y \<and> y \<notin> chain r idom x \<and> x \<notin> ?T" if xy: "x \<in> ?S" "y \<in> ?T" for x y
  proof -
    obtain c' where c': "c' \<in> set cs" "c' \<in> chain r idom y" using xy by (auto simp: subtree_def)
    have c: "c \<in> set (ch b)" "c' \<in> set (ch b)" "c \<noteq> c'" using Cons.prems c' by auto
    have "c \<in> chain r idom x" using xy(1) by (simp add: subtree_def)
    then have "c' \<notin> chain r idom x" using siblings_apart [OF tree c] by blast
    moreover have "c \<notin> chain r idom y" using siblings_apart [OF tree c(2,1) _ c'(2)] c(3) by blast
    moreover have "x \<notin> ?T"
      using siblings_apart [OF tree c(1) _ _ \<open>c \<in> chain r idom x\<close>] Cons.prems by (auto simp: subtree_def)
    ultimately show ?thesis
      using chain_trans [of x r idom y c] chain_trans [of y r idom x c'] \<open>c \<in> chain r idom x\<close> c'(2) by blast
  qed
  show ?case
    unfolding interval_run_def
  proof (intro allI impI)
    fix pre post :: "u32 list" and nxt :: u32 and stack
    assume len: "length pre = n" "length post = n" and small: "unat nxt + 2 * (\<Sum>c \<leftarrow> c # cs. card (subtree r idom c)) < 2 ^ 32"
    obtain pre1 post1 n1 where s1: "intervals_loop rl cd pre post nxt ([(c, False)] @ map (\<lambda>c. (c, False)) cs @ stack) =
        intervals_loop rl cd pre1 post1 n1 (map (\<lambda>c. (c, False)) cs @ stack)"
      "same_off n ?S pre pre1" "same_off n ?S post post1" "unat n1 = unat nxt + 2 * ?k" "nested r idom ?S (unat nxt) (unat n1) pre1 post1"
      using one [unfolded interval_run_def, rule_format, OF len, of nxt "map (\<lambda>c. (c, False)) cs @ stack"] small by auto
    have len1: "length pre1 = n" "length post1 = n" using s1(2,3) len by (auto simp: same_off_def)
    obtain pre2 post2 n2 where s2: "intervals_loop rl cd pre1 post1 n1 (map (\<lambda>c. (c, False)) cs @ stack) =
        intervals_loop rl cd pre2 post2 n2 stack"
      "same_off n ?T pre1 pre2" "same_off n ?T post1 post2" "unat n2 = unat n1 + 2 * ?l" "nested r idom ?T (unat n1) (unat n2) pre2 post2"
      using rest [unfolded interval_run_def, rule_format, OF len1, of n1 stack] small s1(4) by auto
    have "nested r idom ?S (unat nxt) (unat n1) pre2 post2"
    proof (rule nested_cong [OF _ s1(5)], intro ballI conjI)
      fix x assume x: "x \<in> ?S"
      then have "node n x" using tree by (auto simp: subtree_def tree_ok_def)
      moreover have "x \<notin> ?T" using cross [OF x] by blast
      ultimately show "num pre2 x = num pre1 x" "num post2 x = num post1 x" 
        using same_off_num [OF s2(2)] same_off_num [OF s2(3)] by simp_all
    qed
    then have "nested r idom (?S \<union> ?T) (unat nxt) (unat n2) pre2 post2"
      by (rule nested_union [OF _ s2(5)]) (use cross s1(4) s2(4) in auto)
    then show "\<exists>pre' post' next'. intervals_loop rl cd pre post nxt (map (\<lambda>c. (c, False)) (c # cs) @ stack) =
        intervals_loop rl cd pre' post' next' stack \<and>
        same_off n (\<Union>c \<in> set (c # cs). subtree r idom c) pre pre' \<and> same_off n (\<Union>c \<in> set (c # cs). subtree r idom c) post post' \<and>
        unat next' = unat nxt + 2 * (\<Sum>c \<leftarrow> c # cs. card (subtree r idom c)) \<and>
        nested r idom (\<Union>c \<in> set (c # cs). subtree r idom c) (unat nxt) (unat next') pre' post'"
      using s1 s2 same_off_trans [OF s1(2) s2(2)] same_off_trans [OF s1(3) s2(3)]
      by (intro exI [of _ pre2] exI [of _ post2] exI [of _ n2]) simp
  qed
qed

lemma nested_insert:
  assumes "nested r idom T (Suc lo) hi pre post" "num pre b = lo" "num post b = hi" "lo < hi"
    and "\<And>y. y \<in> T \<Longrightarrow> b \<in> chain r idom y \<and> y \<notin> chain r idom b"
  shows "nested r idom (insert b T) lo (Suc hi) pre post"
  unfolding nested_def
proof (intro conjI ballI)
  fix x assume "x \<in> insert b T"
  then show "lo \<le> num pre x" "num pre x < num post x" "num post x < Suc hi"
    using assms(1-4) unfolding nested_def by fastforce+
next
  fix x y assume xy: "x \<in> insert b T" "y \<in> insert b T"
  have "Suc lo \<le> num pre z \<and> num post z < hi" if "z \<in> T" for z using that assms(1) by (simp add: nested_def)
  then have "(num pre b \<le> num pre z \<and> num post z \<le> num post b) \<and> \<not> (num pre z \<le> num pre b \<and> num post b \<le> num post z)"
    if "z \<in> T" for z using that assms(2-3) by fastforce
  then show "(num pre x \<le> num pre y \<and> num post y \<le> num post x) = (x \<in> chain r idom y)"
    using xy assms(1,5) by (cases "x = b"; cases "y = b") (auto simp: nested_def)
qed

lemma increment_ok: "Suc (unat k) < 2 ^ 32 \<Longrightarrow> increment k = Inr (k + 1) \<and> unat (k + 1) = Suc (unat k)"
  by (simp add: increment_def checked_add_def unat_word_ariths)

lemma interval_run_node:
  assumes tree: "tree_ok n E r pos idom ch" and rl: "length rl = n" "\<And>x. idom x \<noteq> None \<Longrightarrow> rl ! id_index x"
    and rows: "\<And>x. idom x \<noteq> None \<Longrightarrow> csr_row cd (id_index x) = Inr (ch x)" and b: "idom b \<noteq> None"
  shows "interval_run n r idom rl cd (subtree r idom b) (card (subtree r idom b)) [(b, False)]"
  using tree b
proof (induction rule: subtree_induct)
  case (node b)
  let ?T = "\<Union>c \<in> set (ch b). subtree r idom c" and ?s = "\<Sum>c \<leftarrow> ch b. card (subtree r idom c)"
  have kids: "interval_run n r idom rl cd ?T ?s (map (\<lambda>c. (c, False)) (ch b))"
    by (rule interval_run_list [OF tree subset_refl]) (use node.IH tree in \<open>auto simp: tree_ok_def\<close>)
  have nb: "node n b" "id_index b < n" using tree node.hyps by (auto simp: tree_ok_def node_def)
  have below: "b \<in> chain r idom y \<and> y \<notin> chain r idom b" if "y \<in> ?T" for y
  proof -
    obtain c where c: "c \<in> set (ch b)" "c \<in> chain r idom y" using \<open>y \<in> ?T\<close> by (auto simp: subtree_def)
    have "c \<notin> chain r idom b" using subtree_parent [OF tree c(1)] node.hyps by (simp add: subtree_def)
    then show ?thesis using chain_trans [OF c(2) child_facts(6) [OF tree c(1)]] chain_trans [of y r idom b c] c(2) by blast
  qed
  have apart: "b \<notin> ?T" using below by auto
  show ?case
    unfolding interval_run_def
  proof (intro allI impI)
    fix pre post :: "u32 list" and nxt :: u32 and stack
    assume len: "length pre = n" "length post = n" and small: "unat nxt + 2 * card (subtree r idom b) < 2 ^ 32"
    have small': "unat nxt + 2 * Suc ?s < 2 ^ 32" using small card_subtree [OF tree node.hyps] by simp
    then have inc: "increment nxt = Inr (nxt + 1)" "unat (nxt + 1) = Suc (unat nxt)" using increment_ok [of nxt] by auto
    let ?pre = "pre[id_index b := nxt]"
    have s0: "intervals_loop rl cd pre post nxt ((b, False) # stack) =
        intervals_loop rl cd ?pre post (nxt + 1) (map (\<lambda>c. (c, False)) (ch b) @ (b, True) # stack)"
      using nb rl rows node.hyps len inc by (subst intervals_loop.simps) (simp add: get_at_def put_at_def)
    obtain pre2 post2 n2 where s1: "intervals_loop rl cd ?pre post (nxt + 1) (map (\<lambda>c. (c, False)) (ch b) @ (b, True) # stack) =
        intervals_loop rl cd pre2 post2 n2 ((b, True) # stack)"
      "same_off n ?T ?pre pre2" "same_off n ?T post post2" "unat n2 = Suc (unat nxt) + 2 * ?s"
      "nested r idom ?T (Suc (unat nxt)) (unat n2) pre2 post2"
      using kids [unfolded interval_run_def, rule_format, of ?pre post "nxt + 1" "(b, True) # stack"] len small' inc by auto
    have len2: "length pre2 = n" "length post2 = n" using s1(2,3) len by (auto simp: same_off_def)
    let ?post = "post2[id_index b := n2]"
    have inc2: "increment n2 = Inr (n2 + 1)" "unat (n2 + 1) = Suc (unat n2)" using increment_ok [of n2] small' s1(4) by auto
    have s2: "intervals_loop rl cd pre2 post2 n2 ((b, True) # stack) = intervals_loop rl cd pre2 ?post (n2 + 1) stack"
      using nb rl rows node.hyps len2 inc2 by (subst intervals_loop.simps) (simp add: get_at_def put_at_def)
    have pb: "num pre2 b = unat nxt" "num ?post b = unat n2"
      using same_off_num [OF s1(2) nb(1) apart] nb len len2 by (simp_all add: num_def)
    have post_T: "num ?post x = num post2 x" if "x \<in> ?T" for x
    proof -
      have "node n x" "x \<noteq> b" using that tree apart by (auto simp: subtree_def tree_ok_def)
      then show ?thesis using same_off_num [OF same_off_update [OF nb(1)]] by blast
    qed
    have "nested r idom ?T (Suc (unat nxt)) (unat n2) pre2 ?post"
      by (rule nested_cong [OF _ s1(5)]) (use post_T in simp)
    then have nest: "nested r idom (insert b ?T) (unat nxt) (Suc (unat n2)) pre2 ?post"
      by (rule nested_insert) (use pb s1(4) below in auto)
    have off: "same_off n (insert b ?T) pre pre2" "same_off n (insert b ?T) post ?post"
      using same_off_trans [OF same_off_update [OF nb(1), of pre nxt] s1(2)] same_off_trans [OF s1(3) same_off_update [OF nb(1), of post2 n2]]
      by simp_all
    show "\<exists>pre' post' next'. intervals_loop rl cd pre post nxt ([(b, False)] @ stack) = intervals_loop rl cd pre' post' next' stack \<and>
        same_off n (subtree r idom b) pre pre' \<and> same_off n (subtree r idom b) post post' \<and>
        unat next' = unat nxt + 2 * card (subtree r idom b) \<and> nested r idom (subtree r idom b) (unat nxt) (unat next') pre' post'"
      using s0 s1(1,4) s2 nest off inc2 card_subtree [OF tree node.hyps] subtree_split [OF tree node.hyps]
      by (intro exI [of _ pre2] exI [of _ ?post] exI [of _ "n2 + 1"]) simp
  qed
qed

section \<open>The analysis returns the dominator tree\<close>

text \<open>
  What \<open>from_blocks\<close> leaves: the immediate dominators form a tree over the reachable blocks
  whose chains are the dominators, and the queries read this tree.
\<close>

definition dom_tree :: "il_block list \<Rightarrow> il_block_id list \<Rightarrow> il_block_id \<Rightarrow> (il_block_id \<Rightarrow> il_block_id option) \<Rightarrow>
    (il_block_id \<Rightarrow> il_block_id list) \<Rightarrow> il_dominance \<Rightarrow> bool" where
  "dom_tree blocks successors entry idom ch d \<longleftrightarrow>
     tree_ok (length blocks) (flow_edge blocks successors) entry (rpo_number blocks successors entry) idom ch \<and>
     (\<forall>b. idom b \<noteq> None \<longleftrightarrow> reaches (flow_edge blocks successors) entry b) \<and>
     (\<forall>b x. idom b \<noteq> None \<longrightarrow> (x \<in> chain entry idom b \<longleftrightarrow> dominates_in (flow_edge blocks successors) entry x b)) \<and>
     d_entry d = Some entry \<and>
     (\<forall>b. b \<noteq> 0 \<longrightarrow> is_reachable d b = reaches (flow_edge blocks successors) entry b) \<and>
     (\<forall>b. b \<noteq> 0 \<longrightarrow> immediate_dominator d b = (if b = entry then None else idom b)) \<and>
     (\<forall>b. b \<noteq> 0 \<longrightarrow> children_for d b = Inr (ch b)) \<and>
     (\<forall>a b. a \<noteq> 0 \<longrightarrow> b \<noteq> 0 \<longrightarrow> dominates d a b = dominates_in (flow_edge blocks successors) entry a b)"

lemma card_subtree_le:
  assumes "tree_ok n E r pos idom ch" shows "card (subtree r idom b) \<le> n"
proof -
  have sub: "subtree r idom b \<subseteq> {x. node n x}" using assms by (auto simp: subtree_def tree_ok_def)
  then have "inj_on id_index (subtree r idom b)" using node_inj unfolding inj_on_def by blast
  then have "card (subtree r idom b) \<le> card {..<n}"
    by (intro card_inj_on_le [of id_index]) (use sub in \<open>auto simp: node_def\<close>)
  then show ?thesis by simp
qed

lemma compute_intervals_ok:
  assumes tree: "tree_ok (length (ds_blocks s)) E (ds_entry s) pos idom ch" and small: "2 * length (ds_blocks s) < 2 ^ 32"
    and rl: "length (ds_reachable s) = length (ds_blocks s)" "\<And>x. idom x \<noteq> None \<Longrightarrow> ds_reachable s ! id_index x"
    and rows: "\<And>x. idom x \<noteq> None \<Longrightarrow> csr_row cd (id_index x) = Inr (ch x)"
  shows "\<exists>pre post. compute_intervals s cd = Some (Inr (pre, post)) \<and> length pre = length (ds_blocks s) \<and>
    length post = length (ds_blocks s) \<and>
    (\<forall>x y. idom x \<noteq> None \<longrightarrow> idom y \<noteq> None \<longrightarrow>
       num pre x \<le> num pre y \<and> num post y \<le> num post x \<longleftrightarrow> x \<in> chain (ds_entry s) idom y)"
proof -
  let ?n = "length (ds_blocks s)" and ?r = "ds_entry s"
  have ok: "chain_ok E ?r pos idom" using tree by (simp add: tree_ok_def)
  then have r: "idom ?r \<noteq> None" by (simp add: chain_ok_def)
  have all: "subtree ?r idom ?r = {x. idom x \<noteq> None}" using chain_to_entry [OF ok] by (auto simp: subtree_def)
  have "2 * card (subtree ?r idom ?r) < 2 ^ 32" using card_subtree_le [OF tree, of ?r] small by simp
  then obtain pre post nxt where run:
    "intervals_loop (ds_reachable s) cd (replicate ?n (- 1)) (replicate ?n (- 1)) 0 ([(?r, False)] @ []) =
       intervals_loop (ds_reachable s) cd pre post nxt []"
    "same_off ?n (subtree ?r idom ?r) (replicate ?n (- 1)) pre" "same_off ?n (subtree ?r idom ?r) (replicate ?n (- 1)) post"
    "nested ?r idom (subtree ?r idom ?r) (unat (0 :: u32)) (unat nxt) pre post"
    using interval_run_node [OF tree rl rows r, unfolded interval_run_def, rule_format,
        of "replicate ?n (- 1)" "replicate ?n (- 1)" 0 "[]"] by auto
  then have "compute_intervals s cd = Some (Inr (pre, post))"
    unfolding compute_intervals_def by (simp add: intervals_loop.simps [of _ _ _ _ _ "[]"])
  then show ?thesis using run(2-4) all by (intro exI [of _ pre] exI [of _ post]) (auto simp: same_off_def nested_def)
qed

lemma solve_tree:
  assumes ok: "solver_ok s" and chains: "chain_ok (s_edge s) (ds_entry s) (s_pos s) (s_idom s)"
    and small: "2 * length (ds_blocks s) < 2 ^ 32"
    and s2: "s2 = s\<lparr>ds_immediate_dominators := (ds_immediate_dominators s)[id_index (ds_entry s) := None]\<rparr>"
  shows "\<exists>c ch pre post. compute_children s2 = Inr c \<and> compute_intervals s2 c = Some (Inr (pre, post)) \<and>
    tree_ok (length (ds_blocks s)) (s_edge s) (ds_entry s) (s_pos s) (s_idom s) ch \<and>
    (\<forall>b. b \<noteq> 0 \<longrightarrow> row_or_empty c (id_index b) = Inr (ch b)) \<and>
    length pre = length (ds_blocks s) \<and> length post = length (ds_blocks s) \<and>
    (\<forall>x y. s_idom s x \<noteq> None \<longrightarrow> s_idom s y \<noteq> None \<longrightarrow>
       num pre x \<le> num pre y \<and> num post y \<le> num post x \<longleftrightarrow> x \<in> s_chain s y)"
proof -
  let ?n = "length (ds_blocks s)" and ?r = "ds_entry s"
  have r: "node ?n ?r" and len: "length (ds_immediate_dominators s) = ?n" using ok by (auto simp: solver_ok_def)
  have idom2: "s_idom s2 x = (if x = ?r then None else s_idom s x)" for x
    using r node_inj [OF _ r, of x] len by (auto simp: s2 idom_map_def nth_list_update node_def)
  have up: "m \<noteq> 0 \<and> s_idom s m \<noteq> None" if "s_idom s2 b = Some m" for b m
    using that chains unfolding idom2 by (auto simp: chain_ok_def idom_map_def node_def split: if_splits)
  have nodes: "node ?n m" if "s_idom s2 b = Some m" for b m
    using up [OF that] by (auto simp: idom_map_def split: if_splits)
  obtain c where c: "compute_children s2 = Inr c"
    "\<And>b. node ?n b \<Longrightarrow> \<exists>cs. csr_row c (id_index b) = Inr cs \<and> checked_row c (id_index b) = Inr (Some cs) \<and>
       distinct cs \<and> set cs = {x. s_idom s2 x = Some b}"
    "\<And>i. ?n \<le> i \<Longrightarrow> checked_row c i = Inr None"
    using compute_children_ok [of s2] len nodes small by (auto simp: s2)
  define ch where "ch b = (if node ?n b then projr (csr_row c (id_index b)) else [])" for b
  have row: "csr_row c (id_index b) = Inr (ch b)" "row_or_empty c (id_index b) = Inr (ch b)" "distinct (ch b)"
    "set (ch b) = {x. s_idom s2 x = Some b}" if nb: "node ?n b" for b
  proof -
    obtain cs where cs: "csr_row c (id_index b) = Inr cs" "checked_row c (id_index b) = Inr (Some cs)" "distinct cs"
      "set cs = {x. s_idom s2 x = Some b}" using c(2) [OF nb] by blast
    moreover have "ch b = cs" using nb cs(1) by (simp add: ch_def)
    ultimately show "csr_row c (id_index b) = Inr (ch b)" "row_or_empty c (id_index b) = Inr (ch b)" "distinct (ch b)"
      "set (ch b) = {x. s_idom s2 x = Some b}" by (simp_all add: row_or_empty_def)
  qed
  have "set (ch b) = {x. x \<noteq> ?r \<and> s_idom s x = Some b}" for b
  proof (cases "node ?n b")
    case False
    have "\<not> (x \<noteq> ?r \<and> s_idom s x = Some b)" for x using nodes [of x b] idom2 [of x] False by auto
    then show ?thesis using False by (simp add: ch_def)
  qed (auto simp: row(4) idom2)
  moreover have "distinct (ch b)" for b using row(3) [of b] by (cases "node ?n b") (simp_all add: ch_def)
  moreover have "node ?n b" if "s_idom s b \<noteq> None" for b using that by (auto simp: idom_map_def split: if_splits)
  ultimately have tree: "tree_ok ?n (s_edge s) ?r (s_pos s) (s_idom s) ch" using chains by (simp add: tree_ok_def)
  have empty: "row_or_empty c (id_index b) = Inr (ch b)" if "b \<noteq> 0" for b
  proof (cases "node ?n b")
    case False
    then have "checked_row c (id_index b) = Inr None" using c(3) [of "id_index b"] that by (simp add: node_def)
    then show ?thesis using False by (simp add: row_or_empty_def ch_def)
  qed (rule row(2))
  have rl: "length (ds_reachable s2) = ?n" "ds_reachable s2 ! id_index x" if "s_idom s x \<noteq> None" for x
  proof -
    have "reaches (s_edge s) ?r x" using chains that by (auto simp: chain_ok_def)
    moreover have "node ?n x" using that by (auto simp: idom_map_def split: if_splits)
    ultimately show "ds_reachable s2 ! id_index x" "length (ds_reachable s2) = ?n" using ok by (auto simp: s2 solver_ok_def rpo_ok_def)
  qed
  have rne: "s_idom s ?r \<noteq> None" using chains by (simp add: chain_ok_def)
  have "tree_ok (length (ds_blocks s2)) (s_edge s) (ds_entry s2) (s_pos s) (s_idom s) ch" using tree by (simp add: s2)
  from compute_intervals_ok [OF this, of c] small rl(1) [OF rne] rl(2) row(1) tree
  have "\<exists>pre post. compute_intervals s2 c = Some (Inr (pre, post)) \<and> length pre = ?n \<and> length post = ?n \<and>
    (\<forall>x y. s_idom s x \<noteq> None \<longrightarrow> s_idom s y \<noteq> None \<longrightarrow> num pre x \<le> num pre y \<and> num post y \<le> num post x \<longleftrightarrow> x \<in> s_chain s y)"
    by (auto simp: s2 tree_ok_def)
  then show ?thesis using c(1) tree empty by blast
qed

lemma from_blocks_ok:
  assumes fl: "flow_ok blocks successors" and en: "node (length blocks) entry" and small: "2 * length blocks < 2 ^ 32"
  shows "\<exists>d idom ch. from_blocks blocks successors entry = Some (Inr d) \<and> dom_tree blocks successors entry idom ch d"
proof -
  let ?E = "flow_edge blocks successors" and ?n = "length blocks"
  obtain s0 where s0: "solver_new blocks successors entry = Inr s0" "solver_ok s0" "ds_blocks s0 = blocks"
    "ds_successors s0 = successors" "ds_entry s0 = entry" "ds_immediate_dominators s0 = replicate ?n None"
    using solver_new_ok [OF fl en] by blast
  obtain idoms s where s: "s = s0\<lparr>ds_immediate_dominators := idoms\<rparr>" "solve_immediate_dominators s0 = Some (Inr s)" "solver_ok s"
    "chain_ok ?E entry (rpo_number blocks successors entry) (s_idom s)"
    "\<And>b. reaches ?E entry b \<Longrightarrow> s_idom s b \<noteq> None \<and> (\<forall>d. d \<in> chain entry (s_idom s) b \<longleftrightarrow> dominates_in ?E entry d b)"
    using solve_immediate_dominators_ok [OF s0(2)] s0(3-6) unfolding Let_def by auto
  have same: "ds_blocks s = blocks" "ds_successors s = successors" "ds_entry s = entry" using s(1) s0 by auto
  define s2 where "s2 = s\<lparr>ds_immediate_dominators := (ds_immediate_dominators s)[id_index entry := None]\<rparr>"
  obtain c ch pre post where c: "compute_children s2 = Inr c" "compute_intervals s2 c = Some (Inr (pre, post))"
    "tree_ok ?n ?E entry (rpo_number blocks successors entry) (s_idom s) ch"
    "\<And>b. b \<noteq> 0 \<Longrightarrow> row_or_empty c (id_index b) = Inr (ch b)" "length pre = ?n" "length post = ?n"
    "\<And>x y. s_idom s x \<noteq> None \<Longrightarrow> s_idom s y \<noteq> None \<Longrightarrow>
       num pre x \<le> num pre y \<and> num post y \<le> num post x \<longleftrightarrow> x \<in> chain entry (s_idom s) y"
    using solve_tree [OF s(3), of s2] s(4) small same by (auto simp: s2_def)
  let ?d = "\<lparr>d_entry = Some entry, d_immediate_dominators = ds_immediate_dominators s2, d_children = c,
    d_preorder = pre, d_postorder = post, d_reachable = ds_reachable s\<rparr>"
  have len: "length (ds_immediate_dominators s) = ?n" using s(3) same by (simp add: solver_ok_def)
  have en': "id_index entry < ?n" using en by (simp add: node_def)
  have run: "from_blocks blocks successors entry = Some (Inr ?d)"
    using s0(1) s(2) c(1,2) same len en'
    by (simp add: from_blocks_def solve_def put_at_def s2_def)
  have iff: "s_idom s b \<noteq> None \<longleftrightarrow> reaches ?E entry b" for b using s(4,5) by (auto simp: chain_ok_def)
  have rn: "node ?n b" if "reaches ?E entry b" for b using reaches_node [OF en that] .
  have reach: "is_reachable ?d b = reaches ?E entry b" if "b \<noteq> 0" for b
    using s(3) same rn that by (auto simp: is_reachable_def lookup_at_def solver_ok_def rpo_ok_def node_def)
  have imm: "immediate_dominator ?d b = (if b = entry then None else s_idom s b)" if "b \<noteq> 0" for b
    using that len same en node_inj [OF _ en, of b]
    by (auto simp: immediate_dominator_def lookup_at_def s2_def idom_map_def node_def nth_list_update)
  have dom: "dominates ?d a b = dominates_in ?E entry a b" if "a \<noteq> 0" "b \<noteq> 0" for a b
  proof (cases "reaches ?E entry a \<and> reaches ?E entry b")
    case True
    then have "num pre a \<le> num pre b \<and> num post b \<le> num post a \<longleftrightarrow> dominates_in ?E entry a b"
      using c(7) [of a b] s(5) [of b] iff by blast
    moreover have "id_index a < ?n" "id_index b < ?n" using True rn by (auto simp: node_def)
    ultimately show ?thesis using True reach [OF that(1)] reach [OF that(2)] c(5,6)
      by (simp add: dominates_def lookup_at_def num_def word_le_nat_alt)
  next
    case False
    then show ?thesis using dominates_reaches [of ?E entry a b] reach [OF that(1)] reach [OF that(2)]
      by (auto simp: dominates_def)
  qed
  have "dom_tree blocks successors entry (s_idom s) ch ?d"
    unfolding dom_tree_def using c(3,4) iff s(5) reach imm dom by (simp add: children_for_def)
  then show ?thesis using run by blast
qed

lemma immediate_dominator_iff:
  assumes d: "dom_tree blocks successors entry idom ch d" and b: "b \<noteq> 0"
  shows "immediate_dominator d b = Some m \<longleftrightarrow>
    m \<noteq> b \<and> dominates_in (flow_edge blocks successors) entry m b \<and>
    (\<forall>x. dominates_in (flow_edge blocks successors) entry x b \<longrightarrow> x \<noteq> b \<longrightarrow>
       dominates_in (flow_edge blocks successors) entry x m)"
  (is "_ \<longleftrightarrow> ?closest m")
proof
  let ?dom = "dominates_in (flow_edge blocks successors) entry"
  have tree: "tree_ok (length blocks) (flow_edge blocks successors) entry (rpo_number blocks successors entry) idom ch"
    and imm: "immediate_dominator d b = (if b = entry then None else idom b)"
    and chain: "\<And>b x. idom b \<noteq> None \<Longrightarrow> x \<in> chain entry idom b \<longleftrightarrow> ?dom x b"
    and ready: "\<And>b. idom b \<noteq> None \<longleftrightarrow> reaches (flow_edge blocks successors) entry b"
    using d b by (auto simp: dom_tree_def)
  have parent: "?closest k" if "b \<noteq> entry" "idom b = Some k" for k
  proof -
    have k: "idom k \<noteq> None" "k \<noteq> b" using tree that by (auto simp: tree_ok_def chain_ok_def)
    have "?dom x b \<longleftrightarrow> x = b \<or> ?dom x k" for x
      using chain [of b x] chain [of k x] k that chain_Some [of b entry idom k] by auto
    moreover have "?dom k k" using k(1) ready dominates_refl [of "flow_edge blocks successors" entry k] by blast
    ultimately show ?thesis using k(2) by blast
  qed
  show "?closest m" if "immediate_dominator d b = Some m" using that imm parent [of m] by (simp split: if_splits)
  show "immediate_dominator d b = Some m" if m: "?closest m"
  proof -
    have ne: "b \<noteq> entry" using m dominates_entry [of "flow_edge blocks successors" entry m] by auto
    have "idom b \<noteq> None" using m dominates_reaches [of "flow_edge blocks successors" entry m b] ready by blast
    then obtain k where k: "idom b = Some k" by blast
    then have "?dom k m" "?dom m k" using parent [OF ne k] m by blast+
    then have "k = m" by (rule dominates_antisym)
    then show ?thesis using imm ne k by simp
  qed
qed

lemma child_iff:
  assumes d: "dom_tree blocks successors entry idom ch d"
  shows "c \<in> set (ch b) \<longleftrightarrow> c \<noteq> 0 \<and> immediate_dominator d c = Some b"
proof -
  have "c \<in> set (ch b) \<longleftrightarrow> c \<noteq> entry \<and> idom c = Some b" "idom c \<noteq> None \<longrightarrow> c \<noteq> 0"
    using d by (simp_all add: dom_tree_def tree_ok_def node_def)
  moreover have "c \<noteq> 0 \<longrightarrow> immediate_dominator d c = (if c = entry then None else idom c)" using d by (simp add: dom_tree_def)
  ultimately show ?thesis by (cases "c = entry") auto
qed

section \<open>Properties of the dominators\<close>

text \<open>
  C2. \<open>IlDominance::from_blocks\<close> returns on every well-formed flow graph of fewer than \<open>2 ^ 31\<close>
  blocks: none of its loops runs forever and nothing panics. A block is reachable in its result if
  and only if the graph has a walk to it from the entry, and \<open>dominates(a, b)\<close>, which compares the
  preorder and postorder numbers of two blocks, holds if and only if \<open>b\<close> is reachable and every walk
  from the entry to \<open>b\<close> passes \<open>a\<close>.
\<close>

theorem dominates_correct:
  assumes "flow_ok blocks successors" "node (length blocks) entry" "2 * length blocks < 2 ^ 32"
  shows "\<exists>d. from_blocks blocks successors entry = Some (Inr d) \<and>
    (\<forall>b. b \<noteq> 0 \<longrightarrow> is_reachable d b = reaches (flow_edge blocks successors) entry b) \<and>
    (\<forall>a b. a \<noteq> 0 \<longrightarrow> b \<noteq> 0 \<longrightarrow> dominates d a b = dominates_in (flow_edge blocks successors) entry a b)"
proof -
  obtain d idom ch where "from_blocks blocks successors entry = Some (Inr d)" "dom_tree blocks successors entry idom ch d"
    using from_blocks_ok [OF assms] by blast
  then show ?thesis by (intro exI [of _ d]) (simp add: dom_tree_def)
qed

lemma diamond_edge: "flow_edge diamond_blocks diamond_successors a b \<longleftrightarrow> (a, b) \<in> {(1, 2), (1, 3), (2, 4), (3, 4)}"
proof -
  have ids: "node (length diamond_blocks) a \<longleftrightarrow> a \<in> {1, 2, 3, 4}"
  proof
    assume "node (length diamond_blocks) a"
    then have "0 < unat a" "unat a \<le> 4" by (auto simp: node_def id_index_def diamond_blocks_def unat_gt_0)
    then have "unat a \<in> {1, 2, 3, 4}" by auto
    then show "a \<in> {1, 2, 3, 4}" by (auto simp: word_unat_eq_iff)
  qed (auto simp: node_def id_index_def diamond_blocks_def)
  show ?thesis unfolding flow_edge_def ids
    using diamond_flow_ok
    by (auto simp: diamond_blocks_def diamond_successors_def successors_of_def sub_slice_def id_index_def start_of_def end_of_def)
qed

lemma diamond_entry: "node (length diamond_blocks) 1" "2 * length diamond_blocks < 2 ^ 32"
  by (simp_all add: node_def id_index_def diamond_blocks_def)

lemma diamond_walk: "walk (flow_edge diamond_blocks diamond_successors) 1 [1, 2, 4] 4"
  "walk (flow_edge diamond_blocks diamond_successors) 1 [1, 3, 4] 4"
proof -
  have "walk (flow_edge diamond_blocks diamond_successors) 1 (([1] @ [b]) @ [4]) 4" if "b \<in> {2, 3}" for b
    by (rule walk.step, rule walk.step, rule walk.start) (use that in \<open>auto simp: diamond_edge\<close>)
  from this [of 2] this [of 3] show "walk (flow_edge diamond_blocks diamond_successors) 1 [1, 2, 4] 4"
    "walk (flow_edge diamond_blocks diamond_successors) 1 [1, 3, 4] 4" by simp_all
qed

theorem dominates_correct_witness:
  "\<exists>d. from_blocks diamond_blocks diamond_successors 1 = Some (Inr d) \<and> is_reachable d 4 \<and> dominates d 1 4 \<and> \<not> dominates d 2 4"
proof -
  let ?E = "flow_edge diamond_blocks diamond_successors"
  obtain d where d: "from_blocks diamond_blocks diamond_successors 1 = Some (Inr d)"
    "\<forall>b. b \<noteq> 0 \<longrightarrow> is_reachable d b = reaches ?E 1 b"
    "\<forall>a b. a \<noteq> 0 \<longrightarrow> b \<noteq> 0 \<longrightarrow> dominates d a b = dominates_in ?E 1 a b"
    using dominates_correct [OF diamond_flow_ok diamond_entry] by blast
  have reach: "reaches ?E 1 4" unfolding reaches_def using diamond_walk by blast
  have "\<not> dominates_in ?E 1 2 4" using diamond_walk(2) by (auto simp: dominates_in_def)
  then show ?thesis using d entry_dominates [OF reach] reach by auto
qed

text \<open>
  C20. In the tree that \<open>from_blocks\<close> returns, the immediate dominator of a block is its closest
  strict dominator: the one that every other strict dominator of the block dominates. The children
  of a block are exactly the blocks it immediately dominates, each listed once.
\<close>

theorem immediate_dominator_correct:
  assumes "flow_ok blocks successors" "node (length blocks) entry" "2 * length blocks < 2 ^ 32"
  shows "\<exists>d. from_blocks blocks successors entry = Some (Inr d) \<and>
    (\<forall>b m. b \<noteq> 0 \<longrightarrow> (immediate_dominator d b = Some m \<longleftrightarrow>
       m \<noteq> b \<and> dominates_in (flow_edge blocks successors) entry m b \<and>
       (\<forall>x. dominates_in (flow_edge blocks successors) entry x b \<longrightarrow> x \<noteq> b \<longrightarrow>
          dominates_in (flow_edge blocks successors) entry x m))) \<and>
    (\<forall>b. b \<noteq> 0 \<longrightarrow> (\<exists>cs. children_for d b = Inr cs \<and> distinct cs \<and>
       set cs = {c. c \<noteq> 0 \<and> immediate_dominator d c = Some b}))"
proof -
  obtain d idom ch where d: "from_blocks blocks successors entry = Some (Inr d)" "dom_tree blocks successors entry idom ch d"
    using from_blocks_ok [OF assms] by blast
  have "children_for d b = Inr (ch b) \<and> distinct (ch b) \<and> set (ch b) = {c. c \<noteq> 0 \<and> immediate_dominator d c = Some b}"
    if "b \<noteq> 0" for b
    using child_iff [OF d(2)] d(2) that by (auto simp: dom_tree_def tree_ok_def)
  then show ?thesis using d(1) immediate_dominator_iff [OF d(2)] by (intro exI [of _ d]) simp
qed

theorem immediate_dominator_correct_witness:
  "\<exists>d. from_blocks diamond_blocks diamond_successors 1 = Some (Inr d) \<and> immediate_dominator d 4 = Some 1"
proof -
  let ?E = "flow_edge diamond_blocks diamond_successors"
  obtain d where d: "from_blocks diamond_blocks diamond_successors 1 = Some (Inr d)"
    "\<And>b m. b \<noteq> 0 \<Longrightarrow> immediate_dominator d b = Some m \<longleftrightarrow>
       m \<noteq> b \<and> dominates_in ?E 1 m b \<and> (\<forall>x. dominates_in ?E 1 x b \<longrightarrow> x \<noteq> b \<longrightarrow> dominates_in ?E 1 x m)"
    using immediate_dominator_correct [OF diamond_flow_ok diamond_entry] by blast
  have reach: "reaches ?E 1 4" unfolding reaches_def using diamond_walk by blast
  have "x = 1" if "dominates_in ?E 1 x 4" "x \<noteq> 4" for x
  proof -
    have "x \<in> set [1, 2, 4]" "x \<in> set [1, 3, 4]" using that(1) diamond_walk unfolding dominates_in_def by blast+
    then show ?thesis using that(2) by auto
  qed
  then show ?thesis using d(1) d(2) [of 4 1] entry_dominates [OF reach] dominates_refl [of ?E 1 1] by auto
qed

end
