(* ===== verification/Frontier.thy ===== *)
theory Frontier
  imports DomTree
begin

text \<open>
  Dominance frontiers and phi placement: the frontiers that \<open>IlDominance::frontiers\<close> collects over
  a postorder of the dominator tree are the dominance frontiers of the flow graph, and the blocks
  that \<open>place_phis\<close> returns are their closure under iteration.
\<close>

section \<open>Frontiers in the abstract\<close>

text \<open>\<open>y\<close> is where the dominance of \<open>b\<close> ends: \<open>b\<close> dominates a predecessor of \<open>y\<close>, but not \<open>y\<close> strictly.\<close>

definition frontier_of :: "('v \<Rightarrow> 'v \<Rightarrow> bool) \<Rightarrow> 'v \<Rightarrow> 'v \<Rightarrow> 'v set" where
  "frontier_of E r b = {y. \<exists>p. E p y \<and> dominates_in E r b p \<and> \<not> (dominates_in E r b y \<and> b \<noteq> y)}"

text \<open>The iterated frontier of a set of definitions.\<close>

inductive needs_phi :: "('v \<Rightarrow> 'v set) \<Rightarrow> 'v set \<Rightarrow> 'v \<Rightarrow> bool" for F D where
  defined: "d \<in> D \<Longrightarrow> y \<in> F d \<Longrightarrow> needs_phi F D y"
| placed: "needs_phi F D x \<Longrightarrow> y \<in> F x \<Longrightarrow> needs_phi F D y"

lemma frontier_reaches: "y \<in> frontier_of E r b \<Longrightarrow> reaches E r y \<and> reaches E r b"
  unfolding frontier_of_def using dominates_reaches [of E r b] reaches_step [of E r] by blast

text \<open>A frontier block of a child of \<open>b\<close> that \<open>b\<close> dominates strictly has \<open>b\<close> as its closest dominator.\<close>

lemma frontier_child_closest:
  assumes "dominates_in E r b y" "b \<noteq> y" "y \<in> frontier_of E r c"
    and m: "dominates_in E r m y" "m \<noteq> y" "\<And>x. dominates_in E r x y \<Longrightarrow> x \<noteq> y \<Longrightarrow> dominates_in E r x m"
    and c: "\<And>x. dominates_in E r x c \<longleftrightarrow> x = c \<or> dominates_in E r x b"
    and linear: "\<And>x z v. dominates_in E r x v \<Longrightarrow> dominates_in E r z v \<Longrightarrow> dominates_in E r x z \<or> dominates_in E r z x"
  shows "m = b"
proof -
  obtain p where p: "E p y" "dominates_in E r c p" "\<not> (dominates_in E r c y \<and> c \<noteq> y)" using assms(3) by (auto simp: frontier_of_def)
  have bm: "dominates_in E r b m" using m(3) [OF assms(1,2)] .
  have "reaches E r p" using dominates_reaches [OF p(2)] by simp
  then have "dominates_in E r m p" using dominates_pred [OF m(1,2) _ p(1)] by simp
  then have "dominates_in E r c m \<or> dominates_in E r m c" using linear [of c p m] p(2) by blast
  moreover have "\<not> dominates_in E r c m"
  proof
    assume cm: "dominates_in E r c m"
    then have "dominates_in E r c y" using dominates_trans m(1) by metis
    then have "c = y" using p(3) by blast
    then show False using cm m(1,2) dominates_antisym by metis
  qed
  ultimately have mc: "dominates_in E r m c" by blast
  have "m \<noteq> c" using p(3) m(1,2) by blast
  then have "dominates_in E r m b" using mc c by blast
  then show ?thesis using bm by (rule dominates_antisym)
qed

lemma frontier_local_closest:
  assumes "dominates_in E r b y" "b \<noteq> y" "E b y"
    and m: "dominates_in E r m y" "m \<noteq> y" "\<And>x. dominates_in E r x y \<Longrightarrow> x \<noteq> y \<Longrightarrow> dominates_in E r x m"
  shows "m = b"
proof -
  have "dominates_in E r m b" using dominates_pred [OF m(1,2) _ assms(3)] dominates_reaches [OF assms(1)] by simp
  then show ?thesis using m(3) [OF assms(1,2)] dominates_antisym by metis
qed

section \<open>Frontiers of the tree\<close>

lemma tree_facts:
  assumes "dom_tree blocks successors entry idom ch d"
  shows "tree_ok (length blocks) (flow_edge blocks successors) entry (rpo_number blocks successors entry) idom ch"
    "idom b \<noteq> None \<longleftrightarrow> reaches (flow_edge blocks successors) entry b"
    "idom b \<noteq> None \<Longrightarrow> x \<in> chain entry idom b \<longleftrightarrow> dominates_in (flow_edge blocks successors) entry x b"
    "b \<noteq> 0 \<Longrightarrow> is_reachable d b = reaches (flow_edge blocks successors) entry b"
    "b \<noteq> 0 \<Longrightarrow> immediate_dominator d b = (if b = entry then None else idom b)"
    "b \<noteq> 0 \<Longrightarrow> children_for d b = Inr (ch b)"
    "idom b \<noteq> None \<Longrightarrow> node (length blocks) b"
  using assms by (simp_all add: dom_tree_def tree_ok_def)

lemma frontier_split:
  assumes d: "dom_tree blocks successors entry idom ch d" and b: "idom b \<noteq> None"
  defines "E \<equiv> flow_edge blocks successors"
  shows "frontier_of E entry b =
    {y. (E b y \<or> (\<exists>c \<in> set (ch b). y \<in> frontier_of E entry c)) \<and> immediate_dominator d y \<noteq> Some b}"
proof -
  note t = tree_facts [OF d, folded E_def]
  have linear: "dominates_in E entry x z \<or> dominates_in E entry z x"
    if xz: "dominates_in E entry x v" "dominates_in E entry z v" for x z v
  proof -
    have "idom v \<noteq> None" "idom x \<noteq> None" "idom z \<noteq> None"
      using dominates_reaches [OF xz(1)] dominates_reaches [OF xz(2)] t(2) by auto
    then show ?thesis using xz chain_linear [of x entry idom v z] t(3) by blast
  qed
  have kid: "dominates_in E entry x c \<longleftrightarrow> x = c \<or> dominates_in E entry x b" if c: "c \<in> set (ch b)" for c x
    using t(3) [of c x] t(3) [OF b, of x] child_facts [OF t(1) c] chain_Some [of c entry idom b] by auto
  have node0: "y \<noteq> 0" if "E p y" for p y using that flow_edge_nodes by (auto simp: E_def node_def)
  have closest: "immediate_dominator d y = Some b"
    if y: "dominates_in E entry b y" "b \<noteq> y" "E b y \<or> (\<exists>c \<in> set (ch b). y \<in> frontier_of E entry c)" for y
  proof -
    have ne: "y \<noteq> entry" using y(1,2) dominates_entry [of E entry b] by auto
    obtain m where m: "idom y = Some m" using t(2) dominates_reaches [OF y(1)] by blast
    have y0: "y \<noteq> 0" using t(7) [of y] m by (simp add: node_def)
    have imm: "immediate_dominator d y = Some m" using t(5) [OF y0] ne m by simp
    note cl = immediate_dominator_iff [OF d y0, of m, folded E_def, THEN iffD1, OF imm]
    have "m = b"
      using y(3)
    proof
      assume "E b y"
      then show ?thesis using frontier_local_closest [OF y(1,2)] cl by blast
    next
      assume "\<exists>c \<in> set (ch b). y \<in> frontier_of E entry c"
      then obtain c where c: "c \<in> set (ch b)" "y \<in> frontier_of E entry c" by blast
      show ?thesis by (rule frontier_child_closest [OF y(1,2) c(2)]) (use cl kid [OF c(1)] linear in blast)+
    qed
    then show ?thesis using imm by simp
  qed
  have strict: "dominates_in E entry b y \<and> b \<noteq> y" if "immediate_dominator d y = Some b" "y \<noteq> 0" for y
    using immediate_dominator_iff [OF d that(2), of b, folded E_def] that(1) by blast
  show ?thesis
  proof (rule set_eqI, rule iffI)
    fix y assume y: "y \<in> frontier_of E entry b"
    then obtain p where p: "E p y" "dominates_in E entry b p" "\<not> (dominates_in E entry b y \<and> b \<noteq> y)" by (auto simp: frontier_of_def)
    have "E b y \<or> (\<exists>c \<in> set (ch b). y \<in> frontier_of E entry c)"
    proof (cases "p = b")
      case False
      have "idom p \<noteq> None" using t(2) dominates_reaches [OF p(2)] by blast
      then have "p \<in> subtree entry idom b" using t(3) p(2) by (simp add: subtree_def)
      then obtain c where c: "c \<in> set (ch b)" "c \<in> chain entry idom p" using subtree_split [OF t(1) b] False by (auto simp: subtree_def)
      have cp: "dominates_in E entry c p" using t(3) \<open>idom p \<noteq> None\<close> c(2) by blast
      have "\<not> (dominates_in E entry c y \<and> c \<noteq> y)"
      proof
        assume cy: "dominates_in E entry c y \<and> c \<noteq> y"
        have bc: "dominates_in E entry b c" using kid [OF c(1)] dominates_refl [of E entry b] b t(2) by blast
        then have "dominates_in E entry b y" using cy dominates_trans [of E entry b c y] by blast
        moreover have "b \<noteq> y" using bc cy dominates_antisym [of E entry b c] by blast
        ultimately show False using p(3) by blast
      qed
      then show ?thesis using c(1) cp p(1) by (auto simp: frontier_of_def)
    qed (use p in blast)
    then show "y \<in> {y. (E b y \<or> (\<exists>c \<in> set (ch b). y \<in> frontier_of E entry c)) \<and> immediate_dominator d y \<noteq> Some b}"
      using strict [of y] node0 [OF p(1)] p(3) by blast
  next
    fix y assume "y \<in> {y. (E b y \<or> (\<exists>c \<in> set (ch b). y \<in> frontier_of E entry c)) \<and> immediate_dominator d y \<noteq> Some b}"
    then have y: "E b y \<or> (\<exists>c \<in> set (ch b). y \<in> frontier_of E entry c)" "immediate_dominator d y \<noteq> Some b" by auto
    have no: "\<not> (dominates_in E entry b y \<and> b \<noteq> y)" using closest [of y] y by blast
    have "\<exists>p. E p y \<and> dominates_in E entry b p"
      using y(1)
    proof
      assume "E b y"
      then show ?thesis using dominates_refl [of E entry b] b t(2) by blast
    next
      assume "\<exists>c \<in> set (ch b). y \<in> frontier_of E entry c"
      then obtain c p where c: "c \<in> set (ch b)" "E p y" "dominates_in E entry c p" by (auto simp: frontier_of_def)
      have "dominates_in E entry b c" using kid [OF c(1)] dominates_refl [of E entry b] b t(2) by blast
      then show ?thesis using c(2,3) dominates_trans [of E entry b c p] by blast
    qed
    then show "y \<in> frontier_of E entry b" using no by (auto simp: frontier_of_def)
  qed
qed

section \<open>The postorder of the tree\<close>

definition child_first :: "('v \<Rightarrow> 'v list) \<Rightarrow> 'v list \<Rightarrow> bool" where
  "child_first ch zs \<longleftrightarrow> (\<forall>i < length zs. set (ch (zs ! i)) \<subseteq> set (take i zs))"

lemma child_first_append: "child_first ch xs \<Longrightarrow> child_first ch ys \<Longrightarrow> child_first ch (xs @ ys)"
  unfolding child_first_def
proof (intro allI impI)
  fix i assume xs: "\<forall>i < length xs. set (ch (xs ! i)) \<subseteq> set (take i xs)" and ys: "\<forall>i < length ys. set (ch (ys ! i)) \<subseteq> set (take i ys)"
    and i: "i < length (xs @ ys)"
  show "set (ch ((xs @ ys) ! i)) \<subseteq> set (take i (xs @ ys))"
  proof (cases "i < length xs")
    case False
    then have "set (ch (ys ! (i - length xs))) \<subseteq> set (take (i - length xs) ys)" using ys i by simp
    then show ?thesis using False by (auto simp: nth_append)
  qed (use xs in \<open>simp add: nth_append\<close>)
qed

lemma child_first_snoc: "child_first ch xs \<Longrightarrow> set (ch x) \<subseteq> set xs \<Longrightarrow> child_first ch (xs @ [x])"
  by (auto simp: child_first_def nth_append less_Suc_eq)

definition postorder_run :: "il_dominance \<Rightarrow> (il_block_id \<Rightarrow> il_block_id list) \<Rightarrow> (il_block_id \<times> bool) list \<Rightarrow> il_block_id set \<Rightarrow> bool" where
  "postorder_run d ch todo S \<longleftrightarrow>
     (\<exists>zs. set zs = S \<and> child_first ch zs \<and>
       (\<forall>stack order. tree_postorder_loop d (todo @ stack) order = tree_postorder_loop d stack (order @ zs)))"

lemma postorder_run_list:
  assumes "\<And>c. c \<in> set cs \<Longrightarrow> postorder_run d ch [(c, False)] (S c)"
  shows "postorder_run d ch (map (\<lambda>c. (c, False)) cs) (\<Union>c \<in> set cs. S c)"
  using assms
proof (induction cs)
  case Nil
  then show ?case by (auto simp: postorder_run_def child_first_def intro!: exI [of _ "[]"])
next
  case (Cons c cs)
  obtain xs where xs: "set xs = S c" "child_first ch xs"
    "\<And>stack order. tree_postorder_loop d ([(c, False)] @ stack) order = tree_postorder_loop d stack (order @ xs)"
    using Cons.prems [of c] by (auto simp: postorder_run_def)
  obtain ys where ys: "set ys = (\<Union>c \<in> set cs. S c)" "child_first ch ys"
    "\<And>stack order. tree_postorder_loop d (map (\<lambda>c. (c, False)) cs @ stack) order = tree_postorder_loop d stack (order @ ys)"
    using Cons by (auto simp: postorder_run_def)
  show ?case
    unfolding postorder_run_def
    using xs(1,2) ys(1,2) xs(3) [of "map (\<lambda>c. (c, False)) cs @ _"] ys(3)
    by (intro exI [of _ "xs @ ys"]) (simp add: child_first_append)
qed

lemma postorder_run_node:
  assumes d: "dom_tree blocks successors entry idom ch d" and b: "idom b \<noteq> None"
  shows "postorder_run d ch [(b, False)] (subtree entry idom b)"
  using tree_facts(1) [OF d] b
proof (induction rule: subtree_induct)
  case (node b)
  note t = tree_facts [OF d]
  have b0: "b \<noteq> 0" using t(7) [OF node.hyps] by (simp add: node_def)
  have reach: "is_reachable d b" using t(4) [OF b0] t(2) [of b] node.hyps by simp
  obtain zs where zs: "set zs = (\<Union>c \<in> set (ch b). subtree entry idom c)" "child_first ch zs"
    "\<And>stack order. tree_postorder_loop d (map (\<lambda>c. (c, False)) (ch b) @ stack) order = tree_postorder_loop d stack (order @ zs)"
    using postorder_run_list [of "ch b" d ch "subtree entry idom"] node.IH by (auto simp: postorder_run_def)
  have "set (ch b) \<subseteq> set zs"
  proof
    fix c assume c: "c \<in> set (ch b)"
    then show "c \<in> set zs" using zs(1) subtree_self [of idom c entry] child_facts(2) [OF t(1) c] by auto
  qed
  then have "child_first ch (zs @ [b])" by (rule child_first_snoc [OF zs(2)])
  moreover have "tree_postorder_loop d ([(b, False)] @ stack) order = tree_postorder_loop d stack (order @ zs @ [b])" for stack order
  proof -
    have "tree_postorder_loop d ((b, False) # stack) order = tree_postorder_loop d ((b, True) # stack) (order @ zs)"
      using reach t(6) [OF b0] zs(3) [of "(b, True) # stack" order] by (subst tree_postorder_loop.simps) simp
    also have "\<dots> = tree_postorder_loop d stack (order @ zs @ [b])"
      using reach by (subst tree_postorder_loop.simps) simp
    finally show ?thesis by simp
  qed
  moreover have "set (zs @ [b]) = subtree entry idom b" using zs(1) subtree_split [OF t(1) node.hyps] by simp
  ultimately show ?case unfolding postorder_run_def by blast
qed

lemma tree_postorder_ok:
  assumes d: "dom_tree blocks successors entry idom ch d"
  shows "\<exists>zs. tree_postorder d = Some (Inr zs) \<and> child_first ch zs \<and> set zs = {b. reaches (flow_edge blocks successors) entry b}"
proof -
  note t = tree_facts [OF d]
  have ok: "chain_ok (flow_edge blocks successors) entry (rpo_number blocks successors entry) idom"
    using t(1) by (simp add: tree_ok_def)
  have entry: "idom entry \<noteq> None" using t(2) by simp
  have "subtree entry idom entry = {b. reaches (flow_edge blocks successors) entry b}"
    using chain_to_entry [OF ok] t(2) by (auto simp: subtree_def)
  moreover have "d_entry d = Some entry" using d by (simp add: dom_tree_def)
  moreover have "tree_postorder_loop d [] zs = Some (Inr zs)" for zs by (subst tree_postorder_loop.simps) simp
  moreover obtain zs where "set zs = subtree entry idom entry" "child_first ch zs"
    "tree_postorder_loop d ([(entry, False)] @ []) [] = tree_postorder_loop d [] ([] @ zs)"
    using postorder_run_node [OF d entry] unfolding postorder_run_def by blast
  ultimately show ?thesis by (intro exI [of _ zs]) (simp add: tree_postorder_def)
qed

section \<open>The rows that the loop collects\<close>

text \<open>A step that adds the blocks of \<open>Y\<close> to row \<open>i\<close> and leaves the other rows alone.\<close>

definition adds :: "nat \<Rightarrow> il_block_id set \<Rightarrow> il_block_id list list \<Rightarrow> il_block_id list list outcome \<Rightarrow> bool" where
  "adds i Y fr res \<longleftrightarrow> i < length fr \<and>
     (\<exists>xs. res = Inr (fr[i := xs]) \<and> set xs = set (fr ! i) \<union> Y \<and> (distinct (fr ! i) \<longrightarrow> distinct xs))"

lemma adds_none: "i < length fr \<Longrightarrow> adds i {} fr (Inr fr)"
  by (auto simp: adds_def intro!: exI [of _ "fr ! i"])

lemma adds_then:
  assumes "adds i Y fr m" "\<And>xs. adds i Z (fr[i := xs]) (f (fr[i := xs]))"
  shows "adds i (Y \<union> Z) fr (and_then m f)"
proof -
  obtain xs where xs: "i < length fr" "m = Inr (fr[i := xs])" "set xs = set (fr ! i) \<union> Y" "distinct (fr ! i) \<longrightarrow> distinct xs"
    using assms(1) by (auto simp: adds_def)
  obtain ys where "f (fr[i := xs]) = Inr (fr[i := ys])" "set ys = set xs \<union> Z" "distinct xs \<longrightarrow> distinct ys"
    using assms(2) [of xs] xs(1) by (auto simp: adds_def)
  then show ?thesis using xs by (auto simp: adds_def Un_assoc intro!: exI [of _ ys])
qed

lemma add_frontier_adds: "id_index b < length fr \<Longrightarrow> adds (id_index b) {y} fr (add_frontier fr b y)"
  by (auto simp: adds_def add_frontier_def get_at_def insert_absorb intro: exI [of _ "fr ! id_index b"])

lemma successor_frontiers_adds:
  assumes "id_index b < length fr" "\<forall>s \<in> set ss. is_reachable d s"
  shows "adds (id_index b) {s \<in> set ss. immediate_dominator d s \<noteq> Some b} fr (successor_frontiers d b fr ss)"
  using assms
proof (induction ss arbitrary: fr)
  case Nil
  then show ?case by (simp add: adds_none)
next
  case (Cons s ss)
  have "{x \<in> set (s # ss). immediate_dominator d x \<noteq> Some b} =
      (if immediate_dominator d s \<noteq> Some b then {s} else {}) \<union> {x \<in> set ss. immediate_dominator d x \<noteq> Some b}" by auto
  moreover have "adds (id_index b) {x \<in> set ss. immediate_dominator d x \<noteq> Some b} (fr[id_index b := xs])
      (successor_frontiers d b (fr[id_index b := xs]) ss)" for xs using Cons by simp
  ultimately show ?case using Cons adds_then [OF add_frontier_adds] by auto
qed

lemma child_frontiers_adds:
  assumes "id_index b < length fr" "id_index c < length fr" "id_index c \<noteq> id_index b" "\<forall>i \<in> set is. i < length (fr ! id_index c)"
  shows "adds (id_index b) {y \<in> (!) (fr ! id_index c) ` set is. immediate_dominator d y \<noteq> Some b} fr (child_frontiers d b c is fr)"
  using assms
proof (induction "is" arbitrary: fr)
  case Nil
  then show ?case by (simp add: adds_none)
next
  case (Cons i "is")
  let ?fs = "fr ! id_index c"
  let ?y = "?fs ! i"
  have "{y \<in> (!) ?fs ` set (i # is). immediate_dominator d y \<noteq> Some b} =
      (if immediate_dominator d ?y \<noteq> Some b then {?y} else {}) \<union> {y \<in> (!) ?fs ` set is. immediate_dominator d y \<noteq> Some b}" by auto
  moreover have "adds (id_index b) {y \<in> (!) ?fs ` set is. immediate_dominator d y \<noteq> Some b} (fr[id_index b := xs])
      (child_frontiers d b c is (fr[id_index b := xs]))" for xs
    using Cons.IH [of "fr[id_index b := xs]"] Cons.prems by simp
  ultimately show ?case using Cons adds_then [OF add_frontier_adds] by (auto simp: get_at_def)
qed

lemma children_frontiers_adds:
  assumes "id_index b < length fr" "\<forall>c \<in> set cs. id_index c < length fr \<and> id_index c \<noteq> id_index b"
  shows "adds (id_index b) {y \<in> (\<Union>c \<in> set cs. set (fr ! id_index c)). immediate_dominator d y \<noteq> Some b} fr
    (children_frontiers d b cs fr)"
  using assms
proof (induction cs arbitrary: fr)
  case Nil
  then show ?case by (simp add: adds_none)
next
  case (Cons c cs)
  let ?fs = "fr ! id_index c"
  have fs: "(!) ?fs ` set [0..<length ?fs] = set ?fs" by (metis list.set_map map_nth)
  have "{y \<in> (\<Union>c \<in> set (c # cs). set (fr ! id_index c)). immediate_dominator d y \<noteq> Some b} =
      {y \<in> (!) ?fs ` set [0..<length ?fs]. immediate_dominator d y \<noteq> Some b} \<union>
      {y \<in> (\<Union>c \<in> set cs. set (fr ! id_index c)). immediate_dominator d y \<noteq> Some b}"
    using fs by auto
  moreover have "adds (id_index b) {y \<in> (\<Union>c \<in> set cs. set (fr ! id_index c)). immediate_dominator d y \<noteq> Some b} (fr[id_index b := xs])
      (children_frontiers d b cs (fr[id_index b := xs]))" for xs
  proof -
    have "(\<Union>c \<in> set cs. set (fr[id_index b := xs] ! id_index c)) = (\<Union>c \<in> set cs. set (fr ! id_index c))"
      using Cons.prems(2) by (intro SUP_cong) (auto simp: nth_list_update_neq)
    then show ?thesis using Cons.IH [of "fr[id_index b := xs]"] Cons.prems by simp
  qed
  moreover have "adds (id_index b) {y \<in> (!) ?fs ` set [0..<length ?fs]. immediate_dominator d y \<noteq> Some b} fr
      (child_frontiers d b c [0..<length ?fs] fr)"
    using child_frontiers_adds [of b fr c "[0..<length ?fs]" d] Cons.prems by simp
  ultimately show ?case using adds_then Cons.prems by (simp add: get_at_def)
qed

definition rows_inv :: "nat \<Rightarrow> (il_block_id \<Rightarrow> il_block_id set) \<Rightarrow> il_block_id set \<Rightarrow> il_block_id list list \<Rightarrow> bool" where
  "rows_inv n F P fr \<longleftrightarrow> length fr = n \<and>
     (\<forall>b. node n b \<longrightarrow> distinct (fr ! id_index b) \<and> set (fr ! id_index b) \<subseteq> F b) \<and>
     (\<forall>b \<in> P. set (fr ! id_index b) = F b)"

lemma flow_slice:
  "flow_ok blocks successors \<Longrightarrow> i < length blocks \<Longrightarrow>
   range_slice (block_successors (blocks ! i)) successors = Inr (successors_of successors (blocks ! i))"
  by (simp add: flow_ok_def range_slice_ok successors_of_def)

lemma frontier_step:
  assumes fl: "flow_ok blocks successors" and d: "dom_tree blocks successors entry idom ch d" and b: "idom b \<noteq> None"
    and len: "length fr = length blocks"
  shows "adds (id_index b)
    {y. (flow_edge blocks successors b y \<or> (\<exists>c \<in> set (ch b). y \<in> set (fr ! id_index c))) \<and> immediate_dominator d y \<noteq> Some b} fr
    (and_then (add_successor_frontiers d blocks successors b fr) (add_child_frontiers d b))"
proof -
  note t = tree_facts [OF d]
  let ?ss = "successors_of successors (blocks ! id_index b)"
  have nb: "node (length blocks) b" "b \<noteq> 0" "id_index b < length fr" using t(7) [OF b] len by (auto simp: node_def)
  have edge: "flow_edge blocks successors b s \<longleftrightarrow> s \<in> set ?ss" for s using fl nb(1) by (simp add: flow_edge_def)
  have "is_reachable d s" if "s \<in> set ?ss" for s
  proof -
    have e: "flow_edge blocks successors b s" using edge that by simp
    then have "s \<noteq> 0" using flow_edge_nodes by (auto simp: node_def)
    moreover have "reaches (flow_edge blocks successors) entry b" using t(2) [of b] b by simp
    from this e have "reaches (flow_edge blocks successors) entry s" by (rule reaches_step)
    ultimately show ?thesis using t(4) [of s] by simp
  qed
  then have "adds (id_index b) {s \<in> set ?ss. immediate_dominator d s \<noteq> Some b} fr (add_successor_frontiers d blocks successors b fr)"
    using successor_frontiers_adds [of b fr ?ss d] nb len fl
    by (simp add: add_successor_frontiers_def get_at_def node_def flow_slice)
  moreover have kid: "id_index c < length fr \<and> id_index c \<noteq> id_index b" if c: "c \<in> set (ch b)" for c
  proof -
    note k = child_facts [OF t(1) c]
    have "c \<noteq> b" using k(4) by auto
    then show ?thesis using k(5) nb(1) node_inj [OF k(5) nb(1)] len by (auto simp: node_def)
  qed
  have "adds (id_index b) {y \<in> (\<Union>c \<in> set (ch b). set (fr ! id_index c)). immediate_dominator d y \<noteq> Some b} (fr[id_index b := xs])
      (add_child_frontiers d b (fr[id_index b := xs]))" for xs
  proof -
    have same: "(\<Union>c \<in> set (ch b). set (fr[id_index b := xs] ! id_index c)) = (\<Union>c \<in> set (ch b). set (fr ! id_index c))"
      by (intro SUP_cong refl) (metis kid nth_list_update_neq)
    show ?thesis using children_frontiers_adds [of b "fr[id_index b := xs]" "ch b" d] nb kid t(6) [OF nb(2)]
      unfolding same by (simp add: add_child_frontiers_def)
  qed
  ultimately have "adds (id_index b) ({s \<in> set ?ss. immediate_dominator d s \<noteq> Some b} \<union>
      {y \<in> (\<Union>c \<in> set (ch b). set (fr ! id_index c)). immediate_dominator d y \<noteq> Some b}) fr
    (and_then (add_successor_frontiers d blocks successors b fr) (add_child_frontiers d b))" by (rule adds_then)
  moreover have "{s \<in> set ?ss. immediate_dominator d s \<noteq> Some b} \<union>
      {y \<in> (\<Union>c \<in> set (ch b). set (fr ! id_index c)). immediate_dominator d y \<noteq> Some b} =
    {y. (flow_edge blocks successors b y \<or> (\<exists>c \<in> set (ch b). y \<in> set (fr ! id_index c))) \<and> immediate_dominator d y \<noteq> Some b}"
    unfolding edge by auto
  ultimately show ?thesis by simp
qed

lemma rows_inv_step:
  assumes fl: "flow_ok blocks successors" and d: "dom_tree blocks successors entry idom ch d"
    and inv: "rows_inv (length blocks) (frontier_of (flow_edge blocks successors) entry) P fr"
    and b: "idom b \<noteq> None" "set (ch b) \<subseteq> P" "P \<subseteq> {b. idom b \<noteq> None}"
  shows "\<exists>fr'. and_then (add_successor_frontiers d blocks successors b fr) (add_child_frontiers d b) = Inr fr' \<and>
    rows_inv (length blocks) (frontier_of (flow_edge blocks successors) entry) (insert b P) fr'"
proof -
  let ?F = "frontier_of (flow_edge blocks successors) entry" and ?n = "length blocks"
  have nb: "node ?n b" using tree_facts(7) [OF d b(1)] .
  obtain xs where xs: "and_then (add_successor_frontiers d blocks successors b fr) (add_child_frontiers d b) = Inr (fr[id_index b := xs])"
    "set xs = set (fr ! id_index b) \<union>
      {y. (flow_edge blocks successors b y \<or> (\<exists>c \<in> set (ch b). y \<in> set (fr ! id_index c))) \<and> immediate_dominator d y \<noteq> Some b}"
    "distinct (fr ! id_index b) \<longrightarrow> distinct xs"
    using frontier_step [OF fl d b(1), of fr] inv by (auto simp: adds_def rows_inv_def)
  have kids: "set (fr ! id_index c) = ?F c" if "c \<in> set (ch b)" for c using inv b(2) that by (auto simp: rows_inv_def)
  have "set xs = set (fr ! id_index b) \<union> ?F b"
    unfolding xs(2) frontier_split [OF d b(1)] using kids by auto
  moreover have "set (fr ! id_index b) \<subseteq> ?F b" "distinct (fr ! id_index b)" "length fr = ?n" using inv nb by (auto simp: rows_inv_def)
  ultimately have row: "set xs = ?F b" "distinct xs" "id_index b < length fr" using xs(3) nb by (auto simp: node_def)
  have get: "fr[id_index b := xs] ! id_index x = (if x = b then xs else fr ! id_index x)" if "node ?n x" for x
    using node_inj [OF that nb] row(3) by (auto simp: nth_list_update)
  have "node ?n x" if "x \<in> P" for x using tree_facts(7) [OF d] b(3) that by blast
  then have "rows_inv ?n ?F (insert b P) (fr[id_index b := xs])"
    using inv row nb get by (auto simp: rows_inv_def)
  then show ?thesis using xs(1) by blast
qed

lemma frontiers_loop_ok:
  assumes fl: "flow_ok blocks successors" and d: "dom_tree blocks successors entry idom ch d"
    and "rows_inv (length blocks) (frontier_of (flow_edge blocks successors) entry) (set us) fr"
    and "child_first ch (us @ zs)" "set (us @ zs) \<subseteq> {b. idom b \<noteq> None}"
  shows "\<exists>fr'. frontiers_loop d blocks successors zs fr = Inr fr' \<and>
    rows_inv (length blocks) (frontier_of (flow_edge blocks successors) entry) (set (us @ zs)) fr'"
  using assms(3-5)
proof (induction zs arbitrary: us fr)
  case (Cons b zs)
  have "set (ch b) \<subseteq> set us"
    using Cons.prems(2) unfolding child_first_def by (elim allE [of _ "length us"]) simp
  then obtain fr' where fr': "and_then (add_successor_frontiers d blocks successors b fr) (add_child_frontiers d b) = Inr fr'"
    "rows_inv (length blocks) (frontier_of (flow_edge blocks successors) entry) (insert b (set us)) fr'"
    using rows_inv_step [OF fl d Cons.prems(1), of b] Cons.prems(3) by auto
  have "frontiers_loop d blocks successors (b # zs) fr = frontiers_loop d blocks successors zs fr'"
    using fr'(1) by (cases "add_successor_frontiers d blocks successors b fr") auto
  then show ?case using Cons.IH [of "us @ [b]" fr'] fr'(2) Cons.prems(2,3) by simp
qed simp

lemma sort_set: "distinct xs \<Longrightarrow> sort xs = sorted_list_of_set (set xs)"
  by (metis sorted_list_of_set_sort_remdups distinct_remdups_id)

lemma frontier_nodes:
  assumes "node (length blocks) entry" "y \<in> frontier_of (flow_edge blocks successors) entry b"
  shows "node (length blocks) y" "node (length blocks) b"
  using frontier_reaches [OF assms(2)] reaches_node [OF assms(1)] by blast+

lemma length_node_list:
  assumes "distinct xs" "\<And>x. x \<in> set xs \<Longrightarrow> node n x" shows "length xs \<le> n"
proof -
  have "inj_on id_index (set xs)" using assms(2) node_inj unfolding inj_on_def by blast
  then have "card (set xs) \<le> card {..<n}" by (intro card_inj_on_le [of id_index]) (use assms(2) in \<open>auto simp: node_def\<close>)
  then show ?thesis using assms(1) by (simp add: distinct_card)
qed

lemma node_id_ok:
  assumes "i < n" "n < 2 ^ 32" shows "node n (node_id i) \<and> id_index (node_id i) = i"
  using assms u32_of_Suc_neq_0 [of i] index_node_id [of i] by (auto simp: node_def node_id_def simp del: of_nat_Suc)

lemma sum_list_le: "(\<And>x. x \<in> set xs \<Longrightarrow> f x \<le> (k :: nat)) \<Longrightarrow> sum_list (map f xs) \<le> length xs * k"
  by (induction xs) (auto intro: add_mono)

lemma frontiers_ok:
  assumes fl: "flow_ok blocks successors" and d: "dom_tree blocks successors entry idom ch d"
    and en: "node (length blocks) entry" and small: "length blocks < 2 ^ 16"
  shows "\<exists>df. frontiers d blocks successors = Some (Inr df) \<and>
    (\<forall>b. b \<noteq> 0 \<longrightarrow> frontier_for df b = Inr (sorted_list_of_set (frontier_of (flow_edge blocks successors) entry b)))"
proof -
  let ?F = "frontier_of (flow_edge blocks successors) entry" and ?n = "length blocks"
  obtain zs where zs: "tree_postorder d = Some (Inr zs)" "child_first ch zs" "set zs = {b. idom b \<noteq> None}"
    using tree_postorder_ok [OF d] tree_facts(2) [OF d] by auto
  have "rows_inv ?n ?F (set []) (replicate ?n [])" by (auto simp: rows_inv_def node_def)
  then obtain fr where fr: "frontiers_loop d blocks successors zs (replicate ?n []) = Inr fr" "rows_inv ?n ?F {b. idom b \<noteq> None} fr"
    using frontiers_loop_ok [OF fl d, of "[]" "replicate ?n []" zs] zs(2,3) by auto
  have row: "distinct (fr ! id_index b)" "set (fr ! id_index b) = ?F b" if b: "node ?n b" for b
  proof -
    have sub: "set (fr ! id_index b) \<subseteq> ?F b" using fr(2) b by (simp add: rows_inv_def)
    show "distinct (fr ! id_index b)" using fr(2) b by (simp add: rows_inv_def)
    show "set (fr ! id_index b) = ?F b"
    proof (cases "idom b = None")
      case True
      then have "?F b = {}" using tree_facts(2) [OF d, of b] frontier_reaches [of _ "flow_edge blocks successors" entry b] by blast
      then show ?thesis using sub by simp
    qed (use fr(2) in \<open>simp add: rows_inv_def\<close>)
  qed
  have id: "node ?n (node_id i)" "id_index (node_id i) = i" if "i < ?n" for i
    using node_id_ok [OF that] small by auto
  have len: "length fr = ?n" using fr(2) by (simp add: rows_inv_def)
  have "length xs \<le> ?n" if xs: "xs \<in> set fr" for xs
  proof -
    obtain i where i: "i < ?n" "xs = fr ! i" using xs len by (metis in_set_conv_nth)
    have "distinct xs" "set xs = ?F (node_id i)" using row [OF id(1) [OF i(1)]] id(2) [OF i(1)] i(2) by auto
    then show ?thesis using length_node_list [of xs ?n] frontier_nodes(1) [OF en] by blast
  qed
  then have "length (concat (map sort fr)) \<le> ?n * ?n"
    using sum_list_le [of fr length ?n] len by (simp add: length_concat comp_def)
  also have "\<dots> < 2 ^ 16 * 2 ^ 16" using small by (intro mult_strict_mono') auto
  finally have "length (concat (map sort fr)) < 2 ^ 32" by simp
  from list_rows.stored [OF this] obtain c where c: "csr_from_rows (map sort fr) = Inr c"
    "\<And>r. r < ?n \<Longrightarrow> checked_row c r = Inr (Some (sort (fr ! r)))" "\<And>r. ?n \<le> r \<Longrightarrow> checked_row c r = Inr None"
    using len by auto
  have "frontier_for \<lparr>df_frontiers = c\<rparr> b = Inr (sorted_list_of_set (?F b))" if "b \<noteq> 0" for b
  proof (cases "node ?n b")
    case True
    then show ?thesis using c(2) [of "id_index b"] row [OF True] sort_set [of "fr ! id_index b"] by (simp add: frontier_for_def row_or_empty_def node_def)
  next
    case False
    then have "?F b = {}" using frontier_nodes(2) [OF en] by blast
    moreover have "?n \<le> id_index b" using False that by (simp add: node_def)
    ultimately show ?thesis using c(3) by (simp add: frontier_for_def row_or_empty_def)
  qed
  then show ?thesis using zs(1) fr(1) c(1)
    by (intro exI [of _ "\<lparr>df_frontiers = c\<rparr>"]) (simp add: frontiers_def from_frontiers_def)
qed

section \<open>Phi placement\<close>

text \<open>
  The state of the worklist: the rows hold what the lists hold, and every queued block that has
  left the queue, \<open>cur\<close> apart, has its frontier placed.
\<close>

definition phi_inv :: "nat \<Rightarrow> (il_block_id \<Rightarrow> il_block_id set) \<Rightarrow> il_block_id set \<Rightarrow> il_block_id set \<Rightarrow> phi_state \<Rightarrow> bool" where
  "phi_inv n F D cur s \<longleftrightarrow>
     length (placed s) = n \<and> length (queued s) = n \<and> distinct (phis s) \<and>
     (\<forall>b. node n b \<longrightarrow> (placed s ! id_index b \<longleftrightarrow> b \<in> set (phis s)) \<and> (queued s ! id_index b \<longleftrightarrow> b \<in> D \<union> set (phis s))) \<and>
     (\<forall>b \<in> D \<union> set (phis s) \<union> set (queue s). node n b) \<and> set (queue s) \<subseteq> D \<union> set (phis s) \<and>
     (\<forall>y \<in> set (phis s). needs_phi F D y) \<and>
     (\<forall>b \<in> D \<union> set (phis s). b \<in> set (queue s) \<or> b \<in> cur \<or> F b \<subseteq> set (phis s))"

lemma flag_update: "node n y \<Longrightarrow> node n b \<Longrightarrow> length xs = n \<Longrightarrow> xs[id_index y := True] ! id_index b \<longleftrightarrow> b = y \<or> xs ! id_index b"
  using node_inj [of n b y] by (auto simp: nth_list_update node_def)

lemma phi_inv_place:
  assumes "phi_inv n F D cur s" "node n y" "needs_phi F D y" "y \<notin> set (phis s)"
  shows "phi_inv n F D cur (let s = s\<lparr>placed := (placed s)[id_index y := True], phis := phis s @ [y]\<rparr> in
    if y \<in> D then s else s\<lparr>queued := (queued s)[id_index y := True], queue := y # queue s\<rparr>)"
  using assms by (auto simp: phi_inv_def Let_def flag_update)

lemma place_frontier_ok:
  assumes "phi_inv n F D cur s" "\<forall>y \<in> set fs. node n y \<and> needs_phi F D y"
  shows "\<exists>s'. place_frontier s fs = Inr s' \<and> phi_inv n F D cur s' \<and> set (phis s') = set (phis s) \<union> set fs"
  using assms
proof (induction fs arbitrary: s)
  case (Cons y fs)
  have y: "node n y" "needs_phi F D y" "id_index y < n" using Cons.prems(2) by (auto simp: node_def)
  have flags: "length (placed s) = n" "length (queued s) = n" "placed s ! id_index y \<longleftrightarrow> y \<in> set (phis s)"
    "queued s ! id_index y \<longleftrightarrow> y \<in> D \<union> set (phis s)" using Cons.prems(1) y(1) by (auto simp: phi_inv_def)
  show ?case
  proof (cases "y \<in> set (phis s)")
    case True
    then have "place_frontier s (y # fs) = place_frontier s fs" "set (phis s) \<union> set (y # fs) = set (phis s) \<union> set fs"
      using flags y by (auto simp: get_at_def)
    then show ?thesis using Cons.IH [OF Cons.prems(1)] Cons.prems(2) by simp
  next
    case False
    let ?s = "let s = s\<lparr>placed := (placed s)[id_index y := True], phis := phis s @ [y]\<rparr> in
      if y \<in> D then s else s\<lparr>queued := (queued s)[id_index y := True], queue := y # queue s\<rparr>"
    have "place_frontier s (y # fs) = place_frontier ?s fs" using False flags y by (auto simp: get_at_def Let_def)
    moreover have "set (phis ?s) = insert y (set (phis s))" by (simp add: Let_def)
    ultimately show ?thesis
      using Cons.IH [OF phi_inv_place [OF Cons.prems(1) y(1,2) False]] Cons.prems(2) by auto
  qed
qed simp

lemma place_loop_ok:
  assumes df: "\<And>b. b \<noteq> 0 \<Longrightarrow> frontier_for df b = Inr (fs b)" and F: "\<And>b. F b = set (fs b)"
    and nodes: "\<And>b y. y \<in> F b \<Longrightarrow> node n y" and "phi_inv n F D {} s"
  shows "\<exists>s'. place_loop df s = Inr s' \<and> distinct (phis s') \<and> set (phis s') = {y. needs_phi F D y}"
  using assms(4)
proof (induction "length (filter Not (queued s)) + length (queue s)" arbitrary: s rule: less_induct)
  case less
  show ?case
  proof (cases "queue s")
    case Nil
    have "y \<in> set (phis s)" if "needs_phi F D y" for y
      using that by induction (use less.prems Nil in \<open>auto simp: phi_inv_def\<close>)
    then have "set (phis s) = {y. needs_phi F D y}" using less.prems by (auto simp: phi_inv_def)
    then show ?thesis using Nil less.prems by (subst place_loop.simps) (simp add: phi_inv_def)
  next
    case (Cons b rest)
    have b: "b \<in> D \<union> set (phis s)" "b \<noteq> 0" using less.prems Cons by (auto simp: phi_inv_def node_def)
    have "phi_inv n F D {b} (s\<lparr>queue := rest\<rparr>)" using less.prems Cons by (auto simp: phi_inv_def)
    moreover have "\<forall>y \<in> set (fs b). node n y \<and> needs_phi F D y"
    proof
      fix y assume "y \<in> set (fs b)"
      then have y: "y \<in> F b" using F by simp
      have "needs_phi F D y"
        using b(1) needs_phi.defined [of b D y F] needs_phi.placed [of F D b y] y less.prems by (auto simp: phi_inv_def)
      then show "node n y \<and> needs_phi F D y" using nodes [OF y] by simp
    qed
    ultimately obtain s' where s': "place_frontier (s\<lparr>queue := rest\<rparr>) (fs b) = Inr s'" "phi_inv n F D {b} s'"
      "set (phis s') = set (phis s) \<union> set (fs b)" using place_frontier_ok [of n F D "{b}" "s\<lparr>queue := rest\<rparr>" "fs b"] by auto
    have "phi_inv n F D {} s'" using s'(2,3) F [of b] by (auto simp: phi_inv_def)
    moreover have "length (filter Not (queued s')) + length (queue s') < length (filter Not (queued s)) + length (queue s)"
      using place_frontier_work [OF s'(1)] Cons by simp
    moreover have "place_loop df s = place_loop df s'" using Cons s'(1) df [OF b(2)] by (subst place_loop.simps) simp
    ultimately show ?thesis using less.hyps [of s'] by simp
  qed
qed

lemma queue_definitions_ok:
  assumes "phi_inv n F D {} s" "phis s = []" "0 \<notin> set ds"
  shows "case find (\<lambda>d. n \<le> id_index d) ds of
      Some d \<Rightarrow> queue_definitions n s ds = Inl (Error (RangeOutOfBounds (id_index d) n))
    | None \<Rightarrow> (\<exists>s'. queue_definitions n s ds = Inr s' \<and> phi_inv n F (D \<union> set ds) {} s')"
  using assms
proof (induction ds arbitrary: D s)
  case (Cons d ds)
  show ?case
  proof (cases "n \<le> id_index d")
    case False
    then have d: "node n d" "id_index d < n" using Cons.prems(3) by (auto simp: node_def)
    have flags: "length (placed s) = n" "length (queued s) = n" "queued s ! id_index d \<longleftrightarrow> d \<in> D"
      using Cons.prems(1,2) d(1) by (auto simp: phi_inv_def)
    define s1 where "s1 = (if d \<in> D then s else s\<lparr>queued := (queued s)[id_index d := True], queue := d # queue s\<rparr>)"
    have step: "queue_definitions n s (d # ds) = queue_definitions n s1 ds"
      using False flags d by (simp add: s1_def get_at_def outcome_simps)
    have "phi_inv n F (insert d D) {} s1"
      using Cons.prems(1,2) d by (auto simp: s1_def phi_inv_def flag_update insert_absorb)
    then have "case find (\<lambda>d. n \<le> id_index d) ds of
        Some d \<Rightarrow> queue_definitions n s1 ds = Inl (Error (RangeOutOfBounds (id_index d) n))
      | None \<Rightarrow> (\<exists>s'. queue_definitions n s1 ds = Inr s' \<and> phi_inv n F (insert d D \<union> set ds) {} s')"
      using Cons.prems(2,3) by (intro Cons.IH) (auto simp: s1_def)
    then show ?thesis unfolding step using False by (simp split: option.splits)
  qed simp
qed simp

lemma place_phis_ok:
  assumes df: "\<And>b. b \<noteq> 0 \<Longrightarrow> frontier_for df b = Inr (sorted_list_of_set (F b))"
    and nodes: "\<And>b y. y \<in> F b \<Longrightarrow> node n y" and ds: "0 \<notin> set ds"
  shows "place_phis df n ds =
    (case find (\<lambda>d. n \<le> id_index d) ds of
       Some d \<Rightarrow> Inl (Error (RangeOutOfBounds (id_index d) n))
     | None \<Rightarrow> Inr (sorted_list_of_set {y. needs_phi F (set ds) y}))"
proof -
  let ?s = "\<lparr>placed = replicate n False, queued = replicate n False, queue = [], phis = []\<rparr>"
  have inv: "phi_inv n F {} {} ?s" by (simp add: phi_inv_def node_def)
  note start = queue_definitions_ok [OF inv _ ds, simplified]
  show ?thesis
  proof (cases "find (\<lambda>d. n \<le> id_index d) ds")
    case None
    then obtain s where s: "queue_definitions n ?s ds = Inr s" "phi_inv n F (set ds) {} s" using start by auto
    have "F b = set (sorted_list_of_set (F b))" for b :: il_block_id using finite_subset [of "F b" UNIV] by simp
    then have "\<exists>s'. place_loop df s = Inr s' \<and> distinct (phis s') \<and> set (phis s') = {y. needs_phi F (set ds) y}"
      by (intro place_loop_ok [of df "\<lambda>b. sorted_list_of_set (F b)" F n "set ds" s]) (use df nodes s(2) in auto)
    then obtain s' where s': "place_loop df s = Inr s'" "distinct (phis s')" "set (phis s') = {y. needs_phi F (set ds) y}" by blast
    then show ?thesis using None s(1) sort_set [OF s'(2)] by (simp add: place_phis_def)
  qed (use start in \<open>simp add: place_phis_def\<close>)
qed

section \<open>Properties\<close>

text \<open>
  C15. \<open>IlDominance::frontiers\<close> returns, and the row of every block lists exactly its dominance
  frontier, in increasing order and without repetition: the blocks \<open>y\<close> with a predecessor that the
  block dominates and that the block does not itself dominate strictly. Below \<open>2 ^ 16\<close> blocks the
  rows cannot exceed the 32-bit offsets of the table.
\<close>

theorem frontiers_correct:
  assumes "flow_ok blocks successors" "node (length blocks) entry" "length blocks < 2 ^ 16"
  shows "\<exists>d df. from_blocks blocks successors entry = Some (Inr d) \<and> frontiers d blocks successors = Some (Inr df) \<and>
    (\<forall>b. b \<noteq> 0 \<longrightarrow> frontier_for df b = Inr (sorted_list_of_set (frontier_of (flow_edge blocks successors) entry b)))"
proof -
  obtain d idom ch where d: "from_blocks blocks successors entry = Some (Inr d)" "dom_tree blocks successors entry idom ch d"
    using from_blocks_ok [OF assms(1,2)] assms(3) by auto
  then show ?thesis using frontiers_ok [OF assms(1) d(2) assms(2,3)] by blast
qed

lemma diamond_small: "length diamond_blocks < 2 ^ 16" "length diamond_blocks = 4"
  by (simp_all add: diamond_blocks_def)

lemma diamond_frontier: "4 \<in> frontier_of (flow_edge diamond_blocks diamond_successors) 1 2"
proof -
  let ?E = "flow_edge diamond_blocks diamond_successors"
  have "reaches ?E 1 2" using reaches_step [of ?E 1 1 2] by (simp add: diamond_edge)
  moreover have "\<not> dominates_in ?E 1 2 4" using diamond_walk(2) by (auto simp: dominates_in_def)
  moreover have "?E 2 4" by (simp add: diamond_edge)
  ultimately show ?thesis using dominates_refl [of ?E 1 2] by (auto simp: frontier_of_def)
qed

theorem frontiers_correct_witness:
  "\<exists>d df fs. from_blocks diamond_blocks diamond_successors 1 = Some (Inr d) \<and>
    frontiers d diamond_blocks diamond_successors = Some (Inr df) \<and> frontier_for df 2 = Inr fs \<and> 4 \<in> set fs"
  using frontiers_correct [OF diamond_flow_ok diamond_entry(1) diamond_small(1)] diamond_frontier by force

text \<open>
  C11. \<open>IlDominanceFrontier::place_phis\<close> on these frontiers returns the blocks of the iterated
  dominance frontier of the given definitions, in increasing order and each once: the least set that
  contains the frontier of every definition and of every block in it. When a definition is not a
  block of the graph it returns \<open>RangeOutOfBounds\<close> for the first such definition.
\<close>

theorem place_phis_correct:
  assumes "flow_ok blocks successors" "node (length blocks) entry" "length blocks < 2 ^ 16" "0 \<notin> set definitions"
  shows "\<exists>d df. from_blocks blocks successors entry = Some (Inr d) \<and> frontiers d blocks successors = Some (Inr df) \<and>
    place_phis df (length blocks) definitions =
      (case find (\<lambda>x. length blocks \<le> id_index x) definitions of
         Some x \<Rightarrow> Inl (Error (RangeOutOfBounds (id_index x) (length blocks)))
       | None \<Rightarrow> Inr (sorted_list_of_set
           {y. needs_phi (frontier_of (flow_edge blocks successors) entry) (set definitions) y}))"
proof -
  obtain d idom ch where d: "from_blocks blocks successors entry = Some (Inr d)" "dom_tree blocks successors entry idom ch d"
    using from_blocks_ok [OF assms(1,2)] assms(3) by auto
  obtain df where df: "frontiers d blocks successors = Some (Inr df)"
    "\<And>b. b \<noteq> 0 \<Longrightarrow> frontier_for df b = Inr (sorted_list_of_set (frontier_of (flow_edge blocks successors) entry b))"
    using frontiers_ok [OF assms(1) d(2) assms(2,3)] by blast
  have "place_phis df (length blocks) definitions =
      (case find (\<lambda>x. length blocks \<le> id_index x) definitions of
         Some x \<Rightarrow> Inl (Error (RangeOutOfBounds (id_index x) (length blocks)))
       | None \<Rightarrow> Inr (sorted_list_of_set
           {y. needs_phi (frontier_of (flow_edge blocks successors) entry) (set definitions) y}))"
    by (rule place_phis_ok [OF df(2) frontier_nodes(1) [OF assms(2)] assms(4)])
  then show ?thesis using d(1) df(1) by blast
qed

theorem place_phis_correct_witness:
  "\<exists>d df phis. from_blocks diamond_blocks diamond_successors 1 = Some (Inr d) \<and>
    frontiers d diamond_blocks diamond_successors = Some (Inr df) \<and> place_phis df 4 [2] = Inr phis \<and> 4 \<in> set phis"
proof -
  let ?N = "{y. needs_phi (frontier_of (flow_edge diamond_blocks diamond_successors) 1) (set [2]) y}"
  have "find (\<lambda>x. 4 \<le> id_index x) [2] = None" by (simp add: id_index_def)
  then obtain d df where "from_blocks diamond_blocks diamond_successors 1 = Some (Inr d)"
    "frontiers d diamond_blocks diamond_successors = Some (Inr df)" "place_phis df 4 [2] = Inr (sorted_list_of_set ?N)"
    using place_phis_correct [OF diamond_flow_ok diamond_entry(1) diamond_small(1), of "[2]"] by (auto simp: diamond_small(2))
  moreover have "4 \<in> ?N" using needs_phi.defined [of 2 "set [2]" 4 "frontier_of (flow_edge diamond_blocks diamond_successors) 1"] diamond_frontier by simp
  moreover have "finite ?N" using finite_subset [of ?N UNIV] by simp
  ultimately show ?thesis by (metis set_sorted_list_of_set)
qed

end
