(* ===== verification/OrderedMap.thy ===== *)
theory OrderedMap
  imports Prelude
begin

text \<open>
  \<open>BTreeMap\<close> of the Rust standard library, as a list of entries with strictly increasing keys.
  Iteration is the list itself, \<open>get\<close> is \<open>map_of\<close>. A component that keeps such a map reasons
  about it through the locale \<open>ordered_map\<close>.
\<close>

section \<open>Operations\<close>

type_synonym ('k, 'v) btree_map = "('k \<times> 'v) list"

definition bm_ok :: "('k::linorder, 'v) btree_map \<Rightarrow> bool" where
  "bm_ok m = sorted_wrt (<) (map fst m)"

definition bm_insert :: "'k::linorder \<Rightarrow> 'v \<Rightarrow> ('k, 'v) btree_map \<Rightarrow> ('k, 'v) btree_map" where
  "bm_insert k v m = takeWhile (\<lambda>e. fst e < k) m @ (k, v) # dropWhile (\<lambda>e. fst e \<le> k) m"

definition bm_remove :: "'k::linorder \<Rightarrow> ('k, 'v) btree_map \<Rightarrow> ('k, 'v) btree_map" where
  "bm_remove k m = filter (\<lambda>e. fst e \<noteq> k) m"

section \<open>What a client relies on\<close>

locale ordered_map =
  fixes ok :: "'m \<Rightarrow> bool" and look :: "'m \<Rightarrow> 'k::linorder \<Rightarrow> 'v option"
    and put :: "'k \<Rightarrow> 'v \<Rightarrow> 'm \<Rightarrow> 'm" and del :: "'k \<Rightarrow> 'm \<Rightarrow> 'm" and entries :: "'m \<Rightarrow> ('k \<times> 'v) list"
  assumes ok_put: "ok m \<Longrightarrow> ok (put k v m)" and ok_del: "ok m \<Longrightarrow> ok (del k m)"
    and look_put: "ok m \<Longrightarrow> look (put k v m) = (look m)(k \<mapsto> v)"
    and look_del: "ok m \<Longrightarrow> look (del k m) = (look m)(k := None)"
    and entries_sorted: "ok m \<Longrightarrow> sorted_wrt (<) (map fst (entries m))"
    and entries_look: "ok m \<Longrightarrow> (k, v) \<in> set (entries m) \<longleftrightarrow> look m k = Some v"
begin

lemma put_after_del: "ok m \<Longrightarrow> look (put k v (del k' m)) = (look m)(k' := None, k \<mapsto> v)"
  by (simp add: look_put look_del ok_del)

lemma first_least:
  assumes "ok m" "entries m = (k, v) # es"
  shows "look m k = Some v" "look m k' = Some v' \<Longrightarrow> k \<le> k'"
proof -
  show "look m k = Some v" using entries_look [OF assms(1), of k v] assms(2) by simp
  show "k \<le> k'" if "look m k' = Some v'"
  proof -
    have "(k', v') \<in> set (entries m)" using entries_look [OF assms(1)] that by simp
    then show ?thesis using entries_sorted [OF assms(1)] assms(2) by auto
  qed
qed

lemma no_entries: "ok m \<Longrightarrow> entries m = [] \<longleftrightarrow> look m = Map.empty"
  using entries_look [of m] by (cases "entries m") (auto simp: fun_eq_iff, metis not_None_eq)

end

section \<open>The entry list is such a map\<close>

lemma bm_split:
  assumes "bm_ok m" shows "m = takeWhile (\<lambda>e. fst e < k) m @ filter (\<lambda>e. fst e = k) m @ dropWhile (\<lambda>e. fst e \<le> k) m"
  using assms
proof (induction m)
  case (Cons e m)
  consider "fst e < k" | "fst e = k" | "k < fst e" by fastforce
  then show ?case
  proof cases
    case 1
    then have "fst e \<noteq> k" "fst e \<le> k" by auto
    then show ?thesis using 1 Cons by (simp add: bm_ok_def)
  next
    case 2
    then have "filter (\<lambda>e. fst e = k) m = []" "dropWhile (\<lambda>e. fst e \<le> k) m = m"
      using Cons.prems by (cases m; auto simp: bm_ok_def filter_empty_conv)+
    then show ?thesis using 2 by simp
  next
    case 3
    then have "filter (\<lambda>e. fst e = k) m = []" using Cons.prems by (auto simp: bm_ok_def filter_empty_conv)
    then show ?thesis using 3 by auto
  qed
qed simp

lemma bm_parts:
  assumes "bm_ok m"
  shows "e \<in> set (takeWhile (\<lambda>e. fst e < k) m) \<longleftrightarrow> e \<in> set m \<and> fst e < k"
    "e \<in> set (dropWhile (\<lambda>e. fst e \<le> k) m) \<longleftrightarrow> e \<in> set m \<and> k < fst e"
  using assms
proof (induction m)
  case (Cons x m)
  {
    case 1
    then show ?case using Cons(1) by (auto simp: bm_ok_def)
  next
    case 2
    then show ?case using Cons(2) by (auto simp: bm_ok_def)
  }
qed simp_all

lemma bm_entries:
  assumes "bm_ok m" shows "map_of m k = Some v \<longleftrightarrow> (k, v) \<in> set m"
proof -
  have "distinct (map fst m)" using assms by (simp add: bm_ok_def strict_sorted_iff)
  then show ?thesis by (simp add: map_of_eq_Some_iff)
qed

lemma bm_ok_insert: assumes "bm_ok m" shows "bm_ok (bm_insert k v m)"
proof -
  have "sorted_wrt (<) (map fst (takeWhile (\<lambda>e. fst e < k) m))" "sorted_wrt (<) (map fst (dropWhile (\<lambda>e. fst e \<le> k) m))"
    using assms by (auto simp: bm_ok_def sorted_wrt_map sorted_wrt_takeWhile sorted_wrt_dropWhile)
  then show ?thesis using bm_parts [OF assms] by (force simp: bm_ok_def bm_insert_def sorted_wrt_append)
qed

lemma bm_ok_remove: "bm_ok m \<Longrightarrow> bm_ok (bm_remove k m)"
  by (simp add: bm_ok_def bm_remove_def sorted_wrt_map sorted_wrt_filter)

lemma bm_get_insert:
  assumes "bm_ok m" shows "map_of (bm_insert k v m) = (map_of m)(k \<mapsto> v)"
proof
  fix x
  have "map_of (bm_insert k v m) x = Some w \<longleftrightarrow> ((map_of m)(k \<mapsto> v)) x = Some w" for w
    using bm_entries [OF bm_ok_insert [OF assms], of k v x w] bm_entries [OF assms, of x w] bm_parts [OF assms]
    by (auto simp: bm_insert_def)
  then show "map_of (bm_insert k v m) x = ((map_of m)(k \<mapsto> v)) x" by (metis not_None_eq)
qed

lemma bm_get_remove:
  assumes "bm_ok m" shows "map_of (bm_remove k m) = (map_of m)(k := None)"
proof
  fix x
  have "map_of (bm_remove k m) x = Some w \<longleftrightarrow> ((map_of m)(k := None)) x = Some w" for w
    using bm_entries [OF bm_ok_remove [OF assms], of k x w] bm_entries [OF assms, of x w] by (auto simp: bm_remove_def)
  then show "map_of (bm_remove k m) x = ((map_of m)(k := None)) x" by (metis not_None_eq)
qed

interpretation bm: ordered_map bm_ok map_of bm_insert bm_remove "\<lambda>m. m"
proof
  show "bm_ok (bm_insert k v m)" if "bm_ok m" for k :: 'a and v :: 'b and m using that by (rule bm_ok_insert)
  show "bm_ok (bm_remove k m)" if "bm_ok m" for k :: 'a and m :: "('a \<times> 'b) list" using that by (rule bm_ok_remove)
  show "map_of (bm_insert k v m) = (map_of m)(k \<mapsto> v)" if "bm_ok m" for k :: 'a and v :: 'b and m
    using that by (rule bm_get_insert)
  show "map_of (bm_remove k m) = (map_of m)(k := None)" if "bm_ok m" for k :: 'a and m :: "('a \<times> 'b) list"
    using that by (rule bm_get_remove)
  show "sorted_wrt (<) (map fst m)" if "bm_ok m" for m :: "('a \<times> 'b) list" using that by (simp add: bm_ok_def)
  show "(k, v) \<in> set m \<longleftrightarrow> map_of m k = Some v" if "bm_ok m" for k :: 'a and v :: 'b and m using bm_entries [OF that] by simp
qed

lemma bm_ok_Nil [simp]: "bm_ok []"
  by (simp add: bm_ok_def)

lemma length_bm_insert_new: "bm_ok m \<Longrightarrow> map_of m k = None \<Longrightarrow> length (bm_insert k v m) = Suc (length m)"
proof -
  assume ok: "bm_ok m" and new: "map_of m k = None"
  have "filter (\<lambda>e. fst e = k) m = []" using bm_entries [OF ok, of k] new by (auto simp: filter_empty_conv)
  then have "m = takeWhile (\<lambda>e. fst e < k) m @ dropWhile (\<lambda>e. fst e \<le> k) m" using bm_split [OF ok, of k] by simp
  then have "length m = length (takeWhile (\<lambda>e. fst e < k) m) + length (dropWhile (\<lambda>e. fst e \<le> k) m)" by (metis length_append)
  then show ?thesis by (simp add: bm_insert_def)
qed

lemma bm_eqI:
  assumes "bm_ok m" "bm_ok m'" "map_of m = map_of m'" shows "m = m'"
proof (rule map_sorted_distinct_set_unique [of fst])
  show "set m = set m'" using bm_entries [OF assms(1)] bm_entries [OF assms(2)] assms(3) by auto
  then show "inj_on fst (set m \<union> set m')" using assms(1) by (simp add: bm_ok_def strict_sorted_iff distinct_map)
qed (use assms(1,2) in \<open>simp_all add: bm_ok_def strict_sorted_iff\<close>)

lemma bm_insert_remove: "bm_ok m \<Longrightarrow> bm_insert k v (bm_remove k m) = bm_insert k v m"
  by (rule bm_eqI) (simp_all add: bm_ok_insert bm_ok_remove bm_get_insert bm_get_remove)

lemma length_bm_remove: "length (bm_remove k m) \<le> length m"
  by (simp add: bm_remove_def)

lemma length_bm_insert: "bm_ok m \<Longrightarrow> length (bm_insert k v m) \<le> Suc (length m)"
  using length_bm_insert_new [of "bm_remove k m" k v] length_bm_remove [of k m]
  by (simp add: bm_insert_remove bm_ok_remove bm_get_remove)

end
