(* ===== verification/Addresses.thy ===== *)
theory Addresses
  imports BitVecCast OrderedMap "HOL-Library.Product_Lexorder"
begin

text \<open>
  Addresses, address ranges and sets of address ranges, from \<open>fugue-core/src/ir/address.rs\<close>.

  A raw address is a 64-bit word; the operators on it wrap. Sets of ranges rest on the crate
  \<open>rangemap\<close>, which is not part of the sources: its operations are the fields of a \<open>rangemap\<close> that
  the definitions take as an argument, and the locale \<open>range_set\<close> states what the code relies on.
\<close>

section \<open>Raw addresses\<close>

type_synonym raw_address = u64
type_synonym address_space_id = u16

definition raw_add :: "raw_address \<Rightarrow> u64 \<Rightarrow> raw_address" where
  "raw_add a b = a + b"

definition raw_sub :: "raw_address \<Rightarrow> u64 \<Rightarrow> raw_address" where
  "raw_sub a b = a - b"

definition checked_offset_from :: "raw_address \<Rightarrow> raw_address \<Rightarrow> u64 option" where
  "checked_offset_from a base = checked_sub a base"

definition align_down :: "raw_address \<Rightarrow> u64 \<Rightarrow> raw_address" where
  "align_down a alignment = a AND NOT (alignment - 1)"

definition align :: "raw_address \<Rightarrow> u64 \<Rightarrow> raw_address" where
  "align a alignment = raw_add a (alignment - 1) AND NOT (alignment - 1)"

definition absolute_difference :: "raw_address \<Rightarrow> raw_address \<Rightarrow> u64" where
  "absolute_difference a b = (if b \<le> a then a - b else b - a)"

text \<open>The storage keys: big-endian, read from the front of a byte slice.\<close>

definition split_at_checked :: "nat \<Rightarrow> 'a list \<Rightarrow> ('a list \<times> 'a list) option" where
  "split_at_checked n xs = (if n \<le> length xs then Some (take n xs, drop n xs) else None)"

definition encode_raw :: "raw_address \<Rightarrow> u8 list" where
  "encode_raw a = u64_to_be_bytes a"

definition decode_raw :: "u8 list \<Rightarrow> (raw_address \<times> u8 list) option" where
  "decode_raw input = map_option (\<lambda>(value, rest). (u64_from_be_bytes value, rest)) (split_at_checked 8 input)"

definition encode_space :: "address_space_id \<Rightarrow> u8 list" where
  "encode_space s = rev (le_digits 2 (unat s))"

definition decode_space :: "u8 list \<Rightarrow> (address_space_id \<times> u8 list) option" where
  "decode_space input = map_option (\<lambda>(value, rest). (word_of_nat (le_value (rev value)), rest)) (split_at_checked 2 input)"

section \<open>Addresses and ranges\<close>

datatype address = Address (space_of: address_space_id) (raw_of: raw_address)

definition encode_address :: "address \<Rightarrow> u8 list" where
  "encode_address a = encode_space (space_of a) @ encode_raw (raw_of a)"

definition decode_address :: "u8 list \<Rightarrow> (address \<times> u8 list) option" where
  "decode_address input =
     Option.bind (decode_space input) (\<lambda>(space, input).
       map_option (\<lambda>(raw, input). (Address space raw, input)) (decode_raw input))"

definition address_add :: "address \<Rightarrow> address \<Rightarrow> address outcome" where
  "address_add a b =
     and_then (assert_or Panicked (space_of a = space_of b)) (\<lambda>_. Inr (Address (space_of a) (raw_add (raw_of a) (raw_of b))))"

definition address_sub :: "address \<Rightarrow> address \<Rightarrow> address outcome" where
  "address_sub a b =
     and_then (assert_or Panicked (space_of a = space_of b)) (\<lambda>_. Inr (Address (space_of a) (raw_sub (raw_of a) (raw_of b))))"

definition address_checked_add :: "address \<Rightarrow> raw_address \<Rightarrow> address option" where
  "address_checked_add a offset = map_option (Address (space_of a)) (checked_add (raw_of a) offset)"

definition address_checked_sub :: "address \<Rightarrow> raw_address \<Rightarrow> address option" where
  "address_checked_sub a offset = map_option (Address (space_of a)) (checked_sub (raw_of a) offset)"

definition address_checked_offset_from :: "address \<Rightarrow> address \<Rightarrow> u64 option" where
  "address_checked_offset_from a base =
     (if space_of a \<noteq> space_of base then None else checked_offset_from (raw_of a) (raw_of base))"

text \<open>\<open>RangeInclusive<RawAddress>\<close>: the bounds of the range.\<close>

type_synonym inclusive = "raw_address \<times> raw_address"

definition inclusive_is_empty :: "inclusive \<Rightarrow> bool" where
  "inclusive_is_empty r \<longleftrightarrow> \<not> fst r \<le> snd r"

definition inclusive_size :: "inclusive \<Rightarrow> u64 option" where
  "inclusive_size r =
     (if inclusive_is_empty r then Some 0
      else Option.bind (checked_offset_from (snd r) (fst r)) (\<lambda>span. checked_add span 1))"

datatype address_range = AddressRange (ar_space: address_space_id) (ar_start: raw_address) (ar_end: raw_address)

definition range_from_size :: "address \<Rightarrow> u64 \<Rightarrow> address_range option" where
  "range_from_size start n =
     map_option (\<lambda>last. AddressRange (space_of start) (raw_of start) last)
       (Option.bind (checked_sub n 1) (\<lambda>last. checked_add (raw_of start) last))"

definition range_point :: "address \<Rightarrow> address_range" where
  "range_point a = AddressRange (space_of a) (raw_of a) (raw_of a)"

definition raw_range :: "address_range \<Rightarrow> inclusive" where
  "raw_range r = (ar_start r, ar_end r)"

definition range_size :: "address_range \<Rightarrow> u64 option" where
  "range_size r = inclusive_size (raw_range r)"

definition ar_is_empty :: "address_range \<Rightarrow> bool" where
  "ar_is_empty r \<longleftrightarrow> ar_end r < ar_start r"

definition range_contains :: "address_range \<Rightarrow> raw_address \<Rightarrow> bool" where
  "range_contains r a \<longleftrightarrow> ar_start r \<le> a \<and> a \<le> ar_end r"

definition range_contains_address :: "address_range \<Rightarrow> address \<Rightarrow> bool" where
  "range_contains_address r a \<longleftrightarrow> ar_space r = space_of a \<and> range_contains r (raw_of a)"

definition remaining_from :: "address_range \<Rightarrow> address \<Rightarrow> u64 option" where
  "remaining_from r a =
     (if \<not> range_contains_address r a then None
      else Option.bind (checked_sub (ar_end r) (raw_of a)) (\<lambda>n. checked_add n 1))"

definition start_address :: "address_range \<Rightarrow> address" where
  "start_address r = Address (ar_space r) (ar_start r)"

definition end_address :: "address_range \<Rightarrow> address" where
  "end_address r = Address (ar_space r) (ar_end r)"

definition range_intersects :: "address_range \<Rightarrow> address_range \<Rightarrow> bool" where
  "range_intersects r s \<longleftrightarrow> ar_space r = ar_space s \<and> ar_start r \<le> ar_end s \<and> ar_start s \<le> ar_end r"

section \<open>The difference iterator\<close>

text \<open>
  The closure behind \<open>RangeInclusive::difference\<close>: the state is the part of the range that is left
  and the exclusions that are left, a call yields the next gap.
\<close>

fun skip_excluded :: "raw_address \<Rightarrow> inclusive list \<Rightarrow> inclusive list" where
  "skip_excluded start [] = []"
| "skip_excluded start (x # excluded) =
     (if inclusive_is_empty x \<or> snd x < start then skip_excluded start excluded else x # excluded)"

lemma length_skip_excluded: "length (skip_excluded start excluded) \<le> length excluded"
  by (induction excluded) auto

function difference_next :: "inclusive option \<Rightarrow> inclusive list \<Rightarrow> inclusive option \<times> inclusive option \<times> inclusive list" where
  "difference_next None excluded = (None, None, excluded)"
| "difference_next (Some (start, end)) excluded =
     (case skip_excluded start excluded of
        [] \<Rightarrow> (Some (start, end), None, [])
      | x # rest \<Rightarrow>
          if end < fst x then (Some (start, end), None, x # rest)
          else if start < fst x then
            (if snd x < end then (Some (start, raw_sub (fst x) 1), Some (raw_add (snd x) 1, end), rest)
             else (Some (start, raw_sub (fst x) 1), None, x # rest))
          else if snd x < end then difference_next (Some (raw_add (snd x) 1, end)) rest
          else difference_next None (x # rest))"
  by pat_completeness auto

termination difference_next
proof (relation "measures [\<lambda>(r, excluded). case r of None \<Rightarrow> 0 | Some _ \<Rightarrow> Suc (length excluded)]", goal_cases)
  case (2 start "end" excluded x rest)
  then show ?case using length_skip_excluded [of start excluded] by simp
qed auto

lemma difference_next_less:
  "difference_next r excluded = (Some y, Some r', excluded') \<Longrightarrow> length excluded' < length excluded"
proof (induction r excluded rule: difference_next.induct)
  case (2 start "end" excluded)
  show ?case
  proof (cases "skip_excluded start excluded")
    case (Cons x rest)
    then have len: "length rest < length excluded" using length_skip_excluded [of start excluded] by simp
    show ?thesis
    proof (cases "\<not> end < fst x \<and> \<not> start < fst x \<and> snd x < end")
      case True
      then have "difference_next (Some (raw_add (snd x) 1, end)) rest = (Some y, Some r', excluded')" using 2(3) Cons by simp
      then show ?thesis using 2(1) [OF Cons] True len by fastforce
    next
      case False
      then show ?thesis using 2(3) Cons len by (auto split: if_splits)
    qed
  qed (use 2(3) in simp)
qed simp

function difference_rest :: "inclusive option \<Rightarrow> inclusive list \<Rightarrow> inclusive list" where
  "difference_rest r excluded =
     (case difference_next r excluded of
        (None, _, _) \<Rightarrow> []
      | (Some y, None, _) \<Rightarrow> [y]
      | (Some y, Some r', excluded') \<Rightarrow> y # difference_rest (Some r') excluded')"
  by pat_completeness auto

termination difference_rest
  by (relation "measure (\<lambda>(r, excluded). length excluded)") (auto dest: difference_next_less [OF sym])

declare difference_rest.simps [simp del]

definition inclusive_difference :: "inclusive \<Rightarrow> inclusive list \<Rightarrow> inclusive list" where
  "inclusive_difference r excluded = difference_rest (if inclusive_is_empty r then None else Some r) excluded"

section \<open>Sets of raw addresses\<close>

text \<open>
  The operations of \<open>rangemap::RangeInclusiveSet<u64>\<close> that the code calls. \<open>insert\<close> and \<open>remove\<close>
  may panic: the crate demands a range whose start is not above its end.
\<close>

record 'r rangemap =
  rm_new :: 'r
  rm_insert :: "inclusive \<Rightarrow> 'r \<Rightarrow> 'r outcome"
  rm_remove :: "inclusive \<Rightarrow> 'r \<Rightarrow> 'r outcome"
  rm_contains :: "u64 \<Rightarrow> 'r \<Rightarrow> bool"
  rm_iter :: "'r \<Rightarrow> inclusive list"
  rm_overlapping :: "inclusive \<Rightarrow> 'r \<Rightarrow> inclusive list"
  rm_overlaps :: "inclusive \<Rightarrow> 'r \<Rightarrow> bool"
  rm_union :: "'r \<Rightarrow> 'r \<Rightarrow> 'r"
  rm_intersection :: "'r \<Rightarrow> 'r \<Rightarrow> 'r"
  rm_is_empty :: "'r \<Rightarrow> bool"

fun fold_ok :: "('a \<Rightarrow> 's \<Rightarrow> 'e + 's) \<Rightarrow> 'a list \<Rightarrow> 's \<Rightarrow> 'e + 's" where
  "fold_ok f [] s = Inr s"
| "fold_ok f (x # xs) s = and_then (f x s) (fold_ok f xs)"

datatype bound = Included raw_address | Excluded raw_address | Unbounded

definition start_bound :: "bound \<Rightarrow> u64 option" where
  "start_bound b = (case b of Included a \<Rightarrow> Some a | Excluded a \<Rightarrow> checked_add a 1 | Unbounded \<Rightarrow> Some 0)"

definition end_bound :: "bound \<Rightarrow> u64 option" where
  "end_bound b = (case b of Included a \<Rightarrow> Some a | Excluded a \<Rightarrow> checked_sub a 1 | Unbounded \<Rightarrow> Some (- 1))"

definition raw_address_bounds :: "bound \<Rightarrow> bound \<Rightarrow> inclusive option" where
  "raw_address_bounds lo hi =
     Option.bind (start_bound lo) (\<lambda>s. Option.bind (end_bound hi) (\<lambda>e. if s \<le> e then Some (s, e) else None))"

definition raw_set_overlapping :: "'r rangemap \<Rightarrow> bound \<Rightarrow> bound \<Rightarrow> 'r \<Rightarrow> inclusive list" where
  "raw_set_overlapping rm lo hi s =
     (case raw_address_bounds lo hi of None \<Rightarrow> [] | Some r \<Rightarrow> rm_overlapping rm r s)"

definition raw_set_insert :: "'r rangemap \<Rightarrow> raw_address \<Rightarrow> 'r \<Rightarrow> (bool \<times> 'r) outcome" where
  "raw_set_insert rm a s = map_ok (\<lambda>s'. (\<not> rm_contains rm a s, s')) (rm_insert rm (a, a) s)"

definition raw_set_insert_range :: "'r rangemap \<Rightarrow> inclusive \<Rightarrow> 'r \<Rightarrow> 'r outcome" where
  "raw_set_insert_range rm r s = rm_insert rm r s"

definition raw_set_intersects_range :: "'r rangemap \<Rightarrow> inclusive \<Rightarrow> 'r \<Rightarrow> bool" where
  "raw_set_intersects_range rm r s \<longleftrightarrow> fst r \<le> snd r \<and> rm_overlaps rm r s"

definition raw_set_difference :: "'r rangemap \<Rightarrow> 'r \<Rightarrow> 'r \<Rightarrow> 'r outcome" where
  "raw_set_difference rm s other =
     fold_ok (\<lambda>r. fold_ok (\<lambda>gap. rm_insert rm gap)
       (inclusive_difference r (raw_set_overlapping rm (Included (fst r)) (Included (snd r)) other)))
       (rm_iter rm s) (rm_new rm)"

definition raw_set_symmetric_difference :: "'r rangemap \<Rightarrow> 'r \<Rightarrow> 'r \<Rightarrow> 'r outcome" where
  "raw_set_symmetric_difference rm s other =
     and_then (raw_set_difference rm s other) (\<lambda>a.
     and_then (raw_set_difference rm other s) (\<lambda>b. Inr (rm_union rm a b)))"

definition raw_set_remove :: "'r rangemap \<Rightarrow> raw_address \<Rightarrow> 'r \<Rightarrow> 'r outcome" where
  "raw_set_remove rm a s = rm_remove rm (a, a) s"

definition raw_set_remove_range :: "'r rangemap \<Rightarrow> inclusive \<Rightarrow> 'r \<Rightarrow> 'r outcome" where
  "raw_set_remove_range rm r s = rm_remove rm r s"

section \<open>Sets of ranges over address spaces\<close>

type_synonym 'r address_range_set = "(address_space_id, 'r) btree_map"

definition set_new :: "'r address_range_set" where
  "set_new = []"

definition or_default :: "'r rangemap \<Rightarrow> address_space_id \<Rightarrow> 'r address_range_set \<Rightarrow> 'r" where
  "or_default rm space s = (case map_of s space of None \<Rightarrow> rm_new rm | Some r \<Rightarrow> r)"

definition set_contains :: "'r rangemap \<Rightarrow> address \<Rightarrow> 'r address_range_set \<Rightarrow> bool" where
  "set_contains rm a s = (case map_of s (space_of a) of None \<Rightarrow> False | Some r \<Rightarrow> rm_contains rm (raw_of a) r)"

definition set_ranges :: "'r rangemap \<Rightarrow> 'r address_range_set \<Rightarrow> address_range list" where
  "set_ranges rm s = concat (map (\<lambda>(space, r). map (\<lambda>(a, b). AddressRange space a b) (rm_iter rm r)) s)"

definition set_intersects_range :: "'r rangemap \<Rightarrow> address_range \<Rightarrow> 'r address_range_set \<Rightarrow> bool" where
  "set_intersects_range rm r s =
     (case map_of s (ar_space r) of None \<Rightarrow> False | Some rs \<Rightarrow> raw_set_intersects_range rm (raw_range r) rs)"

definition set_is_empty :: "'r rangemap \<Rightarrow> 'r address_range_set \<Rightarrow> bool" where
  "set_is_empty rm s = list_all (\<lambda>(_, r). rm_is_empty rm r) s"

definition set_insert :: "'r rangemap \<Rightarrow> address \<Rightarrow> 'r address_range_set \<Rightarrow> (bool \<times> 'r address_range_set) outcome" where
  "set_insert rm a s =
     map_ok (\<lambda>(fresh, r). (fresh, bm_insert (space_of a) r s)) (raw_set_insert rm (raw_of a) (or_default rm (space_of a) s))"

definition set_insert_range :: "'r rangemap \<Rightarrow> address_range \<Rightarrow> 'r address_range_set \<Rightarrow> 'r address_range_set outcome" where
  "set_insert_range rm r s =
     (if ar_is_empty r then Inr s
      else map_ok (\<lambda>rs. bm_insert (ar_space r) rs s)
        (raw_set_insert_range rm (raw_range r) (or_default rm (ar_space r) s)))"

definition set_remove_range :: "'r rangemap \<Rightarrow> address_range \<Rightarrow> 'r address_range_set \<Rightarrow> 'r address_range_set outcome" where
  "set_remove_range rm r s =
     (case map_of s (ar_space r) of
        None \<Rightarrow> Inr s
      | Some rs \<Rightarrow>
          map_ok (\<lambda>rs. if rm_is_empty rm rs then bm_remove (ar_space r) s else bm_insert (ar_space r) rs s)
            (raw_set_remove_range rm (raw_range r) rs))"

definition set_difference :: "'r rangemap \<Rightarrow> 'r address_range_set \<Rightarrow> 'r address_range_set \<Rightarrow> 'r address_range_set outcome" where
  "set_difference rm s other =
     map_ok (filter (\<lambda>(_, r). \<not> rm_is_empty rm r))
       (fold_ok (\<lambda>(space, ranges) d.
          case map_of d space of
            None \<Rightarrow> Inr d
          | Some existing \<Rightarrow> map_ok (\<lambda>r. bm_insert space r d) (raw_set_difference rm existing ranges)) other s)"

definition set_union :: "'r rangemap \<Rightarrow> 'r address_range_set \<Rightarrow> 'r address_range_set \<Rightarrow> 'r address_range_set" where
  "set_union rm s other = foldl (\<lambda>u (space, ranges). bm_insert space (rm_union rm (or_default rm space u) ranges) u) s other"

definition set_intersection :: "'r rangemap \<Rightarrow> 'r address_range_set \<Rightarrow> 'r address_range_set \<Rightarrow> 'r address_range_set" where
  "set_intersection rm s other =
     foldl (\<lambda>acc (space, ranges).
       case map_of other space of
         None \<Rightarrow> acc
       | Some other_ranges \<Rightarrow>
           let ranges = rm_intersection rm ranges other_ranges in
           if \<not> rm_is_empty rm ranges then bm_insert space ranges acc else acc) set_new s"

definition set_intersects :: "'r rangemap \<Rightarrow> 'r address_range_set \<Rightarrow> 'r address_range_set \<Rightarrow> bool" where
  "set_intersects rm s other = list_ex (\<lambda>r. set_intersects_range rm r s) (set_ranges rm other)"

section \<open>What the code relies on\<close>

definition span :: "inclusive \<Rightarrow> u64 set" where
  "span r = {fst r..snd r}"

definition ascending :: "inclusive list \<Rightarrow> bool" where
  "ascending rs \<longleftrightarrow> sorted_wrt (\<lambda>r s. snd r < fst s) rs \<and> (\<forall>r \<in> set rs. fst r \<le> snd r)"

locale range_set =
  fixes rm :: "'r rangemap"
  assumes new: "\<not> rm_contains rm x (rm_new rm)"
    and insert_range: "fst r \<le> snd r \<Longrightarrow>
      \<exists>s'. rm_insert rm r s = Inr s' \<and> (\<forall>x. rm_contains rm x s' \<longleftrightarrow> rm_contains rm x s \<or> x \<in> span r)"
    and remove_range: "fst r \<le> snd r \<Longrightarrow>
      \<exists>s'. rm_remove rm r s = Inr s' \<and> (\<forall>x. rm_contains rm x s' \<longleftrightarrow> rm_contains rm x s \<and> x \<notin> span r)"
    and iter_ascending: "ascending (rm_iter rm s)"
    and iter_contains: "rm_contains rm x s \<longleftrightarrow> (\<exists>r \<in> set (rm_iter rm s). x \<in> span r)"
    and overlapping: "fst r \<le> snd r \<Longrightarrow> rm_overlapping rm r s = filter (\<lambda>t. span t \<inter> span r \<noteq> {}) (rm_iter rm s)"
    and overlaps: "fst r \<le> snd r \<Longrightarrow> rm_overlaps rm r s \<longleftrightarrow> (\<exists>x \<in> span r. rm_contains rm x s)"
    and union: "rm_contains rm x (rm_union rm s t) \<longleftrightarrow> rm_contains rm x s \<or> rm_contains rm x t"
    and intersection: "rm_contains rm x (rm_intersection rm s t) \<longleftrightarrow> rm_contains rm x s \<and> rm_contains rm x t"
    and is_empty: "rm_is_empty rm s \<longleftrightarrow> (\<forall>x. \<not> rm_contains rm x s)"

definition members :: "'r rangemap \<Rightarrow> 'r address_range_set \<Rightarrow> address set" where
  "members rm s = {a. set_contains rm a s}"

definition addresses_of :: "address_range \<Rightarrow> address set" where
  "addresses_of r = {a. range_contains_address r a}"

section \<open>The difference iterator yields the gaps\<close>

lemma below_pred: "(s :: u64) < w \<Longrightarrow> y \<le> w - 1 \<longleftrightarrow> y < w"
proof -
  assume "s < w"
  then have "unat (w - 1) = unat w - 1" "0 < unat w" by (auto simp: unat_sub word_le_nat_alt word_less_nat_alt)
  then show ?thesis by (simp add: word_le_nat_alt word_less_nat_alt) linarith
qed

lemma above_succ: "(v :: u64) < e \<Longrightarrow> v + 1 \<le> y \<longleftrightarrow> v < y"
proof -
  assume "v < e"
  then have "unat v < unat e" by (simp add: word_less_nat_alt)
  then have "Suc (unat v) < 18446744073709551616" using unat_lt_u64 [of e] by linarith
  then have "unat (v + 1) = Suc (unat v)" by (simp add: unat_word_ariths)
  then show ?thesis by (simp add: word_le_nat_alt word_less_nat_alt) linarith
qed

lemma difference_rest_Some:
  "difference_rest (Some (s, e)) ex =
     (case skip_excluded s ex of
        [] \<Rightarrow> [(s, e)]
      | x # rest \<Rightarrow>
          if e < fst x then [(s, e)]
          else if s < fst x then (s, fst x - 1) # (if snd x < e then difference_rest (Some (snd x + 1, e)) rest else [])
          else if snd x < e then difference_rest (Some (snd x + 1, e)) rest else [])"
  by (subst difference_rest.simps)
    (auto simp: raw_add_def raw_sub_def difference_rest.simps [of "Some (_ + 1, e)"] split: list.splits)

lemma skip_excluded_facts:
  assumes "sorted_wrt (\<lambda>r t. fst r \<le> fst t) ex"
  shows "sorted_wrt (\<lambda>r t. fst r \<le> fst t) (skip_excluded s ex)"
    "s \<le> y \<Longrightarrow> (\<exists>r \<in> set (skip_excluded s ex). y \<in> span r) \<longleftrightarrow> (\<exists>r \<in> set ex. y \<in> span r)"
    "skip_excluded s ex = x # rest \<Longrightarrow> fst x \<le> snd x \<and> s \<le> snd x"
  using assms by (induction ex) (auto simp: span_def inclusive_is_empty_def split: if_splits)

definition gaps :: "u64 \<Rightarrow> u64 \<Rightarrow> (u64 \<Rightarrow> bool) \<Rightarrow> inclusive list \<Rightarrow> bool" where
  "gaps s e M ys \<longleftrightarrow> ascending ys \<and> (\<forall>g \<in> set ys. s \<le> fst g) \<and>
     (\<forall>y. (\<exists>g \<in> set ys. y \<in> span g) \<longleftrightarrow> s \<le> y \<and> y \<le> e \<and> \<not> M y)"

lemma gaps_keep: "s \<le> e \<Longrightarrow> (\<And>y. s \<le> y \<Longrightarrow> y \<le> e \<Longrightarrow> \<not> M y) \<Longrightarrow> gaps s e M [(s, e)]"
  by (auto simp: gaps_def ascending_def span_def)

lemma gaps_none: "(\<And>y. s \<le> y \<Longrightarrow> y \<le> e \<Longrightarrow> M y) \<Longrightarrow> gaps s e M []"
  by (auto simp: gaps_def ascending_def)

lemma gaps_front:
  assumes "s < a" "a \<le> e" "\<And>y. s \<le> y \<Longrightarrow> y \<le> e \<Longrightarrow> M y \<longleftrightarrow> a \<le> y" shows "gaps s e M [(s, a - 1)]"
  using assms below_pred [OF assms(1)] by (fastforce simp: gaps_def ascending_def span_def)

lemma gaps_skip:
  assumes "gaps (b + 1) e R ys" "s \<le> b" "b < e" "\<And>y. s \<le> y \<Longrightarrow> y \<le> e \<Longrightarrow> M y \<longleftrightarrow> y \<le> b \<or> R y"
  shows "gaps s e M ys"
  using assms above_succ [OF assms(3)] by (fastforce simp: gaps_def)

lemma gaps_split:
  assumes more: "gaps (b + 1) e R ys" and ab: "s < a" "a \<le> b" "b < e"
    and M: "\<And>y. s \<le> y \<Longrightarrow> y \<le> e \<Longrightarrow> M y \<longleftrightarrow> a \<le> y \<and> (y \<le> b \<or> R y)"
  shows "gaps s e M ((s, a - 1) # ys)"
proof -
  have gap: "y \<in> span (s, a - 1) \<longleftrightarrow> s \<le> y \<and> y < a" for y using below_pred [OF ab(1)] by (auto simp: span_def)
  have "a - 1 < a" "s \<le> a - 1" using below_pred [OF ab(1), of "a - 1"] below_pred [OF ab(1), of s] ab(1) by auto
  moreover have "b < fst g" if "g \<in> set ys" for g using more above_succ [OF ab(3)] that by (simp add: gaps_def)
  ultimately have order: "a - 1 < fst g \<and> s \<le> fst g" if "g \<in> set ys" for g using that ab by fastforce
  have "(\<exists>g \<in> set ys. y \<in> span g) \<longleftrightarrow> b < y \<and> y \<le> e \<and> \<not> R y" for y using more above_succ [OF ab(3)] by (simp add: gaps_def)
  moreover have "s \<le> y \<and> y < a \<or> b < y \<and> y \<le> e \<and> \<not> R y \<longleftrightarrow> s \<le> y \<and> y \<le> e \<and> \<not> M y" for y
  proof -
    consider "y < a" | "a \<le> y" "y \<le> b" | "b < y" by fastforce
    then show ?thesis
    proof cases
      case 1
      then have "y \<le> e" "\<not> b < y" "\<not> a \<le> y" using ab by auto
      then show ?thesis using M [of y] 1 by blast
    next
      case 2
      then have "y \<le> e" "\<not> b < y" "\<not> y < a" "s \<le> y" using ab by auto
      then show ?thesis using M [of y] 2 by blast
    next
      case 3
      then have "\<not> y < a" "\<not> y \<le> b" "s \<le> y" "a \<le> y" using ab by auto
      then show ?thesis using M [of y] 3 by blast
    qed
  qed
  ultimately have "(\<exists>g \<in> set ((s, a - 1) # ys). y \<in> span g) \<longleftrightarrow> s \<le> y \<and> y \<le> e \<and> \<not> M y" for y
    using gap by simp
  then show ?thesis using more order \<open>s \<le> a - 1\<close> by (auto simp: gaps_def ascending_def)
qed

lemma difference_rest_ok:
  assumes "sorted_wrt (\<lambda>r t. fst r \<le> fst t) ex" "s \<le> e"
  shows "gaps s e (\<lambda>y. \<exists>r \<in> set ex. y \<in> span r) (difference_rest (Some (s, e)) ex)"
  using assms
proof (induction "length ex" arbitrary: ex s rule: less_induct)
  case less
  note skip = skip_excluded_facts [OF less.prems(1), of s]
  let ?M = "\<lambda>y. \<exists>r \<in> set ex. y \<in> span r"
  show ?case
  proof (cases "skip_excluded s ex")
    case Nil
    then show ?thesis using skip(2) less.prems(2) by (subst difference_rest_Some) (simp add: gaps_keep)
  next
    case (Cons x rest)
    have x: "fst x \<le> snd x" "s \<le> snd x" using skip(3) [OF Cons] by auto
    let ?R = "\<lambda>y. \<exists>r \<in> set rest. y \<in> span r"
    have "sorted_wrt (\<lambda>r t. fst r \<le> fst t) rest" and low: "\<forall>r \<in> set rest. fst x \<le> fst r" using skip(1) Cons by auto
    then have more: "gaps (snd x + 1) e ?R (difference_rest (Some (snd x + 1, e)) rest)" if "snd x < e"
      using less.hyps [of rest "snd x + 1"] above_succ [OF that, of e] that length_skip_excluded [of s ex] Cons by simp
    have later: "fst x \<le> y" if "?R y" for y using that low by (fastforce simp: span_def)
    have mem: "?M y \<longleftrightarrow> fst x \<le> y \<and> (y \<le> snd x \<or> ?R y)" if "s \<le> y" for y
      using skip(2) [OF that] Cons later [of y] by (auto simp: span_def)
    consider "e < fst x" | "s < fst x" "fst x \<le> e" "snd x < e" | "s < fst x" "fst x \<le> e" "e \<le> snd x"
      | "fst x \<le> s" "snd x < e" | "fst x \<le> s" "e \<le> snd x" by fastforce
    then show ?thesis
    proof cases
      case 1
      have "gaps s e ?M [(s, e)]" by (rule gaps_keep [OF less.prems(2)]) (use mem 1 in auto)
      then show ?thesis using 1 by (subst difference_rest_Some) (simp add: Cons)
    next
      case 2
      have "gaps s e ?M ((s, fst x - 1) # difference_rest (Some (snd x + 1, e)) rest)"
        by (rule gaps_split [OF more [OF 2(3)] 2(1) x(1) 2(3)]) (use mem in blast)
      then show ?thesis using 2 by (subst difference_rest_Some) (simp add: Cons leD)
    next
      case 3
      have "gaps s e ?M [(s, fst x - 1)]" by (rule gaps_front [OF 3(1,2)]) (use mem 3(3) in fastforce)
      then show ?thesis using 3 by (subst difference_rest_Some) (simp add: Cons leD)
    next
      case 4
      have "gaps s e ?M (difference_rest (Some (snd x + 1, e)) rest)"
        by (rule gaps_skip [OF more [OF 4(2)] x(2) 4(2)]) (use mem 4(1) in fastforce)
      moreover have "\<not> e < fst x" using 4 x by auto
      ultimately show ?thesis using 4 by (subst difference_rest_Some) (simp add: Cons leD)
    next
      case 5
      have "gaps s e ?M []" by (rule gaps_none) (use mem 5 in fastforce)
      moreover have "\<not> e < fst x" using 5 less.prems(2) by auto
      ultimately show ?thesis using 5 by (subst difference_rest_Some) (simp add: Cons leD)
    qed
  qed
qed

section \<open>The sets implement set algebra\<close>

lemma fold_ok_collect:
  assumes "\<And>x s. x \<in> set xs \<Longrightarrow> \<exists>s'. f x s = Inr s' \<and> (\<forall>y. P y s' \<longleftrightarrow> P y s \<or> Q x y)"
  shows "\<exists>s'. fold_ok f xs s = Inr s' \<and> (\<forall>y. P y s' \<longleftrightarrow> P y s \<or> (\<exists>x \<in> set xs. Q x y))"
  using assms
proof (induction xs arbitrary: s)
  case (Cons x xs)
  obtain s1 where s1: "f x s = Inr s1" "\<forall>y. P y s1 \<longleftrightarrow> P y s \<or> Q x y" using Cons.prems [of x s] by auto
  obtain s2 where "fold_ok f xs s1 = Inr s2" "\<forall>y. P y s2 \<longleftrightarrow> P y s1 \<or> (\<exists>x \<in> set xs. Q x y)" using Cons by force
  then show ?case using s1 by auto
qed simp

lemma ascending_starts: "ascending rs \<Longrightarrow> sorted_wrt (\<lambda>r t. fst r \<le> fst t) (filter P rs)"
proof -
  assume "ascending rs"
  then have "sorted_wrt (\<lambda>r t. fst r \<le> fst t) rs"
    unfolding ascending_def by (auto elim!: sorted_wrt_mono_rel [rotated] intro: order.trans less_imp_le)
  then show ?thesis by (rule sorted_wrt_filter)
qed

lemma gaps_cong: "gaps s e M ys \<Longrightarrow> (\<And>y. s \<le> y \<Longrightarrow> y \<le> e \<Longrightarrow> M y \<longleftrightarrow> M' y) \<Longrightarrow> gaps s e M' ys"
  by (simp add: gaps_def cong: conj_cong)

lemma address_iff: "(\<forall>a. P a) \<longleftrightarrow> (\<forall>sp x. P (Address sp x))"
  by (metis address.exhaust)

lemma mem_addresses_of [simp]: "Address sp x \<in> addresses_of r \<longleftrightarrow> sp = ar_space r \<and> ar_start r \<le> x \<and> x \<le> ar_end r"
  by (auto simp: addresses_of_def range_contains_address_def range_contains_def)

context range_set
begin

lemma raw_insert: "fst r \<le> snd r \<Longrightarrow>
    \<exists>s'. raw_set_insert_range rm r s = Inr s' \<and> (\<forall>x. rm_contains rm x s' \<longleftrightarrow> rm_contains rm x s \<or> x \<in> span r)"
  unfolding raw_set_insert_range_def by (rule insert_range)

lemma raw_gaps:
  assumes "fst r \<le> snd r"
  shows "gaps (fst r) (snd r) (\<lambda>x. rm_contains rm x other)
    (inclusive_difference r (raw_set_overlapping rm (Included (fst r)) (Included (snd r)) other))"
proof -
  let ?ex = "filter (\<lambda>t. span t \<inter> span r \<noteq> {}) (rm_iter rm other)"
  have ex: "raw_set_overlapping rm (Included (fst r)) (Included (snd r)) other = ?ex"
    using overlapping [OF assms] assms by (simp add: raw_set_overlapping_def raw_address_bounds_def start_bound_def end_bound_def)
  have "gaps (fst r) (snd r) (\<lambda>x. \<exists>t \<in> set ?ex. x \<in> span t) (inclusive_difference r ?ex)"
    using difference_rest_ok [OF ascending_starts [OF iter_ascending] assms] assms
    by (simp add: inclusive_difference_def inclusive_is_empty_def)
  moreover have "(\<exists>t \<in> set ?ex. x \<in> span t) \<longleftrightarrow> rm_contains rm x other" if "fst r \<le> x" "x \<le> snd r" for x
  proof -
    have "x \<in> span r" using that by (simp add: span_def)
    then show ?thesis using iter_contains [of x other] by auto
  qed
  ultimately show ?thesis unfolding ex by (rule gaps_cong)
qed

lemma raw_difference:
  "\<exists>d. raw_set_difference rm s other = Inr d \<and> (\<forall>x. rm_contains rm x d \<longleftrightarrow> rm_contains rm x s \<and> \<not> rm_contains rm x other)"
proof -
  let ?g = "\<lambda>r. inclusive_difference r (raw_set_overlapping rm (Included (fst r)) (Included (snd r)) other)"
  have "\<exists>t'. fold_ok (\<lambda>gap. rm_insert rm gap) (?g r) t = Inr t' \<and>
      (\<forall>x. rm_contains rm x t' \<longleftrightarrow> rm_contains rm x t \<or> x \<in> span r \<and> \<not> rm_contains rm x other)" if r: "r \<in> set (rm_iter rm s)" for r t
  proof -
    have le: "fst r \<le> snd r" using iter_ascending r by (simp add: ascending_def)
    note g = raw_gaps [OF le, of other]
    have "\<exists>t'. fold_ok (\<lambda>gap. rm_insert rm gap) (?g r) t = Inr t' \<and>
      (\<forall>x. rm_contains rm x t' \<longleftrightarrow> rm_contains rm x t \<or> (\<exists>gap \<in> set (?g r). x \<in> span gap))"
      by (rule fold_ok_collect, rule insert_range) (use g in \<open>simp add: gaps_def ascending_def\<close>)
    moreover have "(\<exists>gap \<in> set (?g r). x \<in> span gap) \<longleftrightarrow> x \<in> span r \<and> \<not> rm_contains rm x other" for x
      using g by (auto simp: gaps_def span_def)
    ultimately show ?thesis by simp
  qed
  then have "\<exists>d. raw_set_difference rm s other = Inr d \<and>
      (\<forall>x. rm_contains rm x d \<longleftrightarrow> rm_contains rm x (rm_new rm) \<or> (\<exists>r \<in> set (rm_iter rm s). x \<in> span r \<and> \<not> rm_contains rm x other))"
    unfolding raw_set_difference_def by (rule fold_ok_collect)
  then show ?thesis using new iter_contains [of _ s] by auto
qed

lemma contains_or_default: "rm_contains rm x (or_default rm sp s) \<longleftrightarrow> set_contains rm (Address sp x) s"
  using new by (simp add: or_default_def set_contains_def split: option.splits)

lemma contains_put: "bm_ok s \<Longrightarrow> set_contains rm (Address sp x) (bm_insert k r s) \<longleftrightarrow>
    (if sp = k then rm_contains rm x r else set_contains rm (Address sp x) s)"
  by (simp add: set_contains_def bm.look_put)

lemma set_insert_range_ok:
  assumes "bm_ok s"
  shows "\<exists>s'. set_insert_range rm r s = Inr s' \<and> bm_ok s' \<and> members rm s' = members rm s \<union> addresses_of r"
proof (cases "ar_is_empty r")
  case True
  then have "addresses_of r = {}" by (auto simp: addresses_of_def range_contains_address_def range_contains_def ar_is_empty_def)
  then show ?thesis using True assms by (simp add: set_insert_range_def)
next
  case False
  then have "fst (raw_range r) \<le> snd (raw_range r)" by (simp add: ar_is_empty_def raw_range_def not_less)
  then obtain rs where rs: "raw_set_insert_range rm (raw_range r) (or_default rm (ar_space r) s) = Inr rs"
    "\<forall>x. rm_contains rm x rs \<longleftrightarrow> rm_contains rm x (or_default rm (ar_space r) s) \<or> x \<in> span (raw_range r)" using raw_insert by blast
  have "members rm (bm_insert (ar_space r) rs s) = members rm s \<union> addresses_of r"
    unfolding set_eq_iff address_iff using rs(2) assms
    by (auto simp: members_def contains_put contains_or_default span_def raw_range_def)
  then show ?thesis using False rs(1) bm.ok_put [OF assms] by (simp add: set_insert_range_def)
qed

lemma set_remove_range_ok:
  assumes "bm_ok s" "\<not> ar_is_empty r"
  shows "\<exists>s'. set_remove_range rm r s = Inr s' \<and> bm_ok s' \<and> members rm s' = members rm s - addresses_of r"
proof (cases "map_of s (ar_space r)")
  case None
  have "members rm s = members rm s - addresses_of r"
    unfolding set_eq_iff address_iff using None by (auto simp: members_def set_contains_def)
  then show ?thesis using None assms by (simp add: set_remove_range_def)
next
  case (Some rs)
  have "fst (raw_range r) \<le> snd (raw_range r)" using assms(2) by (simp add: ar_is_empty_def raw_range_def not_less)
  then obtain rs' where rs': "raw_set_remove_range rm (raw_range r) rs = Inr rs'"
    "\<forall>x. rm_contains rm x rs' \<longleftrightarrow> rm_contains rm x rs \<and> x \<notin> span (raw_range r)"
    using remove_range unfolding raw_set_remove_range_def by blast
  let ?s = "if rm_is_empty rm rs' then bm_remove (ar_space r) s else bm_insert (ar_space r) rs' s"
  have "set_contains rm (Address sp x) ?s \<longleftrightarrow> (if sp = ar_space r then rm_contains rm x rs' else set_contains rm (Address sp x) s)" for sp x
    using assms(1) is_empty [of rs'] by (simp add: set_contains_def bm.look_del bm.look_put)
  then have "members rm ?s = members rm s - addresses_of r"
    unfolding set_eq_iff address_iff using rs'(2) Some by (auto simp: members_def span_def raw_range_def set_contains_def)
  then show ?thesis using Some rs'(1) bm.ok_put [OF assms(1)] bm.ok_del [OF assms(1)] by (simp add: set_remove_range_def)
qed

end

context range_set
begin

lemma set_union_ok:
  assumes "bm_ok s"
  shows "bm_ok (set_union rm s other) \<and>
    (\<forall>sp x. set_contains rm (Address sp x) (set_union rm s other) \<longleftrightarrow>
       set_contains rm (Address sp x) s \<or> (\<exists>rs. (sp, rs) \<in> set other \<and> rm_contains rm x rs))"
  using assms
proof (induction other arbitrary: s)
  case (Cons e other)
  obtain sp rs where e: "e = (sp, rs)" by fastforce
  let ?s = "bm_insert sp (rm_union rm (or_default rm sp s) rs) s"
  have step: "set_union rm s ((sp, rs) # other) = set_union rm ?s other" by (simp add: set_union_def)
  have "set_contains rm (Address k x) ?s \<longleftrightarrow> set_contains rm (Address k x) s \<or> k = sp \<and> rm_contains rm x rs" for k x
    using Cons.prems union by (auto simp: contains_put contains_or_default)
  then show ?case using Cons.IH [OF bm.ok_put [OF Cons.prems], of sp "rm_union rm (or_default rm sp s) rs"] unfolding e step by auto
qed (simp add: set_union_def)

lemma set_intersection_fold:
  fixes acc s other :: "'r address_range_set"
  assumes "bm_ok acc" "distinct (map fst s)" "\<And>sp. sp \<in> fst ` set s \<Longrightarrow> map_of acc sp = None"
  defines "f \<equiv> \<lambda>acc (space, ranges). case map_of other space of None \<Rightarrow> acc
    | Some other_ranges \<Rightarrow> let ranges = rm_intersection rm ranges other_ranges in
        if \<not> rm_is_empty rm ranges then bm_insert space ranges acc else acc"
  shows "bm_ok (foldl f acc s) \<and>
    (\<forall>sp x. set_contains rm (Address sp x) (foldl f acc s) \<longleftrightarrow> set_contains rm (Address sp x) acc \<or>
       (\<exists>rs. (sp, rs) \<in> set s \<and> rm_contains rm x rs) \<and> set_contains rm (Address sp x) other)"
  using assms(1-3)
proof (induction s arbitrary: acc)
  case (Cons e s)
  obtain sp rs where e: "e = (sp, rs)" by fastforce
  have new: "map_of acc sp = None" using Cons.prems(3) by (simp add: e)
  have fresh: "sp \<notin> fst ` set s" using Cons.prems(2) by (simp add: e)
  have ok: "bm_ok (f acc e)" using Cons.prems(1) by (auto simp: f_def e Let_def bm_ok_insert split: option.splits)
  have one: "set_contains rm (Address k x) (f acc e) \<longleftrightarrow>
      set_contains rm (Address k x) acc \<or> k = sp \<and> rm_contains rm x rs \<and> set_contains rm (Address k x) other" for k x
  proof (cases "map_of other sp")
    case None
    then show ?thesis by (auto simp: f_def e set_contains_def)
  next
    case (Some os)
    let ?i = "rm_intersection rm rs os"
    have i: "rm_contains rm y ?i \<longleftrightarrow> rm_contains rm y rs \<and> rm_contains rm y os" for y by (rule intersection)
    show ?thesis
    proof (cases "rm_is_empty rm ?i")
      case True
      then have "\<not> (rm_contains rm x rs \<and> rm_contains rm x os)" using is_empty [of ?i] i by blast
      then show ?thesis using True Some by (auto simp: f_def e set_contains_def)
    next
      case False
      then show ?thesis using Some Cons.prems(1) new i by (auto simp: f_def e contains_put set_contains_def bm.look_put)
    qed
  qed
  have "map_of (f acc e) k = None" if "k \<in> fst ` set s" for k
  proof -
    have "k \<noteq> sp" "map_of acc k = None" using that fresh Cons.prems(3) [of k] by (auto simp: e)
    then show ?thesis using Cons.prems(1) by (simp add: f_def e Let_def bm.look_put split: option.splits)
  qed
  then have IH: "bm_ok (foldl f (f acc e) s)" "\<And>k x. set_contains rm (Address k x) (foldl f (f acc e) s) \<longleftrightarrow>
      set_contains rm (Address k x) (f acc e) \<or> (\<exists>rs. (k, rs) \<in> set s \<and> rm_contains rm x rs) \<and> set_contains rm (Address k x) other"
    using Cons.IH [OF ok] Cons.prems(2) by auto
  then show ?case using one by (auto simp: e)
qed simp

lemma in_entries: "bm_ok s \<Longrightarrow> (\<exists>rs. (sp, rs) \<in> set s \<and> rm_contains rm x rs) \<longleftrightarrow> set_contains rm (Address sp x) s"
  using bm.entries_look [of s sp] by (simp add: set_contains_def split: option.splits)

lemma distinct_spaces: "bm_ok s \<Longrightarrow> distinct (map fst s)"
  by (simp add: bm_ok_def strict_sorted_iff)

lemma members_union: "bm_ok s \<Longrightarrow> bm_ok t \<Longrightarrow> bm_ok (set_union rm s t) \<and> members rm (set_union rm s t) = members rm s \<union> members rm t"
  using set_union_ok [of s t] in_entries [of t] by (auto simp: members_def set_eq_iff address_iff)

lemma members_intersection:
  assumes "bm_ok s"
  shows "bm_ok (set_intersection rm s t) \<and> members rm (set_intersection rm s t) = members rm s \<inter> members rm t"
  using set_intersection_fold [of "[]" s t, OF bm_ok_Nil distinct_spaces [OF assms]] in_entries [OF assms]
  unfolding set_intersection_def set_new_def by (auto simp: members_def set_eq_iff address_iff set_contains_def)

lemma members_new: "members rm set_new = {}"
  by (auto simp: members_def set_new_def set_contains_def)

end

context range_set
begin

lemma difference_fold:
  assumes "bm_ok d"
  shows "\<exists>d'. fold_ok (\<lambda>(space, ranges) d. case map_of d space of None \<Rightarrow> Inr d
      | Some existing \<Rightarrow> map_ok (\<lambda>r. bm_insert space r d) (raw_set_difference rm existing ranges)) other d = Inr d' \<and> bm_ok d' \<and>
    (\<forall>sp x. set_contains rm (Address sp x) d' \<longleftrightarrow>
       set_contains rm (Address sp x) d \<and> \<not> (\<exists>rs. (sp, rs) \<in> set other \<and> rm_contains rm x rs))"
  using assms
proof (induction other arbitrary: d)
  case (Cons e other)
  obtain sp rs where e: "e = (sp, rs)" by fastforce
  have "\<exists>d1. (case map_of d sp of None \<Rightarrow> Inr d
      | Some existing \<Rightarrow> map_ok (\<lambda>r. bm_insert sp r d) (raw_set_difference rm existing rs)) = (Inr d1 :: panic + _) \<and> bm_ok d1 \<and>
    (\<forall>k x. set_contains rm (Address k x) d1 \<longleftrightarrow> set_contains rm (Address k x) d \<and> \<not> (k = sp \<and> rm_contains rm x rs))"
  proof (cases "map_of d sp")
    case None
    then have "\<not> set_contains rm (Address sp x) d" for x by (simp add: set_contains_def)
    then show ?thesis using None Cons.prems by auto
  next
    case (Some old)
    obtain r where r: "raw_set_difference rm old rs = Inr r"
      "\<forall>x. rm_contains rm x r \<longleftrightarrow> rm_contains rm x old \<and> \<not> rm_contains rm x rs" using raw_difference by blast
    have "set_contains rm (Address sp x) d \<longleftrightarrow> rm_contains rm x old" for x using Some by (simp add: set_contains_def)
    then have "set_contains rm (Address k x) (bm_insert sp r d) \<longleftrightarrow>
        set_contains rm (Address k x) d \<and> \<not> (k = sp \<and> rm_contains rm x rs)" for k x
      using r(2) contains_put [OF Cons.prems] by simp
    then show ?thesis using Some r(1) bm.ok_put [OF Cons.prems] by simp
  qed
  then obtain d1 where d1: "(case map_of d sp of None \<Rightarrow> Inr d
      | Some existing \<Rightarrow> map_ok (\<lambda>r. bm_insert sp r d) (raw_set_difference rm existing rs)) = (Inr d1 :: panic + _)" "bm_ok d1"
    "\<forall>k x. set_contains rm (Address k x) d1 \<longleftrightarrow> set_contains rm (Address k x) d \<and> \<not> (k = sp \<and> rm_contains rm x rs)" by blast
  then show ?case using Cons.IH [OF d1(2)] by (auto simp: e)
qed simp

lemma retain_contains:
  assumes "bm_ok s"
  shows "bm_ok (filter (\<lambda>(_, r). \<not> rm_is_empty rm r) s)"
    "set_contains rm a (filter (\<lambda>(_, r). \<not> rm_is_empty rm r) s) \<longleftrightarrow> set_contains rm a s"
proof -
  let ?f = "filter (\<lambda>(_, r). \<not> rm_is_empty rm r) s"
  show ok: "bm_ok ?f" using assms by (simp add: bm_ok_def sorted_wrt_map sorted_wrt_filter)
  have "set_contains rm (Address sp x) ?f \<longleftrightarrow> set_contains rm (Address sp x) s" for sp x
    unfolding in_entries [OF ok, symmetric] in_entries [OF assms, symmetric] using is_empty by auto
  then show "set_contains rm a ?f \<longleftrightarrow> set_contains rm a s" by (cases a) simp
qed

lemma members_difference:
  assumes "bm_ok s" "bm_ok t"
  shows "\<exists>d. set_difference rm s t = Inr d \<and> bm_ok d \<and> members rm d = members rm s - members rm t"
proof -
  obtain d' where d': "fold_ok (\<lambda>(space, ranges) d. case map_of d space of None \<Rightarrow> Inr d
      | Some existing \<Rightarrow> map_ok (\<lambda>r. bm_insert space r d) (raw_set_difference rm existing ranges)) t s = Inr d'" "bm_ok d'"
    "\<forall>sp x. set_contains rm (Address sp x) d' \<longleftrightarrow>
       set_contains rm (Address sp x) s \<and> \<not> (\<exists>rs. (sp, rs) \<in> set t \<and> rm_contains rm x rs)"
    using difference_fold [OF assms(1), of t] by blast
  let ?d = "filter (\<lambda>(_, r). \<not> rm_is_empty rm r) d'"
  have "members rm ?d = members rm s - members rm t"
    unfolding set_eq_iff address_iff using d'(3) retain_contains(2) [OF d'(2)] in_entries [OF assms(2)] by (simp add: members_def)
  then show ?thesis using d'(1) retain_contains(1) [OF d'(2)] by (simp add: set_difference_def)
qed

lemma intersects_range_iff: "set_intersects_range rm r s \<longleftrightarrow> members rm s \<inter> addresses_of r \<noteq> {}"
proof -
  have "set_intersects_range rm r s \<longleftrightarrow> (\<exists>x. ar_start r \<le> x \<and> x \<le> ar_end r \<and> set_contains rm (Address (ar_space r) x) s)"
  proof (cases "map_of s (ar_space r)")
    case (Some rs)
    have "ar_start r \<le> ar_end r \<and> rm_overlaps rm (raw_range r) rs \<longleftrightarrow> (\<exists>x. ar_start r \<le> x \<and> x \<le> ar_end r \<and> rm_contains rm x rs)"
      using overlaps [of "raw_range r" rs]
      unfolding raw_range_def span_def fst_conv snd_conv Bex_def atLeastAtMost_iff by (meson order.trans)
    then show ?thesis using Some by (simp add: set_intersects_range_def raw_set_intersects_range_def set_contains_def raw_range_def)
  qed (simp add: set_intersects_range_def set_contains_def)
  moreover have "members rm s \<inter> addresses_of r \<noteq> {} \<longleftrightarrow> \<not> (\<forall>a. \<not> (a \<in> members rm s \<and> a \<in> addresses_of r))" by blast
  ultimately show ?thesis unfolding address_iff by (auto simp: members_def)
qed

lemma mem_set_ranges:
  "r \<in> set (set_ranges rm s) \<longleftrightarrow> (\<exists>rs. (ar_space r, rs) \<in> set s \<and> (ar_start r, ar_end r) \<in> set (rm_iter rm rs))"
  by (cases r) (force simp: set_ranges_def)

lemma set_ranges_members: "bm_ok s \<Longrightarrow> (\<Union>r \<in> set (set_ranges rm s). addresses_of r) = members rm s"
  unfolding set_eq_iff address_iff members_def
proof (intro allI)
  fix sp x assume ok: "bm_ok s"
  have "Address sp x \<in> (\<Union>r \<in> set (set_ranges rm s). addresses_of r) \<longleftrightarrow>
      (\<exists>rs. (sp, rs) \<in> set s \<and> (\<exists>t \<in> set (rm_iter rm rs). x \<in> span t))"
  proof
    assume "Address sp x \<in> (\<Union>r \<in> set (set_ranges rm s). addresses_of r)"
    then obtain r where r: "r \<in> set (set_ranges rm s)" "sp = ar_space r" "x \<in> span (ar_start r, ar_end r)" by (auto simp: span_def)
    then show "\<exists>rs. (sp, rs) \<in> set s \<and> (\<exists>t \<in> set (rm_iter rm rs). x \<in> span t)" unfolding mem_set_ranges by blast
  next
    assume "\<exists>rs. (sp, rs) \<in> set s \<and> (\<exists>t \<in> set (rm_iter rm rs). x \<in> span t)"
    then obtain rs a b where "(sp, rs) \<in> set s" "(a, b) \<in> set (rm_iter rm rs)" "x \<in> span (a, b)" by auto
    then have "AddressRange sp a b \<in> set (set_ranges rm s)" "Address sp x \<in> addresses_of (AddressRange sp a b)"
      unfolding mem_set_ranges by (auto simp: span_def)
    then show "Address sp x \<in> (\<Union>r \<in> set (set_ranges rm s). addresses_of r)" by blast
  qed
  then show "Address sp x \<in> (\<Union>r \<in> set (set_ranges rm s). addresses_of r) \<longleftrightarrow> Address sp x \<in> {a. set_contains rm a s}"
    using in_entries [OF ok, of sp x] iter_contains [of x] by simp
qed

lemma set_ranges_filled: "r \<in> set (set_ranges rm s) \<Longrightarrow> \<not> ar_is_empty r"
  using iter_ascending by (fastforce simp: set_ranges_def ascending_def ar_is_empty_def)

lemma set_is_empty_iff: "bm_ok s \<Longrightarrow> set_is_empty rm s \<longleftrightarrow> members rm s = {}"
  using in_entries [of s] is_empty
  by (auto simp: set_is_empty_def list_all_iff members_def set_eq_iff address_iff) blast+

end

section \<open>A reference range set\<close>

text \<open>A list of ranges, in insertion order; iteration merges ranges that overlap or touch.\<close>

fun merge_range :: "inclusive \<Rightarrow> inclusive list \<Rightarrow> inclusive list" where
  "merge_range r [] = [r]"
| "merge_range r (t # ts) =
     (if snd r < fst t \<and> snd r + 1 < fst t then r # t # ts
      else if snd t < fst r \<and> snd t + 1 < fst r then t # merge_range r ts
      else merge_range (min (fst r) (fst t), max (snd r) (snd t)) ts)"

definition merged :: "inclusive list \<Rightarrow> inclusive list" where
  "merged rs = foldr merge_range (filter (\<lambda>r. fst r \<le> snd r) rs) []"

definition cut :: "inclusive \<Rightarrow> inclusive \<Rightarrow> inclusive list" where
  "cut r t = inclusive_difference t [r]"

definition list_rangemap :: "inclusive list rangemap" where
  "list_rangemap =
     \<lparr>rm_new = [],
      rm_insert = \<lambda>r rs. if fst r \<le> snd r then Inr (r # rs) else Inl Panicked,
      rm_remove = \<lambda>r rs. if fst r \<le> snd r then Inr (concat (map (cut r) rs)) else Inl Panicked,
      rm_contains = \<lambda>x rs. list_ex (\<lambda>r. fst r \<le> x \<and> x \<le> snd r) rs,
      rm_iter = merged,
      rm_overlapping = \<lambda>r rs. filter (\<lambda>t. fst t \<le> snd r \<and> fst r \<le> snd t) (merged rs),
      rm_overlaps = \<lambda>r rs. list_ex (\<lambda>t. fst t \<le> snd r \<and> fst r \<le> snd t) (merged rs),
      rm_union = (@),
      rm_intersection = \<lambda>rs ts. concat (map (\<lambda>r. map (\<lambda>t. (max (fst r) (fst t), min (snd r) (snd t))) ts) rs),
      rm_is_empty = \<lambda>rs. list_all (\<lambda>r. snd r < fst r) rs\<rparr>"

lemma span_merge:
  assumes "fst r \<le> snd r" "fst t \<le> snd t"
    and "\<not> (snd r < fst t \<and> snd r + 1 < fst t)" "\<not> (snd t < fst r \<and> snd t + 1 < fst r)"
  shows "x \<in> span (min (fst r) (fst t), max (snd r) (snd t)) \<longleftrightarrow> x \<in> span r \<or> x \<in> span t"
proof -
  have gap: "\<not> (snd u < x \<and> x < fst v)" if "\<not> (snd u < fst v \<and> snd u + 1 < fst v)" for u v :: inclusive
  proof
    assume x: "snd u < x \<and> x < fst v"
    then have "snd u < fst v" by auto
    moreover from this have "snd u + 1 \<le> x" using above_succ [of "snd u" "fst v" x] x by blast
    ultimately show False using that x by auto
  qed
  show ?thesis using gap [of r t] gap [of t r] assms by (auto simp: span_def min_def max_def)
qed

lemma merge_range_ok:
  assumes "ascending ts" "fst r \<le> snd r"
  shows "ascending (merge_range r ts) \<and>
    (\<forall>x. (\<exists>u \<in> set (merge_range r ts). x \<in> span u) \<longleftrightarrow> x \<in> span r \<or> (\<exists>u \<in> set ts. x \<in> span u)) \<and>
    (\<forall>u \<in> set (merge_range r ts). fst u = fst r \<or> fst u \<in> fst ` set ts)"
  using assms
proof (induction r ts rule: merge_range.induct)
  case (2 r t ts)
  let ?m = "(min (fst r) (fst t), max (snd r) (snd t))"
  have t: "fst t \<le> snd t" "ascending ts" "\<forall>u \<in> set ts. snd t < fst u" using 2(3) by (auto simp: ascending_def)
  have m: "fst ?m \<le> snd ?m" using t(1) 2(4) by (auto simp: min_def max_def)
  consider (before) "snd r < fst t \<and> snd r + 1 < fst t"
    | (after) "\<not> (snd r < fst t \<and> snd r + 1 < fst t)" "snd t < fst r \<and> snd t + 1 < fst r"
    | (touch) "\<not> (snd r < fst t \<and> snd r + 1 < fst t)" "\<not> (snd t < fst r \<and> snd t + 1 < fst r)" by blast
  then show ?case
  proof cases
    case before
    have "snd r < fst u" if "u \<in> set ts" for u using before t that by fastforce
    then show ?thesis using before 2(3,4) by (auto simp: ascending_def)
  next
    case after
    note IH = 2(1) [OF after t(2) 2(4)]
    have "snd t < fst u" if "u \<in> set (merge_range r ts)" for u using IH after t(3) that by fastforce
    then show ?thesis using after IH t(1) by (auto simp: ascending_def)
  next
    case touch
    note IH = 2(2) [OF touch t(2) m]
    have eq: "merge_range r (t # ts) = merge_range ?m ts" using touch by auto
    have "fst u = fst r \<or> fst u \<in> fst ` set (t # ts)" if "u \<in> set (merge_range ?m ts)" for u
      using conjunct2 [OF conjunct2 [OF IH], rule_format, OF that] by (auto simp: min_def split: if_splits)
    then show ?thesis unfolding eq using IH span_merge [OF 2(4) t(1) touch] by simp
  qed
qed (auto simp: ascending_def)

lemmas merge_range_facts = conjunct1 [OF merge_range_ok] spec [OF conjunct1 [OF conjunct2 [OF merge_range_ok]]]

lemma merged_facts:
  "ascending (merged rs)" "(\<exists>u \<in> set (merged rs). x \<in> span u) \<longleftrightarrow> (\<exists>r \<in> set rs. x \<in> span r)"
proof (induction rs)
  case (Cons r rs)
  {
    case 1
    then show ?case using Cons merge_range_facts(1) [of "merged rs" r] by (simp add: merged_def)
  next
    case 2
    show ?case
    proof (cases "fst r \<le> snd r")
      case True
      then have "merged (r # rs) = merge_range r (merged rs)" by (simp add: merged_def)
      then show ?thesis using Cons merge_range_facts(2) [of "merged rs" r x] True by simp
    next
      case False
      then have "merged (r # rs) = merged rs" "x \<notin> span r" by (auto simp: merged_def span_def)
      then show ?thesis using Cons by simp
    qed
  }
qed (auto simp: merged_def ascending_def)

lemma list_contains: "rm_contains list_rangemap x rs \<longleftrightarrow> (\<exists>r \<in> set rs. x \<in> span r)"
  by (simp add: list_rangemap_def list_ex_iff span_def)

lemma span_meets:
  assumes "fst r \<le> snd r" "fst t \<le> snd t" shows "fst t \<le> snd r \<and> fst r \<le> snd t \<longleftrightarrow> span t \<inter> span r \<noteq> {}"
proof -
  have "span t \<inter> span r = {max (fst t) (fst r)..min (snd t) (snd r)}" by (simp add: span_def)
  then show ?thesis using assms by auto
qed

lemma cut_span: "(\<exists>u \<in> set (cut r t). x \<in> span u) \<longleftrightarrow> x \<in> span t \<and> x \<notin> span r"
proof (cases "fst t \<le> snd t")
  case True
  then show ?thesis using difference_rest_ok [of "[r]" "fst t" "snd t"]
    by (auto simp: cut_def inclusive_difference_def inclusive_is_empty_def gaps_def span_def)
next
  case False
  then show ?thesis by (auto simp: cut_def inclusive_difference_def inclusive_is_empty_def span_def difference_rest.simps)
qed

interpretation listed: range_set list_rangemap
proof
  fix x :: u64 and r :: inclusive and s t :: "inclusive list"
  note d = list_rangemap_def
  show "\<not> rm_contains list_rangemap x (rm_new list_rangemap)" by (simp add: d)
  show "ascending (rm_iter list_rangemap s)" using merged_facts by (simp add: d)
  show "rm_contains list_rangemap x s \<longleftrightarrow> (\<exists>r \<in> set (rm_iter list_rangemap s). x \<in> span r)"
    using merged_facts(2) [of s x] by (simp add: list_contains) (simp add: d)
  show "rm_contains list_rangemap x (rm_union list_rangemap s t) \<longleftrightarrow> rm_contains list_rangemap x s \<or> rm_contains list_rangemap x t"
    by (auto simp: list_contains) (auto simp: d)
  show "rm_contains list_rangemap x (rm_intersection list_rangemap s t) \<longleftrightarrow>
      rm_contains list_rangemap x s \<and> rm_contains list_rangemap x t"
    by (auto simp: d list_ex_iff)
  show "rm_is_empty list_rangemap s \<longleftrightarrow> (\<forall>x. \<not> rm_contains list_rangemap x s)"
    by (auto simp: d list_ex_iff list_all_iff) (metis fst_conv snd_conv not_less order_refl)
  assume r: "fst r \<le> snd r"
  show "\<exists>s'. rm_insert list_rangemap r s = Inr s' \<and> (\<forall>x. rm_contains list_rangemap x s' \<longleftrightarrow> rm_contains list_rangemap x s \<or> x \<in> span r)"
    using r by (auto simp: d list_ex_iff span_def)
  show "\<exists>s'. rm_remove list_rangemap r s = Inr s' \<and> (\<forall>x. rm_contains list_rangemap x s' \<longleftrightarrow> rm_contains list_rangemap x s \<and> x \<notin> span r)"
  proof -
    have "(\<exists>u \<in> set (concat (map (cut r) s)). x \<in> span u) \<longleftrightarrow> (\<exists>t \<in> set s. x \<in> span t) \<and> x \<notin> span r" for x
      using cut_span [of r _ x] by auto
    then show ?thesis using r by (simp add: list_contains) (simp add: d)
  qed
  have meets: "fst t \<le> snd r \<and> fst r \<le> snd t \<longleftrightarrow> span t \<inter> span r \<noteq> {}" if "t \<in> set (merged s)" for t
    using span_meets [OF r, of t] merged_facts(1) [of s] that by (simp add: ascending_def)
  show "rm_overlapping list_rangemap r s = filter (\<lambda>t. span t \<inter> span r \<noteq> {}) (rm_iter list_rangemap s)"
    unfolding d using meets by (auto intro!: filter_cong)
  show "rm_overlaps list_rangemap r s \<longleftrightarrow> (\<exists>x \<in> span r. rm_contains list_rangemap x s)"
  proof -
    have "rm_overlaps list_rangemap r s \<longleftrightarrow> (\<exists>t \<in> set (merged s). span t \<inter> span r \<noteq> {})"
      unfolding d list_ex_iff using meets by auto
    also have "\<dots> \<longleftrightarrow> (\<exists>x \<in> span r. \<exists>t \<in> set (merged s). x \<in> span t)" by blast
    finally show ?thesis using merged_facts(2) [of s] by (simp add: list_contains)
  qed
qed

section \<open>Storage keys\<close>

lemma split_at_append: "length xs = n \<Longrightarrow> split_at_checked n (xs @ ys) = Some (xs, ys)"
  by (simp add: split_at_checked_def)

lemma decode_raw_encode: "decode_raw (encode_raw a @ rest) = Some (a, rest)"
proof -
  have "length (encode_raw a) = 8" by (simp add: encode_raw_def u64_to_be_bytes_def)
  then show ?thesis
    by (simp add: decode_raw_def split_at_append) (simp add: encode_raw_def u64_from_be_bytes_def u64_to_be_bytes_def le_value_le_digits)
qed

lemma decode_space_encode: "decode_space (encode_space s @ rest) = Some (s, rest)"
proof -
  have "length (encode_space s) = 2" by (simp add: encode_space_def)
  moreover have "unat s mod 65536 = unat s" using unat_lt_pow [of s] by simp
  ultimately show ?thesis
    by (simp add: decode_space_def split_at_append) (simp add: encode_space_def le_value_le_digits)
qed

lemma lexordp_append:
  fixes xs ys us vs :: "'a::linorder list"
  shows "length xs = length ys \<Longrightarrow> ord_class.lexordp (xs @ us) (ys @ vs) \<longleftrightarrow> ord_class.lexordp xs ys \<or> xs = ys \<and> ord_class.lexordp us vs"
  by (induction xs ys rule: list_induct2) (auto simp: lexordp_append_leftI)

lemma lexordp_be_digits: "u < 256 ^ n \<Longrightarrow> v < 256 ^ n \<Longrightarrow> ord_class.lexordp (rev (le_digits n u)) (rev (le_digits n v)) \<longleftrightarrow> u < v"
proof (induction n arbitrary: u v)
  case (Suc n)
  have small: "u div 256 < 256 ^ n" "v div 256 < 256 ^ n" using Suc.prems by (auto simp: less_mult_imp_div_less mult.commute)
  have "rev (le_digits n (u div 256)) = rev (le_digits n (v div 256)) \<longleftrightarrow> u div 256 = v div 256"
    using le_value_le_digits [of n "u div 256"] le_value_le_digits [of n "v div 256"] small by (metis mod_less rev_is_rev_conv)
  moreover have "(word_of_nat u :: u8) < word_of_nat v \<longleftrightarrow> u mod 256 < v mod 256" by (simp add: word_less_nat_alt unat_word_of_nat)
  moreover have "u < v \<longleftrightarrow> u div 256 < v div 256 \<or> u div 256 = v div 256 \<and> u mod 256 < v mod 256"
  proof -
    have "u = 256 * (u div 256) + u mod 256" "v = 256 * (v div 256) + v mod 256" "u mod 256 < 256" "v mod 256 < 256" by simp_all
    then show ?thesis by linarith
  qed
  ultimately show ?case using Suc.IH [OF small] by (simp add: lexordp_append)
qed simp

section \<open>Properties\<close>

text \<open>
  The storage key of an address can be read back from the front of any byte string, and byte
  strings of keys compare lexicographically as the addresses do: first by space, then by offset.
\<close>

theorem address_key_codec:
  "decode_address (encode_address a @ rest) = Some (a, rest) \<and>
   (ord_class.lexordp (encode_address a) (encode_address b) \<longleftrightarrow>
      space_of a < space_of b \<or> space_of a = space_of b \<and> raw_of a < raw_of b)"
proof -
  have space: "ord_class.lexordp (encode_space s) (encode_space t) \<longleftrightarrow> s < t" for s t
    using lexordp_be_digits [of "unat s" 2 "unat t"] unat_lt_pow [of s] unat_lt_pow [of t]
    by (simp add: encode_space_def word_less_nat_alt)
  have raw: "ord_class.lexordp (encode_raw x) (encode_raw y) \<longleftrightarrow> x < y" for x y
  proof -
    have "unat z < 256 ^ 8" for z :: u64 using unat_lt_u64 [of z] by simp
    then show ?thesis unfolding encode_raw_def u64_to_be_bytes_def word_less_nat_alt by (intro lexordp_be_digits)
  qed
  have eq: "encode_space s = encode_space t \<longleftrightarrow> s = t" for s t
  proof
    assume "encode_space s = encode_space t"
    then have "Some (s, [] :: u8 list) = Some (t, [])" using decode_space_encode [of s "[]"] decode_space_encode [of t "[]"] by metis
    then show "s = t" by simp
  qed simp
  have "length (encode_space s) = 2" for s by (simp add: encode_space_def)
  then show ?thesis
    by (simp add: encode_address_def decode_address_def decode_space_encode decode_raw_encode lexordp_append space raw eq)
qed

lemma card_addresses_of: "card (addresses_of r) = (if ar_is_empty r then 0 else Suc (unat (ar_end r) - unat (ar_start r)))"
proof -
  have "addresses_of r = (\<lambda>x. Address (ar_space r) x) ` {ar_start r..ar_end r}"
    by (auto simp: set_eq_iff address_iff image_iff)
  moreover have "inj (\<lambda>x. Address (ar_space r) x)" by (auto simp: inj_def)
  ultimately have "card (addresses_of r) = card {ar_start r..ar_end r}" by (simp add: card_image inj_on_def)
  also have "\<dots> = card (unat ` {ar_start r..ar_end r})"
    by (rule card_image [symmetric]) (auto simp: inj_on_def word_unat_eq_iff)
  also have "unat ` {ar_start r..ar_end r} = {unat (ar_start r)..unat (ar_end r)}"
  proof (intro equalityI subsetI)
    fix k assume k: "k \<in> {unat (ar_start r)..unat (ar_end r)}"
    then have "k \<le> unat (ar_end r)" by simp
    then have "k < 18446744073709551616" using unat_lt_u64 [of "ar_end r"] by linarith
    then have "unat (word_of_nat k :: u64) = k" by (simp add: unat_word_of_nat)
    then show "k \<in> unat ` {ar_start r..ar_end r}" using k by (intro image_eqI [of _ _ "word_of_nat k"]) (auto simp: word_le_nat_alt)
  qed (auto simp: word_le_nat_alt)
  finally show ?thesis by (auto simp: ar_is_empty_def word_less_nat_alt not_less Suc_diff_le)
qed

lemma checked_span:
  assumes "s \<le> (e :: u64)"
  shows "Option.bind (checked_sub e s) (\<lambda>n. checked_add n 1) = u64_try_from (Suc (unat e - unat s))"
proof -
  have "unat (e - s) = unat e - unat s" using assms by (simp add: unat_sub word_le_nat_alt)
  then show ?thesis using assms
    by (simp add: checked_sub_def checked_add_def u64_try_from_def word_unat_eq_iff unat_word_ariths unat_word_of_nat)
qed

lemma range_size_card: "range_size r = u64_try_from (card (addresses_of r))"
  by (auto simp: range_size_def inclusive_size_def inclusive_is_empty_def raw_range_def card_addresses_of ar_is_empty_def
      checked_offset_from_def checked_span u64_try_from_def)

text \<open>
  The counting queries of an address range: \<open>size\<close> is the number of its addresses and is
  \<open>None\<close> only when that number does not fit 64 bits (the whole space); \<open>remaining_from\<close> counts the
  addresses from the given one on; \<open>from_size\<close> returns a range of exactly the requested size, and
  \<open>None\<close> exactly for size zero and for a range that would pass the end of the space.
\<close>

theorem address_range_counts:
  "range_size r = u64_try_from (card (addresses_of r)) \<and>
   remaining_from r a =
     (if a \<in> addresses_of r then u64_try_from (card {b \<in> addresses_of r. raw_of a \<le> raw_of b}) else None) \<and>
   (case range_from_size a n of
      None \<Rightarrow> n = 0 \<or> 2 ^ 64 < unat (raw_of a) + unat n
    | Some r' \<Rightarrow> start_address r' = a \<and> card (addresses_of r') = unat n)"
proof (intro conjI)
  show "range_size r = u64_try_from (card (addresses_of r))" by (rule range_size_card)
  show "remaining_from r a =
      (if a \<in> addresses_of r then u64_try_from (card {b \<in> addresses_of r. raw_of a \<le> raw_of b}) else None)"
  proof (cases "a \<in> addresses_of r")
    case True
    obtain x where a: "a = Address (ar_space r) x" "ar_start r \<le> x" "x \<le> ar_end r" using True by (cases a) auto
    let ?t = "AddressRange (ar_space r) x (ar_end r)"
    have "{b \<in> addresses_of r. raw_of a \<le> raw_of b} = addresses_of ?t"
      unfolding set_eq_iff address_iff using a by auto
    then have "card {b \<in> addresses_of r. raw_of a \<le> raw_of b} = Suc (unat (ar_end r) - unat x)"
      using a(3) by (simp add: card_addresses_of ar_is_empty_def)
    then show ?thesis using True a(1) checked_span [OF a(3)]
      by (simp add: remaining_from_def addresses_of_def)
  qed (simp add: remaining_from_def addresses_of_def)
  show "case range_from_size a n of
      None \<Rightarrow> n = 0 \<or> 2 ^ 64 < unat (raw_of a) + unat n
    | Some r' \<Rightarrow> start_address r' = a \<and> card (addresses_of r') = unat n"
  proof (cases "n = 0")
    case False
    then have n: "unat (n - 1) = unat n - 1" "0 < unat n" "1 \<le> n" by (auto simp: unat_sub word_le_nat_alt unat_gt_0 Suc_le_eq)
    show ?thesis
    proof (cases "unat (raw_of a) + (unat n - 1) < 2 ^ 64")
      case True
      then have e: "unat (raw_of a + (n - 1)) = unat (raw_of a) + (unat n - 1)" using n(1) by (simp add: unat_word_ariths)
      then have "card (addresses_of (AddressRange (space_of a) (raw_of a) (raw_of a + (n - 1)))) = unat n"
        using n(2) by (simp add: card_addresses_of ar_is_empty_def word_less_nat_alt)
      then show ?thesis using True n by (simp add: range_from_size_def checked_sub_def checked_add_def start_address_def)
    next
      case big: False
      then show ?thesis using n False by (simp add: range_from_size_def checked_sub_def checked_add_def)
    qed
  qed (simp add: range_from_size_def checked_sub_def)
qed

text \<open>
  C13. Sets of address ranges implement sets of addresses, whatever the crate that stores the ranges
  of one space does within its contract: insertion, removal, union, intersection and difference
  return, keep the map of spaces ordered and have exactly the addresses of the set operation, and
  the queries decide membership, intersection with a range and emptiness.
\<close>

theorem address_range_set_refines:
  assumes "range_set rm" "bm_ok s" "bm_ok t"
  shows "(\<exists>d. set_difference rm s t = Inr d \<and> bm_ok d \<and> members rm d = members rm s - members rm t) \<and>
    bm_ok (set_union rm s t) \<and> members rm (set_union rm s t) = members rm s \<union> members rm t \<and>
    bm_ok (set_intersection rm s t) \<and> members rm (set_intersection rm s t) = members rm s \<inter> members rm t \<and>
    (\<exists>s'. set_insert_range rm r s = Inr s' \<and> bm_ok s' \<and> members rm s' = members rm s \<union> addresses_of r) \<and>
    (\<not> ar_is_empty r \<longrightarrow> (\<exists>s'. set_remove_range rm r s = Inr s' \<and> bm_ok s' \<and> members rm s' = members rm s - addresses_of r)) \<and>
    (\<Union>r \<in> set (set_ranges rm s). addresses_of r) = members rm s \<and>
    (set_intersects_range rm r s \<longleftrightarrow> members rm s \<inter> addresses_of r \<noteq> {}) \<and>
    (set_is_empty rm s \<longleftrightarrow> members rm s = {})"
  using range_set.members_difference [OF assms] range_set.members_union [OF assms] range_set.members_intersection [OF assms(1,2), of t]
    range_set.set_insert_range_ok [OF assms(1,2), of r] range_set.set_remove_range_ok [OF assms(1,2), of r]
    range_set.set_ranges_members [OF assms(1,2)] range_set.intersects_range_iff [OF assms(1), of r s]
    range_set.set_is_empty_iff [OF assms(1,2)] by blast

theorem address_range_set_refines_witness:
  "\<exists>d. set_difference list_rangemap [(0, [(0, 9)])] [(0, [(3, 4)])] = Inr d \<and>
     Address 0 2 \<in> members list_rangemap d \<and> Address 0 3 \<notin> members list_rangemap d \<and> Address 0 5 \<in> members list_rangemap d"
proof -
  let ?s = "[(0, [(0, 9)])] :: inclusive list address_range_set" and ?t = "[(0, [(3, 4)])] :: inclusive list address_range_set"
  have "bm_ok ?s" "bm_ok ?t" by (simp_all add: bm_ok_def)
  then obtain d where "set_difference list_rangemap ?s ?t = Inr d" "members list_rangemap d = members list_rangemap ?s - members list_rangemap ?t"
    using conjunct1 [OF address_range_set_refines [OF listed.range_set_axioms, of ?s ?t "AddressRange 0 0 0"]] by blast
  moreover have "Address 0 x \<in> members list_rangemap ?s \<longleftrightarrow> x \<le> 9" "Address 0 x \<in> members list_rangemap ?t \<longleftrightarrow> 3 \<le> x \<and> x \<le> 4" for x
    by (simp_all add: members_def set_contains_def list_rangemap_def)
  ultimately show ?thesis by simp
qed

end
