(* ===== verification/WorkQueue.thy ===== *)
theory WorkQueue
  imports Addresses "HOL-Library.Option_ord"
begin

text \<open>
  The work queue of the analysis engine, from \<open>fugue-core/src/engine/scheduler/work.rs\<close>, with the
  causes of work from \<open>fugue-core/src/engine/mod.rs\<close> and \<open>fugue-core/src/project/change.rs\<close>, the
  phases from \<open>fugue-core/src/project/analysis.rs\<close> and the scopes from
  \<open>fugue-core/src/ir/problem/mod.rs\<close>.

  The queue keeps its items twice: in order of their keys, and for each analyser by location. An
  operation that would break this panics in the code, and here.
\<close>

section \<open>Orders\<close>

datatype work_kind = Continuation | Region

definition kind_rank :: "work_kind \<Rightarrow> nat" where
  "kind_rank k = (case k of Region \<Rightarrow> 0 | Continuation \<Rightarrow> 1)"

instantiation work_kind :: linorder
begin

definition less_eq_work_kind :: "work_kind \<Rightarrow> work_kind \<Rightarrow> bool" where
  "less_eq_work_kind a b \<longleftrightarrow> kind_rank a \<le> kind_rank b"

definition less_work_kind :: "work_kind \<Rightarrow> work_kind \<Rightarrow> bool" where
  "less_work_kind a b \<longleftrightarrow> kind_rank a < kind_rank b"

instance
  by standard (auto simp: less_eq_work_kind_def less_work_kind_def kind_rank_def split: work_kind.splits)

end

datatype analysis_phase = Decode | Derive | Identify | Partition | Propagate | Retract

definition phase_rank :: "analysis_phase \<Rightarrow> nat" where
  "phase_rank p =
     (case p of Retract \<Rightarrow> 0 | Decode \<Rightarrow> 1 | Partition \<Rightarrow> 2 | Derive \<Rightarrow> 3 | Propagate \<Rightarrow> 4 | Identify \<Rightarrow> 5)"

instantiation analysis_phase :: linorder
begin

definition less_eq_analysis_phase :: "analysis_phase \<Rightarrow> analysis_phase \<Rightarrow> bool" where
  "less_eq_analysis_phase a b \<longleftrightarrow> phase_rank a \<le> phase_rank b"

definition less_analysis_phase :: "analysis_phase \<Rightarrow> analysis_phase \<Rightarrow> bool" where
  "less_analysis_phase a b \<longleftrightarrow> phase_rank a < phase_rank b"

instance
  by standard (auto simp: less_eq_analysis_phase_def less_analysis_phase_def phase_rank_def split: analysis_phase.splits)

end

text \<open>Addresses and ranges compare by their fields in order.\<close>

instantiation address :: linorder
begin

definition less_eq_address :: "address \<Rightarrow> address \<Rightarrow> bool" where
  "less_eq_address a b \<longleftrightarrow> (space_of a, raw_of a) \<le> (space_of b, raw_of b)"

definition less_address :: "address \<Rightarrow> address \<Rightarrow> bool" where
  "less_address a b \<longleftrightarrow> (space_of a, raw_of a) < (space_of b, raw_of b)"

instance
  by standard (auto simp: less_eq_address_def less_address_def address.expand)

end

instantiation address_range :: linorder
begin

definition less_eq_address_range :: "address_range \<Rightarrow> address_range \<Rightarrow> bool" where
  "less_eq_address_range a b \<longleftrightarrow> (ar_space a, ar_start a, ar_end a) \<le> (ar_space b, ar_start b, ar_end b)"

definition less_address_range :: "address_range \<Rightarrow> address_range \<Rightarrow> bool" where
  "less_address_range a b \<longleftrightarrow> (ar_space a, ar_start a, ar_end a) < (ar_space b, ar_start b, ar_end b)"

instance
  by standard (auto simp: less_eq_address_range_def less_address_range_def address_range.expand)

end

section \<open>Degradations\<close>

datatype problem_scope = ScopeAddress address | ScopeSpace address_space_id | ScopeGlobal | ScopeRange address_range

definition scope_space :: "problem_scope \<Rightarrow> address_space_id option" where
  "scope_space s =
     (case s of ScopeSpace sp \<Rightarrow> Some sp | ScopeAddress a \<Rightarrow> Some (space_of a) | ScopeRange r \<Rightarrow> Some (ar_space r)
      | ScopeGlobal \<Rightarrow> None)"

definition scope_covering :: "problem_scope \<Rightarrow> problem_scope \<Rightarrow> problem_scope" where
  "scope_covering s t =
     (if s = t then s
      else
        case (scope_space s, scope_space t) of
          (Some l, Some r) \<Rightarrow> if l = r then ScopeSpace l else ScopeGlobal
        | _ \<Rightarrow> ScopeGlobal)"

datatype degradation = CausesMerged | RangesCollapsed

record degradation_event =
  ev_kind :: degradation
  ev_scope :: problem_scope

type_synonym degradation_report = "degradation_event list"

fun report_push :: "degradation_report \<Rightarrow> degradation_event \<Rightarrow> degradation_report" where
  "report_push [] event = [event]"
| "report_push (existing # events) event =
     (if ev_kind existing = ev_kind event
      then existing\<lparr>ev_scope := scope_covering (ev_scope existing) (ev_scope event)\<rparr> # events
      else existing # report_push events event)"

definition report_extend :: "degradation_report \<Rightarrow> degradation_report \<Rightarrow> degradation_report" where
  "report_extend r other = foldl report_push r other"

section \<open>Causes and items\<close>

datatype change_category = Agent | Analysis | Engine | Other

record change_source =
  cs_category :: change_category
  cs_label :: string

type_synonym change_provenance = "change_source list"

definition provenance_merge :: "change_provenance \<Rightarrow> change_provenance \<Rightarrow> change_provenance" where
  "provenance_merge p other = foldl (\<lambda>p source. if source \<in> set p then p else p @ [source]) p other"

datatype work_trigger = Change | Dependency

record work_cause =
  wc_range :: "address_range option"
  wc_kind :: u32
  wc_provenance :: change_provenance
  wc_trigger :: work_trigger
  wc_revision :: u64

definition coarsen :: "work_cause \<Rightarrow> work_cause \<Rightarrow> work_cause" where
  "coarsen c other =
     \<lparr>wc_range =
        (case (wc_range c, wc_range other) of
           (Some l, Some r) \<Rightarrow>
             if ar_space l = ar_space r
             then Some (AddressRange (ar_space l) (min (ar_start l) (ar_start r)) (max (ar_end l) (ar_end r)))
             else if wc_range c = wc_range other then wc_range c else None
         | _ \<Rightarrow> if wc_range c = wc_range other then wc_range c else None),
      wc_kind = wc_kind c OR wc_kind other,
      wc_provenance = provenance_merge (wc_provenance c) (wc_provenance other),
      wc_trigger = (if wc_trigger other = Dependency then Dependency else wc_trigger c),
      wc_revision = (if wc_revision c < wc_revision other then wc_revision other else wc_revision c)\<rparr>"

definition MAX_WORK_ITEMS_PER_ANALYSER :: nat where
  "MAX_WORK_ITEMS_PER_ANALYSER = 4096"

definition MAX_WORK_ITEM_CAUSES :: nat where
  "MAX_WORK_ITEM_CAUSES = 256"

definition WORK_SLICE_BYTES :: u64 where
  "WORK_SLICE_BYTES = push_bit 20 1"

type_synonym work_key = "analysis_phase \<times> address option \<times> int \<times> u32 \<times> work_kind \<times> u64"

record work_item =
  wi_analyser :: nat
  wi_order :: u32
  wi_phase :: analysis_phase
  wi_priority :: int
  wi_range :: "address_range option"
  wi_causes :: "work_cause list"
  wi_attempts :: u8
  wi_kind :: work_kind

definition has_same_causes :: "work_item \<Rightarrow> work_item \<Rightarrow> bool" where
  "has_same_causes i j \<longleftrightarrow>
     length (wi_causes i) = length (wi_causes j) \<and> list_all (\<lambda>c. c \<in> set (wi_causes j)) (wi_causes i)"

definition with_range :: "work_item \<Rightarrow> address_range \<Rightarrow> work_item" where
  "with_range i r = i\<lparr>wi_range := Some r\<rparr>"

definition item_cost :: "work_item \<Rightarrow> u64 outcome" where
  "item_cost i = (case wi_range i of None \<Rightarrow> Inr 1 | Some r \<Rightarrow> expect (range_size r))"

definition item_scope :: "work_item \<Rightarrow> problem_scope" where
  "item_scope i = (case wi_range i of None \<Rightarrow> ScopeGlobal | Some r \<Rightarrow> ScopeRange r)"

definition item_regions :: "'r rangemap \<Rightarrow> work_item \<Rightarrow> 'r address_range_set outcome" where
  "item_regions rm i = (case wi_range i of None \<Rightarrow> Inr set_new | Some r \<Rightarrow> set_insert_range rm r set_new)"

definition item_key :: "work_item \<Rightarrow> work_key" where
  "item_key i =
     (wi_phase i, map_option start_address (wi_range i), wi_priority i, wi_order i, wi_kind i,
      case wi_range i of None \<Rightarrow> 0 | Some r \<Rightarrow> ar_end r)"

definition record_attempt :: "work_item \<Rightarrow> work_item" where
  "record_attempt i = i\<lparr>wi_attempts := (if wi_attempts i = - 1 then - 1 else wi_attempts i + 1)\<rparr>"

fun absorb :: "work_item \<Rightarrow> work_cause list \<Rightarrow> work_item \<times> bool" where
  "absorb i [] = (i, False)"
| "absorb i (c # cs) =
     (if c \<in> set (wi_causes i) then absorb i cs
      else if MAX_WORK_ITEM_CAUSES \<le> length (wi_causes i) then
        (let i = (case wi_causes i of
                    [] \<Rightarrow> i
                  | _ \<Rightarrow> i\<lparr>wi_causes := butlast (wi_causes i) @ [coarsen (last (wi_causes i)) c]\<rparr>)
         in (fst (absorb i cs), True))
      else absorb (i\<lparr>wi_causes := wi_causes i @ [c]\<rparr>) cs)"

section \<open>The queue\<close>

type_synonym location = "address_range option \<times> work_kind"

record work_queue =
  wq_items :: "(work_key, work_item) btree_map"
  wq_keys :: "(location, work_key) btree_map list"
  wq_degradations :: degradation_report

definition with_analysers :: "nat \<Rightarrow> work_queue" where
  "with_analysers n = \<lparr>wq_items = [], wq_keys = replicate n [], wq_degradations = []\<rparr>"

definition wq_is_empty :: "work_queue \<Rightarrow> bool" where
  "wq_is_empty q \<longleftrightarrow> wq_items q = []"

definition has_pending_for :: "work_queue \<Rightarrow> nat \<Rightarrow> bool" where
  "has_pending_for q analyser \<longleftrightarrow> analyser < length (wq_keys q) \<and> wq_keys q ! analyser \<noteq> []"

definition pending_for :: "'r rangemap \<Rightarrow> work_queue \<Rightarrow> nat \<Rightarrow> 'r address_range_set outcome" where
  "pending_for rm q analyser =
     (if analyser < length (wq_keys q) then
        fold_ok (\<lambda>((range, _), _) pending. case range of None \<Rightarrow> Inr pending | Some r \<Rightarrow> set_insert_range rm r pending)
          (wq_keys q ! analyser) set_new
      else Inr set_new)"

definition location_of :: "work_item \<Rightarrow> location" where
  "location_of i = (wi_range i, wi_kind i)"

definition insert_distinct :: "work_item \<Rightarrow> work_queue \<Rightarrow> work_queue outcome" where
  "insert_distinct i q =
     (if wi_analyser i < length (wq_keys q) then
        let keys = wq_keys q ! wi_analyser i in
        and_then (assert_or Panicked (map_of (wq_items q) (item_key i) = None \<and> map_of keys (location_of i) = None)) (\<lambda>_.
          Inr (q\<lparr>wq_items := bm_insert (item_key i) i (wq_items q),
                 wq_keys := (wq_keys q)[wi_analyser i := bm_insert (location_of i) (item_key i) keys]\<rparr>))
      else Inl IndexOutOfBounds)"

record collapsed_work =
  cw_causes_merged :: bool
  cw_item :: work_item
  cw_ranges_collapsed :: nat

definition merge_ranges :: "address_range option \<Rightarrow> address_range option \<Rightarrow> address_range option" where
  "merge_ranges current other =
     (case (current, other) of
        (Some c, Some r) \<Rightarrow> Some (AddressRange (ar_space c) (min (ar_start c) (ar_start r)) (max (ar_end c) (ar_end r)))
      | _ \<Rightarrow> current)"

definition collapse_into :: "collapsed_work \<Rightarrow> work_item \<Rightarrow> collapsed_work" where
  "collapse_into c i =
     (let same = has_same_causes (cw_item c) i; (item, merged) = absorb (cw_item c) (wi_causes i) in
      \<lparr>cw_causes_merged = (cw_causes_merged c \<or> \<not> same \<or> merged),
       cw_item = item\<lparr>wi_attempts := max (wi_attempts item) (wi_attempts i),
                      wi_priority := min (wi_priority item) (wi_priority i),
                      wi_range := merge_ranges (wi_range item) (wi_range i)\<rparr>,
       cw_ranges_collapsed = Suc (cw_ranges_collapsed c)\<rparr>)"

definition collapse_group :: "work_item \<Rightarrow> address_space_id option \<times> work_kind" where
  "collapse_group i = (map_option ar_space (wi_range i), wi_kind i)"

type_synonym collapsed_map = "(address_space_id option \<times> work_kind, collapsed_work) btree_map"

definition collapse_item :: "work_key \<Rightarrow> (work_key, work_item) btree_map \<times> collapsed_map \<Rightarrow>
    ((work_key, work_item) btree_map \<times> collapsed_map) outcome" where
  "collapse_item k = (\<lambda>(items, collapsed).
     and_then (expect (map_of items k)) (\<lambda>i.
       Inr (bm_remove k items,
         case map_of collapsed (collapse_group i) of
           Some c \<Rightarrow> bm_insert (collapse_group i) (collapse_into c i) collapsed
         | None \<Rightarrow> bm_insert (collapse_group i)
             \<lparr>cw_causes_merged = False, cw_item = i, cw_ranges_collapsed = 0\<rparr> collapsed)))"

definition collapsed_events :: "collapsed_work \<Rightarrow> degradation_report \<Rightarrow> degradation_report" where
  "collapsed_events c report =
     (let scope = item_scope (cw_item c);
          report = (if cw_causes_merged c then report_push report \<lparr>ev_kind = CausesMerged, ev_scope = scope\<rparr> else report)
      in if cw_ranges_collapsed c \<noteq> 0 then report_push report \<lparr>ev_kind = RangesCollapsed, ev_scope = scope\<rparr> else report)"

definition collapse :: "nat \<Rightarrow> work_queue \<Rightarrow> (degradation_report \<times> work_queue) outcome" where
  "collapse analyser q =
     (if analyser < length (wq_keys q) then
        and_then (fold_ok collapse_item (map snd (wq_keys q ! analyser)) (wq_items q, [])) (\<lambda>(items, collapsed).
          fold_ok (\<lambda>(_, c) (report, q). map_ok (\<lambda>q. (collapsed_events c report, q)) (insert_distinct (cw_item c) q))
            collapsed ([], q\<lparr>wq_items := items, wq_keys := (wq_keys q)[analyser := []]\<rparr>))
      else Inl ExpectFailed)"

definition promoted :: "work_item \<Rightarrow> work_item \<Rightarrow> work_item \<times> bool" where
  "promoted existing i =
     (let (e, merged) = absorb existing (wi_causes i) in
      (e\<lparr>wi_attempts := max (wi_attempts e) (wi_attempts i), wi_priority := min (wi_priority e) (wi_priority i)\<rparr>, merged))"

definition insert_work :: "work_item \<Rightarrow> work_queue \<Rightarrow> (degradation_report \<times> work_queue) outcome" where
  "insert_work i q =
     (if wi_analyser i < length (wq_keys q) then
        let keys = wq_keys q ! wi_analyser i in
        case Option.bind (map_of keys (location_of i)) (\<lambda>k. map_option (\<lambda>e. (k, e)) (map_of (wq_items q) k)) of
          Some (old_key, existing) \<Rightarrow>
            let items = bm_remove old_key (wq_items q); (e, merged) = promoted existing i in
            and_then (assert_or Panicked (map_of items (item_key e) = None)) (\<lambda>_.
              Inr (if merged then [\<lparr>ev_kind = CausesMerged, ev_scope = item_scope i\<rparr>] else [],
                   q\<lparr>wq_items := bm_insert (item_key e) e items,
                     wq_keys := (wq_keys q)[wi_analyser i := bm_insert (location_of i) (item_key e) keys]\<rparr>))
        | None \<Rightarrow>
            and_then (insert_distinct i q) (\<lambda>q.
              if MAX_WORK_ITEMS_PER_ANALYSER < length (wq_keys q ! wi_analyser i) then collapse (wi_analyser i) q
              else Inr ([], q))
      else Inl ExpectFailed)"

definition insert_reporting :: "work_item \<Rightarrow> degradation_report \<times> work_queue \<Rightarrow> (degradation_report \<times> work_queue) outcome" where
  "insert_reporting i = (\<lambda>(report, q). map_ok (\<lambda>(r, q). (report_extend report r, q)) (insert_work i q))"

definition region_item :: "nat \<Rightarrow> u32 \<Rightarrow> analysis_phase \<Rightarrow> int \<Rightarrow> (address_range option \<Rightarrow> work_cause) \<Rightarrow>
    address_range option \<Rightarrow> work_item" where
  "region_item analyser order phase priority cause rg =
     \<lparr>wi_analyser = analyser, wi_order = order, wi_phase = phase, wi_priority = priority, wi_range = rg,
      wi_causes = [cause rg], wi_attempts = 0, wi_kind = Region\<rparr>"

definition schedule :: "'r rangemap \<Rightarrow> nat \<Rightarrow> u32 \<Rightarrow> analysis_phase \<Rightarrow> int \<Rightarrow> 'r address_range_set \<Rightarrow>
    (address_range option \<Rightarrow> work_cause) \<Rightarrow> work_queue \<Rightarrow> (degradation_report \<times> work_queue) outcome" where
  "schedule rm analyser order phase priority regions cause q =
     fold_ok (\<lambda>rg. insert_reporting (region_item analyser order phase priority cause rg))
       (map Some (set_ranges rm regions) @ (if set_is_empty rm regions then [None] else [])) ([], q)"

definition requeue :: "work_item \<Rightarrow> work_queue \<Rightarrow> (degradation_report \<times> work_queue) outcome" where
  "requeue i q = insert_work i q"

definition requeue_continuation :: "work_item list \<Rightarrow> work_queue \<Rightarrow> (degradation_report \<times> work_queue) outcome" where
  "requeue_continuation items q = fold_ok (\<lambda>i. insert_reporting (i\<lparr>wi_kind := Continuation\<rparr>)) items ([], q)"

definition remove_location :: "work_item \<Rightarrow> work_queue \<Rightarrow> work_queue outcome" where
  "remove_location i q =
     (if wi_analyser i < length (wq_keys q) then
        Inr (q\<lparr>wq_keys := (wq_keys q)[wi_analyser i := bm_remove (location_of i) (wq_keys q ! wi_analyser i)]\<rparr>)
      else Inl IndexOutOfBounds)"

definition pop :: "u64 \<Rightarrow> work_queue \<Rightarrow> (work_item option \<times> work_queue) outcome" where
  "pop budget q =
     (if budget = 0 then Inr (None, q)
      else
        case wq_items q of
          [] \<Rightarrow> Inr (None, q)
        | (key, i) # _ \<Rightarrow>
            and_then (remove_location i (q\<lparr>wq_items := bm_remove key (wq_items q)\<rparr>)) (\<lambda>q.
              case wi_range i of
                None \<Rightarrow> Inr (Some i, q)
              | Some r \<Rightarrow>
                  if (case range_size r of None \<Rightarrow> True | Some n \<Rightarrow> budget < n) then
                    let split = raw_add (ar_start r) (budget - 1);
                        remainder = with_range i (AddressRange (ar_space r) (raw_add split 1) (ar_end r)) in
                    and_then (insert_work remainder q) (\<lambda>(report, q).
                      Inr (Some (with_range i (AddressRange (ar_space r) (ar_start r) split)),
                           q\<lparr>wq_degradations := report_extend (wq_degradations q) report\<rparr>))
                  else Inr (Some i, q)))"

definition add_u64 :: "u64 \<Rightarrow> u64 \<Rightarrow> u64 outcome" where
  "add_u64 a b = (case checked_add a b of None \<Rightarrow> Inl ArithmeticOverflow | Some n \<Rightarrow> Inr n)"

function pop_batch_loop :: "u64 \<Rightarrow> nat \<Rightarrow> work_item \<Rightarrow> u64 \<Rightarrow> work_item list \<Rightarrow> work_queue \<Rightarrow> (work_item list \<times> work_queue) outcome" where
  "pop_batch_loop budget max_items first spent batch q =
     (if length batch < max_items \<and> spent < budget then
        case wq_items q of
          [] \<Rightarrow> Inr (batch, q)
        | (key, candidate) # _ \<Rightarrow>
            if wi_analyser candidate \<noteq> wi_analyser first \<or> wi_phase candidate \<noteq> wi_phase first \<or>
               wi_kind candidate \<noteq> wi_kind first
            then Inr (batch, q)
            else
              and_then (pop (budget - spent) q) (\<lambda>(popped, q).
                case popped of
                  None \<Rightarrow> Inr (batch, q)
                | Some i \<Rightarrow>
                    and_then (item_cost i) (\<lambda>c.
                    and_then (add_u64 spent c) (\<lambda>spent.
                      pop_batch_loop budget max_items first spent (batch @ [i]) q)))
      else Inr (batch, q))"
  by pat_completeness auto

termination pop_batch_loop
  by (relation "measure (\<lambda>(_, max_items, _, _, batch, _). max_items - length batch)") auto

declare pop_batch_loop.simps [simp del]

definition pop_batch :: "u64 \<Rightarrow> nat \<Rightarrow> work_queue \<Rightarrow> (work_item list \<times> work_queue) outcome" where
  "pop_batch budget max_items q =
     and_then (pop budget q) (\<lambda>(popped, q).
       case popped of
         None \<Rightarrow> Inr ([], q)
       | Some i \<Rightarrow> and_then (item_cost i) (\<lambda>spent. pop_batch_loop budget max_items i spent [i] q))"

definition cancel_key :: "'r rangemap \<Rightarrow> 'r address_range_set \<Rightarrow> work_key \<Rightarrow> degradation_report \<times> work_queue \<Rightarrow>
    (degradation_report \<times> work_queue) outcome" where
  "cancel_key rm region key = (\<lambda>(report, q).
     case map_of (wq_items q) key of
       None \<Rightarrow> Inr (report, q)
     | Some i \<Rightarrow>
         and_then (remove_location i (q\<lparr>wq_items := bm_remove key (wq_items q)\<rparr>)) (\<lambda>q.
         and_then (item_regions rm i) (\<lambda>regions.
         and_then (set_difference rm regions region) (\<lambda>left.
           fold_ok (\<lambda>r. insert_reporting (with_range i r)) (set_ranges rm left) (report, q)))))"

definition cancel :: "'r rangemap \<Rightarrow> analysis_phase list \<Rightarrow> 'r address_range_set \<Rightarrow> work_queue \<Rightarrow>
    (degradation_report \<times> work_queue) outcome" where
  "cancel rm phases region q =
     fold_ok (cancel_key rm region)
       (map fst (filter (\<lambda>(_, i). wi_phase i \<in> set phases \<and>
          (case wi_range i of None \<Rightarrow> False | Some r \<Rightarrow> set_intersects_range rm r region)) (wq_items q)))
       ([], q)"

definition take_degradations :: "work_queue \<Rightarrow> degradation_report \<times> work_queue" where
  "take_degradations q = (wq_degradations q, q\<lparr>wq_degradations := []\<rparr>)"

section \<open>The invariant\<close>

text \<open>
  Every analyser has its own rank (\<open>order_of\<close>), which the engine assigns once. Items and locations
  name each other.
\<close>

definition item_ok :: "(nat \<Rightarrow> u32) \<Rightarrow> nat \<Rightarrow> work_item \<Rightarrow> bool" where
  "item_ok order_of n i \<longleftrightarrow> wi_analyser i < n \<and> wi_order i = order_of (wi_analyser i)"

definition maps_ok :: "(nat \<Rightarrow> u32) \<Rightarrow> nat \<Rightarrow> (work_key \<rightharpoonup> work_item) \<Rightarrow> (nat \<Rightarrow> location \<rightharpoonup> work_key) \<Rightarrow> bool" where
  "maps_ok order_of n I K \<longleftrightarrow>
     inj_on order_of {..<n} \<and>
     (\<forall>k i. I k = Some i \<longrightarrow> k = item_key i \<and> item_ok order_of n i \<and> K (wi_analyser i) (location_of i) = Some k) \<and>
     (\<forall>a < n. \<forall>loc k. K a loc = Some k \<longrightarrow> (\<exists>i. I k = Some i \<and> wi_analyser i = a \<and> location_of i = loc))"

definition wq_ok :: "(nat \<Rightarrow> u32) \<Rightarrow> work_queue \<Rightarrow> bool" where
  "wq_ok order_of q \<longleftrightarrow>
     bm_ok (wq_items q) \<and> (\<forall>keys \<in> set (wq_keys q). bm_ok keys) \<and>
     maps_ok order_of (length (wq_keys q)) (map_of (wq_items q)) (\<lambda>a. map_of (wq_keys q ! a))"

text \<open>The work that an item and a queue stand for; \<open>None\<close> is work without a range.\<close>

type_synonym work_unit = "nat \<times> work_kind \<times> address option"

definition item_work :: "work_item \<Rightarrow> work_unit set" where
  "item_work i =
     (\<lambda>x. (wi_analyser i, wi_kind i, x)) ` (case wi_range i of None \<Rightarrow> {None} | Some r \<Rightarrow> Some ` addresses_of r)"

definition queue_work :: "work_queue \<Rightarrow> work_unit set" where
  "queue_work q = (\<Union>i \<in> ran (map_of (wq_items q)). item_work i)"

definition collapsed_ranges :: "degradation_report \<Rightarrow> bool" where
  "collapsed_ranges report \<longleftrightarrow> RangesCollapsed \<in> ev_kind ` set report"

section \<open>The two indexes stay consistent\<close>

lemma item_key_determines:
  assumes "item_key i = item_key j"
  shows "wi_phase i = wi_phase j" "wi_priority i = wi_priority j" "wi_order i = wi_order j" "location_of i = location_of j"
proof -
  show "wi_phase i = wi_phase j" "wi_priority i = wi_priority j" "wi_order i = wi_order j" using assms by (simp_all add: item_key_def)
  have "wi_range i = wi_range j" using assms
    by (cases "wi_range i"; cases "wi_range j") (auto simp: item_key_def start_address_def intro: address_range.expand)
  then show "location_of i = location_of j" using assms by (simp add: item_key_def location_of_def)
qed

lemma maps_ok_put:
  assumes "maps_ok order_of n I K" "item_ok order_of n i" "K (wi_analyser i) (location_of i) = None"
  shows "I (item_key i) = None"
    "maps_ok order_of n (I(item_key i \<mapsto> i)) (K(wi_analyser i := (K (wi_analyser i))(location_of i \<mapsto> item_key i)))"
proof -
  have inj: "inj_on order_of {..<n}" using assms(1) by (simp add: maps_ok_def)
  have fresh: "item_key j \<noteq> item_key i" if "I k = Some j" for k j
  proof
    assume eq: "item_key j = item_key i"
    have j: "item_ok order_of n j" "K (wi_analyser j) (location_of j) = Some k"
      using assms(1) that unfolding maps_ok_def by blast+
    then have "wi_analyser j = wi_analyser i"
      using inj assms(2) item_key_determines(3) [OF eq] by (auto simp: item_ok_def inj_on_def)
    then show False using j(2) item_key_determines(4) [OF eq] assms(3) by simp
  qed
  show none: "I (item_key i) = None"
  proof (cases "I (item_key i)")
    case (Some j)
    then have "item_key i = item_key j" using assms(1) unfolding maps_ok_def by blast
    then show ?thesis using fresh [OF Some] by simp
  qed
  show "maps_ok order_of n (I(item_key i \<mapsto> i)) (K(wi_analyser i := (K (wi_analyser i))(location_of i \<mapsto> item_key i)))"
    using assms none unfolding maps_ok_def by (auto simp: fun_upd_def) (metis option.distinct(1))+
qed

lemma maps_ok_del:
  assumes "maps_ok order_of n I K" "I k = Some i"
  shows "maps_ok order_of n (I(k := None)) (K(wi_analyser i := (K (wi_analyser i))(location_of i := None)))"
proof -
  have i: "k = item_key i" "K (wi_analyser i) (location_of i) = Some k" using assms unfolding maps_ok_def by blast+
  have other: "wi_analyser j \<noteq> wi_analyser i \<or> location_of j \<noteq> location_of i" if "I k' = Some j" "k' \<noteq> k" for k' j
  proof -
    have "K (wi_analyser j) (location_of j) = Some k'" using assms(1) that(1) unfolding maps_ok_def by blast
    then show ?thesis using i(2) that(2) by auto
  qed
  show ?thesis using assms other unfolding maps_ok_def by (auto simp: fun_upd_def) (metis option.inject)+
qed

text \<open>The queue with an item put in, and with an item taken out.\<close>

definition placed :: "work_item \<Rightarrow> work_queue \<Rightarrow> work_queue" where
  "placed i q =
     q\<lparr>wq_items := bm_insert (item_key i) i (wq_items q),
       wq_keys := (wq_keys q)[wi_analyser i := bm_insert (location_of i) (item_key i) (wq_keys q ! wi_analyser i)]\<rparr>"

definition dropped :: "work_item \<Rightarrow> work_queue \<Rightarrow> work_queue" where
  "dropped i q =
     q\<lparr>wq_items := bm_remove (item_key i) (wq_items q),
       wq_keys := (wq_keys q)[wi_analyser i := bm_remove (location_of i) (wq_keys q ! wi_analyser i)]\<rparr>"

lemma keys_update: "a < length ks \<Longrightarrow> (\<lambda>b. map_of (ks[a := m] ! b)) = (\<lambda>b. map_of (ks ! b))(a := map_of m)"
  by (auto simp: fun_eq_iff nth_list_update)

lemma all_update: "\<forall>x \<in> set xs. P x \<Longrightarrow> P y \<Longrightarrow> \<forall>x \<in> set (xs[a := y]). P x"
  using set_update_subset_insert [of xs a y] by auto

lemma placed_fields [simp]:
  "length (wq_keys (placed i q)) = length (wq_keys q)" "wq_degradations (placed i q) = wq_degradations q"
  "length (wq_keys (dropped i q)) = length (wq_keys q)" "wq_degradations (dropped i q) = wq_degradations q"
  by (simp_all add: placed_def dropped_def)

lemma placed_items: "bm_ok (wq_items q) \<Longrightarrow> map_of (wq_items (placed i q)) = (map_of (wq_items q))(item_key i \<mapsto> i)"
  by (simp add: placed_def bm_get_insert)

lemma dropped_items: "bm_ok (wq_items q) \<Longrightarrow> map_of (wq_items (dropped i q)) = (map_of (wq_items q))(item_key i := None)"
  by (simp add: dropped_def bm_get_remove)

lemma wq_ok_placed:
  assumes "wq_ok order_of q" "item_ok order_of (length (wq_keys q)) i" "map_of (wq_keys q ! wi_analyser i) (location_of i) = None"
  shows "map_of (wq_items q) (item_key i) = None" "wq_ok order_of (placed i q)"
proof -
  have a: "wi_analyser i < length (wq_keys q)" using assms(2) by (simp add: item_ok_def)
  have q: "bm_ok (wq_items q)" "\<forall>keys \<in> set (wq_keys q). bm_ok keys"
    "maps_ok order_of (length (wq_keys q)) (map_of (wq_items q)) (\<lambda>a. map_of (wq_keys q ! a))"
    using assms(1) by (simp_all add: wq_ok_def)
  show "map_of (wq_items q) (item_key i) = None" by (rule maps_ok_put(1) [OF q(3) assms(2,3)])
  have k: "bm_ok (wq_keys q ! wi_analyser i)" using q(2) a by simp
  have "maps_ok order_of (length (wq_keys (placed i q))) (map_of (wq_items (placed i q))) (\<lambda>a. map_of (wq_keys (placed i q) ! a))"
    using maps_ok_put(2) [OF q(3) assms(2,3)] by (simp add: placed_def keys_update [OF a] bm_get_insert [OF q(1)] bm_get_insert [OF k])
  moreover have "\<forall>keys \<in> set (wq_keys (placed i q)). bm_ok keys"
    unfolding placed_def by simp (rule all_update [OF q(2) bm_ok_insert [OF k]])
  ultimately show "wq_ok order_of (placed i q)" using bm_ok_insert [OF q(1)] by (simp add: wq_ok_def placed_def)
qed

lemma wq_ok_dropped:
  assumes "wq_ok order_of q" "map_of (wq_items q) k = Some i"
  shows "k = item_key i" "item_ok order_of (length (wq_keys q)) i" "wq_ok order_of (dropped i q)"
    "map_of (wq_keys (dropped i q) ! wi_analyser i) (location_of i) = None"
    "remove_location i (q\<lparr>wq_items := bm_remove k (wq_items q)\<rparr>) = Inr (dropped i q)"
proof -
  have q: "bm_ok (wq_items q)" "\<forall>keys \<in> set (wq_keys q). bm_ok keys"
    "maps_ok order_of (length (wq_keys q)) (map_of (wq_items q)) (\<lambda>a. map_of (wq_keys q ! a))"
    using assms(1) by (simp_all add: wq_ok_def)
  show k: "k = item_key i" and i: "item_ok order_of (length (wq_keys q)) i" using q(3) assms(2) unfolding maps_ok_def by blast+
  have a: "wi_analyser i < length (wq_keys q)" using i by (simp add: item_ok_def)
  have b: "bm_ok (wq_keys q ! wi_analyser i)" using q(2) a by simp
  have "maps_ok order_of (length (wq_keys (dropped i q))) (map_of (wq_items (dropped i q))) (\<lambda>a. map_of (wq_keys (dropped i q) ! a))"
    using maps_ok_del [OF q(3) assms(2)] by (simp add: dropped_def keys_update [OF a] bm_get_remove [OF q(1)] bm_get_remove [OF b] k)
  moreover have "\<forall>keys \<in> set (wq_keys (dropped i q)). bm_ok keys"
    unfolding dropped_def by simp (rule all_update [OF q(2) bm_ok_remove [OF b]])
  ultimately show "wq_ok order_of (dropped i q)" using bm_ok_remove [OF q(1)] by (simp add: wq_ok_def dropped_def)
  show "map_of (wq_keys (dropped i q) ! wi_analyser i) (location_of i) = None" using a b by (simp add: dropped_def bm_get_remove)
  show "remove_location i (q\<lparr>wq_items := bm_remove k (wq_items q)\<rparr>) = Inr (dropped i q)"
    using a k by (simp add: remove_location_def dropped_def)
qed

lemma insert_distinct_ok:
  assumes "wq_ok order_of q" "item_ok order_of (length (wq_keys q)) i" "map_of (wq_keys q ! wi_analyser i) (location_of i) = None"
  shows "insert_distinct i q = Inr (placed i q)"
  using assms(2,3) wq_ok_placed(1) [OF assms] by (simp add: insert_distinct_def item_ok_def placed_def)

section \<open>Work is kept\<close>

lemma absorb_fields [simp]:
  "wi_analyser (fst (absorb i cs)) = wi_analyser i" "wi_order (fst (absorb i cs)) = wi_order i"
  "wi_phase (fst (absorb i cs)) = wi_phase i" "wi_priority (fst (absorb i cs)) = wi_priority i"
  "wi_range (fst (absorb i cs)) = wi_range i" "wi_attempts (fst (absorb i cs)) = wi_attempts i"
  "wi_kind (fst (absorb i cs)) = wi_kind i"
  by (induction i cs rule: absorb.induct; auto simp: Let_def split: list.splits)+

lemma promoted_fields [simp]:
  "wi_analyser (fst (promoted e i)) = wi_analyser e" "wi_order (fst (promoted e i)) = wi_order e"
  "wi_phase (fst (promoted e i)) = wi_phase e" "wi_range (fst (promoted e i)) = wi_range e"
  "wi_kind (fst (promoted e i)) = wi_kind e" "wi_priority (fst (promoted e i)) = min (wi_priority e) (wi_priority i)"
  by (simp_all add: promoted_def split: prod.splits) (metis absorb_fields fst_conv)+

lemma work_at_location: "wi_analyser e = wi_analyser i \<Longrightarrow> location_of e = location_of i \<Longrightarrow> item_work e = item_work i"
  by (simp add: location_of_def item_work_def)

lemma queue_work_placed:
  "bm_ok (wq_items q) \<Longrightarrow> map_of (wq_items q) (item_key i) = None \<Longrightarrow> queue_work (placed i q) = item_work i \<union> queue_work q"
  by (simp add: queue_work_def placed_items ran_map_upd)

lemma queue_work_dropped:
  assumes "bm_ok (wq_items q)" "map_of (wq_items q) (item_key i) = Some i"
  shows "queue_work q = item_work i \<union> queue_work (dropped i q)"
proof -
  let ?I = "(map_of (wq_items q))(item_key i := None)"
  have "map_of (wq_items q) = ?I(item_key i \<mapsto> i)" using assms(2) by (auto simp: fun_eq_iff)
  then have "ran (map_of (wq_items q)) = insert i (ran ?I)" using ran_map_upd [of ?I "item_key i" i] by simp
  then show ?thesis by (simp add: queue_work_def dropped_items [OF assms(1)])
qed

text \<open>Insertion at a location that has work replaces the item there; at any other, it adds the item.\<close>

lemma insert_work_present:
  assumes "wq_ok order_of q" "item_ok order_of (length (wq_keys q)) i" "map_of (wq_keys q ! wi_analyser i) (location_of i) = Some k"
  obtains e report where "map_of (wq_items q) k = Some e" "wi_analyser e = wi_analyser i" "location_of e = location_of i"
    "insert_work i q = Inr (report, placed (fst (promoted e i)) (dropped e q))" "\<not> collapsed_ranges report"
    "item_ok order_of (length (wq_keys q)) (fst (promoted e i))"
    "map_of (wq_keys (dropped e q) ! wi_analyser e) (location_of (fst (promoted e i))) = None"
proof -
  have a: "wi_analyser i < length (wq_keys q)" using assms(2) by (simp add: item_ok_def)
  have q: "bm_ok (wq_items q)" "bm_ok (wq_keys q ! wi_analyser i)"
    "maps_ok order_of (length (wq_keys q)) (map_of (wq_items q)) (\<lambda>a. map_of (wq_keys q ! a))"
    using assms(1) a by (simp_all add: wq_ok_def)
  obtain e where e: "map_of (wq_items q) k = Some e" "wi_analyser e = wi_analyser i" "location_of e = location_of i"
    using q(3) a assms(3) unfolding maps_ok_def by blast
  note d = wq_ok_dropped [OF assms(1) e(1)]
  let ?e = "fst (promoted e i)"
  have ok: "item_ok order_of (length (wq_keys q)) ?e" "location_of ?e = location_of e" using d(2) by (simp_all add: item_ok_def location_of_def)
  have free: "map_of (wq_keys (dropped e q) ! wi_analyser e) (location_of ?e) = None" using d(4) ok(2) by simp
  have new: "map_of (bm_remove k (wq_items q)) (item_key ?e) = None"
    using wq_ok_placed(1) [OF d(3), of ?e] ok free d(1) by (simp add: dropped_def)
  have "placed ?e (dropped e q) =
      q\<lparr>wq_items := bm_insert (item_key ?e) ?e (bm_remove k (wq_items q)),
        wq_keys := (wq_keys q)[wi_analyser i := bm_insert (location_of i) (item_key ?e) (wq_keys q ! wi_analyser i)]\<rparr>"
    using a d(1) e(2,3) ok(2) by (simp add: placed_def dropped_def bm_insert_remove [OF q(2)])
  then have "insert_work i q =
      Inr (if snd (promoted e i) then [\<lparr>ev_kind = CausesMerged, ev_scope = item_scope i\<rparr>] else [], placed ?e (dropped e q))"
    using a assms(3) e(1) new by (cases "promoted e i") (simp add: insert_work_def Let_def)
  then show thesis by (rule that [OF e _ _ ok(1) free]) (auto simp: collapsed_ranges_def)
qed

lemma insert_work_absent:
  assumes "wq_ok order_of q" "item_ok order_of (length (wq_keys q)) i" "map_of (wq_keys q ! wi_analyser i) (location_of i) = None"
  shows "insert_work i q =
    (if length (wq_keys q ! wi_analyser i) < MAX_WORK_ITEMS_PER_ANALYSER then Inr ([], placed i q)
     else collapse (wi_analyser i) (placed i q))"
proof -
  have a: "wi_analyser i < length (wq_keys q)" using assms(2) by (simp add: item_ok_def)
  then have "length (wq_keys (placed i q) ! wi_analyser i) = Suc (length (wq_keys q ! wi_analyser i))"
    using assms(1,3) by (simp add: placed_def wq_ok_def length_bm_insert_new)
  then show ?thesis using a assms(3) insert_distinct_ok [OF assms] by (simp add: insert_work_def Let_def less_Suc_eq_le not_le)
qed

section \<open>Collapsing an analyser's work\<close>

definition gathered :: "work_item \<Rightarrow> collapsed_map \<Rightarrow> collapsed_map" where
  "gathered i c =
     bm_insert (collapse_group i)
       (case map_of c (collapse_group i) of
          Some w \<Rightarrow> collapse_into w i
        | None \<Rightarrow> \<lparr>cw_causes_merged = False, cw_item = i, cw_ranges_collapsed = 0\<rparr>) c"

lemma collapse_items:
  assumes "bm_ok items" "distinct ks" "\<And>k. k \<in> set ks \<Longrightarrow> map_of items k = Some (f k)"
  shows "\<exists>items'. fold_ok collapse_item ks (items, c) = Inr (items', fold gathered (map f ks) c) \<and> bm_ok items' \<and>
    map_of items' = map_of items |` (- set ks)"
  using assms
proof (induction ks arbitrary: items c)
  case (Cons k ks)
  let ?items = "bm_remove k items"
  have step: "collapse_item k (items, c) = Inr (?items, gathered (f k) c)"
    using Cons.prems(3) by (simp add: collapse_item_def gathered_def split: option.splits)
  have "map_of ?items k' = Some (f k')" if "k' \<in> set ks" for k'
    using that Cons.prems by (auto simp: bm_get_remove [OF Cons.prems(1)])
  then obtain items' where "fold_ok collapse_item ks (?items, gathered (f k) c) = Inr (items', fold gathered (map f ks) (gathered (f k) c))"
      "bm_ok items'" "map_of items' = map_of ?items |` (- set ks)"
    using Cons.IH [OF bm_ok_remove [OF Cons.prems(1)], of k "gathered (f k) c"] Cons.prems(2) by force
  moreover have "(map_of items)(k := None) |` (- set ks) = map_of items |` (- set (k # ks))" by (auto simp: restrict_map_def fun_eq_iff)
  ultimately show ?case using step by (simp add: bm_get_remove [OF Cons.prems(1)])
qed (simp add: restrict_map_def)

text \<open>What the groups hold of the items that went into them.\<close>

definition groups_ok :: "(nat \<Rightarrow> u32) \<Rightarrow> nat \<Rightarrow> nat \<Rightarrow> work_item set \<Rightarrow> collapsed_map \<Rightarrow> bool" where
  "groups_ok order_of n a S c \<longleftrightarrow>
     bm_ok c \<and>
     (\<forall>g w. map_of c g = Some w \<longrightarrow>
        collapse_group (cw_item w) = g \<and> g \<in> collapse_group ` S \<and> wi_analyser (cw_item w) = a \<and> item_ok order_of n (cw_item w) \<and>
        (cw_ranges_collapsed w = 0 \<longrightarrow> {i \<in> S. collapse_group i = g} = {cw_item w})) \<and>
     (\<forall>i \<in> S. \<exists>w. map_of c (collapse_group i) = Some w \<and> item_work i \<subseteq> item_work (cw_item w))"

lemma collapse_into_fields [simp]:
  "wi_analyser (cw_item (collapse_into w i)) = wi_analyser (cw_item w)"
  "wi_order (cw_item (collapse_into w i)) = wi_order (cw_item w)"
  "wi_kind (cw_item (collapse_into w i)) = wi_kind (cw_item w)"
  "wi_range (cw_item (collapse_into w i)) = merge_ranges (wi_range (cw_item w)) (wi_range i)"
  "cw_ranges_collapsed (collapse_into w i) = Suc (cw_ranges_collapsed w)"
  using absorb_fields [of "cw_item w" "wi_causes i"]
  by (cases "absorb (cw_item w) (wi_causes i)"; simp add: collapse_into_def Let_def)+

lemma collapse_into_covers:
  assumes "collapse_group (cw_item w) = collapse_group i" "wi_analyser (cw_item w) = wi_analyser i"
  shows "collapse_group (cw_item (collapse_into w i)) = collapse_group i"
    "item_work (cw_item w) \<union> item_work i \<subseteq> item_work (cw_item (collapse_into w i))"
proof -
  show "collapse_group (cw_item (collapse_into w i)) = collapse_group i" using assms(1)
    by (auto simp: collapse_group_def merge_ranges_def split: option.splits)
  show "item_work (cw_item w) \<union> item_work i \<subseteq> item_work (cw_item (collapse_into w i))"
  proof (cases "wi_range (cw_item w)")
    case None
    then show ?thesis using assms by (auto simp: collapse_group_def item_work_def merge_ranges_def)
  next
    case (Some r)
    then obtain r' where r': "wi_range i = Some r'" "ar_space r' = ar_space r" using assms(1)
      by (cases "wi_range i") (auto simp: collapse_group_def)
    let ?m = "AddressRange (ar_space r) (min (ar_start r) (ar_start r')) (max (ar_end r) (ar_end r'))"
    have "addresses_of r \<subseteq> addresses_of ?m" "addresses_of r' \<subseteq> addresses_of ?m"
      unfolding subset_eq Ball_def address_iff using r'(2) by (auto simp: min_le_iff_disj le_max_iff_disj)
    then show ?thesis using assms Some r'(1) by (auto simp: collapse_group_def item_work_def merge_ranges_def)
  qed
qed

lemma groups_ok_gathered:
  assumes "groups_ok order_of n a S c" "item_ok order_of n i" "wi_analyser i = a"
  shows "groups_ok order_of n a (insert i S) (gathered i c)"
proof (cases "map_of c (collapse_group i)")
  case None
  then show ?thesis using assms unfolding groups_ok_def gathered_def by (auto simp: bm_get_insert bm_ok_insert)
next
  case (Some w)
  have c: "bm_ok c" "collapse_group (cw_item w) = collapse_group i" "wi_analyser (cw_item w) = wi_analyser i" "item_ok order_of n (cw_item w)"
    using assms Some unfolding groups_ok_def by blast+
  note cover = collapse_into_covers [OF c(2,3)]
  have "item_ok order_of n (cw_item (collapse_into w i))" using c(4) by (simp add: item_ok_def)
  then show ?thesis using assms Some cover c(1,3) unfolding groups_ok_def gathered_def
    by (auto simp: bm_get_insert bm_ok_insert) (metis (no_types, lifting) Un_subset_iff option.inject subset_eq)+
qed

lemma groups_ok_fold:
  assumes "groups_ok order_of n a S c" "\<And>i. i \<in> set xs \<Longrightarrow> item_ok order_of n i \<and> wi_analyser i = a"
  shows "groups_ok order_of n a (S \<union> set xs) (fold gathered xs c)"
  using assms
proof (induction xs arbitrary: S c)
  case (Cons i xs)
  then have "groups_ok order_of n a (insert i S \<union> set xs) (fold gathered xs (gathered i c))"
    by (intro Cons.IH groups_ok_gathered) auto
  then show ?case by simp
qed simp

lemma collapsed_report_push [simp]: "collapsed_ranges (report_push r e) \<longleftrightarrow> collapsed_ranges r \<or> ev_kind e = RangesCollapsed"
  by (induction r e rule: report_push.induct) (auto simp: collapsed_ranges_def)

lemma collapsed_report_extend [simp]: "collapsed_ranges (report_extend r s) \<longleftrightarrow> collapsed_ranges r \<or> collapsed_ranges s"
proof -
  have "collapsed_ranges (foldl report_push r s) \<longleftrightarrow> collapsed_ranges r \<or> (\<exists>e \<in> set s. ev_kind e = RangesCollapsed)"
    by (induction s arbitrary: r) auto
  moreover have "collapsed_ranges s \<longleftrightarrow> (\<exists>e \<in> set s. ev_kind e = RangesCollapsed)" by (force simp: collapsed_ranges_def)
  ultimately show ?thesis by (simp add: report_extend_def)
qed

lemma collapsed_events_iff [simp]: "collapsed_ranges (collapsed_events w r) \<longleftrightarrow> collapsed_ranges r \<or> cw_ranges_collapsed w \<noteq> 0"
  by (auto simp: collapsed_events_def Let_def)

definition location_group :: "location \<Rightarrow> address_space_id option \<times> work_kind" where
  "location_group loc = (map_option ar_space (fst loc), snd loc)"

lemma group_of_location [simp]: "location_group (location_of i) = collapse_group i"
  by (simp add: location_group_def location_of_def collapse_group_def)

lemma ran_placed:
  assumes "wq_ok order_of q" "item_ok order_of (length (wq_keys q)) i" "map_of (wq_keys q ! wi_analyser i) (location_of i) = None"
  shows "ran (map_of (wq_items (placed i q))) = insert i (ran (map_of (wq_items q)))"
  using wq_ok_placed(1) [OF assms] assms(1) by (simp add: placed_items wq_ok_def ran_map_upd)

lemma placed_keys:
  assumes "wq_ok order_of q" "item_ok order_of (length (wq_keys q)) i" "map_of (wq_keys q ! wi_analyser i) (location_of i) = None"
  shows "length (wq_keys (placed i q) ! wi_analyser i) = Suc (length (wq_keys q ! wi_analyser i))"
    "b \<noteq> wi_analyser i \<Longrightarrow> wq_keys (placed i q) ! b = wq_keys q ! b"
    "map_of (wq_keys (placed i q) ! wi_analyser i) = (map_of (wq_keys q ! wi_analyser i))(location_of i \<mapsto> item_key i)"
  using assms by (simp_all add: placed_def wq_ok_def item_ok_def length_bm_insert_new bm_get_insert)

text \<open>Putting the groups back never meets a location that is taken.\<close>

lemma place_groups:
  assumes "wq_ok order_of q" "distinct (map fst es)"
    "\<forall>(g, w) \<in> set es. collapse_group (cw_item w) = g \<and> wi_analyser (cw_item w) = a \<and> item_ok order_of (length (wq_keys q)) (cw_item w)"
    "\<forall>loc \<in> dom (map_of (wq_keys q ! a)). location_group loc \<notin> fst ` set es"
  shows "\<exists>report' q'. fold_ok (\<lambda>(_, c) (report, q). map_ok (\<lambda>q. (collapsed_events c report, q)) (insert_distinct (cw_item c) q)) es (report, q) =
      Inr (report', q') \<and> wq_ok order_of q' \<and> length (wq_keys q') = length (wq_keys q) \<and> wq_degradations q' = wq_degradations q \<and>
      length (wq_keys q' ! a) = length (wq_keys q ! a) + length es \<and> (\<forall>b. b \<noteq> a \<longrightarrow> wq_keys q' ! b = wq_keys q ! b) \<and>
      ran (map_of (wq_items q')) = ran (map_of (wq_items q)) \<union> cw_item ` snd ` set es \<and>
      (collapsed_ranges report' \<longleftrightarrow> collapsed_ranges report \<or> (\<exists>w \<in> snd ` set es. cw_ranges_collapsed w \<noteq> 0))"
  using assms
proof (induction es arbitrary: q report)
  case (Cons e es)
  obtain g w where e: "e = (g, w)" by (cases e)
  let ?i = "cw_item w"
  have i: "collapse_group ?i = g" "wi_analyser ?i = a" "item_ok order_of (length (wq_keys q)) ?i" using Cons.prems(3) e by auto
  have free: "map_of (wq_keys q ! wi_analyser ?i) (location_of ?i) = None"
  proof (rule ccontr)
    assume "map_of (wq_keys q ! wi_analyser ?i) (location_of ?i) \<noteq> None"
    then obtain k where "map_of (wq_keys q ! a) (location_of ?i) = Some k" using i(2) by auto
    then have "collapse_group ?i \<notin> fst ` set (e # es)" using Cons.prems(4) by (metis domI group_of_location)
    then show False using i(1) e by simp
  qed
  note put = wq_ok_placed [OF Cons.prems(1) i(3) free] ran_placed [OF Cons.prems(1) i(3) free] placed_keys [OF Cons.prems(1) i(3) free]
  have taken: "\<forall>loc \<in> dom (map_of (wq_keys (placed ?i q) ! a)). location_group loc \<notin> fst ` set es"
    using Cons.prems(2,4) put(6) i(1,2) e by auto
  have each: "\<forall>(g, w) \<in> set es. collapse_group (cw_item w) = g \<and> wi_analyser (cw_item w) = a \<and>
      item_ok order_of (length (wq_keys (placed ?i q))) (cw_item w)" using Cons.prems(3) by simp
  have dist: "distinct (map fst es)" using Cons.prems(2) by simp
  have "map_ok (\<lambda>q. (collapsed_events w report, q)) (insert_distinct ?i q) = Inr (collapsed_events w report, placed ?i q)"
    using insert_distinct_ok [OF Cons.prems(1) i(3) free] by simp
  moreover obtain report' q' where "fold_ok (\<lambda>(_, c) (report, q). map_ok (\<lambda>q. (collapsed_events c report, q)) (insert_distinct (cw_item c) q)) es
      (collapsed_events w report, placed ?i q) = Inr (report', q')" "wq_ok order_of q'" "length (wq_keys q') = length (wq_keys q)"
      "wq_degradations q' = wq_degradations q" "length (wq_keys q' ! a) = length (wq_keys (placed ?i q) ! a) + length es"
      "\<forall>b. b \<noteq> a \<longrightarrow> wq_keys q' ! b = wq_keys (placed ?i q) ! b"
      "ran (map_of (wq_items q')) = ran (map_of (wq_items (placed ?i q))) \<union> cw_item ` snd ` set es"
      "collapsed_ranges report' \<longleftrightarrow> collapsed_ranges (collapsed_events w report) \<or> (\<exists>w \<in> snd ` set es. cw_ranges_collapsed w \<noteq> 0)"
    using Cons.IH [where report = "collapsed_events w report", OF put(2) dist each taken] by auto
  ultimately show ?case using put i(2) e by auto
qed simp

lemma analyser_items:
  assumes "wq_ok order_of q" "a < length (wq_keys q)"
  shows "distinct (map snd (wq_keys q ! a))"
    "k \<in> set (map snd (wq_keys q ! a)) \<longleftrightarrow> (\<exists>i. map_of (wq_items q) k = Some i \<and> wi_analyser i = a)"
proof -
  have q: "bm_ok (wq_keys q ! a)" "maps_ok order_of (length (wq_keys q)) (map_of (wq_items q)) (\<lambda>a. map_of (wq_keys q ! a))"
    using assms by (simp_all add: wq_ok_def)
  have mem: "(loc, k) \<in> set (wq_keys q ! a) \<longleftrightarrow> (\<exists>i. map_of (wq_items q) k = Some i \<and> wi_analyser i = a \<and> location_of i = loc)" for loc k
    using q(2) assms(2) bm_entries [OF q(1), of loc k] unfolding maps_ok_def by metis
  show "k \<in> set (map snd (wq_keys q ! a)) \<longleftrightarrow> (\<exists>i. map_of (wq_items q) k = Some i \<and> wi_analyser i = a)"
    unfolding set_map image_iff using mem [of _ k] by (metis prod.collapse snd_conv)
  have "distinct (wq_keys q ! a)" using q(1) by (simp add: bm_ok_def strict_sorted_iff distinct_map)
  moreover have "inj_on snd (set (wq_keys q ! a))"
  proof (rule inj_onI)
    fix x y assume "x \<in> set (wq_keys q ! a)" "y \<in> set (wq_keys q ! a)" "snd x = snd y"
    then have "fst x = fst y" using mem [of "fst x" "snd x"] mem [of "fst y" "snd y"] by (metis option.inject prod.collapse)
    then show "x = y" using \<open>snd x = snd y\<close> by (rule prod_eqI)
  qed
  ultimately show "distinct (map snd (wq_keys q ! a))" by (simp add: distinct_map)
qed

text \<open>The queue without the work of one analyser.\<close>

lemma maps_ok_clear:
  assumes "maps_ok order_of n I K" "\<And>k. k \<in> S \<longleftrightarrow> (\<exists>i. I k = Some i \<and> wi_analyser i = a)"
  shows "maps_ok order_of n (I |` (- S)) (K(a := Map.empty))" "ran (I |` (- S)) = {i \<in> ran I. wi_analyser i \<noteq> a}"
proof -
  have restrict: "(I |` (- S)) k = Some i \<longleftrightarrow> I k = Some i \<and> wi_analyser i \<noteq> a" for k i
    using assms(2) [of k] by (auto simp: restrict_map_def)
  show "ran (I |` (- S)) = {i \<in> ran I. wi_analyser i \<noteq> a}" unfolding ran_def restrict by blast
  show "maps_ok order_of n (I |` (- S)) (K(a := Map.empty))"
    using assms(1) unfolding maps_ok_def restrict by (simp add: fun_upd_def del: split_paired_All) blast
qed

lemma groups_ok_Nil: "groups_ok order_of n a {} []"
  by (simp add: groups_ok_def)

lemma collapse_ok:
  assumes "wq_ok order_of q" "a < length (wq_keys q)"
  obtains report q' c where "collapse a q = Inr (report, q')" "wq_ok order_of q'" "length (wq_keys q') = length (wq_keys q)"
    "wq_degradations q' = wq_degradations q" "\<forall>b. b \<noteq> a \<longrightarrow> wq_keys q' ! b = wq_keys q ! b"
    "groups_ok order_of (length (wq_keys q)) a {i \<in> ran (map_of (wq_items q)). wi_analyser i = a} c"
    "ran (map_of (wq_items q')) = {i \<in> ran (map_of (wq_items q)). wi_analyser i \<noteq> a} \<union> cw_item ` ran (map_of c)"
    "length (wq_keys q' ! a) = card (dom (map_of c))"
    "collapsed_ranges report \<longleftrightarrow> (\<exists>w \<in> ran (map_of c). cw_ranges_collapsed w \<noteq> 0)"
proof -
  let ?ks = "map snd (wq_keys q ! a)" and ?f = "\<lambda>k. the (map_of (wq_items q) k)"
  have q: "bm_ok (wq_items q)" "\<forall>keys \<in> set (wq_keys q). bm_ok keys"
    "maps_ok order_of (length (wq_keys q)) (map_of (wq_items q)) (\<lambda>a. map_of (wq_keys q ! a))" using assms(1) by (simp_all add: wq_ok_def)
  note ks = analyser_items [OF assms]
  have f: "map_of (wq_items q) k = Some (?f k)" if "k \<in> set ?ks" for k using ks(2) [of k] that by force
  obtain items where items: "fold_ok collapse_item ?ks (wq_items q, []) = Inr (items, fold gathered (map ?f ?ks) [])"
      "bm_ok items" "map_of items = map_of (wq_items q) |` (- set ?ks)"
    using collapse_items [OF q(1) ks(1) f] by blast
  define c where "c = fold gathered (map ?f ?ks) []"
  let ?q = "q\<lparr>wq_items := items, wq_keys := (wq_keys q)[a := []]\<rparr>"
  have all: "set (map ?f ?ks) = {i \<in> ran (map_of (wq_items q)). wi_analyser i = a}"
  proof (intro equalityI subsetI)
    fix i assume "i \<in> set (map ?f ?ks)"
    then obtain k where "k \<in> set ?ks" "i = ?f k" unfolding set_map [of ?f] by blast
    then show "i \<in> {i \<in> ran (map_of (wq_items q)). wi_analyser i = a}" using ks(2) [of k] f [of k] by (auto intro: ranI)
  next
    fix i assume "i \<in> {i \<in> ran (map_of (wq_items q)). wi_analyser i = a}"
    then obtain k where k: "map_of (wq_items q) k = Some i" "wi_analyser i = a" unfolding ran_def by blast
    then have "k \<in> set ?ks" using ks(2) [of k] by blast
    then show "i \<in> set (map ?f ?ks)" unfolding set_map [of ?f] using k(1) by (intro image_eqI [of _ _ k]) simp_all
  qed
  have "item_ok order_of (length (wq_keys q)) i \<and> wi_analyser i = a" if "i \<in> set (map ?f ?ks)" for i
    using that q(3) unfolding all maps_ok_def ran_def by blast
  then have groups: "groups_ok order_of (length (wq_keys q)) a {i \<in> ran (map_of (wq_items q)). wi_analyser i = a} c"
    unfolding c_def using groups_ok_fold [OF groups_ok_Nil, of "map ?f ?ks" order_of "length (wq_keys q)" a] unfolding all Un_empty_left by blast
  note clear = maps_ok_clear [OF q(3), of "set ?ks" a, OF ks(2)]
  have ok: "wq_ok order_of ?q"
    using items clear(1) all_update [OF q(2), of "[]" a] by (simp add: wq_ok_def keys_update [OF assms(2)] fun_upd_def cong: if_cong)
  have "bm_ok c" using groups by (simp add: groups_ok_def)
  then have dist: "distinct (map fst c)" by (simp add: bm_ok_def strict_sorted_iff)
  then have ran_c: "snd ` set c = ran (map_of c)" "length c = card (dom (map_of c))"
    using distinct_card [OF dist] by (simp_all add: ran_distinct dom_map_of_conv_image_fst)
  have "collapse_group (cw_item w) = g \<and> wi_analyser (cw_item w) = a \<and> item_ok order_of (length (wq_keys q)) (cw_item w)"
    if "(g, w) \<in> set c" for g w
  proof -
    have "map_of c g = Some w" using that bm_entries [OF \<open>bm_ok c\<close>] by simp
    then show ?thesis using groups unfolding groups_ok_def by blast
  qed
  then have each: "\<forall>(g, w) \<in> set c. collapse_group (cw_item w) = g \<and> wi_analyser (cw_item w) = a \<and>
      item_ok order_of (length (wq_keys ?q)) (cw_item w)" by auto
  have free: "\<forall>loc \<in> dom (map_of (wq_keys ?q ! a)). location_group loc \<notin> fst ` set c" using assms(2) by simp
  obtain report q' where fin: "fold_ok (\<lambda>(_, c) (report, q). map_ok (\<lambda>q. (collapsed_events c report, q)) (insert_distinct (cw_item c) q)) c
      ([], ?q) = Inr (report, q')" "wq_ok order_of q'" "length (wq_keys q') = length (wq_keys ?q)"
      "wq_degradations q' = wq_degradations ?q" "length (wq_keys q' ! a) = length (wq_keys ?q ! a) + length c"
      "\<forall>b. b \<noteq> a \<longrightarrow> wq_keys q' ! b = wq_keys ?q ! b"
      "ran (map_of (wq_items q')) = ran (map_of (wq_items ?q)) \<union> cw_item ` snd ` set c"
      "collapsed_ranges report \<longleftrightarrow> collapsed_ranges [] \<or> (\<exists>w \<in> snd ` set c. cw_ranges_collapsed w \<noteq> 0)"
    using place_groups [where report = "[]", OF ok dist each free] by (elim exE conjE) (rule that; assumption)
  show thesis
  proof (rule that)
    show "collapse a q = Inr (report, q')" using assms(2) items(1) fin(1) by (simp add: collapse_def c_def)
    show "ran (map_of (wq_items q')) = {i \<in> ran (map_of (wq_items q)). wi_analyser i \<noteq> a} \<union> cw_item ` ran (map_of c)"
      using fin(7) items(3) clear(2) by (simp add: ran_c)
    show "wq_ok order_of q'" "groups_ok order_of (length (wq_keys q)) a {i \<in> ran (map_of (wq_items q)). wi_analyser i = a} c"
      by (fact fin(2), fact groups)
    show "length (wq_keys q') = length (wq_keys q)" "wq_degradations q' = wq_degradations q"
      "\<forall>b. b \<noteq> a \<longrightarrow> wq_keys q' ! b = wq_keys q ! b" "length (wq_keys q' ! a) = card (dom (map_of c))"
      using fin(3-6) assms(2) ran_c(2) by simp_all
    show "collapsed_ranges report \<longleftrightarrow> (\<exists>w \<in> ran (map_of c). cw_ranges_collapsed w \<noteq> 0)"
      using fin(8) unfolding ran_c(1) by (simp add: collapsed_ranges_def)
  qed
qed

section \<open>Insertion\<close>

text \<open>
  How an operation may change the work of a queue, \<open>W\<close> to \<open>W'\<close>, when it degrades only the analysers
  \<open>A\<close>: no work is lost, and work is added only to those analysers and only when the report says so.
\<close>

definition covers :: "nat set \<Rightarrow> degradation_report \<Rightarrow> work_unit set \<Rightarrow> work_unit set \<Rightarrow> bool" where
  "covers A report W W' \<longleftrightarrow>
     W \<subseteq> W' \<and> (\<forall>u \<in> W'. fst u \<notin> A \<longrightarrow> u \<in> W) \<and> (\<not> collapsed_ranges report \<longrightarrow> W' = W)"

text \<open>The address spaces that the work of a queue is in, and the bound on the number of its items.\<close>

definition item_in :: "address_space_id set \<Rightarrow> work_item \<Rightarrow> bool" where
  "item_in S i \<longleftrightarrow> (case wi_range i of None \<Rightarrow> True | Some r \<Rightarrow> ar_space r \<in> S)"

definition wq_bounded :: "address_space_id set \<Rightarrow> work_queue \<Rightarrow> bool" where
  "wq_bounded S q \<longleftrightarrow>
     (\<forall>keys \<in> set (wq_keys q). length keys \<le> MAX_WORK_ITEMS_PER_ANALYSER) \<and> (\<forall>i \<in> ran (map_of (wq_items q)). item_in S i)"

lemma covers_refl [simp]: "covers A report W W"
  by (simp add: covers_def)

lemma covers_trans:
  "covers A r1 W W1 \<Longrightarrow> covers A r2 (W1 \<union> V) W2 \<Longrightarrow> (collapsed_ranges r1 \<or> collapsed_ranges r2 \<Longrightarrow> collapsed_ranges r) \<Longrightarrow>
   covers A r (W \<union> V) W2"
  by (auto simp: covers_def)

lemma item_in_group: "item_in S i \<longleftrightarrow> fst (collapse_group i) \<in> insert None (Some ` S)"
  by (auto simp: item_in_def collapse_group_def split: option.splits)

lemma units_of_item: "u \<in> item_work i \<Longrightarrow> fst u = wi_analyser i"
  by (auto simp: item_work_def)

lemma groups_uncollapsed:
  assumes "groups_ok order_of n a {i \<in> I. wi_analyser i = a} c"
  shows "w \<in> ran (map_of c) \<Longrightarrow> cw_ranges_collapsed w = 0 \<Longrightarrow> cw_item w \<in> I"
    "i \<in> I \<Longrightarrow> wi_analyser i = a \<Longrightarrow> \<forall>w \<in> ran (map_of c). cw_ranges_collapsed w = 0 \<Longrightarrow> i \<in> cw_item ` ran (map_of c)"
proof -
  have only: "{i \<in> {i \<in> I. wi_analyser i = a}. collapse_group i = g} = {cw_item w}"
    if "map_of c g = Some w" "cw_ranges_collapsed w = 0" for g w using that assms unfolding groups_ok_def by blast
  show "cw_item w \<in> I" if w: "w \<in> ran (map_of c)" "cw_ranges_collapsed w = 0"
  proof -
    obtain g where "map_of c g = Some w" using w(1) unfolding ran_def by blast
    then show ?thesis using only [of g w] w(2) by blast
  qed
  show "i \<in> cw_item ` ran (map_of c)" if i: "i \<in> I" "wi_analyser i = a" "\<forall>w \<in> ran (map_of c). cw_ranges_collapsed w = 0"
  proof -
    obtain w where w: "map_of c (collapse_group i) = Some w" using i(1,2) assms unfolding groups_ok_def by blast
    then have ran: "w \<in> ran (map_of c)" by (rule ranI)
    then have "cw_ranges_collapsed w = 0" using i(3) by blast
    from only [OF w this] have "j = cw_item w" if "j \<in> {j \<in> {j \<in> I. wi_analyser j = a}. collapse_group j = collapse_group i}" for j
      using that by blast
    moreover have "i \<in> {j \<in> {j \<in> I. wi_analyser j = a}. collapse_group j = collapse_group i}" using i(1,2) by simp
    ultimately have "i = cw_item w" by blast
    then show ?thesis using ran by (rule image_eqI)
  qed
qed

lemma collapse_covers:
  assumes "groups_ok order_of n a {i \<in> ran I. wi_analyser i = a} c" "J = {i \<in> ran I. wi_analyser i \<noteq> a} \<union> cw_item ` ran (map_of c)"
    "collapsed_ranges report \<longleftrightarrow> (\<exists>w \<in> ran (map_of c). cw_ranges_collapsed w \<noteq> 0)"
  shows "covers {a} report (\<Union>i \<in> ran I. item_work i) (\<Union>i \<in> J. item_work i)"
proof -
  have w: "wi_analyser (cw_item w) = a" if "w \<in> ran (map_of c)" for w
    using that assms(1) unfolding groups_ok_def ran_def by blast
  have "item_work i \<subseteq> (\<Union>i \<in> J. item_work i)" if "i \<in> ran I" for i
  proof (cases "wi_analyser i = a")
    case True
    then have "i \<in> {i \<in> ran I. wi_analyser i = a}" using that by simp
    then obtain w where "map_of c (collapse_group i) = Some w" "item_work i \<subseteq> item_work (cw_item w)"
      using assms(1) unfolding groups_ok_def by meson
    moreover from this(1) have "cw_item w \<in> J" unfolding assms(2) by (intro UnI2 imageI ranI)
    ultimately show ?thesis by blast
  qed (use that assms(2) in blast)
  moreover have "item_work i \<subseteq> (\<Union>i \<in> ran I. item_work i)" if "i \<in> J" "wi_analyser i \<noteq> a \<or> \<not> collapsed_ranges report" for i
    using that w groups_uncollapsed(1) [OF assms(1)] unfolding assms(2,3) by blast
  ultimately show ?thesis unfolding covers_def using units_of_item by (auto simp: subset_iff)
qed

lemma groups_bounded:
  assumes "groups_ok order_of n a {i \<in> I. wi_analyser i = a} c" "\<forall>i \<in> I. item_in S i"
  shows "card (dom (map_of c)) \<le> 2 * Suc (card S)" "w \<in> ran (map_of c) \<Longrightarrow> item_in S (cw_item w)"
proof -
  have groups: "collapse_group (cw_item w) = g \<and> g \<in> collapse_group ` I" if "map_of c g = Some w" for g w
    using that assms(1) unfolding groups_ok_def by blast
  let ?G = "insert None (Some ` S) \<times> {Continuation, Region}"
  have in_G: "g \<in> ?G" if "g \<in> collapse_group ` I" for g
    using that assms(2) by (auto simp: item_in_group collapse_group_def) (metis work_kind.exhaust)+
  have "dom (map_of c) \<subseteq> ?G" using groups in_G by blast
  then have "card (dom (map_of c)) \<le> card ?G" by (intro card_mono) simp_all
  also have "\<dots> = 2 * Suc (card S)" by (simp add: card_cartesian_product card_insert_if card_image)
  finally show "card (dom (map_of c)) \<le> 2 * Suc (card S)" .
  show "item_in S (cw_item w)" if "w \<in> ran (map_of c)"
  proof -
    obtain g where "map_of c g = Some w" using \<open>w \<in> ran (map_of c)\<close> by (auto simp: ran_def)
    then show ?thesis unfolding item_in_group using groups [of g w] in_G [of g] by (metis mem_Times_iff)
  qed
qed

lemma dropped_keys:
  assumes "wq_ok order_of q" "map_of (wq_items q) k = Some i"
  shows "length (wq_keys q ! wi_analyser i) = Suc (length (wq_keys (dropped i q) ! wi_analyser i))"
    "b \<noteq> wi_analyser i \<Longrightarrow> wq_keys (dropped i q) ! b = wq_keys q ! b"
    "ran (map_of (wq_items q)) = insert i (ran (map_of (wq_items (dropped i q))))"
proof -
  note d = wq_ok_dropped [OF assms]
  have a: "wi_analyser i < length (wq_keys q)" using d(2) by (simp add: item_ok_def)
  have q: "bm_ok (wq_items q)" "bm_ok (wq_keys q ! wi_analyser i)" using assms(1) a by (simp_all add: wq_ok_def)
  have loc: "map_of (wq_keys q ! wi_analyser i) (location_of i) = Some k" using assms unfolding wq_ok_def maps_ok_def by blast
  then have "bm_insert (location_of i) k (bm_remove (location_of i) (wq_keys q ! wi_analyser i)) = wq_keys q ! wi_analyser i"
    using q(2) by (intro bm_eqI) (auto simp: bm_ok_insert bm_ok_remove bm_get_insert bm_get_remove)
  then show "length (wq_keys q ! wi_analyser i) = Suc (length (wq_keys (dropped i q) ! wi_analyser i))"
    using length_bm_insert_new [OF bm_ok_remove [OF q(2)], of "location_of i" "location_of i" k] q(2) a by (simp add: dropped_def bm_get_remove)
  show "wq_keys (dropped i q) ! b = wq_keys q ! b" if "b \<noteq> wi_analyser i" using that by (simp add: dropped_def)
  let ?I = "(map_of (wq_items q))(k := None)"
  have "map_of (wq_items q) = ?I(k \<mapsto> i)" using assms(2) by (auto simp: fun_eq_iff)
  then show "ran (map_of (wq_items q)) = insert i (ran (map_of (wq_items (dropped i q))))"
    using ran_map_upd [of ?I k i] d(1) by (simp add: dropped_items [OF q(1)])
qed

definition same_place :: "work_item \<Rightarrow> work_item \<Rightarrow> bool" where
  "same_place i j \<longleftrightarrow> wi_analyser i = wi_analyser j \<and> wi_phase i = wi_phase j \<and> location_of i = location_of j"

definition persist :: "work_item set \<Rightarrow> work_item set \<Rightarrow> bool" where
  "persist I J \<longleftrightarrow> (\<forall>i \<in> I. \<exists>j \<in> J. same_place i j)"

lemma persist_refl: "I \<subseteq> J \<Longrightarrow> persist I J"
  by (auto simp: persist_def same_place_def)

lemma persist_trans: "persist I J \<Longrightarrow> persist J K \<Longrightarrow> persist I K"
  unfolding persist_def same_place_def by metis

definition inserted :: "(nat \<Rightarrow> u32) \<Rightarrow> work_item \<Rightarrow> work_queue \<Rightarrow> degradation_report \<Rightarrow> work_queue \<Rightarrow> bool" where
  "inserted order_of i q report q' \<longleftrightarrow>
     wq_ok order_of q' \<and> length (wq_keys q') = length (wq_keys q) \<and> wq_degradations q' = wq_degradations q \<and>
     covers {wi_analyser i} report (queue_work q \<union> item_work i) (queue_work q') \<and>
     (\<not> collapsed_ranges report \<longrightarrow> (\<forall>j \<in> ran (map_of (wq_items q')). j \<in> ran (map_of (wq_items q)) \<or> wi_range j = wi_range i)) \<and>
     (\<not> collapsed_ranges report \<longrightarrow> persist (ran (map_of (wq_items q))) (ran (map_of (wq_items q')))) \<and>
     (\<forall>S. wq_bounded S q \<longrightarrow> item_in S i \<longrightarrow> 2 * Suc (card S) \<le> MAX_WORK_ITEMS_PER_ANALYSER \<longrightarrow> wq_bounded S q')"

lemma inserted_present:
  assumes "wq_ok order_of q" "map_of (wq_items q) k = Some e" "wi_analyser e = wi_analyser i" "location_of e = location_of i"
    "item_ok order_of (length (wq_keys q)) (fst (promoted e i))"
    "map_of (wq_keys (dropped e q) ! wi_analyser e) (location_of (fst (promoted e i))) = None"
  shows "inserted order_of i q report (placed (fst (promoted e i)) (dropped e q))"
proof -
  let ?e = "fst (promoted e i)"
  let ?q = "placed ?e (dropped e q)"
  note d = wq_ok_dropped [OF assms(1,2)] and dk = dropped_keys [OF assms(1,2)]
  have ok: "item_ok order_of (length (wq_keys (dropped e q))) ?e" "map_of (wq_keys (dropped e q) ! wi_analyser ?e) (location_of ?e) = None"
    using assms(5,6) by simp_all
  note p = wq_ok_placed [OF d(3) ok] ran_placed [OF d(3) ok] placed_keys [OF d(3) ok]
  have "item_work ?e = item_work e" "item_work e = item_work i" using assms(3,4) by (auto intro!: work_at_location simp: location_of_def)
  then have same: "queue_work ?q = queue_work q \<union> item_work i" unfolding queue_work_def p(3) dk(3) by auto
  have "wq_bounded S ?q" if "wq_bounded S q" for S
  proof -
    have "length (wq_keys ?q ! b) = length (wq_keys q ! b)" for b using p(4,5) dk(1,2) by (cases "b = wi_analyser e") simp_all
    moreover have "item_in S ?e" using that dk(3) by (simp add: wq_bounded_def item_in_def)
    ultimately show ?thesis using that dk(3) unfolding wq_bounded_def p(3) all_set_conv_all_nth by simp
  qed
  moreover have "wi_range ?e = wi_range i" using assms(4) by (simp add: location_of_def)
  moreover have "persist (ran (map_of (wq_items q))) (ran (map_of (wq_items ?q)))"
    unfolding p(3) dk(3) by (auto simp: persist_def same_place_def location_of_def)
  ultimately show ?thesis using p(2,3) dk(3) by (simp add: inserted_def same)
qed

lemma inserted_new:
  assumes "wq_ok order_of q" "item_ok order_of (length (wq_keys q)) i" "map_of (wq_keys q ! wi_analyser i) (location_of i) = None"
    "length (wq_keys q ! wi_analyser i) < MAX_WORK_ITEMS_PER_ANALYSER"
  shows "inserted order_of i q report (placed i q)"
proof -
  note p = wq_ok_placed [OF assms(1-3)] ran_placed [OF assms(1-3)] placed_keys [OF assms(1-3)]
  have work: "queue_work (placed i q) = queue_work q \<union> item_work i" unfolding queue_work_def p(3) by auto
  have "wq_bounded S (placed i q)" if "wq_bounded S q" "item_in S i" for S
  proof -
    have "length (wq_keys (placed i q) ! b) \<le> MAX_WORK_ITEMS_PER_ANALYSER" if "b < length (wq_keys q)" for b
      using p(4,5) assms(4) that \<open>wq_bounded S q\<close> by (cases "b = wi_analyser i") (auto simp: wq_bounded_def)
    then show ?thesis using that unfolding wq_bounded_def p(3) all_set_conv_all_nth by simp
  qed
  then show ?thesis using p(2,3) by (simp add: inserted_def work persist_refl subset_insertI)
qed

lemma inserted_collapse:
  assumes "wq_ok order_of q" "item_ok order_of (length (wq_keys q)) i" "map_of (wq_keys q ! wi_analyser i) (location_of i) = None"
  shows "\<exists>report q'. collapse (wi_analyser i) (placed i q) = Inr (report, q') \<and> inserted order_of i q report q'"
proof -
  let ?a = "wi_analyser i" and ?q = "placed i q"
  have a: "?a < length (wq_keys ?q)" using assms(2) by (simp add: item_ok_def)
  note p = wq_ok_placed [OF assms(1-3)] ran_placed [OF assms(1-3)] placed_keys [OF assms(1-3)]
  have work: "queue_work ?q = queue_work q \<union> item_work i" unfolding queue_work_def p(3) by auto
  obtain report q' c where col: "collapse ?a ?q = Inr (report, q')" "wq_ok order_of q'" "length (wq_keys q') = length (wq_keys ?q)"
      "wq_degradations q' = wq_degradations ?q" "\<forall>b. b \<noteq> ?a \<longrightarrow> wq_keys q' ! b = wq_keys ?q ! b"
      "groups_ok order_of (length (wq_keys ?q)) ?a {j \<in> ran (map_of (wq_items ?q)). wi_analyser j = ?a} c"
      "ran (map_of (wq_items q')) = {j \<in> ran (map_of (wq_items ?q)). wi_analyser j \<noteq> ?a} \<union> cw_item ` ran (map_of c)"
      "length (wq_keys q' ! ?a) = card (dom (map_of c))"
      "collapsed_ranges report \<longleftrightarrow> (\<exists>w \<in> ran (map_of c). cw_ranges_collapsed w \<noteq> 0)"
    by (rule collapse_ok [OF p(2) a])
  have "covers {?a} report (queue_work ?q) (queue_work q')" using collapse_covers [OF col(6,7,9)] by (simp only: queue_work_def)
  moreover have "wq_bounded S q'" if "wq_bounded S q" "item_in S i" "2 * Suc (card S) \<le> MAX_WORK_ITEMS_PER_ANALYSER" for S
  proof -
    have items: "\<forall>j \<in> ran (map_of (wq_items ?q)). item_in S j" using that(1,2) unfolding p(3) by (simp add: wq_bounded_def)
    note g = groups_bounded [OF col(6) items]
    have "length (wq_keys q' ! b) \<le> MAX_WORK_ITEMS_PER_ANALYSER" if "b < length (wq_keys q)" for b
      using col(5,8) p(5) g(1) that \<open>wq_bounded S q\<close> \<open>2 * Suc (card S) \<le> MAX_WORK_ITEMS_PER_ANALYSER\<close>
      by (cases "b = ?a") (auto simp: wq_bounded_def)
    then show ?thesis using items g(2) col(3) unfolding wq_bounded_def col(7) all_set_conv_all_nth by auto
  qed
  moreover have "j \<in> ran (map_of (wq_items q)) \<or> wi_range j = wi_range i"
    if "\<not> collapsed_ranges report" "j \<in> ran (map_of (wq_items q'))" for j
  proof -
    have "cw_item w \<in> ran (map_of (wq_items ?q))" if "w \<in> ran (map_of c)" "cw_ranges_collapsed w = 0" for w
      by (rule groups_uncollapsed(1) [OF col(6) that])
    then have "j \<in> ran (map_of (wq_items ?q))" using that col(9) unfolding col(7) by blast
    then show ?thesis unfolding p(3) by auto
  qed
  moreover have "persist (ran (map_of (wq_items q))) (ran (map_of (wq_items q')))" if "\<not> collapsed_ranges report"
  proof (rule persist_refl)
    have "j \<in> ran (map_of (wq_items q'))" if "j \<in> ran (map_of (wq_items ?q))" for j
      using that groups_uncollapsed(2) [OF col(6), of j] \<open>\<not> collapsed_ranges report\<close> col(9) unfolding col(7) by blast
    then show "ran (map_of (wq_items q)) \<subseteq> ran (map_of (wq_items q'))" unfolding p(3) by blast
  qed
  ultimately show ?thesis using col(1-4) by (simp add: inserted_def work)
qed

lemma insert_work_ok:
  assumes "wq_ok order_of q" "item_ok order_of (length (wq_keys q)) i"
  shows "\<exists>report q'. insert_work i q = Inr (report, q') \<and> inserted order_of i q report q' \<and>
    (length (wq_keys q ! wi_analyser i) < MAX_WORK_ITEMS_PER_ANALYSER \<longrightarrow> \<not> collapsed_ranges report)"
proof (cases "map_of (wq_keys q ! wi_analyser i) (location_of i)")
  case (Some k)
  then show ?thesis using insert_work_present [OF assms Some] inserted_present [OF assms(1)] by metis
next
  case None
  then show ?thesis
    using insert_work_absent [OF assms None] inserted_new [OF assms None, of "[]"] inserted_collapse [OF assms None]
    by (auto simp: collapsed_ranges_def)
qed

lemma inserted_dest:
  assumes "inserted order_of i q report q'"
  shows "wq_ok order_of q'" "length (wq_keys q') = length (wq_keys q)" "wq_degradations q' = wq_degradations q"
    "covers {wi_analyser i} report (queue_work q \<union> item_work i) (queue_work q')"
    "\<not> collapsed_ranges report \<Longrightarrow> j \<in> ran (map_of (wq_items q')) \<Longrightarrow> j \<in> ran (map_of (wq_items q)) \<or> wi_range j = wi_range i"
    "\<not> collapsed_ranges report \<Longrightarrow> persist (ran (map_of (wq_items q))) (ran (map_of (wq_items q')))"
    "wq_bounded S q \<Longrightarrow> item_in S i \<Longrightarrow> 2 * Suc (card S) \<le> MAX_WORK_ITEMS_PER_ANALYSER \<Longrightarrow> wq_bounded S q'"
  using assms by (simp_all add: inserted_def)

lemma covers_widen: "covers A report W W' \<Longrightarrow> A \<subseteq> B \<Longrightarrow> covers B report W W'"
  by (auto simp: covers_def)

text \<open>Inserting the items \<open>f x\<close> one after the other.\<close>

lemma insert_all_ok:
  assumes "wq_ok order_of q" "\<forall>x \<in> set xs. item_ok order_of (length (wq_keys q)) (f x) \<and> wi_analyser (f x) \<in> A"
  shows "\<exists>report' q'. fold_ok (\<lambda>x. insert_reporting (f x)) xs (report, q) = Inr (report', q') \<and> wq_ok order_of q' \<and>
    length (wq_keys q') = length (wq_keys q) \<and> wq_degradations q' = wq_degradations q \<and>
    (collapsed_ranges report \<longrightarrow> collapsed_ranges report') \<and>
    covers A report' (queue_work q \<union> (\<Union>x \<in> set xs. item_work (f x))) (queue_work q') \<and>
    (\<not> collapsed_ranges report' \<longrightarrow>
      (\<forall>j \<in> ran (map_of (wq_items q')). j \<in> ran (map_of (wq_items q)) \<or> (\<exists>x \<in> set xs. wi_range j = wi_range (f x)))) \<and>
    (\<not> collapsed_ranges report' \<longrightarrow> persist (ran (map_of (wq_items q))) (ran (map_of (wq_items q')))) \<and>
    (\<forall>S. wq_bounded S q \<longrightarrow> (\<forall>x \<in> set xs. item_in S (f x)) \<longrightarrow> 2 * Suc (card S) \<le> MAX_WORK_ITEMS_PER_ANALYSER \<longrightarrow> wq_bounded S q')"
  using assms
proof (induction xs arbitrary: q report)
  case (Cons x xs)
  obtain r1 q1 where ins: "insert_work (f x) q = Inr (r1, q1)" "inserted order_of (f x) q r1 q1"
    using insert_work_ok [OF Cons.prems(1), of "f x"] Cons.prems(2) by auto
  note q1 = inserted_dest [OF ins(2)]
  have all: "\<forall>x \<in> set xs. item_ok order_of (length (wq_keys q1)) (f x) \<and> wi_analyser (f x) \<in> A" using Cons.prems(2) q1(2) by simp
  obtain r2 q2 where rest: "fold_ok (\<lambda>x. insert_reporting (f x)) xs (report_extend report r1, q1) = Inr (r2, q2)" "wq_ok order_of q2"
      "length (wq_keys q2) = length (wq_keys q1)" "wq_degradations q2 = wq_degradations q1"
      "collapsed_ranges (report_extend report r1) \<longrightarrow> collapsed_ranges r2"
      "covers A r2 (queue_work q1 \<union> (\<Union>x \<in> set xs. item_work (f x))) (queue_work q2)"
      "\<not> collapsed_ranges r2 \<longrightarrow>
        (\<forall>j \<in> ran (map_of (wq_items q2)). j \<in> ran (map_of (wq_items q1)) \<or> (\<exists>x \<in> set xs. wi_range j = wi_range (f x)))"
      "\<not> collapsed_ranges r2 \<longrightarrow> persist (ran (map_of (wq_items q1))) (ran (map_of (wq_items q2)))"
      "\<forall>S. wq_bounded S q1 \<longrightarrow> (\<forall>x \<in> set xs. item_in S (f x)) \<longrightarrow> 2 * Suc (card S) \<le> MAX_WORK_ITEMS_PER_ANALYSER \<longrightarrow> wq_bounded S q2"
    using Cons.IH [where report = "report_extend report r1", OF q1(1) all] by (elim exE conjE) (rule that; assumption)
  have cov: "covers A r1 (queue_work q \<union> item_work (f x)) (queue_work q1)" using q1(4) Cons.prems(2) by (auto elim: covers_widen)
  have "collapsed_ranges r2" if "collapsed_ranges r1 \<or> collapsed_ranges r2" using that rest(5) by auto
  from covers_trans [OF cov rest(6) this] have "covers A r2 (queue_work q \<union> (\<Union>x \<in> set (x # xs). item_work (f x))) (queue_work q2)"
    by (simp add: Un_assoc)
  moreover have "fold_ok (\<lambda>x. insert_reporting (f x)) (x # xs) (report, q) = Inr (r2, q2)" using ins(1) rest(1) by (simp add: insert_reporting_def)
  moreover have "wq_bounded S q2" if "wq_bounded S q" "\<forall>x \<in> set (x # xs). item_in S (f x)" "2 * Suc (card S) \<le> MAX_WORK_ITEMS_PER_ANALYSER" for S
    using q1(7) [OF that(1)] rest(9) that(2,3) by simp
  moreover have "persist (ran (map_of (wq_items q))) (ran (map_of (wq_items q2)))" if "\<not> collapsed_ranges r2"
    using q1(6) rest(5,8) that by (auto intro: persist_trans)
  moreover have "\<forall>j \<in> ran (map_of (wq_items q2)). j \<in> ran (map_of (wq_items q)) \<or> (\<exists>x \<in> set (x # xs). wi_range j = wi_range (f x))"
    if "\<not> collapsed_ranges r2"
    using q1(5) rest(5,7) that by auto
  ultimately show ?case using rest(2-5) q1(2,3) by simp
qed (simp add: persist_refl)

section \<open>Scheduling\<close>

text \<open>The work that scheduling stands for: the addresses of the regions, or global work when there are none.\<close>

definition region_work :: "'r rangemap \<Rightarrow> nat \<Rightarrow> 'r address_range_set \<Rightarrow> work_unit set" where
  "region_work rm analyser regions =
     (\<lambda>x. (analyser, Region, x)) ` (if members rm regions = {} then {None} else Some ` members rm regions)"

lemma schedule_work:
  assumes "range_set rm" "bm_ok regions"
  shows "(\<Union>rg \<in> set (map Some (set_ranges rm regions) @ (if set_is_empty rm regions then [None] else [])).
    item_work (region_item analyser order phase priority cause rg)) = region_work rm analyser regions"
proof -
  have work: "item_work (region_item analyser order phase priority cause rg) =
      (\<lambda>x. (analyser, Region, x)) ` (case rg of None \<Rightarrow> {None} | Some r \<Rightarrow> Some ` addresses_of r)" for rg
    by (simp add: item_work_def region_item_def)
  have some: "(\<Union>r \<in> set (set_ranges rm regions). Some ` addresses_of r) = Some ` members rm regions"
    unfolding range_set.set_ranges_members [OF assms, symmetric] by (simp add: image_UN)
  show ?thesis
  proof (cases "members rm regions = {}")
    case True
    then have "set_is_empty rm regions" using range_set.set_is_empty_iff [OF assms] by simp
    moreover have "addresses_of r = {}" if "r \<in> set (set_ranges rm regions)" for r
      using that True range_set.set_ranges_members [OF assms] by blast
    ultimately show ?thesis using True by (auto simp: work region_work_def)
  next
    case False
    then have "\<not> set_is_empty rm regions" using range_set.set_is_empty_iff [OF assms] by simp
    then show ?thesis using False some by (simp add: work region_work_def image_UN [symmetric])
  qed
qed

section \<open>Taking work out\<close>

lemma range_split:
  assumes "budget \<noteq> 0" "case range_size r of None \<Rightarrow> True | Some n \<Rightarrow> budget < n"
  defines "cutoff \<equiv> raw_add (ar_start r) (budget - 1)"
  defines "front \<equiv> AddressRange (ar_space r) (ar_start r) cutoff"
    and "rear \<equiv> AddressRange (ar_space r) (raw_add cutoff 1) (ar_end r)"
  shows "addresses_of r = addresses_of front \<union> addresses_of rear" "addresses_of front \<inter> addresses_of rear = {}"
    "range_size front = Some budget" "card (addresses_of front) = unat budget" "addresses_of rear \<noteq> {}"
proof -
  have b: "0 < unat budget" using assms(1) by (simp add: unat_gt_0)
  have "unat budget < card (addresses_of r)"
  proof (cases "card (addresses_of r) < 18446744073709551616")
    case True
    then show ?thesis using assms(2) by (simp add: range_size_card u64_try_from_def word_less_nat_alt unat_word_of_nat)
  next
    case False
    then show ?thesis using unat_lt_u64 [of budget] by linarith
  qed
  then have r: "ar_start r \<le> ar_end r" "unat budget \<le> unat (ar_end r) - unat (ar_start r)"
    by (auto simp: card_addresses_of ar_is_empty_def not_less split: if_splits)
  have "unat (ar_start r) + (unat budget - 1) < 18446744073709551616" using r b unat_lt_u64 [of "ar_end r"] by linarith
  then have c: "unat cutoff = unat (ar_start r) + (unat budget - 1)"
    using b by (simp add: cutoff_def raw_add_def unat_word_ariths unat_minus_one [OF assms(1)])
  then have less: "ar_start r \<le> cutoff" "cutoff < ar_end r" using r(2) b by (simp_all add: word_le_nat_alt word_less_nat_alt)
  note above = above_succ [OF less(2)]
  have mem: "Address sp x \<in> addresses_of front \<longleftrightarrow> sp = ar_space r \<and> ar_start r \<le> x \<and> x \<le> cutoff"
      "Address sp x \<in> addresses_of rear \<longleftrightarrow> sp = ar_space r \<and> cutoff < x \<and> x \<le> ar_end r" for sp x
    by (simp_all add: front_def rear_def raw_add_def above)
  show "addresses_of r = addresses_of front \<union> addresses_of rear"
  proof -
    have "x \<le> cutoff \<Longrightarrow> x \<le> ar_end r" "cutoff < x \<Longrightarrow> ar_start r \<le> x" for x using less by order+
    then have "Address sp x \<in> addresses_of r \<longleftrightarrow> Address sp x \<in> addresses_of front \<union> addresses_of rear" for sp x
      unfolding Un_iff mem mem_addresses_of [of _ _ r] by (cases "x \<le> cutoff") auto
    then show ?thesis unfolding set_eq_iff address_iff by blast
  qed
  show "addresses_of front \<inter> addresses_of rear = {}"
    unfolding set_eq_iff address_iff Int_iff mem by (simp add: not_less)
  show front: "card (addresses_of front) = unat budget" using less(1) c b by (simp add: front_def card_addresses_of ar_is_empty_def)
  then show "range_size front = Some budget" using unat_lt_u64 [of budget] by (simp add: range_size_card u64_try_from_def)
  have "Address (ar_space r) (ar_end r) \<in> addresses_of rear" using less(2) above by (simp add: rear_def raw_add_def)
  then show "addresses_of rear \<noteq> {}" by blast
qed

text \<open>How much is left to take out.\<close>

definition item_load :: "work_item \<Rightarrow> nat" where
  "item_load i = (case wi_range i of None \<Rightarrow> 1 | Some r \<Rightarrow> max 1 (card (addresses_of r)))"

definition wq_load :: "work_queue \<Rightarrow> nat" where
  "wq_load q = (\<Sum>k \<in> dom (map_of (wq_items q)). item_load (the (map_of (wq_items q) k)))"

lemma load_put:
  assumes "finite (dom I)" "I k = None"
  shows "(\<Sum>k' \<in> dom (I(k \<mapsto> i)). item_load (the ((I(k \<mapsto> i)) k'))) = item_load i + (\<Sum>k' \<in> dom I. item_load (the (I k')))"
proof -
  have "(\<Sum>k' \<in> dom I. item_load (the ((I(k \<mapsto> i)) k'))) = (\<Sum>k' \<in> dom I. item_load (the (I k')))"
    by (rule sum.cong) (use assms(2) in auto)
  then show ?thesis using assms by (simp add: domIff)
qed

lemma wq_load_placed:
  assumes "wq_ok order_of q" "item_ok order_of (length (wq_keys q)) i" "map_of (wq_keys q ! wi_analyser i) (location_of i) = None"
  shows "wq_load (placed i q) = item_load i + wq_load q"
proof -
  have "bm_ok (wq_items q)" using assms(1) by (simp add: wq_ok_def)
  then show ?thesis unfolding wq_load_def by (simp only: placed_items load_put [OF finite_dom_map_of wq_ok_placed(1) [OF assms]])
qed

lemma wq_load_dropped:
  assumes "wq_ok order_of q" "map_of (wq_items q) k = Some i"
  shows "wq_load q = item_load i + wq_load (dropped i q)"
proof -
  let ?I = "(map_of (wq_items q))(k := None)"
  have "map_of (wq_items q) = ?I(k \<mapsto> i)" using assms(2) by (auto simp: fun_eq_iff)
  moreover have "map_of (wq_items (dropped i q)) = ?I"
    using wq_ok_dropped(1) [OF assms] assms(1) by (simp add: dropped_items wq_ok_def)
  ultimately show ?thesis using load_put [of ?I k i] finite_dom_map_of [of "wq_items (dropped i q)"] by (simp add: wq_load_def)
qed

lemma insert_work_load:
  assumes "wq_ok order_of q" "item_ok order_of (length (wq_keys q)) i" "length (wq_keys q ! wi_analyser i) < MAX_WORK_ITEMS_PER_ANALYSER"
    "insert_work i q = Inr (report, q')"
  shows "wq_load q' \<le> item_load i + wq_load q"
proof (cases "map_of (wq_keys q ! wi_analyser i) (location_of i)")
  case None
  then show ?thesis using insert_work_absent [OF assms(1,2) None] wq_load_placed [OF assms(1,2) None] assms(3,4) by simp
next
  case (Some k)
  obtain e report' where e: "map_of (wq_items q) k = Some e" "insert_work i q = Inr (report', placed (fst (promoted e i)) (dropped e q))"
    "item_ok order_of (length (wq_keys q)) (fst (promoted e i))"
    "map_of (wq_keys (dropped e q) ! wi_analyser e) (location_of (fst (promoted e i))) = None"
    by (rule insert_work_present [OF assms(1,2) Some])
  have "item_load (fst (promoted e i)) = item_load e" by (simp add: item_load_def)
  then show ?thesis
    using wq_load_placed [OF wq_ok_dropped(3) [OF assms(1) e(1)], of "fst (promoted e i)"] wq_load_dropped [OF assms(1) e(1)] e assms(4) by simp
qed

lemma degradations_irrelevant [simp]:
  "wq_ok order_of (q\<lparr>wq_degradations := d\<rparr>) = wq_ok order_of q" "queue_work (q\<lparr>wq_degradations := d\<rparr>) = queue_work q"
  "wq_bounded S (q\<lparr>wq_degradations := d\<rparr>) = wq_bounded S q" "wq_load (q\<lparr>wq_degradations := d\<rparr>) = wq_load q"
  by (simp_all add: wq_ok_def queue_work_def wq_bounded_def wq_load_def)

text \<open>
  What taking an item out promises: the item is the first in the order of keys, or the front of it,
  it fits the budget, and the rest of its work stays queued.
\<close>

definition taken :: "(nat \<Rightarrow> u32) \<Rightarrow> u64 \<Rightarrow> work_queue \<Rightarrow> work_item \<Rightarrow> work_queue \<Rightarrow> bool" where
  "taken order_of budget q j q' \<longleftrightarrow>
     wq_ok order_of q' \<and> length (wq_keys q') = length (wq_keys q) \<and>
     (\<exists>i \<in> ran (map_of (wq_items q)). (\<forall>i' \<in> ran (map_of (wq_items q)). item_key i \<le> item_key i') \<and>
        j = i\<lparr>wi_range := wi_range j\<rparr> \<and> map_option start_address (wi_range j) = map_option start_address (wi_range i)) \<and>
     (\<exists>c. item_cost j = Inr c \<and> c \<le> budget) \<and>
     item_work j \<subseteq> queue_work q \<and> queue_work q \<subseteq> item_work j \<union> queue_work q' \<and>
     (\<forall>S. wq_bounded S q \<longrightarrow> 2 * Suc (card S) \<le> MAX_WORK_ITEMS_PER_ANALYSER \<longrightarrow>
        wq_bounded S q' \<and> queue_work q = item_work j \<union> queue_work q' \<and> wq_load q' < wq_load q)"

lemma item_load_pos: "0 < item_load i"
  by (cases "wi_range i") (simp_all add: item_load_def less_max_iff_disj)

lemma finite_addresses_of: "finite (addresses_of r)"
proof (rule finite_subset)
  show "addresses_of r \<subseteq> range (Address (ar_space r))" unfolding subset_eq Ball_def address_iff by simp
qed simp

lemma load_rear:
  assumes "wi_range i = Some r" "wi_range j = Some t" "addresses_of r = F \<union> addresses_of t" "F \<inter> addresses_of t = {}" "F \<noteq> {}"
    "addresses_of t \<noteq> {}"
  shows "item_load j < item_load i"
proof -
  have "finite F" "finite (addresses_of t)" using finite_addresses_of [of r] assms(3) by auto
  then have "card (addresses_of r) = card F + card (addresses_of t)" "0 < card F" "0 < card (addresses_of t)"
    using assms(3-6) by (simp_all add: card_Un_disjoint card_gt_0_iff)
  then show ?thesis using assms(1,2) by (simp add: item_load_def)
qed

lemma bounded_dropped:
  assumes "wq_ok order_of q" "map_of (wq_items q) k = Some i" "wq_bounded S q"
  shows "wq_bounded S (dropped i q)" "item_in S i" "length (wq_keys (dropped i q) ! wi_analyser i) < MAX_WORK_ITEMS_PER_ANALYSER"
proof -
  note dk = dropped_keys [OF assms(1,2)]
  have a: "wi_analyser i < length (wq_keys q)" using wq_ok_dropped(2) [OF assms(1,2)] by (simp add: item_ok_def)
  then have len: "length (wq_keys q ! wi_analyser i) \<le> MAX_WORK_ITEMS_PER_ANALYSER" using assms(3) by (simp add: wq_bounded_def)
  have "length (wq_keys (dropped i q) ! b) \<le> MAX_WORK_ITEMS_PER_ANALYSER" if "b < length (wq_keys q)" for b
    using that dk(1,2) len assms(3) by (cases "b = wi_analyser i") (auto simp: wq_bounded_def)
  then show "wq_bounded S (dropped i q)" using assms(3) unfolding wq_bounded_def dk(3) all_set_conv_all_nth by simp
  show "item_in S i" using assms(3) dk(3) by (simp add: wq_bounded_def)
  show "length (wq_keys (dropped i q) ! wi_analyser i) < MAX_WORK_ITEMS_PER_ANALYSER" using len dk(1) by simp
qed

lemma taken_whole:
  assumes "wq_ok order_of q" "map_of (wq_items q) k = Some i" "\<forall>i' \<in> ran (map_of (wq_items q)). item_key i \<le> item_key i'"
    "item_cost i = Inr c" "c \<le> budget"
  shows "taken order_of budget q i (dropped i q)"
proof -
  have "i \<in> ran (map_of (wq_items q))" using assms(2) by (rule ranI)
  moreover have "queue_work q = item_work i \<union> queue_work (dropped i q)" unfolding queue_work_def dropped_keys(3) [OF assms(1,2)] by simp
  moreover have "wq_load (dropped i q) < wq_load q" using wq_load_dropped [OF assms(1,2)] item_load_pos by simp
  ultimately show ?thesis
    using assms(3-5) wq_ok_dropped(3) [OF assms(1,2)] bounded_dropped(1) [OF assms(1,2)] unfolding taken_def by auto
qed

lemma taken_front:
  assumes q: "wq_ok order_of q" "map_of (wq_items q) k = Some i" "\<forall>i' \<in> ran (map_of (wq_items q)). item_key i \<le> item_key i'"
    and r: "wi_range i = Some r" "budget \<noteq> 0" "case range_size r of None \<Rightarrow> True | Some n \<Rightarrow> budget < n"
  defines "cutoff \<equiv> raw_add (ar_start r) (budget - 1)"
  defines "front \<equiv> with_range i (AddressRange (ar_space r) (ar_start r) cutoff)"
    and "rear \<equiv> with_range i (AddressRange (ar_space r) (raw_add cutoff 1) (ar_end r))"
  shows "\<exists>report q'. insert_work rear (dropped i q) = Inr (report, q') \<and> (\<forall>d. taken order_of budget q front (q'\<lparr>wq_degradations := d\<rparr>))"
proof -
  note d = wq_ok_dropped [OF q(1,2)] and split = range_split [OF r(2,3), folded cutoff_def]
  have rear: "item_ok order_of (length (wq_keys (dropped i q))) rear" using d(2) by (simp add: item_ok_def rear_def with_range_def)
  obtain report q' where ins: "insert_work rear (dropped i q) = Inr (report, q')" "inserted order_of rear (dropped i q) report q'"
      "length (wq_keys (dropped i q) ! wi_analyser rear) < MAX_WORK_ITEMS_PER_ANALYSER \<longrightarrow> \<not> collapsed_ranges report"
    using insert_work_ok [OF d(3) rear] by blast
  note q' = inserted_dest [OF ins(2)]
  have an: "wi_analyser rear = wi_analyser i" by (simp add: rear_def with_range_def)
  have parts: "item_work i = item_work front \<union> item_work rear"
    unfolding item_work_def by (simp add: front_def rear_def with_range_def r(1) split(1) image_Un)
  have work: "queue_work q = item_work front \<union> (queue_work (dropped i q) \<union> item_work rear)"
    unfolding queue_work_def dropped_keys(3) [OF q(1,2)] using parts by auto
  have "wq_bounded S q' \<and> queue_work q = item_work front \<union> queue_work q' \<and> wq_load q' < wq_load q"
    if S: "wq_bounded S q" "2 * Suc (card S) \<le> MAX_WORK_ITEMS_PER_ANALYSER" for S
  proof -
    note b = bounded_dropped [OF q(1,2) S(1)]
    have "item_in S rear" using b(2) by (simp add: item_in_def rear_def with_range_def r(1))
    moreover have "queue_work q' = queue_work (dropped i q) \<union> item_work rear" using q'(4) ins(3) b(3) an by (simp add: covers_def)
    moreover have "item_load rear < item_load i"
      by (rule load_rear [OF r(1) _ split(1,2) _ split(5)]) (use split(4) r(2) in \<open>auto simp: rear_def with_range_def unat_eq_0\<close>)
    ultimately show ?thesis
      using q'(7) [OF b(1) _ S(2)] work wq_load_dropped [OF q(1,2)] insert_work_load [OF d(3) rear _ ins(1)] b(3) an by simp
  qed
  moreover have "item_cost front = Inr budget" using split(3) by (simp add: item_cost_def front_def with_range_def)
  moreover have "queue_work q \<subseteq> item_work front \<union> queue_work q'" using q'(4) work by (auto simp: covers_def)
  moreover have "i \<in> ran (map_of (wq_items q))" using q(2) by (rule ranI)
  moreover have "front = i\<lparr>wi_range := wi_range front\<rparr>" "map_option start_address (wi_range front) = map_option start_address (wi_range i)"
    by (simp_all add: front_def with_range_def r(1) start_address_def)
  ultimately have "taken order_of budget q front (q'\<lparr>wq_degradations := d\<rparr>)" for d
    unfolding taken_def using q(3) q'(1,2) work by auto
  then show ?thesis using ins(1) by blast
qed

lemma first_item:
  assumes "wq_ok order_of q" "wq_items q = (k, i) # rest"
  shows "map_of (wq_items q) k = Some i" "\<forall>i' \<in> ran (map_of (wq_items q)). item_key i \<le> item_key i'"
proof -
  have ok: "bm_ok (wq_items q)" using assms(1) by (simp add: wq_ok_def)
  show k: "map_of (wq_items q) k = Some i" using assms(2) by simp
  show "\<forall>i' \<in> ran (map_of (wq_items q)). item_key i \<le> item_key i'"
  proof
    fix i' assume "i' \<in> ran (map_of (wq_items q))"
    then obtain k' where k': "map_of (wq_items q) k' = Some i'" by (auto simp: ran_def)
    then have "k \<le> k'" by (rule bm.first_least(2) [OF ok assms(2)])
    then show "item_key i \<le> item_key i'" using wq_ok_dropped(1) [OF assms(1) k] wq_ok_dropped(1) [OF assms(1) k'] by simp
  qed
qed

lemma pop_some:
  assumes "wq_ok order_of q" "budget \<noteq> 0" "wq_items q = (k, i) # rest"
  shows "\<exists>j q'. pop budget q = Inr (Some j, q') \<and> taken order_of budget q j q'"
proof -
  note first = first_item [OF assms(1,3)]
  note d = wq_ok_dropped [OF assms(1) first(1)]
  show ?thesis
  proof (cases "\<exists>r. wi_range i = Some r \<and> (case range_size r of None \<Rightarrow> True | Some n \<Rightarrow> budget < n)")
    case True
    then obtain r where r: "wi_range i = Some r" "case range_size r of None \<Rightarrow> True | Some n \<Rightarrow> budget < n" by blast
    let ?s = "raw_add (ar_start r) (budget - 1)"
    obtain report q' where "insert_work (with_range i (AddressRange (ar_space r) (raw_add ?s 1) (ar_end r))) (dropped i q) = Inr (report, q')"
        "taken order_of budget q (with_range i (AddressRange (ar_space r) (ar_start r) ?s))
          (q'\<lparr>wq_degradations := report_extend (wq_degradations q') report\<rparr>)"
      using taken_front [OF assms(1) first r(1) assms(2) r(2)] by blast
    then show ?thesis using assms(2,3) d(5) r by (simp add: pop_def Let_def)
  next
    case False
    have "pop budget q = Inr (Some i, dropped i q)" using assms(2,3) d(5) False by (auto simp: pop_def split: option.splits)
    moreover have "\<exists>c. item_cost i = Inr c \<and> c \<le> budget"
      using False assms(2) by (auto simp: item_cost_def not_less word_le_nat_alt Suc_le_eq unat_gt_0 split: option.splits)
    ultimately show ?thesis using taken_whole [OF assms(1) first] by blast
  qed
qed

lemma pop_none: "pop budget q = Inr (None, q)" if "budget = 0 \<or> wq_items q = []"
  using that by (auto simp: pop_def)

section \<open>Cancelling\<close>

definition in_region :: "'r rangemap \<Rightarrow> 'r address_range_set \<Rightarrow> work_unit set" where
  "in_region rm region = {(a, k, Some x) |a k x. x \<in> members rm region}"

definition clear_of :: "'r rangemap \<Rightarrow> 'r address_range_set \<Rightarrow> work_item \<Rightarrow> bool" where
  "clear_of rm region i \<longleftrightarrow> (case wi_range i of None \<Rightarrow> True | Some r \<Rightarrow> addresses_of r \<inter> members rm region = {})"

text \<open>What cancelling a region promises for the items whose keys are in \<open>ks\<close>, and for the items outside the phases \<open>P\<close>.\<close>

definition cancelled :: "(nat \<Rightarrow> u32) \<Rightarrow> 'r rangemap \<Rightarrow> 'r address_range_set \<Rightarrow> analysis_phase set \<Rightarrow> work_key set \<Rightarrow> work_queue \<Rightarrow>
    degradation_report \<Rightarrow> work_queue \<Rightarrow> bool" where
  "cancelled order_of rm region P ks q report q' \<longleftrightarrow>
     wq_ok order_of q' \<and> length (wq_keys q') = length (wq_keys q) \<and> wq_degradations q' = wq_degradations q \<and>
     queue_work q - in_region rm region \<subseteq> queue_work q' \<and>
     (\<not> collapsed_ranges report \<longrightarrow> queue_work q' \<subseteq> queue_work q \<and>
        (\<forall>j \<in> ran (map_of (wq_items q')). clear_of rm region j \<or> j \<in> ran (map_of (wq_items q)) \<and> item_key j \<notin> ks) \<and>
        persist {i \<in> ran (map_of (wq_items q)). wi_phase i \<notin> P} {i \<in> ran (map_of (wq_items q')). wi_phase i \<notin> P}) \<and>
     (\<forall>S. wq_bounded S q \<longrightarrow> 2 * Suc (card S) \<le> MAX_WORK_ITEMS_PER_ANALYSER \<longrightarrow> wq_bounded S q')"

lemma cancelled_absent:
  assumes "wq_ok order_of q" "map_of (wq_items q) k = None" shows "cancelled order_of rm region P {k} q report q"
proof -
  have "item_key j \<noteq> k" if "j \<in> ran (map_of (wq_items q))" for j
    using that assms unfolding wq_ok_def maps_ok_def ran_def by force
  then show ?thesis using assms(1) by (auto simp: cancelled_def persist_refl)
qed

lemma pieces_work:
  assumes "wi_range i = Some r" "(\<Union>t \<in> set left. addresses_of t) = addresses_of r - members rm region"
  shows "(\<Union>t \<in> set left. item_work (with_range i t)) = item_work i - in_region rm region"
proof -
  define g where "g = (\<lambda>x :: address. (wi_analyser i, wi_kind i, Some x))"
  have g: "item_work i = g ` addresses_of r" "item_work (with_range i t) = g ` addresses_of t" "g x \<in> in_region rm region \<longleftrightarrow> x \<in> members rm region" for t x
    by (auto simp: item_work_def with_range_def assms(1) g_def in_region_def image_image)
  have "(\<Union>t \<in> set left. g ` addresses_of t) = g ` (addresses_of r - members rm region)" unfolding assms(2) [symmetric] by blast
  also have "\<dots> = g ` addresses_of r - in_region rm region" using g(3) by blast
  finally show ?thesis unfolding g(1,2) .
qed

lemma cancelled_present:
  assumes "wq_ok order_of q" "map_of (wq_items q) k = Some i" "wi_range i = Some r" "wi_phase i \<in> P"
    and left: "(\<Union>t \<in> set left. addresses_of t) = addresses_of r - members rm region" "\<forall>t \<in> set left. addresses_of t \<noteq> {}"
  shows "\<exists>report' q'. fold_ok (\<lambda>t. insert_reporting (with_range i t)) left (report, dropped i q) = Inr (report', q') \<and>
    (collapsed_ranges report \<longrightarrow> collapsed_ranges report') \<and> cancelled order_of rm region P {k} q report' q'"
proof -
  note d = wq_ok_dropped [OF assms(1,2)] and dk = dropped_keys [OF assms(1,2)]
  have each: "\<forall>t \<in> set left. item_ok order_of (length (wq_keys (dropped i q))) (with_range i t) \<and> wi_analyser (with_range i t) \<in> UNIV"
    using d(2) by (simp add: item_ok_def with_range_def)
  obtain report' q' where ins: "fold_ok (\<lambda>t. insert_reporting (with_range i t)) left (report, dropped i q) = Inr (report', q')" "wq_ok order_of q'"
      "length (wq_keys q') = length (wq_keys (dropped i q))" "wq_degradations q' = wq_degradations (dropped i q)"
      "collapsed_ranges report \<longrightarrow> collapsed_ranges report'"
      "covers UNIV report' (queue_work (dropped i q) \<union> (\<Union>t \<in> set left. item_work (with_range i t))) (queue_work q')"
      "\<not> collapsed_ranges report' \<longrightarrow>
        (\<forall>j \<in> ran (map_of (wq_items q')). j \<in> ran (map_of (wq_items (dropped i q))) \<or> (\<exists>t \<in> set left. wi_range j = wi_range (with_range i t)))"
      "\<not> collapsed_ranges report' \<longrightarrow> persist (ran (map_of (wq_items (dropped i q)))) (ran (map_of (wq_items q')))"
      "\<forall>S. wq_bounded S (dropped i q) \<longrightarrow> (\<forall>t \<in> set left. item_in S (with_range i t)) \<longrightarrow>
        2 * Suc (card S) \<le> MAX_WORK_ITEMS_PER_ANALYSER \<longrightarrow> wq_bounded S q'"
    using insert_all_ok [OF d(3) each, of report] by (elim exE conjE) (rule that; assumption)
  note pieces = pieces_work [OF assms(3) left(1)]
  have work: "queue_work q = item_work i \<union> queue_work (dropped i q)" unfolding queue_work_def dk(3) by simp
  have "clear_of rm region j \<or> j \<in> ran (map_of (wq_items q)) \<and> item_key j \<noteq> k"
    if "j \<in> ran (map_of (wq_items (dropped i q))) \<or> (\<exists>t \<in> set left. wi_range j = wi_range (with_range i t))" for j
  proof -
    have "item_key j \<noteq> k" if "j \<in> ran (map_of (wq_items (dropped i q)))" for j
    proof -
      have "map_of (wq_items (dropped i q)) k = None" using assms(1) d(1) by (simp add: dropped_items wq_ok_def)
      then show ?thesis using that d(3) unfolding wq_ok_def maps_ok_def ran_def by force
    qed
    moreover have "clear_of rm region j" if "t \<in> set left" "wi_range j = Some t" for t
      using that left(1) by (auto simp: clear_of_def)
    ultimately show ?thesis using that unfolding dk(3) by (auto simp: with_range_def)
  qed
  moreover have "item_in S (with_range i t)" if "wq_bounded S q" "t \<in> set left" for S t
  proof -
    obtain a where "a \<in> addresses_of t" "a \<in> addresses_of r" using left \<open>t \<in> set left\<close> by blast
    then have "ar_space t = ar_space r" by (simp add: addresses_of_def range_contains_address_def)
    then show ?thesis using bounded_dropped(2) [OF assms(1,2) that(1)] assms(3) by (simp add: item_in_def with_range_def)
  qed
  moreover have "persist {i \<in> ran (map_of (wq_items q)). wi_phase i \<notin> P} {i \<in> ran (map_of (wq_items q')). wi_phase i \<notin> P}"
    if "\<not> collapsed_ranges report'"
  proof -
    have "persist (ran (map_of (wq_items (dropped i q)))) (ran (map_of (wq_items q')))" using ins(8) that by blast
    then show ?thesis unfolding dk(3) using assms(4) by (force simp: persist_def same_place_def)
  qed
  ultimately have "cancelled order_of rm region P {k} q report' q'"
    using ins(2-7,9) pieces work bounded_dropped(1) [OF assms(1,2)] unfolding cancelled_def covers_def by auto
  then show ?thesis using ins(1,5) by blast
qed

lemma cancel_key_ok:
  assumes "range_set rm" "bm_ok region" "wq_ok order_of q" "fst (snd k) \<noteq> None" "fst k \<in> P"
  shows "\<exists>report' q'. cancel_key rm region k (report, q) = Inr (report', q') \<and>
    (collapsed_ranges report \<longrightarrow> collapsed_ranges report') \<and> cancelled order_of rm region P {k} q report' q'"
proof (cases "map_of (wq_items q) k")
  case None
  then show ?thesis using cancelled_absent [OF assms(3) None] by (simp add: cancel_key_def)
next
  case (Some i)
  note d = wq_ok_dropped [OF assms(3) Some]
  obtain r where r: "wi_range i = Some r" using assms(4) d(1) by (cases "wi_range i") (auto simp: item_key_def)
  obtain s where s: "set_insert_range rm r set_new = Inr s" "bm_ok s" "members rm s = members rm set_new \<union> addresses_of r"
    using range_set.set_insert_range_ok [OF assms(1), of set_new r] by (auto simp: set_new_def)
  then have members: "members rm s = addresses_of r" using range_set.members_new [OF assms(1)] by simp
  obtain left where left: "set_difference rm s region = Inr left" "bm_ok left" "members rm left = members rm s - members rm region"
    using range_set.members_difference [OF assms(1) s(2) assms(2)] by blast
  have pieces: "(\<Union>t \<in> set (set_ranges rm left). addresses_of t) = addresses_of r - members rm region"
    using range_set.set_ranges_members [OF assms(1) left(2)] left(3) members by simp
  have filled: "\<forall>t \<in> set (set_ranges rm left). addresses_of t \<noteq> {}"
  proof
    fix t assume "t \<in> set (set_ranges rm left)"
    then have "ar_start t \<le> ar_end t" using range_set.set_ranges_filled [OF assms(1)] by (simp add: ar_is_empty_def not_less)
    then have "Address (ar_space t) (ar_start t) \<in> addresses_of t" by simp
    then show "addresses_of t \<noteq> {}" by blast
  qed
  have "wi_phase i \<in> P" using assms(5) d(1) by (simp add: item_key_def)
  then show ?thesis using cancelled_present [OF assms(3) Some r _ pieces filled, where report = report] Some d(5) r s(1) left(1)
    by (simp add: cancel_key_def item_regions_def)
qed

lemma cancelled_trans:
  assumes "cancelled order_of rm region P ks q r1 q1" "cancelled order_of rm region P ks' q1 r2 q2" "collapsed_ranges r1 \<longrightarrow> collapsed_ranges r2"
  shows "cancelled order_of rm region P (ks \<union> ks') q r2 q2"
proof -
  note c1 = assms(1) [unfolded cancelled_def] and c2 = assms(2) [unfolded cancelled_def]
  have "queue_work q - in_region rm region \<subseteq> queue_work q1" "queue_work q1 - in_region rm region \<subseteq> queue_work q2" using c1 c2 by simp_all
  then have "queue_work q - in_region rm region \<subseteq> queue_work q2" by blast
  moreover have "queue_work q2 \<subseteq> queue_work q \<and>
      (\<forall>j \<in> ran (map_of (wq_items q2)). clear_of rm region j \<or> j \<in> ran (map_of (wq_items q)) \<and> item_key j \<notin> ks \<union> ks') \<and>
      persist {i \<in> ran (map_of (wq_items q)). wi_phase i \<notin> P} {i \<in> ran (map_of (wq_items q2)). wi_phase i \<notin> P}"
    if "\<not> collapsed_ranges r2"
  proof -
    have r1: "\<not> collapsed_ranges r1" using that assms(3) by blast
    have 1: "queue_work q1 \<subseteq> queue_work q"
        "\<forall>j \<in> ran (map_of (wq_items q1)). clear_of rm region j \<or> j \<in> ran (map_of (wq_items q)) \<and> item_key j \<notin> ks"
        "persist {i \<in> ran (map_of (wq_items q)). wi_phase i \<notin> P} {i \<in> ran (map_of (wq_items q1)). wi_phase i \<notin> P}" using c1 r1 by simp_all
    have 2: "queue_work q2 \<subseteq> queue_work q1"
        "\<forall>j \<in> ran (map_of (wq_items q2)). clear_of rm region j \<or> j \<in> ran (map_of (wq_items q1)) \<and> item_key j \<notin> ks'"
        "persist {i \<in> ran (map_of (wq_items q1)). wi_phase i \<notin> P} {i \<in> ran (map_of (wq_items q2)). wi_phase i \<notin> P}" using c2 that by simp_all
    show ?thesis using 1(1,2) 2(1,2) persist_trans [OF 1(3) 2(3)] by blast
  qed
  ultimately show ?thesis using c1 c2 unfolding cancelled_def by simp
qed

lemma cancel_keys:
  assumes "range_set rm" "bm_ok region" "wq_ok order_of q" "\<forall>k \<in> set ks. fst (snd k) \<noteq> None \<and> fst k \<in> P"
  shows "\<exists>report' q'. fold_ok (cancel_key rm region) ks (report, q) = Inr (report', q') \<and>
    (collapsed_ranges report \<longrightarrow> collapsed_ranges report') \<and> cancelled order_of rm region P (set ks) q report' q'"
  using assms(3,4)
proof (induction ks arbitrary: q report)
  case Nil
  then show ?case by (simp add: cancelled_def persist_refl)
next
  case (Cons k ks)
  obtain r1 q1 where step: "cancel_key rm region k (report, q) = Inr (r1, q1)" "collapsed_ranges report \<longrightarrow> collapsed_ranges r1"
      "cancelled order_of rm region P {k} q r1 q1"
    using cancel_key_ok [OF assms(1,2) Cons.prems(1), of k P report] Cons.prems(2) by auto
  then have "wq_ok order_of q1" by (simp add: cancelled_def)
  then obtain r2 q2 where rest: "fold_ok (cancel_key rm region) ks (r1, q1) = Inr (r2, q2)" "collapsed_ranges r1 \<longrightarrow> collapsed_ranges r2"
      "cancelled order_of rm region P (set ks) q1 r2 q2"
    using Cons.IH [of q1 r1] Cons.prems(2) by auto
  show ?case using step(1,2) rest(1,2) cancelled_trans [OF step(3) rest(3,2)] by simp
qed

section \<open>Batches\<close>

definition same_kind :: "work_item \<Rightarrow> work_item \<Rightarrow> bool" where
  "same_kind i j \<longleftrightarrow> wi_analyser i = wi_analyser j \<and> wi_phase i = wi_phase j \<and> wi_kind i = wi_kind j"

definition batch_cost :: "work_item list \<Rightarrow> nat" where
  "batch_cost batch = sum_list (map (\<lambda>j. card (item_work j)) batch)"

text \<open>What a batch taken from \<open>q0\<close> promises, with the queue it leaves.\<close>

definition batched :: "(nat \<Rightarrow> u32) \<Rightarrow> u64 \<Rightarrow> nat \<Rightarrow> work_item \<Rightarrow> work_queue \<Rightarrow> work_item list \<Rightarrow> work_queue \<Rightarrow> bool" where
  "batched order_of budget max_items first q0 batch q \<longleftrightarrow>
     wq_ok order_of q \<and> length (wq_keys q) = length (wq_keys q0) \<and>
     batch \<noteq> [] \<and> length batch \<le> max 1 max_items \<and> (\<forall>j \<in> set batch. same_kind first j) \<and> batch_cost batch \<le> unat budget \<and>
     queue_work q0 \<subseteq> (\<Union>j \<in> set batch. item_work j) \<union> queue_work q \<and>
     (\<forall>S. wq_bounded S q0 \<longrightarrow> 2 * Suc (card S) \<le> MAX_WORK_ITEMS_PER_ANALYSER \<longrightarrow>
        wq_bounded S q \<and> queue_work q0 = (\<Union>j \<in> set batch. item_work j) \<union> queue_work q \<and> wq_load q < wq_load q0)"

lemma cost_card: assumes "item_cost j = Inr c" shows "unat c = card (item_work j)"
proof (cases "wi_range j")
  case None
  then show ?thesis using assms by (simp add: item_cost_def item_work_def)
next
  case (Some r)
  have "inj (\<lambda>x. (wi_analyser j, wi_kind j, Some x))" by (auto simp: inj_def)
  then have "card (item_work j) = card (addresses_of r)" using Some by (simp add: item_work_def image_image card_image inj_on_def)
  then show ?thesis using assms Some
    by (auto simp: item_cost_def range_size_card u64_try_from_def unat_word_of_nat outcome_simps split: if_splits)
qed

lemma taken_first:
  assumes "wq_ok order_of q" "wq_items q = (k, i) # rest" "taken order_of budget q j q'"
  shows "same_kind i j"
proof -
  note first = first_item [OF assms(1,2)]
  have key: "map_of (wq_items q) (item_key i') = Some i'" if "i' \<in> ran (map_of (wq_items q))" for i'
    using that assms(1) unfolding wq_ok_def maps_ok_def ran_def by blast
  obtain i' where i': "i' \<in> ran (map_of (wq_items q))" "\<forall>x \<in> ran (map_of (wq_items q)). item_key i' \<le> item_key x" "j = i'\<lparr>wi_range := wi_range j\<rparr>"
    using assms(3) unfolding taken_def by blast
  have i: "i \<in> ran (map_of (wq_items q))" using first(1) by (rule ranI)
  then have "item_key i' = item_key i" using i'(1,2) first(2) by (simp add: order.antisym)
  then have "i' = i" using key [OF i] key [OF i'(1)] by simp
  then have "wi_analyser j = wi_analyser i" "wi_phase j = wi_phase i" "wi_kind j = wi_kind i"
    using i'(3) by (metis work_item.select_convs work_item.surjective work_item.update_convs(5))+
  then show ?thesis by (simp add: same_kind_def)
qed

lemma batched_step:
  assumes "batched order_of budget max_items first q0 batch q" "taken order_of left q j q'" "same_kind first j"
    "length batch < max_items" "batch_cost batch + card (item_work j) \<le> unat budget"
  shows "batched order_of budget max_items first q0 (batch @ [j]) q'"
proof -
  note b = assms(1) [unfolded batched_def] and t = assms(2) [unfolded taken_def]
  have "queue_work q0 \<subseteq> (\<Union>j \<in> set batch. item_work j) \<union> queue_work q" "queue_work q \<subseteq> item_work j \<union> queue_work q'" using b t by simp_all
  then have "queue_work q0 \<subseteq> (\<Union>j \<in> set (batch @ [j]). item_work j) \<union> queue_work q'" by auto
  moreover have "wq_bounded S q' \<and> queue_work q0 = (\<Union>j \<in> set (batch @ [j]). item_work j) \<union> queue_work q' \<and> wq_load q' < wq_load q0"
    if S: "wq_bounded S q0" "2 * Suc (card S) \<le> MAX_WORK_ITEMS_PER_ANALYSER" for S
  proof -
    have 1: "wq_bounded S q" "queue_work q0 = (\<Union>j \<in> set batch. item_work j) \<union> queue_work q" "wq_load q < wq_load q0" using b S by blast+
    have 2: "wq_bounded S q'" "queue_work q = item_work j \<union> queue_work q'" "wq_load q' < wq_load q" using t S(2) 1(1) by blast+
    show ?thesis using 1 2 by auto
  qed
  ultimately show ?thesis using b t assms(3-5) unfolding batched_def by (simp add: batch_cost_def)
qed

lemma pop_batch_loop_ok:
  assumes "batched order_of budget max_items first q0 batch q" "unat spent = batch_cost batch"
  shows "\<exists>batch' q'. pop_batch_loop budget max_items first spent batch q = Inr (batch', q') \<and> batched order_of budget max_items first q0 batch' q'"
  using assms
proof (induction "max_items - length batch" arbitrary: spent batch q rule: less_induct)
  case less
  note loop = pop_batch_loop.simps [of budget max_items first spent batch q]
  show ?case
  proof (cases "length batch < max_items \<and> spent < budget")
    case more: True
    show ?thesis
    proof (cases "wq_items q")
      case Nil
      then show ?thesis using loop less.prems(1) by simp
    next
      case (Cons e es)
      obtain k i where e: "e = (k, i)" by (cases e)
      show ?thesis
      proof (cases "same_kind first i")
        case False
        then have "pop_batch_loop budget max_items first spent batch q = Inr (batch, q)"
          unfolding loop using Cons e by (auto simp: same_kind_def)
        then show ?thesis using less.prems(1) by blast
      next
        case True
        have ok: "wq_ok order_of q" using less.prems(1) by (simp add: batched_def)
        have left: "budget - spent \<noteq> 0" "unat (budget - spent) = unat budget - unat spent"
          using more by (auto simp: unat_sub word_le_nat_alt word_less_nat_alt)
        have items: "wq_items q = (k, i) # es" using Cons e by simp
        obtain j q' where pop: "pop (budget - spent) q = Inr (Some j, q')" "taken order_of (budget - spent) q j q'"
          using pop_some [OF ok left(1) items] by blast
        obtain c where c: "item_cost j = Inr c" "c \<le> budget - spent" using pop(2) unfolding taken_def by blast
        have fits: "unat spent + unat c \<le> unat budget" using c(2) left(2) more unfolding word_le_nat_alt word_less_nat_alt by linarith
        then have "unat spent + unat c < 18446744073709551616" using unat_lt_u64 [of budget] by linarith
        then have sum: "unat (spent + c) = unat spent + unat c" "add_u64 spent c = Inr (spent + c)"
          by (simp_all add: unat_word_ariths add_u64_def checked_add_def)
        have "same_kind first j" using True taken_first [OF ok items pop(2)] by (simp add: same_kind_def)
        then have "batched order_of budget max_items first q0 (batch @ [j]) q'"
          using batched_step [OF less.prems(1) pop(2)] more fits cost_card [OF c(1)] less.prems(2) by simp
        moreover have "unat (spent + c) = batch_cost (batch @ [j])" using sum(1) less.prems(2) cost_card [OF c(1)] by (simp add: batch_cost_def)
        ultimately obtain batch' q'' where "pop_batch_loop budget max_items first (spent + c) (batch @ [j]) q' = Inr (batch', q'')"
            "batched order_of budget max_items first q0 batch' q''"
          using less.hyps [of "batch @ [j]" q' "spent + c"] more by (auto simp: diff_less_mono2)
        then show ?thesis using loop more items True pop(1) c(1) sum(2) by (simp add: same_kind_def)
      qed
    qed
  next
    case False
    then have "pop_batch_loop budget max_items first spent batch q = Inr (batch, q)" by (subst loop) (simp only: if_False)
    then show ?thesis using less.prems(1) by blast
  qed
qed

lemma pop_batch_ok:
  assumes "wq_ok order_of q" "budget \<noteq> 0" "\<not> wq_is_empty q"
  shows "\<exists>first batch q'. pop_batch budget max_items q = Inr (batch, q') \<and> batched order_of budget max_items first q batch q'"
proof -
  obtain k i rest where items: "wq_items q = (k, i) # rest" using assms(3) by (cases "wq_items q") (auto simp: wq_is_empty_def)
  obtain j q1 where pop: "pop budget q = Inr (Some j, q1)" "taken order_of budget q j q1" using pop_some [OF assms(1,2) items] by blast
  obtain c where c: "item_cost j = Inr c" "c \<le> budget" using pop(2) unfolding taken_def by blast
  have "batched order_of budget max_items j q [j] q1"
    using pop(2) c cost_card [OF c(1)] unfolding taken_def batched_def by (auto simp: same_kind_def batch_cost_def word_le_nat_alt)
  moreover have "unat c = batch_cost [j]" using cost_card [OF c(1)] by (simp add: batch_cost_def)
  ultimately show ?thesis using pop_batch_loop_ok [of order_of budget max_items j q "[j]" q1 c] pop(1) c(1) by (auto simp: pop_batch_def)
qed

section \<open>Draining\<close>

text \<open>
  The engine takes work out until none is left. A source of work drains when each take-out makes
  progress and loses nothing; the queue is such a source, item by item and batch by batch.
\<close>

fun take_all :: "('b \<Rightarrow> 'q \<Rightarrow> ('o list \<times> 'q) outcome) \<Rightarrow> 'b list \<Rightarrow> 'q \<Rightarrow> ('o list \<times> 'q) outcome" where
  "take_all f [] q = Inr ([], q)"
| "take_all f (b # bs) q = and_then (f b q) (\<lambda>(out, q). map_ok (\<lambda>(outs, q). (out @ outs, q)) (take_all f bs q))"

locale work_source =
  fixes ok :: "'q \<Rightarrow> bool" and load :: "'q \<Rightarrow> nat" and work :: "'q \<Rightarrow> 'u set" and work_of :: "'o \<Rightarrow> 'u set"
    and take_out :: "'b \<Rightarrow> 'q \<Rightarrow> ('o list \<times> 'q) outcome" and useful :: "'b \<Rightarrow> bool"
  assumes progress: "ok q \<Longrightarrow> useful b \<Longrightarrow> load q \<noteq> 0 \<Longrightarrow>
      \<exists>out q'. take_out b q = Inr (out, q') \<and> ok q' \<and> load q' < load q \<and> work q = (\<Union>j \<in> set out. work_of j) \<union> work q'"
    and idle: "ok q \<Longrightarrow> load q = 0 \<Longrightarrow> take_out b q = Inr ([], q)"
    and no_work: "ok q \<Longrightarrow> load q = 0 \<Longrightarrow> work q = {}"
begin

lemma drains:
  assumes "ok q" "\<forall>b \<in> set bs. useful b" "load q \<le> length bs"
  shows "\<exists>out q'. take_all take_out bs q = Inr (out, q') \<and> ok q' \<and> load q' = 0 \<and> (\<Union>j \<in> set out. work_of j) = work q"
  using assms
proof (induction bs arbitrary: q)
  case (Cons b bs)
  show ?case
  proof (cases "load q = 0")
    case True
    then obtain out q' where "take_all take_out bs q = Inr (out, q') \<and> ok q' \<and> load q' = 0 \<and> (\<Union>j \<in> set out. work_of j) = work q"
      using Cons.IH [of q] Cons.prems by auto
    then show ?thesis using True Cons.prems(1) idle by simp
  next
    case False
    then obtain out1 q1 where one: "take_out b q = Inr (out1, q1)" "ok q1" "load q1 < load q" "work q = (\<Union>j \<in> set out1. work_of j) \<union> work q1"
      using progress [of q b] Cons.prems(1,2) by auto
    then obtain out q' where "take_all take_out bs q1 = Inr (out, q')" "ok q'" "load q' = 0" "(\<Union>j \<in> set out. work_of j) = work q1"
      using Cons.IH [of q1] Cons.prems(2,3) by auto
    then show ?thesis using one by simp
  qed
qed (use no_work in auto)

end

definition wq_sound :: "(nat \<Rightarrow> u32) \<Rightarrow> address_space_id set \<Rightarrow> work_queue \<Rightarrow> bool" where
  "wq_sound order_of S q \<longleftrightarrow> wq_ok order_of q \<and> wq_bounded S q \<and> 2 * Suc (card S) \<le> MAX_WORK_ITEMS_PER_ANALYSER"

definition pop_listed :: "u64 \<Rightarrow> work_queue \<Rightarrow> (work_item list \<times> work_queue) outcome" where
  "pop_listed budget q = map_ok (\<lambda>(popped, q). (case popped of None \<Rightarrow> [] | Some j \<Rightarrow> [j], q)) (pop budget q)"

lemma no_load: assumes "wq_ok order_of q" shows "wq_load q = 0 \<longleftrightarrow> wq_items q = []"
proof (cases "wq_items q")
  case (Cons e es)
  then have "map_of (wq_items q) (fst e) = Some (snd e)" by (cases e) simp
  then show ?thesis using wq_load_dropped [OF assms, of "fst e" "snd e"] item_load_pos [of "snd e"] Cons by simp
qed (simp add: wq_load_def)

interpretation popping: work_source "wq_sound order_of S" wq_load queue_work item_work pop_listed "\<lambda>budget. budget \<noteq> 0"
proof
  fix q and budget :: u64
  assume sound: "wq_sound order_of S q"
  then have q: "wq_ok order_of q" "wq_bounded S q" "2 * Suc (card S) \<le> MAX_WORK_ITEMS_PER_ANALYSER" by (simp_all add: wq_sound_def)
  {
    assume "budget \<noteq> 0" "wq_load q \<noteq> 0"
    then obtain k i rest where "wq_items q = (k, i) # rest" using no_load [OF q(1)] by (cases "wq_items q") auto
    then obtain j q' where pop: "pop budget q = Inr (Some j, q')" "taken order_of budget q j q'" using pop_some [OF q(1) \<open>budget \<noteq> 0\<close>] by blast
    then have "wq_ok order_of q'" "wq_bounded S q'" "queue_work q = item_work j \<union> queue_work q'" "wq_load q' < wq_load q"
      using q(2,3) unfolding taken_def by simp_all
    then show "\<exists>out q'. pop_listed budget q = Inr (out, q') \<and> wq_sound order_of S q' \<and> wq_load q' < wq_load q \<and>
        queue_work q = (\<Union>j \<in> set out. item_work j) \<union> queue_work q'"
      using pop(1) q(3) by (simp add: pop_listed_def wq_sound_def)
  }
  {
    assume "wq_load q = 0"
    then have "wq_items q = []" using no_load [OF q(1)] by simp
    then show "pop_listed budget q = Inr ([], q)" "queue_work q = {}" by (simp_all add: pop_listed_def pop_none queue_work_def)
  }
qed

interpretation batching: work_source "wq_sound order_of S" wq_load queue_work item_work "\<lambda>(budget, max_items). pop_batch budget max_items"
    "\<lambda>(budget, max_items). budget \<noteq> 0"
proof
  fix q and b :: "u64 \<times> nat"
  obtain budget max_items where b: "b = (budget, max_items)" by (cases b)
  assume sound: "wq_sound order_of S q"
  then have q: "wq_ok order_of q" "wq_bounded S q" "2 * Suc (card S) \<le> MAX_WORK_ITEMS_PER_ANALYSER" by (simp_all add: wq_sound_def)
  {
    assume "case b of (budget, max_items) \<Rightarrow> budget \<noteq> 0" "wq_load q \<noteq> 0"
    then have "budget \<noteq> 0" "\<not> wq_is_empty q" using no_load [OF q(1)] b by (simp_all add: wq_is_empty_def)
    then obtain first batch q' where batch: "pop_batch budget max_items q = Inr (batch, q')" "batched order_of budget max_items first q batch q'"
      using pop_batch_ok [OF q(1)] by blast
    then have "wq_ok order_of q'" "wq_bounded S q'" "queue_work q = (\<Union>j \<in> set batch. item_work j) \<union> queue_work q'" "wq_load q' < wq_load q"
      using q(2,3) unfolding batched_def by blast+
    then show "\<exists>out q'. (case b of (budget, max_items) \<Rightarrow> pop_batch budget max_items) q = Inr (out, q') \<and> wq_sound order_of S q' \<and>
        wq_load q' < wq_load q \<and> queue_work q = (\<Union>j \<in> set out. item_work j) \<union> queue_work q'"
      using batch(1) q(3) b by (simp add: wq_sound_def)
  }
  {
    assume "wq_load q = 0"
    then have "wq_items q = []" using no_load [OF q(1)] by simp
    then show "(case b of (budget, max_items) \<Rightarrow> pop_batch budget max_items) q = Inr ([], q)" "queue_work q = {}"
      using b by (simp_all add: pop_batch_def pop_none queue_work_def)
  }
qed

section \<open>The queue as its users see it\<close>

lemma wq_ok_new: "inj_on order_of {..<n} \<Longrightarrow> wq_ok order_of (with_analysers n)"
  by (simp add: wq_ok_def with_analysers_def maps_ok_def)

lemma queue_work_new [simp]: "queue_work (with_analysers n) = {}"
  by (simp add: queue_work_def with_analysers_def)

lemma wq_bounded_new: "wq_bounded S (with_analysers n)"
  by (simp add: wq_bounded_def with_analysers_def)

text \<open>
  C12. Scheduling regions for an analyser returns and keeps the queue's two indexes consistent: no
  assertion of the queue fails. Afterwards the queue has all its earlier work and the analyser's work
  on every address of the regions (or global work when the regions are empty). Work is added beyond
  that only to this analyser and only when the report says that ranges were collapsed. The number of
  items of an analyser stays within its bound while the work is in at most 2047 address spaces.
\<close>

theorem schedule_keeps_work:
  assumes "range_set rm" "bm_ok regions" "wq_ok order_of q" "analyser < length (wq_keys q)"
  shows "\<exists>report q'. schedule rm analyser (order_of analyser) phase priority regions cause q = Inr (report, q') \<and>
    wq_ok order_of q' \<and> covers {analyser} report (queue_work q \<union> region_work rm analyser regions) (queue_work q') \<and>
    (\<forall>S. wq_bounded S q \<longrightarrow> space_of ` members rm regions \<subseteq> S \<longrightarrow> 2 * Suc (card S) \<le> MAX_WORK_ITEMS_PER_ANALYSER \<longrightarrow> wq_bounded S q')"
proof -
  let ?rs = "map Some (set_ranges rm regions) @ (if set_is_empty rm regions then [None] else [])"
    and ?f = "region_item analyser (order_of analyser) phase priority cause"
  have each: "\<forall>rg \<in> set ?rs. item_ok order_of (length (wq_keys q)) (?f rg) \<and> wi_analyser (?f rg) \<in> {analyser}"
    using assms(4) by (simp add: item_ok_def region_item_def)
  obtain report q' where ins: "fold_ok (\<lambda>rg. insert_reporting (?f rg)) ?rs ([], q) = Inr (report, q')" "wq_ok order_of q'"
      "covers {analyser} report (queue_work q \<union> (\<Union>rg \<in> set ?rs. item_work (?f rg))) (queue_work q')"
      "\<forall>S. wq_bounded S q \<longrightarrow> (\<forall>rg \<in> set ?rs. item_in S (?f rg)) \<longrightarrow> 2 * Suc (card S) \<le> MAX_WORK_ITEMS_PER_ANALYSER \<longrightarrow> wq_bounded S q'"
    using insert_all_ok [OF assms(3) each, of "[]"] by (elim exE conjE) (rule that; assumption)
  have spaces: "item_in S (?f rg)" if "space_of ` members rm regions \<subseteq> S" "rg \<in> set ?rs" for S rg
  proof (cases rg)
    case (Some r)
    then have r: "r \<in> set (set_ranges rm regions)" using that(2) by (auto split: if_splits)
    then have "ar_start r \<le> ar_end r" using range_set.set_ranges_filled [OF assms(1)] by (simp add: ar_is_empty_def not_less)
    then have "Address (ar_space r) (ar_start r) \<in> members rm regions"
      unfolding range_set.set_ranges_members [OF assms(1,2), symmetric] using r by (intro UN_I [of r]) simp_all
    then show ?thesis using that(1) Some by (force simp: item_in_def region_item_def)
  qed (simp add: item_in_def region_item_def)
  have "schedule rm analyser (order_of analyser) phase priority regions cause q = Inr (report, q')" using ins(1) by (simp only: schedule_def)
  moreover have "covers {analyser} report (queue_work q \<union> region_work rm analyser regions) (queue_work q')"
    using ins(3) by (simp only: schedule_work [OF assms(1,2)])
  moreover have "wq_bounded S q'"
    if "wq_bounded S q" "space_of ` members rm regions \<subseteq> S" "2 * Suc (card S) \<le> MAX_WORK_ITEMS_PER_ANALYSER" for S
    using ins(4) that(1,3) spaces [OF that(2)] by blast
  ultimately show ?thesis using ins(2) by blast
qed

theorem schedule_keeps_work_witness:
  "\<exists>report q'. schedule list_rangemap 0 7 Decode 100 [(0, [(0, 9)])]
      (\<lambda>r. \<lparr>wc_range = r, wc_kind = 1, wc_provenance = [], wc_trigger = Change, wc_revision = 0\<rparr>) (with_analysers 1) = Inr (report, q') \<and>
    (0, Region, Some (Address 0 3)) \<in> queue_work q'"
proof -
  have "range_set list_rangemap" "bm_ok [(0 :: u16, [(0 :: u64, 9 :: u64)])]" "wq_ok (\<lambda>_. 7) (with_analysers 1)"
    "0 < length (wq_keys (with_analysers 1))"
    by (rule listed.range_set_axioms, simp add: bm_ok_def, simp add: wq_ok_new inj_on_def, simp add: with_analysers_def)
  from schedule_keeps_work [OF this, of Decode 100 "\<lambda>r. \<lparr>wc_range = r, wc_kind = 1, wc_provenance = [], wc_trigger = Change, wc_revision = 0\<rparr>"]
  obtain report q' where s: "schedule list_rangemap 0 7 Decode 100 [(0, [(0, 9)])]
      (\<lambda>r. \<lparr>wc_range = r, wc_kind = 1, wc_provenance = [], wc_trigger = Change, wc_revision = 0\<rparr>) (with_analysers 1) = Inr (report, q')"
    "covers {0} report (queue_work (with_analysers 1) \<union> region_work list_rangemap 0 [(0, [(0, 9)])]) (queue_work q')" by blast
  have "Address 0 3 \<in> members list_rangemap [(0, [(0, 9)])]" by (simp add: members_def set_contains_def list_rangemap_def)
  then have "(0, Region, Some (Address 0 3)) \<in> region_work list_rangemap 0 [(0, [(0, 9)])]" by (auto simp: region_work_def)
  then show ?thesis using s unfolding covers_def by blast
qed

text \<open>
  C21. Popping under a budget hands out nothing exactly when the budget is zero or the queue is
  empty. Otherwise it hands out the first item in key order or, when that is larger than the
  budget, the front of it that fits; the remainder goes back into the queue, so that the item and
  the queue left behind have all the work there was, and no more within the bound on items.
\<close>

theorem pop_correct:
  assumes "wq_ok order_of q"
  shows "if budget = 0 \<or> wq_is_empty q then pop budget q = Inr (None, q)
    else \<exists>j q'. pop budget q = Inr (Some j, q') \<and> taken order_of budget q j q'"
  using pop_none [of budget q] pop_some [OF assms, of budget] by (cases "wq_items q") (auto simp: wq_is_empty_def)

definition sample_item :: work_item where
  "sample_item = \<lparr>wi_analyser = 0, wi_order = 7, wi_phase = Decode, wi_priority = 100, wi_range = Some (AddressRange 0 0 9),
     wi_causes = [], wi_attempts = 0, wi_kind = Region\<rparr>"

lemma sample_ok: "wq_ok (\<lambda>_. 7) (placed sample_item (with_analysers 1))"
  by (rule wq_ok_placed(2) [OF wq_ok_new]) (simp_all add: inj_on_def item_ok_def sample_item_def with_analysers_def)

lemma sample_items: "wq_items (placed sample_item (with_analysers 1)) = [(item_key sample_item, sample_item)]"
  by (simp add: placed_def with_analysers_def bm_insert_def)

theorem pop_correct_witness:
  "\<exists>j q'. pop 4 (placed sample_item (with_analysers 1)) = Inr (Some j, q') \<and>
     taken (\<lambda>_. 7) 4 (placed sample_item (with_analysers 1)) j q' \<and> wi_phase j = Decode"
proof -
  let ?q = "placed sample_item (with_analysers 1)"
  have "\<not> wq_is_empty ?q" by (simp add: wq_is_empty_def sample_items del: One_nat_def)
  then obtain j q' where j: "pop 4 ?q = Inr (Some j, q')" "taken (\<lambda>_. 7) 4 ?q j q'" using pop_correct [OF sample_ok, of 4] by auto
  have "same_kind sample_item j" by (rule taken_first [OF sample_ok sample_items j(2)])
  then show ?thesis using j by (auto simp: same_kind_def sample_item_def)
qed

text \<open>
  C14. The queue drains: from a consistent queue within its bounds, enough take-outs of batches with
  budgets above zero (at most one for each queued address or global item) empty it. None of them
  fails, and together the batches have exactly the work that was queued.
\<close>

theorem work_queue_drains:
  assumes "wq_ok order_of q" "wq_bounded S q" "2 * Suc (card S) \<le> MAX_WORK_ITEMS_PER_ANALYSER"
    "\<forall>b \<in> set bs. fst b \<noteq> 0" "wq_load q \<le> length bs"
  shows "\<exists>batches q'. take_all (\<lambda>(budget, max_items). pop_batch budget max_items) bs q = Inr (batches, q') \<and>
    wq_is_empty q' \<and> (\<Union>j \<in> set batches. item_work j) = queue_work q"
proof -
  have "wq_sound order_of S q" using assms(1-3) by (simp add: wq_sound_def)
  moreover have "\<forall>b \<in> set bs. case b of (budget, max_items) \<Rightarrow> budget \<noteq> 0" using assms(4) by auto
  ultimately obtain batches q' where "take_all (\<lambda>(budget, max_items). pop_batch budget max_items) bs q = Inr (batches, q')"
      "wq_sound order_of S q'" "wq_load q' = 0" "(\<Union>j \<in> set batches. item_work j) = queue_work q"
    using batching.drains [of order_of S q bs, OF _ _ assms(5)] by blast
  then show ?thesis using no_load [of order_of q'] by (auto simp: wq_sound_def wq_is_empty_def)
qed

theorem work_queue_drains_witness:
  "\<exists>batches q'. take_all (\<lambda>(budget, max_items). pop_batch budget max_items) (replicate 10 (4, 8)) (placed sample_item (with_analysers 1)) =
     Inr (batches, q') \<and> wq_is_empty q' \<and> (\<Union>j \<in> set batches. item_work j) = item_work sample_item"
proof -
  let ?q = "placed sample_item (with_analysers 1)"
  have "bm_ok (wq_items (with_analysers 1))" by (simp add: with_analysers_def)
  then have work: "queue_work ?q = item_work sample_item" by (subst queue_work_placed) (simp_all add: with_analysers_def queue_work_def)
  have load: "wq_load ?q = 10" unfolding wq_load_def sample_items by (simp add: item_load_def sample_item_def card_addresses_of ar_is_empty_def)
  have bounded: "wq_bounded {0} ?q" unfolding wq_bounded_def sample_items
    by (simp add: placed_def with_analysers_def sample_item_def item_in_def bm_insert_def MAX_WORK_ITEMS_PER_ANALYSER_def)
  show ?thesis using work_queue_drains [OF sample_ok bounded, of "replicate 10 (4, 8)"] load work
    by (simp add: MAX_WORK_ITEMS_PER_ANALYSER_def)
qed

text \<open>
  C22. Cancelling a region for some phases returns, keeps the indexes consistent and loses no work
  outside the region. Unless the report says that ranges were collapsed, it adds no work either, the
  items of those phases have no address of the region any more, and every item of another phase
  still has an item of the same analyser, phase and location.
\<close>

theorem cancel_correct:
  assumes "range_set rm" "bm_ok region" "wq_ok order_of q"
  shows "\<exists>report q'. cancel rm phases region q = Inr (report, q') \<and> wq_ok order_of q' \<and>
    queue_work q - in_region rm region \<subseteq> queue_work q' \<and>
    (\<not> collapsed_ranges report \<longrightarrow> queue_work q' \<subseteq> queue_work q \<and>
      (\<forall>j \<in> ran (map_of (wq_items q')). wi_phase j \<in> set phases \<longrightarrow> clear_of rm region j) \<and>
      (\<forall>i \<in> ran (map_of (wq_items q)). wi_phase i \<notin> set phases \<longrightarrow> (\<exists>j \<in> ran (map_of (wq_items q')). same_place i j)))"
proof -
  let ?hit = "\<lambda>i. wi_phase i \<in> set phases \<and> (case wi_range i of None \<Rightarrow> False | Some r \<Rightarrow> set_intersects_range rm r region)"
  let ?ks = "map fst (filter (\<lambda>(_, i). ?hit i) (wq_items q))"
  have ok: "bm_ok (wq_items q)" using assms(3) by (simp add: wq_ok_def)
  have key: "k = item_key i" if "(k, i) \<in> set (wq_items q)" for k i
    using that bm_entries [OF ok, of k i] wq_ok_dropped(1) [OF assms(3)] by simp
  have "\<forall>k \<in> set ?ks. fst (snd k) \<noteq> None \<and> fst k \<in> set phases"
  proof
    fix k assume "k \<in> set ?ks"
    then obtain i where "(k, i) \<in> set (wq_items q)" "?hit i" by auto
    then show "fst (snd k) \<noteq> None \<and> fst k \<in> set phases" using key [of k i] by (auto simp: item_key_def split: option.splits)
  qed
  then obtain report q' where c: "fold_ok (cancel_key rm region) ?ks ([], q) = Inr (report, q')"
      "cancelled order_of rm region (set phases) (set ?ks) q report q'"
    using cancel_keys [OF assms, of ?ks "set phases" "[]"] by blast
  have hit: "item_key j \<in> set ?ks" if "j \<in> ran (map_of (wq_items q))" "wi_phase j \<in> set phases" "\<not> clear_of rm region j" for j
  proof -
    obtain k where "map_of (wq_items q) k = Some j" using \<open>j \<in> ran (map_of (wq_items q))\<close> unfolding ran_def by blast
    then have "(k, j) \<in> set (wq_items q)" using bm_entries [OF ok] by blast
    moreover have "?hit j" using that(2,3) range_set.intersects_range_iff [OF assms(1)]
      by (auto simp: clear_of_def split: option.splits)
    ultimately show ?thesis using key [of k j] unfolding set_map set_filter by (intro image_eqI [of _ _ "(k, j)"]) simp_all
  qed
  have "cancel rm phases region q = Inr (report, q')" using c(1) by (simp add: cancel_def)
  moreover have "wi_phase j \<in> set phases \<Longrightarrow> clear_of rm region j" if "\<not> collapsed_ranges report" "j \<in> ran (map_of (wq_items q'))" for j
    using c(2) that hit [of j] unfolding cancelled_def by blast
  moreover have "wq_ok order_of q'" "queue_work q - in_region rm region \<subseteq> queue_work q'" using c(2) by (simp_all add: cancelled_def)
  moreover have "queue_work q' \<subseteq> queue_work q" "i \<in> ran (map_of (wq_items q)) \<Longrightarrow> wi_phase i \<notin> set phases \<Longrightarrow> \<exists>j \<in> ran (map_of (wq_items q')). same_place i j"
    if "\<not> collapsed_ranges report" for i
    using c(2) that unfolding cancelled_def persist_def by simp_all blast
  ultimately show ?thesis by blast
qed

theorem cancel_correct_witness:
  "\<exists>report q'. cancel list_rangemap [Decode] [(0, [(3, 4)])] (placed sample_item (with_analysers 1)) = Inr (report, q') \<and>
     (0, Region, Some (Address 0 2)) \<in> queue_work q'"
proof -
  let ?q = "placed sample_item (with_analysers 1)" and ?region = "[(0, [(3, 4)])] :: inclusive list address_range_set"
  have "bm_ok ?region" by (simp add: bm_ok_def)
  then obtain report q' where c: "cancel list_rangemap [Decode] ?region ?q = Inr (report, q')"
      "queue_work ?q - in_region list_rangemap ?region \<subseteq> queue_work q'"
    using cancel_correct [OF listed.range_set_axioms _ sample_ok, of ?region "[Decode]"] by blast
  have "(0, Region, Some (Address 0 2)) \<in> queue_work ?q"
    unfolding queue_work_def sample_items by (simp add: item_work_def sample_item_def)
  moreover have "(0, Region, Some (Address 0 2)) \<notin> in_region list_rangemap ?region"
    by (simp add: in_region_def members_def set_contains_def list_rangemap_def)
  ultimately show ?thesis using c by blast
qed

text \<open>
  C34. A batch is empty exactly when the budget is zero or the queue is empty. Otherwise its items
  have one analyser, phase and kind, their total cost is within the budget, their number is within
  the limit (a limit of zero still gives one item), and batch and remaining queue have all the work.
\<close>

theorem pop_batch_correct:
  assumes "wq_ok order_of q"
  shows "if budget = 0 \<or> wq_is_empty q then pop_batch budget max_items q = Inr ([], q)
    else \<exists>first batch q'. pop_batch budget max_items q = Inr (batch, q') \<and> batched order_of budget max_items first q batch q'"
  using pop_batch_ok [OF assms] pop_none [of budget q] by (auto simp: pop_batch_def wq_is_empty_def)

theorem pop_batch_correct_witness:
  "\<exists>first batch q'. pop_batch 4 8 (placed sample_item (with_analysers 1)) = Inr (batch, q') \<and>
     batched (\<lambda>_. 7) 4 8 first (placed sample_item (with_analysers 1)) batch q'"
proof -
  have "\<not> wq_is_empty (placed sample_item (with_analysers 1))" by (simp add: wq_is_empty_def sample_items del: One_nat_def)
  then show ?thesis using pop_batch_correct [OF sample_ok, of 4 8] by simp
qed

text \<open>
  The queries about one analyser: it has pending work exactly when some queued item is its own,
  and its pending regions are exactly the addresses of its queued work.
\<close>

lemma pending_fold:
  assumes "range_set rm" "bm_ok s"
  shows "\<exists>s'. fold_ok (\<lambda>((rg, _), _) pending. case rg of None \<Rightarrow> Inr pending | Some r \<Rightarrow> set_insert_range rm r pending) es s = Inr s' \<and>
    bm_ok s' \<and> members rm s' = members rm s \<union> {x. \<exists>r k key. ((Some r, k), key) \<in> set es \<and> x \<in> addresses_of r}"
  using assms(2)
proof (induction es arbitrary: s)
  case (Cons e es)
  obtain rg k key where e: "e = ((rg, k), key)" by (metis prod.exhaust)
  let ?new = "case rg of None \<Rightarrow> {} | Some r \<Rightarrow> addresses_of r"
  obtain s1 where s1: "(case rg of None \<Rightarrow> Inr s | Some r \<Rightarrow> set_insert_range rm r s) = Inr s1" "bm_ok s1" "members rm s1 = members rm s \<union> ?new"
    using range_set.set_insert_range_ok [OF assms(1) Cons.prems] Cons.prems by (cases rg) auto
  obtain s2 where s2: "fold_ok (\<lambda>((rg, _), _) pending. case rg of None \<Rightarrow> Inr pending | Some r \<Rightarrow> set_insert_range rm r pending) es s1 = Inr s2"
      "bm_ok s2" "members rm s2 = members rm s1 \<union> {x. \<exists>r k key. ((Some r, k), key) \<in> set es \<and> x \<in> addresses_of r}"
    using Cons.IH [OF s1(2)] by blast
  have "{x. \<exists>r k key. ((Some r, k), key) \<in> set (e # es) \<and> x \<in> addresses_of r} =
      ?new \<union> {x. \<exists>r k key. ((Some r, k), key) \<in> set es \<and> x \<in> addresses_of r}"
    unfolding e by (cases rg) auto
  then show ?case using s1 s2 e by (simp add: Un_assoc)
qed simp

lemma pending_for_correct:
  assumes "range_set rm" "wq_ok order_of q"
  shows "has_pending_for q analyser \<longleftrightarrow> (\<exists>i \<in> ran (map_of (wq_items q)). wi_analyser i = analyser)"
    "\<exists>s. pending_for rm q analyser = Inr s \<and> bm_ok s \<and> members rm s = {x. \<exists>k. (analyser, k, Some x) \<in> queue_work q}"
proof -
  have own: "(analyser, k, Some x) \<in> queue_work q \<longleftrightarrow>
      (\<exists>i r. i \<in> ran (map_of (wq_items q)) \<and> wi_analyser i = analyser \<and> location_of i = (Some r, k) \<and> x \<in> addresses_of r)" for k x
    by (auto simp: queue_work_def item_work_def location_of_def split: option.splits)
  have "(has_pending_for q analyser \<longleftrightarrow> (\<exists>i \<in> ran (map_of (wq_items q)). wi_analyser i = analyser)) \<and>
    (\<exists>s. pending_for rm q analyser = Inr s \<and> bm_ok s \<and> members rm s = {x. \<exists>k. (analyser, k, Some x) \<in> queue_work q})"
  proof (cases "analyser < length (wq_keys q)")
    case True
    let ?keys = "wq_keys q ! analyser"
    have q: "bm_ok ?keys" "maps_ok order_of (length (wq_keys q)) (map_of (wq_items q)) (\<lambda>a. map_of (wq_keys q ! a))"
      using assms(2) True by (simp_all add: wq_ok_def)
    have mem: "(loc, k) \<in> set ?keys \<longleftrightarrow> (\<exists>i. map_of (wq_items q) k = Some i \<and> wi_analyser i = analyser \<and> location_of i = loc)" for loc k
      using q(2) True bm_entries [OF q(1), of loc k] unfolding maps_ok_def by metis
    have "?keys \<noteq> [] \<longleftrightarrow> (\<exists>loc k. (loc, k) \<in> set ?keys)" by (metis list.set_intros(1) list.set_cases neq_Nil_conv prod.exhaust length_greater_0_conv length_pos_if_in_set)
    then have "has_pending_for q analyser \<longleftrightarrow> (\<exists>i \<in> ran (map_of (wq_items q)). wi_analyser i = analyser)"
      using True unfolding has_pending_for_def mem ran_def by blast
    moreover have "{x. \<exists>r k key. ((Some r, k), key) \<in> set ?keys \<and> x \<in> addresses_of r} = {x. \<exists>k. (analyser, k, Some x) \<in> queue_work q}"
      unfolding own mem ran_def by blast
    ultimately show ?thesis using True pending_fold [OF assms(1), of set_new ?keys] range_set.members_new [OF assms(1)]
      by (simp add: pending_for_def set_new_def)
  next
    case False
    then have "wi_analyser i \<noteq> analyser" if "i \<in> ran (map_of (wq_items q))" for i
      using that assms(2) unfolding wq_ok_def maps_ok_def item_ok_def ran_def by auto
    then show ?thesis using False range_set.members_new [OF assms(1)] own by (auto simp: has_pending_for_def pending_for_def set_new_def)
  qed
  then show "has_pending_for q analyser \<longleftrightarrow> (\<exists>i \<in> ran (map_of (wq_items q)). wi_analyser i = analyser)"
    "\<exists>s. pending_for rm q analyser = Inr s \<and> bm_ok s \<and> members rm s = {x. \<exists>k. (analyser, k, Some x) \<in> queue_work q}" by blast+
qed

end
