(* ===== verification/DisjointSet.thy ===== *)
theory DisjointSet
  imports Prelude
begin

text \<open>
  Disjoint sets with path halving, from \<open>fugue-core/src/il/common/disjoint_set.rs\<close>. The variable
  recovery of mcode groups values with them. A set is named by its least member: \<open>union\<close> hangs the
  larger root under the smaller one, so parents never point upwards, and the loop of \<open>find\<close> ends.
\<close>

section \<open>Operations\<close>

record disjoint_set =
  parents :: "u32 list"

definition disjoint_set_new :: "nat \<Rightarrow> disjoint_set" where
  "disjoint_set_new len = \<lparr>parents = map word_of_nat [0..<len]\<rparr>"

definition disjoint_set_len :: "disjoint_set \<Rightarrow> nat" where
  "disjoint_set_len s = length (parents s)"

partial_function (option) find_root :: "disjoint_set \<Rightarrow> nat \<Rightarrow> (nat \<times> disjoint_set) run" where
  "find_root s index =
     run_then (Some (get_at (parents s) index)) (\<lambda>p.
       if unat p \<noteq> index then
         run_then (Some (get_at (parents s) (unat p))) (\<lambda>grandparent.
         run_then (Some (put_at (parents s) index grandparent)) (\<lambda>ps.
           find_root (s\<lparr>parents := ps\<rparr>) (unat grandparent)))
       else Some (Inr (index, s)))"

definition union_sets :: "disjoint_set \<Rightarrow> nat \<Rightarrow> nat \<Rightarrow> disjoint_set run" where
  "union_sets s left right =
     run_then (find_root s left) (\<lambda>(left, s).
     run_then (find_root s right) (\<lambda>(right, s).
       if left \<noteq> right then
         run_then (Some (put_at (parents s) (max left right) (word_of_nat (min left right)))) (\<lambda>ps.
           Some (Inr (s\<lparr>parents := ps\<rparr>)))
       else Some (Inr s)))"

section \<open>Roots\<close>

definition ds_ok :: "u32 list \<Rightarrow> bool" where
  "ds_ok ps \<longleftrightarrow> length ps \<le> 2 ^ 32 \<and> (\<forall>i < length ps. unat (ps ! i) \<le> i)"

function root :: "u32 list \<Rightarrow> nat \<Rightarrow> nat" where
  "root ps i = (if i < length ps \<and> unat (ps ! i) < i then root ps (unat (ps ! i)) else i)"
  by pat_completeness auto

termination root
  by (relation "measure snd") auto

declare root.simps [simp del]

lemma root_step: "i < length ps \<Longrightarrow> unat (ps ! i) < i \<Longrightarrow> root ps i = root ps (unat (ps ! i))"
  by (subst root.simps) simp

lemma root_stop: "\<not> (i < length ps \<and> unat (ps ! i) < i) \<Longrightarrow> root ps i = i"
  by (subst root.simps) (simp only: if_False)

lemma root_le: "root ps i \<le> i"
proof (induction i rule: less_induct)
  case (less i)
  show ?case using less [of "unat (ps ! i)"] by (subst root.simps) auto
qed

lemma root_parent: "i < length ps \<Longrightarrow> ds_ok ps \<Longrightarrow> root ps (unat (ps ! i)) = root ps i"
  using root_step [of i ps] by (cases "unat (ps ! i) < i") (auto simp: ds_ok_def not_less dest: order.antisym)

lemma root_fixed: assumes "ds_ok ps" "i < length ps" shows "unat (ps ! root ps i) = root ps i"
  using assms(2)
proof (induction i rule: less_induct)
  case (less i)
  show ?case
  proof (cases "unat (ps ! i) < i")
    case True
    then show ?thesis using less root_step [OF less.prems True] by simp
  next
    case False
    then have "unat (ps ! i) = i" using assms(1) less.prems by (auto simp: ds_ok_def not_less intro: order.antisym)
    then show ?thesis using root_stop [of i ps] by simp
  qed
qed

lemma root_root: "ds_ok ps \<Longrightarrow> i < length ps \<Longrightarrow> root ps (root ps i) = root ps i"
  using root_fixed [of ps i] root_stop [of "root ps i" ps] by simp

text \<open>Path halving keeps every root.\<close>

lemma root_halving:
  assumes "ds_ok ps" "i < length ps"
  shows "root (ps[i := ps ! unat (ps ! i)]) j = root ps j" "ds_ok (ps[i := ps ! unat (ps ! i)])"
proof -
  let ?p = "unat (ps ! i)" and ?ps = "ps[i := ps ! unat (ps ! i)]"
  have p: "?p \<le> i" using assms by (simp add: ds_ok_def)
  then have "?p < length ps" using assms(2) by simp
  then have g: "unat (ps ! ?p) \<le> ?p" using assms(1) by (simp add: ds_ok_def)
  show ok: "ds_ok ?ps" using assms p g by (auto simp: ds_ok_def nth_list_update)
  show "root ?ps j = root ps j"
  proof (induction j rule: less_induct)
    case (less j)
    show ?case
    proof (cases "j < length ps")
      case True
      have par: "root ps (unat (?ps ! j)) = root ps j"
        using root_parent [OF True assms(1)] root_parent [OF assms(2,1)] root_parent [of ?p ps] assms p True
        by (cases "j = i") (simp_all add: nth_list_update)
      have low: "unat (?ps ! j) \<le> j" using ok True by (simp add: ds_ok_def)
      show ?thesis
      proof (cases "unat (?ps ! j) < j")
        case True
        then show ?thesis using less [of "unat (?ps ! j)"] par \<open>j < length ps\<close> root_step [of j ?ps] by simp
      next
        case False
        then have "unat (?ps ! j) = j" using low by simp
        then have "root ?ps j = j" using root_stop [of j ?ps] by simp
        moreover have "unat (ps ! j) = j"
          using \<open>unat (?ps ! j) = j\<close> p g True by (cases "j = i") (auto simp: nth_list_update)
        ultimately show ?thesis using root_stop [of j ps] by simp
      qed
    next
      case False
      then show ?thesis using root_stop [of j ps] root_stop [of j ?ps] by simp
    qed
  qed
qed

text \<open>Hanging a root under a smaller one joins the two sets.\<close>

lemma root_hang:
  assumes "ds_ok ps" "a < b" "b < length ps" "unat (ps ! a) = a" "unat (ps ! b) = b" "unat v = a"
  shows "root (ps[b := v]) j = (if root ps j = b then a else root ps j)" "ds_ok (ps[b := v])"
proof -
  show "ds_ok (ps[b := v])" using assms by (auto simp: ds_ok_def nth_list_update)
  have a: "root (ps[b := v]) a = a" using assms root_stop [of a "ps[b := v]"] by simp
  show "root (ps[b := v]) j = (if root ps j = b then a else root ps j)"
  proof (induction j rule: less_induct)
    case (less j)
    show ?case
    proof (cases "j = b")
      case True
      then show ?thesis using assms a root_step [of b "ps[b := v]"] root_stop [of b ps] by simp
    next
      case False
      then show ?thesis
        using less [of "unat (ps ! j)"] root_step [of j ps] root_stop [of j ps] root_step [of j "ps[b := v]"] root_stop [of j "ps[b := v]"]
        by (cases "j < length ps \<and> unat (ps ! j) < j") auto
    qed
  qed
qed

section \<open>The loop of find\<close>

lemma find_root_ok:
  assumes "ds_ok (parents s)" "i < length (parents s)"
  shows "\<exists>ps. find_root s i = Some (Inr (root (parents s) i, s\<lparr>parents := ps\<rparr>)) \<and> length ps = length (parents s) \<and> ds_ok ps \<and>
    (\<forall>j. root ps j = root (parents s) j)"
  using assms
proof (induction i arbitrary: s rule: less_induct)
  case (less i)
  let ?p = "unat (parents s ! i)"
  have p: "?p \<le> i" using less.prems by (simp add: ds_ok_def)
  then have lt: "?p < length (parents s)" using less.prems(2) by simp
  show ?case
  proof (cases "?p = i")
    case True
    have "root (parents s) i = i" using True root_stop [of i "parents s"] by simp
    then show ?thesis using True less.prems by (subst find_root.simps) (auto simp: get_at_def intro: exI [of _ "parents s"])
  next
    case False
    let ?g = "parents s ! ?p" and ?s = "s\<lparr>parents := (parents s)[i := parents s ! ?p]\<rparr>"
    have g: "unat ?g \<le> ?p" using less.prems(1) lt by (simp add: ds_ok_def)
    note half = root_halving [OF less.prems]
    have "\<exists>ps. find_root ?s (unat ?g) = Some (Inr (root (parents ?s) (unat ?g), ?s\<lparr>parents := ps\<rparr>)) \<and> length ps = length (parents ?s) \<and>
        ds_ok ps \<and> (\<forall>j. root ps j = root (parents ?s) j)"
      by (rule less.IH) (use False p g lt half(2) less.prems(2) in auto)
    then obtain ps where ps: "find_root ?s (unat ?g) = Some (Inr (root (parents ?s) (unat ?g), s\<lparr>parents := ps\<rparr>))"
        "length ps = length (parents s)" "ds_ok ps" "\<forall>j. root ps j = root (parents s) j" using half(1) by auto
    have "root (parents ?s) (unat ?g) = root (parents s) i"
      using half(1) root_parent [OF less.prems(2,1)] root_parent [OF lt less.prems(1)] by simp
    then show ?thesis using ps False less.prems(2) lt by (subst find_root.simps) (auto simp: get_at_def put_at_def)
  qed
qed

lemma union_sets_ok:
  assumes "ds_ok (parents s)" "l < length (parents s)" "r < length (parents s)"
  shows "\<exists>ps. union_sets s l r = Some (Inr (s\<lparr>parents := ps\<rparr>)) \<and> length ps = length (parents s) \<and> ds_ok ps \<and>
    (\<forall>j. root ps j = (if root (parents s) j = max (root (parents s) l) (root (parents s) r)
       then min (root (parents s) l) (root (parents s) r) else root (parents s) j))"
proof -
  let ?l = "root (parents s) l" and ?r = "root (parents s) r"
  obtain ps1 where 1: "find_root s l = Some (Inr (?l, s\<lparr>parents := ps1\<rparr>))" "length ps1 = length (parents s)" "ds_ok ps1"
    "\<forall>j. root ps1 j = root (parents s) j" using find_root_ok [OF assms(1,2)] by blast
  obtain ps2 where 2: "find_root (s\<lparr>parents := ps1\<rparr>) r = Some (Inr (?r, s\<lparr>parents := ps2\<rparr>))" "length ps2 = length (parents s)" "ds_ok ps2"
    "\<forall>j. root ps2 j = root (parents s) j"
    using find_root_ok [of "s\<lparr>parents := ps1\<rparr>" r] 1 assms(3) by auto
  show ?thesis
  proof (cases "?l = ?r")
    case True
    then show ?thesis using 1(1) 2 by (auto simp: union_sets_def intro!: exI [of _ ps2])
  next
    case False
    let ?a = "min ?l ?r" and ?b = "max ?l ?r"
    have lt: "?l < length ps2" "?r < length ps2" using root_le [of "parents s" l] root_le [of "parents s" r] assms(2,3) 2(2) by linarith+
    have fixed: "unat (ps2 ! ?l) = ?l" "unat (ps2 ! ?r) = ?r"
      using root_fixed [OF 2(3), of l] root_fixed [OF 2(3), of r] 2(2,4) assms(2,3) by simp_all
    have "?a < 2 ^ 32" using lt 2(3) by (auto simp: ds_ok_def)
    then have v: "unat (word_of_nat ?a :: u32) = ?a" by (simp add: unat_word_of_nat_small)
    have "?a < ?b" "?b < length ps2" "unat (ps2 ! ?a) = ?a" "unat (ps2 ! ?b) = ?b" using False lt fixed by (auto simp: min_def max_def)
    note hang = root_hang [OF 2(3) this v]
    show ?thesis using 1(1) 2(1,2,4) False lt hang by (auto simp: union_sets_def put_at_def)
  qed
qed

section \<open>Sequences of operations\<close>

datatype ds_op = Find nat | Union nat nat

fun ds_run :: "disjoint_set \<Rightarrow> ds_op list \<Rightarrow> disjoint_set run" where
  "ds_run s [] = Some (Inr s)"
| "ds_run s (Find i # ops) = run_then (find_root s i) (\<lambda>(_, s). ds_run s ops)"
| "ds_run s (Union l r # ops) = run_then (union_sets s l r) (\<lambda>s. ds_run s ops)"

fun ds_op_in :: "nat \<Rightarrow> ds_op \<Rightarrow> bool" where
  "ds_op_in len (Find i) = (i < len)"
| "ds_op_in len (Union l r) = (l < len \<and> r < len)"

definition unions :: "ds_op list \<Rightarrow> (nat \<times> nat) set" where
  "unions ops = {(l, r). Union l r \<in> set ops}"

definition joined :: "(nat \<times> nat) set \<Rightarrow> nat \<Rightarrow> nat \<Rightarrow> bool" where
  "joined us i j \<longleftrightarrow> (i, j) \<in> (us \<union> us\<inverse>)\<^sup>*"

lemma unions_simps [simp]:
  "unions [] = {}" "unions (Find i # ops) = unions ops" "unions (Union l r # ops) = insert (l, r) (unions ops)"
  by (auto simp: unions_def)

lemma joined_sym: "joined us i j \<Longrightarrow> joined us j i"
  unfolding joined_def using sym_rtrancl [of "us \<union> us\<inverse>"] by (simp add: sym_Un_converse symD)

lemma joined_trans: "joined us i j \<Longrightarrow> joined us j k \<Longrightarrow> joined us i k"
  unfolding joined_def by (rule rtrancl_trans)

lemma joined_insert:
  "joined (insert (l, r) us) i j \<longleftrightarrow>
     joined us i j \<or> (joined us i l \<and> joined us r j) \<or> (joined us i r \<and> joined us l j)"
proof -
  have "insert (l, r) us \<union> (insert (l, r) us)\<inverse> = insert (l, r) (insert (r, l) (us \<union> us\<inverse>))" by auto
  then have "joined (insert (l, r) us) i j \<longleftrightarrow> joined us i j \<or> (joined us i r \<and> joined us l j) \<or>
      ((joined us i l \<or> (joined us i r \<and> joined us l l)) \<and> (joined us r j \<or> (joined us r r \<and> joined us l j)))"
    by (simp add: joined_def rtrancl_insert)
  then show ?thesis using joined_trans by blast
qed

definition ds_joins :: "nat \<Rightarrow> (nat \<times> nat) set \<Rightarrow> disjoint_set \<Rightarrow> bool" where
  "ds_joins len us s \<longleftrightarrow> ds_ok (parents s) \<and> length (parents s) = len \<and>
     (\<forall>i < len. \<forall>j < len. root (parents s) i = root (parents s) j \<longleftrightarrow> joined us i j)"

lemma ds_joins_new: "len \<le> 2 ^ 32 \<Longrightarrow> ds_joins len {} (disjoint_set_new len)"
proof -
  assume len: "len \<le> 2 ^ 32"
  let ?ps = "map word_of_nat [0..<len] :: u32 list"
  have self: "unat (?ps ! i) = i" if "i < len" for i using that len by (simp add: unat_word_of_nat_small)
  then have "root ?ps i = i" if "i < len" for i using that root_stop [of i ?ps] by simp
  then show ?thesis using len self by (auto simp: ds_joins_def disjoint_set_new_def ds_ok_def joined_def)
qed

lemma ds_joins_union:
  assumes "ds_joins len us s" "l < len" "r < len"
  shows "\<exists>s'. union_sets s l r = Some (Inr s') \<and> ds_joins len (insert (l, r) us) s'"
proof -
  let ?root = "root (parents s)"
  have ok: "ds_ok (parents s)" "length (parents s) = len"
    and same: "\<And>i j. i < len \<Longrightarrow> j < len \<Longrightarrow> joined us i j \<longleftrightarrow> ?root i = ?root j"
    using assms(1) by (auto simp: ds_joins_def)
  obtain ps where ps: "union_sets s l r = Some (Inr (s\<lparr>parents := ps\<rparr>))" "length ps = len" "ds_ok ps"
    "\<And>j. root ps j = (if ?root j = max (?root l) (?root r) then min (?root l) (?root r) else ?root j)"
    using union_sets_ok [OF ok(1), of l r] ok(2) assms(2,3) by auto
  have "root ps i = root ps j \<longleftrightarrow> joined (insert (l, r) us) i j" if "i < len" "j < len" for i j
    using same assms(2,3) that by (auto simp: joined_insert ps(4) min_def max_def)
  then show ?thesis using ps(1-3) by (auto simp: ds_joins_def)
qed

lemma ds_joins_find:
  assumes "ds_joins len us s" "i < len"
  shows "\<exists>s'. find_root s i = Some (Inr (root (parents s) i, s')) \<and> ds_joins len us s'"
  using find_root_ok [of s i] assms by (auto simp: ds_joins_def)

lemma ds_joins_run:
  "ds_joins len us s \<Longrightarrow> \<forall>x \<in> set ops. ds_op_in len x \<Longrightarrow>
     \<exists>s'. ds_run s ops = Some (Inr s') \<and> ds_joins len (us \<union> unions ops) s'"
proof (induction s ops arbitrary: us rule: ds_run.induct)
  case (2 s i ops)
  then obtain s' where "find_root s i = Some (Inr (root (parents s) i, s'))" "ds_joins len us s'"
    using ds_joins_find [of len us s i] by auto
  then show ?case using "2.IH" "2.prems"(2) by simp
next
  case (3 s l r ops)
  then obtain s' where s': "union_sets s l r = Some (Inr s')" "ds_joins len (insert (l, r) us) s'"
    using ds_joins_union [of len us s l r] by auto
  then show ?case using "3.IH" [OF s'(2)] "3.prems"(2) by simp
qed simp

text \<open>
  C35. Disjoint sets compute the equivalence closure of the unions. Starting from \<open>new(len)\<close>, any sequence of
  \<open>find\<close> and \<open>union\<close> calls on indices below \<open>len\<close> runs to its end: no index is out of bounds and the loop of
  \<open>find\<close> stops. Afterwards \<open>find(i)\<close> returns the least element of the class of \<open>i\<close>, and two elements have the
  same representative exactly when a chain of unions joins them. Path halving, which rewrites the parents
  during \<open>find\<close>, never shows.
\<close>

theorem disjoint_set_correct:
  assumes "len \<le> 2 ^ 32" "\<forall>x \<in> set ops. ds_op_in len x"
  shows "\<exists>s rep. ds_run (disjoint_set_new len) ops = Some (Inr s) \<and> disjoint_set_len s = len \<and>
    (\<forall>i < len. (\<exists>s'. find_root s i = Some (Inr (rep i, s'))) \<and>
       joined (unions ops) i (rep i) \<and> (\<forall>j. joined (unions ops) i j \<longrightarrow> rep i \<le> j) \<and>
       (\<forall>j < len. rep i = rep j \<longleftrightarrow> joined (unions ops) i j))"
proof -
  obtain s where run: "ds_run (disjoint_set_new len) ops = Some (Inr s)" and s: "ds_joins len (unions ops) s"
    using ds_joins_run [OF ds_joins_new [OF assms(1)] assms(2)] by auto
  let ?rep = "root (parents s)"
  have ok: "ds_ok (parents s)" "length (parents s) = len"
    and same: "\<And>i j. i < len \<Longrightarrow> j < len \<Longrightarrow> ?rep i = ?rep j \<longleftrightarrow> joined (unions ops) i j"
    using s by (auto simp: ds_joins_def)
  have "(\<exists>s'. find_root s i = Some (Inr (?rep i, s'))) \<and> joined (unions ops) i (?rep i) \<and>
      (\<forall>j. joined (unions ops) i j \<longrightarrow> ?rep i \<le> j) \<and> (\<forall>j < len. ?rep i = ?rep j \<longleftrightarrow> joined (unions ops) i j)"
    if "i < len" for i
  proof (intro conjI allI impI)
    have low: "?rep i < len" using root_le [of "parents s" i] that by linarith
    show "\<exists>s'. find_root s i = Some (Inr (?rep i, s'))" using ds_joins_find [OF s that] by blast
    show "joined (unions ops) i (?rep i)" using same [OF that low] root_root [OF ok(1)] that ok(2) by simp
    show "?rep i \<le> j" if "joined (unions ops) i j" for j
      using same [OF \<open>i < len\<close>, of j] that low root_le [of "parents s" j] by (cases "j < len") auto
  qed (use same that in auto)
  then show ?thesis using run ok(2) by (intro exI [of _ s] exI [of _ ?rep]) (auto simp: disjoint_set_len_def)
qed

theorem disjoint_set_correct_witness:
  "let ops = [Union 4 2, Find 4, Union 0 3, Union 2 5] in
   \<exists>s rep. ds_run (disjoint_set_new 6) ops = Some (Inr s) \<and> disjoint_set_len s = 6 \<and>
    (\<forall>i < 6. (\<exists>s'. find_root s i = Some (Inr (rep i, s'))) \<and>
       joined (unions ops) i (rep i) \<and> (\<forall>j. joined (unions ops) i j \<longrightarrow> rep i \<le> j) \<and>
       (\<forall>j < 6. rep i = rep j \<longleftrightarrow> joined (unions ops) i j))"
  unfolding Let_def by (rule disjoint_set_correct) simp_all

end
