(* ===== verification/Ssa.thy ===== *)
theory Ssa
  imports DomTree
begin

text \<open>
  Values in SSA form, from \<open>fugue-core/src/il/common/ssa.rs\<close> and the \<open>SsaVerifier\<close> of \<open>verify.rs\<close>.
  The trait \<open>SsaIl\<close> that ecode and mcode implement is the record \<open>ssa_il\<close> of its methods;
  \<open>op_operands\<close> may panic, since the languages slice a pool with a stored range. The verifier's error
  type and its check of edge arguments are parameters, as they are in the code: \<open>frm\<close> is the
  conversion of an \<open>SsaVerifyError\<close> and \<open>verify_edge_arg\<close> the closure, which only reads.

  The verifier accepts a function exactly when its definitions dominate their uses, in terms of the
  walks of the flow graph, so that no execution reads an undefined value.
\<close>

section \<open>The trait and its verifier\<close>

type_synonym il_value_id = il_id
type_synonym il_block_arg_id = il_id

datatype il_ssa_def = BlockArgDef il_block_arg_id | OpDef il_op_id

record ('a, 'sp) ssa_il =
  ssa_graph :: "'a il_graph"
  value_count :: nat
  value_definition :: "il_value_id \<Rightarrow> il_ssa_def option"
  value_width :: "il_value_id \<Rightarrow> u32 option"
  block_arg_count :: nat
  block_arg_block :: "il_block_arg_id \<Rightarrow> il_block_id option"
  block_arg_value :: "il_block_arg_id \<Rightarrow> il_value_id option"
  block_arg_width :: "il_block_arg_id \<Rightarrow> u32 option"
  op_count :: nat
  op_operands :: "il_op_id \<Rightarrow> il_value_id list option outcome"
  edge_args :: "il_index_range list"
  edge_arg_values :: "il_value_id list"
  memory_domain_count :: nat
  memory_domain_space :: "nat \<Rightarrow> 'sp option"

datatype ssa_verify_error =
    BlockArgCount u32 nat nat | DuplicateMemoryDomain | EdgeArgTableCount nat nat | SsaIlError il_error
  | InvalidOpPlacement u32 | InvalidValueDef | NonDominatingEdgeArg u32 u32 u32 | NonDominatingUse u32 u32

definition from_il :: "il_fail + 'b \<Rightarrow> ssa_verify_error failure + 'b" where
  "from_il m =
     (case m of Inl (Error e) \<Rightarrow> Inl (Error (SsaIlError e)) | Inl (Panic p) \<Rightarrow> Inl (Panic p) | Inr x \<Rightarrow> Inr x)"

definition from_ssa :: "(ssa_verify_error \<Rightarrow> 'e) \<Rightarrow> ssa_verify_error failure + 'b \<Rightarrow> 'e failure + 'b" where
  "from_ssa frm m =
     (case m of Inl (Error e) \<Rightarrow> Inl (Error (frm e)) | Inl (Panic p) \<Rightarrow> Inl (Panic p) | Inr x \<Rightarrow> Inr x)"

fun memory_domains_loop :: "('a, 'sp) ssa_il \<Rightarrow> nat list \<Rightarrow> ssa_verify_error + unit" where
  "memory_domains_loop ir [] = Inr ()"
| "memory_domains_loop ir (index # rest) =
     (case memory_domain_space ir index of
        None \<Rightarrow> Inl (SsaIlError (RangeOutOfBounds (index + 1) (memory_domain_count ir)))
      | Some space \<Rightarrow>
          if list_ex (\<lambda>existing. memory_domain_space ir existing = Some space) [0..<index]
          then Inl DuplicateMemoryDomain
          else memory_domains_loop ir rest)"

definition verify_memory_domains :: "('a, 'sp) ssa_il \<Rightarrow> ssa_verify_error + unit" where
  "verify_memory_domains ir = memory_domains_loop ir [0..<memory_domain_count ir]"

fun edge_ranges_loop :: "nat \<Rightarrow> il_index_range list \<Rightarrow> unit il_result" where
  "edge_ranges_loop len [] = Inr ()"
| "edge_ranges_loop len (r # rs) = and_then (verify_bounds r len) (\<lambda>_. edge_ranges_loop len rs)"

fun edge_values_loop :: "nat \<Rightarrow> il_value_id list \<Rightarrow> unit il_result" where
  "edge_values_loop n [] = Inr ()"
| "edge_values_loop n (v # vs) =
     (if n \<le> id_index v then Inl (RangeOutOfBounds (id_index v) n) else edge_values_loop n vs)"

definition verify_edge_args :: "('a, 'sp) ssa_il \<Rightarrow> ssa_verify_error failure + unit" where
  "verify_edge_args ir =
     (if length (edge_args ir) \<noteq> length (g_successors (ssa_graph ir))
      then Inl (Error (EdgeArgTableCount (length (g_successors (ssa_graph ir))) (length (edge_args ir))))
      else
        and_then (from_il (lift_error (edge_ranges_loop (length (edge_arg_values ir)) (edge_args ir)))) (\<lambda>_.
          from_il (lift_error (edge_values_loop (value_count ir) (edge_arg_values ir)))))"

definition value_dominates_op :: "('a, 'sp) ssa_il \<Rightarrow> il_value_id \<Rightarrow> il_block_id \<Rightarrow> nat \<Rightarrow> il_dominance \<Rightarrow>
    il_block_id option list \<Rightarrow> ssa_verify_error + bool" where
  "value_dominates_op ir v user_block user_operation dominance operation_blocks =
     and_then (ok_or InvalidValueDef (value_definition ir v)) (\<lambda>def.
       case def of
         OpDef operation \<Rightarrow>
           (case Option.bind (lookup_at operation_blocks (id_index operation)) id of
              None \<Rightarrow> Inl (InvalidOpPlacement operation)
            | Some definition_block \<Rightarrow>
                if definition_block = user_block then Inr (id_index operation < user_operation)
                else Inr (dominates dominance definition_block user_block))
       | BlockArgDef arg \<Rightarrow>
           and_then (ok_or InvalidValueDef (block_arg_block ir arg)) (\<lambda>block.
             Inr (dominates dominance block user_block)))"

definition value_dominates_edge :: "('a, 'sp) ssa_il \<Rightarrow> il_value_id \<Rightarrow> il_block_id \<Rightarrow> il_dominance \<Rightarrow>
    il_block_id option list \<Rightarrow> ssa_verify_error + bool" where
  "value_dominates_edge ir v predecessor dominance operation_blocks =
     and_then (ok_or InvalidValueDef (value_definition ir v)) (\<lambda>def.
       case def of
         OpDef operation \<Rightarrow>
           (case Option.bind (lookup_at operation_blocks (id_index operation)) id of
              None \<Rightarrow> Inl (InvalidOpPlacement operation)
            | Some definition_block \<Rightarrow>
                Inr (definition_block = predecessor \<or> dominates dominance definition_block predecessor))
       | BlockArgDef arg \<Rightarrow>
           and_then (ok_or InvalidValueDef (block_arg_block ir arg)) (\<lambda>block.
             Inr (dominates dominance block predecessor)))"

fun operands_precede_loop :: "('a, 'sp) ssa_il \<Rightarrow> il_op_id \<Rightarrow> nat \<Rightarrow> il_value_id list \<Rightarrow> ssa_verify_error + unit" where
  "operands_precede_loop ir operation operation_index [] = Inr ()"
| "operands_precede_loop ir operation operation_index (operand # rest) =
     and_then (ok_or InvalidValueDef (value_definition ir operand)) (\<lambda>def.
       case def of
         OpDef d \<Rightarrow>
           if operation_index \<le> id_index d then Inl (NonDominatingUse operand operation)
           else operands_precede_loop ir operation operation_index rest
       | BlockArgDef _ \<Rightarrow> operands_precede_loop ir operation operation_index rest)"

definition verify_operands_precede :: "('a, 'sp) ssa_il \<Rightarrow> il_op_id \<Rightarrow> nat \<Rightarrow> ssa_verify_error failure + unit" where
  "verify_operands_precede ir operation operation_index =
     and_then (lift_panic (op_operands ir operation)) (\<lambda>found.
     and_then (lift_error (ok_or (InvalidOpPlacement operation) found)) (\<lambda>operands.
       lift_error (operands_precede_loop ir operation operation_index operands)))"

fun linear_uses_loop :: "('a, 'sp) ssa_il \<Rightarrow> nat list \<Rightarrow> ssa_verify_error failure + unit" where
  "linear_uses_loop ir [] = Inr ()"
| "linear_uses_loop ir (operation_index # rest) =
     and_then (from_il (lift_error (try_from_index operation_index))) (\<lambda>operation.
     and_then (verify_operands_precede ir operation operation_index) (\<lambda>_. linear_uses_loop ir rest))"

definition verify_linear_uses :: "('a, 'sp) ssa_il \<Rightarrow> ssa_verify_error failure + unit" where
  "verify_linear_uses ir = linear_uses_loop ir [0..<op_count ir]"

text \<open>
  \<open>try_from_entries\<close> on an iterator whose items may panic: an item is produced when the counting loop
  asks for it, so an earlier bad row is reported before a later panic.
\<close>

definition csr_try_from_iter :: "nat \<Rightarrow> (nat \<times> 'b) outcome list \<Rightarrow> il_fail + 'b il_csr" where
  "csr_try_from_iter row_count entries =
     (case collect_ok id entries of
        Inr es \<Rightarrow> csr_try_from_entries row_count es
      | Inl p \<Rightarrow>
          and_then (lift_error (ok_or IntegerOverflow (usize_checked_add row_count 1))) (\<lambda>n.
          and_then (lift_error (csr_count (replicate n 0) (map projr (takeWhile (\<lambda>e. \<not> isl e) entries)))) (\<lambda>_.
            Inl (Panic p))))"

definition block_arg_entries :: "('a, 'sp) ssa_il \<Rightarrow> (nat \<times> nat) outcome list" where
  "block_arg_entries ir =
     map (\<lambda>index. map_ok (\<lambda>arg.
         (case block_arg_block ir arg of None \<Rightarrow> length (g_blocks (ssa_graph ir)) | Some block \<Rightarrow> id_index block, index))
       (or_panic (try_from_index index))) [0..<block_arg_count ir]"

fun edge_pairs_loop :: "('a, 'sp) ssa_il \<Rightarrow> (ssa_verify_error \<Rightarrow> 'e) \<Rightarrow> (il_value_id \<Rightarrow> il_value_id \<Rightarrow> 'e + unit) \<Rightarrow>
    il_dominance \<Rightarrow> il_block_id option list \<Rightarrow> il_block_id \<Rightarrow> il_block_id \<Rightarrow> (il_value_id \<times> nat) list \<Rightarrow>
    'e failure + unit" where
  "edge_pairs_loop ir frm verify_edge_arg dominance operation_blocks predecessor successor [] = Inr ()"
| "edge_pairs_loop ir frm verify_edge_arg dominance operation_blocks predecessor successor ((v, arg_index) # rest) =
     and_then (from_ssa frm (from_il (lift_error (try_from_index arg_index)))) (\<lambda>arg.
     and_then (lift_error (ok_or (frm InvalidValueDef) (block_arg_value ir arg))) (\<lambda>destination.
       if value_width ir v \<noteq> block_arg_width ir arg then Inl (Error (frm (SsaIlError WidthMismatch)))
       else
         and_then (lift_error (verify_edge_arg v destination)) (\<lambda>_.
         and_then
           (if is_reachable dominance predecessor
            then from_ssa frm (lift_error (value_dominates_edge ir v predecessor dominance operation_blocks))
            else Inr True) (\<lambda>dominated.
           if \<not> dominated then Inl (Error (frm (NonDominatingEdgeArg v predecessor successor)))
           else edge_pairs_loop ir frm verify_edge_arg dominance operation_blocks predecessor successor rest))))"

fun edge_successors_loop :: "('a, 'sp) ssa_il \<Rightarrow> (ssa_verify_error \<Rightarrow> 'e) \<Rightarrow> (il_value_id \<Rightarrow> il_value_id \<Rightarrow> 'e + unit) \<Rightarrow>
    il_dominance \<Rightarrow> il_block_id option list \<Rightarrow> nat il_csr \<Rightarrow> il_block_id \<Rightarrow> nat \<Rightarrow> il_block_id list \<Rightarrow>
    'e failure + unit" where
  "edge_successors_loop ir frm verify_edge_arg dominance operation_blocks block_args predecessor edge [] = Inr ()"
| "edge_successors_loop ir frm verify_edge_arg dominance operation_blocks block_args predecessor edge (successor # rest) =
     and_then
       (case lookup_at (edge_args ir) edge of
          None \<Rightarrow> Inr None
        | Some r \<Rightarrow> (case checked_slice r (edge_arg_values ir) of
              Inl (Error _) \<Rightarrow> Inr None | Inl (Panic p) \<Rightarrow> Inl (Panic p) | Inr vs \<Rightarrow> Inr (Some vs))) (\<lambda>found.
       case found of
         None \<Rightarrow>
           and_then (lift_panic (csr_row block_args (id_index successor))) (\<lambda>row.
             Inl (Error (frm (BlockArgCount successor (length row) 0))))
       | Some args \<Rightarrow>
           and_then (lift_panic (csr_row block_args (id_index successor))) (\<lambda>row.
             if length args \<noteq> length row
             then Inl (Error (frm (BlockArgCount successor (length row) (length args))))
             else
               and_then (edge_pairs_loop ir frm verify_edge_arg dominance operation_blocks predecessor successor
                 (zip args row)) (\<lambda>_.
                 edge_successors_loop ir frm verify_edge_arg dominance operation_blocks block_args predecessor
                   (edge + 1) rest)))"

fun edge_predecessors_loop :: "('a, 'sp) ssa_il \<Rightarrow> (ssa_verify_error \<Rightarrow> 'e) \<Rightarrow> (il_value_id \<Rightarrow> il_value_id \<Rightarrow> 'e + unit) \<Rightarrow>
    il_dominance \<Rightarrow> il_block_id option list \<Rightarrow> nat il_csr \<Rightarrow> nat \<Rightarrow> il_block list \<Rightarrow> 'e failure + unit" where
  "edge_predecessors_loop ir frm verify_edge_arg dominance operation_blocks block_args index [] = Inr ()"
| "edge_predecessors_loop ir frm verify_edge_arg dominance operation_blocks block_args index (predecessor # rest) =
     and_then (from_ssa frm (from_il (lift_error (try_from_index index)))) (\<lambda>predecessor_id.
     and_then (from_ssa frm (from_il
         (checked_slice (block_successors predecessor) (g_successors (ssa_graph ir))))) (\<lambda>ss.
     and_then (edge_successors_loop ir frm verify_edge_arg dominance operation_blocks block_args predecessor_id
         (start_of (block_successors predecessor)) ss) (\<lambda>_.
       edge_predecessors_loop ir frm verify_edge_arg dominance operation_blocks block_args (Suc index) rest)))"

definition verify_edge_uses :: "('a, 'sp) ssa_il \<Rightarrow> (ssa_verify_error \<Rightarrow> 'e) \<Rightarrow> (il_value_id \<Rightarrow> il_value_id \<Rightarrow> 'e + unit) \<Rightarrow>
    il_dominance \<Rightarrow> il_block_id option list \<Rightarrow> 'e failure + unit" where
  "verify_edge_uses ir frm verify_edge_arg dominance operation_blocks =
     and_then (from_ssa frm (from_il
         (csr_try_from_iter (length (g_blocks (ssa_graph ir))) (block_arg_entries ir)))) (\<lambda>block_args.
       edge_predecessors_loop ir frm verify_edge_arg dominance operation_blocks block_args 0
         (g_blocks (ssa_graph ir)))"

fun op_uses_loop :: "('a, 'sp) ssa_il \<Rightarrow> il_dominance \<Rightarrow> il_block_id option list \<Rightarrow> il_op_id \<Rightarrow> il_block_id \<Rightarrow> nat \<Rightarrow>
    il_value_id list \<Rightarrow> ssa_verify_error + unit" where
  "op_uses_loop ir dominance operation_blocks operation user_block operation_index [] = Inr ()"
| "op_uses_loop ir dominance operation_blocks operation user_block operation_index (operand # rest) =
     and_then (value_dominates_op ir operand user_block operation_index dominance operation_blocks) (\<lambda>dominated.
       if \<not> dominated then Inl (NonDominatingUse operand operation)
       else op_uses_loop ir dominance operation_blocks operation user_block operation_index rest)"

fun ops_loop :: "('a, 'sp) ssa_il \<Rightarrow> il_dominance \<Rightarrow> il_block_id option list \<Rightarrow> nat list \<Rightarrow>
    ssa_verify_error failure + unit" where
  "ops_loop ir dominance operation_blocks [] = Inr ()"
| "ops_loop ir dominance operation_blocks (operation_index # rest) =
     and_then (from_il (lift_error (try_from_index operation_index))) (\<lambda>operation.
     and_then (lift_panic (get_at operation_blocks operation_index)) (\<lambda>block.
       case block of
         None \<Rightarrow> Inl (Error (InvalidOpPlacement operation))
       | Some user_block \<Rightarrow>
           if \<not> is_reachable dominance user_block
           then and_then (verify_operands_precede ir operation operation_index) (\<lambda>_.
             ops_loop ir dominance operation_blocks rest)
           else
             and_then (lift_panic (op_operands ir operation)) (\<lambda>found.
             and_then (lift_error (ok_or (InvalidOpPlacement operation) found)) (\<lambda>operands.
             and_then (lift_error (op_uses_loop ir dominance operation_blocks operation user_block operation_index
                 operands)) (\<lambda>_.
               ops_loop ir dominance operation_blocks rest)))))"

text \<open>The result is \<open>None\<close> only if the dominance analysis does not end.\<close>

definition verify_uses :: "('a, 'sp) ssa_il \<Rightarrow> (ssa_verify_error \<Rightarrow> 'e) \<Rightarrow> (il_value_id \<Rightarrow> il_value_id \<Rightarrow> 'e + unit) \<Rightarrow>
    ('e failure + unit) option" where
  "verify_uses ir frm verify_edge_arg =
     (if g_blocks (ssa_graph ir) = [] then Some (from_ssa frm (verify_linear_uses ir))
      else
        case analyse_dominance (ssa_graph ir) of
          None \<Rightarrow> None
        | Some (Inl p) \<Rightarrow> Some (Inl (Panic p))
        | Some (Inr dominance) \<Rightarrow> Some (
            and_then (lift_panic (op_blocks (ssa_graph ir) (op_count ir))) (\<lambda>operation_blocks.
            and_then (verify_edge_uses ir frm verify_edge_arg dominance operation_blocks) (\<lambda>_.
              from_ssa frm (ops_loop ir dominance operation_blocks [0..<op_count ir])))))"

section \<open>Required definitions, argument inputs and uses\<close>

text \<open>A \<open>FixedBitSet\<close> is the list of its bits; \<open>put\<close> panics out of range, \<open>contains\<close> is then false.\<close>

definition bits_contains :: "bool list \<Rightarrow> nat \<Rightarrow> bool" where
  "bits_contains bs i \<longleftrightarrow> i < length bs \<and> bs ! i"

definition bits_put :: "bool list \<Rightarrow> nat \<Rightarrow> (bool \<times> bool list) outcome" where
  "bits_put bs i = (if i < length bs then Inr (bs ! i, bs[i := True]) else Inl Panicked)"

record required_defs =
  rd_block_args :: "bool list"
  rd_operations :: "bool list"

definition required_defs_new :: "nat \<Rightarrow> nat \<Rightarrow> required_defs" where
  "required_defs_new arg_count operation_count =
     \<lparr>rd_block_args = replicate arg_count False, rd_operations = replicate operation_count False\<rparr>"

definition block_arg_is_required :: "required_defs \<Rightarrow> nat \<Rightarrow> bool" where
  "block_arg_is_required rd i = bits_contains (rd_block_args rd) i"

definition op_is_required :: "required_defs \<Rightarrow> nat \<Rightarrow> bool" where
  "op_is_required rd i = bits_contains (rd_operations rd) i"

definition mark_required :: "required_defs \<Rightarrow> il_ssa_def \<Rightarrow> (bool \<times> required_defs) outcome" where
  "mark_required rd def =
     (case def of
        BlockArgDef arg \<Rightarrow>
          map_ok (\<lambda>(was, bs). (\<not> was, rd\<lparr>rd_block_args := bs\<rparr>)) (bits_put (rd_block_args rd) (id_index arg))
      | OpDef operation \<Rightarrow>
          map_ok (\<lambda>(was, bs). (\<not> was, rd\<lparr>rd_operations := bs\<rparr>)) (bits_put (rd_operations rd) (id_index operation)))"

record block_arg_inputs =
  ai_args :: "bool list"
  ai_inputs :: "il_value_id il_csr"

fun mark_present :: "bool list \<Rightarrow> (il_block_id \<times> il_value_id) list \<Rightarrow> bool list outcome" where
  "mark_present bs [] = Inr bs"
| "mark_present bs ((_, arg) # rest) = and_then (bits_put bs (id_index arg)) (\<lambda>(_, bs). mark_present bs rest)"

fun edge_inputs :: "(nat \<Rightarrow> il_value_id list outcome) \<Rightarrow> nat \<Rightarrow> il_value_id \<Rightarrow> nat list \<Rightarrow> (nat \<times> il_value_id) list outcome" where
  "edge_inputs args_for_edge pos arg [] = Inr []"
| "edge_inputs args_for_edge pos arg (edge # rest) =
     and_then (args_for_edge edge) (\<lambda>vs.
     map_ok (\<lambda>es. (case lookup_at vs pos of None \<Rightarrow> es | Some input \<Rightarrow> (id_index arg, input) # es))
       (edge_inputs args_for_edge pos arg rest))"

definition block_inputs :: "il_value_id il_csr \<Rightarrow> nat il_csr \<Rightarrow> (nat \<Rightarrow> il_value_id list outcome) \<Rightarrow> nat \<Rightarrow>
    (nat \<times> il_value_id) list outcome" where
  "block_inputs args incoming args_for_edge block =
     and_then (csr_row args block) (\<lambda>row.
       map_ok concat (collect_ok
         (\<lambda>(pos, arg). and_then (csr_row incoming block) (edge_inputs args_for_edge pos arg)) (List.enumerate 0 row)))"

definition block_arg_inputs_new :: "nat \<Rightarrow> 'a il_graph \<Rightarrow> (il_block_id \<times> il_value_id) list \<Rightarrow>
    (nat \<Rightarrow> il_value_id list outcome) \<Rightarrow> block_arg_inputs outcome" where
  "block_arg_inputs_new count_of_values g args args_for_edge =
     and_then (mark_present (replicate count_of_values False) args) (\<lambda>present.
     and_then (csr_from_entries (length (g_blocks g)) (map (\<lambda>(block, v). (id_index block, v)) args)) (\<lambda>rows.
     and_then (csr_from_entries (length (g_blocks g))
         (map (\<lambda>(edge, target). (id_index target, edge)) (List.enumerate 0 (g_successors g)))) (\<lambda>incoming.
     and_then (collect_ok (block_inputs rows incoming args_for_edge) [0..<length (g_blocks g)]) (\<lambda>entries.
     and_then (csr_from_entries count_of_values (concat entries)) (\<lambda>inputs.
       Inr \<lparr>ai_args = present, ai_inputs = inputs\<rparr>)))))"

definition inputs_for :: "block_arg_inputs \<Rightarrow> il_value_id \<Rightarrow> il_value_id list option outcome" where
  "inputs_for ai arg =
     (if bits_contains (ai_args ai) (id_index arg) then map_ok Some (csr_row (ai_inputs ai) (id_index arg)) else Inr None)"

definition inputs_iter :: "block_arg_inputs \<Rightarrow> (il_value_id \<times> il_value_id list) list outcome" where
  "inputs_iter ai =
     collect_ok (\<lambda>index.
         and_then (or_panic (try_from_index index)) (\<lambda>v. map_ok (\<lambda>row. (v, row)) (csr_row (ai_inputs ai) index)))
       (filter (bits_contains (ai_args ai)) [0..<csr_len (ai_inputs ai)])"

definition use_entries :: "il_value_id list list \<Rightarrow> (il_op_id \<Rightarrow> nat \<Rightarrow> 'u) \<Rightarrow> (nat \<times> 'u) list outcome" where
  "use_entries operation_operands make_use =
     map_ok concat (collect_ok
       (\<lambda>(operation, operands). map_ok (\<lambda>user.
          map (\<lambda>(operand, v). (id_index v, make_use user operand)) (List.enumerate 0 operands))
        (or_panic (try_from_index operation))) (List.enumerate 0 operation_operands))"

definition collect_ssa_uses :: "nat \<Rightarrow> il_value_id list list \<Rightarrow> (il_op_id \<Rightarrow> nat \<Rightarrow> 'u) \<Rightarrow> 'u il_csr outcome" where
  "collect_ssa_uses count_of_values operation_operands make_use =
     and_then (use_entries operation_operands make_use) (csr_from_entries count_of_values)"

section \<open>What the verifier accepts\<close>

text \<open>The block an operation lies in, for the operations there are.\<close>

definition op_block_of :: "('a, 'sp) ssa_il \<Rightarrow> nat \<Rightarrow> il_block_id option" where
  "op_block_of ir i = (if i < op_count ir then block_for_op (ssa_graph ir) (node_id i) else None)"

abbreviation ssa_edge :: "('a, 'sp) ssa_il \<Rightarrow> il_block_id \<Rightarrow> il_block_id \<Rightarrow> bool" where
  "ssa_edge ir \<equiv> flow_edge (g_blocks (ssa_graph ir)) (g_successors (ssa_graph ir))"

text \<open>The block that must have been entered before a value is read in block \<open>b\<close> or after it.\<close>

definition defined_at_end :: "('a, 'sp) ssa_il \<Rightarrow> il_block_id \<Rightarrow> il_value_id \<Rightarrow> il_block_id \<Rightarrow> bool" where
  "defined_at_end ir entry v b \<longleftrightarrow>
     (\<exists>q b'. value_definition ir v = Some (OpDef q) \<and> op_block_of ir (id_index q) = Some b' \<and>
        dominates_in (ssa_edge ir) entry b' b) \<or>
     (\<exists>a b'. value_definition ir v = Some (BlockArgDef a) \<and> block_arg_block ir a = Some b' \<and>
        dominates_in (ssa_edge ir) entry b' b)"

definition defined_at_op :: "('a, 'sp) ssa_il \<Rightarrow> il_block_id \<Rightarrow> il_value_id \<Rightarrow> il_block_id \<Rightarrow> nat \<Rightarrow> bool" where
  "defined_at_op ir entry v b i \<longleftrightarrow>
     defined_at_end ir entry v b \<and>
     (\<forall>q. value_definition ir v = Some (OpDef q) \<longrightarrow> op_block_of ir (id_index q) = Some b \<longrightarrow> id_index q < i)"

definition listed_before :: "('a, 'sp) ssa_il \<Rightarrow> il_value_id \<Rightarrow> nat \<Rightarrow> bool" where
  "listed_before ir v i \<longleftrightarrow>
     value_definition ir v \<noteq> None \<and> (\<forall>q. value_definition ir v = Some (OpDef q) \<longrightarrow> id_index q < i)"

definition op_uses_ok :: "('a, 'sp) ssa_il \<Rightarrow> il_block_id \<Rightarrow> nat \<Rightarrow> bool" where
  "op_uses_ok ir entry i \<longleftrightarrow>
     i < 2 ^ 32 - 1 \<and>
     (\<exists>b vs. op_block_of ir i = Some b \<and> op_operands ir (node_id i) = Inr (Some vs) \<and>
        (\<forall>v \<in> set vs. if reaches (ssa_edge ir) entry b then defined_at_op ir entry v b i else listed_before ir v i))"

definition args_of_block :: "('a, 'sp) ssa_il \<Rightarrow> nat \<Rightarrow> nat list" where
  "args_of_block ir j =
     filter (\<lambda>i. map_option id_index (block_arg_block ir (node_id i)) = Some j) [0..<block_arg_count ir]"

definition edge_arg_ok :: "('a, 'sp) ssa_il \<Rightarrow> (il_value_id \<Rightarrow> il_value_id \<Rightarrow> 'e + unit) \<Rightarrow> il_block_id \<Rightarrow>
    il_block_id \<Rightarrow> il_value_id \<Rightarrow> nat \<Rightarrow> bool" where
  "edge_arg_ok ir verify_edge_arg entry b v i \<longleftrightarrow>
     (\<exists>destination. block_arg_value ir (node_id i) = Some destination \<and> verify_edge_arg v destination = Inr ()) \<and>
     value_width ir v = block_arg_width ir (node_id i) \<and>
     (reaches (ssa_edge ir) entry b \<longrightarrow> defined_at_end ir entry v b)"

text \<open>Edge \<open>e\<close> from \<open>b\<close> to \<open>s\<close> passes one fitting value for every argument of \<open>s\<close>.\<close>

definition edge_ok :: "('a, 'sp) ssa_il \<Rightarrow> (il_value_id \<Rightarrow> il_value_id \<Rightarrow> 'e + unit) \<Rightarrow> il_block_id \<Rightarrow>
    il_block_id \<Rightarrow> nat \<Rightarrow> il_block_id \<Rightarrow> bool" where
  "edge_ok ir verify_edge_arg entry b e s \<longleftrightarrow>
     (\<exists>args. Option.bind (lookup_at (edge_args ir) e) (\<lambda>r. if start_of r \<le> end_of r \<and> end_of r \<le> length (edge_arg_values ir)
           then Some (sub_slice (start_of r) (end_of r) (edge_arg_values ir)) else None) = Some args \<and>
        list_all2 (edge_arg_ok ir verify_edge_arg entry b) args (args_of_block ir (id_index s)))"

definition block_edges_ok :: "('a, 'sp) ssa_il \<Rightarrow> (il_value_id \<Rightarrow> il_value_id \<Rightarrow> 'e + unit) \<Rightarrow> il_block_id \<Rightarrow> nat \<Rightarrow> bool" where
  "block_edges_ok ir verify_edge_arg entry i \<longleftrightarrow>
     (let block = g_blocks (ssa_graph ir) ! i; ss = successors_of (g_successors (ssa_graph ir)) block in
      \<forall>k < length ss. edge_ok ir verify_edge_arg entry (node_id i) (start_of (block_successors block) + k) (ss ! k))"

definition ssa_uses_ok :: "('a, 'sp) ssa_il \<Rightarrow> (il_value_id \<Rightarrow> il_value_id \<Rightarrow> 'e + unit) \<Rightarrow> il_block_id \<Rightarrow> bool" where
  "ssa_uses_ok ir verify_edge_arg entry \<longleftrightarrow>
     (\<forall>i < block_arg_count ir. \<exists>b. block_arg_block ir (node_id i) = Some b \<and> id_index b < length (g_blocks (ssa_graph ir))) \<and>
     (\<forall>i < length (g_blocks (ssa_graph ir)). block_edges_ok ir verify_edge_arg entry i) \<and>
     (\<forall>i < op_count ir. op_uses_ok ir entry i)"

section \<open>The loops of the verifier\<close>

lemma from_simps [simp]:
  "from_il (Inl (Error e)) = Inl (Error (SsaIlError e))" "from_il (Inl (Panic p)) = Inl (Panic p)" "from_il (Inr x) = Inr x"
  "from_ssa frm (Inl (Error e')) = Inl (Error (frm e'))" "from_ssa frm (Inl (Panic p)) = Inl (Panic p)"
  "from_ssa frm (Inr x) = Inr x"
  by (simp_all add: from_il_def from_ssa_def)

lemma from_eq_Inr_iff [outcome_simps]: "from_il m = Inr x \<longleftrightarrow> m = Inr x" "from_ssa frm m' = Inr x \<longleftrightarrow> m' = Inr x"
  by (auto simp: from_il_def from_ssa_def split: sum.splits failure.splits)

lemma from_eq_Panic_iff [outcome_simps]:
  "from_il m = Inl (Panic p) \<longleftrightarrow> m = Inl (Panic p)" "from_ssa frm m' = Inl (Panic p) \<longleftrightarrow> m' = Inl (Panic p)"
  by (auto simp: from_il_def from_ssa_def split: sum.splits failure.splits)

lemma op_uses_loop_iff:
  "op_uses_loop ir d obs op b i vs = Inr () \<longleftrightarrow> (\<forall>v \<in> set vs. value_dominates_op ir v b i d obs = Inr True)"
  by (induction vs) (auto simp: outcome_simps)

lemma operands_precede_loop_iff:
  "operands_precede_loop ir op i vs = Inr () \<longleftrightarrow> (\<forall>v \<in> set vs. listed_before ir v i)"
proof (induction vs)
  case (Cons v vs)
  then show ?case
    by (cases "value_definition ir v") (auto simp: outcome_simps listed_before_def split: il_ssa_def.splits)
qed simp

lemma verify_operands_precede_iff:
  "verify_operands_precede ir op i = Inr () \<longleftrightarrow> (\<exists>vs. op_operands ir op = Inr (Some vs) \<and> (\<forall>v \<in> set vs. listed_before ir v i))"
  by (cases "op_operands ir op") (auto simp: verify_operands_precede_def outcome_simps operands_precede_loop_iff)

lemma verify_operands_precede_Panic:
  "op_operands ir op = Inr found \<Longrightarrow> verify_operands_precede ir op i \<noteq> Inl (Panic p)"
  by (auto simp: verify_operands_precede_def outcome_simps)

text \<open>What the loops rely on: the dominance analysis, the operation table, and nonzero identifiers.\<close>

definition uses_context :: "('a, 'sp) ssa_il \<Rightarrow> il_block_id \<Rightarrow> il_dominance \<Rightarrow> il_block_id option list \<Rightarrow> bool" where
  "uses_context ir entry d obs \<longleftrightarrow>
     (\<forall>b. b \<noteq> 0 \<longrightarrow> is_reachable d b = reaches (ssa_edge ir) entry b) \<and>
     (\<forall>a b. a \<noteq> 0 \<longrightarrow> b \<noteq> 0 \<longrightarrow> dominates d a b = dominates_in (ssa_edge ir) entry a b) \<and>
     length obs = op_count ir \<and> (\<forall>i < op_count ir. i < 2 ^ 32 - 1 \<longrightarrow> obs ! i = op_block_of ir i) \<and>
     (\<forall>a. block_arg_block ir a \<noteq> Some 0)"

lemma try_from_index_nonzero: "try_from_index i = Inr w \<Longrightarrow> w \<noteq> 0"
  using u32_of_Suc_neq_0 [of i] by (auto simp: try_from_index_eq simp del: of_nat_Suc split: if_splits)

lemma op_block_of_nonzero: "op_block_of ir i = Some b \<Longrightarrow> b \<noteq> 0"
  using try_from_index_nonzero
  by (auto simp: op_block_of_def block_for_op_def split: if_splits option.splits sum.splits)

lemma id_index_bound: "id_index w < 2 ^ 32 - 1"
  using unat_lt_pow [of w] by (simp add: id_index_def)

lemma uses_context_lookup:
  assumes "uses_context ir entry d obs"
  shows "Option.bind (lookup_at obs (id_index op)) id = op_block_of ir (id_index op)"
  using assms id_index_bound [of op] by (auto simp: uses_context_def lookup_at_def op_block_of_def)

lemma block_arg_nonzero: "uses_context ir entry d obs \<Longrightarrow> block_arg_block ir a = Some b \<Longrightarrow> b \<noteq> 0"
  by (auto simp: uses_context_def)

lemma value_dominates_edge_iff:
  assumes ctx: "uses_context ir entry d obs" and b: "b \<noteq> 0" "reaches (ssa_edge ir) entry b"
  shows "value_dominates_edge ir v b d obs = Inr True \<longleftrightarrow> defined_at_end ir entry v b"
proof (cases "value_definition ir v")
  case (Some def)
  show ?thesis
  proof (cases def)
    case (OpDef op)
    then show ?thesis using Some uses_context_lookup [OF ctx, of op] ctx b op_block_of_nonzero [of ir "id_index op"] dominates_refl [OF b(2)]
      by (cases "op_block_of ir (id_index op)") (auto simp: value_dominates_edge_def defined_at_end_def uses_context_def)
  next
    case (BlockArgDef a)
    then show ?thesis using Some ctx b block_arg_nonzero [OF ctx, of a]
      by (cases "block_arg_block ir a") (auto simp: value_dominates_edge_def defined_at_end_def uses_context_def)
  qed
qed (simp add: value_dominates_edge_def defined_at_end_def)

lemma value_dominates_op_iff:
  assumes ctx: "uses_context ir entry d obs" and b: "b \<noteq> 0" "reaches (ssa_edge ir) entry b"
  shows "value_dominates_op ir v b i d obs = Inr True \<longleftrightarrow> defined_at_op ir entry v b i"
proof (cases "value_definition ir v")
  case (Some def)
  show ?thesis
  proof (cases def)
    case (OpDef op)
    then show ?thesis using Some uses_context_lookup [OF ctx, of op] ctx b op_block_of_nonzero [of ir "id_index op"] dominates_refl [OF b(2)]
      by (cases "op_block_of ir (id_index op)") (auto simp: value_dominates_op_def defined_at_op_def defined_at_end_def uses_context_def)
  next
    case (BlockArgDef a)
    then show ?thesis using Some ctx b block_arg_nonzero [OF ctx, of a]
      by (cases "block_arg_block ir a") (auto simp: value_dominates_op_def defined_at_op_def defined_at_end_def uses_context_def)
  qed
qed (simp add: value_dominates_op_def defined_at_op_def defined_at_end_def)

lemma ops_loop_iff:
  assumes ctx: "uses_context ir entry d obs"
  shows "\<forall>i \<in> set is. i < op_count ir \<Longrightarrow> ops_loop ir d obs is = Inr () \<longleftrightarrow> (\<forall>i \<in> set is. op_uses_ok ir entry i)"
proof (induction "is")
  case (Cons i "is")
  show ?case
  proof (cases "i < 2 ^ 32 - 1")
    case True
    then have get: "try_from_index i = Inr (node_id i)" "get_at obs i = Inr (op_block_of ir i)"
      using ctx Cons.prems by (simp_all add: try_from_index_node get_at_def uses_context_def)
    show ?thesis
    proof (cases "op_block_of ir i")
      case (Some b)
      then have b: "b \<noteq> 0" by (rule op_block_of_nonzero)
      then have reach: "is_reachable d b = reaches (ssa_edge ir) entry b" using ctx by (simp add: uses_context_def)
      show ?thesis using Cons get Some reach True value_dominates_op_iff [OF ctx b]
        by (auto simp: outcome_simps op_uses_ok_def verify_operands_precede_iff op_uses_loop_iff)
    qed (use get in \<open>simp add: op_uses_ok_def\<close>)
  qed (simp add: try_from_index_eq op_uses_ok_def)
qed simp

lemma ops_loop_Panic:
  assumes "\<forall>op. \<exists>found. op_operands ir op = Inr found"
  shows "\<forall>i \<in> set is. i < length obs \<Longrightarrow> ops_loop ir d obs is \<noteq> Inl (Panic p)"
proof (induction "is")
  case (Cons i "is")
  have "op_operands ir op \<noteq> Inl q" "verify_operands_precede ir op i \<noteq> Inl (Panic p)" for op q
    using assms verify_operands_precede_Panic [of ir op _ i p] by (metis sum.distinct(1), metis)
  then show ?case using Cons by (auto simp: outcome_simps get_at_def split: option.splits)
qed simp

lemma edge_pairs_loop_iff:
  assumes ctx: "uses_context ir entry d obs" and b: "b \<noteq> 0"
  shows "\<forall>e \<in> set ps. snd e < 2 ^ 32 - 1 \<Longrightarrow>
    edge_pairs_loop ir frm vea d obs b s ps = Inr () \<longleftrightarrow> (\<forall>(v, i) \<in> set ps. edge_arg_ok ir vea entry b v i)"
proof (induction ps)
  case (Cons e ps)
  obtain v i where e: "e = (v, i)" by (cases e)
  have "is_reachable d b = reaches (ssa_edge ir) entry b" using ctx b by (simp add: uses_context_def)
  then show ?case using Cons e try_from_index_node [of i] value_dominates_edge_iff [OF ctx b, of v]
    by (auto simp: outcome_simps edge_arg_ok_def)
qed simp

lemma edge_pairs_loop_Panic: "edge_pairs_loop ir frm vea d obs b s ps \<noteq> Inl (Panic p)"
  by (induction ps) (auto simp: outcome_simps split: if_splits)

lemma edge_slice_eq:
  "(case lookup_at (edge_args ir) e of
      None \<Rightarrow> Inr None
    | Some r \<Rightarrow> (case checked_slice r (edge_arg_values ir) of
          Inl (Error _) \<Rightarrow> Inr None | Inl (Panic p) \<Rightarrow> Inl (Panic p) | Inr vs \<Rightarrow> Inr (Some vs))) =
   (Inr (Option.bind (lookup_at (edge_args ir) e) (\<lambda>r. if start_of r \<le> end_of r \<and> end_of r \<le> length (edge_arg_values ir)
      then Some (sub_slice (start_of r) (end_of r) (edge_arg_values ir)) else None)) :: 'e failure + il_value_id list option)"
  by (cases "lookup_at (edge_args ir) e") (auto simp: checked_slice_eq verify_bounds_def)

lemma edge_successors_loop_iff:
  assumes ctx: "uses_context ir entry d obs" and b: "b \<noteq> 0" and count: "block_arg_count ir < 2 ^ 32"
    and rows: "\<forall>j < n. csr_row c j = Inr (args_of_block ir j)"
  shows "\<forall>s \<in> set ss. id_index s < n \<Longrightarrow> edge_successors_loop ir frm vea d obs c b e ss = Inr () \<longleftrightarrow>
    (\<forall>k < length ss. edge_ok ir vea entry b (e + k) (ss ! k))"
proof (induction ss arbitrary: e)
  case (Cons s ss)
  have low: "\<forall>q \<in> set (zip vs (args_of_block ir j)). snd q < 2 ^ 32 - 1" for vs j
    using count by (auto simp: args_of_block_def dest!: set_zip_rightD)
  have "edge_successors_loop ir frm vea d obs c b e (s # ss) = Inr () \<longleftrightarrow>
      edge_ok ir vea entry b e s \<and> edge_successors_loop ir frm vea d obs c b (e + 1) ss = Inr ()"
    using rows Cons.prems edge_pairs_loop_iff [OF ctx b low, of frm vea s]
    by (cases "Option.bind (lookup_at (edge_args ir) e) (\<lambda>r. if start_of r \<le> end_of r \<and> end_of r \<le> length (edge_arg_values ir)
      then Some (sub_slice (start_of r) (end_of r) (edge_arg_values ir)) else None)")
      (auto simp: edge_slice_eq outcome_simps edge_ok_def list_all2_iff)
  also have "\<dots> \<longleftrightarrow> edge_ok ir vea entry b e s \<and> (\<forall>k < length ss. edge_ok ir vea entry b (e + Suc k) (ss ! k))"
    using Cons by simp
  also have "\<dots> \<longleftrightarrow> (\<forall>k < length (s # ss). edge_ok ir vea entry b (e + k) ((s # ss) ! k))"
    by (auto simp: less_Suc_eq_0_disj)
  finally show ?case .
qed simp

lemma edge_successors_loop_Panic:
  assumes rows: "\<forall>j < n. csr_row c j = Inr (args_of_block ir j)"
  shows "\<forall>s \<in> set ss. id_index s < n \<Longrightarrow> edge_successors_loop ir frm vea d obs c b e ss \<noteq> Inl (Panic p)"
proof (induction ss arbitrary: e)
  case (Cons s ss)
  then show ?case using rows edge_pairs_loop_Panic [of ir frm vea d obs b s]
    by (auto simp: edge_slice_eq outcome_simps split: option.splits)
qed simp

lemma edge_predecessors_loop_iff:
  assumes ctx: "uses_context ir entry d obs" and count: "block_arg_count ir < 2 ^ 32"
    and rows: "\<forall>j < n. csr_row c j = Inr (args_of_block ir j)"
  shows "\<forall>b \<in> set bs. block_ok n (g_successors (ssa_graph ir)) b \<Longrightarrow> m + length bs < 2 ^ 32 \<Longrightarrow>
      drop m (g_blocks (ssa_graph ir)) = bs \<Longrightarrow>
    (edge_predecessors_loop ir frm vea d obs c m bs = Inr () \<longleftrightarrow> (\<forall>k < length bs. block_edges_ok ir vea entry (m + k))) \<and>
    edge_predecessors_loop ir frm vea d obs c m bs \<noteq> Inl (Panic p)"
proof (induction bs arbitrary: m)
  case (Cons b bs)
  let ?ss = "successors_of (g_successors (ssa_graph ir)) b"
  have m: "m < length (g_blocks (ssa_graph ir))" using Cons.prems(3) by (cases "m < length (g_blocks (ssa_graph ir))") auto
  then have b: "g_blocks (ssa_graph ir) ! m = b" "drop (Suc m) (g_blocks (ssa_graph ir)) = bs"
    using Cons.prems(3) by (simp_all add: Cons_nth_drop_Suc [symmetric])
  have id: "try_from_index m = Inr (node_id m)" using Cons.prems(2) by (intro try_from_index_node) simp
  have slice: "checked_slice (block_successors b) (g_successors (ssa_graph ir)) = Inr ?ss" and ss: "\<forall>s \<in> set ?ss. id_index s < n"
    using Cons.prems(1) by (auto simp: checked_slice_eq verify_bounds_def block_ok_def successors_of_def)
  note nz = try_from_index_nonzero [OF id]
  have head: "edge_successors_loop ir frm vea d obs c (node_id m) (start_of (block_successors b)) ?ss = Inr () \<longleftrightarrow> block_edges_ok ir vea entry m"
    using edge_successors_loop_iff [OF ctx nz count rows ss, of frm vea] b by (simp add: block_edges_ok_def Let_def)
  have quiet: "edge_successors_loop ir frm vea d obs c (node_id m) (start_of (block_successors b)) ?ss \<noteq> Inl (Panic p)"
    by (rule edge_successors_loop_Panic [OF rows ss])
  have IH: "(edge_predecessors_loop ir frm vea d obs c (Suc m) bs = Inr () \<longleftrightarrow> (\<forall>k < length bs. block_edges_ok ir vea entry (Suc m + k))) \<and>
      edge_predecessors_loop ir frm vea d obs c (Suc m) bs \<noteq> Inl (Panic p)"
    using Cons.prems b(2) by (intro Cons.IH) auto
  have all: "(\<forall>k < length (b # bs). block_edges_ok ir vea entry (m + k)) \<longleftrightarrow>
      block_edges_ok ir vea entry m \<and> (\<forall>k < length bs. block_edges_ok ir vea entry (Suc m + k))"
    by (auto simp: less_Suc_eq_0_disj)
  show ?case unfolding all using id slice head quiet IH by (auto simp: outcome_simps)
qed simp

lemma block_arg_entries_eq:
  assumes "block_arg_count ir < 2 ^ 32"
  defines "es \<equiv> map (\<lambda>i. (case block_arg_block ir (node_id i) of None \<Rightarrow> length (g_blocks (ssa_graph ir)) | Some b \<Rightarrow> id_index b, i))
    [0..<block_arg_count ir]"
  shows "csr_try_from_iter n (block_arg_entries ir) = csr_try_from_entries n es"
proof -
  have "collect_ok id (map Inr xs) = (Inr xs :: (nat \<times> nat) list outcome)" for xs by (induction xs) auto
  moreover have "block_arg_entries ir = map Inr es"
    using assms(1) unfolding block_arg_entries_def es_def by (auto simp: try_from_index_node or_panic_def)
  ultimately show ?thesis by (simp add: csr_try_from_iter_def)
qed

lemma verify_edge_uses_iff:
  assumes ctx: "uses_context ir entry d obs" and count: "block_arg_count ir < 2 ^ 32" and g: "graph_ok (ssa_graph ir)"
  shows "(verify_edge_uses ir frm vea d obs = Inr () \<longleftrightarrow>
      (\<forall>i < block_arg_count ir. \<exists>b. block_arg_block ir (node_id i) = Some b \<and> id_index b < length (g_blocks (ssa_graph ir))) \<and>
      (\<forall>i < length (g_blocks (ssa_graph ir)). block_edges_ok ir vea entry i)) \<and>
    verify_edge_uses ir frm vea d obs \<noteq> Inl (Panic p)"
proof -
  let ?n = "length (g_blocks (ssa_graph ir))"
  let ?es = "map (\<lambda>i. (case block_arg_block ir (node_id i) of None \<Rightarrow> ?n | Some b \<Rightarrow> id_index b, i)) [0..<block_arg_count ir]"
  have n: "?n < 2 ^ 32" using g by (simp add: graph_ok_def)
  have rows: "(\<forall>e \<in> set ?es. fst e < ?n) \<longleftrightarrow>
      (\<forall>i < block_arg_count ir. \<exists>b. block_arg_block ir (node_id i) = Some b \<and> id_index b < ?n)"
    by (fastforce split: option.splits)
  show ?thesis
  proof (cases "\<forall>e \<in> set ?es. fst e < ?n")
    case True
    then obtain c where c: "csr_try_from_entries ?n ?es = Inr c" "csr_holds ?n ?es c"
      using csr_try_from_entries_ok [of ?es ?n] count n by auto
    have "csr_row c j = Inr (args_of_block ir j)" if "j < ?n" for j
    proof -
      have "row_of j ?es = args_of_block ir j"
        using that by (auto simp: row_of_def args_of_block_def filter_map o_def intro!: filter_cong split: option.splits)
      then show ?thesis using csr_holds_row(1) [OF c(2), of j] that by simp
    qed
    then have "\<forall>j < ?n. csr_row c j = Inr (args_of_block ir j)" by blast
    from edge_predecessors_loop_iff [OF ctx count this, of "g_blocks (ssa_graph ir)" 0 frm vea p]
    have "(edge_predecessors_loop ir frm vea d obs c 0 (g_blocks (ssa_graph ir)) = Inr () \<longleftrightarrow>
        (\<forall>i < ?n. block_edges_ok ir vea entry i)) \<and> edge_predecessors_loop ir frm vea d obs c 0 (g_blocks (ssa_graph ir)) \<noteq> Inl (Panic p)"
      using g n by (simp add: graph_ok_def)
    then show ?thesis using c(1) True rows by (simp add: verify_edge_uses_def block_arg_entries_eq [OF count])
  next
    case False
    then have "csr_try_from_entries ?n ?es \<noteq> Inr c" "csr_try_from_entries ?n ?es \<noteq> Inl (Panic q)" for c q
      using csr_try_from_entries_inv by blast+
    then have "\<exists>e. csr_try_from_entries ?n ?es = Inl (Error e)"
      by (cases "csr_try_from_entries ?n ?es") (metis failure.exhaust, metis)
    then show ?thesis using False rows by (auto simp: verify_edge_uses_def block_arg_entries_eq [OF count])
  qed
qed

lemma entry_block_ok:
  assumes "g_blocks g \<noteq> []" "length (g_blocks g) < 2 ^ 32"
  shows "\<exists>entry. entry_block g = Inr (Some entry) \<and> node (length (g_blocks g)) entry"
proof -
  define i where "i = (case position is_entry (g_blocks g) of None \<Rightarrow> 0 | Some i \<Rightarrow> i)"
  have i: "i < length (g_blocks g)" using assms(1) by (auto simp: i_def position_Some_iff split: option.splits)
  then have "try_from_index i = Inr (node_id i)" using assms(2) by (intro try_from_index_node) simp
  moreover have "id_index (node_id i) = i" using id_index_try_from_index [OF calculation] by simp
  ultimately show ?thesis
    using assms(1) i try_from_index_nonzero by (auto simp: entry_block_def node_def or_panic_def i_def [symmetric])
qed

lemma uses_context_built:
  assumes "graph_verify (ssa_graph ir) = Inr ()" "flow_ok (g_blocks (ssa_graph ir)) (g_successors (ssa_graph ir))"
    "g_blocks (ssa_graph ir) \<noteq> []" "2 * length (g_blocks (ssa_graph ir)) < 2 ^ 32" "\<forall>a. block_arg_block ir a \<noteq> Some 0"
  shows "\<exists>entry d obs. entry_block (ssa_graph ir) = Inr (Some entry) \<and> analyse_dominance (ssa_graph ir) = Some (Inr d) \<and>
    op_blocks (ssa_graph ir) (op_count ir) = Inr obs \<and> uses_context ir entry d obs"
proof -
  let ?g = "ssa_graph ir"
  obtain entry where entry: "entry_block ?g = Inr (Some entry)" "node (length (g_blocks ?g)) entry"
    using entry_block_ok [of ?g] assms(3,4) by auto
  obtain d idom ch where d: "from_blocks (g_blocks ?g) (g_successors ?g) entry = Some (Inr d)"
      "dom_tree (g_blocks ?g) (g_successors ?g) entry idom ch d"
    using from_blocks_ok [OF assms(2) entry(2) assms(4)] by blast
  obtain obs where obs: "op_blocks ?g (op_count ir) = Inr obs" "length obs = op_count ir"
      "\<forall>op. id_index op < op_count ir \<longrightarrow> obs ! id_index op = block_for_op ?g op"
    using op_blocks_agree [OF assms(1)] by blast
  have "obs ! i = op_block_of ir i" if "i < op_count ir" "i < 2 ^ 32 - 1" for i
    using obs(3) that index_node_id [of i] by (metis op_block_of_def)
  then have "uses_context ir entry d obs"
    using d(2) obs(2) assms(5) by (auto simp: uses_context_def dom_tree_def)
  then show ?thesis using entry(1) d(1) obs(1) by (auto simp: analyse_dominance_def)
qed


lemma verify_uses_ok:
  assumes "graph_verify (ssa_graph ir) = Inr ()" "flow_ok (g_blocks (ssa_graph ir)) (g_successors (ssa_graph ir))"
    "g_blocks (ssa_graph ir) \<noteq> []" "2 * length (g_blocks (ssa_graph ir)) < 2 ^ 32"
    "block_arg_count ir < 2 ^ 32" "\<forall>a. block_arg_block ir a \<noteq> Some 0" "\<forall>op. \<exists>found. op_operands ir op = Inr found"
  shows "\<exists>entry r. entry_block (ssa_graph ir) = Inr (Some entry) \<and> verify_uses ir frm verify_edge_arg = Some r \<and>
    (\<forall>p. r \<noteq> Inl (Panic p)) \<and> (r = Inr () \<longleftrightarrow> ssa_uses_ok ir verify_edge_arg entry)"
proof -
  obtain entry d obs where entry: "entry_block (ssa_graph ir) = Inr (Some entry)"
    and d: "analyse_dominance (ssa_graph ir) = Some (Inr d)" and obs: "op_blocks (ssa_graph ir) (op_count ir) = Inr obs"
    and ctx: "uses_context ir entry d obs"
    using uses_context_built [OF assms(1-4,6)] by blast
  let ?r = "and_then (verify_edge_uses ir frm verify_edge_arg d obs) (\<lambda>_. from_ssa frm (ops_loop ir d obs [0..<op_count ir]))"
  have g: "graph_ok (ssa_graph ir)" using assms(1) by (simp add: graph_verify_iff)
  note edges = verify_edge_uses_iff [OF ctx assms(5) g, of frm verify_edge_arg]
  have ops: "ops_loop ir d obs [0..<op_count ir] = Inr () \<longleftrightarrow> (\<forall>i < op_count ir. op_uses_ok ir entry i)"
    using ops_loop_iff [OF ctx, of "[0..<op_count ir]"] by auto
  have quiet: "ops_loop ir d obs [0..<op_count ir] \<noteq> Inl (Panic p)" for p
    using ctx ops_loop_Panic [OF assms(7), of "[0..<op_count ir]"] by (simp add: uses_context_def)
  have "\<forall>p. ?r \<noteq> Inl (Panic p)" using edges quiet by (auto simp: outcome_simps)
  moreover have "?r = Inr () \<longleftrightarrow> ssa_uses_ok ir verify_edge_arg entry"
    using edges ops by (auto simp: outcome_simps ssa_uses_ok_def)
  ultimately show ?thesis using entry d obs assms(3) by (intro exI [of _ entry] exI [of _ ?r]) (simp add: verify_uses_def)
qed

text \<open>What acceptance means for an execution: a value read by operation \<open>i\<close> at the end of a walk has been defined on it.\<close>

definition defined_on_walk :: "('a, 'sp) ssa_il \<Rightarrow> il_block_id list \<Rightarrow> nat \<Rightarrow> il_value_id \<Rightarrow> bool" where
  "defined_on_walk ir ws i v \<longleftrightarrow>
     (\<exists>q b. value_definition ir v = Some (OpDef q) \<and> op_block_of ir (id_index q) = Some b \<and>
        (b = last ws \<and> id_index q < i \<or> b \<noteq> last ws \<and> b \<in> set ws)) \<or>
     (\<exists>a b. value_definition ir v = Some (BlockArgDef a) \<and> block_arg_block ir a = Some b \<and> b \<in> set ws)"

lemma defined_at_op_walk:
  assumes "defined_at_op ir entry v b i" "walk (ssa_edge ir) entry ws b" shows "defined_on_walk ir ws i v"
proof -
  have ends: "last ws = b" using walk_ends [OF assms(2)] by simp
  have on: "b' \<in> set ws" if "dominates_in (ssa_edge ir) entry b' b" for b' using that assms(2) by (simp add: dominates_in_def)
  consider (op) q b' where "value_definition ir v = Some (OpDef q)" "op_block_of ir (id_index q) = Some b'" "b' \<in> set ws"
    | (arg) a b' where "value_definition ir v = Some (BlockArgDef a)" "block_arg_block ir a = Some b'" "b' \<in> set ws"
    using assms(1) on unfolding defined_at_op_def defined_at_end_def by blast
  then show ?thesis
  proof cases
    case op
    then show ?thesis using assms(1) ends by (cases "b' = b") (auto simp: defined_at_op_def defined_on_walk_def)
  qed (auto simp: defined_on_walk_def)
qed

lemma ssa_uses_ok_reads:
  assumes "ssa_uses_ok ir vea entry" "walk (ssa_edge ir) entry ws b" "i < op_count ir" "op_block_of ir i = Some b"
    "op_operands ir (node_id i) = Inr (Some vs)" "v \<in> set vs"
  shows "defined_on_walk ir ws i v"
proof -
  have "reaches (ssa_edge ir) entry b" using assms(2) by (auto simp: reaches_def)
  then have "defined_at_op ir entry v b i" using assms by (auto simp: ssa_uses_ok_def op_uses_ok_def)
  then show ?thesis using assms(2) by (rule defined_at_op_walk)
qed

text \<open>
  C3. The SSA verifier decides whether definitions dominate uses. On a verified graph of at most two to the
  thirty-one blocks, \<open>verify_uses\<close> returns without a panic, and it accepts exactly when every block argument
  belongs to a block, every edge passes one value of the right width, accepted by the language's own check, for
  each argument of its target, and every operation lies in a block and reads only values whose definition comes
  earlier: in the same block before it, or in a block that every walk from the entry passes, and likewise for the
  values passed along edges. Operations in unreachable blocks need their operands defined earlier in the list.
\<close>

theorem verify_uses_correct:
  assumes "graph_verify (ssa_graph ir) = Inr ()" "flow_ok (g_blocks (ssa_graph ir)) (g_successors (ssa_graph ir))"
    "g_blocks (ssa_graph ir) \<noteq> []" "2 * length (g_blocks (ssa_graph ir)) < 2 ^ 32"
    "block_arg_count ir < 2 ^ 32" "\<forall>a. block_arg_block ir a \<noteq> Some 0" "\<forall>op. \<exists>found. op_operands ir op = Inr found"
  shows "\<exists>entry r. entry_block (ssa_graph ir) = Inr (Some entry) \<and> verify_uses ir frm verify_edge_arg = Some r \<and>
    (\<forall>p. r \<noteq> Inl (Panic p)) \<and> (r = Inr () \<longleftrightarrow> ssa_uses_ok ir verify_edge_arg entry)"
  using assms by (rule verify_uses_ok)

definition sample_ssa :: "(nat, nat) ssa_il" where
  "sample_ssa =
     \<lparr>ssa_graph = sample_graph, value_count = 3,
      value_definition = (\<lambda>v. lookup_at [OpDef 3, BlockArgDef 1, OpDef 1] (id_index v)),
      value_width = (\<lambda>v. lookup_at [8, 8, 8] (id_index v)), block_arg_count = 1,
      block_arg_block = (\<lambda>a. lookup_at [2] (id_index a)), block_arg_value = (\<lambda>a. lookup_at [2] (id_index a)),
      block_arg_width = (\<lambda>a. lookup_at [8] (id_index a)), op_count = 5,
      op_operands = (\<lambda>op. Inr (lookup_at [[1, 2], [3], [], [], []] (id_index op))),
      edge_args = [\<lparr>r_start = 0, r_end = 1\<rparr>], edge_arg_values = [1],
      memory_domain_count = 1, memory_domain_space = lookup_at [7]\<rparr>"

lemma sample_ssa_sel:
  "value_definition sample_ssa 1 = Some (OpDef 3)" "value_definition sample_ssa 2 = Some (BlockArgDef 1)"
  "value_definition sample_ssa 3 = Some (OpDef 1)" "block_arg_block sample_ssa 1 = Some 2" "ssa_graph sample_ssa = sample_graph"
  "op_operands sample_ssa 1 = Inr (Some [1, 2])" "op_operands sample_ssa 2 = Inr (Some [3])" "op_operands sample_ssa 3 = Inr (Some [])"
  "op_operands sample_ssa 4 = Inr (Some [])" "op_operands sample_ssa 5 = Inr (Some [])"
  "op_count sample_ssa = 5" "block_arg_count sample_ssa = 1" "block_arg_value sample_ssa 1 = Some 2"
  "block_arg_width sample_ssa 1 = Some 8" "value_width sample_ssa 1 = Some 8"
  "edge_args sample_ssa = [\<lparr>r_start = 0, r_end = 1\<rparr>]" "edge_arg_values sample_ssa = [1]"
  by (simp_all add: sample_ssa_def lookup_at_def id_index_def)

lemma sample_flow_ok: "flow_ok (g_blocks sample_graph) (g_successors sample_graph)"
  by (simp add: flow_ok_def sample_graph_def successors_of_def sub_slice_def start_of_def end_of_def id_index_def)

lemma sample_edge: "flow_edge (g_blocks sample_graph) (g_successors sample_graph) 1 2"
  using sample_flow_ok
  by (simp add: flow_edge_def node_def id_index_def successors_of_def sub_slice_def start_of_def end_of_def) (simp add: sample_graph_def)

lemma sample_reaches: "reaches (ssa_edge sample_ssa) 1 2"
  using walk.step [OF walk.start, of "ssa_edge sample_ssa" 1 2] sample_edge by (auto simp: reaches_def sample_ssa_def)

lemma sample_dominates: "dominates_in (ssa_edge sample_ssa) 1 1 1" "dominates_in (ssa_edge sample_ssa) 1 1 2" "dominates_in (ssa_edge sample_ssa) 1 2 2"
  using sample_reaches by (auto intro: entry_dominates dominates_refl)

lemma sample_op_blocks: "op_block_of sample_ssa 0 = Some 2" "op_block_of sample_ssa 1 = Some 2" "op_block_of sample_ssa 2 = Some 1"
  "op_block_of sample_ssa 3 = Some 1" "op_block_of sample_ssa 4 = Some 1"
  by (simp_all add: op_block_of_def sample_ssa_def block_for_op_def sample_graph_def contains_index_def start_of_def end_of_def
    id_index_def node_id_def try_from_index_eq)

lemma sample_op_uses: "\<forall>i < op_count sample_ssa. op_uses_ok sample_ssa 1 i"
proof -
  have "op_uses_ok sample_ssa 1 i" if "i \<in> {0, 1, 2, 3, 4}" for i
    using that sample_op_blocks sample_reaches sample_dominates
    by (auto simp: op_uses_ok_def defined_at_op_def defined_at_end_def sample_ssa_sel id_index_def node_id_def)
  moreover have "i < op_count sample_ssa \<Longrightarrow> i \<in> {0, 1, 2, 3, 4}" for i by (auto simp: sample_ssa_sel)
  ultimately show ?thesis by blast
qed

lemma sample_uses_ok: "ssa_uses_ok sample_ssa (\<lambda>_ _. Inr () :: ssa_verify_error + unit) 1"
proof -
  have args: "args_of_block sample_ssa 1 = [0]" by (simp add: args_of_block_def sample_ssa_sel node_id_def id_index_def)
  have "block_edges_ok sample_ssa (\<lambda>_ _. Inr () :: ssa_verify_error + unit) 1 i" if "i < length (g_blocks (ssa_graph sample_ssa))" for i
    using that args sample_dominates(1)
    by (auto simp: block_edges_ok_def sample_ssa_sel sample_graph_def successors_of_def sub_slice_def start_of_def end_of_def
      less_Suc_eq edge_ok_def lookup_at_def id_index_def edge_arg_ok_def defined_at_end_def sample_op_blocks node_id_def)
  then show ?thesis using sample_op_uses
    by (auto simp: ssa_uses_ok_def sample_ssa_sel node_id_def id_index_def sample_graph_def)
qed

theorem verify_uses_correct_witness: "verify_uses sample_ssa id (\<lambda>_ _. Inr ()) = Some (Inr ())"
proof -
  have "entry_block sample_graph = Inr (Some 1)"
    by (simp add: entry_block_def sample_graph_def is_entry_def contains_flags_def ENTRY_def or_panic_def try_from_index_eq)
  moreover have "\<forall>a. block_arg_block sample_ssa a \<noteq> Some 0" "\<forall>op. \<exists>found. op_operands sample_ssa op = Inr found"
    by (auto simp: sample_ssa_def lookup_at_def)
  ultimately show ?thesis
    using verify_uses_correct [of sample_ssa id "\<lambda>_ _. Inr ()"] sample_graph_verified sample_flow_ok sample_uses_ok
    by (simp add: sample_ssa_sel) (auto simp: sample_graph_def)
qed

end
