(* ===== verification/ECodeOps.thy ===== *)
theory ECodeOps
  imports ScalarEval
begin

text \<open>
  The opcodes of the intermediate language ecode, from \<open>fugue-core/src/il/ecode/opcode.rs\<close>: their
  classification and their evaluation by the scalar operations. The constructors carry an \<open>E\<close>, since
  the scalar operations and the flow kinds have the same names.
\<close>

section \<open>Opcodes\<close>

datatype ecode_opcode =
    EAdd | EAddress | EAnd | EArithmeticRightShift | EBoolAnd | EBoolNot | EBoolOr | EBoolXor | EBranch |
    EBranchIndirect | ECall | ECallIndirect | ECarry | EConditionalBranch | EConstant | ECopy |
    ECountLeadingZeros | ECountOnes | EExtract | EFloatAbs | EFloatAdd | EFloatCeiling | EFloatDiv |
    EFloatEqual | EFloatFloor | EFloatIsNan | EFloatLess | EFloatLessEqual | EFloatMul | EFloatNegate |
    EFloatNotEqual | EFloatRound | EFloatSqrt | EFloatSub | EFloatToFloat | EFloatToInt | EInsert | EIntEqual |
    EIntLess | EIntLessEqual | EIntNotEqual | EIntSignedLess | EIntSignedLessEqual | EIntToFloat | EIntrinsic |
    EIntrinsicResult | ELeftShift | ELoad | ELogicalRightShift | EMul | ENegate | ENot | EOr | EReturn |
    ESignExtend | ESignedBorrow | ESignedCarry | ESignedDiv | ESignedRem | EStore | ESub | ETrap | ETruncate |
    EUndefined | EUnsignedDiv | EUnsignedRem | EWriteFlag | EWriteRegister | EXor | EZeroExtend

definition has_side_effect :: "ecode_opcode \<Rightarrow> bool" where
  "has_side_effect opc \<longleftrightarrow> opc \<in>
     {EStore, EIntrinsic, EIntrinsicResult, EBranch, EConditionalBranch, EBranchIndirect, ECall, ECallIndirect,
      EReturn, ETrap, EWriteRegister, EWriteFlag}"

definition has_uniform_operand_width :: "ecode_opcode \<Rightarrow> bool" where
  "has_uniform_operand_width opc \<longleftrightarrow> opc \<in>
     {EAdd, ESub, EMul, EUnsignedDiv, ESignedDiv, EUnsignedRem, ESignedRem, ENegate, EAnd, EOr, EXor, ENot,
      EWriteRegister, EWriteFlag}"

definition requires_memory_domain :: "ecode_opcode \<Rightarrow> bool" where
  "requires_memory_domain opc \<longleftrightarrow> opc \<in> {ELoad, EStore}"

primrec mnemonic :: "ecode_opcode \<Rightarrow> string" where
  "mnemonic EConstant = ''const''"
| "mnemonic EAddress = ''addr''"
| "mnemonic EUndefined = ''undef''"
| "mnemonic ELoad = ''load''"
| "mnemonic ECopy = ''copy''"
| "mnemonic EAdd = ''add''"
| "mnemonic ESub = ''sub''"
| "mnemonic EMul = ''mul''"
| "mnemonic EUnsignedDiv = ''udiv''"
| "mnemonic ESignedDiv = ''sdiv''"
| "mnemonic EUnsignedRem = ''urem''"
| "mnemonic ESignedRem = ''srem''"
| "mnemonic ENegate = ''neg''"
| "mnemonic ELeftShift = ''shl''"
| "mnemonic ELogicalRightShift = ''lshr''"
| "mnemonic EArithmeticRightShift = ''ashr''"
| "mnemonic EAnd = ''and''"
| "mnemonic EOr = ''or''"
| "mnemonic EXor = ''xor''"
| "mnemonic ENot = ''not''"
| "mnemonic EBoolAnd = ''band''"
| "mnemonic EBoolOr = ''bor''"
| "mnemonic EBoolXor = ''bxor''"
| "mnemonic EBoolNot = ''bnot''"
| "mnemonic EIntEqual = ''eq''"
| "mnemonic EIntNotEqual = ''ne''"
| "mnemonic EIntLess = ''lt''"
| "mnemonic EIntSignedLess = ''slt''"
| "mnemonic EIntLessEqual = ''le''"
| "mnemonic EIntSignedLessEqual = ''sle''"
| "mnemonic ECarry = ''carry''"
| "mnemonic ESignedCarry = ''scarry''"
| "mnemonic ESignedBorrow = ''sborrow''"
| "mnemonic ECountOnes = ''popcount''"
| "mnemonic ECountLeadingZeros = ''clz''"
| "mnemonic EZeroExtend = ''zext''"
| "mnemonic ESignExtend = ''sext''"
| "mnemonic ETruncate = ''trunc''"
| "mnemonic EExtract = ''extract''"
| "mnemonic EInsert = ''insert''"
| "mnemonic EFloatAdd = ''fadd''"
| "mnemonic EFloatSub = ''fsub''"
| "mnemonic EFloatMul = ''fmul''"
| "mnemonic EFloatDiv = ''fdiv''"
| "mnemonic EFloatNegate = ''fneg''"
| "mnemonic EFloatAbs = ''fabs''"
| "mnemonic EFloatSqrt = ''fsqrt''"
| "mnemonic EFloatCeiling = ''fceil''"
| "mnemonic EFloatFloor = ''ffloor''"
| "mnemonic EFloatRound = ''fround''"
| "mnemonic EFloatIsNan = ''fisnan''"
| "mnemonic EFloatEqual = ''feq''"
| "mnemonic EFloatNotEqual = ''fne''"
| "mnemonic EFloatLess = ''flt''"
| "mnemonic EFloatLessEqual = ''fle''"
| "mnemonic EFloatToInt = ''f2i''"
| "mnemonic EFloatToFloat = ''f2f''"
| "mnemonic EIntToFloat = ''i2f''"
| "mnemonic EIntrinsicResult = ''intrinsic_result''"
| "mnemonic EIntrinsic = ''intrinsic''"
| "mnemonic EStore = ''store''"
| "mnemonic EBranch = ''br''"
| "mnemonic EConditionalBranch = ''cbr''"
| "mnemonic EBranchIndirect = ''ibr''"
| "mnemonic ECall = ''call''"
| "mnemonic ECallIndirect = ''icall''"
| "mnemonic EReturn = ''ret''"
| "mnemonic ETrap = ''trap''"
| "mnemonic EWriteRegister = ''write_reg''"
| "mnemonic EWriteFlag = ''write_flag''"

definition scalar_op_of :: "ecode_opcode \<Rightarrow> il_scalar_op option" where
  "scalar_op_of opc =
     (case opc of
        EAdd \<Rightarrow> Some Add
      | EAnd \<Rightarrow> Some And
      | EArithmeticRightShift \<Rightarrow> Some ArithmeticRightShift
      | EBoolAnd \<Rightarrow> Some BoolAnd
      | EBoolNot \<Rightarrow> Some BoolNot
      | EBoolOr \<Rightarrow> Some BoolOr
      | EBoolXor \<Rightarrow> Some BoolXor
      | ECarry \<Rightarrow> Some Carry
      | ECopy \<Rightarrow> Some Copy
      | ECountLeadingZeros \<Rightarrow> Some CountLeadingZeros
      | ECountOnes \<Rightarrow> Some CountOnes
      | EIntEqual \<Rightarrow> Some IntEqual
      | EIntLess \<Rightarrow> Some IntLess
      | EIntLessEqual \<Rightarrow> Some IntLessEqual
      | EIntNotEqual \<Rightarrow> Some IntNotEqual
      | EIntSignedLess \<Rightarrow> Some IntSignedLess
      | EIntSignedLessEqual \<Rightarrow> Some IntSignedLessEqual
      | ELeftShift \<Rightarrow> Some LeftShift
      | ELogicalRightShift \<Rightarrow> Some LogicalRightShift
      | EMul \<Rightarrow> Some Mul
      | ENegate \<Rightarrow> Some Negate
      | ENot \<Rightarrow> Some Not
      | EOr \<Rightarrow> Some Or
      | ESignedBorrow \<Rightarrow> Some SignedBorrow
      | ESignedCarry \<Rightarrow> Some SignedCarry
      | ESignedDiv \<Rightarrow> Some SignedDiv
      | ESignedRem \<Rightarrow> Some SignedRem
      | ESignExtend \<Rightarrow> Some SignExtend
      | ESub \<Rightarrow> Some Sub
      | ETruncate \<Rightarrow> Some Truncate
      | EUnsignedDiv \<Rightarrow> Some UnsignedDiv
      | EUnsignedRem \<Rightarrow> Some UnsignedRem
      | EXor \<Rightarrow> Some Xor
      | EZeroExtend \<Rightarrow> Some ZeroExtend
      | _ \<Rightarrow> None)"

definition ecode_evaluate :: "malachite \<Rightarrow> ecode_opcode \<Rightarrow> u32 \<Rightarrow> bitvec list \<Rightarrow> bitvec option outcome" where
  "ecode_evaluate M opc w operands =
     (case scalar_op_of opc of None \<Rightarrow> Inr None | Some op \<Rightarrow> evaluate M op w operands)"

end
