(* ===== verification/ECode.thy ===== *)
theory ECode
  imports Ssa ECodeOps Addresses
begin

text \<open>
  The intermediate language ecode, from \<open>fugue-core/src/il/ecode\<close>: operations, values and domains
  (\<open>operation.rs\<close>, \<open>value.rs\<close>, \<open>domain.rs\<close>, \<open>memory.rs\<close>), the container \<open>ECodeIr\<close> with its
  queries (\<open>ir/mod.rs\<close>) and its verifier (\<open>ir/verify.rs\<close>), which runs the structure and SSA
  verifiers.

  The verifier returns on every container, and what it accepts reads no undefined value. Metadata is
  carried along only and has a type parameter.
\<close>

section \<open>Operations, values and domains\<close>

record ecode_op_spec =
  spec_opcode :: ecode_opcode
  spec_width :: u32
  spec_immediate :: u64
  spec_address :: "address option"
  spec_address_space :: "address_space_id option"

definition op_spec_new :: "ecode_opcode \<Rightarrow> u32 \<Rightarrow> ecode_op_spec" where
  "op_spec_new opc w =
     \<lparr>spec_opcode = opc, spec_width = w, spec_immediate = 0, spec_address = None, spec_address_space = None\<rparr>"

record ecode_op =
  op_opcode :: ecode_opcode
  op_results :: il_index_range
  op_operand_range :: il_index_range
  op_width :: u32
  op_immediate :: u64
  op_address :: "address option"
  op_address_space :: "address_space_id option"

definition ecode_op_new :: "ecode_opcode \<Rightarrow> il_index_range \<Rightarrow> il_index_range \<Rightarrow> u32 \<Rightarrow> ecode_op" where
  "ecode_op_new opc results operands w =
     \<lparr>op_opcode = opc, op_results = results, op_operand_range = operands, op_width = w, op_immediate = 0,
      op_address = None, op_address_space = None\<rparr>"

definition single_result :: "ecode_op \<Rightarrow> il_value_id option" where
  "single_result op =
     (if range_len (op_results op) = 1
      then case try_from_index (start_of (op_results op)) of Inl _ \<Rightarrow> None | Inr v \<Rightarrow> Some v
      else None)"

definition width_bytes :: "u32 \<Rightarrow> nat" where
  "width_bytes w = div_ceil (unat w) 8"

definition constant_bytes :: "ecode_op \<Rightarrow> u8 list \<Rightarrow> u8 list option" where
  "constant_bytes op constants =
     (if op_opcode op \<noteq> EConstant \<or> op_width op \<le> 64 then None
      else
        Option.bind (usize_checked_add (unat (op_immediate op)) (width_bytes (op_width op))) (\<lambda>finish.
          if unat (op_immediate op) \<le> finish \<and> finish \<le> length constants
          then Some (sub_slice (unat (op_immediate op)) finish constants) else None))"

definition ecode_constant :: "malachite \<Rightarrow> ecode_op \<Rightarrow> u8 list \<Rightarrow> bitvec option outcome" where
  "ecode_constant M op constants =
     (if op_opcode op \<noteq> EConstant then Inr None
      else if op_width op \<le> 64 then map_ok Some (from_u64 M (op_immediate op) (op_width op))
      else
        case constant_bytes op constants of
          None \<Rightarrow> Inr None
        | Some bytes \<Rightarrow> and_then (from_le_bytes M bytes) (\<lambda>v. map_ok Some (cast M v (op_width op))))"

definition op_replace_with_constant :: "ecode_op \<Rightarrow> u64 \<Rightarrow> ecode_op" where
  "op_replace_with_constant op immediate =
     op\<lparr>op_opcode := EConstant, op_operand_range := range_empty, op_immediate := immediate,
        op_address := None, op_address_space := None\<rparr>"

datatype ecode_domain = FlagDomain u64 | MemoryDomain address_space_id | RegisterDomain u64

definition is_register_or_flag :: "ecode_domain \<Rightarrow> bool" where
  "is_register_or_flag d = (case d of FlagDomain _ \<Rightarrow> True | RegisterDomain _ \<Rightarrow> True | MemoryDomain _ \<Rightarrow> False)"

record ecode_value =
  ev_width :: u32
  ev_definition :: il_ssa_def

record ecode_block_arg =
  eb_block :: il_block_id
  eb_value :: il_value_id
  eb_width :: u32

section \<open>The container\<close>

record 'm ecode_ir =
  ec_metadata :: 'm
  ec_graph :: "address il_graph"
  ec_source_spans :: "address source_span list"
  ec_parent_spans :: "parent_span list"
  ec_values :: "ecode_value list"
  ec_value_domains :: "ecode_domain option list"
  ec_block_args :: "ecode_block_arg list"
  ec_edge_args :: "il_index_range list"
  ec_edge_arg_values :: "il_value_id list"
  ec_operations :: "ecode_op list"
  ec_value_operands :: "il_value_id list"
  ec_memory_domains :: "address_space_id list"
  ec_constant_storage :: "u8 list"

definition value_domain :: "'m ecode_ir \<Rightarrow> il_value_id \<Rightarrow> ecode_domain option" where
  "value_domain ir v = Option.bind (lookup_at (ec_value_domains ir) (id_index v)) id"

definition memory_domain :: "'m ecode_ir \<Rightarrow> address_space_id \<Rightarrow> address_space_id option" where
  "memory_domain ir space = List.find (\<lambda>domain. domain = space) (ec_memory_domains ir)"

definition op_operands_for :: "'m ecode_ir \<Rightarrow> ecode_op \<Rightarrow> il_value_id list outcome" where
  "op_operands_for ir op = range_slice (op_operand_range op) (ec_value_operands ir)"

definition ec_value_width :: "'m ecode_ir \<Rightarrow> il_value_id \<Rightarrow> u32 option" where
  "ec_value_width ir v = map_option ev_width (lookup_at (ec_values ir) (id_index v))"

definition args_for_edge :: "'m ecode_ir \<Rightarrow> nat \<Rightarrow> il_value_id list outcome" where
  "args_for_edge ir edge =
     and_then (expect (lookup_at (ec_edge_args ir) edge)) (\<lambda>r. range_slice r (ec_edge_arg_values ir))"

definition ops_for_source :: "'m ecode_ir \<Rightarrow> address \<Rightarrow> (il_op_id \<times> ecode_op) list outcome" where
  "ops_for_source ir a = source_span_ops (ec_source_spans ir) (ec_operations ir) a"

definition defining_op :: "'m ecode_ir \<Rightarrow> il_value_id \<Rightarrow> ecode_op option" where
  "defining_op ir v =
     Option.bind (lookup_at (ec_values ir) (id_index v)) (\<lambda>r.
       case ev_definition r of
         OpDef operation \<Rightarrow> lookup_at (ec_operations ir) (id_index operation)
       | BlockArgDef _ \<Rightarrow> None)"

definition block_address :: "'m ecode_ir \<Rightarrow> il_block_id \<Rightarrow> address option" where
  "block_address ir block =
     (case block_source (ec_graph ir) block of
        Some a \<Rightarrow> Some a
      | None \<Rightarrow>
          Option.bind (get_block (g_blocks (ec_graph ir)) block) (\<lambda>b.
            map_option s_address (source_span_find (ec_source_spans ir) (start_of (block_ops b)))))"

text \<open>The bounded walks through copies: the first argument counts the remaining rounds.\<close>

fun constant_value_loop :: "malachite \<Rightarrow> 'm ecode_ir \<Rightarrow> nat \<Rightarrow> il_value_id \<Rightarrow> bitvec option outcome" where
  "constant_value_loop M ir 0 current = Inr None"
| "constant_value_loop M ir (Suc n) current =
     (case defining_op ir current of
        None \<Rightarrow> Inr None
      | Some operation \<Rightarrow>
          if op_opcode operation \<notin> {EWriteFlag, EWriteRegister} then ecode_constant M operation (ec_constant_storage ir)
          else
            and_then (op_operands_for ir operation) (\<lambda>vs.
              case vs of [] \<Rightarrow> Inr None | v # _ \<Rightarrow> constant_value_loop M ir n v))"

definition constant_value :: "malachite \<Rightarrow> 'm ecode_ir \<Rightarrow> il_value_id \<Rightarrow> bitvec option outcome" where
  "constant_value M ir v = constant_value_loop M ir (length (ec_values ir)) v"

definition pointer_operand :: "'m ecode_ir \<Rightarrow> ecode_op \<Rightarrow> il_value_id option outcome" where
  "pointer_operand ir operation =
     (if op_opcode operation \<notin> {ELoad, EStore} then Inr None
      else map_ok (\<lambda>vs. lookup_at vs 0) (op_operands_for ir operation))"

definition memory_operand :: "'m ecode_ir \<Rightarrow> ecode_op \<Rightarrow> il_value_id option outcome" where
  "memory_operand ir operation =
     (if \<not> requires_memory_domain (op_opcode operation) then Inr None
      else map_ok (\<lambda>vs. if vs = [] then None else Some (last vs)) (op_operands_for ir operation))"

definition memory_access_range :: "'m ecode_ir \<Rightarrow> ecode_op \<Rightarrow> address_range option outcome" where
  "memory_access_range ir operation =
     (case op_address_space operation of
        None \<Rightarrow> Inr None
      | Some space \<Rightarrow>
          and_then (pointer_operand ir operation) (\<lambda>found.
            case Option.bind found (defining_op ir) of
              None \<Rightarrow> Inr None
            | Some pointer \<Rightarrow>
                if op_opcode pointer \<noteq> EAddress then Inr None
                else
                  and_then
                    (if op_opcode operation = ELoad then Inr (Some (op_width operation))
                     else if op_opcode operation = EStore
                     then map_ok (\<lambda>vs. Option.bind (lookup_at vs 1) (ec_value_width ir)) (op_operands_for ir operation)
                     else Inr None) (\<lambda>w.
                    Inr (Option.bind w (\<lambda>w.
                      range_from_size (Address space (op_immediate pointer)) (word_of_nat (width_bytes w)))))))"

fun underlying_value_loop :: "'m ecode_ir \<Rightarrow> nat \<Rightarrow> il_value_id \<Rightarrow> il_value_id outcome" where
  "underlying_value_loop ir 0 current = Inr current"
| "underlying_value_loop ir (Suc n) current =
     (case defining_op ir current of
        None \<Rightarrow> Inr current
      | Some operation \<Rightarrow>
          if op_opcode operation \<in> {ECopy, ESignExtend, ETruncate, EWriteFlag, EWriteRegister, EZeroExtend} then
            and_then (op_operands_for ir operation) (\<lambda>vs.
              case vs of [] \<Rightarrow> Inr current | inner # _ \<Rightarrow> underlying_value_loop ir n inner)
          else Inr current)"

definition underlying_value :: "'m ecode_ir \<Rightarrow> il_value_id \<Rightarrow> il_value_id outcome" where
  "underlying_value ir v = underlying_value_loop ir (length (ec_values ir)) v"

definition inserted_at :: "'m ecode_ir \<Rightarrow> ecode_op \<Rightarrow> il_value_id \<Rightarrow> il_value_id option outcome" where
  "inserted_at ir extract source =
     (case defining_op ir source of
        None \<Rightarrow> Inr None
      | Some ins \<Rightarrow>
          if op_opcode ins \<noteq> EInsert \<or> op_immediate ins \<noteq> op_immediate extract then Inr None
          else
            and_then (op_operands_for ir ins) (\<lambda>vs.
              Inr (Option.bind (lookup_at vs 1) (\<lambda>inserted.
                if ec_value_width ir inserted = Some (op_width extract) then Some inserted else None))))"

definition extract_source :: "'m ecode_ir \<Rightarrow> il_value_id \<Rightarrow> il_value_id option outcome" where
  "extract_source ir v =
     (case defining_op ir v of
        None \<Rightarrow> Inr None
      | Some extract \<Rightarrow>
          if op_opcode extract \<noteq> EExtract then Inr None
          else
            and_then (op_operands_for ir extract) (\<lambda>vs.
              case vs of
                [] \<Rightarrow> Inr None
              | source # _ \<Rightarrow>
                  and_then (inserted_at ir extract source) (\<lambda>found.
                    case found of
                      Some inserted \<Rightarrow> Inr (Some inserted)
                    | None \<Rightarrow> Inr (if op_immediate extract = 0 then Some source else None))))"

text \<open>The implementation of \<open>SsaIl\<close>.\<close>

definition ecode_ssa :: "'m ecode_ir \<Rightarrow> (address, address_space_id) ssa_il" where
  "ecode_ssa ir =
     \<lparr>ssa_graph = ec_graph ir, value_count = length (ec_values ir),
      value_definition = (\<lambda>v. map_option ev_definition (lookup_at (ec_values ir) (id_index v))),
      value_width = (\<lambda>v. map_option ev_width (lookup_at (ec_values ir) (id_index v))),
      block_arg_count = length (ec_block_args ir),
      block_arg_block = (\<lambda>a. map_option eb_block (lookup_at (ec_block_args ir) (id_index a))),
      block_arg_value = (\<lambda>a. map_option eb_value (lookup_at (ec_block_args ir) (id_index a))),
      block_arg_width = (\<lambda>a. map_option eb_width (lookup_at (ec_block_args ir) (id_index a))),
      op_count = length (ec_operations ir),
      op_operands = (\<lambda>op. case lookup_at (ec_operations ir) (id_index op) of
          None \<Rightarrow> Inr None | Some operation \<Rightarrow> map_ok Some (op_operands_for ir operation)),
      edge_args = ec_edge_args ir, edge_arg_values = ec_edge_arg_values ir,
      memory_domain_count = length (ec_memory_domains ir),
      memory_domain_space = lookup_at (ec_memory_domains ir)\<rparr>"

section \<open>The verifier\<close>

datatype ecode_error =
    EcBlockArgCount u32 nat nat | EcDuplicateMemoryDomain | EcEdgeArgTableCount nat nat | EcIl il_error
  | EcInconsistentValueDomain u32 | EcInvalidOpPlacement u32 | EcInvalidOperandCount u32 nat nat
  | EcInvalidResultCount u32 nat nat | EcInvalidValueDef | EcNonDominatingEdgeArg u32 u32 u32
  | EcNonDominatingUse u32 u32 | EcStructure structure_error | EcValueDomainCount nat nat

fun from_structure :: "structure_error \<Rightarrow> ecode_error" where
  "from_structure (StructureIl e) = EcIl e"
| "from_structure e = EcStructure e"

fun from_ssa_error :: "ssa_verify_error \<Rightarrow> ecode_error" where
  "from_ssa_error (BlockArgCount b e f) = EcBlockArgCount b e f"
| "from_ssa_error DuplicateMemoryDomain = EcDuplicateMemoryDomain"
| "from_ssa_error (EdgeArgTableCount e f) = EcEdgeArgTableCount e f"
| "from_ssa_error (SsaIlError e) = EcIl e"
| "from_ssa_error (InvalidOpPlacement p) = EcInvalidOpPlacement p"
| "from_ssa_error InvalidValueDef = EcInvalidValueDef"
| "from_ssa_error (NonDominatingEdgeArg v p s) = EcNonDominatingEdgeArg v p s"
| "from_ssa_error (NonDominatingUse v u) = EcNonDominatingUse v u"

text \<open>The question mark on a result with another error type.\<close>

definition convert :: "('e \<Rightarrow> 'f) \<Rightarrow> 'e failure + 'b \<Rightarrow> 'f failure + 'b" where
  "convert f m =
     (case m of Inl (Error e) \<Rightarrow> Inl (Error (f e)) | Inl (Panic p) \<Rightarrow> Inl (Panic p) | Inr x \<Rightarrow> Inr x)"

abbreviation il_err :: "il_error + 'b \<Rightarrow> ecode_error failure + 'b" where
  "il_err m \<equiv> convert EcIl (lift_error m)"

definition domain_consistent :: "'m ecode_ir \<Rightarrow> ecode_value \<Rightarrow> ecode_domain \<Rightarrow> bool" where
  "domain_consistent ir v domain =
     (case ev_definition v of
        BlockArgDef _ \<Rightarrow> if is_register_or_flag domain then ev_width v \<noteq> 0 else ev_width v = 0
      | OpDef operation \<Rightarrow>
          (case (domain, lookup_at (ec_operations ir) (id_index operation)) of
             (FlagDomain storage, Some op) \<Rightarrow>
               ev_width v \<noteq> 0 \<and> op_immediate op = storage \<and> op_opcode op \<in> {EUndefined, EWriteFlag}
           | (MemoryDomain space, Some op) \<Rightarrow>
               ev_width v = 0 \<and>
               (if op_opcode op = EStore then op_address_space op = Some space
                else if op_opcode op = EUndefined then op_immediate op = ucast space
                else False)
           | (RegisterDomain storage, Some op) \<Rightarrow>
               ev_width v \<noteq> 0 \<and> op_immediate op = storage \<and> op_opcode op \<in> {EUndefined, EWriteRegister}
           | (_, None) \<Rightarrow> False))"

fun value_domains_loop :: "'m ecode_ir \<Rightarrow> nat \<Rightarrow> ecode_value list \<Rightarrow> ecode_error failure + unit" where
  "value_domains_loop ir index [] = Inr ()"
| "value_domains_loop ir index (v # vs) =
     and_then (il_err (try_from_index index)) (\<lambda>value_id.
       case value_domain ir value_id of
         None \<Rightarrow> value_domains_loop ir (Suc index) vs
       | Some domain \<Rightarrow>
           if \<not> domain_consistent ir v domain then Inl (Error (EcInconsistentValueDomain value_id))
           else value_domains_loop ir (Suc index) vs)"

definition verify_value_domains :: "'m ecode_ir \<Rightarrow> ecode_error failure + unit" where
  "verify_value_domains ir =
     (if length (ec_value_domains ir) \<noteq> length (ec_values ir)
      then Inl (Error (EcValueDomainCount (length (ec_values ir)) (length (ec_value_domains ir))))
      else value_domains_loop ir 0 (ec_values ir))"

definition verify_domain_write :: "'m ecode_ir \<Rightarrow> il_op_id \<Rightarrow> ecode_op \<Rightarrow> ecode_error failure + unit" where
  "verify_domain_write ir operation_id op =
     (case (if op_opcode op = EWriteFlag then Some (FlagDomain (op_immediate op))
            else if op_opcode op = EWriteRegister then Some (RegisterDomain (op_immediate op)) else None) of
        None \<Rightarrow> Inr ()
      | Some expected_domain \<Rightarrow>
          if range_len (op_operand_range op) \<noteq> 1
          then Inl (Error (EcInvalidOperandCount operation_id 1 (range_len (op_operand_range op))))
          else if range_len (op_results op) \<noteq> 1
          then Inl (Error (EcInvalidResultCount operation_id 1 (range_len (op_results op))))
          else
            and_then (il_err (try_from_index (start_of (op_results op)))) (\<lambda>result.
              if value_domain ir result \<noteq> Some expected_domain then Inl (Error (EcInconsistentValueDomain result))
              else Inr ()))"

definition verify_memory_op :: "'m ecode_ir \<Rightarrow> il_op_id \<Rightarrow> ecode_op \<Rightarrow> ecode_error failure + unit" where
  "verify_memory_op ir operation_id op =
     and_then (lift_panic (pointer_operand ir op)) (\<lambda>pointer.
       if pointer = None then Inl (Error (EcIl (MissingComponent ''pointer'')))
       else
         and_then (lift_panic (memory_operand ir op)) (\<lambda>found.
           case found of
             None \<Rightarrow> Inl (Error (EcIl (MissingComponent ''memory domain'')))
           | Some memory \<Rightarrow>
               and_then (lift_panic (get_at (ec_values ir) (id_index memory))) (\<lambda>memory.
                 if ev_width memory \<noteq> 0 then Inl (Error (EcIl WidthMismatch))
                 else if op_opcode op = EStore then
                   if range_len (op_results op) \<noteq> 1
                   then Inl (Error (EcInvalidResultCount operation_id 1 (range_len (op_results op))))
                   else
                     and_then (lift_panic (get_at (ec_values ir) (start_of (op_results op)))) (\<lambda>result.
                       if ev_width result \<noteq> 0 then Inl (Error (EcIl WidthMismatch)) else Inr ())
                 else Inr ())))"

fun verify_block_args_loop :: "'m ecode_ir \<Rightarrow> nat \<Rightarrow> ecode_block_arg list \<Rightarrow> ecode_error failure + unit" where
  "verify_block_args_loop ir index [] = Inr ()"
| "verify_block_args_loop ir index (arg # rest) =
     and_then (il_err (try_from_index index)) (\<lambda>arg_id.
     and_then (il_err (ok_or (RangeOutOfBounds (id_index (eb_block arg)) (length (g_blocks (ec_graph ir))))
         (lookup_at (g_blocks (ec_graph ir)) (id_index (eb_block arg))))) (\<lambda>_.
     and_then (il_err (ok_or (RangeOutOfBounds (id_index (eb_value arg)) (length (ec_values ir)))
         (lookup_at (ec_values ir) (id_index (eb_value arg))))) (\<lambda>_.
     and_then (lift_panic (get_at (ec_values ir) (id_index (eb_value arg)))) (\<lambda>v.
       if ev_definition v \<noteq> BlockArgDef arg_id \<or> ev_width v \<noteq> eb_width arg then Inl (Error EcInvalidValueDef)
       else verify_block_args_loop ir (Suc index) rest))))"

fun verify_results_loop :: "'m ecode_ir \<Rightarrow> il_op_id \<Rightarrow> ecode_op \<Rightarrow> nat list \<Rightarrow> ecode_error failure + unit" where
  "verify_results_loop ir operation_id op [] = Inr ()"
| "verify_results_loop ir operation_id op (result_index # rest) =
     and_then (lift_panic (get_at (ec_values ir) result_index)) (\<lambda>v.
       if ev_definition v \<noteq> OpDef operation_id then Inl (Error EcInvalidValueDef)
       else if ev_width v \<noteq> op_width op then Inl (Error (EcIl WidthMismatch))
       else verify_results_loop ir operation_id op rest)"

definition verify_constant :: "'m ecode_ir \<Rightarrow> ecode_op \<Rightarrow> ecode_error failure + unit" where
  "verify_constant ir op =
     (if op_opcode op = EConstant \<and> 64 < op_width op then
        let finish = min (unat (op_immediate op) + width_bytes (op_width op)) (2 ^ 64 - 1) in
        if length (ec_constant_storage ir) < finish
        then Inl (Error (EcIl (RangeOutOfBounds finish (length (ec_constant_storage ir)))))
        else Inr ()
      else Inr ())"

fun verify_operands_loop :: "'m ecode_ir \<Rightarrow> ecode_op \<Rightarrow> il_value_id list \<Rightarrow> ecode_error failure + unit" where
  "verify_operands_loop ir op [] = Inr ()"
| "verify_operands_loop ir op (used # rest) =
     and_then (il_err (ok_or (RangeOutOfBounds (id_index used) (length (ec_values ir)))
         (lookup_at (ec_values ir) (id_index used)))) (\<lambda>v.
       if has_uniform_operand_width (op_opcode op) \<and> ev_width v \<noteq> op_width op then Inl (Error (EcIl WidthMismatch))
       else verify_operands_loop ir op rest)"

definition verify_op :: "'m ecode_ir \<Rightarrow> nat \<Rightarrow> ecode_op \<Rightarrow> ecode_error failure + unit" where
  "verify_op ir index op =
     and_then (il_err (try_from_index index)) (\<lambda>operation_id.
     and_then (il_err (verify_bounds (op_results op) (length (ec_values ir)))) (\<lambda>_.
     and_then (il_err (verify_bounds (op_operand_range op) (length (ec_value_operands ir)))) (\<lambda>_.
     and_then (verify_results_loop ir operation_id op [start_of (op_results op)..<end_of (op_results op)]) (\<lambda>_.
     and_then (verify_constant ir op) (\<lambda>_.
     and_then (verify_domain_write ir operation_id op) (\<lambda>_.
     and_then (convert EcIl (checked_slice (op_operand_range op) (ec_value_operands ir))) (\<lambda>operands.
     and_then (verify_operands_loop ir op operands) (\<lambda>_.
       if requires_memory_domain (op_opcode op) then
         case Option.bind (op_address_space op) (memory_domain ir) of
           None \<Rightarrow> Inl (Error (EcIl (MissingComponent ''memory domain'')))
         | Some _ \<Rightarrow> verify_memory_op ir operation_id op
       else Inr ()))))))))"

fun verify_ops_loop :: "'m ecode_ir \<Rightarrow> nat \<Rightarrow> ecode_op list \<Rightarrow> ecode_error failure + unit" where
  "verify_ops_loop ir index [] = Inr ()"
| "verify_ops_loop ir index (op # rest) =
     and_then (verify_op ir index op) (\<lambda>_. verify_ops_loop ir (Suc index) rest)"

definition verify_value :: "'m ecode_ir \<Rightarrow> il_value_id \<Rightarrow> ecode_value \<Rightarrow> ecode_error failure + unit" where
  "verify_value ir value_id v =
     (case ev_definition v of
        OpDef operation \<Rightarrow>
          (case lookup_at (ec_operations ir) (id_index operation) of
             None \<Rightarrow> Inl (Error EcInvalidValueDef)
           | Some op \<Rightarrow>
               if \<not> contains_index (op_results op) (id_index value_id) then Inl (Error EcInvalidValueDef) else Inr ())
      | BlockArgDef arg \<Rightarrow>
          (case lookup_at (ec_block_args ir) (id_index arg) of
             None \<Rightarrow> Inl (Error EcInvalidValueDef)
           | Some a \<Rightarrow>
               if eb_value a \<noteq> value_id \<or> eb_width a \<noteq> ev_width v then Inl (Error EcInvalidValueDef) else Inr ()))"

fun verify_values_loop :: "'m ecode_ir \<Rightarrow> nat \<Rightarrow> ecode_value list \<Rightarrow> ecode_error failure + unit" where
  "verify_values_loop ir index [] = Inr ()"
| "verify_values_loop ir index (v # rest) =
     and_then (il_err (try_from_index index)) (\<lambda>value_id.
     and_then (verify_value ir value_id v) (\<lambda>_. verify_values_loop ir (Suc index) rest))"

definition same_domain :: "'m ecode_ir \<Rightarrow> il_value_id \<Rightarrow> il_value_id \<Rightarrow> ecode_error + unit" where
  "same_domain ir incoming destination =
     (if value_domain ir incoming \<noteq> value_domain ir destination then Inl (EcInconsistentValueDomain destination)
      else Inr ())"

definition verify_tables :: "'m ecode_ir \<Rightarrow> ecode_error failure + unit" where
  "verify_tables ir =
     and_then (convert from_structure (verify_structure (ec_graph ir) (ec_source_spans ir) (Some (ec_parent_spans ir))
         (length (ec_operations ir)))) (\<lambda>_.
     and_then (convert from_ssa_error (lift_error (verify_memory_domains (ecode_ssa ir)))) (\<lambda>_.
     and_then (verify_value_domains ir) (\<lambda>_.
     and_then (convert from_ssa_error (verify_edge_args (ecode_ssa ir))) (\<lambda>_.
     and_then (verify_block_args_loop ir 0 (ec_block_args ir)) (\<lambda>_.
     and_then (verify_ops_loop ir 0 (ec_operations ir)) (\<lambda>_.
       verify_values_loop ir 0 (ec_values ir)))))))"

definition ecode_verify :: "'m ecode_ir \<Rightarrow> (ecode_error failure + unit) option" where
  "ecode_verify ir =
     (case verify_tables ir of
        Inl e \<Rightarrow> Some (Inl e)
      | Inr _ \<Rightarrow> verify_uses (ecode_ssa ir) from_ssa_error (same_domain ir))"

section \<open>Panic freedom\<close>

lemma convert_simps [simp]:
  "convert f (Inl (Error e)) = Inl (Error (f e))" "convert f (Inl (Panic p)) = Inl (Panic p)" "convert f (Inr x) = Inr x"
  by (simp_all add: convert_def)

lemma convert_iffs [outcome_simps]:
  "convert f m = Inr x \<longleftrightarrow> m = Inr x" "convert f m = Inl (Panic p) \<longleftrightarrow> m = Inl (Panic p)"
  by (auto simp: convert_def split: sum.splits failure.splits)

lemma lookup_at_Some_iff [outcome_simps]: "lookup_at xs i = Some x \<longleftrightarrow> i < length xs \<and> xs ! i = x"
  by (auto simp: lookup_at_def)

lemma get_at_iffs [outcome_simps]:
  "get_at xs i = Inr x \<longleftrightarrow> i < length xs \<and> xs ! i = x" "get_at xs i = Inl p \<longleftrightarrow> p = IndexOutOfBounds \<and> length xs \<le> i"
  by (auto simp: get_at_def)

lemma graph_verify_Panic: "graph_verify g \<noteq> Inl (Panic p)"
  using verify_blocks_Panic [of g 0 "g_blocks g" "[]" p]
  by (auto simp: graph_verify_def outcome_simps verify_disjoint_ops_Panic split: if_splits)

lemma verify_structure_Panic: "verify_structure g ss ps n \<noteq> Inl (Panic p)"
proof -
  have "collect_ok (\<lambda>b. into_structure (lift_error (verify_bounds (block_ops b) n))) bs \<noteq> Inl (Panic p)" for bs
    by (induction bs) (auto simp: outcome_simps map_ok_def)
  then have "verify_node_bounds g n \<noteq> Inl (Panic p)" by (auto simp: verify_node_bounds_def outcome_simps map_ok_def)
  then show ?thesis by (auto simp: verify_structure_def outcome_simps graph_verify_Panic split: option.splits)
qed

lemma verify_edge_args_Panic: "verify_edge_args s \<noteq> Inl (Panic p)"
  by (auto simp: verify_edge_args_def outcome_simps)

lemma value_domains_loop_Panic: "value_domains_loop ir i vs \<noteq> Inl (Panic p)"
  by (induction vs arbitrary: i) (auto simp: outcome_simps split: option.splits)

lemma verify_value_domains_Panic: "verify_value_domains ir \<noteq> Inl (Panic p)"
  by (simp add: verify_value_domains_def value_domains_loop_Panic)

lemma verify_block_args_loop_Panic: "verify_block_args_loop ir i as \<noteq> Inl (Panic p)"
  by (induction as arbitrary: i) (auto simp: outcome_simps split: if_splits)

lemma verify_results_loop_Panic:
  "\<forall>k \<in> set ks. k < length (ec_values ir) \<Longrightarrow> verify_results_loop ir o_id op ks \<noteq> Inl (Panic p)"
  by (induction ks) (auto simp: outcome_simps split: if_splits)

lemma verify_domain_write_Panic: "verify_domain_write ir o_id op \<noteq> Inl (Panic p)"
  by (auto simp: verify_domain_write_def outcome_simps split: option.splits if_splits)

lemma verify_operands_loop_Panic: "verify_operands_loop ir op vs \<noteq> Inl (Panic p)"
  by (induction vs) (auto simp: outcome_simps split: if_splits)

lemma verify_operands_loop_iff:
  "verify_operands_loop ir op vs = Inr () \<longleftrightarrow>
     (\<forall>v \<in> set vs. id_index v < length (ec_values ir) \<and>
        (has_uniform_operand_width (op_opcode op) \<longrightarrow> ev_width (ec_values ir ! id_index v) = op_width op))"
  by (induction vs) (auto simp: outcome_simps split: if_splits)

definition operands_of :: "'m ecode_ir \<Rightarrow> ecode_op \<Rightarrow> il_value_id list" where
  "operands_of ir op = sub_slice (start_of (op_operand_range op)) (end_of (op_operand_range op)) (ec_value_operands ir)"

lemma op_operands_for_ok:
  "verify_bounds (op_operand_range op) (length (ec_value_operands ir)) = Inr () \<Longrightarrow> op_operands_for ir op = Inr (operands_of ir op)"
  by (auto simp: op_operands_for_def operands_of_def verify_bounds_def range_slice_ok split: if_splits)

lemma range_len_one:
  "verify_bounds r n = Inr () \<Longrightarrow> range_len r = 1 \<Longrightarrow> start_of r < n \<and> end_of r = Suc (start_of r)"
proof -
  assume "verify_bounds r n = Inr ()" "range_len r = 1"
  then have le: "start_of r \<le> end_of r" "end_of r \<le> n" and one: "unat (r_end r - r_start r) = 1"
    by (auto simp: verify_bounds_def range_len_def split: if_splits)
  have "unat (r_end r - r_start r) = end_of r - start_of r"
    using le(1) by (simp add: start_of_def end_of_def unat_sub word_le_nat_alt)
  then show ?thesis using one le by linarith
qed

lemma verify_memory_op_Panic:
  assumes "verify_bounds (op_operand_range op) (length (ec_value_operands ir)) = Inr ()"
    and "\<forall>v \<in> set (operands_of ir op). id_index v < length (ec_values ir)"
    and "verify_bounds (op_results op) (length (ec_values ir)) = Inr ()"
  shows "verify_memory_op ir o_id op \<noteq> Inl (Panic p)"
proof -
  note slice = op_operands_for_ok [OF assms(1)]
  have "id_index v < length (ec_values ir)" if "memory_operand ir op = Inr (Some v)" for v
    using that assms(2) slice by (auto simp: memory_operand_def map_ok_def split: if_splits)
  moreover have "pointer_operand ir op \<noteq> Inl p" "memory_operand ir op \<noteq> Inl p"
    using slice by (auto simp: memory_operand_def pointer_operand_def)
  moreover have "range_len (op_results op) = 1 \<Longrightarrow> start_of (op_results op) < length (ec_values ir)"
    using range_len_one [OF assms(3)] by simp
  ultimately show ?thesis
    by (auto simp: verify_memory_op_def outcome_simps split: option.splits if_splits)
qed

lemma verify_op_Panic: "verify_op ir i op \<noteq> Inl (Panic p)"
proof
  assume panic: "verify_op ir i op = Inl (Panic p)"
  have loop: "verify_results_loop ir w op [start_of (op_results op)..<end_of (op_results op)] \<noteq> Inl (Panic p)"
    if "verify_bounds (op_results op) (length (ec_values ir)) = Inr ()" for w
    using that by (intro verify_results_loop_Panic) (auto simp: verify_bounds_def split: if_splits)
  have const: "verify_constant ir op \<noteq> Inl (Panic p)" by (auto simp: verify_constant_def Let_def)
  have mem: "verify_memory_op ir w op \<noteq> Inl (Panic p)"
    if "verify_bounds (op_operand_range op) (length (ec_value_operands ir)) = Inr ()"
      "verify_bounds (op_results op) (length (ec_values ir)) = Inr ()" "verify_operands_loop ir op (operands_of ir op) = Inr ()" for w
    using that by (intro verify_memory_op_Panic) (auto simp: verify_operands_loop_iff)
  have slice: "checked_slice (op_operand_range op) (ec_value_operands ir) = Inr (operands_of ir op)"
    if "verify_bounds (op_operand_range op) (length (ec_value_operands ir)) = Inr ()"
    using that by (simp add: checked_slice_eq operands_of_def)
  show False using panic loop const mem slice
    by (auto simp: verify_op_def outcome_simps verify_domain_write_Panic verify_operands_loop_Panic split: if_splits option.splits)
qed

lemma verify_tables_Panic: "verify_tables ir \<noteq> Inl (Panic p)"
proof -
  have "verify_ops_loop ir i ops \<noteq> Inl (Panic p)" for i ops
    by (induction ops arbitrary: i) (auto simp: outcome_simps verify_op_Panic)
  moreover have "verify_value ir w v \<noteq> Inl (Panic p)" for w v
    by (auto simp: verify_value_def split: il_ssa_def.splits option.splits)
  then have "verify_values_loop ir i vs \<noteq> Inl (Panic p)" for i vs
    by (induction vs arbitrary: i) (auto simp: outcome_simps)
  ultimately show ?thesis
    by (auto simp: verify_tables_def outcome_simps verify_structure_Panic verify_value_domains_Panic verify_edge_args_Panic
      verify_block_args_loop_Panic)
qed

section \<open>What the tables promise\<close>

lemma verify_ops_loop_iff: "verify_ops_loop ir i ops = Inr () \<longleftrightarrow> (\<forall>k < length ops. verify_op ir (i + k) (ops ! k) = Inr ())"
  by (induction ops arbitrary: i) (auto simp: outcome_simps less_Suc_eq_0_disj)

lemma verify_values_loop_iff:
  "verify_values_loop ir i vs = Inr () \<longleftrightarrow>
     (\<forall>k < length vs. i + k < 2 ^ 32 - 1 \<and> verify_value ir (node_id (i + k)) (vs ! k) = Inr ())"
  by (induction vs arbitrary: i) (auto simp: outcome_simps try_from_index_eq node_id_def less_Suc_eq_0_disj)

lemma verify_block_args_loop_iff:
  "verify_block_args_loop ir i as = Inr () \<longleftrightarrow>
     (\<forall>k < length as. i + k < 2 ^ 32 - 1 \<and> id_index (eb_block (as ! k)) < length (g_blocks (ec_graph ir)) \<and>
        id_index (eb_value (as ! k)) < length (ec_values ir) \<and>
        ev_definition (ec_values ir ! id_index (eb_value (as ! k))) = BlockArgDef (node_id (i + k)) \<and>
        ev_width (ec_values ir ! id_index (eb_value (as ! k))) = eb_width (as ! k))"
  by (induction as arbitrary: i) (auto simp: outcome_simps try_from_index_eq node_id_def less_Suc_eq_0_disj split: if_splits)

lemma verify_results_loop_iff:
  "verify_results_loop ir w op ks = Inr () \<longleftrightarrow>
     (\<forall>k \<in> set ks. k < length (ec_values ir) \<and> ev_definition (ec_values ir ! k) = OpDef w \<and> ev_width (ec_values ir ! k) = op_width op)"
  by (induction ks) (auto simp: outcome_simps split: if_splits)

lemma memory_domains_loop_iff:
  "memory_domains_loop s is = Inr () \<longleftrightarrow>
     (\<forall>i \<in> set is. memory_domain_space s i \<noteq> None \<and> (\<forall>j < i. memory_domain_space s j \<noteq> memory_domain_space s i))"
  by (induction "is") (auto simp: list_ex_iff split: option.splits)

definition op_typed :: "'m ecode_ir \<Rightarrow> nat \<Rightarrow> ecode_op \<Rightarrow> bool" where
  "op_typed ir i op \<longleftrightarrow>
     start_of (op_operand_range op) \<le> end_of (op_operand_range op) \<and> end_of (op_operand_range op) \<le> length (ec_value_operands ir) \<and>
     (\<forall>k. contains_index (op_results op) k \<longrightarrow>
        k < length (ec_values ir) \<and> ev_definition (ec_values ir ! k) = OpDef (node_id i) \<and> ev_width (ec_values ir ! k) = op_width op) \<and>
     (\<forall>v \<in> set (operands_of ir op). id_index v < length (ec_values ir) \<and>
        (has_uniform_operand_width (op_opcode op) \<longrightarrow> ev_width (ec_values ir ! id_index v) = op_width op))"

lemma verify_op_typed: "verify_op ir i op = Inr () \<Longrightarrow> op_typed ir i op"
proof -
  assume "verify_op ir i op = Inr ()"
  then have bounds: "verify_bounds (op_operand_range op) (length (ec_value_operands ir)) = Inr ()"
      and low: "i < 2 ^ 32 - 1" and loop: "verify_results_loop ir (node_id i) op [start_of (op_results op)..<end_of (op_results op)] = Inr ()"
      and used: "\<exists>vs. checked_slice (op_operand_range op) (ec_value_operands ir) = Inr vs \<and> verify_operands_loop ir op vs = Inr ()"
    by (auto simp: verify_op_def outcome_simps try_from_index_eq node_id_def split: if_splits)
  have "checked_slice (op_operand_range op) (ec_value_operands ir) = Inr (operands_of ir op)"
    using bounds by (simp add: checked_slice_eq operands_of_def)
  then have "verify_operands_loop ir op (operands_of ir op) = Inr ()" using used by auto
  then show ?thesis using loop bounds
    by (auto simp: op_typed_def verify_results_loop_iff verify_operands_loop_iff contains_index_def verify_bounds_def split: if_splits)
qed

text \<open>Who defines a value, read off the operations and the block arguments.\<close>

definition definers :: "'m ecode_ir \<Rightarrow> nat \<Rightarrow> il_ssa_def set" where
  "definers ir k =
     {OpDef (node_id i) |i. i < length (ec_operations ir) \<and> contains_index (op_results (ec_operations ir ! i)) k} \<union>
     {BlockArgDef (node_id j) |j. j < length (ec_block_args ir) \<and> id_index (eb_value (ec_block_args ir ! j)) = k}"

definition ecode_typed :: "'m ecode_ir \<Rightarrow> bool" where
  "ecode_typed ir \<longleftrightarrow>
     (\<forall>i < length (ec_operations ir). op_typed ir i (ec_operations ir ! i)) \<and>
     (\<forall>j < length (ec_block_args ir). let a = ec_block_args ir ! j in
        id_index (eb_block a) < length (g_blocks (ec_graph ir)) \<and> id_index (eb_value a) < length (ec_values ir) \<and>
        ev_width (ec_values ir ! id_index (eb_value a)) = eb_width a) \<and>
     (\<forall>k < length (ec_values ir). definers ir k = {ev_definition (ec_values ir ! k)}) \<and>
     length (ec_value_domains ir) = length (ec_values ir) \<and>
     (\<forall>k < length (ec_values ir). \<forall>d. ec_value_domains ir ! k = Some d \<longrightarrow> domain_consistent ir (ec_values ir ! k) d) \<and>
     distinct (ec_memory_domains ir)"

lemma value_domains_loop_iff:
  "value_domains_loop ir i vs = Inr () \<longleftrightarrow>
     (\<forall>k < length vs. i + k < 2 ^ 32 - 1 \<and>
        (\<forall>d. value_domain ir (node_id (i + k)) = Some d \<longrightarrow> domain_consistent ir (vs ! k) d))"
  by (induction vs arbitrary: i)
    (auto simp: outcome_simps try_from_index_eq node_id_def less_Suc_eq_0_disj split: option.splits if_splits)

lemma verify_tables_parts:
  assumes "verify_tables ir = Inr ()"
  shows "graph_verify (ec_graph ir) = Inr ()" "verify_node_bounds (ec_graph ir) (length (ec_operations ir)) = Inr ()"
    "verify_memory_domains (ecode_ssa ir) = Inr ()" "verify_value_domains ir = Inr ()"
    "verify_edge_args (ecode_ssa ir) = Inr ()" "verify_block_args_loop ir 0 (ec_block_args ir) = Inr ()"
    "verify_ops_loop ir 0 (ec_operations ir) = Inr ()" "verify_values_loop ir 0 (ec_values ir) = Inr ()"
  using assms by (auto simp: verify_tables_def outcome_simps verify_structure_def)

lemma verify_tables_definers:
  assumes ok: "verify_tables ir = Inr ()" and k: "k < length (ec_values ir)"
  shows "definers ir k = {ev_definition (ec_values ir ! k)}"
proof -
  note parts = verify_tables_parts [OF ok]
  let ?v = "ec_values ir ! k"
  have ops: "ev_definition ?v = OpDef (node_id i)"
    if "i < length (ec_operations ir)" "contains_index (op_results (ec_operations ir ! i)) k" for i
    using parts(7) that verify_op_typed [of ir i "ec_operations ir ! i"] by (auto simp: verify_ops_loop_iff op_typed_def)
  have args: "ev_definition ?v = BlockArgDef (node_id j)"
    if "j < length (ec_block_args ir)" "id_index (eb_value (ec_block_args ir ! j)) = k" for j
    using parts(6) that by (auto simp: verify_block_args_loop_iff)
  have low: "k < 2 ^ 32 - 1" and val: "verify_value ir (node_id k) ?v = Inr ()"
    using parts(8) k by (auto simp: verify_values_loop_iff)
  have "ev_definition ?v \<in> definers ir k"
  proof (cases "ev_definition ?v")
    case (OpDef op)
    then have "id_index op < length (ec_operations ir)" "contains_index (op_results (ec_operations ir ! id_index op)) k"
      using val low by (auto simp: verify_value_def outcome_simps index_node_id split: option.splits if_splits)
    then show ?thesis using ops [of "id_index op"] by (auto simp: definers_def)
  next
    case (BlockArgDef a)
    then have "id_index a < length (ec_block_args ir)" "id_index (eb_value (ec_block_args ir ! id_index a)) = k"
      using val low by (auto simp: verify_value_def outcome_simps index_node_id split: option.splits if_splits)
    then show ?thesis using args [of "id_index a"] by (auto simp: definers_def)
  qed
  moreover have "x = ev_definition ?v" if "x \<in> definers ir k" for x
    using that unfolding definers_def by (elim UnE CollectE exE conjE) (simp_all add: ops args)
  ultimately show ?thesis by blast
qed

lemma verify_tables_typed:
  assumes "verify_tables ir = Inr ()" shows "ecode_typed ir"
proof -
  note parts = verify_tables_parts [OF assms]
  have len: "length (ec_value_domains ir) = length (ec_values ir)" and loop: "value_domains_loop ir 0 (ec_values ir) = Inr ()"
    using parts(4) by (auto simp: verify_value_domains_def split: if_splits)
  have "domain_consistent ir (ec_values ir ! k) d" if "k < length (ec_values ir)" "ec_value_domains ir ! k = Some d" for k d
    using loop that len index_node_id [of k] by (auto simp: value_domains_loop_iff value_domain_def lookup_at_def)
  moreover have "distinct (ec_memory_domains ir)"
    using parts(3) unfolding distinct_conv_nth
    by (auto simp: verify_memory_domains_def memory_domains_loop_iff ecode_ssa_def lookup_at_def nat_neq_iff split: if_splits)
      (metis atLeastLessThan_iff le0)+
  ultimately show ?thesis
    using parts(6,7) len verify_tables_definers [OF assms]
    by (auto simp: ecode_typed_def verify_ops_loop_iff verify_block_args_loop_iff Let_def intro: verify_op_typed)
qed


definition straight_ecode :: "unit ecode_ir" where
  "straight_ecode =
     \<lparr>ec_metadata = (),
      ec_graph = \<lparr>g_blocks = [\<lparr>block_ops = \<lparr>r_start = 0, r_end = 2\<rparr>, block_successors = range_empty, block_properties = ENTRY\<rparr>],
        g_successors = [], g_successor_kinds = [], g_block_sources = []\<rparr>,
      ec_source_spans = [], ec_parent_spans = [],
      ec_values = [\<lparr>ev_width = 8, ev_definition = OpDef 1\<rparr>, \<lparr>ev_width = 8, ev_definition = OpDef 2\<rparr>],
      ec_value_domains = [None, Some (RegisterDomain 7)], ec_block_args = [], ec_edge_args = [], ec_edge_arg_values = [],
      ec_operations =
        [(ecode_op_new EConstant \<lparr>r_start = 0, r_end = 1\<rparr> range_empty 8)\<lparr>op_immediate := 200\<rparr>,
         (ecode_op_new EWriteRegister \<lparr>r_start = 1, r_end = 2\<rparr> \<lparr>r_start = 0, r_end = 1\<rparr> 8)\<lparr>op_immediate := 7\<rparr>],
      ec_value_operands = [1], ec_memory_domains = [], ec_constant_storage = []\<rparr>"

lemma straight_sel:
  "ec_block_args straight_ecode = []" "ec_edge_args straight_ecode = []" "ec_memory_domains straight_ecode = []"
  "ec_edge_arg_values straight_ecode = []" "ec_source_spans straight_ecode = []" "ec_parent_spans straight_ecode = []"
  "length (ec_operations straight_ecode) = 2" "g_successors (ec_graph straight_ecode) = []"
  "length (g_blocks (ec_graph straight_ecode)) = 1" "length (ec_values straight_ecode) = 2"
  by (simp_all add: straight_ecode_def)

lemma straight_tables: "verify_tables straight_ecode = Inr ()"
proof -
  have "graph_verify (ec_graph straight_ecode) = Inr ()"
    by (simp add: graph_verify_iff graph_ok_def straight_ecode_def block_ok_def successors_of_def sub_slice_def start_of_def end_of_def
      filled_ops_def range_is_empty_def range_empty_def)
  moreover have "verify_node_bounds (ec_graph straight_ecode) 2 = Inr ()"
    by (simp add: verify_node_bounds_iff straight_ecode_def verify_bounds_def start_of_def end_of_def)
  ultimately have "verify_structure (ec_graph straight_ecode) [] (Some []) 2 = Inr ()"
    by (simp add: verify_structure_def source_spans_verify_def parent_spans_verify_def)
  moreover have "verify_value_domains straight_ecode = Inr ()"
    by (simp add: verify_value_domains_def try_from_index_eq value_domain_def lookup_at_def id_index_def
      straight_ecode_def domain_consistent_def ecode_op_new_def)
  moreover have "verify_ops_loop straight_ecode 0 (ec_operations straight_ecode) = Inr ()"
    by (simp add: straight_ecode_def verify_op_def ecode_op_new_def try_from_index_eq verify_bounds_def start_of_def end_of_def
      range_empty_def get_at_def verify_constant_def verify_domain_write_def checked_slice_def range_slice_def sub_slice_def
      range_len_def lookup_at_def id_index_def has_uniform_operand_width_def requires_memory_domain_def value_domain_def upt_conv_Cons)
  moreover have "verify_values_loop straight_ecode 0 (ec_values straight_ecode) = Inr ()"
    by (simp add: straight_ecode_def verify_value_def try_from_index_eq lookup_at_def id_index_def contains_index_def
      start_of_def end_of_def ecode_op_new_def)
  ultimately show ?thesis
    by (simp add: verify_tables_def verify_memory_domains_def verify_edge_args_def ecode_ssa_def straight_sel)
qed

section \<open>What acceptance means\<close>

lemma ecode_ssa_operands:
  assumes "verify_tables ir = Inr ()"
  shows "op_operands (ecode_ssa ir) op =
    Inr (if id_index op < length (ec_operations ir) then Some (operands_of ir (ec_operations ir ! id_index op)) else None)"
proof -
  have "op_operands_for ir (ec_operations ir ! i) = Inr (operands_of ir (ec_operations ir ! i))" if "i < length (ec_operations ir)" for i
    using verify_tables_typed [OF assms] that
    by (auto simp: ecode_typed_def op_typed_def verify_bounds_def intro!: op_operands_for_ok)
  then show ?thesis by (simp add: ecode_ssa_def lookup_at_def)
qed

lemma ecode_ssa_sel [simp]:
  "ssa_graph (ecode_ssa ir) = ec_graph ir" "block_arg_count (ecode_ssa ir) = length (ec_block_args ir)"
  "op_count (ecode_ssa ir) = length (ec_operations ir)"
  by (simp_all add: ecode_ssa_def)

text \<open>The identifiers are nonzero, as their type has it, and the graph fits its 32-bit indices.\<close>

definition ecode_sized :: "'m ecode_ir \<Rightarrow> bool" where
  "ecode_sized ir \<longleftrightarrow>
     (\<forall>s \<in> set (g_successors (ec_graph ir)). s \<noteq> 0) \<and> (\<forall>a \<in> set (ec_block_args ir). eb_block a \<noteq> 0) \<and>
     2 * length (g_blocks (ec_graph ir)) < 2 ^ 32 \<and>
     sum_list (map (\<lambda>b. length (successors_of (g_successors (ec_graph ir)) b)) (g_blocks (ec_graph ir))) < 2 ^ 32"

lemma ecode_flow_ok:
  assumes "graph_verify (ec_graph ir) = Inr ()" "ecode_sized ir"
  shows "flow_ok (g_blocks (ec_graph ir)) (g_successors (ec_graph ir))"
proof -
  have sub: "set (successors_of ss b) \<subseteq> set ss" for ss b
    unfolding successors_of_def sub_slice_def using set_take_subset set_drop_subset by (rule subset_trans)
  have "\<forall>b. \<forall>s \<in> set (successors_of (g_successors (ec_graph ir)) b). s \<noteq> 0"
    using assms(2) sub unfolding ecode_sized_def by blast
  then show ?thesis using assms by (auto simp: graph_verify_iff graph_ok_def flow_ok_def block_ok_def ecode_sized_def)
qed

lemma ecode_uses_ok:
  assumes tables: "verify_tables ir = Inr ()" and size: "ecode_sized ir" and blocks: "g_blocks (ec_graph ir) \<noteq> []"
  shows "\<exists>entry r. entry_block (ec_graph ir) = Inr (Some entry) \<and>
    verify_uses (ecode_ssa ir) from_ssa_error (same_domain ir) = Some r \<and> (\<forall>p. r \<noteq> Inl (Panic p)) \<and>
    (r = Inr () \<longleftrightarrow> ssa_uses_ok (ecode_ssa ir) (same_domain ir) entry)"
proof -
  note parts = verify_tables_parts [OF tables]
  have "\<forall>k < length (ec_block_args ir). k < 2 ^ 32 - 1" using parts(6) by (auto simp: verify_block_args_loop_iff)
  then have count: "length (ec_block_args ir) < 2 ^ 32"
    by (cases "length (ec_block_args ir) < 2 ^ 32") (auto dest: spec [of _ "2 ^ 32 - 1 :: nat"])
  have "\<forall>a. block_arg_block (ecode_ssa ir) a \<noteq> Some 0" using size by (auto simp: ecode_ssa_def ecode_sized_def lookup_at_def)
  moreover have "\<forall>op. \<exists>found. op_operands (ecode_ssa ir) op = Inr found" using ecode_ssa_operands [OF tables] by auto
  ultimately show ?thesis
    using verify_uses_ok [of "ecode_ssa ir" from_ssa_error "same_domain ir"] parts(1) ecode_flow_ok [OF parts(1) size] size blocks count
    by (simp add: ecode_sized_def)
qed

definition ecode_safe :: "'m ecode_ir \<Rightarrow> bool" where
  "ecode_safe ir \<longleftrightarrow>
     (if g_blocks (ec_graph ir) = []
      then \<forall>i < length (ec_operations ir). \<forall>v \<in> set (operands_of ir (ec_operations ir ! i)). listed_before (ecode_ssa ir) v i
      else \<exists>entry. entry_block (ec_graph ir) = Inr (Some entry) \<and>
        (\<forall>i < length (ec_operations ir). op_block_of (ecode_ssa ir) i \<noteq> None) \<and>
        (\<forall>ws b i v. walk (ssa_edge (ecode_ssa ir)) entry ws b \<longrightarrow> i < length (ec_operations ir) \<longrightarrow>
           op_block_of (ecode_ssa ir) i = Some b \<longrightarrow> v \<in> set (operands_of ir (ec_operations ir ! i)) \<longrightarrow>
           defined_on_walk (ecode_ssa ir) ws i v) \<and>
        (\<forall>i < length (g_blocks (ec_graph ir)). block_edges_ok (ecode_ssa ir) (same_domain ir) entry i))"

lemma linear_uses_loop_iff:
  "linear_uses_loop s is = Inr () \<longleftrightarrow>
     (\<forall>i \<in> set is. i < 2 ^ 32 - 1 \<and> (\<exists>vs. op_operands s (node_id i) = Inr (Some vs) \<and> (\<forall>v \<in> set vs. listed_before s v i)))"
  by (induction "is") (auto simp: outcome_simps try_from_index_eq node_id_def verify_operands_precede_iff)

lemma linear_uses_loop_Panic:
  assumes "\<forall>op. \<exists>found. op_operands s op = Inr found" shows "linear_uses_loop s is \<noteq> Inl (Panic p)"
proof (induction "is")
  case (Cons i "is")
  have "verify_operands_precede s op i \<noteq> Inl (Panic p)" for op
    using assms verify_operands_precede_Panic [of s op _ i p] by metis
  then show ?case using Cons by (auto simp: outcome_simps)
qed simp

lemma ecode_linear:
  assumes tables: "verify_tables ir = Inr ()" and blocks: "g_blocks (ec_graph ir) = []"
  shows "\<exists>r. verify_uses (ecode_ssa ir) from_ssa_error (same_domain ir) = Some r \<and> (\<forall>p. r \<noteq> Inl (Panic p)) \<and>
    (r = Inr () \<longrightarrow> ecode_safe ir)"
proof -
  let ?m = "linear_uses_loop (ecode_ssa ir) [0..<length (ec_operations ir)]"
  have operands: "\<forall>op. \<exists>found. op_operands (ecode_ssa ir) op = Inr found" using ecode_ssa_operands [OF tables] by auto
  have "listed_before (ecode_ssa ir) v i"
    if "?m = Inr ()" "i < length (ec_operations ir)" "v \<in> set (operands_of ir (ec_operations ir ! i))" for i v
  proof -
    have "i < 2 ^ 32 - 1" "\<exists>vs. op_operands (ecode_ssa ir) (node_id i) = Inr (Some vs) \<and> (\<forall>v \<in> set vs. listed_before (ecode_ssa ir) v i)"
      using that(1,2) unfolding linear_uses_loop_iff by auto
    then show ?thesis using that(2,3) index_node_id [of i] by (auto simp: ecode_ssa_operands [OF tables])
  qed
  then have "ecode_safe ir" if "?m = Inr ()" using that blocks by (simp add: ecode_safe_def)
  then show ?thesis
    using blocks linear_uses_loop_Panic [OF operands] by (auto simp: verify_uses_def verify_linear_uses_def outcome_simps)
qed

lemma ssa_uses_ok_safe:
  assumes tables: "verify_tables ir = Inr ()" and blocks: "g_blocks (ec_graph ir) \<noteq> []"
    and entry: "entry_block (ec_graph ir) = Inr (Some entry)" and uses: "ssa_uses_ok (ecode_ssa ir) (same_domain ir) entry"
  shows "ecode_safe ir"
proof -
  have ops: "i < 2 ^ 32 - 1" "op_block_of (ecode_ssa ir) i \<noteq> None" if "i < length (ec_operations ir)" for i
    using uses that by (auto simp: ssa_uses_ok_def op_uses_ok_def)
  have "defined_on_walk (ecode_ssa ir) ws i v"
    if "walk (ssa_edge (ecode_ssa ir)) entry ws b" "i < length (ec_operations ir)" "op_block_of (ecode_ssa ir) i = Some b"
      "v \<in> set (operands_of ir (ec_operations ir ! i))" for ws b i v
    using that ops(1) [OF that(2)] by (intro ssa_uses_ok_reads [OF uses]) (auto simp: ecode_ssa_operands [OF tables] index_node_id)
  then show ?thesis using blocks entry ops(2) uses by (auto simp: ecode_safe_def ssa_uses_ok_def)
qed

lemma ecode_verify_ok:
  assumes "ecode_sized ir"
  shows "\<exists>r. ecode_verify ir = Some r \<and> (\<forall>p. r \<noteq> Inl (Panic p)) \<and> (r = Inr () \<longrightarrow> ecode_safe ir)"
proof (cases "verify_tables ir")
  case (Inl e)
  then show ?thesis using verify_tables_Panic [of ir] by (auto simp: ecode_verify_def)
next
  case (Inr u)
  then have tables: "verify_tables ir = Inr ()" by simp
  show ?thesis
  proof (cases "g_blocks (ec_graph ir) = []")
    case True
    then show ?thesis using ecode_linear [OF tables] tables by (simp add: ecode_verify_def)
  next
    case False
    then show ?thesis using ecode_uses_ok [OF tables assms] ssa_uses_ok_safe [OF tables] tables by (auto simp: ecode_verify_def)
  qed
qed

text \<open>
  C4. The verifier of ecode returns on every container, whatever its tables hold: no index it computes is out of
  bounds, no assertion fails and the dominance analysis ends, for graphs that fit their 32-bit indices. If it
  accepts, then on every walk from the entry to a block each operation of the block reads only values defined on
  that walk before it, by an earlier operation or as an argument of a block passed; every operation lies in a
  block; and every edge passes values of the right number, width and domain for the arguments of its target.
\<close>

theorem ecode_verify_sound:
  assumes "ecode_sized ir"
  shows "\<exists>r. ecode_verify ir = Some r \<and> (\<forall>p. r \<noteq> Inl (Panic p)) \<and> (r = Inr () \<longrightarrow> ecode_safe ir)"
  using assms by (rule ecode_verify_ok)

lemma straight_op_blocks: "op_block_of (ecode_ssa straight_ecode) 0 = Some 1" "op_block_of (ecode_ssa straight_ecode) 1 = Some 1"
  by (simp_all add: op_block_of_def block_for_op_def straight_sel)
    (simp_all add: straight_ecode_def contains_index_def start_of_def end_of_def id_index_def node_id_def try_from_index_eq)

lemma straight_op_uses: "i < 2 \<Longrightarrow> op_uses_ok (ecode_ssa straight_ecode) 1 i"
proof -
  assume i: "i < 2"
  have "operands_of straight_ecode (ec_operations straight_ecode ! 0) = []" "operands_of straight_ecode (ec_operations straight_ecode ! 1) = [1]"
    by (simp_all add: operands_of_def straight_ecode_def ecode_op_new_def range_empty_def start_of_def end_of_def sub_slice_def)
  then have "op_operands (ecode_ssa straight_ecode) (node_id 0) = Inr (Some [])" "op_operands (ecode_ssa straight_ecode) (node_id 1) = Inr (Some [1])"
    by (simp_all add: ecode_ssa_operands [OF straight_tables] straight_sel index_node_id)
  moreover have "id_index 1 = 0" by (simp add: id_index_def)
  moreover have "value_definition (ecode_ssa straight_ecode) 1 = Some (OpDef 1)"
    by (simp add: ecode_ssa_def straight_ecode_def lookup_at_def id_index_def)
  moreover have "i = 0 \<or> i = 1" using i by auto
  ultimately show ?thesis
    using straight_op_blocks dominates_refl [OF reaches_entry, of "ssa_edge (ecode_ssa straight_ecode)" 1]
    by (auto simp: op_uses_ok_def defined_at_op_def defined_at_end_def)
qed

lemma straight_verify: "ecode_verify straight_ecode = Some (Inr ())"
proof -
  have "ecode_sized straight_ecode" "g_blocks (ec_graph straight_ecode) \<noteq> []"
    by (simp_all add: ecode_sized_def straight_sel) (simp_all add: straight_ecode_def successors_of_def sub_slice_def)
  from ecode_uses_ok [OF straight_tables this] obtain entry r where entry: "entry_block (ec_graph straight_ecode) = Inr (Some entry)"
    and r: "verify_uses (ecode_ssa straight_ecode) from_ssa_error (same_domain straight_ecode) = Some r"
      "r = Inr () \<longleftrightarrow> ssa_uses_ok (ecode_ssa straight_ecode) (same_domain straight_ecode) entry" by blast
  have "entry = 1" using entry
    by (simp add: entry_block_def straight_ecode_def is_entry_def contains_flags_def ENTRY_def or_panic_def try_from_index_eq)
  then have "ssa_uses_ok (ecode_ssa straight_ecode) (same_domain straight_ecode) entry"
    using straight_op_uses
    by (auto simp: ssa_uses_ok_def straight_sel block_edges_ok_def successors_of_def sub_slice_def)
  then show ?thesis using r straight_tables by (simp add: ecode_verify_def)
qed

theorem ecode_verify_sound_witness: "ecode_verify straight_ecode = Some (Inr ()) \<and> ecode_safe straight_ecode"
proof -
  have "ecode_sized straight_ecode"
    by (simp add: ecode_sized_def straight_sel) (simp add: straight_ecode_def successors_of_def sub_slice_def)
  then show ?thesis using ecode_verify_sound [of straight_ecode] straight_verify by simp
qed

text \<open>
  C36. What the verifier of ecode accepts is well-typed and in single assignment form: each value has exactly one
  definer among the results of all operations and the values of all block arguments, namely the one it records;
  results have the width of their operation, as do the operands of the operations with uniform operand width; block
  arguments lie in blocks and have the width of their value; recorded domains agree with the defining operation; and
  no address space has two memory domains.
\<close>

theorem ecode_verified_typed:
  assumes "ecode_verify ir = Some (Inr ())" shows "ecode_typed ir"
proof -
  have "verify_tables ir = Inr ()" using assms by (cases "verify_tables ir") (auto simp: ecode_verify_def)
  then show ?thesis by (rule verify_tables_typed)
qed

theorem ecode_verified_typed_witness: "ecode_typed straight_ecode \<and> definers straight_ecode 1 = {OpDef 2}"
proof -
  have "ecode_typed straight_ecode" by (rule ecode_verified_typed) (rule straight_verify)
  then show ?thesis by (simp add: ecode_typed_def straight_sel) (simp add: straight_ecode_def)
qed

end
