(* ===== verification/ECodeBuild.thy ===== *)
theory ECodeBuild
  imports ECode
begin

text \<open>
  The builder of ecode containers, from \<open>fugue-core/src/il/ecode/ir/builder.rs\<close>, with the interner of
  wide constants (\<open>il/common/constants.rs\<close>) and the rewriter of \<open>ir/mod.rs\<close>. A constant reads back as
  it was interned, and whatever sequence of emitter calls succeeds gives tables in single assignment
  form.

  The hash map of the interner is a map from byte strings; its scratch buffer is overwritten before
  each use and is not part of the state. Methods return the updated builder with their result.
\<close>

section \<open>The constant interner\<close>

record interner =
  in_offsets :: "u8 list \<rightharpoonup> u64"

definition interner_new :: interner where
  "interner_new = \<lparr>in_offsets = Map.empty\<rparr>"

definition index_existing :: "interner \<Rightarrow> u64 \<Rightarrow> u8 list \<Rightarrow> interner" where
  "index_existing i offset bytes =
     (if in_offsets i bytes = None then i\<lparr>in_offsets := (in_offsets i)(bytes \<mapsto> offset)\<rparr> else i)"

definition intern :: "malachite \<Rightarrow> interner \<Rightarrow> u8 list \<Rightarrow> bitvec \<Rightarrow> (u64 \<times> u8 list \<times> interner) outcome" where
  "intern M i storage v =
     and_then (to_le_bytes M v (width_bytes (bits v))) (\<lambda>bytes.
       if bits v \<le> 64 then Inr (u64_from_le_bytes (bytes @ replicate (8 - length bytes) 0), storage, i)
       else
         case in_offsets i bytes of
           Some offset \<Rightarrow> Inr (offset, storage, i)
         | None \<Rightarrow>
             let offset = word_of_nat (length storage) in
             Inr (offset, storage @ bytes, i\<lparr>in_offsets := (in_offsets i)(bytes \<mapsto> offset)\<rparr>))"

section \<open>The rewriter\<close>

record ecode_rewriter =
  rw_operations :: "ecode_op list"
  rw_constant_storage :: "u8 list"
  rw_constants :: interner

fun index_constants :: "u8 list \<Rightarrow> interner \<Rightarrow> ecode_op list \<Rightarrow> interner" where
  "index_constants storage i [] = i"
| "index_constants storage i (op # ops) =
     index_constants storage
       (case constant_bytes op storage of None \<Rightarrow> i | Some bytes \<Rightarrow> index_existing i (op_immediate op) bytes) ops"

definition rewriter :: "'m ecode_ir \<Rightarrow> ecode_rewriter" where
  "rewriter ir =
     \<lparr>rw_operations = ec_operations ir, rw_constant_storage = ec_constant_storage ir,
      rw_constants = index_constants (ec_constant_storage ir) interner_new (ec_operations ir)\<rparr>"

definition replace_with_constant :: "malachite \<Rightarrow> ecode_rewriter \<Rightarrow> il_op_id \<Rightarrow> bitvec \<Rightarrow> ecode_rewriter outcome" where
  "replace_with_constant M rw operation v =
     and_then (intern M (rw_constants rw) (rw_constant_storage rw) v) (\<lambda>(immediate, storage, i).
     and_then (get_at (rw_operations rw) (id_index operation)) (\<lambda>op.
       Inr (rw\<lparr>rw_operations := (rw_operations rw)[id_index operation := op_replace_with_constant op immediate],
               rw_constant_storage := storage, rw_constants := i\<rparr>)))"

section \<open>The builder\<close>

record 'm ecode_builder =
  eb_metadata :: 'm
  eb_graph :: "address il_graph"
  eb_source_spans :: "address source_span list"
  eb_parent_spans :: "parent_span list"
  eb_values :: "ecode_value list"
  eb_value_domains :: "ecode_domain option list"
  eb_block_args :: "ecode_block_arg list"
  eb_edge_args :: "il_index_range list"
  eb_edge_arg_values :: "il_value_id il_pool"
  eb_operations :: "ecode_op list"
  eb_value_operands :: "il_value_id il_pool"
  eb_memory_domains :: "address_space_id list"
  eb_constant_storage :: "u8 list"
  eb_constants :: interner

definition ecode_builder_new :: "'m \<Rightarrow> address il_graph \<Rightarrow> 'm ecode_builder" where
  "ecode_builder_new metadata graph =
     \<lparr>eb_metadata = metadata, eb_graph = graph, eb_source_spans = [], eb_parent_spans = [], eb_values = [],
      eb_value_domains = [], eb_block_args = [], eb_edge_args = [], eb_edge_arg_values = \<lparr>pool_values = []\<rparr>,
      eb_operations = [], eb_value_operands = \<lparr>pool_values = []\<rparr>, eb_memory_domains = [],
      eb_constant_storage = [], eb_constants = interner_new\<rparr>"

definition set_graph :: "'m ecode_builder \<Rightarrow> address il_graph \<Rightarrow> 'm ecode_builder" where
  "set_graph b graph = b\<lparr>eb_graph := graph\<rparr>"

definition set_source_spans :: "'m ecode_builder \<Rightarrow> address source_span list \<Rightarrow> 'm ecode_builder" where
  "set_source_spans b spans = b\<lparr>eb_source_spans := spans\<rparr>"

definition set_parent_spans :: "'m ecode_builder \<Rightarrow> parent_span list \<Rightarrow> 'm ecode_builder" where
  "set_parent_spans b spans = b\<lparr>eb_parent_spans := spans\<rparr>"

definition push_block_arg_value :: "'m ecode_builder \<Rightarrow> il_block_id \<Rightarrow> u32 \<Rightarrow> 'm ecode_builder \<times> il_value_id il_result" where
  "push_block_arg_value b block w =
     (case try_from_index (length (eb_block_args b)) of
        Inl e \<Rightarrow> (b, Inl e)
      | Inr arg \<Rightarrow>
          (case try_from_index (length (eb_values b)) of
             Inl e \<Rightarrow> (b, Inl e)
           | Inr v \<Rightarrow>
               (b\<lparr>eb_values := eb_values b @ [\<lparr>ev_width = w, ev_definition = BlockArgDef arg\<rparr>],
                  eb_value_domains := eb_value_domains b @ [None],
                  eb_block_args := eb_block_args b @ [\<lparr>eb_block = block, eb_value = v, eb_width = w\<rparr>]\<rparr>, Inr v)))"

definition push_op :: "'m ecode_builder \<Rightarrow> ecode_op \<Rightarrow> 'm ecode_builder \<times> il_op_id il_result" where
  "push_op b operation =
     (case try_from_index (length (eb_operations b)) of
        Inl e \<Rightarrow> (b, Inl e)
      | Inr op_id \<Rightarrow> (b\<lparr>eb_operations := eb_operations b @ [operation]\<rparr>, Inr op_id))"

definition push_value_operands :: "'m ecode_builder \<Rightarrow> il_value_id list \<Rightarrow> 'm ecode_builder \<times> il_index_range il_result" where
  "push_value_operands b operands =
     (let (pool, result) = pool_append (eb_value_operands b) operands in (b\<lparr>eb_value_operands := pool\<rparr>, result))"

definition push_edge_args :: "'m ecode_builder \<Rightarrow> il_value_id list \<Rightarrow> 'm ecode_builder \<times> il_index_range il_result" where
  "push_edge_args b operands =
     (let (pool, result) = pool_append (eb_edge_arg_values b) operands; b = b\<lparr>eb_edge_arg_values := pool\<rparr> in
      case result of
        Inl e \<Rightarrow> (b, Inl e)
      | Inr r \<Rightarrow> (b\<lparr>eb_edge_args := eb_edge_args b @ [r]\<rparr>, Inr r))"

definition intern_memory_domain :: "'m ecode_builder \<Rightarrow> address_space_id \<Rightarrow> 'm ecode_builder" where
  "intern_memory_domain b space =
     (if list_ex (\<lambda>domain. domain = space) (eb_memory_domains b) then b
      else b\<lparr>eb_memory_domains := eb_memory_domains b @ [space]\<rparr>)"

definition build_unchecked :: "'m ecode_builder \<Rightarrow> 'm ecode_ir" where
  "build_unchecked b =
     \<lparr>ec_metadata = eb_metadata b, ec_graph = eb_graph b, ec_source_spans = eb_source_spans b,
      ec_parent_spans = eb_parent_spans b, ec_values = eb_values b, ec_value_domains = eb_value_domains b,
      ec_block_args = eb_block_args b,
      ec_edge_args =
        (if eb_edge_args b = [] \<and> g_successors (eb_graph b) \<noteq> []
         then replicate (length (g_successors (eb_graph b))) range_empty else eb_edge_args b),
      ec_edge_arg_values = pool_values (eb_edge_arg_values b), ec_operations = eb_operations b,
      ec_value_operands = pool_values (eb_value_operands b), ec_memory_domains = eb_memory_domains b,
      ec_constant_storage = eb_constant_storage b\<rparr>"

text \<open>\<open>None\<close> only if the verifier does not end.\<close>

definition ecode_build :: "'m ecode_builder \<Rightarrow> (il_fail + 'm ecode_ir) option" where
  "ecode_build b =
     (let ir = build_unchecked b in
      case ecode_verify ir of
        None \<Rightarrow> None
      | Some (Inl (Panic p)) \<Rightarrow> Some (Inl (Panic p))
      | Some (Inl (Error _)) \<Rightarrow> Some (Inl (Error InvalidArtefact))
      | Some (Inr _) \<Rightarrow> Some (Inr ir))"

definition set_value_domain :: "'m ecode_builder \<Rightarrow> il_value_id \<Rightarrow> ecode_domain \<Rightarrow> 'm ecode_builder \<times> unit il_result" where
  "set_value_domain b v domain =
     (case lookup_at (eb_value_domains b) (id_index v) of
        None \<Rightarrow> (b, Inl (RangeOutOfBounds (id_index v) (length (eb_value_domains b))))
      | Some (Some _) \<Rightarrow> (b, Inl InvalidArtefact)
      | Some None \<Rightarrow>
          (let b = b\<lparr>eb_value_domains := (eb_value_domains b)[id_index v := Some domain]\<rparr> in
           (case domain of MemoryDomain space \<Rightarrow> intern_memory_domain b space | _ \<Rightarrow> b, Inr ())))"

definition intern_constant :: "malachite \<Rightarrow> 'm ecode_builder \<Rightarrow> bitvec \<Rightarrow> ('m ecode_builder \<times> u64) outcome" where
  "intern_constant M b v =
     map_ok (\<lambda>(immediate, storage, i). (b\<lparr>eb_constant_storage := storage, eb_constants := i\<rparr>, immediate))
       (intern M (eb_constants b) (eb_constant_storage b) v)"

definition op_of_spec :: "ecode_op_spec \<Rightarrow> il_index_range \<Rightarrow> il_index_range \<Rightarrow> ecode_op" where
  "op_of_spec spec results operands =
     (let op = (ecode_op_new (spec_opcode spec) results operands (spec_width spec))\<lparr>op_immediate := spec_immediate spec\<rparr>;
          op = (case spec_address spec of None \<Rightarrow> op | Some a \<Rightarrow> op\<lparr>op_address := Some a\<rparr>)
      in case spec_address_space spec of None \<Rightarrow> op | Some s \<Rightarrow> op\<lparr>op_address_space := Some s\<rparr>)"

definition emit :: "'m ecode_builder \<Rightarrow> ecode_op_spec \<Rightarrow> il_value_id list \<Rightarrow> nat \<Rightarrow>
    'm ecode_builder \<times> (il_op_id \<times> il_index_range) il_result" where
  "emit b spec operands result_count =
     (case try_from_index (length (eb_operations b)) of
        Inl e \<Rightarrow> (b, Inl e)
      | Inr operation \<Rightarrow>
          (let result_start = length (eb_values b);
               b = b\<lparr>eb_values := eb_values b @
                       replicate result_count \<lparr>ev_width = spec_width spec, ev_definition = OpDef operation\<rparr>,
                     eb_value_domains := eb_value_domains b @ replicate result_count None\<rparr>
           in case range_new result_start (length (eb_values b)) of
                Inl e \<Rightarrow> (b, Inl e)
              | Inr results \<Rightarrow>
                  (let (b, pushed) = push_value_operands b operands in
                   case pushed of
                     Inl e \<Rightarrow> (b, Inl e)
                   | Inr operands \<Rightarrow>
                       (let b = (case spec_address_space spec of
                                   None \<Rightarrow> b
                                 | Some space \<Rightarrow>
                                     if requires_memory_domain (spec_opcode spec) then intern_memory_domain b space else b);
                            (b, pushed) = push_op b (op_of_spec spec results operands)
                        in case pushed of Inl e \<Rightarrow> (b, Inl e) | Inr _ \<Rightarrow> (b, Inr (operation, results))))))"

definition emit_block_arg :: "'m ecode_builder \<Rightarrow> il_block_id \<Rightarrow> u32 \<Rightarrow> 'm ecode_builder \<times> il_value_id il_result" where
  "emit_block_arg b block w = push_block_arg_value b block w"

definition emit_edge_args :: "'m ecode_builder \<Rightarrow> il_value_id list \<Rightarrow> 'm ecode_builder \<times> il_index_range il_result" where
  "emit_edge_args b args = push_edge_args b args"

section \<open>Interned constants read back\<close>

definition interner_ok :: "u8 list \<Rightarrow> interner \<Rightarrow> bool" where
  "interner_ok storage i \<longleftrightarrow>
     (\<forall>bytes offset. in_offsets i bytes = Some offset \<longrightarrow>
        unat offset + length bytes \<le> length storage \<and>
        sub_slice (unat offset) (unat offset + length bytes) storage = bytes)"

lemma sub_slice_append: "e \<le> length xs \<Longrightarrow> sub_slice s e (xs @ ys) = sub_slice s e xs"
  by (cases "s \<le> e") (auto simp: sub_slice_def)

lemma constant_bytes_append: "constant_bytes op storage = Some bytes \<Longrightarrow> constant_bytes op (storage @ extra) = Some bytes"
  by (auto simp: constant_bytes_def sub_slice_append bind_eq_Some_conv split: if_splits)

lemma ecode_constant_append:
  "ecode_constant M op storage = Inr (Some v) \<Longrightarrow> ecode_constant M op (storage @ extra) = Inr (Some v)"
  by (auto simp: ecode_constant_def constant_bytes_append split: if_splits option.splits)

lemma interner_ok_new: "interner_ok storage interner_new"
  by (simp add: interner_ok_def interner_new_def)

lemma interner_ok_index:
  assumes "interner_ok storage i" "unat offset + length bytes \<le> length storage"
    "sub_slice (unat offset) (unat offset + length bytes) storage = bytes"
  shows "interner_ok storage (index_existing i offset bytes)"
  using assms by (auto simp: interner_ok_def index_existing_def)

lemma constant_bytes_slice:
  "constant_bytes op storage = Some bytes \<Longrightarrow>
     unat (op_immediate op) + length bytes \<le> length storage \<and>
     sub_slice (unat (op_immediate op)) (unat (op_immediate op) + length bytes) storage = bytes"
  by (auto simp: constant_bytes_def bind_eq_Some_conv usize_checked_add_def sub_slice_def split: if_splits)

lemma index_constants_ok: "interner_ok storage i \<Longrightarrow> interner_ok storage (index_constants storage i ops)"
proof (induction storage i ops rule: index_constants.induct)
  case (2 storage i op ops)
  then show ?case
    by (cases "constant_bytes op storage") (auto dest: constant_bytes_slice intro: interner_ok_index)
qed simp

lemma intern_small:
  assumes M: "malachite_ok M" and v: "wf_bv v" and small: "bits v \<le> 64"
  shows "\<exists>imm. intern M i storage v = Inr (imm, storage, i) \<and> unat imm = uval v"
proof -
  have n: "nbits v \<le> 64" using small by (simp add: word_le_nat_alt)
  let ?k = "width_bytes (bits v)"
  have k: "?k = bytes_bv v" "?k \<le> 8" using n by (simp_all add: width_bytes_def bytes_bv_def div_ceil_def)
  have "uval v mod 256 ^ ?k = uval v" using uval_bytes [OF v] by (simp add: k(1))
  then have "le_value (le_digits ?k (uval v) @ replicate (8 - ?k) 0) = uval v"
    by (simp add: le_value_append le_value_le_digits)
  moreover have "uval v < 2 ^ 64"
    using wf_uval_less [OF v] power_increasing [OF n, of "2 :: nat"] by simp
  ultimately have "unat (u64_from_le_bytes (le_digits ?k (uval v) @ replicate (8 - ?k) 0)) = uval v"
    by (simp add: u64_from_le_bytes_def unat_word_of_nat)
  moreover have "to_le_bytes M v ?k = Inr (le_digits ?k (uval v))" using to_le_bytes_eq [OF M v, of ?k] k(1) by simp
  ultimately show ?thesis using small by (auto simp: intern_def)
qed
lemma from_le_bytes_cast:
  assumes M: "malachite_ok M" and v: "wf_bv v" and fits: "8 * bytes_bv v < 2 ^ 31" and bytes: "le_value bs = uval v"
    and len: "length bs = bytes_bv v"
  shows "and_then (from_le_bytes M bs) (\<lambda>b. map_ok Some (cast M b (bits v))) = Inr (Some (unsigned_bv v))"
proof -
  let ?n = "word_of_nat (bytes_bv v) * 8 :: u32" and ?k = "bytes_bv v"
  have n: "unat ?n = 8 * ?k" using fits by (simp add: unat_word_ariths unat_word_of_nat)
  have mul: "mul_word (word_of_nat ?k) 8 = Inr ?n" using fits by (simp add: mul_word_def unat_word_of_nat)
  have pos: "0 < ?k" using wf_pos [OF v] by (simp add: bytes_bv_def div_ceil_def nbits_width)
  then have valid: "valid_bits ?n" using fits n by (simp add: valid_bits_iff)
  then have us: "\<not> is_signed (mk_bv (meta_of False ?n) u)" for u by (simp add: is_signed_iff unat_meta_of)
  have "?k = div_ceil (unat ?n) 8" by (simp add: n div_ceil_def)
  then have "from_le_bytes M bs = Inr (mk_bv (meta_of False ?n) (uval v))"
    using valid mul by (simp add: from_le_bytes_def from_le_bytes_with_eq [OF M] len bytes)
  moreover have "uval v mod 2 ^ (8 * ?k) = uval v" using uval_bytes [OF v] by (simp add: power_mult)
  then have "cast M (mk_bv (meta_of False ?n) (uval v)) (bits v) = Inr (mk_int (meta_of False (bits v)) (int (uval v)))"
    using valid valid_bits_of_wf [OF v] n pos us by (simp add: cast_eq [OF M] ival_def valid_bits_iff)
  ultimately show ?thesis by (simp add: mk_int_of_nat unsigned_collapse [OF v])
qed

lemma interner_okD:
  assumes "interner_ok storage i" "in_offsets i bytes = Some offset"
  shows "unat offset + length bytes \<le> length storage"
    "sub_slice (unat offset) (unat offset + length bytes) storage = bytes"
  using assms by (simp_all add: interner_ok_def)

lemma interner_ok_append:
  assumes "interner_ok storage i" "unat off = length storage"
  shows "interner_ok (storage @ bs) (i\<lparr>in_offsets := (in_offsets i)(bs \<mapsto> off)\<rparr>)"
  unfolding interner_ok_def
proof (intro allI impI)
  fix bytes offset
  assume "in_offsets (i\<lparr>in_offsets := (in_offsets i)(bs \<mapsto> off)\<rparr>) bytes = Some offset"
  then have "in_offsets i bytes = Some offset \<or> bytes = bs \<and> offset = off" by (simp split: if_split_asm)
  then show "unat offset + length bytes \<le> length (storage @ bs) \<and>
      sub_slice (unat offset) (unat offset + length bytes) (storage @ bs) = bytes"
  proof
    assume "in_offsets i bytes = Some offset"
    note interner_okD [OF assms(1) this]
    then show ?thesis using sub_slice_append [of "unat offset + length bytes" storage "unat offset" bs]
      by (simp del: append_eq_conv_conj)
  qed (simp add: assms(2) sub_slice_def)
qed

lemma intern_large:
  assumes M: "malachite_ok M" and v: "wf_bv v" and large: "\<not> bits v \<le> 64" and ok: "interner_ok storage i"
    and room: "length storage + bytes_bv v < 2 ^ 64"
  shows "\<exists>imm extra i'. intern M i storage v = Inr (imm, storage @ extra, i') \<and> interner_ok (storage @ extra) i' \<and>
    unat imm + bytes_bv v \<le> length (storage @ extra) \<and> length extra \<le> bytes_bv v \<and>
    sub_slice (unat imm) (unat imm + bytes_bv v) (storage @ extra) = le_digits (bytes_bv v) (uval v)"
proof -
  let ?bs = "le_digits (bytes_bv v) (uval v)" and ?off = "word_of_nat (length storage) :: u64"
  have w: "width_bytes (bits v) = bytes_bv v" by (simp add: width_bytes_def bytes_bv_def)
  have bs: "to_le_bytes M v (width_bytes (bits v)) = Inr ?bs" by (simp add: to_le_bytes_eq [OF M v] w)
  have off: "unat ?off = length storage" using room by (simp add: unat_word_of_nat)
  show ?thesis
  proof (cases "in_offsets i ?bs")
    case None
    have "interner_ok (storage @ ?bs) (i\<lparr>in_offsets := (in_offsets i)(?bs \<mapsto> ?off)\<rparr>)"
      by (rule interner_ok_append [OF ok off])
    moreover have "sub_slice (unat ?off) (unat ?off + bytes_bv v) (storage @ ?bs) = ?bs" by (simp add: sub_slice_def off)
    moreover have "intern M i storage v = Inr (?off, storage @ ?bs, i\<lparr>in_offsets := (in_offsets i)(?bs \<mapsto> ?off)\<rparr>)"
      using large None bs by (simp add: intern_def Let_def)
    ultimately show ?thesis using off by (intro exI conjI) (assumption | simp)+
  next
    case (Some off)
    then have "intern M i storage v = Inr (off, storage @ [], i)" using large bs by (simp add: intern_def)
    moreover have "unat off + bytes_bv v \<le> length (storage @ [])"
      "sub_slice (unat off) (unat off + bytes_bv v) (storage @ []) = ?bs"
      using interner_okD [OF ok Some] by simp_all
    moreover have "interner_ok (storage @ []) i" using ok by simp
    ultimately show ?thesis by (intro exI conjI) (assumption | simp)+
  qed
qed

lemma intern_reads_back:
  assumes M: "malachite_ok M" and v: "wf_bv v" and fits: "8 * bytes_bv v < 2 ^ 31"
    and ok: "interner_ok storage i" and room: "length storage + bytes_bv v < 2 ^ 64"
  shows "\<exists>imm extra i'. intern M i storage v = Inr (imm, storage @ extra, i') \<and> interner_ok (storage @ extra) i' \<and>
    length extra \<le> bytes_bv v \<and>
    (\<forall>op. op_opcode op = EConstant \<and> op_width op = bits v \<and> op_immediate op = imm \<longrightarrow>
       ecode_constant M op (storage @ extra) = Inr (Some (unsigned_bv v))) \<and>
    (\<forall>op c. ecode_constant M op storage = Inr (Some c) \<longrightarrow> ecode_constant M op (storage @ extra) = Inr (Some c))"
proof (cases "bits v \<le> 64")
  case True
  then obtain imm where "intern M i storage v = Inr (imm, storage @ [], i)" and imm: "unat imm = uval v"
    using intern_small [OF M v] by auto
  moreover have "ecode_constant M op (storage @ []) = Inr (Some (unsigned_bv v))"
    if "op_opcode op = EConstant \<and> op_width op = bits v \<and> op_immediate op = imm" for op
    using that True imm valid_bits_of_wf [OF v] by (simp add: ecode_constant_def from_u64_eq [OF M] unsigned_collapse [OF v])
  moreover have "interner_ok (storage @ []) i" using ok by simp
  ultimately show ?thesis by (intro exI conjI) (assumption | simp)+
next
  case False
  then obtain imm extra i' where int: "intern M i storage v = Inr (imm, storage @ extra, i')"
    "interner_ok (storage @ extra) i'" "length extra \<le> bytes_bv v"
    and at: "unat imm + bytes_bv v \<le> length (storage @ extra)"
    "sub_slice (unat imm) (unat imm + bytes_bv v) (storage @ extra) = le_digits (bytes_bv v) (uval v)"
    using intern_large [OF M v _ ok room] by blast
  have "unat imm + bytes_bv v < 2 ^ 64" using at(1) int(3) room by simp
  moreover have "le_value (le_digits (bytes_bv v) (uval v)) = uval v"
    using uval_bytes [OF v] by (simp add: le_value_le_digits)
  note from_le_bytes_cast [OF M v fits this]
  ultimately have "ecode_constant M op (storage @ extra) = Inr (Some (unsigned_bv v))"
    if "op_opcode op = EConstant \<and> op_width op = bits v \<and> op_immediate op = imm" for op
    using that at False
    by (simp add: ecode_constant_def constant_bytes_def width_bytes_def usize_checked_add_def flip: bytes_bv_def)
  then show ?thesis using int ecode_constant_append [of M _ storage _ extra] by blast
qed

text \<open>
  C6. Interning a constant returns, keeps the table of interned byte strings consistent with the
  storage, and only extends the storage. A constant operation of the width of the value with the
  returned immediate reads the value back as an unsigned one, and operations that named a constant
  before name the same one after. The storage stays below the size of memory, and the last width
  whose bytes round up past the widest bit vector is left out.
\<close>

theorem intern_roundtrip:
  assumes M: "malachite_ok M" and v: "wf_bv v" and fits: "8 * bytes_bv v < 2 ^ 31"
    and ok: "interner_ok storage i" and room: "length storage + bytes_bv v < 2 ^ 64"
  shows "\<exists>imm extra i'. intern M i storage v = Inr (imm, storage @ extra, i') \<and> interner_ok (storage @ extra) i' \<and>
    length extra \<le> bytes_bv v \<and>
    (\<forall>op. op_opcode op = EConstant \<and> op_width op = bits v \<and> op_immediate op = imm \<longrightarrow>
       ecode_constant M op (storage @ extra) = Inr (Some (unsigned_bv v))) \<and>
    (\<forall>op c. ecode_constant M op storage = Inr (Some c) \<longrightarrow> ecode_constant M op (storage @ extra) = Inr (Some c))"
  using assms by (rule intern_reads_back)

theorem intern_roundtrip_witness:
  "\<exists>imm extra i'. intern malachite_ref interner_new [] wide_7 = Inr (imm, [] @ extra, i') \<and> interner_ok ([] @ extra) i' \<and>
    length extra \<le> bytes_bv wide_7 \<and>
    (\<forall>op. op_opcode op = EConstant \<and> op_width op = bits wide_7 \<and> op_immediate op = imm \<longrightarrow>
       ecode_constant malachite_ref op ([] @ extra) = Inr (Some (unsigned_bv wide_7))) \<and>
    (\<forall>op c. ecode_constant malachite_ref op [] = Inr (Some c) \<longrightarrow> ecode_constant malachite_ref op ([] @ extra) = Inr (Some c))"
proof -
  have "nbits wide_7 = 72" by simp
  then have "bytes_bv wide_7 = 9" by (simp add: bytes_bv_def div_ceil_def)
  then show ?thesis by (intro intern_roundtrip) (simp_all add: interner_ok_new)
qed
section \<open>What the emitter keeps\<close>

text \<open>
  The tables of values, operations and block arguments: every operation defines the values of its
  result range with its width, every argument its value, and every value is defined by the operation
  or argument it names.
\<close>

definition op_placed :: "ecode_value list \<Rightarrow> nat \<Rightarrow> ecode_op \<Rightarrow> bool" where
  "op_placed vs i op \<longleftrightarrow>
     start_of (op_results op) \<le> end_of (op_results op) \<and> end_of (op_results op) \<le> length vs \<and>
     (\<forall>k. contains_index (op_results op) k \<longrightarrow> vs ! k = \<lparr>ev_width = op_width op, ev_definition = OpDef (node_id i)\<rparr>)"

definition arg_placed :: "ecode_value list \<Rightarrow> nat \<Rightarrow> ecode_block_arg \<Rightarrow> bool" where
  "arg_placed vs j a \<longleftrightarrow>
     id_index (eb_value a) < length vs \<and>
     vs ! id_index (eb_value a) = \<lparr>ev_width = eb_width a, ev_definition = BlockArgDef (node_id j)\<rparr>"

definition value_defined :: "ecode_op list \<Rightarrow> ecode_block_arg list \<Rightarrow> nat \<Rightarrow> il_ssa_def \<Rightarrow> bool" where
  "value_defined ops as k d \<longleftrightarrow>
     (case d of
        OpDef w \<Rightarrow> (\<exists>i < length ops. w = node_id i \<and> contains_index (op_results (ops ! i)) k)
      | BlockArgDef w \<Rightarrow> (\<exists>j < length as. w = node_id j \<and> eb_value (as ! j) = node_id k))"

definition tables_ok :: "ecode_value list \<Rightarrow> ecode_op list \<Rightarrow> ecode_block_arg list \<Rightarrow> bool" where
  "tables_ok vs ops as \<longleftrightarrow>
     length vs < 2 ^ 32 \<and> length ops < 2 ^ 32 \<and> length as < 2 ^ 32 \<and>
     (\<forall>i < length ops. op_placed vs i (ops ! i)) \<and> (\<forall>j < length as. arg_placed vs j (as ! j)) \<and>
     (\<forall>k < length vs. value_defined ops as k (ev_definition (vs ! k)))"

lemma op_placed_append: "op_placed vs i op \<Longrightarrow> op_placed (vs @ ws) i op"
  by (auto simp: op_placed_def contains_index_def nth_append)

lemma arg_placed_append: "arg_placed vs i a \<Longrightarrow> arg_placed (vs @ ws) i a"
  by (auto simp: arg_placed_def nth_append)

lemma value_defined_append: "value_defined ops as k d \<Longrightarrow> value_defined (ops @ ops') (as @ as') k d"
  by (auto simp: value_defined_def nth_append split: il_ssa_def.splits)

lemma tables_ok_op:
  assumes ok: "tables_ok vs ops as" and r: "start_of (op_results op) = length vs" "end_of (op_results op) = length vs + n"
    and room: "length ops < 2 ^ 32 - 1" "length vs + n < 2 ^ 32"
  shows "tables_ok (vs @ replicate n \<lparr>ev_width = op_width op, ev_definition = OpDef (node_id (length ops))\<rparr>) (ops @ [op]) as"
proof -
  let ?vs = "vs @ replicate n \<lparr>ev_width = op_width op, ev_definition = OpDef (node_id (length ops))\<rparr>"
  have "op_placed ?vs i ((ops @ [op]) ! i)" if "i < Suc (length ops)" for i
  proof (cases "i = length ops")
    case True
    then show ?thesis by (auto simp: op_placed_def r contains_index_def nth_append)
  next
    case False
    then show ?thesis using that ok by (simp add: tables_ok_def nth_append op_placed_append)
  qed
  moreover have "arg_placed ?vs j (as ! j)" if "j < length as" for j
    using that ok by (simp add: tables_ok_def arg_placed_append)
  moreover have "value_defined (ops @ [op]) as k (ev_definition (?vs ! k))" if "k < length ?vs" for k
  proof (cases "k < length vs")
    case True
    then show ?thesis using ok value_defined_append [of ops as k _ "[op]" "[]"] by (simp add: tables_ok_def nth_append)
  next
    case False
    then show ?thesis using that r
      by (auto simp: value_defined_def nth_append contains_index_def intro!: exI [of _ "length ops"])
  qed
  ultimately show ?thesis using ok room by (simp add: tables_ok_def)
qed

lemma tables_ok_arg:
  assumes ok: "tables_ok vs ops as" and a: "eb_value a = node_id (length vs)"
    and room: "length as < 2 ^ 32 - 1" "length vs < 2 ^ 32 - 1"
  shows "tables_ok (vs @ [\<lparr>ev_width = eb_width a, ev_definition = BlockArgDef (node_id (length as))\<rparr>]) ops (as @ [a])"
proof -
  let ?vs = "vs @ [\<lparr>ev_width = eb_width a, ev_definition = BlockArgDef (node_id (length as))\<rparr>]"
  have "op_placed ?vs i (ops ! i)" if "i < length ops" for i
    using that ok by (simp add: tables_ok_def op_placed_append)
  moreover have "arg_placed ?vs j ((as @ [a]) ! j)" if "j < Suc (length as)" for j
  proof (cases "j = length as")
    case True
    then show ?thesis using index_node_id [OF room(2)] by (simp add: arg_placed_def a)
  next
    case False
    then show ?thesis using that ok by (simp add: tables_ok_def nth_append arg_placed_append)
  qed
  moreover have "value_defined ops (as @ [a]) k (ev_definition (?vs ! k))" if "k < length ?vs" for k
  proof (cases "k < length vs")
    case True
    then show ?thesis using ok value_defined_append [of ops as k _ "[]" "[a]"] by (simp add: tables_ok_def nth_append)
  next
    case False
    then show ?thesis using that a
      by (auto simp: value_defined_def nth_append less_Suc_eq intro!: exI [of _ "length as"])
  qed
  ultimately show ?thesis using ok room by (simp add: tables_ok_def)
qed

definition builder_ok :: "'m ecode_builder \<Rightarrow> bool" where
  "builder_ok b \<longleftrightarrow>
     tables_ok (eb_values b) (eb_operations b) (eb_block_args b) \<and>
     length (eb_value_domains b) = length (eb_values b) \<and>
     (\<forall>op \<in> set (eb_operations b).
        verify_bounds (op_operand_range op) (length (pool_values (eb_value_operands b))) = Inr () \<and>
        (requires_memory_domain (op_opcode op) \<longrightarrow> set_option (op_address_space op) \<subseteq> set (eb_memory_domains b))) \<and>
     (\<forall>r \<in> set (eb_edge_args b). verify_bounds r (length (pool_values (eb_edge_arg_values b))) = Inr ()) \<and>
     (\<forall>space. Some (MemoryDomain space) \<in> set (eb_value_domains b) \<longrightarrow> space \<in> set (eb_memory_domains b)) \<and>
     distinct (eb_memory_domains b) \<and> interner_ok (eb_constant_storage b) (eb_constants b)"
lemma builder_ok_new: "builder_ok (ecode_builder_new metadata g)"
  by (simp add: builder_ok_def ecode_builder_new_def tables_ok_def interner_ok_new)

lemma builder_ok_sets [simp]:
  "builder_ok (set_graph b g) = builder_ok b" "builder_ok (set_source_spans b ss) = builder_ok b"
  "builder_ok (set_parent_spans b ps) = builder_ok b"
  by (simp_all add: builder_ok_def set_graph_def set_source_spans_def set_parent_spans_def)

lemma intern_memory_domain_sel [simp]:
  "set (eb_memory_domains (intern_memory_domain b s)) = insert s (set (eb_memory_domains b))"
  "distinct (eb_memory_domains (intern_memory_domain b s)) = distinct (eb_memory_domains b)"
  "eb_values (intern_memory_domain b s) = eb_values b" "eb_value_domains (intern_memory_domain b s) = eb_value_domains b"
  "eb_operations (intern_memory_domain b s) = eb_operations b" "eb_block_args (intern_memory_domain b s) = eb_block_args b"
  "eb_value_operands (intern_memory_domain b s) = eb_value_operands b" "eb_edge_args (intern_memory_domain b s) = eb_edge_args b"
  "eb_edge_arg_values (intern_memory_domain b s) = eb_edge_arg_values b"
  "eb_constant_storage (intern_memory_domain b s) = eb_constant_storage b" "eb_constants (intern_memory_domain b s) = eb_constants b"
  by (auto simp: intern_memory_domain_def list_ex_iff)

lemma builder_ok_memory: "builder_ok b \<Longrightarrow> builder_ok (intern_memory_domain b s)"
  by (auto simp: builder_ok_def)

lemma emit_block_arg_ok:
  assumes ok: "builder_ok b" and step: "emit_block_arg b block w = (b', Inr v)"
  shows "builder_ok b'"
proof -
  have room: "length (eb_block_args b) < 2 ^ 32 - 1" "length (eb_values b) < 2 ^ 32 - 1"
    and b': "b' = b\<lparr>eb_values := eb_values b @ [\<lparr>ev_width = w, ev_definition = BlockArgDef (node_id (length (eb_block_args b)))\<rparr>],
      eb_value_domains := eb_value_domains b @ [None],
      eb_block_args := eb_block_args b @ [\<lparr>eb_block = block, eb_value = node_id (length (eb_values b)), eb_width = w\<rparr>]\<rparr>"
    using step by (auto simp: emit_block_arg_def push_block_arg_value_def try_from_index_eq node_id_def split: if_splits)
  have "tables_ok (eb_values b') (eb_operations b') (eb_block_args b')"
    using tables_ok_arg [of "eb_values b" "eb_operations b" "eb_block_args b"
        "\<lparr>eb_block = block, eb_value = node_id (length (eb_values b)), eb_width = w\<rparr>"] ok room
    by (simp add: b' builder_ok_def)
  with ok show ?thesis by (auto simp: builder_ok_def b')
qed

lemma verify_bounds_mono: "verify_bounds r n = Inr () \<Longrightarrow> n \<le> m \<Longrightarrow> verify_bounds r m = Inr ()"
  by (auto simp: verify_bounds_ok)

lemma emit_edge_args_ok:
  assumes ok: "builder_ok b" and step: "emit_edge_args b args = (b', Inr r)"
  shows "builder_ok b'"
proof -
  have b': "b' = b\<lparr>eb_edge_arg_values := \<lparr>pool_values = pool_values (eb_edge_arg_values b) @ args\<rparr>, eb_edge_args := eb_edge_args b @ [r]\<rparr>"
    and r: "range_new (length (pool_values (eb_edge_arg_values b))) (length (pool_values (eb_edge_arg_values b) @ args)) = Inr r"
    using step by (auto simp: emit_edge_args_def push_edge_args_def pool_append_def Let_def split: sum.splits)
  from range_new_inv [OF r] ok show ?thesis by (auto simp: builder_ok_def b' verify_bounds_ok)
qed

lemma set_value_domain_ok:
  assumes ok: "builder_ok b" and step: "set_value_domain b v d = (b', Inr ())"
  shows "builder_ok b'"
proof -
  let ?b = "b\<lparr>eb_value_domains := (eb_value_domains b)[id_index v := Some d]\<rparr>"
  have b': "b' = (case d of MemoryDomain space \<Rightarrow> intern_memory_domain ?b space | _ \<Rightarrow> ?b)"
    using step by (auto simp: set_value_domain_def Let_def split: option.splits)
  have "s \<in> set (eb_memory_domains b) \<or> d = MemoryDomain s"
    if "Some (MemoryDomain s) \<in> set ((eb_value_domains b)[id_index v := Some d])" for s
    using that ok set_update_subset_insert [of "eb_value_domains b" "id_index v" "Some d"] by (auto simp: builder_ok_def)
  then show ?thesis using ok by (cases d) (auto simp: builder_ok_def b')
qed

lemma intern_constant_ok:
  assumes M: "malachite_ok M" and v: "wf_bv v" and room: "length (eb_constant_storage b) + bytes_bv v < 2 ^ 64"
    and ok: "builder_ok b" and step: "intern_constant M b v = Inr (b', imm)"
  shows "builder_ok b'"
proof -
  obtain storage i where int: "intern M (eb_constants b) (eb_constant_storage b) v = Inr (imm, storage, i)"
    and b': "b' = b\<lparr>eb_constant_storage := storage, eb_constants := i\<rparr>"
    using step by (auto simp: intern_constant_def map_ok_def outcome_simps)
  have "interner_ok storage i"
    using int ok intern_small [OF M v, of "eb_constants b" "eb_constant_storage b"]
      intern_large [OF M v, of "eb_constant_storage b" "eb_constants b"] room
    by (cases "bits v \<le> 64") (auto simp: builder_ok_def)
  with ok show ?thesis by (simp add: builder_ok_def b')
qed


lemma op_of_spec_sel [simp]:
  "op_results (op_of_spec spec rs os) = rs" "op_operand_range (op_of_spec spec rs os) = os"
  "op_width (op_of_spec spec rs os) = spec_width spec" "op_opcode (op_of_spec spec rs os) = spec_opcode spec"
  "op_address_space (op_of_spec spec rs os) = spec_address_space spec"
  by (simp_all add: op_of_spec_def ecode_op_new_def Let_def split: option.splits)

definition note_memory :: "ecode_op_spec \<Rightarrow> 'm ecode_builder \<Rightarrow> 'm ecode_builder" where
  "note_memory spec b =
     (case spec_address_space spec of
        None \<Rightarrow> b
      | Some space \<Rightarrow> if requires_memory_domain (spec_opcode spec) then intern_memory_domain b space else b)"

lemma note_memory_sel [simp]:
  "set (eb_memory_domains (note_memory spec b)) = set (eb_memory_domains b) \<union>
     (if requires_memory_domain (spec_opcode spec) then set_option (spec_address_space spec) else {})"
  "distinct (eb_memory_domains (note_memory spec b)) = distinct (eb_memory_domains b)"
  "eb_values (note_memory spec b) = eb_values b" "eb_value_domains (note_memory spec b) = eb_value_domains b"
  "eb_operations (note_memory spec b) = eb_operations b" "eb_block_args (note_memory spec b) = eb_block_args b"
  "eb_value_operands (note_memory spec b) = eb_value_operands b" "eb_edge_args (note_memory spec b) = eb_edge_args b"
  "eb_edge_arg_values (note_memory spec b) = eb_edge_arg_values b"
  "eb_constant_storage (note_memory spec b) = eb_constant_storage b" "eb_constants (note_memory spec b) = eb_constants b"
  by (auto simp: note_memory_def split: option.splits)

lemma emit_cases:
  assumes step: "emit b spec operands n = (b', Inr (operation, results))"
  obtains os where "length (eb_operations b) < 2 ^ 32 - 1"
    "range_new (length (eb_values b)) (length (eb_values b) + n) = Inr results"
    "range_new (length (pool_values (eb_value_operands b))) (length (pool_values (eb_value_operands b)) + length operands) = Inr os"
    "b' = (note_memory spec (b\<lparr>eb_values := eb_values b @
         replicate n \<lparr>ev_width = spec_width spec, ev_definition = OpDef (node_id (length (eb_operations b)))\<rparr>,
       eb_value_domains := eb_value_domains b @ replicate n None,
       eb_value_operands := (eb_value_operands b)\<lparr>pool_values := pool_values (eb_value_operands b) @ operands\<rparr>\<rparr>))
       \<lparr>eb_operations := eb_operations b @ [op_of_spec spec results os]\<rparr>"
proof -
  have room: "length (eb_operations b) < 2 ^ 32 - 1" using step by (auto simp: emit_def try_from_index_eq split: if_splits)
  then have id: "try_from_index (length (eb_operations b)) = Inr (node_id (length (eb_operations b)))"
    by (rule try_from_index_node)
  obtain r where r: "range_new (length (eb_values b)) (length (eb_values b) + n) = Inr r"
    using step id by (cases "range_new (length (eb_values b)) (length (eb_values b) + n)") (simp_all add: emit_def Let_def)
  obtain os where os: "range_new (length (pool_values (eb_value_operands b)))
      (length (pool_values (eb_value_operands b)) + length operands) = Inr os"
    using step id r
    by (cases "range_new (length (pool_values (eb_value_operands b))) (length (pool_values (eb_value_operands b)) + length operands)")
      (simp_all add: emit_def Let_def push_value_operands_def pool_append_def)
  have "emit b spec operands n =
      ((note_memory spec (b\<lparr>eb_values := eb_values b @
         replicate n \<lparr>ev_width = spec_width spec, ev_definition = OpDef (node_id (length (eb_operations b)))\<rparr>,
       eb_value_domains := eb_value_domains b @ replicate n None,
       eb_value_operands := (eb_value_operands b)\<lparr>pool_values := pool_values (eb_value_operands b) @ operands\<rparr>\<rparr>))
       \<lparr>eb_operations := eb_operations b @ [op_of_spec spec r os]\<rparr>, Inr (node_id (length (eb_operations b)), r))"
    using id r os by (simp add: emit_def Let_def push_value_operands_def pool_append_def push_op_def flip: note_memory_def)
  then show thesis using step r that [OF room _ os] by simp
qed

lemma emit_ok:
  assumes ok: "builder_ok b" and step: "emit b spec operands n = (b', Inr (operation, results))"
  shows "builder_ok b'"
proof (rule emit_cases [OF step])
  fix os
  assume room: "length (eb_operations b) < 2 ^ 32 - 1"
    and r: "range_new (length (eb_values b)) (length (eb_values b) + n) = Inr results"
    and os: "range_new (length (pool_values (eb_value_operands b))) (length (pool_values (eb_value_operands b)) + length operands) = Inr os"
    and b': "b' = (note_memory spec (b\<lparr>eb_values := eb_values b @
         replicate n \<lparr>ev_width = spec_width spec, ev_definition = OpDef (node_id (length (eb_operations b)))\<rparr>,
       eb_value_domains := eb_value_domains b @ replicate n None,
       eb_value_operands := (eb_value_operands b)\<lparr>pool_values := pool_values (eb_value_operands b) @ operands\<rparr>\<rparr>))
       \<lparr>eb_operations := eb_operations b @ [op_of_spec spec results os]\<rparr>"
  have "tables_ok (eb_values b') (eb_operations b') (eb_block_args b')"
    using tables_ok_op [of "eb_values b" "eb_operations b" "eb_block_args b" "op_of_spec spec results os" n]
      ok room range_new_inv [OF r] by (simp add: b' builder_ok_def)
  with ok range_new_inv [OF os] show ?thesis by (auto simp: builder_ok_def b' verify_bounds_ok)
qed
text \<open>
  The builders that the emitter's calls reach. A failed call is the caller's last one, since the errors
  are passed on; the constants are well-formed and the storage fits in memory.
\<close>

inductive emitted :: "malachite \<Rightarrow> 'm ecode_builder \<Rightarrow> bool" for M where
  emitted_new: "emitted M (ecode_builder_new metadata g)"
| emitted_graph: "emitted M b \<Longrightarrow> emitted M (set_graph b g)"
| emitted_source_spans: "emitted M b \<Longrightarrow> emitted M (set_source_spans b ss)"
| emitted_parent_spans: "emitted M b \<Longrightarrow> emitted M (set_parent_spans b ps)"
| emitted_memory: "emitted M b \<Longrightarrow> emitted M (intern_memory_domain b space)"
| emitted_domain: "emitted M b \<Longrightarrow> set_value_domain b v d = (b', Inr ()) \<Longrightarrow> emitted M b'"
| emitted_constant: "emitted M b \<Longrightarrow> wf_bv v \<Longrightarrow> length (eb_constant_storage b) + bytes_bv v < 2 ^ 64 \<Longrightarrow>
    intern_constant M b v = Inr (b', imm) \<Longrightarrow> emitted M b'"
| emitted_op: "emitted M b \<Longrightarrow> emit b spec operands n = (b', Inr (operation, results)) \<Longrightarrow> emitted M b'"
| emitted_block_arg: "emitted M b \<Longrightarrow> emit_block_arg b block w = (b', Inr v) \<Longrightarrow> emitted M b'"
| emitted_edge_args: "emitted M b \<Longrightarrow> emit_edge_args b args = (b', Inr r) \<Longrightarrow> emitted M b'"

lemma emitted_builder_ok:
  assumes "malachite_ok M" "emitted M b" shows "builder_ok b"
  using assms(2)
  by induction (auto simp: builder_ok_new intro: builder_ok_memory set_value_domain_ok intern_constant_ok [OF assms(1)] emit_ok
      emit_block_arg_ok emit_edge_args_ok)

lemma build_unchecked_sel [simp]:
  "ec_values (build_unchecked b) = eb_values b" "ec_value_domains (build_unchecked b) = eb_value_domains b"
  "ec_block_args (build_unchecked b) = eb_block_args b" "ec_operations (build_unchecked b) = eb_operations b"
  "ec_memory_domains (build_unchecked b) = eb_memory_domains b" "ec_graph (build_unchecked b) = eb_graph b"
  "ec_value_operands (build_unchecked b) = pool_values (eb_value_operands b)"
  "ec_edge_arg_values (build_unchecked b) = pool_values (eb_edge_arg_values b)"
  by (simp_all add: build_unchecked_def)

lemma built_value:
  assumes ok: "builder_ok b" and k: "k < length (eb_values b)"
  shows "verify_value (build_unchecked b) (node_id k) (eb_values b ! k) = Inr ()"
proof -
  have tables: "tables_ok (eb_values b) (eb_operations b) (eb_block_args b)" using ok by (simp add: builder_ok_def)
  then have def: "value_defined (eb_operations b) (eb_block_args b) k (ev_definition (eb_values b ! k))"
    and small: "k < 2 ^ 32 - 1" "\<And>i. i < length (eb_operations b) \<Longrightarrow> i < 2 ^ 32 - 1"
      "\<And>i. i < length (eb_block_args b) \<Longrightarrow> i < 2 ^ 32 - 1"
    using k by (auto simp: tables_ok_def)
  show ?thesis
  proof (cases "ev_definition (eb_values b ! k)")
    case (OpDef w)
    then show ?thesis using def small by (auto simp: value_defined_def verify_value_def lookup_at_def index_node_id)
  next
    case (BlockArgDef w)
    then obtain j where j: "j < length (eb_block_args b)" "w = node_id j" "eb_value (eb_block_args b ! j) = node_id k"
      using def by (auto simp: value_defined_def)
    moreover from j have "arg_placed (eb_values b) j (eb_block_args b ! j)" using tables by (simp add: tables_ok_def)
    ultimately show ?thesis using BlockArgDef small
      by (auto simp: verify_value_def lookup_at_def index_node_id arg_placed_def)
  qed
qed

lemma edge_ranges_loop_iff: "edge_ranges_loop n rs = Inr () \<longleftrightarrow> (\<forall>r \<in> set rs. verify_bounds r n = Inr ())"
  by (induction rs) (auto simp: outcome_simps)

lemma built_memory_domains:
  assumes "builder_ok b" shows "verify_memory_domains (ecode_ssa (build_unchecked b)) = Inr ()"
  using assms
  by (auto simp: verify_memory_domains_def memory_domains_loop_iff ecode_ssa_def lookup_at_def builder_ok_def distinct_conv_nth)

lemma find_eq_self: "x \<in> set xs \<Longrightarrow> List.find (\<lambda>y. y = x) xs = Some x"
  by (induction xs) auto

lemma built_op:
  assumes ok: "builder_ok b" and i: "i < length (eb_operations b)" and ir: "ir = build_unchecked b"
  shows "let op = eb_operations b ! i in
       try_from_index i = Inr (node_id i) \<and>
       verify_bounds (op_results op) (length (ec_values ir)) = Inr () \<and>
       verify_bounds (op_operand_range op) (length (ec_value_operands ir)) = Inr () \<and>
       verify_results_loop ir (node_id i) op [start_of (op_results op)..<end_of (op_results op)] = Inr () \<and>
       (requires_memory_domain (op_opcode op) \<longrightarrow>
          (\<forall>space. op_address_space op = Some space \<longrightarrow> memory_domain ir space = Some space))"
proof -
  let ?op = "eb_operations b ! i"
  have "op_placed (eb_values b) i ?op" "i < 2 ^ 32 - 1" using ok i by (auto simp: builder_ok_def tables_ok_def)
  moreover have "verify_bounds (op_operand_range ?op) (length (ec_value_operands ir)) = Inr ()"
    "requires_memory_domain (op_opcode ?op) \<longrightarrow> set_option (op_address_space ?op) \<subseteq> set (eb_memory_domains b)"
    using ok nth_mem [OF i] by (auto simp: builder_ok_def ir)
  ultimately show ?thesis
    using try_from_index_node [of i]
    by (auto simp: op_placed_def verify_results_loop_iff verify_bounds_ok contains_index_def ir Let_def memory_domain_def
        find_eq_self)
qed

text \<open>
  C5. Whatever calls of the emitter succeed, in any order, the container they give passes the checks of the
  verifier that concern what the builder itself lays out: the definitions of the values, the results of each
  operation and its operand range, the arguments of blocks that exist, the ranges of edge arguments, the count of
  domains and the table of memory domains, in which every address space that a load, store or domain names is found.
\<close>

theorem emitted_tables_verify:
  assumes "malachite_ok M" "emitted M b" and ir: "ir = build_unchecked b"
  shows "verify_values_loop ir 0 (ec_values ir) = Inr () \<and>
    (\<forall>i < length (ec_operations ir). let op = ec_operations ir ! i in
       try_from_index i = Inr (node_id i) \<and>
       verify_bounds (op_results op) (length (ec_values ir)) = Inr () \<and>
       verify_bounds (op_operand_range op) (length (ec_value_operands ir)) = Inr () \<and>
       verify_results_loop ir (node_id i) op [start_of (op_results op)..<end_of (op_results op)] = Inr () \<and>
       (requires_memory_domain (op_opcode op) \<longrightarrow>
          (\<forall>space. op_address_space op = Some space \<longrightarrow> memory_domain ir space = Some space))) \<and>
    ((\<forall>a \<in> set (ec_block_args ir). id_index (eb_block a) < length (g_blocks (ec_graph ir))) \<longrightarrow>
       verify_block_args_loop ir 0 (ec_block_args ir) = Inr ()) \<and>
    edge_ranges_loop (length (ec_edge_arg_values ir)) (ec_edge_args ir) = Inr () \<and>
    length (ec_value_domains ir) = length (ec_values ir) \<and>
    verify_memory_domains (ecode_ssa ir) = Inr ()"
proof -
  have ok: "builder_ok b" using assms(1,2) by (rule emitted_builder_ok)
  then have tables: "tables_ok (eb_values b) (eb_operations b) (eb_block_args b)" by (simp add: builder_ok_def)
  have "verify_values_loop ir 0 (ec_values ir) = Inr ()"
    using built_value [OF ok] tables by (auto simp: verify_values_loop_iff ir tables_ok_def)
  moreover have "verify_block_args_loop ir 0 (ec_block_args ir) = Inr ()"
    if "\<forall>a \<in> set (ec_block_args ir). id_index (eb_block a) < length (g_blocks (ec_graph ir))"
    using that tables by (auto simp: verify_block_args_loop_iff ir tables_ok_def arg_placed_def)
  moreover have "edge_ranges_loop (length (ec_edge_arg_values ir)) (ec_edge_args ir) = Inr ()"
    using ok by (auto simp: edge_ranges_loop_iff ir builder_ok_def build_unchecked_def verify_bounds_ok range_empty_def start_of_def end_of_def)
  moreover have "let op = ec_operations ir ! i in
       try_from_index i = Inr (node_id i) \<and>
       verify_bounds (op_results op) (length (ec_values ir)) = Inr () \<and>
       verify_bounds (op_operand_range op) (length (ec_value_operands ir)) = Inr () \<and>
       verify_results_loop ir (node_id i) op [start_of (op_results op)..<end_of (op_results op)] = Inr () \<and>
       (requires_memory_domain (op_opcode op) \<longrightarrow>
          (\<forall>space. op_address_space op = Some space \<longrightarrow> memory_domain ir space = Some space))"
    if "i < length (ec_operations ir)" for i
    using that built_op [OF ok _ ir, of i] by (simp add: ir)
  ultimately show ?thesis using ok built_memory_domains [OF ok] by (simp add: builder_ok_def ir)
qed
text \<open>A builder for the two operations of \<open>straight_ecode\<close>.\<close>

definition straight_start :: "unit ecode_builder" where
  "straight_start = ecode_builder_new () (ec_graph straight_ecode)"

definition straight_constant :: "unit ecode_builder" where
  "straight_constant = fst (emit straight_start ((op_spec_new EConstant 8)\<lparr>spec_immediate := 200\<rparr>) [] 1)"

definition straight_write :: "unit ecode_builder" where
  "straight_write = fst (emit straight_constant ((op_spec_new EWriteRegister 8)\<lparr>spec_immediate := 7\<rparr>) [1] 1)"

definition straight_builder :: "unit ecode_builder" where
  "straight_builder = fst (set_value_domain straight_write 2 (RegisterDomain 7))"

lemma straight_constant_eq:
  "emit straight_start ((op_spec_new EConstant 8)\<lparr>spec_immediate := 200\<rparr>) [] 1 =
     (straight_start\<lparr>eb_values := [\<lparr>ev_width = 8, ev_definition = OpDef 1\<rparr>], eb_value_domains := [None],
        eb_operations := [(ecode_op_new EConstant \<lparr>r_start = 0, r_end = 1\<rparr> range_empty 8)\<lparr>op_immediate := 200\<rparr>]\<rparr>,
      Inr (1, \<lparr>r_start = 0, r_end = 1\<rparr>))"
  by (simp add: straight_start_def ecode_builder_new_def emit_def op_spec_new_def try_from_index_eq range_new_ok push_value_operands_def
      pool_append_def push_op_def op_of_spec_def ecode_op_new_def range_empty_def Let_def)

lemma straight_write_eq:
  "emit straight_constant ((op_spec_new EWriteRegister 8)\<lparr>spec_immediate := 7\<rparr>) [1] 1 =
     (straight_constant\<lparr>eb_values := [\<lparr>ev_width = 8, ev_definition = OpDef 1\<rparr>, \<lparr>ev_width = 8, ev_definition = OpDef 2\<rparr>],
        eb_value_domains := [None, None], eb_value_operands := \<lparr>pool_values = [1]\<rparr>,
        eb_operations := eb_operations straight_constant @
          [(ecode_op_new EWriteRegister \<lparr>r_start = 1, r_end = 2\<rparr> \<lparr>r_start = 0, r_end = 1\<rparr> 8)\<lparr>op_immediate := 7\<rparr>]\<rparr>,
      Inr (2, \<lparr>r_start = 1, r_end = 2\<rparr>))"
  unfolding straight_constant_def straight_constant_eq fst_conv
  by (simp add: straight_start_def ecode_builder_new_def emit_def op_spec_new_def try_from_index_eq range_new_ok push_value_operands_def
      pool_append_def push_op_def op_of_spec_def ecode_op_new_def range_empty_def Let_def)

lemma straight_domain_eq:
  "set_value_domain straight_write 2 (RegisterDomain 7) =
     (straight_write\<lparr>eb_value_domains := [None, Some (RegisterDomain 7)]\<rparr>, Inr ())"
  unfolding straight_write_def straight_write_eq fst_conv by (simp add: set_value_domain_def lookup_at_def id_index_def)

lemma straight_emitted: "emitted M straight_builder"
proof -
  have "emitted M straight_start" unfolding straight_start_def by (rule emitted_new)
  then have "emitted M straight_constant"
    using straight_constant_eq unfolding straight_constant_def by (metis emitted_op fst_conv)
  then have "emitted M straight_write"
    using straight_write_eq unfolding straight_write_def by (metis emitted_op fst_conv)
  then show ?thesis using straight_domain_eq unfolding straight_builder_def by (metis emitted_domain fst_conv)
qed

lemma straight_built: "build_unchecked straight_builder = straight_ecode"
  unfolding straight_builder_def straight_domain_eq fst_conv
  unfolding straight_write_def straight_write_eq fst_conv
  unfolding straight_constant_def straight_constant_eq fst_conv
  by (simp add: build_unchecked_def straight_start_def ecode_builder_new_def straight_ecode_def)

theorem emitted_tables_verify_witness:
  "verify_values_loop straight_ecode 0 (ec_values straight_ecode) = Inr () \<and>
   verify_block_args_loop straight_ecode 0 (ec_block_args straight_ecode) = Inr () \<and>
   edge_ranges_loop (length (ec_edge_arg_values straight_ecode)) (ec_edge_args straight_ecode) = Inr () \<and>
   verify_memory_domains (ecode_ssa straight_ecode) = Inr ()"
  using emitted_tables_verify [OF malachite_ref_ok straight_emitted straight_built [symmetric]] by (simp add: straight_sel)

text \<open>Building returns: the container the verifier accepts, or the error for an invalid artefact.\<close>

lemma ecode_build_result:
  assumes "ecode_sized (build_unchecked b)"
  shows "\<exists>r. ecode_build b = Some r \<and>
    (case r of
       Inl e \<Rightarrow> e = Error InvalidArtefact \<and> ecode_verify (build_unchecked b) \<noteq> Some (Inr ())
     | Inr ir \<Rightarrow> ir = build_unchecked b \<and> ecode_verify ir = Some (Inr ()) \<and> ecode_typed ir \<and> ecode_safe ir)"
proof -
  obtain r where r: "ecode_verify (build_unchecked b) = Some r" "\<forall>p. r \<noteq> Inl (Panic p)" "r = Inr () \<longrightarrow> ecode_safe (build_unchecked b)"
    using ecode_verify_ok [OF assms] by blast
  show ?thesis
  proof (cases r)
    case (Inl e)
    then obtain e' where "e = Error e'" using r(2) by (cases e) auto
    then show ?thesis using r Inl by (simp add: ecode_build_def Let_def)
  next
    case (Inr u)
    then have "verify_tables (build_unchecked b) = Inr ()"
      using r(1) by (cases "verify_tables (build_unchecked b)") (auto simp: ecode_verify_def)
    then show ?thesis using r Inr verify_tables_typed [of "build_unchecked b"] by (simp add: ecode_build_def Let_def)
  qed
qed

end
