(* ===== verification/ECodeEmit.thy ===== *)
theory ECodeEmit
  imports ECodeBuild
begin

text \<open>
  What building gives back, from \<open>fugue-core/src/il/ecode/ir/builder.rs\<close>: a container that the
  verifier has accepted, in which everything passed to the emitter is found again through the queries
  of \<open>ir/mod.rs\<close>.
\<close>

section \<open>Calls of the emitter\<close>

text \<open>The successful calls of the builder and its emitter, with their arguments and results.\<close>

datatype emitter_call =
    GraphCall "address il_graph"
  | SourceSpansCall "address source_span list"
  | ParentSpansCall "parent_span list"
  | SpaceCall address_space_id
  | DomainCall il_value_id ecode_domain
  | ConstantCall bitvec u64
  | OpCall ecode_op_spec "il_value_id list" nat il_op_id il_index_range
  | BlockArgCall il_block_id u32 il_value_id
  | EdgeArgsCall "il_value_id list"

inductive emits :: "malachite \<Rightarrow> 'm \<Rightarrow> address il_graph \<Rightarrow> emitter_call list \<Rightarrow> 'm ecode_builder \<Rightarrow> bool" for M metadata g where
  emits_new: "emits M metadata g [] (ecode_builder_new metadata g)"
| emits_graph: "emits M metadata g cs b \<Longrightarrow> emits M metadata g (cs @ [GraphCall g']) (set_graph b g')"
| emits_source_spans: "emits M metadata g cs b \<Longrightarrow> emits M metadata g (cs @ [SourceSpansCall ss]) (set_source_spans b ss)"
| emits_parent_spans: "emits M metadata g cs b \<Longrightarrow> emits M metadata g (cs @ [ParentSpansCall ps]) (set_parent_spans b ps)"
| emits_space: "emits M metadata g cs b \<Longrightarrow> emits M metadata g (cs @ [SpaceCall space]) (intern_memory_domain b space)"
| emits_domain: "emits M metadata g cs b \<Longrightarrow> set_value_domain b v d = (b', Inr ()) \<Longrightarrow>
    emits M metadata g (cs @ [DomainCall v d]) b'"
| emits_constant: "emits M metadata g cs b \<Longrightarrow> wf_bv v \<Longrightarrow> length (eb_constant_storage b) + bytes_bv v < 2 ^ 64 \<Longrightarrow>
    intern_constant M b v = Inr (b', imm) \<Longrightarrow> emits M metadata g (cs @ [ConstantCall v imm]) b'"
| emits_op: "emits M metadata g cs b \<Longrightarrow> emit b spec operands n = (b', Inr (operation, results)) \<Longrightarrow>
    emits M metadata g (cs @ [OpCall spec operands n operation results]) b'"
| emits_block_arg: "emits M metadata g cs b \<Longrightarrow> emit_block_arg b block w = (b', Inr v) \<Longrightarrow>
    emits M metadata g (cs @ [BlockArgCall block w v]) b'"
| emits_edge_args: "emits M metadata g cs b \<Longrightarrow> emit_edge_args b args = (b', Inr r) \<Longrightarrow>
    emits M metadata g (cs @ [EdgeArgsCall args]) b'"

text \<open>What the calls pass, by kind.\<close>

definition graph_of :: "address il_graph \<Rightarrow> emitter_call list \<Rightarrow> address il_graph" where
  "graph_of = foldl (\<lambda>g c. case c of GraphCall g' \<Rightarrow> g' | _ \<Rightarrow> g)"

definition source_spans_of :: "emitter_call list \<Rightarrow> address source_span list" where
  "source_spans_of = foldl (\<lambda>ss c. case c of SourceSpansCall ss' \<Rightarrow> ss' | _ \<Rightarrow> ss) []"

definition parent_spans_of :: "emitter_call list \<Rightarrow> parent_span list" where
  "parent_spans_of = foldl (\<lambda>ps c. case c of ParentSpansCall ps' \<Rightarrow> ps' | _ \<Rightarrow> ps) []"

definition ops_of :: "emitter_call list \<Rightarrow> (ecode_op_spec \<times> il_value_id list \<times> nat \<times> il_op_id \<times> il_index_range) list" where
  "ops_of cs = concat (map (\<lambda>c. case c of OpCall spec vs n operation rs \<Rightarrow> [(spec, vs, n, operation, rs)] | _ \<Rightarrow> []) cs)"

definition args_of :: "emitter_call list \<Rightarrow> (il_block_id \<times> u32 \<times> il_value_id) list" where
  "args_of cs = concat (map (\<lambda>c. case c of BlockArgCall block w v \<Rightarrow> [(block, w, v)] | _ \<Rightarrow> []) cs)"

definition edges_of :: "emitter_call list \<Rightarrow> il_value_id list list" where
  "edges_of cs = concat (map (\<lambda>c. case c of EdgeArgsCall args \<Rightarrow> [args] | _ \<Rightarrow> []) cs)"

definition domains_of :: "emitter_call list \<Rightarrow> (nat \<times> ecode_domain) list" where
  "domains_of cs = concat (map (\<lambda>c. case c of DomainCall v d \<Rightarrow> [(id_index v, d)] | _ \<Rightarrow> []) cs)"

definition constants_of :: "emitter_call list \<Rightarrow> (bitvec \<times> u64) list" where
  "constants_of cs = concat (map (\<lambda>c. case c of ConstantCall v imm \<Rightarrow> [(v, imm)] | _ \<Rightarrow> []) cs)"

definition call_spaces :: "emitter_call \<Rightarrow> address_space_id set" where
  "call_spaces c =
     (case c of
        SpaceCall s \<Rightarrow> {s}
      | DomainCall _ (MemoryDomain s) \<Rightarrow> {s}
      | OpCall spec _ _ _ _ \<Rightarrow> if requires_memory_domain (spec_opcode spec) then set_option (spec_address_space spec) else {}
      | _ \<Rightarrow> {})"

definition spaces_of :: "emitter_call list \<Rightarrow> address_space_id set" where
  "spaces_of cs = (\<Union>c \<in> set cs. call_spaces c)"

lemmas calls_defs = graph_of_def source_spans_of_def parent_spans_of_def ops_of_def args_of_def edges_of_def domains_of_def constants_of_def

text \<open>The container read through its queries.\<close>

definition op_found :: "'m ecode_ir \<Rightarrow> nat \<Rightarrow> ecode_op_spec \<Rightarrow> il_value_id list \<Rightarrow> nat \<Rightarrow> il_op_id \<Rightarrow> il_index_range \<Rightarrow> bool" where
  "op_found ir i spec vs n operation results \<longleftrightarrow>
     operation = node_id i \<and>
     (let op = ec_operations ir ! i in
      op_opcode op = spec_opcode spec \<and> op_width op = spec_width spec \<and> op_immediate op = spec_immediate spec \<and>
      op_address op = spec_address spec \<and> op_address_space op = spec_address_space spec \<and>
      op_results op = results \<and> range_len results = n \<and> op_operands_for ir op = Inr vs)"

definition calls_found :: "malachite \<Rightarrow> 'm \<Rightarrow> address il_graph \<Rightarrow> emitter_call list \<Rightarrow> 'm ecode_ir \<Rightarrow> bool" where
  "calls_found M metadata g cs ir \<longleftrightarrow>
     ec_metadata ir = metadata \<and> ec_graph ir = graph_of g cs \<and>
     ec_source_spans ir = source_spans_of cs \<and> ec_parent_spans ir = parent_spans_of cs \<and>
     length (ec_operations ir) = length (ops_of cs) \<and>
     (\<forall>i < length (ops_of cs). case ops_of cs ! i of (spec, vs, n, operation, results) \<Rightarrow> op_found ir i spec vs n operation results) \<and>
     map (\<lambda>a. (eb_block a, eb_width a, eb_value a)) (ec_block_args ir) = args_of cs \<and>
     length (ec_values ir) = sum_list (map (\<lambda>(_, _, n, _). n) (ops_of cs)) + length (args_of cs) \<and>
     (if edges_of cs = [] then \<forall>e < length (g_successors (ec_graph ir)). args_for_edge ir e = Inr []
      else \<forall>e < length (edges_of cs). args_for_edge ir e = Inr (edges_of cs ! e)) \<and>
     (\<forall>v. value_domain ir v = map_of (domains_of cs) (id_index v)) \<and>
     set (ec_memory_domains ir) = spaces_of cs \<and>
     (\<forall>(v, imm) \<in> set (constants_of cs). 8 * bytes_bv v < 2 ^ 31 \<longrightarrow>
        (\<forall>op. op_opcode op = EConstant \<and> op_width op = bits v \<and> op_immediate op = imm \<longrightarrow>
           ecode_constant M op (ec_constant_storage ir) = Inr (Some (unsigned_bv v))))"

section \<open>The builder after each call\<close>

lemma emits_emitted: "emits M metadata g cs b \<Longrightarrow> emitted M b"
  by (induction rule: emits.induct) (blast intro: emitted.intros)+

lemma emit_block_arg_eq:
  assumes "emit_block_arg b block w = (b', Inr v)"
  shows "b' = b\<lparr>eb_values := eb_values b @ [\<lparr>ev_width = w, ev_definition = BlockArgDef (node_id (length (eb_block_args b)))\<rparr>],
      eb_value_domains := eb_value_domains b @ [None],
      eb_block_args := eb_block_args b @ [\<lparr>eb_block = block, eb_value = v, eb_width = w\<rparr>]\<rparr>"
  using assms by (auto simp: emit_block_arg_def push_block_arg_value_def try_from_index_eq node_id_def split: if_splits)

lemma emit_edge_args_eq:
  assumes "emit_edge_args b args = (b', Inr r)"
  shows "b' = b\<lparr>eb_edge_arg_values := \<lparr>pool_values = pool_values (eb_edge_arg_values b) @ args\<rparr>, eb_edge_args := eb_edge_args b @ [r]\<rparr>"
    and "start_of r = length (pool_values (eb_edge_arg_values b))" "end_of r = length (pool_values (eb_edge_arg_values b)) + length args"
proof -
  have r: "range_new (length (pool_values (eb_edge_arg_values b))) (length (pool_values (eb_edge_arg_values b) @ args)) = Inr r"
    and "b' = b\<lparr>eb_edge_arg_values := \<lparr>pool_values = pool_values (eb_edge_arg_values b) @ args\<rparr>, eb_edge_args := eb_edge_args b @ [r]\<rparr>"
    using assms by (auto simp: emit_edge_args_def push_edge_args_def pool_append_def Let_def split: sum.splits)
  then show "b' = b\<lparr>eb_edge_arg_values := \<lparr>pool_values = pool_values (eb_edge_arg_values b) @ args\<rparr>, eb_edge_args := eb_edge_args b @ [r]\<rparr>"
    "start_of r = length (pool_values (eb_edge_arg_values b))" "end_of r = length (pool_values (eb_edge_arg_values b)) + length args"
    using range_new_inv [OF r] by simp_all
qed

lemma set_value_domain_eq:
  assumes "set_value_domain b v d = (b', Inr ())"
  shows "b' = (case d of MemoryDomain space \<Rightarrow> intern_memory_domain (b\<lparr>eb_value_domains := (eb_value_domains b)[id_index v := Some d]\<rparr>) space
      | _ \<Rightarrow> b\<lparr>eb_value_domains := (eb_value_domains b)[id_index v := Some d]\<rparr>)"
    and "id_index v < length (eb_value_domains b)" "eb_value_domains b ! id_index v = None"
  using assms by (auto simp: set_value_domain_def Let_def lookup_at_def split: option.splits if_splits)

lemma intern_memory_domain_other [simp]:
  "eb_metadata (intern_memory_domain b s) = eb_metadata b" "eb_graph (intern_memory_domain b s) = eb_graph b"
  "eb_source_spans (intern_memory_domain b s) = eb_source_spans b" "eb_parent_spans (intern_memory_domain b s) = eb_parent_spans b"
  by (simp_all add: intern_memory_domain_def)

lemma note_memory_other [simp]:
  "eb_metadata (note_memory spec b) = eb_metadata b" "eb_graph (note_memory spec b) = eb_graph b"
  "eb_source_spans (note_memory spec b) = eb_source_spans b" "eb_parent_spans (note_memory spec b) = eb_parent_spans b"
  by (auto simp: note_memory_def split: option.splits)

lemma set_value_domain_other:
  assumes "set_value_domain b v d = (b', Inr ())"
  shows "eb_metadata b' = eb_metadata b" "eb_graph b' = eb_graph b" "eb_source_spans b' = eb_source_spans b"
    "eb_parent_spans b' = eb_parent_spans b" "eb_values b' = eb_values b" "eb_block_args b' = eb_block_args b"
    "eb_edge_args b' = eb_edge_args b" "eb_edge_arg_values b' = eb_edge_arg_values b" "eb_operations b' = eb_operations b"
    "eb_value_operands b' = eb_value_operands b" "eb_constant_storage b' = eb_constant_storage b" "eb_constants b' = eb_constants b"
    "eb_value_domains b' = (eb_value_domains b)[id_index v := Some d]"
  by (simp_all add: set_value_domain_eq(1) [OF assms] split: ecode_domain.split)

lemma intern_constant_eq:
  assumes "intern_constant M b v = Inr (b', imm)"
  shows "\<exists>storage i. intern M (eb_constants b) (eb_constant_storage b) v = Inr (imm, storage, i) \<and>
    b' = b\<lparr>eb_constant_storage := storage, eb_constants := i\<rparr>"
  using assms by (auto simp: intern_constant_def map_ok_def outcome_simps)

lemma op_of_spec_other [simp]:
  "op_immediate (op_of_spec spec rs os) = spec_immediate spec" "op_address (op_of_spec spec rs os) = spec_address spec"
  by (simp_all add: op_of_spec_def ecode_op_new_def Let_def split: option.splits)

lemma emits_metadata:
  assumes "emits M metadata g cs b"
  shows "eb_metadata b = metadata \<and> eb_graph b = graph_of g cs \<and> eb_source_spans b = source_spans_of cs \<and>
    eb_parent_spans b = parent_spans_of cs"
  using assms
proof induction
  case (emits_op cs b spec operands n b' operation results)
  from emits_op(2) show ?case by (rule emit_cases) (use emits_op.IH in \<open>simp add: calls_defs\<close>)
qed (auto simp: calls_defs ecode_builder_new_def set_graph_def set_source_spans_def set_parent_spans_def set_value_domain_other
    dest!: emit_block_arg_eq emit_edge_args_eq(1) intern_constant_eq)

lemma emits_args:
  assumes "emits M metadata g cs b"
  shows "map (\<lambda>a. (eb_block a, eb_width a, eb_value a)) (eb_block_args b) = args_of cs \<and>
    length (eb_values b) = sum_list (map (\<lambda>(_, _, n, _). n) (ops_of cs)) + length (args_of cs)"
  using assms
proof induction
  case (emits_op cs b spec operands n b' operation results)
  from emits_op(2) show ?case by (rule emit_cases) (use emits_op.IH in \<open>simp add: calls_defs\<close>)
qed (auto simp: calls_defs ecode_builder_new_def set_graph_def set_source_spans_def set_parent_spans_def set_value_domain_other
    dest!: emit_block_arg_eq emit_edge_args_eq(1) intern_constant_eq)

lemma emit_operation:
  assumes "emit b spec operands n = (b', Inr (operation, results))"
  shows "operation = node_id (length (eb_operations b))"
  using assms by (auto simp: emit_def Let_def try_from_index_eq node_id_def split: if_splits sum.splits prod.splits)

text \<open>A range that still reads what was appended to its pool.\<close>

definition reads_back :: "'a list \<Rightarrow> il_index_range \<Rightarrow> 'a list \<Rightarrow> bool" where
  "reads_back pool r xs \<longleftrightarrow> start_of r \<le> end_of r \<and> end_of r \<le> length pool \<and> sub_slice (start_of r) (end_of r) pool = xs"

lemma reads_back_append: "reads_back pool r xs \<Longrightarrow> reads_back (pool @ extra) r xs"
  by (simp add: reads_back_def sub_slice_append)

lemma reads_back_new: "start_of r = length pool \<Longrightarrow> end_of r = length pool + length xs \<Longrightarrow> reads_back (pool @ xs) r xs"
  by (simp add: reads_back_def sub_slice_def)

lemma reads_back_slice: "reads_back pool r xs \<Longrightarrow> range_slice r pool = Inr xs"
  by (simp add: reads_back_def range_slice_def)

definition op_kept :: "il_value_id list \<Rightarrow> nat \<Rightarrow> ecode_op \<Rightarrow>
    ecode_op_spec \<times> il_value_id list \<times> nat \<times> il_op_id \<times> il_index_range \<Rightarrow> bool" where
  "op_kept pool i op c \<longleftrightarrow>
     (case c of (spec, vs, n, operation, results) \<Rightarrow>
        operation = node_id i \<and> (\<exists>os. op = op_of_spec spec results os \<and> reads_back pool os vs) \<and>
        start_of results + n = end_of results)"

lemma op_kept_append: "op_kept pool i op c \<Longrightarrow> op_kept (pool @ extra) i op c"
  by (auto simp: op_kept_def intro: reads_back_append)

lemma emits_ops:
  assumes "emits M metadata g cs b"
  shows "length (eb_operations b) = length (ops_of cs) \<and>
    (\<forall>i < length (ops_of cs). op_kept (pool_values (eb_value_operands b)) i (eb_operations b ! i) (ops_of cs ! i))"
  using assms
proof induction
  case (emits_op cs b spec operands n b' operation results)
  note id = emit_operation [OF emits_op(2)]
  from emits_op(2) show ?case
  proof (rule emit_cases)
    fix os
    assume r: "range_new (length (eb_values b)) (length (eb_values b) + n) = Inr results"
      and os: "range_new (length (pool_values (eb_value_operands b))) (length (pool_values (eb_value_operands b)) + length operands) = Inr os"
      and b': "b' = (note_memory spec (b\<lparr>eb_values := eb_values b @
           replicate n \<lparr>ev_width = spec_width spec, ev_definition = OpDef (node_id (length (eb_operations b)))\<rparr>,
         eb_value_domains := eb_value_domains b @ replicate n None,
         eb_value_operands := (eb_value_operands b)\<lparr>pool_values := pool_values (eb_value_operands b) @ operands\<rparr>\<rparr>))
         \<lparr>eb_operations := eb_operations b @ [op_of_spec spec results os]\<rparr>"
    let ?pool = "pool_values (eb_value_operands b)" and ?c = "(spec, operands, n, operation, results)"
    have "op_kept (?pool @ operands) (length (ops_of cs)) (op_of_spec spec results os) ?c"
      using range_new_inv [OF os] range_new_inv [OF r] id emits_op.IH by (auto simp: op_kept_def intro: reads_back_new)
    moreover have "ops_of (cs @ [OpCall spec operands n operation results]) = ops_of cs @ [?c]" by (simp add: ops_of_def)
    ultimately show ?thesis
      using emits_op.IH by (auto simp: b' nth_append less_Suc_eq op_kept_append)
  qed
qed (auto simp: ops_of_def ecode_builder_new_def set_graph_def set_source_spans_def set_parent_spans_def set_value_domain_other
    dest!: emit_block_arg_eq emit_edge_args_eq(1) intern_constant_eq)

lemma emits_edges:
  assumes "emits M metadata g cs b"
  shows "list_all2 (reads_back (pool_values (eb_edge_arg_values b))) (eb_edge_args b) (edges_of cs)"
  using assms
proof induction
  case (emits_op cs b spec operands n b' operation results)
  from emits_op(2) show ?case by (rule emit_cases) (use emits_op.IH in \<open>simp add: calls_defs\<close>)
next
  case (emits_edge_args cs b args b' r)
  note new = emit_edge_args_eq [OF emits_edge_args(2)]
  have "list_all2 (reads_back (pool_values (eb_edge_arg_values b) @ args)) (eb_edge_args b) (edges_of cs)"
    using emits_edge_args.IH by (rule list_all2_mono) (rule reads_back_append)
  moreover have "edges_of (cs @ [EdgeArgsCall args]) = edges_of cs @ [args]" by (simp add: edges_of_def)
  ultimately show ?case using reads_back_new [OF new(2,3)] by (simp add: new(1) list_all2_appendI)
qed (auto simp: edges_of_def ecode_builder_new_def set_graph_def set_source_spans_def set_parent_spans_def set_value_domain_other
    dest!: emit_block_arg_eq intern_constant_eq)

definition domain_table :: "ecode_domain option list \<Rightarrow> nat \<Rightarrow> ecode_domain option" where
  "domain_table ds k = (if k < length ds then ds ! k else None)"

lemma domain_table_simps:
  "domain_table [] = Map.empty" "domain_table (ds @ replicate n None) = domain_table ds"
  "i < length ds \<Longrightarrow> domain_table (ds[i := Some d]) = (domain_table ds)(i \<mapsto> d)"
  by (auto simp: domain_table_def fun_eq_iff nth_append nth_list_update)

lemma domain_table_snoc: "domain_table (ds @ [None]) = domain_table ds"
  using domain_table_simps(2) [of ds 1] by simp

lemma map_of_snoc: "map_of xs k = None \<Longrightarrow> map_of (xs @ [(k, d)]) = (map_of xs)(k \<mapsto> d)"
  by (auto simp: map_add_def fun_eq_iff split: option.splits)

lemma emits_domains:
  assumes "emits M metadata g cs b"
  shows "domain_table (eb_value_domains b) = map_of (domains_of cs)"
  using assms
proof induction
  case (emits_op cs b spec operands n b' operation results)
  from emits_op(2) show ?case by (rule emit_cases) (use emits_op.IH in \<open>simp add: domains_of_def domain_table_simps\<close>)
next
  case (emits_domain cs b v d b')
  note new = set_value_domain_eq(2,3) [OF emits_domain(2)] set_value_domain_other(13) [OF emits_domain(2)]
  have "domains_of (cs @ [DomainCall v d]) = domains_of cs @ [(id_index v, d)]" by (simp add: domains_of_def)
  moreover have "map_of (domains_of cs) (id_index v) = None"
    using new(1,2) by (simp add: domain_table_def flip: emits_domain.IH)
  ultimately show ?case using emits_domain.IH new by (simp add: domain_table_simps map_of_snoc del: map_of_append)
qed (auto simp: domains_of_def ecode_builder_new_def set_graph_def set_source_spans_def set_parent_spans_def domain_table_simps
    domain_table_snoc dest!: emit_block_arg_eq emit_edge_args_eq(1) intern_constant_eq)

lemma emits_spaces:
  assumes "emits M metadata g cs b"
  shows "set (eb_memory_domains b) = spaces_of cs"
  using assms
proof induction
  case (emits_op cs b spec operands n b' operation results)
  from emits_op(2) show ?case
    by (rule emit_cases) (use emits_op.IH in \<open>auto simp: spaces_of_def call_spaces_def\<close>)
next
  case (emits_domain cs b v d b')
  then show ?case by (cases d) (auto simp: spaces_of_def call_spaces_def dest!: set_value_domain_eq(1))
qed (auto simp: spaces_of_def call_spaces_def ecode_builder_new_def set_graph_def set_source_spans_def set_parent_spans_def
    dest!: emit_block_arg_eq emit_edge_args_eq(1) intern_constant_eq)

definition constant_reads :: "malachite \<Rightarrow> u8 list \<Rightarrow> bitvec \<Rightarrow> u64 \<Rightarrow> bool" where
  "constant_reads M storage v imm \<longleftrightarrow>
     (\<forall>op. op_opcode op = EConstant \<and> op_width op = bits v \<and> op_immediate op = imm \<longrightarrow>
        ecode_constant M op storage = Inr (Some (unsigned_bv v)))"

lemma constant_reads_append: "constant_reads M storage v imm \<Longrightarrow> constant_reads M (storage @ extra) v imm"
  by (simp add: constant_reads_def ecode_constant_append)

lemma intern_appends:
  assumes "intern M i storage v = Inr (imm, storage', i')"
  shows "\<exists>extra. storage' = storage @ extra"
  using assms by (auto simp: intern_def outcome_simps Let_def split: if_splits option.splits)

lemma emits_constants:
  assumes M: "malachite_ok M" and "emits M metadata g cs b"
  shows "\<forall>(v, imm) \<in> set (constants_of cs). 8 * bytes_bv v < 2 ^ 31 \<longrightarrow> constant_reads M (eb_constant_storage b) v imm"
  using assms(2)
proof induction
  case (emits_op cs b spec operands n b' operation results)
  from emits_op(2) show ?case by (rule emit_cases) (use emits_op.IH in \<open>simp add: constants_of_def\<close>)
next
  case (emits_constant cs b v b' imm)
  obtain storage i where int: "intern M (eb_constants b) (eb_constant_storage b) v = Inr (imm, storage, i)"
    and b': "b' = b\<lparr>eb_constant_storage := storage, eb_constants := i\<rparr>" using intern_constant_eq [OF emits_constant(4)] by blast
  obtain extra where extra: "storage = eb_constant_storage b @ extra" using intern_appends [OF int] by blast
  have "interner_ok (eb_constant_storage b) (eb_constants b)"
    using emitted_builder_ok [OF M emits_emitted [OF emits_constant(1)]] by (simp add: builder_ok_def)
  then have "constant_reads M storage v imm" if "8 * bytes_bv v < 2 ^ 31"
    using intern_reads_back [OF M emits_constant(2) that _ emits_constant(3)] int by (fastforce simp: constant_reads_def)
  moreover have "constants_of (cs @ [ConstantCall v imm]) = constants_of cs @ [(v, imm)]" by (simp add: constants_of_def)
  ultimately show ?case using emits_constant.IH by (auto simp: b' extra intro: constant_reads_append)
qed (auto simp: constants_of_def ecode_builder_new_def set_graph_def set_source_spans_def set_parent_spans_def set_value_domain_other
    dest!: emit_block_arg_eq emit_edge_args_eq(1))

section \<open>Building\<close>

lemma range_len_diff: "start_of r \<le> end_of r \<Longrightarrow> range_len r = end_of r - start_of r"
  by (simp add: range_len_def start_of_def end_of_def unat_sub word_le_nat_alt)

lemma built_op_found:
  assumes "op_kept (pool_values (eb_value_operands b)) i (eb_operations b ! i) (spec, vs, n, operation, results)"
  shows "op_found (build_unchecked b) i spec vs n operation results"
  using assms range_len_diff [of results] by (auto simp: op_kept_def op_found_def op_operands_for_def reads_back_slice Let_def)

lemma built_calls_found:
  assumes M: "malachite_ok M" and calls: "emits M metadata g cs b"
  shows "calls_found M metadata g cs (build_unchecked b)"
proof -
  let ?ir = "build_unchecked b"
  note ops = emits_ops [OF calls] and edges = emits_edges [OF calls]
  have "\<forall>i < length (ops_of cs). case ops_of cs ! i of (spec, vs, n, operation, results) \<Rightarrow> op_found ?ir i spec vs n operation results"
    using ops by (auto intro!: built_op_found split: prod.split)
  moreover have "if edges_of cs = [] then \<forall>e < length (g_successors (ec_graph ?ir)). args_for_edge ?ir e = Inr []
      else \<forall>e < length (edges_of cs). args_for_edge ?ir e = Inr (edges_of cs ! e)"
  proof (cases "edges_of cs = []")
    case True
    then have "eb_edge_args b = []" using edges by simp
    then show ?thesis using True
      by (auto simp: args_for_edge_def build_unchecked_def lookup_at_def expect_def range_slice_def range_empty_def start_of_def end_of_def sub_slice_def)
  next
    case False
    then have "eb_edge_args b \<noteq> []" using edges by auto
    then show ?thesis using False edges
      by (auto simp: args_for_edge_def build_unchecked_def lookup_at_def expect_def list_all2_conv_all_nth reads_back_slice)
  qed
  moreover have "value_domain ?ir v = map_of (domains_of cs) (id_index v)" for v
    by (simp add: value_domain_def lookup_at_def domain_table_def flip: emits_domains [OF calls])
  ultimately show ?thesis
    using emits_metadata [OF calls] emits_args [OF calls] ops emits_spaces [OF calls] emits_constants [OF M calls]
    unfolding calls_found_def constant_reads_def by (simp add: build_unchecked_def)
qed

text \<open>
  C37. What the emitter is given is what the built container holds. For every sequence of successful calls of the
  builder and its emitter, on graphs that fit their 32-bit indices, building returns. It fails with the error for an
  invalid artefact exactly if the verifier rejects the tables. Otherwise the container is well-typed and safe, and
  its queries answer what the calls passed: the metadata, the graph and the spans set last; under each identifier
  that emit returned the operation with its opcode, width, immediate, address, space, results and operands, and no
  further operations or values; the block arguments; for each edge the arguments emitted for it in order, or none on
  every edge if none were emitted; each domain set; exactly the address spaces named; and constant operations with
  an interned immediate read the constant that was interned.
\<close>

theorem ecode_build_correct:
  assumes "malachite_ok M" "emits M metadata g cs b" "ecode_sized (build_unchecked b)"
  shows "\<exists>r. ecode_build b = Some r \<and>
    (case r of
       Inl e \<Rightarrow> e = Error InvalidArtefact \<and> ecode_verify (build_unchecked b) \<noteq> Some (Inr ())
     | Inr ir \<Rightarrow> calls_found M metadata g cs ir \<and> ecode_verify ir = Some (Inr ()) \<and> ecode_typed ir \<and> ecode_safe ir)"
proof -
  obtain r where r: "ecode_build b = Some r"
    "case r of
       Inl e \<Rightarrow> e = Error InvalidArtefact \<and> ecode_verify (build_unchecked b) \<noteq> Some (Inr ())
     | Inr ir \<Rightarrow> ir = build_unchecked b \<and> ecode_verify ir = Some (Inr ()) \<and> ecode_typed ir \<and> ecode_safe ir"
    using ecode_build_result [OF assms(3)] by blast
  then show ?thesis using built_calls_found [OF assms(1,2)] by (cases r) auto
qed

definition straight_calls :: "emitter_call list" where
  "straight_calls =
     [OpCall ((op_spec_new EConstant 8)\<lparr>spec_immediate := 200\<rparr>) [] 1 1 \<lparr>r_start = 0, r_end = 1\<rparr>,
      OpCall ((op_spec_new EWriteRegister 8)\<lparr>spec_immediate := 7\<rparr>) [1] 1 2 \<lparr>r_start = 1, r_end = 2\<rparr>,
      DomainCall 2 (RegisterDomain 7)]"

lemma straight_emits: "emits M () (ec_graph straight_ecode) straight_calls straight_builder"
proof -
  have "emits M () (ec_graph straight_ecode) [] straight_start" unfolding straight_start_def by (rule emits_new)
  then have "emits M () (ec_graph straight_ecode) ([] @ [straight_calls ! 0]) straight_constant"
    using straight_constant_eq unfolding straight_constant_def straight_calls_def by (simp only: nth_Cons_0) (metis emits_op fst_conv)
  then have "emits M () (ec_graph straight_ecode) (([] @ [straight_calls ! 0]) @ [straight_calls ! 1]) straight_write"
    using straight_write_eq unfolding straight_write_def straight_calls_def by (simp only: nth_Cons_0 nth_Cons_Suc One_nat_def) (metis emits_op fst_conv)
  then have "emits M () (ec_graph straight_ecode) ((([] @ [straight_calls ! 0]) @ [straight_calls ! 1]) @ [DomainCall 2 (RegisterDomain 7)]) straight_builder"
    using straight_domain_eq unfolding straight_builder_def by (metis emits_domain fst_conv)
  then show ?thesis by (simp add: straight_calls_def)
qed

theorem ecode_build_correct_witness:
  "\<exists>ir. ecode_build straight_builder = Some (Inr ir) \<and> op_operands_for ir (ec_operations ir ! 1) = Inr [1] \<and>
     value_domain ir 2 = Some (RegisterDomain 7) \<and> ecode_safe ir"
proof -
  have "ecode_sized (build_unchecked straight_builder)"
    by (simp add: straight_built ecode_sized_def straight_sel) (simp add: straight_ecode_def successors_of_def sub_slice_def)
  from ecode_build_correct [OF malachite_ref_ok straight_emits this] obtain r where r: "ecode_build straight_builder = Some r"
    "case r of
       Inl e \<Rightarrow> e = Error InvalidArtefact \<and> ecode_verify (build_unchecked straight_builder) \<noteq> Some (Inr ())
     | Inr ir \<Rightarrow> calls_found malachite_ref () (ec_graph straight_ecode) straight_calls ir \<and> ecode_verify ir = Some (Inr ()) \<and>
         ecode_typed ir \<and> ecode_safe ir" by blast
  then obtain ir where ir: "ecode_build straight_builder = Some (Inr ir)"
    "calls_found malachite_ref () (ec_graph straight_ecode) straight_calls ir" "ecode_safe ir"
    using straight_verify by (cases r) (auto simp: straight_built)
  have "\<forall>i < length (ops_of straight_calls). case ops_of straight_calls ! i of (spec, vs, n, operation, results) \<Rightarrow>
      op_found ir i spec vs n operation results" "\<forall>v. value_domain ir v = map_of (domains_of straight_calls) (id_index v)"
    using ir(2) by (simp_all add: calls_found_def)
  moreover from this(1) [rule_format, of 1] have "op_operands_for ir (ec_operations ir ! 1) = Inr [1]"
    by (simp add: ops_of_def straight_calls_def op_found_def Let_def)
  ultimately show ?thesis using ir(1,3) by (simp add: domains_of_def straight_calls_def)
qed

end
