(* ===== verification/ECodeUses.thy ===== *)
theory ECodeUses
  imports ECode
begin

text \<open>
  Uses and inputs of ecode values (\<open>fugue-core/src/il/ecode/analysis/def_use.rs\<close>) and the analysis of
  the definitions that compaction keeps (\<open>il/ecode/optimise/required.rs\<close>). The analysis ends and marks
  exactly the definitions that a side effect or a domain needs. A work list is a list whose head is
  the end of the vector.
\<close>

section \<open>Uses and inputs\<close>

record ecode_use =
  use_user :: il_op_id
  use_operand_index :: u32

definition ecode_use_new :: "il_op_id \<Rightarrow> nat \<Rightarrow> ecode_use" where
  "ecode_use_new user operand_index = \<lparr>use_user = user, use_operand_index = word_of_nat operand_index\<rparr>"

definition ecode_uses :: "'m ecode_ir \<Rightarrow> ecode_use il_csr outcome" where
  "ecode_uses ir =
     and_then (collect_ok (op_operands_for ir) (ec_operations ir)) (\<lambda>operands.
       collect_ssa_uses (length (ec_values ir)) operands ecode_use_new)"

definition uses_for :: "ecode_use il_csr \<Rightarrow> il_value_id \<Rightarrow> ecode_use list outcome" where
  "uses_for uses v = map_ok (\<lambda>row. case row of None \<Rightarrow> [] | Some us \<Rightarrow> us) (checked_row uses (id_index v))"

definition ecode_block_arg_inputs :: "'m ecode_ir \<Rightarrow> block_arg_inputs outcome" where
  "ecode_block_arg_inputs ir =
     block_arg_inputs_new (length (ec_values ir)) (ec_graph ir) (map (\<lambda>a. (eb_block a, eb_value a)) (ec_block_args ir))
       (args_for_edge ir)"

definition common_input_for :: "block_arg_inputs \<Rightarrow> il_value_id \<Rightarrow> il_value_id option outcome" where
  "common_input_for ai arg =
     map_ok (\<lambda>found.
         Option.bind found (\<lambda>inputs.
           case inputs of [] \<Rightarrow> None | first # _ \<Rightarrow> if list_all (\<lambda>input. input = first) inputs then Some first else None))
       (inputs_for ai arg)"

section \<open>The required definitions\<close>

type_synonym required_state = "required_defs \<times> il_ssa_def list"

fun mark_effects :: "nat \<Rightarrow> ecode_op list \<Rightarrow> required_state \<Rightarrow> required_state outcome" where
  "mark_effects index [] s = Inr s"
| "mark_effects index (op # ops) (rd, worklist) =
     (if has_side_effect (op_opcode op) then
        and_then (or_panic (try_from_index index)) (\<lambda>operation.
        and_then (mark_required rd (OpDef operation)) (\<lambda>(_, rd).
          mark_effects (Suc index) ops (rd, OpDef operation # worklist)))
      else mark_effects (Suc index) ops (rd, worklist))"

definition mark_value :: "'m ecode_ir \<Rightarrow> il_value_id \<Rightarrow> required_state \<Rightarrow> required_state outcome" where
  "mark_value ir v s =
     (case lookup_at (ec_values ir) (id_index v) of
        None \<Rightarrow> Inr s
      | Some r \<Rightarrow>
          and_then (mark_required (fst s) (ev_definition r)) (\<lambda>(fresh, rd).
            Inr (rd, if fresh then ev_definition r # snd s else snd s)))"

fun mark_values :: "'m ecode_ir \<Rightarrow> il_value_id list \<Rightarrow> required_state \<Rightarrow> required_state outcome" where
  "mark_values ir [] s = Inr s"
| "mark_values ir (v # vs) s = and_then (mark_value ir v s) (mark_values ir vs)"

fun mark_domains :: "'m ecode_ir \<Rightarrow> nat list \<Rightarrow> required_state \<Rightarrow> required_state outcome" where
  "mark_domains ir [] s = Inr s"
| "mark_domains ir (index # rest) s =
     and_then (or_panic (try_from_index index)) (\<lambda>v.
       if value_domain ir v = None then mark_domains ir rest s
       else and_then (mark_value ir v s) (mark_domains ir rest))"

definition read_values :: "'m ecode_ir \<Rightarrow> block_arg_inputs \<Rightarrow> il_ssa_def \<Rightarrow> il_value_id list outcome" where
  "read_values ir inputs entity =
     (case entity of
        OpDef operation \<Rightarrow> and_then (get_at (ec_operations ir) (id_index operation)) (op_operands_for ir)
      | BlockArgDef arg \<Rightarrow>
          and_then (get_at (ec_block_args ir) (id_index arg)) (\<lambda>a.
            map_ok (\<lambda>found. case found of None \<Rightarrow> [] | Some vs \<Rightarrow> vs) (inputs_for inputs (eb_value a))))"

partial_function (option) required_loop ::
    "'m ecode_ir \<Rightarrow> block_arg_inputs \<Rightarrow> required_state \<Rightarrow> required_defs outcome option" where
  "required_loop ir inputs s =
     (case snd s of
        [] \<Rightarrow> Some (Inr (fst s))
      | entity # worklist \<Rightarrow>
          (case and_then (read_values ir inputs entity) (\<lambda>vs. mark_values ir vs (fst s, worklist)) of
             Inl p \<Rightarrow> Some (Inl p)
           | Inr s \<Rightarrow> required_loop ir inputs s))"

definition ecode_required_defs :: "'m ecode_ir \<Rightarrow> required_defs outcome option" where
  "ecode_required_defs ir =
     (case and_then (mark_effects 0 (ec_operations ir)
             (required_defs_new (length (ec_block_args ir)) (length (ec_operations ir)), []))
           (mark_domains ir [0..<length (ec_values ir)]) of
        Inl p \<Rightarrow> Some (Inl p)
      | Inr s \<Rightarrow>
          (case ecode_block_arg_inputs ir of Inl p \<Rightarrow> Some (Inl p) | Inr inputs \<Rightarrow> required_loop ir inputs s))"
section \<open>What the inputs are\<close>

definition block_args_at :: "(il_block_id \<times> il_value_id) list \<Rightarrow> nat \<Rightarrow> il_value_id list" where
  "block_args_at args b = map snd (filter (\<lambda>a. id_index (fst a) = b) args)"

definition incoming_at :: "il_block_id list \<Rightarrow> nat \<Rightarrow> nat list" where
  "incoming_at ss b = filter (\<lambda>e. id_index (ss ! e) = b) [0..<length ss]"

definition input_entries :: "(nat \<Rightarrow> il_value_id list) \<Rightarrow> (il_block_id \<times> il_value_id) list \<Rightarrow> il_block_id list \<Rightarrow> nat \<Rightarrow>
    (nat \<times> il_value_id) list" where
  "input_entries av args ss b =
     concat (map (\<lambda>(pos, arg). map (\<lambda>e. (id_index arg, av e ! pos)) (filter (\<lambda>e. pos < length (av e)) (incoming_at ss b)))
       (List.enumerate 0 (block_args_at args b)))"

text \<open>The values that reach an argument: along some edge into its block, at its place among the block's arguments.\<close>

definition arg_inputs :: "(nat \<Rightarrow> il_value_id list) \<Rightarrow> (il_block_id \<times> il_value_id) list \<Rightarrow> il_block_id list \<Rightarrow> nat \<Rightarrow> il_value_id set" where
  "arg_inputs av args ss k =
     {av e ! pos |e pos. e < length ss \<and> pos < length (block_args_at args (id_index (ss ! e))) \<and>
        id_index (block_args_at args (id_index (ss ! e)) ! pos) = k \<and> pos < length (av e)}"

lemma edge_inputs_eq:
  "(\<And>e. e \<in> set es \<Longrightarrow> afe e = Inr (av e)) \<Longrightarrow>
     edge_inputs afe pos arg es = Inr (map (\<lambda>e. (id_index arg, av e ! pos)) (filter (\<lambda>e. pos < length (av e)) es))"
  by (induction es) (auto simp: lookup_at_def)

lemma row_of_map_fst: "row_of r (map (\<lambda>x. (f x, g x)) xs) = map g (filter (\<lambda>x. f x = r) xs)"
  by (induction xs) (simp_all add: row_of_def)

lemma block_args_row: "row_of b (map (\<lambda>(block, v). (id_index block, v)) args) = block_args_at args b"
  by (induction args) (auto simp: row_of_def block_args_at_def)

lemma incoming_row: "row_of b (map (\<lambda>(e, target). (id_index target, e)) (List.enumerate 0 ss)) = incoming_at ss b"
proof -
  have "List.enumerate 0 ss = map (\<lambda>e. (e, ss ! e)) [0..<length ss]" by (rule nth_equalityI) (simp_all add: nth_enumerate_eq)
  then show ?thesis
    using row_of_map_fst [of b "\<lambda>e. id_index (ss ! e)" id "[0..<length ss]"] by (simp add: incoming_at_def comp_def)
qed

lemma block_inputs_eq:
  assumes "csr_row rows b = Inr (block_args_at args b)" "csr_row incoming b = Inr (incoming_at ss b)"
    and "\<And>e. e < length ss \<Longrightarrow> afe e = Inr (av e)"
  shows "block_inputs rows incoming afe b = Inr (input_entries av args ss b)"
proof -
  have "edge_inputs afe pos arg (incoming_at ss b) =
      Inr (map (\<lambda>e. (id_index arg, av e ! pos)) (filter (\<lambda>e. pos < length (av e)) (incoming_at ss b)))" for pos arg
    using assms(3) by (intro edge_inputs_eq) (simp add: incoming_at_def)
  then show ?thesis
    by (simp add: block_inputs_def assms(1,2) input_entries_def case_prod_beta
        collect_ok_all [where g = "\<lambda>(pos, arg). map (\<lambda>e. (id_index arg, av e ! pos)) (filter (\<lambda>e. pos < length (av e)) (incoming_at ss b))"])
qed

lemma mark_present_ok:
  assumes "\<forall>a \<in> set args. id_index (snd a) < length bs"
  shows "\<exists>bs'. mark_present bs args = Inr bs' \<and> length bs' = length bs \<and>
    (\<forall>k. bits_contains bs' k \<longleftrightarrow> bits_contains bs k \<or> k \<in> (\<lambda>a. id_index (snd a)) ` set args)"
  using assms
proof (induction args arbitrary: bs)
  case (Cons a args)
  obtain block v where a: "a = (block, v)" by (cases a)
  let ?bs = "bs[id_index v := True]"
  have "\<forall>a \<in> set args. id_index (snd a) < length ?bs" using Cons.prems by simp
  from Cons.IH [OF this] obtain bs' where "mark_present ?bs args = Inr bs'" "length bs' = length bs"
    "\<And>k. bits_contains bs' k \<longleftrightarrow> bits_contains ?bs k \<or> k \<in> (\<lambda>a. id_index (snd a)) ` set args" by auto
  moreover have "bits_contains ?bs k \<longleftrightarrow> bits_contains bs k \<or> k = id_index v" for k
    using Cons.prems by (auto simp: bits_contains_def nth_list_update a)
  ultimately show ?case using Cons.prems by (auto simp: a bits_put_def)
qed simp

lemma sum_rows_le: "(\<Sum>b\<leftarrow>[0..<n]. length (filter (\<lambda>x. f x = b) xs)) \<le> length (xs :: 'x list)"
proof -
  have "(\<Sum>b\<leftarrow>[0..<n]. length (filter (\<lambda>x. f x = b) xs)) = length (filter (\<lambda>x. f x < n) xs)"
  proof (induction n)
    case (Suc n)
    have "length (filter (\<lambda>x. f x < Suc n) xs) = length (filter (\<lambda>x. f x < n) xs) + length (filter (\<lambda>x. f x = n) xs)"
      by (induction xs) auto
    with Suc show ?case by simp
  qed simp
  then show ?thesis by simp
qed

lemma input_entries_length: "length (concat (map (input_entries av args ss) [0..<n])) \<le> length args * length ss"
proof -
  have block: "length (input_entries av args ss b) \<le> length (block_args_at args b) * length ss" for b
  proof -
    have "length (filter (\<lambda>e. pos < length (av e)) (incoming_at ss b)) \<le> length ss" for pos
      unfolding incoming_at_def by (rule order_trans [OF length_filter_le], rule order_trans [OF length_filter_le]) simp
    then have "(\<Sum>x\<leftarrow>xs. length (filter (\<lambda>e. fst x < length (av e)) (incoming_at ss b))) \<le> length xs * length ss"
      for xs :: "(nat \<times> il_value_id) list"
      by (induction xs) (auto intro: add_mono)
    from this [of "List.enumerate 0 (block_args_at args b)"] show ?thesis
      by (simp add: input_entries_def length_concat comp_def case_prod_beta)
  qed
  have "length (concat (map (input_entries av args ss) [0..<n])) \<le> (\<Sum>b\<leftarrow>[0..<n]. length (block_args_at args b) * length ss)"
    unfolding length_concat by (simp add: comp_def sum_list_mono block)
  also have "\<dots> = (\<Sum>b\<leftarrow>[0..<n]. length (filter (\<lambda>x. id_index (fst x) = b) args)) * length ss"
    by (simp add: sum_list_mult_const block_args_at_def case_prod_beta)
  also have "\<dots> \<le> length args * length ss" by (rule mult_right_mono [OF sum_rows_le]) simp
  finally show ?thesis .
qed

lemma set_enumerate: "set (List.enumerate 0 xs) = {(i, xs ! i) |i. i < length xs}"
  by (auto simp: in_set_enumerate_eq)

lemma bits_contains_replicate [simp]: "\<not> bits_contains (replicate n False) k"
  by (simp add: bits_contains_def)

lemma input_entries_set:
  assumes "\<forall>s \<in> set ss. id_index s < n"
  shows "(k, x) \<in> set (concat (map (input_entries av args ss) [0..<n])) \<longleftrightarrow> x \<in> arg_inputs av args ss k"
proof -
  have block: "(k, x) \<in> set (input_entries av args ss b) \<longleftrightarrow>
      (\<exists>e pos. e < length ss \<and> id_index (ss ! e) = b \<and> pos < length (block_args_at args b) \<and>
         id_index (block_args_at args b ! pos) = k \<and> pos < length (av e) \<and> x = av e ! pos)" for b
    unfolding input_entries_def incoming_at_def set_concat set_map set_enumerate by auto
  have "(k, x) \<in> set (concat (map (input_entries av args ss) [0..<n])) \<longleftrightarrow> (\<exists>b < n. (k, x) \<in> set (input_entries av args ss b))"
    by auto
  also have "\<dots> \<longleftrightarrow>
      (\<exists>e pos. e < length ss \<and> id_index (ss ! e) < n \<and> pos < length (block_args_at args (id_index (ss ! e))) \<and>
         id_index (block_args_at args (id_index (ss ! e)) ! pos) = k \<and> pos < length (av e) \<and> x = av e ! pos)"
    unfolding block by blast
  finally show ?thesis using assms by (auto simp: arg_inputs_def)
qed

lemma block_args_at_mem: "pos < length (block_args_at args b) \<Longrightarrow> \<exists>a \<in> set args. block_args_at args b ! pos = snd a"
  using nth_mem [of pos "block_args_at args b"] by (auto simp: block_args_at_def)

lemma block_arg_inputs_ok:
  assumes args: "\<forall>a \<in> set args. id_index (fst a) < length (g_blocks g) \<and> id_index (snd a) < n"
    and ss: "\<forall>s \<in> set (g_successors g). id_index s < length (g_blocks g)"
    and edges: "\<And>e. e < length (g_successors g) \<Longrightarrow> afe e = Inr (av e)"
    and small: "length (g_blocks g) < 2 ^ 32" "n < 2 ^ 32" "length args < 2 ^ 32" "length (g_successors g) < 2 ^ 32"
      "length args * length (g_successors g) < 2 ^ 32"
  shows "\<exists>ai. block_arg_inputs_new n g args afe = Inr ai \<and>
    (\<forall>a \<in> set args. \<exists>vs. inputs_for ai (snd a) = Inr (Some vs) \<and> set vs = arg_inputs av args (g_successors g) (id_index (snd a)))"
proof -
  let ?nb = "length (g_blocks g)" and ?ss = "g_successors g"
  let ?args = "map (\<lambda>(block, v). (id_index block, v)) args" and ?in = "map (\<lambda>(e, t). (id_index t, e)) (List.enumerate 0 ?ss)"
  let ?es = "concat (map (input_entries av args ?ss) [0..<?nb])"
  obtain present where present: "mark_present (replicate n False) args = Inr present" "length present = n"
    "\<And>k. bits_contains present k \<longleftrightarrow> k \<in> (\<lambda>a. id_index (snd a)) ` set args"
    using mark_present_ok [of args "replicate n False"] args by auto
  have "entries_fit (?nb, ?args)" "entries_fit (?nb, ?in)"
    using args ss small by (auto simp: entries_fit_def in_set_enumerate_eq)
  then obtain rows incoming where rows: "csr_from_entries ?nb ?args = Inr rows" "\<And>b. b < ?nb \<Longrightarrow> csr_row rows b = Inr (block_args_at args b)"
    and incoming: "csr_from_entries ?nb ?in = Inr incoming" "\<And>b. b < ?nb \<Longrightarrow> csr_row incoming b = Inr (incoming_at ?ss b)"
    using entry_rows.stored [of "(?nb, ?args)"] entry_rows.stored [of "(?nb, ?in)"] by (auto simp: block_args_row incoming_row)
  have blocks: "collect_ok (block_inputs rows incoming afe) [0..<?nb] = Inr (map (input_entries av args ?ss) [0..<?nb])"
    by (rule collect_ok_all) (use rows(2) incoming(2) edges in \<open>auto intro!: block_inputs_eq\<close>)
  have "fst e < n" if "e \<in> set ?es" for e
  proof -
    have "snd e \<in> arg_inputs av args ?ss (fst e)" using that input_entries_set [OF ss, of "fst e" "snd e" av args] by simp
    then obtain pos b where "pos < length (block_args_at args b)" "id_index (block_args_at args b ! pos) = fst e"
      by (auto simp: arg_inputs_def)
    then show ?thesis using block_args_at_mem [of pos args b] args by auto
  qed
  then have "entries_fit (n, ?es)"
    using small(2,5) input_entries_length [of av args ?ss ?nb] by (simp add: entries_fit_def)
  then obtain inputs where inputs: "csr_from_entries n ?es = Inr inputs" "\<And>k. k < n \<Longrightarrow> csr_row inputs k = Inr (row_of k ?es)"
    using entry_rows.stored [of "(n, ?es)"] by auto
  have "set (row_of k ?es) = arg_inputs av args ?ss k" for k
    using input_entries_set [OF ss, of k _ av args] by (force simp: row_of_def)
  then show ?thesis
    using present(1,3) rows(1) incoming(1) blocks inputs args by (auto simp: block_arg_inputs_new_def inputs_for_def)
qed
section \<open>The definitions of a verified container\<close>

definition all_defs :: "'m ecode_ir \<Rightarrow> il_ssa_def set" where
  "all_defs ir = (\<lambda>i. OpDef (node_id i)) ` {..<length (ec_operations ir)} \<union> (\<lambda>j. BlockArgDef (node_id j)) ` {..<length (ec_block_args ir)}"

definition def_of :: "'m ecode_ir \<Rightarrow> il_value_id \<Rightarrow> il_ssa_def" where
  "def_of ir v = ev_definition (ec_values ir ! id_index v)"

definition edge_values :: "'m ecode_ir \<Rightarrow> nat \<Rightarrow> il_value_id list" where
  "edge_values ir e = sub_slice (start_of (ec_edge_args ir ! e)) (end_of (ec_edge_args ir ! e)) (ec_edge_arg_values ir)"

definition inputs_of :: "'m ecode_ir \<Rightarrow> nat \<Rightarrow> il_value_id set" where
  "inputs_of ir j =
     arg_inputs (edge_values ir) (map (\<lambda>a. (eb_block a, eb_value a)) (ec_block_args ir)) (g_successors (ec_graph ir))
       (id_index (eb_value (ec_block_args ir ! j)))"

text \<open>Every edge leads to a block, and the tables of edges and inputs fit their 32-bit offsets.\<close>

definition edges_sized :: "'m ecode_ir \<Rightarrow> bool" where
  "edges_sized ir \<longleftrightarrow>
     (\<forall>s \<in> set (g_successors (ec_graph ir)). id_index s < length (g_blocks (ec_graph ir))) \<and>
     length (g_successors (ec_graph ir)) < 2 ^ 32 \<and> length (ec_block_args ir) < 2 ^ 32 \<and>
     length (ec_block_args ir) * length (g_successors (ec_graph ir)) < 2 ^ 32"

lemma edge_values_loop_iff: "edge_values_loop n vs = Inr () \<longleftrightarrow> (\<forall>v \<in> set vs. id_index v < n)"
  by (induction vs) auto

lemma edge_ranges_ok: "edge_ranges_loop n rs = Inr () \<longleftrightarrow> (\<forall>r \<in> set rs. start_of r \<le> end_of r \<and> end_of r \<le> n)"
  by (induction rs) (auto simp: outcome_simps verify_bounds_ok)

lemma verified_edges:
  assumes "verify_tables ir = Inr ()"
  shows "length (ec_edge_args ir) = length (g_successors (ec_graph ir))"
    and "e < length (g_successors (ec_graph ir)) \<Longrightarrow> args_for_edge ir e = Inr (edge_values ir e)"
    and "v \<in> set (edge_values ir e) \<Longrightarrow> id_index v < length (ec_values ir)"
proof -
  have edges: "verify_edge_args (ecode_ssa ir) = Inr ()" by (rule verify_tables_parts [OF assms])
  show len: "length (ec_edge_args ir) = length (g_successors (ec_graph ir))"
    using edges by (auto simp: verify_edge_args_def ecode_ssa_def split: if_splits)
  have bounds: "\<forall>r \<in> set (ec_edge_args ir). start_of r \<le> end_of r \<and> end_of r \<le> length (ec_edge_arg_values ir)"
    and used: "\<forall>v \<in> set (ec_edge_arg_values ir). id_index v < length (ec_values ir)"
    using edges by (auto simp: verify_edge_args_def ecode_ssa_def outcome_simps edge_ranges_ok edge_values_loop_iff split: if_splits)
  show "args_for_edge ir e = Inr (edge_values ir e)" if "e < length (g_successors (ec_graph ir))"
    using that len bounds by (simp add: args_for_edge_def expect_def lookup_at_def range_slice_def assert_or_def edge_values_def)
  have "set (edge_values ir e) \<subseteq> set (ec_edge_arg_values ir)"
    unfolding edge_values_def sub_slice_def using set_take_subset set_drop_subset by (rule subset_trans)
  then show "id_index v < length (ec_values ir)" if "v \<in> set (edge_values ir e)" using that used by blast
qed

lemma verified_sizes:
  assumes "verify_tables ir = Inr ()"
  shows "k < length (ec_values ir) \<Longrightarrow> k < 2 ^ 32 - 1" "i < length (ec_operations ir) \<Longrightarrow> i < 2 ^ 32 - 1"
    "j < length (ec_block_args ir) \<Longrightarrow> j < 2 ^ 32 - 1"
  using verify_tables_parts(6,7,8) [OF assms]
  by (auto simp: verify_values_loop_iff verify_ops_loop_iff verify_block_args_loop_iff verify_op_def outcome_simps try_from_index_eq split: if_splits)

lemma verified_def:
  assumes "verify_tables ir = Inr ()" "id_index v < length (ec_values ir)"
  shows "def_of ir v \<in> all_defs ir"
  using verify_tables_definers [OF assms] by (auto simp: def_of_def all_defs_def definers_def)

lemma verified_operands:
  assumes tables: "verify_tables ir = Inr ()" and i: "i < length (ec_operations ir)"
  shows "op_operands_for ir (ec_operations ir ! i) = Inr (operands_of ir (ec_operations ir ! i))"
    "v \<in> set (operands_of ir (ec_operations ir ! i)) \<Longrightarrow> id_index v < length (ec_values ir)"
  using verify_tables_typed [OF tables] i
  by (auto simp: ecode_typed_def op_typed_def verify_bounds_def intro!: op_operands_for_ok)

lemma verified_inputs:
  assumes tables: "verify_tables ir = Inr ()" and size: "edges_sized ir"
  shows "\<exists>ai. ecode_block_arg_inputs ir = Inr ai \<and>
    (\<forall>j < length (ec_block_args ir). \<exists>vs. inputs_for ai (eb_value (ec_block_args ir ! j)) = Inr (Some vs) \<and> set vs = inputs_of ir j)"
proof -
  let ?args = "map (\<lambda>a. (eb_block a, eb_value a)) (ec_block_args ir)"
  have args: "\<forall>a \<in> set ?args. id_index (fst a) < length (g_blocks (ec_graph ir)) \<and> id_index (snd a) < length (ec_values ir)"
    using verify_tables_parts(6) [OF tables] by (auto simp: verify_block_args_loop_iff in_set_conv_nth)
  have "length (g_blocks (ec_graph ir)) < 2 ^ 32"
    using verify_tables_parts(1) [OF tables] by (simp add: graph_verify_iff graph_ok_def)
  moreover have "length (ec_values ir) < 2 ^ 32"
    using verified_sizes(1) [OF tables, of "2 ^ 32 - 1"] by (cases "length (ec_values ir) < 2 ^ 32") auto
  ultimately obtain ai where "ecode_block_arg_inputs ir = Inr ai"
    and ai: "\<forall>a \<in> set ?args. \<exists>vs. inputs_for ai (snd a) = Inr (Some vs) \<and>
      set vs = arg_inputs (edge_values ir) ?args (g_successors (ec_graph ir)) (id_index (snd a))"
    using block_arg_inputs_ok [OF args, of "args_for_edge ir" "edge_values ir"] verified_edges(2) [OF tables] size
    by (auto simp: edges_sized_def ecode_block_arg_inputs_def)
  then show ?thesis using nth_mem [of _ "ec_block_args ir"] by (auto simp: inputs_of_def)
qed

lemma inputs_of_values: "verify_tables ir = Inr () \<Longrightarrow> v \<in> inputs_of ir j \<Longrightarrow> id_index v < length (ec_values ir)"
  by (auto simp: inputs_of_def arg_inputs_def dest: verified_edges(3) [OF _ nth_mem])
section \<open>The work list\<close>

text \<open>What a side effect or a domain needs, read off the container.\<close>

inductive needed :: "'m ecode_ir \<Rightarrow> il_ssa_def \<Rightarrow> bool" for ir where
  needed_effect: "i < length (ec_operations ir) \<Longrightarrow> has_side_effect (op_opcode (ec_operations ir ! i)) \<Longrightarrow>
    needed ir (OpDef (node_id i))"
| needed_domain: "k < length (ec_values ir) \<Longrightarrow> ec_value_domains ir ! k \<noteq> None \<Longrightarrow> needed ir (ev_definition (ec_values ir ! k))"
| needed_operand: "needed ir (OpDef (node_id i)) \<Longrightarrow> i < length (ec_operations ir) \<Longrightarrow>
    v \<in> set (operands_of ir (ec_operations ir ! i)) \<Longrightarrow> needed ir (def_of ir v)"
| needed_input: "needed ir (BlockArgDef (node_id j)) \<Longrightarrow> j < length (ec_block_args ir) \<Longrightarrow> v \<in> inputs_of ir j \<Longrightarrow>
    needed ir (def_of ir v)"

definition is_marked :: "required_defs \<Rightarrow> il_ssa_def \<Rightarrow> bool" where
  "is_marked rd d = (case d of OpDef w \<Rightarrow> op_is_required rd (id_index w) | BlockArgDef w \<Rightarrow> block_arg_is_required rd (id_index w))"

definition marks :: "'m ecode_ir \<Rightarrow> required_defs \<Rightarrow> il_ssa_def set" where
  "marks ir rd = {d \<in> all_defs ir. is_marked rd d}"

definition rd_sized :: "'m ecode_ir \<Rightarrow> required_defs \<Rightarrow> bool" where
  "rd_sized ir rd \<longleftrightarrow> length (rd_operations rd) = length (ec_operations ir) \<and> length (rd_block_args rd) = length (ec_block_args ir)"

lemma marks_subset: "marks ir rd \<subseteq> all_defs ir"
  by (simp add: marks_def)

lemma finite_all_defs [simp]: "finite (all_defs ir)"
  by (simp add: all_defs_def)

lemma all_defs_cases:
  assumes "verify_tables ir = Inr ()" "d \<in> all_defs ir"
  obtains i where "d = OpDef (node_id i)" "i < length (ec_operations ir)" "id_index (node_id i) = i"
  | j where "d = BlockArgDef (node_id j)" "j < length (ec_block_args ir)" "id_index (node_id j) = j"
  using assms verified_sizes(2,3) [OF assms(1)] index_node_id by (auto simp: all_defs_def)

lemma id_index_defs:
  assumes tables: "verify_tables ir = Inr ()"
  shows "OpDef w \<in> all_defs ir \<Longrightarrow> OpDef w' \<in> all_defs ir \<Longrightarrow> id_index w = id_index w' \<longleftrightarrow> w = w'"
    "BlockArgDef w \<in> all_defs ir \<Longrightarrow> BlockArgDef w' \<in> all_defs ir \<Longrightarrow> id_index w = id_index w' \<longleftrightarrow> w = w'"
  using verified_sizes(2,3) [OF tables] index_node_id by (auto simp: all_defs_def)

lemma mark_required_ok:
  assumes tables: "verify_tables ir = Inr ()" and size: "rd_sized ir rd" and d: "d \<in> all_defs ir"
  shows "\<exists>rd'. mark_required rd d = Inr (d \<notin> marks ir rd, rd') \<and> rd_sized ir rd' \<and> marks ir rd' = insert d (marks ir rd)"
  using tables d
proof (cases rule: all_defs_cases)
  case (1 i)
  let ?rd = "rd\<lparr>rd_operations := (rd_operations rd)[i := True]\<rparr>"
  have "mark_required rd d = Inr (d \<notin> marks ir rd, ?rd)"
    using 1 d size by (simp add: mark_required_def bits_put_def rd_sized_def marks_def is_marked_def op_is_required_def bits_contains_def)
  moreover have "is_marked ?rd d' \<longleftrightarrow> is_marked rd d' \<or> d' = d" if "d' \<in> all_defs ir" for d'
    using that 1 d size id_index_defs(1) [OF tables, of "node_id i"]
    by (cases d') (auto simp: is_marked_def op_is_required_def block_arg_is_required_def bits_contains_def nth_list_update rd_sized_def)
  ultimately show ?thesis using size d by (auto simp: rd_sized_def marks_def)
next
  case (2 j)
  let ?rd = "rd\<lparr>rd_block_args := (rd_block_args rd)[j := True]\<rparr>"
  have "mark_required rd d = Inr (d \<notin> marks ir rd, ?rd)"
    using 2 d size by (simp add: mark_required_def bits_put_def rd_sized_def marks_def is_marked_def block_arg_is_required_def bits_contains_def)
  moreover have "is_marked ?rd d' \<longleftrightarrow> is_marked rd d' \<or> d' = d" if "d' \<in> all_defs ir" for d'
    using that 2 d size id_index_defs(2) [OF tables, of "node_id j"]
    by (cases d') (auto simp: is_marked_def op_is_required_def block_arg_is_required_def bits_contains_def nth_list_update rd_sized_def)
  ultimately show ?thesis using size d by (auto simp: rd_sized_def marks_def)
qed

text \<open>
  A step of marking: the bits keep their size, the new marks are pushed, and the unmarked definitions
  and the entries of the work list together do not grow.
\<close>

definition left_to_do :: "'m ecode_ir \<Rightarrow> required_state \<Rightarrow> nat" where
  "left_to_do ir s = card (all_defs ir - marks ir (fst s)) + length (snd s)"

definition marks_step :: "'m ecode_ir \<Rightarrow> il_ssa_def set \<Rightarrow> required_state \<Rightarrow> required_state \<Rightarrow> bool" where
  "marks_step ir ds s s' \<longleftrightarrow>
     rd_sized ir (fst s') \<and> marks ir (fst s') = marks ir (fst s) \<union> ds \<and>
     set (snd s') = set (snd s) \<union> (ds - marks ir (fst s)) \<and> left_to_do ir s' = left_to_do ir s"

lemma mark_value_ok:
  assumes tables: "verify_tables ir = Inr ()" and size: "rd_sized ir (fst s)" and v: "id_index v < length (ec_values ir)"
  shows "\<exists>s'. mark_value ir v s = Inr s' \<and> marks_step ir {def_of ir v} s s'"
proof -
  let ?d = "def_of ir v"
  have d: "?d \<in> all_defs ir" by (rule verified_def [OF tables v])
  then obtain rd' where rd': "mark_required (fst s) ?d = Inr (?d \<notin> marks ir (fst s), rd')" "rd_sized ir rd'"
    "marks ir rd' = insert ?d (marks ir (fst s))" using mark_required_ok [OF tables size] by blast
  let ?s = "(rd', if ?d \<notin> marks ir (fst s) then ?d # snd s else snd s)"
  have "mark_value ir v s = Inr ?s"
    using rd'(1) v by (simp add: mark_value_def lookup_at_def def_of_def)
  moreover have "card (all_defs ir - insert ?d (marks ir (fst s))) + 1 = card (all_defs ir - marks ir (fst s))"
    if "?d \<notin> marks ir (fst s)"
    using that d card.remove [of "all_defs ir - marks ir (fst s)" ?d] by (simp add: Diff_insert [symmetric])
  then have "left_to_do ir ?s = left_to_do ir s" by (auto simp: left_to_do_def rd'(3) insert_absorb)
  then have "marks_step ir {?d} s ?s" using rd'(2,3) by (auto simp: marks_step_def)
  ultimately show ?thesis by blast
qed

lemma marks_step_trans: "marks_step ir ds s s' \<Longrightarrow> marks_step ir ds' s' s'' \<Longrightarrow> marks_step ir (ds \<union> ds') s s''"
  by (auto simp: marks_step_def)

lemma marks_step_sized: "marks_step ir ds s s' \<Longrightarrow> rd_sized ir (fst s')"
  by (simp add: marks_step_def)

lemma marks_step_refl: "rd_sized ir (fst s) \<Longrightarrow> marks_step ir {} s s"
  by (simp add: marks_step_def)

lemma mark_values_ok:
  assumes tables: "verify_tables ir = Inr ()" and "rd_sized ir (fst s)" "\<forall>v \<in> set vs. id_index v < length (ec_values ir)"
  shows "\<exists>s'. mark_values ir vs s = Inr s' \<and> marks_step ir (def_of ir ` set vs) s s'"
  using assms(2,3)
proof (induction vs arbitrary: s)
  case (Cons v vs)
  then obtain s1 where s1: "mark_value ir v s = Inr s1" "marks_step ir {def_of ir v} s s1"
    using mark_value_ok [OF tables, of s v] by auto
  moreover obtain s2 where "mark_values ir vs s1 = Inr s2" "marks_step ir (def_of ir ` set vs) s1 s2"
    using Cons.IH [OF marks_step_sized [OF s1(2)]] Cons.prems by auto
  ultimately show ?case using marks_step_trans [OF s1(2)] by fastforce
qed (simp add: marks_step_refl)
definition reads :: "'m ecode_ir \<Rightarrow> il_ssa_def \<Rightarrow> il_value_id set" where
  "reads ir d =
     (case d of OpDef w \<Rightarrow> set (operands_of ir (ec_operations ir ! id_index w)) | BlockArgDef w \<Rightarrow> inputs_of ir (id_index w))"

definition effects :: "nat \<Rightarrow> ecode_op list \<Rightarrow> il_ssa_def set" where
  "effects i ops = (\<lambda>k. OpDef (node_id (i + k))) ` {k. k < length ops \<and> has_side_effect (op_opcode (ops ! k))}"

definition domain_defs :: "'m ecode_ir \<Rightarrow> nat set \<Rightarrow> il_ssa_def set" where
  "domain_defs ir ks = (\<lambda>k. ev_definition (ec_values ir ! k)) ` {k \<in> ks. ec_value_domains ir ! k \<noteq> None}"

lemma effects_Cons:
  "effects i (op # ops) = (if has_side_effect (op_opcode op) then {OpDef (node_id i)} else {}) \<union> effects (Suc i) ops"
proof -
  have "{k. k < length (op # ops) \<and> has_side_effect (op_opcode ((op # ops) ! k))} =
      (if has_side_effect (op_opcode op) then {0} else {}) \<union> Suc ` {k. k < length ops \<and> has_side_effect (op_opcode (ops ! k))}"
    by (auto simp: less_Suc_eq_0_disj)
  then show ?thesis by (auto simp: effects_def image_Un image_image)
qed

lemma mark_effects_ok:
  assumes tables: "verify_tables ir = Inr ()" and "rd_sized ir (fst s)" "i + length ops \<le> length (ec_operations ir)"
  shows "\<exists>s'. mark_effects i ops s = Inr s' \<and> rd_sized ir (fst s') \<and>
    marks ir (fst s') = marks ir (fst s) \<union> effects i ops \<and> set (snd s') = set (snd s) \<union> effects i ops"
  using assms(2,3)
proof (induction i ops s rule: mark_effects.induct)
  case (2 i op ops rd wl)
  have i: "i < length (ec_operations ir)" "try_from_index i = Inr (node_id i)"
    using 2 verified_sizes(2) [OF tables, of i] try_from_index_node [of i] by simp_all
  then have "OpDef (node_id i) \<in> all_defs ir" by (simp add: all_defs_def)
  then obtain rd' where "mark_required rd (OpDef (node_id i)) = Inr (OpDef (node_id i) \<notin> marks ir rd, rd')" "rd_sized ir rd'"
    "marks ir rd' = insert (OpDef (node_id i)) (marks ir rd)" using mark_required_ok [OF tables, of rd "OpDef (node_id i)"] 2(3) by auto
  then show ?case using 2 i by (fastforce simp: effects_Cons or_panic_def)
qed (simp add: effects_def)

lemma mark_domains_ok:
  assumes tables: "verify_tables ir = Inr ()" and "rd_sized ir (fst s)" "\<forall>k \<in> set ks. k < length (ec_values ir)"
  shows "\<exists>s'. mark_domains ir ks s = Inr s' \<and> marks_step ir (domain_defs ir (set ks)) s s'"
  using assms(2,3)
proof (induction ks arbitrary: s)
  case (Cons k ks)
  have k: "k < length (ec_values ir)" "id_index (node_id k) = k" "try_from_index k = Inr (node_id k)"
    using Cons.prems verified_sizes(1) [OF tables, of k] index_node_id [of k] try_from_index_node [of k] by simp_all
  have domain: "value_domain ir (node_id k) = ec_value_domains ir ! k"
    using verify_tables_typed [OF tables] k by (simp add: value_domain_def lookup_at_def ecode_typed_def)
  have split: "domain_defs ir (set (k # ks)) =
      (if ec_value_domains ir ! k = None then {} else {def_of ir (node_id k)}) \<union> domain_defs ir (set ks)"
    by (auto simp: domain_defs_def def_of_def k(2))
  show ?case
  proof (cases "ec_value_domains ir ! k = None")
    case True
    then show ?thesis using Cons k domain split by (auto simp: or_panic_def)
  next
    case False
    obtain s1 where s1: "mark_value ir (node_id k) s = Inr s1" "marks_step ir {def_of ir (node_id k)} s s1"
      using mark_value_ok [OF tables, of s "node_id k"] Cons.prems k by auto
    moreover obtain s2 where "mark_domains ir ks s1 = Inr s2" "marks_step ir (domain_defs ir (set ks)) s1 s2"
      using Cons.IH [OF marks_step_sized [OF s1(2)]] Cons.prems by auto
    ultimately show ?thesis using marks_step_trans [OF s1(2)] False k domain split by (fastforce simp: or_panic_def)
  qed
qed (simp add: marks_step_refl domain_defs_def)

lemma read_values_ok:
  assumes tables: "verify_tables ir = Inr ()" and d: "d \<in> all_defs ir"
    and ai: "\<forall>j < length (ec_block_args ir). \<exists>vs. inputs_for ai (eb_value (ec_block_args ir ! j)) = Inr (Some vs) \<and> set vs = inputs_of ir j"
  shows "\<exists>vs. read_values ir ai d = Inr vs \<and> set vs = reads ir d \<and> (\<forall>v \<in> set vs. id_index v < length (ec_values ir))"
  using tables d
proof (cases rule: all_defs_cases)
  case (1 i)
  then show ?thesis using verified_operands [OF tables] by (auto simp: read_values_def reads_def get_at_def)
next
  case (2 j)
  then obtain vs where "inputs_for ai (eb_value (ec_block_args ir ! j)) = Inr (Some vs)" "set vs = inputs_of ir j" using ai by blast
  then show ?thesis using 2 inputs_of_values [OF tables] by (auto simp: read_values_def reads_def get_at_def)
qed

lemma needed_all_defs: "verify_tables ir = Inr () \<Longrightarrow> needed ir d \<Longrightarrow> d \<in> all_defs ir"
proof -
  assume tables: "verify_tables ir = Inr ()" and "needed ir d"
  from this(2) show ?thesis
  proof induction
    case (needed_domain k)
    then show ?case
      using verified_def [OF tables, of "node_id k"] index_node_id [OF verified_sizes(1) [OF tables, of k]] by (simp add: def_of_def)
  next
    case (needed_effect i)
    then show ?case by (simp add: all_defs_def)
  next
    case (needed_operand i v)
    show ?case by (rule verified_def [OF tables verified_operands(2) [OF tables needed_operand.hyps(2,3)]])
  next
    case (needed_input j v)
    show ?case by (rule verified_def [OF tables inputs_of_values [OF tables needed_input.hyps(3)]])
  qed
qed

lemma needed_reads:
  assumes "verify_tables ir = Inr ()" "needed ir d" "v \<in> reads ir d" shows "needed ir (def_of ir v)"
  using assms(1) needed_all_defs [OF assms(1,2)]
proof (cases rule: all_defs_cases)
  case (1 i)
  then show ?thesis using assms(2,3) by (auto simp: reads_def intro: needed_operand)
next
  case (2 j)
  then show ?thesis using assms(2,3) by (auto simp: reads_def intro: needed_input)
qed

lemma needed_least:
  assumes tables: "verify_tables ir = Inr ()" and "needed ir d"
    and roots: "effects 0 (ec_operations ir) \<union> domain_defs ir {..<length (ec_values ir)} \<subseteq> S"
    and closed: "\<And>d v. d \<in> S \<Longrightarrow> v \<in> reads ir d \<Longrightarrow> def_of ir v \<in> S"
  shows "d \<in> S"
  using assms(2)
proof induction
  case (needed_effect i)
  then show ?case using roots by (auto simp: effects_def)
next
  case (needed_domain k)
  then show ?case using roots by (auto simp: domain_defs_def)
next
  case (needed_operand i v)
  then show ?case using closed index_node_id [OF verified_sizes(2) [OF tables, of i]] by (auto simp: reads_def)
next
  case (needed_input j v)
  then show ?case using closed index_node_id [OF verified_sizes(3) [OF tables, of j]] by (auto simp: reads_def)
qed
lemma required_loop_ok:
  assumes tables: "verify_tables ir = Inr ()"
    and ai: "\<forall>j < length (ec_block_args ir). \<exists>vs. inputs_for ai (eb_value (ec_block_args ir ! j)) = Inr (Some vs) \<and> set vs = inputs_of ir j"
    and roots: "effects 0 (ec_operations ir) \<union> domain_defs ir {..<length (ec_values ir)} \<subseteq> marks ir (fst s)"
    and size: "rd_sized ir (fst s)" and listed: "set (snd s) \<subseteq> marks ir (fst s)"
    and sound: "\<forall>d \<in> marks ir (fst s). needed ir d"
    and closed: "\<forall>d \<in> marks ir (fst s) - set (snd s). \<forall>v \<in> reads ir d. def_of ir v \<in> marks ir (fst s)"
  shows "\<exists>rd. required_loop ir ai s = Some (Inr rd) \<and> marks ir rd = {d. needed ir d}"
  using roots size listed sound closed
proof (induction "left_to_do ir s" arbitrary: s rule: less_induct)
  case less
  show ?case
  proof (cases "snd s")
    case Nil
    then have "marks ir (fst s) = {d. needed ir d}"
      using less.prems(4,5) needed_least [OF tables _ less.prems(1)] by auto
    then show ?thesis using Nil by (simp add: required_loop.simps)
  next
    case (Cons d wl)
    then have d: "d \<in> marks ir (fst s)" using less.prems(3) by simp
    then have "d \<in> all_defs ir" using marks_subset by blast
    then obtain vs where vs: "read_values ir ai d = Inr vs" "set vs = reads ir d" "\<forall>v \<in> set vs. id_index v < length (ec_values ir)"
      using read_values_ok [OF tables _ ai] by blast
    have "rd_sized ir (fst (fst s, wl))" using less.prems(2) by simp
    then obtain s' where s': "mark_values ir vs (fst s, wl) = Inr s'" "marks_step ir (def_of ir ` set vs) (fst s, wl) s'"
      using mark_values_ok [OF tables _ vs(3)] by blast
    have marks: "marks ir (fst s') = marks ir (fst s) \<union> def_of ir ` reads ir d"
      and list: "set (snd s') = set wl \<union> (def_of ir ` reads ir d - marks ir (fst s))"
      using s'(2) vs(2) by (auto simp: marks_step_def)
    have "left_to_do ir s' = left_to_do ir (fst s, wl)" using s'(2) by (simp add: marks_step_def)
    then have "left_to_do ir s' < left_to_do ir s" using Cons by (simp add: left_to_do_def)
    moreover have "effects 0 (ec_operations ir) \<union> domain_defs ir {..<length (ec_values ir)} \<subseteq> marks ir (fst s')"
      using less.prems(1) by (auto simp: marks)
    moreover note marks_step_sized [OF s'(2)]
    moreover have "set (snd s') \<subseteq> marks ir (fst s')" using less.prems(3) Cons by (auto simp: marks list)
    moreover have "\<forall>d \<in> marks ir (fst s'). needed ir d"
      using less.prems(4) d needed_reads [OF tables] by (auto simp: marks)
    moreover have "\<forall>d' \<in> marks ir (fst s') - set (snd s'). \<forall>v \<in> reads ir d'. def_of ir v \<in> marks ir (fst s')"
      using less.prems(5) Cons by (auto simp: marks list)
    ultimately have "\<exists>rd. required_loop ir ai s' = Some (Inr rd) \<and> marks ir rd = {d. needed ir d}" by (rule less.hyps)
    then show ?thesis using Cons vs(1) s'(1) by (simp add: required_loop.simps [of ir ai s])
  qed
qed

text \<open>
  C8. The analysis of required definitions returns on every verified container whose edge tables fit their
  32-bit offsets, and marks exactly the operations and block arguments that are needed: those with a side
  effect, those that define a value of a domain, and, from these on, the definitions of all operands of a
  needed operation and of all values that edges pass to a needed block argument. Everything else is what
  compaction drops.
\<close>

theorem required_defs_correct:
  assumes verified: "ecode_verify ir = Some (Inr ())" and size: "edges_sized ir"
  shows "\<exists>rd. ecode_required_defs ir = Some (Inr rd) \<and>
    (\<forall>i < length (ec_operations ir). op_is_required rd i \<longleftrightarrow> needed ir (OpDef (node_id i))) \<and>
    (\<forall>j < length (ec_block_args ir). block_arg_is_required rd j \<longleftrightarrow> needed ir (BlockArgDef (node_id j)))"
proof -
  have tables: "verify_tables ir = Inr ()" using verified by (cases "verify_tables ir") (auto simp: ecode_verify_def)
  let ?rd = "required_defs_new (length (ec_block_args ir)) (length (ec_operations ir))"
  have new: "rd_sized ir ?rd" "marks ir ?rd = {}"
    by (auto simp: rd_sized_def required_defs_new_def marks_def is_marked_def op_is_required_def block_arg_is_required_def
        split: il_ssa_def.splits)
  obtain s1 where s1: "mark_effects 0 (ec_operations ir) (?rd, []) = Inr s1" "rd_sized ir (fst s1)"
    "marks ir (fst s1) = effects 0 (ec_operations ir)" "set (snd s1) = effects 0 (ec_operations ir)"
    using mark_effects_ok [OF tables, of "(?rd, [])" 0 "ec_operations ir"] new by auto
  obtain s2 where s2: "mark_domains ir [0..<length (ec_values ir)] s1 = Inr s2"
    "marks_step ir (domain_defs ir {..<length (ec_values ir)}) s1 s2"
    using mark_domains_ok [OF tables s1(2), of "[0..<length (ec_values ir)]"] by (auto simp: atLeast0LessThan)
  obtain ai where ai: "ecode_block_arg_inputs ir = Inr ai" "\<forall>j < length (ec_block_args ir). \<exists>vs.
      inputs_for ai (eb_value (ec_block_args ir ! j)) = Inr (Some vs) \<and> set vs = inputs_of ir j"
    using verified_inputs [OF tables size] by blast
  have "\<forall>d \<in> effects 0 (ec_operations ir) \<union> domain_defs ir {..<length (ec_values ir)}. needed ir d"
    by (auto simp: effects_def domain_defs_def intro: needed_effect needed_domain)
  then obtain rd where rd: "required_loop ir ai s2 = Some (Inr rd)" "marks ir rd = {d. needed ir d}"
    using required_loop_ok [OF tables ai(2), of s2] s2(2) s1(3,4) by (auto simp: marks_step_def)
  have iff: "d \<in> all_defs ir \<Longrightarrow> is_marked rd d \<longleftrightarrow> needed ir d" for d using rd(2) by (auto simp: marks_def)
  have "op_is_required rd i \<longleftrightarrow> needed ir (OpDef (node_id i))" if "i < length (ec_operations ir)" for i
    using iff [of "OpDef (node_id i)"] that index_node_id [OF verified_sizes(2) [OF tables that]] by (simp add: all_defs_def is_marked_def)
  moreover have "block_arg_is_required rd j \<longleftrightarrow> needed ir (BlockArgDef (node_id j))" if "j < length (ec_block_args ir)" for j
    using iff [of "BlockArgDef (node_id j)"] that index_node_id [OF verified_sizes(3) [OF tables that]]
    by (simp add: all_defs_def is_marked_def)
  ultimately show ?thesis using rd(1) s1(1) s2(1) ai(1) by (simp add: ecode_required_defs_def)
qed

theorem required_defs_correct_witness:
  "\<exists>rd. ecode_required_defs straight_ecode = Some (Inr rd) \<and> op_is_required rd 0 \<and> op_is_required rd 1"
proof -
  have "edges_sized straight_ecode" by (simp add: edges_sized_def straight_sel)
  then obtain rd where rd: "ecode_required_defs straight_ecode = Some (Inr rd)"
    "\<forall>i < length (ec_operations straight_ecode). op_is_required rd i \<longleftrightarrow> needed straight_ecode (OpDef (node_id i))"
    using required_defs_correct [OF straight_verify] by blast
  have written: "needed straight_ecode (OpDef (node_id 1))"
    by (rule needed_effect) (simp_all add: straight_ecode_def ecode_op_new_def has_side_effect_def)
  have "needed straight_ecode (def_of straight_ecode 1)"
    by (rule needed_operand [OF written])
      (simp_all add: straight_ecode_def operands_of_def ecode_op_new_def start_of_def end_of_def sub_slice_def)
  then have "needed straight_ecode (OpDef (node_id 0))" by (simp add: def_of_def straight_ecode_def id_index_def node_id_def)
  then show ?thesis using rd written by (simp add: straight_sel)
qed
end
