(* ===== verification/ECodeFold.thy ===== *)
theory ECodeFold
  imports ECodeBuild ECodeUses
begin

text \<open>
  Constant folding on ecode, from \<open>fugue-core/src/il/ecode/optimise/fold.rs\<close>: a work list of values
  known to be constant, from which operations and block arguments are folded, and the rewriting of the
  folded operations. Folding ends, a folded operation is replaced by the only value it can have, and
  nothing foldable is left.
\<close>

section \<open>The rewrite\<close>

type_synonym fold_state = "bitvec option list \<times> nat list"

definition fold_put :: "fold_state \<Rightarrow> nat \<Rightarrow> bitvec \<Rightarrow> fold_state outcome" where
  "fold_put s result v = map_ok (\<lambda>folded. (folded, result # snd s)) (put_at (fst s) result (Some v))"

definition dependent_args :: "nat \<Rightarrow> block_arg_inputs \<Rightarrow> il_value_id il_csr outcome" where
  "dependent_args count_of_values inputs =
     and_then (inputs_iter inputs) (\<lambda>rows.
       csr_from_entries count_of_values
         (concat (map (\<lambda>(arg, arg_inputs). map (\<lambda>input. (id_index input, arg)) arg_inputs) rows)))"

fun fold_constants :: "malachite \<Rightarrow> u8 list \<Rightarrow> ecode_op list \<Rightarrow> fold_state \<Rightarrow> fold_state outcome" where
  "fold_constants M storage [] s = Inr s"
| "fold_constants M storage (op # ops) s =
     (if range_len (op_results op) \<noteq> 1 \<or> op_opcode op \<noteq> EConstant then fold_constants M storage ops s
      else
        and_then (ecode_constant M op storage) (\<lambda>found.
          case found of
            None \<Rightarrow> fold_constants M storage ops s
          | Some v \<Rightarrow> and_then (fold_put s (start_of (op_results op)) v) (fold_constants M storage ops)))"

fun folded_operands :: "bitvec option list \<Rightarrow> il_value_id list \<Rightarrow> bitvec list outcome" where
  "folded_operands folded [] = Inr []"
| "folded_operands folded (v # vs) =
     and_then (get_at folded (id_index v)) (\<lambda>found.
       case found of None \<Rightarrow> Inr [] | Some c \<Rightarrow> map_ok (\<lambda>cs. c # cs) (folded_operands folded vs))"

definition fold_use :: "malachite \<Rightarrow> 'm ecode_ir \<Rightarrow> ecode_use \<Rightarrow> fold_state \<Rightarrow> fold_state outcome" where
  "fold_use M ir used s =
     and_then (get_at (ec_operations ir) (id_index (use_user used))) (\<lambda>op.
       if range_len (op_results op) \<noteq> 1 \<or> op_opcode op = EConstant then Inr s
       else
         and_then (get_at (fst s) (start_of (op_results op))) (\<lambda>known.
           if known \<noteq> None then Inr s
           else
             and_then (op_operands_for ir op) (\<lambda>vs.
             and_then (folded_operands (fst s) vs) (\<lambda>operands.
               if length operands \<noteq> length vs then Inr s
               else
                 and_then (ecode_evaluate M (op_opcode op) (op_width op) operands) (\<lambda>found.
                   case found of None \<Rightarrow> Inr s | Some v \<Rightarrow> fold_put s (start_of (op_results op)) v)))))"

fun inputs_agree :: "bitvec option list \<Rightarrow> bitvec \<Rightarrow> il_value_id list \<Rightarrow> bool outcome" where
  "inputs_agree folded v [] = Inr True"
| "inputs_agree folded v (input # rest) =
     and_then (get_at folded (id_index input)) (\<lambda>found.
       case found of None \<Rightarrow> Inr False | Some c \<Rightarrow> if eq_bv c v then inputs_agree folded v rest else Inr False)"

definition fold_arg :: "block_arg_inputs \<Rightarrow> il_value_id \<Rightarrow> fold_state \<Rightarrow> fold_state outcome" where
  "fold_arg inputs arg s =
     and_then (get_at (fst s) (id_index arg)) (\<lambda>known.
       if known \<noteq> None then Inr s
       else
         and_then (inputs_for inputs arg) (\<lambda>found.
         and_then (expect found) (\<lambda>arg_inputs.
           case arg_inputs of
             [] \<Rightarrow> Inr s
           | first # _ \<Rightarrow>
               and_then (get_at (fst s) (id_index first)) (\<lambda>found.
                 case found of
                   None \<Rightarrow> Inr s
                 | Some v \<Rightarrow>
                     and_then (inputs_agree (fst s) v arg_inputs) (\<lambda>all.
                       if all then fold_put s (id_index arg) v else Inr s)))))"

definition fold_value :: "malachite \<Rightarrow> 'm ecode_ir \<Rightarrow> ecode_use il_csr \<Rightarrow> block_arg_inputs \<Rightarrow> il_value_id il_csr \<Rightarrow> nat \<Rightarrow>
    fold_state \<Rightarrow> fold_state outcome" where
  "fold_value M ir uses inputs dependents value_index s =
     and_then (or_panic (try_from_index value_index)) (\<lambda>defined.
     and_then (uses_for uses defined) (\<lambda>us.
     and_then (fold_ok (fold_use M ir) us s) (\<lambda>s.
     and_then (csr_row dependents value_index) (\<lambda>args. fold_ok (fold_arg inputs) args s))))"

partial_function (option) fold_loop ::
    "malachite \<Rightarrow> 'm ecode_ir \<Rightarrow> ecode_use il_csr \<Rightarrow> block_arg_inputs \<Rightarrow> il_value_id il_csr \<Rightarrow> fold_state \<Rightarrow>
     bitvec option list outcome option" where
  "fold_loop M ir uses inputs dependents s =
     (case snd s of
        [] \<Rightarrow> Some (Inr (fst s))
      | value_index # worklist \<Rightarrow>
          (case fold_value M ir uses inputs dependents value_index (fst s, worklist) of
             Inl p \<Rightarrow> Some (Inl p)
           | Inr s \<Rightarrow> fold_loop M ir uses inputs dependents s))"

fun rewrite_folded :: "malachite \<Rightarrow> bitvec option list \<Rightarrow> nat list \<Rightarrow> ecode_rewriter \<Rightarrow> ecode_rewriter outcome" where
  "rewrite_folded M folded [] rw = Inr rw"
| "rewrite_folded M folded (index # rest) rw =
     and_then (get_at (rw_operations rw) index) (\<lambda>op.
       if op_opcode op = EConstant \<or> range_len (op_results op) \<noteq> 1 then rewrite_folded M folded rest rw
       else
         and_then (get_at folded (start_of (op_results op))) (\<lambda>found.
           case found of
             None \<Rightarrow> rewrite_folded M folded rest rw
           | Some v \<Rightarrow>
               and_then (or_panic (try_from_index index)) (\<lambda>operation.
               and_then (replace_with_constant M rw operation v) (rewrite_folded M folded rest))))"

definition fold_rewrite :: "malachite \<Rightarrow> 'm ecode_ir \<Rightarrow> bitvec option list \<Rightarrow> 'm ecode_ir outcome" where
  "fold_rewrite M ir folded =
     map_ok (\<lambda>rw. ir\<lparr>ec_operations := rw_operations rw, ec_constant_storage := rw_constant_storage rw\<rparr>)
       (rewrite_folded M folded [0..<length (ec_operations ir)] (rewriter ir))"

definition constant_folding :: "malachite \<Rightarrow> 'm ecode_ir \<Rightarrow> 'm ecode_ir outcome option" where
  "constant_folding M ir =
     (case and_then (ecode_uses ir) (\<lambda>uses.
           and_then (ecode_block_arg_inputs ir) (\<lambda>inputs.
           and_then (dependent_args (length (ec_values ir)) inputs) (\<lambda>dependents.
           and_then (fold_constants M (ec_constant_storage ir) (ec_operations ir) (replicate (length (ec_values ir)) None, []))
             (\<lambda>s. Inr (uses, inputs, dependents, s))))) of
        Inl p \<Rightarrow> Some (Inl p)
      | Inr (uses, inputs, dependents, s) \<Rightarrow>
          (case fold_loop M ir uses inputs dependents s of
             None \<Rightarrow> None
           | Some (Inl p) \<Rightarrow> Some (Inl p)
           | Some (Inr folded) \<Rightarrow> Some (fold_rewrite M ir folded)))"

section \<open>Evaluation depends on width and bits\<close>

text \<open>
  A vector also carries a sign flag, which equality ignores and which a constant operation does not
  keep. Evaluation reads it where it widens an operand.
\<close>

definition same_bits :: "bitvec \<Rightarrow> bitvec \<Rightarrow> bool" where
  "same_bits a b \<longleftrightarrow> wf_bv a \<and> wf_bv b \<and> bits a = bits b \<and> uval a = uval b"

lemma same_bits_refl: "wf_bv a \<Longrightarrow> same_bits a a"
  by (simp add: same_bits_def)

lemma same_bits_trans: "same_bits a b \<Longrightarrow> same_bits b c \<Longrightarrow> same_bits a c"
  by (simp add: same_bits_def)

lemma same_bits_sym: "same_bits a b \<Longrightarrow> same_bits b a"
  by (simp add: same_bits_def)

lemma same_sval: "same_bits a b \<Longrightarrow> sval a = sval b"
  using sval_shift [of a] sval_shift [of b] by (simp add: same_bits_def)

definition wide_enough :: "u32 \<Rightarrow> bitvec \<Rightarrow> bool" where
  "wide_enough w a \<longleftrightarrow> unat w \<le> nbits a"

lemma same_ival:
  assumes "same_bits a b" "wide_enough w a"
  shows "ival a mod 2 ^ unat w = ival b mod 2 ^ unat w"
proof -
  have pow: "(2 :: int) ^ unat w dvd 2 ^ nbits a" using assms(2) by (simp add: wide_enough_def le_imp_power_dvd)
  have "ival a mod 2 ^ nbits a = ival b mod 2 ^ nbits a"
    using ival_cong [of a] ival_cong [of b] assms(1) by (simp add: same_bits_def flip: nbits_width)
  then show ?thesis by (metis mod_mod_cancel [OF pow])
qed

lemma same_at_width:
  assumes "same_bits a b" "wide_enough w a"
  shows "unsigned_at w a = unsigned_at w b" "signed_at w a = signed_at w b"
proof -
  note eq = same_ival [OF assms]
  then show "unsigned_at w a = unsigned_at w b" by (simp add: unsigned_at_def)
  have "(ival a + c) mod 2 ^ unat w = (ival b + c) mod 2 ^ unat w" for c
    using eq by (metis mod_add_left_eq)
  then show "signed_at w a = signed_at w b" by (simp add: signed_at_def)
qed

text \<open>Which operands the evaluation of an operation may widen.\<close>

definition shift_op :: "il_scalar_op \<Rightarrow> bool" where
  "shift_op op \<longleftrightarrow> op \<in> {LeftShift, LogicalRightShift, ArithmeticRightShift}"

definition operands_wide :: "il_scalar_op \<Rightarrow> u32 \<Rightarrow> bitvec list \<Rightarrow> bool" where
  "operands_wide op w as \<longleftrightarrow>
     (op \<in> {Copy, Truncate, Not, Negate} \<or> arith_op op \<longrightarrow> (\<forall>a as'. as = a # as' \<longrightarrow> wide_enough w a)) \<and>
     (arith_op op \<longrightarrow> (\<forall>a b as'. as = a # b # as' \<longrightarrow>
        wide_enough w b \<or> shift_op op \<and> unat w \<le> 2 ^ (nbits b - 1)))"

lemma mod_pos_neg_shift: "- m \<le> i \<Longrightarrow> i < 0 \<Longrightarrow> i mod m = i + m" for i m :: int
  using mod_pos_pos_trivial [of "i + m" m] by simp

lemma widened_uval:
  assumes x: "wf_bv x" and less: "nbits x < unat w"
  shows "unsigned_at w x = int (uval x) \<or> 2 ^ (nbits x - 1) \<le> uval x \<and> int (uval x) \<le> unsigned_at w x"
proof -
  have u: "int (uval x) < 2 ^ nbits x" using wf_uval_less [OF x] by (metis of_nat_less_iff of_nat_numeral of_nat_power)
  have pow: "(2 :: int) ^ nbits x \<le> 2 ^ unat w" using less by (intro power_increasing) simp_all
  show ?thesis
  proof (cases "is_signed x \<and> 2 ^ (nbits x - 1) \<le> uval x")
    case True
    then have i: "ival x = int (uval x) - 2 ^ nbits x" by (simp add: ival_def sval_def)
    have "(int (uval x) - 2 ^ nbits x) mod 2 ^ unat w = int (uval x) - 2 ^ nbits x + 2 ^ unat w"
      using u pow by (intro mod_pos_neg_shift) linarith+
    then show ?thesis using True i pow by (simp add: unsigned_at_def)
  next
    case False
    then have "ival x = int (uval x)" by (auto simp: ival_def sval_def)
    moreover have "int (uval x) mod 2 ^ unat w = int (uval x)" using u pow by (intro mod_pos_pos_trivial) linarith+
    ultimately show ?thesis by (simp add: unsigned_at_def)
  qed
qed

lemma narrow_amount:
  assumes b: "same_bits b c" and n: "unat w \<le> 2 ^ (nbits b - 1)" "\<not> wide_enough w b"
  shows "unsigned_at w b = unsigned_at w c \<or> int (unat w) \<le> unsigned_at w b \<and> int (unat w) \<le> unsigned_at w c"
proof -
  have "nbits b < unat w" using n(2) by (simp add: wide_enough_def)
  moreover have large: "int (unat w) \<le> int (uval b)" if "2 ^ (nbits b - 1) \<le> uval b" using n(1) that by linarith
  define W U where "W = int (unat w)" and "U = int (uval b)"
  have "unsigned_at w x = U \<or> W \<le> U \<and> U \<le> unsigned_at w x" if "x \<in> {b, c}" for x
    using that widened_uval [of x w] calculation b large by (auto simp: same_bits_def W_def U_def simp del: of_nat_unat)
  from this [of b] this [of c] show ?thesis unfolding W_def [symmetric] by auto
qed

lemma div_neg_one: "- m \<le> i \<Longrightarrow> i < 0 \<Longrightarrow> i div m = - 1" for i m :: int
proof -
  assume "- m \<le> i" "i < 0"
  then have "(i + m) div m = 0" "m \<noteq> 0" by (simp_all add: div_pos_pos_trivial)
  moreover from this(2) have "(i + m) div m = i div m + 1" by (rule div_add_self2)
  ultimately show "i div m = - 1" by linarith
qed

lemma unat_le_nat: "int (unat w) \<le> k \<Longrightarrow> unat w \<le> nat k"
  using nat_mono [of "int (unat w)" k] by (simp only: nat_int)

lemma shift_amount_spec:
  assumes op: "shift_op op" and bc: "same_bits b c" and amount: "wide_enough w b \<or> unat w \<le> 2 ^ (nbits b - 1)" and w: "0 < unat w"
  shows "map_option (\<lambda>i. i mod 2 ^ unat w) (arith_spec op w a b) = map_option (\<lambda>i. i mod 2 ^ unat w) (arith_spec op w a c)"
proof (cases "unsigned_at w b = unsigned_at w c")
  case True
  then show ?thesis using op by (auto simp: shift_op_def)
next
  case False
  then have "\<not> wide_enough w b" using same_at_width(1) [OF bc] by blast
  then have big: "int (unat w) \<le> unsigned_at w b" "int (unat w) \<le> unsigned_at w c"
    using narrow_amount [OF bc] amount False by blast+
  have left: "(x * 2 ^ nat k) mod 2 ^ unat w = 0" if "int (unat w) \<le> k" for x k :: int
  proof -
    have "unat w \<le> nat k" by (rule unat_le_nat [OF that])
    then have "(2 :: int) ^ unat w dvd x * 2 ^ nat k" by (intro dvd_mult le_imp_power_dvd)
    then show ?thesis by simp
  qed
  have logical: "unsigned_at w a div 2 ^ nat k = 0" if "int (unat w) \<le> k" for k
  proof -
    have "unsigned_at w a < 2 ^ unat w" by (simp add: unsigned_at_def)
    also have "\<dots> \<le> 2 ^ nat k" using unat_le_nat [OF that] by (intro power_increasing) simp_all
    finally show ?thesis by (simp add: unsigned_at_def)
  qed
  have arithmetic: "signed_at w a div 2 ^ nat k = (if signed_at w a < 0 then - 1 else 0)" if "int (unat w) \<le> k" for k
  proof -
    have half: "(2 :: int) ^ (unat w - 1) \<le> 2 ^ unat w" by (intro power_increasing) simp_all
    have "0 \<le> (ival a + 2 ^ (unat w - 1)) mod 2 ^ unat w" "(ival a + 2 ^ (unat w - 1)) mod 2 ^ unat w < 2 ^ unat w" by simp_all
    moreover have "(0 :: int) \<le> 2 ^ (unat w - 1)" by simp
    ultimately have "- (2 ^ (unat w - 1)) \<le> signed_at w a" "signed_at w a < 2 ^ unat w"
      unfolding signed_at_def by linarith+
    moreover have "(2 :: int) ^ unat w \<le> 2 ^ nat k" using unat_le_nat [OF that] by (intro power_increasing) simp_all
    ultimately have "- (2 ^ nat k) \<le> signed_at w a" "signed_at w a < 2 ^ nat k" using half by linarith+
    then show ?thesis by (simp add: div_neg_one div_pos_pos_trivial)
  qed
  show ?thesis using op big left logical arithmetic by (auto simp: shift_op_def)
qed

lemma unary_spec_cong:
  assumes "unary_op op" "same_bits a b" "operands_wide op w (a # as)"
  shows "map_option (\<lambda>i. i mod 2 ^ unat w) (unary_spec op w a) = map_option (\<lambda>i. i mod 2 ^ unat w) (unary_spec op w b)"
proof -
  have "op \<in> {Copy, Truncate, Not, Negate} \<Longrightarrow> wide_enough w a" using assms(3) by (simp add: operands_wide_def)
  then show ?thesis using assms(1,2) same_ival [OF assms(2)] same_at_width(1) [OF assms(2)] same_sval [OF assms(2)]
    by (auto simp: unary_op_def same_bits_def)
qed

lemma arith_spec_cong:
  assumes op: "arith_op op" and a: "same_bits a a'" and b: "same_bits b b'" and wide: "operands_wide op w (a # b # as)" and w: "0 < unat w"
  shows "map_option (\<lambda>i. i mod 2 ^ unat w) (arith_spec op w a b) = map_option (\<lambda>i. i mod 2 ^ unat w) (arith_spec op w a' b')"
proof -
  have "wide_enough w a" using op wide by (simp add: operands_wide_def)
  note a' = same_at_width [OF a this]
  have first: "arith_spec op w a b = arith_spec op w a' b" by (cases op) (simp_all add: a')
  have amount: "wide_enough w b \<or> shift_op op \<and> unat w \<le> 2 ^ (nbits b - 1)" using op wide by (simp add: operands_wide_def)
  show ?thesis
  proof (cases "shift_op op")
    case True
    then show ?thesis using shift_amount_spec [OF True b _ w] amount first by auto
  next
    case False
    then have "wide_enough w b" using amount by blast
    note b' = same_at_width [OF b this]
    have "arith_spec op w a' b = arith_spec op w a' b'" using False by (cases op) (simp_all add: b' shift_op_def)
    then show ?thesis using first by simp
  qed
qed

lemma test_spec_cong: "same_bits a a' \<Longrightarrow> same_bits b b' \<Longrightarrow> test_spec op a b = test_spec op a' b'"
  using same_sval [of a a'] same_sval [of b b'] by (cases op) (auto simp: same_bits_def)

lemma yields_same:
  assumes "yields m w s" "yields m' w s'" "map_option (\<lambda>i. i mod 2 ^ unat w) s = map_option (\<lambda>i. i mod 2 ^ unat w) s'"
  shows "\<exists>r r'. m = Inr r \<and> m' = Inr r' \<and> rel_option same_bits r r' \<and> (\<forall>v. r = Some v \<longrightarrow> bits v = w)"
  using assms by (cases s; cases s') (auto simp: yields_def same_bits_def)

lemma evaluate_single:
  assumes M: "malachite_ok M" and w: "valid_bits w" and a: "wf_bv a" and op: "\<not> unary_op op"
  shows "evaluate M op w [a] =
    (if op = BoolAnd \<and> is_zero a then bool_value M False w
     else if op = BoolOr \<and> \<not> is_zero a then bool_value M True w else Inr None)"
proof -
  obtain c where "cast_operand M w [a] 0 = Inr (Some c)" using cast_operand_at [OF M a w] by (metis operand_Cons(2))
  moreover have "cast_operand M w [a] (Suc 0) = Inr None" by (simp add: cast_operand_def)
  ultimately show ?thesis using op by (cases op) (simp_all add: unary_op_def)
qed

lemma evaluate_cong:
  assumes M: "malachite_ok M" and w: "valid_bits w" and as: "list_all2 same_bits as bs" and wide: "operands_wide op w as"
  shows "\<exists>r r'. evaluate M op w as = Inr r \<and> evaluate M op w bs = Inr r' \<and> rel_option same_bits r r' \<and> (\<forall>v. r = Some v \<longrightarrow> bits v = w)"
proof -
  have pos: "0 < unat w" using w by (simp add: valid_bits_iff)
  have kinds: "unary_op op \<or> arith_op op \<or> test_op op" by (auto simp: test_op_def)
  consider "as = []" "bs = []" | a b where "as = [a]" "bs = [b]" "same_bits a b"
    | a a' b b' as' bs' where "as = a # b # as'" "bs = a' # b' # bs'" "same_bits a a'" "same_bits b b'"
    using as by (cases as; cases bs; cases "tl as"; cases "tl bs") auto
  then show ?thesis
  proof cases
    case 1
    then show ?thesis by (cases op) (simp_all add: cast_operand_def)
  next
    case 2
    then have wf: "wf_bv a" "wf_bv b" by (simp_all add: same_bits_def)
    show ?thesis
    proof (cases "unary_op op")
      case True
      then show ?thesis
        using yields_same [OF evaluate_unary [OF M w wf(1) True, of "[]"] evaluate_unary [OF M w wf(2) True, of "[]"]]
          unary_spec_cong [OF True 2(3), of w "[]"] wide 2 by simp
    next
      case False
      have "is_zero a = is_zero b" using wf 2(3) by (simp add: is_zero_iff same_bits_def)
      then have "evaluate M op w as = evaluate M op w bs" using evaluate_single [OF M w _ False] wf 2 by simp
      moreover have "evaluate M op w as = Inr None \<or> (\<exists>c. evaluate M op w as = bool_value M c w)"
        using evaluate_single [OF M w wf(1) False] 2 by auto
      ultimately show ?thesis using yields_same [OF yields_bool [OF M w] yields_bool [OF M w]] by auto
    qed
  next
    case 3
    then have wf: "wf_bv a" "wf_bv b" "wf_bv a'" "wf_bv b'" by (simp_all add: same_bits_def)
    from kinds show ?thesis
    proof (elim disjE)
      assume op: "unary_op op"
      then show ?thesis
        using yields_same [OF evaluate_unary [OF M w wf(1) op, of "b # as'"] evaluate_unary [OF M w wf(3) op, of "b' # bs'"]]
          unary_spec_cong [OF op 3(3), of w "b # as'"] wide 3 by simp
    next
      assume op: "arith_op op"
      then show ?thesis
        using yields_same [OF evaluate_arith [OF M w wf(1,2) op, of as'] evaluate_arith [OF M w wf(3,4) op, of bs']]
          arith_spec_cong [OF op 3(3,4), of w as'] wide pos 3 by simp
    next
      assume op: "test_op op"
      then show ?thesis
        using yields_same [OF evaluate_test [OF M w wf(1,2) op, of as'] evaluate_test [OF M w wf(3,4) op, of bs']]
          test_spec_cong [OF 3(3,4), of op] 3 by simp
    qed
  qed
qed

section \<open>The values an execution can compute\<close>

definition arg_of_entry :: "'m ecode_ir \<Rightarrow> nat \<Rightarrow> bool" where
  "arg_of_entry ir j \<longleftrightarrow> entry_block (ec_graph ir) = Inr (Some (eb_block (ec_block_args ir ! j)))"

text \<open>
  Every value an execution can give to an SSA value, in any iteration: constants are themselves, scalar
  operations compute from possible operands and are unconstrained where evaluation is undefined, other
  operations give anything of their width, block arguments take what the edges into the block pass, and
  anything at the entry.
\<close>

inductive possible :: "malachite \<Rightarrow> 'm ecode_ir \<Rightarrow> nat \<Rightarrow> bitvec \<Rightarrow> bool" for M ir where
  possible_constant: "i < length (ec_operations ir) \<Longrightarrow> op_opcode (ec_operations ir ! i) = EConstant \<Longrightarrow>
    contains_index (op_results (ec_operations ir ! i)) k \<Longrightarrow>
    ecode_constant M (ec_operations ir ! i) (ec_constant_storage ir) = Inr (Some c) \<Longrightarrow> possible M ir k c"
| possible_unknown: "i < length (ec_operations ir) \<Longrightarrow> op_opcode (ec_operations ir ! i) \<noteq> EConstant \<Longrightarrow>
    contains_index (op_results (ec_operations ir ! i)) k \<Longrightarrow>
    scalar_op_of (op_opcode (ec_operations ir ! i)) = None \<or> range_len (op_results (ec_operations ir ! i)) \<noteq> 1 \<Longrightarrow>
    wf_bv c \<Longrightarrow> bits c = op_width (ec_operations ir ! i) \<Longrightarrow> possible M ir k c"
| possible_scalar: "i < length (ec_operations ir) \<Longrightarrow> scalar_op_of (op_opcode (ec_operations ir ! i)) \<noteq> None \<Longrightarrow>
    contains_index (op_results (ec_operations ir ! i)) k \<Longrightarrow>
    length cs = length (operands_of ir (ec_operations ir ! i)) \<Longrightarrow>
    (\<And>n. n < length cs \<Longrightarrow> possible M ir (id_index (operands_of ir (ec_operations ir ! i) ! n)) (cs ! n)) \<Longrightarrow>
    ecode_evaluate M (op_opcode (ec_operations ir ! i)) (op_width (ec_operations ir ! i)) cs = Inr r \<Longrightarrow>
    r = None \<or> r = Some c \<Longrightarrow> wf_bv c \<Longrightarrow> bits c = op_width (ec_operations ir ! i) \<Longrightarrow> possible M ir k c"
| possible_input: "j < length (ec_block_args ir) \<Longrightarrow> v \<in> inputs_of ir j \<Longrightarrow> possible M ir (id_index v) c \<Longrightarrow>
    possible M ir (id_index (eb_value (ec_block_args ir ! j))) c"
| possible_initial: "j < length (ec_block_args ir) \<Longrightarrow> inputs_of ir j = {} \<or> arg_of_entry ir j \<Longrightarrow>
    wf_bv c \<Longrightarrow> bits c = eb_width (ec_block_args ir ! j) \<Longrightarrow> possible M ir (id_index (eb_value (ec_block_args ir ! j))) c"

text \<open>
  What folding relies on beyond the verifier: widths are those of bit vectors, an operand that is cast
  to the width of its operation is not widened (a shift amount may be narrow if it can express the
  width), edges pass values of the argument's width, no edge leads to the arguments of the entry, and
  the index of uses and the constants fit their offsets.
\<close>

definition widths_wide :: "il_scalar_op \<Rightarrow> u32 \<Rightarrow> u32 list \<Rightarrow> bool" where
  "widths_wide op w ns \<longleftrightarrow>
     (op \<in> {Copy, Truncate, Not, Negate} \<or> arith_op op \<longrightarrow> (case ns of [] \<Rightarrow> True | n # _ \<Rightarrow> w \<le> n)) \<and>
     (arith_op op \<longrightarrow> (case ns of _ # n # _ \<Rightarrow> w \<le> n \<or> shift_op op \<and> unat w \<le> 2 ^ (unat n - 1) | _ \<Rightarrow> True))"

definition vector_width :: "u32 \<Rightarrow> bool" where
  "vector_width w \<longleftrightarrow> valid_bits w \<and> 8 * width_bytes w < 2 ^ 31"

definition op_foldable :: "'m ecode_ir \<Rightarrow> ecode_op \<Rightarrow> bool" where
  "op_foldable ir op \<longleftrightarrow>
     (op_opcode op = EConstant \<longrightarrow> vector_width (op_width op)) \<and>
     (\<forall>sop. scalar_op_of (op_opcode op) = Some sop \<longrightarrow>
        vector_width (op_width op) \<and>
        widths_wide sop (op_width op) (map (\<lambda>v. ev_width (ec_values ir ! id_index v)) (operands_of ir op)))"

definition fold_ready :: "'m ecode_ir \<Rightarrow> bool" where
  "fold_ready ir \<longleftrightarrow>
     (\<forall>op \<in> set (ec_operations ir). op_foldable ir op) \<and>
     (\<forall>j < length (ec_block_args ir).
        (\<forall>v \<in> inputs_of ir j. ev_width (ec_values ir ! id_index v) = eb_width (ec_block_args ir ! j)) \<and>
        (arg_of_entry ir j \<longrightarrow> inputs_of ir j = {})) \<and>
     sum_list (map (\<lambda>op. length (operands_of ir op)) (ec_operations ir)) < 2 ^ 32 \<and> length (ec_constant_storage ir) < 2 ^ 63"

lemma node_id_inj: "i < 2 ^ 32 - 1 \<Longrightarrow> j < 2 ^ 32 - 1 \<Longrightarrow> node_id i = node_id j \<longleftrightarrow> i = j"
  by (metis index_node_id)

lemma only_op:
  assumes tables: "verify_tables ir = Inr ()" and i: "i < length (ec_operations ir)" "contains_index (op_results (ec_operations ir ! i)) k"
  shows "k < length (ec_values ir)" "ev_width (ec_values ir ! k) = op_width (ec_operations ir ! i)"
    and "i' < length (ec_operations ir) \<Longrightarrow> contains_index (op_results (ec_operations ir ! i')) k \<Longrightarrow> i' = i"
    and "j < length (ec_block_args ir) \<Longrightarrow> id_index (eb_value (ec_block_args ir ! j)) \<noteq> k"
proof -
  have typed: "op_typed ir i (ec_operations ir ! i)" using verify_tables_typed [OF tables] i(1) by (simp add: ecode_typed_def)
  then show k: "k < length (ec_values ir)" and "ev_width (ec_values ir ! k) = op_width (ec_operations ir ! i)"
    using i(2) by (auto simp: op_typed_def)
  note def = verify_tables_definers [OF tables k]
  have mem: "OpDef (node_id i) \<in> definers ir k" using i by (auto simp: definers_def)
  show "i' = i" if "i' < length (ec_operations ir)" "contains_index (op_results (ec_operations ir ! i')) k"
  proof -
    have "OpDef (node_id i') \<in> definers ir k" using that by (auto simp: definers_def)
    then have "node_id i' = node_id i" using mem def by (metis il_ssa_def.inject(2) singletonD)
    then show ?thesis using node_id_inj verified_sizes(2) [OF tables] i(1) that(1) by blast
  qed
  show "id_index (eb_value (ec_block_args ir ! j)) \<noteq> k" if "j < length (ec_block_args ir)"
  proof
    assume "id_index (eb_value (ec_block_args ir ! j)) = k"
    then have "BlockArgDef (node_id j) \<in> definers ir k" using that by (auto simp: definers_def)
    then show False using mem def by (metis il_ssa_def.distinct(1) singletonD)
  qed
qed

lemma only_arg:
  assumes tables: "verify_tables ir = Inr ()" and j: "j < length (ec_block_args ir)" "id_index (eb_value (ec_block_args ir ! j)) = k"
  shows "k < length (ec_values ir)" "ev_width (ec_values ir ! k) = eb_width (ec_block_args ir ! j)"
    and "j' < length (ec_block_args ir) \<Longrightarrow> id_index (eb_value (ec_block_args ir ! j')) = k \<Longrightarrow> j' = j"
    and "i < length (ec_operations ir) \<Longrightarrow> \<not> contains_index (op_results (ec_operations ir ! i)) k"
proof -
  show k: "k < length (ec_values ir)" and "ev_width (ec_values ir ! k) = eb_width (ec_block_args ir ! j)"
    using verify_tables_typed [OF tables] j by (auto simp: ecode_typed_def Let_def)
  note def = verify_tables_definers [OF tables k]
  have mem: "BlockArgDef (node_id j) \<in> definers ir k" using j by (auto simp: definers_def)
  show "j' = j" if "j' < length (ec_block_args ir)" "id_index (eb_value (ec_block_args ir ! j')) = k"
  proof -
    have "BlockArgDef (node_id j') \<in> definers ir k" using that by (auto simp: definers_def)
    then have "node_id j' = node_id j" using mem def by (metis il_ssa_def.inject(1) singletonD)
    then show ?thesis using node_id_inj verified_sizes(3) [OF tables] j(1) that(1) by blast
  qed
  show "\<not> contains_index (op_results (ec_operations ir ! i)) k" if "i < length (ec_operations ir)"
    using only_op(4) [OF tables that _ j(1)] j(2) by blast
qed

lemma from_le_bytes_ok:
  assumes M: "malachite_ok M" and len: "0 < length bs" "8 * length bs < 2 ^ 31"
  shows "\<exists>v. from_le_bytes M bs = Inr v \<and> wf_bv v"
proof -
  let ?n = "word_of_nat (length bs) * 8 :: u32"
  have n: "unat ?n = 8 * length bs" using len by (simp add: unat_word_ariths unat_word_of_nat)
  then have valid: "valid_bits ?n" using len by (simp add: valid_bits_iff)
  moreover have "mul_word (word_of_nat (length bs)) 8 = Inr ?n" using len by (simp add: mul_word_def unat_word_of_nat)
  moreover have "length bs = div_ceil (unat ?n) 8" by (simp add: n div_ceil_def)
  ultimately show ?thesis using n len by (simp add: from_le_bytes_def from_le_bytes_with_eq [OF M] valid_bits_iff)
qed

lemma mk_bv_typed:
  assumes "valid_bits w"
  shows "wf_bv (mk_bv (meta_of sg w) v)" "bits (mk_bv (meta_of sg w) v) = w"
    "wf_bv (mk_int (meta_of sg w) i)" "bits (mk_int (meta_of sg w) i) = w"
proof -
  have "width (meta_of sg w) = unat w" "0 < unat w" using assms by (simp_all add: valid_bits_iff)
  then show "wf_bv (mk_bv (meta_of sg w) v)" "bits (mk_bv (meta_of sg w) v) = w"
    "wf_bv (mk_int (meta_of sg w) i)" "bits (mk_int (meta_of sg w) i) = w"
    by (simp_all add: word_unat_eq_iff nbits_width width_def)
qed

lemma constant_ok:
  assumes M: "malachite_ok M" and op: "op_opcode op = EConstant" "vector_width (op_width op)"
    and stored: "64 < op_width op \<Longrightarrow> min (unat (op_immediate op) + width_bytes (op_width op)) (2 ^ 64 - 1) \<le> length storage"
      "length storage < 2 ^ 63"
  shows "\<exists>v. ecode_constant M op storage = Inr (Some v) \<and> wf_bv v \<and> bits v = op_width op"
proof (cases "op_width op \<le> 64")
  case True
  have "valid_bits (op_width op)" using op(2) by (simp add: vector_width_def)
  then show ?thesis using True op(1) by (simp add: ecode_constant_def from_u64_eq [OF M] mk_bv_typed valid_pos)
next
  case False
  let ?n = "width_bytes (op_width op)" and ?s = "unat (op_immediate op)"
  have w: "valid_bits (op_width op)" "8 * ?n < 2 ^ 31" using op(2) by (simp_all add: vector_width_def)
  have pos: "0 < ?n" using div_ceil_8(1) [of "unat (op_width op)"] valid_pos [OF w(1)] by (simp add: width_bytes_def)
  have fits: "?s + ?n \<le> length storage" using stored False by (simp add: not_le)
  then have bytes: "constant_bytes op storage = Some (sub_slice ?s (?s + ?n) storage)"
    using False op(1) stored(2) by (simp add: constant_bytes_def usize_checked_add_def)
  have "length (sub_slice ?s (?s + ?n) storage) = ?n" using fits by (simp add: sub_slice_def)
  then obtain b where "from_le_bytes M (sub_slice ?s (?s + ?n) storage) = Inr b" "wf_bv b"
    using from_le_bytes_ok [OF M, of "sub_slice ?s (?s + ?n) storage"] pos w(2) by auto
  then show ?thesis using False op(1) bytes w(1) mk_bv_typed(3,4) [OF w(1)]
    by (simp add: ecode_constant_def cast_eq [OF M] del: bits_mk_int wf_mk_int)
qed

lemma verified_constant:
  assumes M: "malachite_ok M" and tables: "verify_tables ir = Inr ()" and ready: "fold_ready ir"
    and i: "i < length (ec_operations ir)" "op_opcode (ec_operations ir ! i) = EConstant"
  shows "\<exists>v. ecode_constant M (ec_operations ir ! i) (ec_constant_storage ir) = Inr (Some v) \<and> wf_bv v \<and>
    bits v = op_width (ec_operations ir ! i)"
proof (rule constant_ok [OF M i(2)])
  have "op_foldable ir (ec_operations ir ! i)" using ready i(1) by (simp add: fold_ready_def)
  then show "vector_width (op_width (ec_operations ir ! i))" using i(2) by (simp add: op_foldable_def)
  show "length (ec_constant_storage ir) < 2 ^ 63" using ready by (simp add: fold_ready_def)
  have "verify_op ir i (ec_operations ir ! i) = Inr ()"
    using verify_tables_parts(7) [OF tables] i(1) by (auto simp: verify_ops_loop_iff)
  then have "verify_constant ir (ec_operations ir ! i) = Inr ()" by (auto simp: verify_op_def outcome_simps)
  then show "min (unat (op_immediate (ec_operations ir ! i)) + width_bytes (op_width (ec_operations ir ! i))) (2 ^ 64 - 1)
      \<le> length (ec_constant_storage ir)" if "64 < op_width (ec_operations ir ! i)"
    using that i(2) by (auto simp: verify_constant_def Let_def split: if_splits)
qed

lemma possible_typed:
  assumes M: "malachite_ok M" and tables: "verify_tables ir = Inr ()" and ready: "fold_ready ir" and "possible M ir k c"
  shows "wf_bv c \<and> bits c = ev_width (ec_values ir ! k)"
  using assms(4)
proof induction
  case (possible_constant i k c)
  then show ?case using verified_constant [OF M tables ready, of i] only_op(2) [OF tables] by auto
next
  case (possible_unknown i k c)
  then show ?case using only_op(2) [OF tables] by auto
next
  case (possible_scalar i k cs r c)
  then show ?case using only_op(2) [OF tables] by auto
next
  case (possible_input j v c)
  then show ?case using only_arg(2) [OF tables possible_input(1) refl] ready by (auto simp: fold_ready_def)
next
  case (possible_initial j c)
  then show ?case using only_arg(2) [OF tables possible_initial(1) refl] by simp
qed

text \<open>What the table of folded values says: a folded value is the only one the SSA value can have.\<close>

definition only_value :: "malachite \<Rightarrow> 'm ecode_ir \<Rightarrow> nat \<Rightarrow> bitvec \<Rightarrow> bool" where
  "only_value M ir k a \<longleftrightarrow>
     wf_bv a \<and> bits a = ev_width (ec_values ir ! k) \<and> vector_width (bits a) \<and> (\<exists>c. possible M ir k c) \<and> (\<forall>c. possible M ir k c \<longrightarrow> same_bits a c)"

lemma only_constant:
  assumes M: "malachite_ok M" and tables: "verify_tables ir = Inr ()" and ready: "fold_ready ir"
    and i: "i < length (ec_operations ir)" "op_opcode (ec_operations ir ! i) = EConstant"
    and k: "contains_index (op_results (ec_operations ir ! i)) k"
    and v: "ecode_constant M (ec_operations ir ! i) (ec_constant_storage ir) = Inr (Some v)"
  shows "only_value M ir k v"
proof -
  have typed: "wf_bv v" "bits v = ev_width (ec_values ir ! k)"
    using verified_constant [OF M tables ready i] v only_op(2) [OF tables i(1) k] by auto
  moreover have "op_foldable ir (ec_operations ir ! i)" using ready i(1) by (simp add: fold_ready_def)
  then have "vector_width (bits v)" using typed(2) i(2) only_op(2) [OF tables i(1) k] by (simp add: op_foldable_def)
  moreover have "c = v" if "possible M ir k c" for c
    using that
  proof cases
    case (possible_constant i')
    then show ?thesis using only_op(3) [OF tables i(1) k, of i'] v by simp
  next
    case (possible_unknown i')
    then show ?thesis using only_op(3) [OF tables i(1) k, of i'] i(2) by simp
  next
    case (possible_scalar i')
    then show ?thesis using only_op(3) [OF tables i(1) k, of i'] i(2) by (simp add: scalar_op_of_def)
  qed (use only_op(4) [OF tables i(1) k] in blast)+
  moreover have "possible M ir k v" by (rule possible_constant [OF i k v])
  ultimately show ?thesis unfolding only_value_def using same_bits_refl [OF typed(1)] by blast
qed

lemma widths_operands_wide:
  assumes "map bits as = ns" "widths_wide op w ns" shows "operands_wide op w as"
  using assms by (cases as; cases "tl as") (auto simp: operands_wide_def widths_wide_def wide_enough_def word_le_nat_alt split: list.splits)

lemma folded_evaluate_cong:
  assumes M: "malachite_ok M" and foldable: "op_foldable ir op"
    and as: "list_all2 (\<lambda>v a. only_value M ir (id_index v) a) (operands_of ir op) as"
    and eval: "ecode_evaluate M (op_opcode op) (op_width op) as = Inr (Some v)"
    and cs: "list_all2 (\<lambda>v c. possible M ir (id_index v) c) (operands_of ir op) cs"
  shows "\<exists>c. ecode_evaluate M (op_opcode op) (op_width op) cs = Inr (Some c) \<and> same_bits v c \<and> bits v = op_width op"
proof -
  obtain sop where sop: "scalar_op_of (op_opcode op) = Some sop" using eval by (auto simp: ecode_evaluate_def split: option.splits)
  have w: "valid_bits (op_width op)"
    and wide: "widths_wide sop (op_width op) (map (\<lambda>v. ev_width (ec_values ir ! id_index v)) (operands_of ir op))"
    using foldable sop by (auto simp: op_foldable_def vector_width_def)
  have "map bits as = map (\<lambda>v. ev_width (ec_values ir ! id_index v)) (operands_of ir op)"
    using as by (auto simp: list_all2_conv_all_nth only_value_def intro!: nth_equalityI)
  then have "operands_wide sop (op_width op) as" using wide by (rule widths_operands_wide)
  moreover have "list_all2 same_bits as cs" using as cs by (auto simp: list_all2_conv_all_nth only_value_def)
  ultimately show ?thesis
    using evaluate_cong [OF M w] eval sop by (fastforce simp: ecode_evaluate_def option_rel_Some1)
qed

lemma only_scalar:
  assumes M: "malachite_ok M" and tables: "verify_tables ir = Inr ()" and ready: "fold_ready ir"
    and i: "i < length (ec_operations ir)" and op: "op = ec_operations ir ! i" "op_opcode op \<noteq> EConstant" "range_len (op_results op) = 1"
    and k: "contains_index (op_results op) k"
    and as: "list_all2 (\<lambda>v a. only_value M ir (id_index v) a) (operands_of ir op) as"
    and eval: "ecode_evaluate M (op_opcode op) (op_width op) as = Inr (Some v)"
  shows "only_value M ir k v"
proof -
  have scalar: "scalar_op_of (op_opcode op) \<noteq> None" using eval by (auto simp: ecode_evaluate_def split: option.splits)
  have foldable: "op_foldable ir op" using ready i op(1) by (simp add: fold_ready_def)
  note cong = folded_evaluate_cong [OF M foldable as eval]
  have "\<forall>n < length (operands_of ir op). \<exists>c. possible M ir (id_index (operands_of ir op ! n)) c"
    using as by (auto simp: list_all2_conv_all_nth only_value_def)
  then obtain cs where cs: "length cs = length (operands_of ir op)"
    "\<forall>n < length cs. possible M ir (id_index (operands_of ir op ! n)) (cs ! n)" unfolding Skolem_list_nth by auto
  then obtain c where c: "ecode_evaluate M (op_opcode op) (op_width op) cs = Inr (Some c)" "same_bits v c" "bits v = op_width op"
    using cong [of cs] by (auto simp: list_all2_conv_all_nth)
  then have typed: "wf_bv v" "wf_bv c" "bits c = op_width op" by (simp_all add: same_bits_def)
  have "possible M ir k c"
    using i k cs scalar c(1) typed by (intro possible_scalar [of i ir k cs M "Some c"]) (simp_all add: op(1))
  moreover have "same_bits v c'" if "possible M ir k c'" for c'
    using that
  proof cases
    case (possible_constant i')
    then show ?thesis using only_op(3) [OF tables i, of k i'] k op by simp
  next
    case (possible_unknown i')
    then show ?thesis using only_op(3) [OF tables i, of k i'] k op scalar by simp
  next
    case (possible_scalar i' cs' r)
    then have "i' = i" using only_op(3) [OF tables i, of k i'] k op(1) by simp
    then show ?thesis using possible_scalar cong [of cs'] op(1) by (auto simp: list_all2_conv_all_nth)
  qed (use only_op(4) [OF tables i] k op(1) in blast)+
  ultimately show ?thesis
    unfolding only_value_def using typed(1) c(3) only_op(2) [OF tables i, of k] k op(1) foldable scalar by (auto simp: op_foldable_def)
qed

lemma only_input:
  assumes tables: "verify_tables ir = Inr ()" and ready: "fold_ready ir" and j: "j < length (ec_block_args ir)" "inputs_of ir j \<noteq> {}"
    and agree: "\<And>v. v \<in> inputs_of ir j \<Longrightarrow> \<exists>b. only_value M ir (id_index v) b \<and> same_bits a b"
  shows "only_value M ir (id_index (eb_value (ec_block_args ir ! j))) a"
proof -
  let ?k = "id_index (eb_value (ec_block_args ir ! j))"
  obtain v b where v: "v \<in> inputs_of ir j" "only_value M ir (id_index v) b" "same_bits a b" using j(2) agree by blast
  have initial: "\<not> arg_of_entry ir j" using ready j by (auto simp: fold_ready_def)
  have "bits a = ev_width (ec_values ir ! ?k)"
    using v ready j(1) only_arg(2) [OF tables j(1) refl] by (auto simp: only_value_def same_bits_def fold_ready_def)
  moreover have "\<exists>c. possible M ir ?k c" using v possible_input [OF j(1) v(1)] by (auto simp: only_value_def)
  moreover have "same_bits a c" if "possible M ir ?k c" for c
    using that
  proof cases
    case (possible_input j' v')
    then have "j' = j" using only_arg(3) [OF tables j(1) refl] by simp
    then obtain b' where "only_value M ir (id_index v') b'" "same_bits a b'" using possible_input agree by blast
    then show ?thesis using possible_input same_bits_trans by (auto simp: only_value_def)
  next
    case (possible_initial j')
    then have "j' = j" using only_arg(3) [OF tables j(1) refl] by simp
    then show ?thesis using possible_initial initial j(2) by simp
  qed (use only_arg(4) [OF tables j(1) refl] in blast)+
  moreover have "wf_bv a" "vector_width (bits a)" using v by (metis only_value_def same_bits_def)+
  ultimately show ?thesis by (simp add: only_value_def)
qed

section \<open>The work list of folding\<close>

definition fold_inv :: "malachite \<Rightarrow> 'm ecode_ir \<Rightarrow> fold_state \<Rightarrow> bool" where
  "fold_inv M ir s \<longleftrightarrow>
     length (fst s) = length (ec_values ir) \<and> set (snd s) \<subseteq> {..<length (ec_values ir)} \<and>
     (\<forall>k < length (ec_values ir). \<forall>a. fst s ! k = Some a \<longrightarrow> only_value M ir k a)"

definition fold_left :: "fold_state \<Rightarrow> nat" where
  "fold_left s = length (filter (\<lambda>x. x = None) (fst s)) + length (snd s)"

text \<open>What is folded stays, and what becomes folded is on the work list.\<close>

definition fold_grows :: "fold_state \<Rightarrow> fold_state \<Rightarrow> bool" where
  "fold_grows s s' \<longleftrightarrow>
     length (fst s') = length (fst s) \<and> set (snd s) \<subseteq> set (snd s') \<and>
     (\<forall>k < length (fst s). fst s' ! k \<noteq> fst s ! k \<longrightarrow> fst s ! k = None \<and> k \<in> set (snd s'))"

lemma fold_grows_refl: "fold_grows s s"
  by (simp add: fold_grows_def)

lemma fold_grows_trans: "fold_grows s s' \<Longrightarrow> fold_grows s' s'' \<Longrightarrow> fold_grows s s''"
  unfolding fold_grows_def by (metis subset_iff)

text \<open>A step keeps the invariant and does not add to what is left.\<close>

definition fold_step :: "malachite \<Rightarrow> 'm ecode_ir \<Rightarrow> fold_state \<Rightarrow> fold_state outcome \<Rightarrow> bool" where
  "fold_step M ir s m \<longleftrightarrow> (\<exists>s'. m = Inr s' \<and> fold_inv M ir s' \<and> fold_left s' = fold_left s \<and> fold_grows s s')"

lemma fold_step_refl: "fold_inv M ir s \<Longrightarrow> fold_step M ir s (Inr s)"
  by (simp add: fold_step_def fold_grows_refl)

lemma length_filter_None:
  assumes "k < length xs" "xs ! k = None"
  shows "Suc (length (filter (\<lambda>x. x = None) (xs[k := Some a]))) = length (filter (\<lambda>x. x = None) xs)"
proof -
  have "{i. i < length xs \<and> xs ! i = None} = insert k {i. i < length xs \<and> xs[k := Some a] ! i = None}"
    "k \<notin> {i. i < length xs \<and> xs[k := Some a] ! i = None}"
    using assms by (auto simp: nth_list_update)
  then show ?thesis by (simp add: length_filter_conv_card)
qed

lemma fold_put_inv:
  assumes "fold_inv M ir s" "k < length (ec_values ir)" "only_value M ir k v"
  shows "fold_put s k v = Inr ((fst s)[k := Some v], k # snd s)" "fold_inv M ir ((fst s)[k := Some v], k # snd s)"
  using assms by (auto simp: fold_put_def fold_inv_def put_at_def nth_list_update)

lemma fold_put_step:
  assumes "fold_inv M ir s" "k < length (ec_values ir)" "only_value M ir k v" "fst s ! k = None"
  shows "fold_step M ir s (fold_put s k v)"
  using fold_put_inv [OF assms(1-3)] length_filter_None [of k "fst s" v] assms
  by (auto simp: fold_step_def fold_left_def fold_inv_def fold_grows_def nth_list_update)

lemma single_result_index:
  assumes tables: "verify_tables ir = Inr ()" and i: "i < length (ec_operations ir)" "range_len (op_results (ec_operations ir ! i)) = 1"
  shows "contains_index (op_results (ec_operations ir ! i)) (start_of (op_results (ec_operations ir ! i)))"
proof -
  have "verify_op ir i (ec_operations ir ! i) = Inr ()" using verify_tables_parts(7) [OF tables] i(1) by (auto simp: verify_ops_loop_iff)
  then have "verify_bounds (op_results (ec_operations ir ! i)) (length (ec_values ir)) = Inr ()" by (auto simp: verify_op_def outcome_simps)
  from range_len_one [OF this i(2)] show ?thesis by (simp add: contains_index_def)
qed

lemma fold_constants_ok:
  assumes M: "malachite_ok M" and tables: "verify_tables ir = Inr ()" and ready: "fold_ready ir"
    and "set ops \<subseteq> set (ec_operations ir)" "fold_inv M ir s"
  shows "\<exists>s'. fold_constants M (ec_constant_storage ir) ops s = Inr s' \<and> fold_inv M ir s'"
  using assms(4,5)
proof (induction ops arbitrary: s)
  case (Cons op ops)
  show ?case
  proof (cases "range_len (op_results op) \<noteq> 1 \<or> op_opcode op \<noteq> EConstant")
    case True
    then show ?thesis using Cons by auto
  next
    case False
    obtain i where i: "i < length (ec_operations ir)" "op = ec_operations ir ! i" using Cons.prems(1) by (auto simp: in_set_conv_nth)
    obtain v where v: "ecode_constant M op (ec_constant_storage ir) = Inr (Some v)"
      using verified_constant [OF M tables ready i(1)] False i(2) by auto
    let ?k = "start_of (op_results op)"
    have k: "contains_index (op_results op) ?k" using single_result_index [OF tables i(1)] False i(2) by simp
    then have "only_value M ir ?k v" "?k < length (ec_values ir)"
      using only_constant [OF M tables ready i(1)] only_op(1) [OF tables i(1)] False i(2) v by auto
    from fold_put_inv [OF Cons.prems(2) this(2,1)] Cons.IH Cons.prems(1) show ?thesis using False v by auto
  qed
qed simp

lemma folded_operands_ok:
  assumes "\<forall>v \<in> set vs. id_index v < length folded"
  shows "\<exists>as. folded_operands folded vs = Inr as \<and> (length as = length vs \<longrightarrow> list_all2 (\<lambda>v a. folded ! id_index v = Some a) vs as) \<and>
    length as \<le> length vs"
  using assms
proof (induction vs)
  case (Cons v vs)
  then obtain as where "folded_operands folded vs = Inr as" "length as = length vs \<longrightarrow> list_all2 (\<lambda>v a. folded ! id_index v = Some a) vs as"
    "length as \<le> length vs" by auto
  then show ?case using Cons.prems by (cases "folded ! id_index v") (auto simp: get_at_def)
qed simp

lemma fold_use_ok:
  assumes M: "malachite_ok M" and tables: "verify_tables ir = Inr ()" and ready: "fold_ready ir"
    and user: "id_index (use_user used) < length (ec_operations ir)" and inv: "fold_inv M ir s"
  shows "fold_step M ir s (fold_use M ir used s)"
proof -
  let ?i = "id_index (use_user used)" and ?op = "ec_operations ir ! id_index (use_user used)"
  let ?k = "start_of (op_results ?op)" and ?vs = "operands_of ir ?op"
  have op: "get_at (ec_operations ir) ?i = Inr ?op" using user by (simp add: get_at_def)
  show ?thesis
  proof (cases "range_len (op_results ?op) = 1 \<and> op_opcode ?op \<noteq> EConstant")
    case False
    then show ?thesis using op fold_step_refl [OF inv] by (auto simp: fold_use_def)
  next
    case True
    have k: "contains_index (op_results ?op) ?k" using single_result_index [OF tables user] True by simp
    then have bound: "?k < length (ec_values ir)" by (rule only_op(1) [OF tables user])
    then have known: "get_at (fst s) ?k = Inr (fst s ! ?k)" using inv by (simp add: get_at_def fold_inv_def)
    have "\<forall>v \<in> set ?vs. id_index v < length (fst s)" using verified_operands(2) [OF tables user] inv by (simp add: fold_inv_def)
    then obtain as where as: "folded_operands (fst s) ?vs = Inr as"
      "length as = length ?vs \<longrightarrow> list_all2 (\<lambda>v a. fst s ! id_index v = Some a) ?vs as" using folded_operands_ok by blast
    have only: "list_all2 (\<lambda>v a. only_value M ir (id_index v) a) ?vs as" if "length as = length ?vs"
      using as(2) that inv verified_operands(2) [OF tables user] by (auto simp: list_all2_conv_all_nth fold_inv_def)
    have "\<exists>r. ecode_evaluate M (op_opcode ?op) (op_width ?op) as = Inr r" if "length as = length ?vs"
    proof (cases "scalar_op_of (op_opcode ?op)")
      case (Some sop)
      then have "valid_bits (op_width ?op)" using ready user by (auto simp: fold_ready_def op_foldable_def vector_width_def)
      moreover have "list_all wf_bv as" using only [OF that] by (auto simp: list_all_length list_all2_conv_all_nth only_value_def)
      ultimately show ?thesis using evaluate_returns [OF M] Some by (simp add: ecode_evaluate_def)
    qed (simp add: ecode_evaluate_def)
    then consider "length as \<noteq> length ?vs" | "ecode_evaluate M (op_opcode ?op) (op_width ?op) as = Inr None"
      | v where "length as = length ?vs" "ecode_evaluate M (op_opcode ?op) (op_width ?op) as = Inr (Some v)" by (metis not_None_eq)
    then show ?thesis
    proof cases
      case (3 v)
      have "only_value M ir ?k v" using True only [OF 3(1)] 3(2) by (intro only_scalar [OF M tables ready user refl _ _ k]) simp_all
      then show ?thesis
        using fold_put_step [OF inv bound] fold_step_refl [OF inv] op True known as(1) 3 verified_operands(1) [OF tables user]
        by (auto simp: fold_use_def)
    qed (use fold_step_refl [OF inv] op True known as(1) verified_operands(1) [OF tables user] in \<open>auto simp: fold_use_def\<close>)
  qed
qed

lemma inputs_agree_ok:
  assumes "\<forall>v \<in> set vs. id_index v < length folded"
  shows "\<exists>b. inputs_agree folded a vs = Inr b \<and> (b \<longrightarrow> (\<forall>v \<in> set vs. \<exists>c. folded ! id_index v = Some c \<and> eq_bv c a))"
  using assms
proof (induction vs)
  case (Cons v vs)
  then show ?case by (cases "folded ! id_index v") (auto simp: get_at_def)
qed auto

text \<open>The inputs of every argument, as the analysis stores them.\<close>

definition inputs_stored :: "'m ecode_ir \<Rightarrow> block_arg_inputs \<Rightarrow> bool" where
  "inputs_stored ir ai \<longleftrightarrow>
     (\<forall>j < length (ec_block_args ir). \<exists>vs. inputs_for ai (eb_value (ec_block_args ir ! j)) = Inr (Some vs) \<and> set vs = inputs_of ir j)"

lemma inputs_for_cong: "id_index v = id_index v' \<Longrightarrow> inputs_for ai v = inputs_for ai v'"
  by (simp add: inputs_for_def)

lemma fold_arg_ok:
  assumes tables: "verify_tables ir = Inr ()" and ready: "fold_ready ir" and ai: "inputs_stored ir ai"
    and j: "j < length (ec_block_args ir)" "id_index arg = id_index (eb_value (ec_block_args ir ! j))" and inv: "fold_inv M ir s"
  shows "fold_step M ir s (fold_arg ai arg s)"
proof -
  have bound: "id_index arg < length (ec_values ir)" using only_arg(1) [OF tables j(1) refl] j(2) by simp
  then have known: "get_at (fst s) (id_index arg) = Inr (fst s ! id_index arg)" using inv by (simp add: get_at_def fold_inv_def)
  obtain vs where vs: "inputs_for ai arg = Inr (Some vs)" "set vs = inputs_of ir j"
    using ai j(1) inputs_for_cong [OF j(2)] by (auto simp: inputs_stored_def)
  have range: "id_index v < length (ec_values ir)" "id_index v < length (fst s)" if "v \<in> set vs" for v
    using that vs(2) inputs_of_values [OF tables] inv by (auto simp: fold_inv_def)
  show ?thesis
  proof (cases "fst s ! id_index arg")
    case (Some a)
    then show ?thesis using known fold_step_refl [OF inv] by (simp add: fold_arg_def)
  next
    case None
    show ?thesis
    proof (cases vs)
      case Nil
      then show ?thesis using known None vs(1) fold_step_refl [OF inv] by (simp add: fold_arg_def expect_def)
    next
      case (Cons first rest)
      then have head: "get_at (fst s) (id_index first) = Inr (fst s ! id_index first)" using range by (simp add: get_at_def)
      show ?thesis
      proof (cases "fst s ! id_index first")
        case None: None
        then show ?thesis using known \<open>fst s ! id_index arg = None\<close> vs(1) Cons head fold_step_refl [OF inv]
          by (simp add: fold_arg_def expect_def)
      next
        case (Some a)
        obtain b where b: "inputs_agree (fst s) a vs = Inr b" "b \<longrightarrow> (\<forall>v \<in> set vs. \<exists>c. fst s ! id_index v = Some c \<and> eq_bv c a)"
          using inputs_agree_ok range by blast
        have a: "wf_bv a" using Some range(1) [of first] Cons inv by (auto simp: fold_inv_def only_value_def)
        have "\<exists>c. only_value M ir (id_index v) c \<and> same_bits a c" if prem: "b" "v \<in> inputs_of ir j" for v
        proof -
          obtain c where c: "fst s ! id_index v = Some c" "eq_bv c a" using b(2) prem vs(2) by blast
          then have "only_value M ir (id_index v) c" using range(1) prem vs(2) inv by (auto simp: fold_inv_def)
          moreover from this have "wf_bv c" by (simp add: only_value_def)
          then have "same_bits a c" using c(2) a eq_bv_iff [of c a] by (simp add: same_bits_def)
          ultimately show ?thesis by blast
        qed
        then have "only_value M ir (id_index arg) a" if "b"
          using that only_input [OF tables ready j(1), of M a] vs(2) Cons j(2) by auto
        then show ?thesis
          using fold_put_step [OF inv bound] fold_step_refl [OF inv] known None vs(1) Cons head Some b(1)
          by (auto simp: fold_arg_def expect_def)
      qed
    qed
  qed
qed

lemma fold_ok_step:
  assumes step: "\<And>x s. x \<in> set xs \<Longrightarrow> fold_inv M ir s \<Longrightarrow> fold_step M ir s (f x s)" and inv: "fold_inv M ir s"
  shows "fold_step M ir s (fold_ok f xs s)"
  using assms
proof (induction xs arbitrary: s)
  case Nil
  then show ?case by (simp add: fold_step_refl)
next
  case (Cons x xs)
  have "fold_step M ir s (f x s)" using Cons.prems by simp
  then obtain s' where s': "f x s = Inr s'" "fold_inv M ir s'" "fold_left s' = fold_left s" "fold_grows s s'"
    unfolding fold_step_def by blast
  have "fold_step M ir s' (fold_ok f xs s')" using Cons.prems(1) by (intro Cons.IH s'(2)) simp
  then show ?case using s' fold_grows_trans [OF s'(4)] by (auto simp: fold_step_def)
qed

definition uses_stored :: "'m ecode_ir \<Rightarrow> ecode_use il_csr \<Rightarrow> bool" where
  "uses_stored ir uses \<longleftrightarrow>
     (\<forall>v. \<exists>us. uses_for uses v = Inr us \<and> (\<forall>u \<in> set us. id_index (use_user u) < length (ec_operations ir)) \<and>
        (\<forall>i < length (ec_operations ir). \<forall>v' \<in> set (operands_of ir (ec_operations ir ! i)).
           id_index v' = id_index v \<longrightarrow> i \<in> (\<lambda>u. id_index (use_user u)) ` set us))"

definition dependents_stored :: "'m ecode_ir \<Rightarrow> il_value_id il_csr \<Rightarrow> bool" where
  "dependents_stored ir dependents \<longleftrightarrow>
     (\<forall>k < length (ec_values ir). \<exists>args. csr_row dependents k = Inr args \<and>
        (\<forall>arg \<in> set args. \<exists>j < length (ec_block_args ir). id_index arg = id_index (eb_value (ec_block_args ir ! j))))"

section \<open>Nothing foldable is left\<close>

text \<open>An operation that folding would still replace, and where the work list has to reach it.\<close>

definition unsettled :: "malachite \<Rightarrow> 'm ecode_ir \<Rightarrow> bitvec option list \<Rightarrow> nat \<Rightarrow> bool" where
  "unsettled M ir folded i \<longleftrightarrow>
     (let op = ec_operations ir ! i in
      range_len (op_results op) = 1 \<and> op_opcode op \<noteq> EConstant \<and> folded ! start_of (op_results op) = None \<and>
      (\<exists>as v. list_all2 (\<lambda>x a. folded ! id_index x = Some a) (operands_of ir op) as \<and>
         ecode_evaluate M (op_opcode op) (op_width op) as = Inr (Some v)))"

definition queued :: "malachite \<Rightarrow> 'm ecode_ir \<Rightarrow> fold_state \<Rightarrow> nat set \<Rightarrow> bool" where
  "queued M ir s P \<longleftrightarrow>
     (\<forall>i < length (ec_operations ir). unsettled M ir (fst s) i \<longrightarrow>
        i \<in> P \<or> (\<exists>x \<in> set (operands_of ir (ec_operations ir ! i)). id_index x \<in> set (snd s)))"

lemma queued_grows:
  assumes tables: "verify_tables ir = Inr ()" and grows: "fold_grows s s'" and len: "length (fst s) = length (ec_values ir)"
    and queued: "queued M ir s P"
  shows "queued M ir s' P"
  unfolding queued_def
proof (intro allI impI)
  fix i assume i: "i < length (ec_operations ir)" and un: "unsettled M ir (fst s') i"
  let ?op = "ec_operations ir ! i"
  show "i \<in> P \<or> (\<exists>x \<in> set (operands_of ir ?op). id_index x \<in> set (snd s'))"
  proof (cases "\<exists>x \<in> set (operands_of ir ?op). fst s' ! id_index x \<noteq> fst s ! id_index x")
    case True
    then show ?thesis using grows verified_operands(2) [OF tables i] len by (auto simp: fold_grows_def)
  next
    case False
    have one: "range_len (op_results ?op) = 1" using un by (simp add: unsettled_def Let_def)
    have "start_of (op_results ?op) < length (fst s)"
      using only_op(1) [OF tables i single_result_index [OF tables i one]] len by simp
    then have "fst s ! start_of (op_results ?op) = None"
      using grows un unfolding fold_grows_def unsettled_def Let_def by metis
    moreover have "list_all2 (\<lambda>x a. fst s ! id_index x = Some a) (operands_of ir ?op) as"
      if "list_all2 (\<lambda>x a. fst s' ! id_index x = Some a) (operands_of ir ?op) as" for as
      using that False by (auto simp: list_all2_conv_all_nth)
    ultimately have "unsettled M ir (fst s) i" using un unfolding unsettled_def Let_def by blast
    then show ?thesis using queued i grows by (auto simp: queued_def fold_grows_def)
  qed
qed

lemma folded_operands_all:
  "\<forall>x \<in> set xs. id_index x < length folded \<Longrightarrow> list_all2 (\<lambda>x a. folded ! id_index x = Some a) xs as \<Longrightarrow>
     folded_operands folded xs = Inr as"
  by (induction xs arbitrary: as) (auto simp: list_all2_Cons1 get_at_def)

lemma fold_use_settles:
  assumes tables: "verify_tables ir = Inr ()" and user: "id_index (use_user used) < length (ec_operations ir)"
    and len: "length (fst s) = length (ec_values ir)" and used: "fold_use M ir used s = Inr s'"
  shows "\<not> unsettled M ir (fst s') (id_index (use_user used))"
proof
  let ?op = "ec_operations ir ! id_index (use_user used)"
  let ?k = "start_of (op_results ?op)"
  assume "unsettled M ir (fst s') (id_index (use_user used))"
  then obtain as v where un: "range_len (op_results ?op) = 1" "op_opcode ?op \<noteq> EConstant" "fst s' ! ?k = None"
    "list_all2 (\<lambda>x a. fst s' ! id_index x = Some a) (operands_of ir ?op) as"
    "ecode_evaluate M (op_opcode ?op) (op_width ?op) as = Inr (Some v)" unfolding unsettled_def Let_def by blast
  have k: "?k < length (fst s)" using only_op(1) [OF tables user single_result_index [OF tables user un(1)]] len by simp
  note ops = verified_operands [OF tables user]
  have "s' = s"
    using used un(1-3) k user ops(1)
    by (auto simp: fold_use_def get_at_def fold_put_def put_at_def outcome_simps split: if_splits option.splits)
  then show False
    using used un k user ops len folded_operands_all [of "operands_of ir ?op" "fst s" as] list_all2_lengthD [OF un(4)]
    by (auto simp: fold_use_def get_at_def fold_put_def put_at_def prod_eq_iff)
qed

lemma fold_uses_queued:
  assumes M: "malachite_ok M" and tables: "verify_tables ir = Inr ()" and ready: "fold_ready ir"
    and "\<forall>u \<in> set us. id_index (use_user u) < length (ec_operations ir)" "fold_inv M ir s"
      "queued M ir s ((\<lambda>u. id_index (use_user u)) ` set us)" "fold_ok (fold_use M ir) us s = Inr s'"
  shows "queued M ir s' {}"
  using assms(4-)
proof (induction us arbitrary: s)
  case (Cons u us)
  have user: "id_index (use_user u) < length (ec_operations ir)" using Cons.prems(1) by simp
  from fold_use_ok [OF M tables ready user Cons.prems(2)] obtain s1 where
    s1: "fold_use M ir u s = Inr s1" "fold_inv M ir s1" "fold_grows s s1" by (auto simp: fold_step_def)
  have len: "length (fst s) = length (ec_values ir)" using Cons.prems(2) by (simp add: fold_inv_def)
  have "queued M ir s1 ((\<lambda>u. id_index (use_user u)) ` set (u # us))" by (rule queued_grows [OF tables s1(3) len Cons.prems(3)])
  then have "queued M ir s1 ((\<lambda>u. id_index (use_user u)) ` set us)"
    using fold_use_settles [OF tables user len s1(1)] by (auto simp: queued_def)
  then show ?case using Cons.IH [OF _ s1(2)] Cons.prems(1,4) s1(1) by simp
qed simp

lemma fold_value_ok:
  assumes M: "malachite_ok M" and tables: "verify_tables ir = Inr ()" and ready: "fold_ready ir"
    and stored: "uses_stored ir uses" "inputs_stored ir ai" "dependents_stored ir deps"
    and k: "k < length (ec_values ir)" and inv: "fold_inv M ir s"
  shows "fold_step M ir s (fold_value M ir uses ai deps k s)"
    and "queued M ir (fst s, k # snd s) {} \<Longrightarrow> fold_value M ir uses ai deps k s = Inr s'' \<Longrightarrow> queued M ir s'' {}"
proof -
  have id: "or_panic (try_from_index k) = Inr (node_id k)"
    using try_from_index_node [OF verified_sizes(1) [OF tables k]] by (simp add: or_panic_def)
  obtain us where us: "uses_for uses (node_id k) = Inr us" "\<forall>u \<in> set us. id_index (use_user u) < length (ec_operations ir)"
    "\<forall>i < length (ec_operations ir). \<forall>x \<in> set (operands_of ir (ec_operations ir ! i)).
       id_index x = k \<longrightarrow> i \<in> (\<lambda>u. id_index (use_user u)) ` set us"
    using stored(1) index_node_id [OF verified_sizes(1) [OF tables k]] unfolding uses_stored_def by metis
  obtain args where args: "csr_row deps k = Inr args"
    "\<forall>arg \<in> set args. \<exists>j < length (ec_block_args ir). id_index arg = id_index (eb_value (ec_block_args ir ! j))"
    using stored(3) k by (auto simp: dependents_stored_def)
  have "fold_step M ir s (fold_ok (fold_use M ir) us s)"
    using us(2) by (intro fold_ok_step inv fold_use_ok [OF M tables ready]) auto
  then obtain s' where s': "fold_ok (fold_use M ir) us s = Inr s'" "fold_inv M ir s'" "fold_left s' = fold_left s" "fold_grows s s'"
    by (auto simp: fold_step_def)
  have args_step: "fold_step M ir s' (fold_ok (fold_arg ai) args s')"
    using args(2) fold_arg_ok [OF tables ready stored(2)] by (intro fold_ok_step s'(2)) blast
  have run: "fold_value M ir uses ai deps k s = fold_ok (fold_arg ai) args s'"
    using id us(1) s'(1) args(1) by (simp add: fold_value_def)
  show "fold_step M ir s (fold_value M ir uses ai deps k s)"
    unfolding run using args_step s'(3) fold_grows_trans [OF s'(4)] by (auto simp: fold_step_def)
  assume "queued M ir (fst s, k # snd s) {}" and run_value: "fold_value M ir uses ai deps k s = Inr s''"
  then have "queued M ir s ((\<lambda>u. id_index (use_user u)) ` set us)" using us(3) unfolding queued_def by fastforce
  then have "queued M ir s' {}" by (rule fold_uses_queued [OF M tables ready us(2) inv _ s'(1)])
  moreover have "fold_grows s' s''" using args_step run_value unfolding run by (simp add: fold_step_def)
  moreover have "length (fst s') = length (ec_values ir)" using s'(2) by (simp add: fold_inv_def)
  ultimately show "queued M ir s'' {}" using queued_grows [OF tables] by blast
qed

lemma fold_loop_ok:
  assumes M: "malachite_ok M" and tables: "verify_tables ir = Inr ()" and ready: "fold_ready ir"
    and stored: "uses_stored ir uses" "inputs_stored ir ai" "dependents_stored ir deps" and "fold_inv M ir s" "queued M ir s {}"
  shows "\<exists>folded. fold_loop M ir uses ai deps s = Some (Inr folded) \<and> fold_inv M ir (folded, []) \<and>
    (\<forall>i < length (ec_operations ir). \<not> unsettled M ir folded i) \<and>
    (\<forall>k < length (ec_values ir). fst s ! k \<noteq> None \<longrightarrow> folded ! k \<noteq> None)"
  using assms(7,8)
proof (induction "fold_left s" arbitrary: s rule: less_induct)
  case less
  show ?case
  proof (cases "snd s")
    case Nil
    then show ?thesis using less.prems by (cases s) (simp add: fold_loop.simps queued_def)
  next
    case (Cons k wl)
    then have k: "k < length (ec_values ir)" and inv: "fold_inv M ir (fst s, wl)" and left: "fold_left (fst s, wl) < fold_left s"
      using less.prems(1) by (auto simp: fold_inv_def fold_left_def)
    note step = fold_value_ok [OF M tables ready stored k inv]
    from step(1) obtain s' where s': "fold_value M ir uses ai deps k (fst s, wl) = Inr s'" "fold_inv M ir s'"
      "fold_left s' < fold_left s" "fold_grows (fst s, wl) s'" using left by (auto simp: fold_step_def)
    have "queued M ir s' {}" using step(2) [OF _ s'(1)] less.prems(2) Cons by (cases s) simp
    then obtain folded where "fold_loop M ir uses ai deps s' = Some (Inr folded)" "fold_inv M ir (folded, [])"
      "\<forall>i < length (ec_operations ir). \<not> unsettled M ir folded i"
      "\<forall>k < length (ec_values ir). fst s' ! k \<noteq> None \<longrightarrow> folded ! k \<noteq> None" using less.hyps [OF s'(3,2)] by blast
    moreover have "fst s' ! k \<noteq> None" if "k < length (ec_values ir)" "fst s ! k \<noteq> None" for k
    proof -
      have "k < length (fst s)" using that(1) less.prems(1) by (simp add: fold_inv_def)
      then show ?thesis using s'(4) that(2) by (cases "fst s' ! k = fst s ! k") (auto simp: fold_grows_def)
    qed
    ultimately show ?thesis using s'(1) Cons by (simp add: fold_loop.simps [of M ir uses ai deps s])
  qed
qed

text \<open>The start: every constant operation is folded, and everything folded is on the work list.\<close>

definition known_queued :: "fold_state \<Rightarrow> bool" where
  "known_queued s \<longleftrightarrow> (\<forall>k < length (fst s). fst s ! k \<noteq> None \<longrightarrow> k \<in> set (snd s))"

definition known_kept :: "fold_state \<Rightarrow> fold_state \<Rightarrow> bool" where
  "known_kept s s' \<longleftrightarrow>
     length (fst s') = length (fst s) \<and> (\<forall>k < length (fst s). fst s ! k \<noteq> None \<longrightarrow> fst s' ! k \<noteq> None)"

lemma fold_put_known:
  assumes "fold_put s k v = Inr s'" "known_queued s"
  shows "known_queued s'" "known_kept s s'" "k < length (fst s) \<and> fst s' ! k \<noteq> None"
  using assms by (auto simp: fold_put_def put_at_def outcome_simps known_queued_def known_kept_def nth_list_update split: if_splits)

lemma fold_constants_known:
  assumes "fold_constants M storage ops s = Inr s'" "known_queued s"
  shows "known_queued s' \<and> known_kept s s' \<and>
    (\<forall>op \<in> set ops. op_opcode op = EConstant \<and> range_len (op_results op) = 1 \<and> ecode_constant M op storage \<noteq> Inr None \<longrightarrow>
      fst s' ! start_of (op_results op) \<noteq> None)"
  using assms
proof (induction ops arbitrary: s)
  case (Cons op ops)
  show ?case
  proof (cases "range_len (op_results op) \<noteq> 1 \<or> op_opcode op \<noteq> EConstant \<or> ecode_constant M op storage = Inr None")
    case True
    then have "fold_constants M storage ops s = Inr s'" using Cons.prems(1) by (auto split: if_splits)
    from Cons.IH [OF this Cons.prems(2)] True show ?thesis by auto
  next
    case False
    then obtain v s1 where "fold_put s (start_of (op_results op)) v = Inr s1" and run: "fold_constants M storage ops s1 = Inr s'"
      using Cons.prems(1) by (auto simp: outcome_simps split: option.splits)
    note put = fold_put_known [OF this(1) Cons.prems(2)]
    from Cons.IH [OF run put(1)] put(2,3) show ?thesis by (auto simp: known_kept_def)
  qed
qed (simp add: known_kept_def)

lemma known_queued_all:
  assumes tables: "verify_tables ir = Inr ()" and M: "malachite_ok M" and len: "length (fst s) = length (ec_values ir)" and "known_queued s"
  shows "queued M ir s {}"
  unfolding queued_def
proof (intro allI impI)
  fix i assume i: "i < length (ec_operations ir)" and un: "unsettled M ir (fst s) i"
  let ?op = "ec_operations ir ! i"
  obtain as v where as: "list_all2 (\<lambda>x a. fst s ! id_index x = Some a) (operands_of ir ?op) as"
    "ecode_evaluate M (op_opcode ?op) (op_width ?op) as = Inr (Some v)" using un unfolding unsettled_def Let_def by blast
  have "evaluate M sop w [] \<noteq> Inr (Some v)" for sop w by (cases sop) (simp_all add: cast_operand_def)
  then have "operands_of ir ?op \<noteq> []" using as by (auto simp: ecode_evaluate_def split: option.splits)
  then obtain x xs where x: "operands_of ir ?op = x # xs" by (cases "operands_of ir ?op") auto
  then have "fst s ! id_index x \<noteq> None" using as(1) by (auto simp: list_all2_Cons1)
  then show "i \<in> {} \<or> (\<exists>x \<in> set (operands_of ir ?op). id_index x \<in> set (snd s))"
    using assms(4) verified_operands(2) [OF tables i, of x] x len by (auto simp: known_queued_def)
qed

lemma csr_from_entries_holds: "csr_from_entries n es = Inr c \<Longrightarrow> csr_holds n es c"
  using csr_try_from_entries_inv [of n es c] csr_try_from_entries_ok [of es n] by (auto simp: csr_from_entries_def outcome_simps)

definition use_rows :: "'m ecode_ir \<Rightarrow> (nat \<times> ecode_use) list" where
  "use_rows ir =
     concat (map (\<lambda>(i, vs). map (\<lambda>(n, v). (id_index v, ecode_use_new (node_id i) n)) (List.enumerate 0 vs))
       (List.enumerate 0 (map (operands_of ir) (ec_operations ir))))"

lemma length_use_rows: "length (use_rows ir) = sum_list (map (\<lambda>op. length (operands_of ir op)) (ec_operations ir))"
proof -
  have "(\<Sum>x\<leftarrow>List.enumerate i xs. length (snd x)) = sum_list (map length xs)" for i and xs :: "il_value_id list list"
    by (induction xs arbitrary: i) simp_all
  then show ?thesis by (simp add: use_rows_def length_concat comp_def case_prod_beta)
qed

lemma uses_stored_ok:
  assumes tables: "verify_tables ir = Inr ()" and ready: "fold_ready ir"
  shows "\<exists>uses. ecode_uses ir = Inr uses \<and> uses_stored ir uses"
proof -
  let ?n = "length (ec_values ir)" and ?vss = "map (operands_of ir) (ec_operations ir)"
  have operands: "collect_ok (op_operands_for ir) (ec_operations ir) = Inr ?vss"
    by (rule collect_ok_all) (auto simp: in_set_conv_nth verified_operands(1) [OF tables])
  have "use_entries ?vss ecode_use_new = Inr (use_rows ir)"
    unfolding use_entries_def use_rows_def
    by (subst collect_ok_all [where g = "\<lambda>(i, vs). map (\<lambda>(n, v). (id_index v, ecode_use_new (node_id i) n)) (List.enumerate 0 vs)"])
      (auto simp: in_set_enumerate_eq or_panic_def try_from_index_node [OF verified_sizes(2) [OF tables]])
  moreover have rows: "k < ?n \<and> id_index (use_user u) < length (ec_operations ir)" if "(k, u) \<in> set (use_rows ir)" for k u
    using that verified_operands(2) [OF tables] verified_sizes(2) [OF tables]
    by (auto simp: use_rows_def set_enumerate ecode_use_new_def index_node_id)
  moreover have "?n < 2 ^ 32" using verified_sizes(1) [OF tables, of "2 ^ 32 - 1"] by (cases "?n < 2 ^ 32") auto
  then have "entries_fit (?n, use_rows ir)"
    using rows ready by (auto simp: entries_fit_def length_use_rows fold_ready_def)
  then obtain uses where uses: "csr_from_entries ?n (use_rows ir) = Inr uses" using entry_rows.stored [of "(?n, use_rows ir)"] by auto
  moreover have "uses_stored ir uses"
    unfolding uses_stored_def
  proof
    fix v
    have "uses_for uses v = Inr (if id_index v < ?n then row_of (id_index v) (use_rows ir) else [])"
      using csr_holds_row(2) [OF csr_from_entries_holds [OF uses]] by (simp add: uses_for_def)
    moreover have "\<forall>u \<in> set (row_of (id_index v) (use_rows ir)). id_index (use_user u) < length (ec_operations ir)"
      using rows by (auto simp: row_of_def)
    moreover have "id_index v < ?n \<and> i \<in> (\<lambda>u. id_index (use_user u)) ` set (row_of (id_index v) (use_rows ir))"
      if i: "i < length (ec_operations ir)" and x: "x \<in> set (operands_of ir (ec_operations ir ! i))" "id_index x = id_index v" for i x
    proof -
      obtain n where n: "n < length (operands_of ir (ec_operations ir ! i))" "operands_of ir (ec_operations ir ! i) ! n = x"
        using x(1) by (auto simp: in_set_conv_nth)
      have "(id_index v, ecode_use_new (node_id i) n) \<in> set (use_rows ir)"
        unfolding use_rows_def using i n x(2) by (force simp: set_enumerate)
      then have "ecode_use_new (node_id i) n \<in> set (row_of (id_index v) (use_rows ir))" by (force simp: row_of_def)
      moreover have "id_index (use_user (ecode_use_new (node_id i) n)) = i"
        using index_node_id [OF verified_sizes(2) [OF tables i]] by (simp add: ecode_use_new_def)
      ultimately show ?thesis using verified_operands(2) [OF tables i x(1)] x(2) by force
    qed
    ultimately show "\<exists>us. uses_for uses v = Inr us \<and> (\<forall>u \<in> set us. id_index (use_user u) < length (ec_operations ir)) \<and>
        (\<forall>i < length (ec_operations ir). \<forall>v' \<in> set (operands_of ir (ec_operations ir ! i)).
           id_index v' = id_index v \<longrightarrow> i \<in> (\<lambda>u. id_index (use_user u)) ` set us)"
      by (cases "id_index v < ?n") (simp_all del: set_row_of, blast+)
  qed
  ultimately show ?thesis using operands by (simp add: ecode_uses_def collect_ssa_uses_def)
qed

lemma block_arg_inputs_rows:
  assumes "block_arg_inputs_new n g args afe = Inr ai"
  shows "\<exists>es. csr_holds n es (ai_inputs ai)" "mark_present (replicate n False) args = Inr (ai_args ai)"
  using assms by (auto simp: block_arg_inputs_new_def outcome_simps dest!: csr_from_entries_holds)

lemma sum_filter_le: "sum_list (map f (filter P xs)) \<le> sum_list (map f xs)" for f :: "'x \<Rightarrow> nat"
  by (induction xs) auto

lemma dependent_args_ok:
  assumes tables: "verify_tables ir = Inr ()" and ai: "ecode_block_arg_inputs ir = Inr ai" and stored: "inputs_stored ir ai"
  shows "\<exists>deps. dependent_args (length (ec_values ir)) ai = Inr deps \<and> dependents_stored ir deps"
proof -
  let ?n = "length (ec_values ir)" and ?args = "map (\<lambda>a. (eb_block a, eb_value a)) (ec_block_args ir)"
  obtain es where es: "csr_holds ?n es (ai_inputs ai)" and present: "mark_present (replicate ?n False) ?args = Inr (ai_args ai)"
    using block_arg_inputs_rows ai unfolding ecode_block_arg_inputs_def by blast
  have args: "\<forall>a \<in> set ?args. id_index (snd a) < length (replicate ?n False)"
    using only_arg(1) [OF tables _ refl] by (auto simp: in_set_conv_nth)
  have bits: "bits_contains (ai_args ai) k \<longleftrightarrow> (\<exists>j < length (ec_block_args ir). k = id_index (eb_value (ec_block_args ir ! j)))" for k
  proof -
    have "bits_contains (ai_args ai) k \<longleftrightarrow> k \<in> (\<lambda>a. id_index (snd a)) ` set ?args" using mark_present_ok [OF args] present by auto
    also have "\<dots> \<longleftrightarrow> (\<exists>a \<in> set (ec_block_args ir). k = id_index (eb_value a))" by (simp add: image_image) blast
    also have "\<dots> \<longleftrightarrow> (\<exists>j < length (ec_block_args ir). k = id_index (eb_value (ec_block_args ir ! j)))"
      by (metis in_set_conv_nth)
    finally show ?thesis .
  qed
  let ?ks = "filter (bits_contains (ai_args ai)) [0..<?n]"
  let ?rows = "map (\<lambda>k. (node_id k, row_of k es)) ?ks"
  have iter: "inputs_iter ai = Inr ?rows"
    unfolding inputs_iter_def csr_holds_row(3) [OF es]
    by (rule collect_ok_all)
      (auto simp: or_panic_def try_from_index_node [OF verified_sizes(1) [OF tables]] csr_holds_row(1) [OF es])
  define ds where "ds = concat (map (\<lambda>(arg, arg_inputs). map (\<lambda>input. (id_index input, arg)) arg_inputs) ?rows)"
  have row: "id_index v < ?n" if k: "bits_contains (ai_args ai) k" "k < ?n" and v: "v \<in> set (row_of k es)" for k v
  proof -
    obtain j where j: "j < length (ec_block_args ir)" "k = id_index (eb_value (ec_block_args ir ! j))" using bits k(1) by blast
    then have "inputs_for ai (eb_value (ec_block_args ir ! j)) = Inr (Some (row_of k es))"
      using k csr_holds_row(1) [OF es] by (simp add: inputs_for_def)
    moreover obtain vs where "inputs_for ai (eb_value (ec_block_args ir ! j)) = Inr (Some vs)" "set vs = inputs_of ir j"
      using stored j(1) unfolding inputs_stored_def by blast
    ultimately have "set (row_of k es) = inputs_of ir j" by simp
    then show ?thesis using v inputs_of_values [OF tables] by blast
  qed
  have mem: "x < ?n \<and> (\<exists>j < length (ec_block_args ir). id_index arg = id_index (eb_value (ec_block_args ir ! j)))"
    if pair: "(x, arg) \<in> set ds" for x arg
  proof -
    obtain k v where k: "k < ?n" "bits_contains (ai_args ai) k" and "v \<in> set (row_of k es)" "x = id_index v" "arg = node_id k"
      using pair unfolding ds_def by auto
    then show ?thesis using row [OF k(2,1)] bits [of k] index_node_id [OF verified_sizes(1) [OF tables k(1)]] by simp
  qed
  have "length ds = (\<Sum>k\<leftarrow>?ks. length (row_of k es))" by (simp add: ds_def length_concat comp_def)
  also have "\<dots> \<le> (\<Sum>k\<leftarrow>[0..<?n]. length (row_of k es))" by (rule sum_filter_le)
  also have "\<dots> \<le> length es" using sum_rows_le [of fst es ?n] by (simp add: row_of_def)
  finally have "length ds < 2 ^ 32" using es by (simp add: csr_holds_def)
  moreover have "Suc ?n < 2 ^ 64" using verified_sizes(1) [OF tables, of "2 ^ 32 - 1"] by (cases "?n < 2 ^ 32") auto
  ultimately have "entries_fit (?n, ds)" using mem by (auto simp: entries_fit_def)
  then obtain deps where deps: "csr_from_entries ?n ds = Inr deps" using entry_rows.stored [of "(?n, ds)"] by auto
  have "dependents_stored ir deps"
    unfolding dependents_stored_def
  proof (intro allI impI)
    fix k assume "k < ?n"
    then have "csr_row deps k = Inr (row_of k ds)" using csr_holds_row(1) [OF csr_from_entries_holds [OF deps]] by simp
    moreover have "\<forall>arg \<in> set (row_of k ds). \<exists>j < length (ec_block_args ir). id_index arg = id_index (eb_value (ec_block_args ir ! j))"
      using mem by (auto simp: row_of_def)
    ultimately show "\<exists>args. csr_row deps k = Inr args \<and>
        (\<forall>arg \<in> set args. \<exists>j < length (ec_block_args ir). id_index arg = id_index (eb_value (ec_block_args ir ! j)))" by blast
  qed
  then show ?thesis using iter deps by (simp add: dependent_args_def ds_def)
qed

section \<open>The rewriting\<close>

text \<open>An operation after folding: itself, or a constant operation that reads the only value it has.\<close>

definition op_folded :: "malachite \<Rightarrow> 'm ecode_ir \<Rightarrow> u8 list \<Rightarrow> ecode_op \<Rightarrow> ecode_op \<Rightarrow> bool" where
  "op_folded M ir storage op op' \<longleftrightarrow>
     op' = op \<or>
     op' = op_replace_with_constant op (op_immediate op') \<and>
     (\<exists>a. ecode_constant M op' storage = Inr (Some a) \<and> only_value M ir (start_of (op_results op)) a)"

text \<open>The same, with the table of folded values deciding which.\<close>

definition op_rewritten :: "malachite \<Rightarrow> 'm ecode_ir \<Rightarrow> bitvec option list \<Rightarrow> u8 list \<Rightarrow> ecode_op \<Rightarrow> ecode_op \<Rightarrow> bool" where
  "op_rewritten M ir folded storage op op' \<longleftrightarrow>
     op_folded M ir storage op op' \<and>
     (op' = op \<longleftrightarrow> op_opcode op = EConstant \<or> range_len (op_results op) \<noteq> 1 \<or> folded ! start_of (op_results op) = None)"

lemma op_folded_append: "op_folded M ir storage op op' \<Longrightarrow> op_folded M ir (storage @ extra) op op'"
  unfolding op_folded_def using ecode_constant_append by blast

lemma only_value_unsigned: "only_value M ir k a \<Longrightarrow> only_value M ir k (unsigned_bv a)"
  by (auto simp: only_value_def same_bits_def)

lemma replace_with_constant_ok:
  assumes M: "malachite_ok M" and i: "i < 2 ^ 32 - 1" "i < length (rw_operations rw)"
    and a: "only_value M ir (start_of (op_results (rw_operations rw ! i))) a" "bits a = op_width (rw_operations rw ! i)"
    and ok: "interner_ok (rw_constant_storage rw) (rw_constants rw)" and room: "length (rw_constant_storage rw) + 2 ^ 28 < 2 ^ 64"
  shows "\<exists>rw' op' extra. replace_with_constant M rw (node_id i) a = Inr rw' \<and>
    interner_ok (rw_constant_storage rw') (rw_constants rw') \<and>
    rw_operations rw' = (rw_operations rw)[i := op'] \<and> rw_constant_storage rw' = rw_constant_storage rw @ extra \<and>
    length extra \<le> 2 ^ 28 \<and> op_folded M ir (rw_constant_storage rw') (rw_operations rw ! i) op' \<and> op_opcode op' = EConstant"
proof -
  let ?op = "rw_operations rw ! i"
  have wf: "wf_bv a" and "vector_width (bits a)" using a(1) unfolding only_value_def by blast+
  then have size: "8 * bytes_bv a < 2 ^ 31" by (simp add: vector_width_def width_bytes_def bytes_bv_def)
  then have "length (rw_constant_storage rw) + bytes_bv a < 2 ^ 64" using room by simp
  from intern_reads_back [OF M wf size ok this] obtain imm extra i' where
    interned: "intern M (rw_constants rw) (rw_constant_storage rw) a = Inr (imm, rw_constant_storage rw @ extra, i')"
      "interner_ok (rw_constant_storage rw @ extra) i'" "length extra \<le> bytes_bv a"
    and read: "\<And>op. op_opcode op = EConstant \<and> op_width op = bits a \<and> op_immediate op = imm \<Longrightarrow>
      ecode_constant M op (rw_constant_storage rw @ extra) = Inr (Some (unsigned_bv a))" by blast
  let ?op' = "op_replace_with_constant ?op imm"
  have "ecode_constant M ?op' (rw_constant_storage rw @ extra) = Inr (Some (unsigned_bv a))"
    using a(2) by (intro read) (simp add: op_replace_with_constant_def)
  then have "op_folded M ir (rw_constant_storage rw @ extra) ?op ?op'"
    using only_value_unsigned [OF a(1)] by (auto simp: op_folded_def op_replace_with_constant_def)
  moreover have "op_opcode ?op' = EConstant" by (simp add: op_replace_with_constant_def)
  ultimately show ?thesis using interned size i index_node_id [OF i(1)]
    by (auto simp: replace_with_constant_def get_at_def intro!: exI [of _ ?op'])
qed

lemma rewrite_folded_ok:
  assumes M: "malachite_ok M" and tables: "verify_tables ir = Inr ()" and inv: "fold_inv M ir (folded, [])"
    and "interner_ok (rw_constant_storage rw) (rw_constants rw)" "length (rw_operations rw) = length (ec_operations ir)"
    and "length (rw_constant_storage rw) + length is * 2 ^ 28 < 2 ^ 64 - 2 ^ 28"
    and "distinct is" "\<forall>i \<in> set is. i < length (ec_operations ir) \<and> rw_operations rw ! i = ec_operations ir ! i"
  shows "\<exists>rw' extra. rewrite_folded M folded is rw = Inr rw' \<and>
    rw_constant_storage rw' = rw_constant_storage rw @ extra \<and> length (rw_operations rw') = length (ec_operations ir) \<and>
    (\<forall>i < length (ec_operations ir). i \<notin> set is \<longrightarrow> rw_operations rw' ! i = rw_operations rw ! i) \<and>
    (\<forall>i \<in> set is. op_rewritten M ir folded (rw_constant_storage rw') (ec_operations ir ! i) (rw_operations rw' ! i))"
  using assms(4-)
proof (induction "is" arbitrary: rw)
  case (Cons i rest)
  let ?op = "ec_operations ir ! i" and ?k = "start_of (op_results (ec_operations ir ! i))"
  have i: "i < length (ec_operations ir)" "rw_operations rw ! i = ?op" using Cons.prems(5) by auto
  then have op: "get_at (rw_operations rw) i = Inr ?op" using Cons.prems(2) by (simp add: get_at_def)
  let ?keep = "op_opcode ?op = EConstant \<or> range_len (op_results ?op) \<noteq> 1 \<or> folded ! ?k = None"
  have kept: ?case if skip: "rewrite_folded M folded (i # rest) rw = rewrite_folded M folded rest rw" "?keep"
  proof -
    obtain rw' extra where "rewrite_folded M folded rest rw = Inr rw'" "rw_constant_storage rw' = rw_constant_storage rw @ extra"
      "length (rw_operations rw') = length (ec_operations ir)"
      "\<forall>i < length (ec_operations ir). i \<notin> set rest \<longrightarrow> rw_operations rw' ! i = rw_operations rw ! i"
      "\<forall>i \<in> set rest. op_rewritten M ir folded (rw_constant_storage rw') (ec_operations ir ! i) (rw_operations rw' ! i)"
      using Cons.IH [of rw] Cons.prems by auto
    moreover from this have "rw_operations rw' ! i = ?op" using Cons.prems(4) i by simp
    ultimately show ?thesis using skip by (auto simp: op_folded_def op_rewritten_def)
  qed
  show ?case
  proof (cases "?keep")
    case True
    have "?k < length folded" if "range_len (op_results ?op) = 1"
      using only_op(1) [OF tables i(1) single_result_index [OF tables i(1) that]] inv by (simp add: fold_inv_def)
    then show ?thesis using True op by (intro kept) (auto simp: get_at_def)
  next
    case False
    then obtain a where a: "folded ! ?k = Some a" by auto
    have k: "contains_index (op_results ?op) ?k" using False single_result_index [OF tables i(1)] by blast
    have bound: "?k < length folded" using only_op(1) [OF tables i(1) k] inv by (simp add: fold_inv_def)
    then have only: "only_value M ir ?k a" using a inv by (simp add: fold_inv_def)
    then have width: "bits a = op_width ?op" using only_op(2) [OF tables i(1) k] by (simp add: only_value_def)
    have small: "i < 2 ^ 32 - 1" by (rule verified_sizes(2) [OF tables i(1)])
    have room: "length (rw_constant_storage rw) + 2 ^ 28 < 2 ^ 64" using Cons.prems(3) by simp
    obtain rw1 op' extra1 where rw1: "replace_with_constant M rw (node_id i) a = Inr rw1"
      "interner_ok (rw_constant_storage rw1) (rw_constants rw1)" "rw_operations rw1 = (rw_operations rw)[i := op']"
      "rw_constant_storage rw1 = rw_constant_storage rw @ extra1" "length extra1 \<le> 2 ^ 28"
      "op_folded M ir (rw_constant_storage rw1) ?op op'" "op_opcode op' = EConstant"
      using replace_with_constant_ok [OF M small _ _ _ Cons.prems(1) room, of ir a] only width i Cons.prems(2) by auto
    have step: "rewrite_folded M folded (i # rest) rw = rewrite_folded M folded rest rw1"
      using False op a bound rw1(1) try_from_index_node [OF small] by (simp add: get_at_def or_panic_def)
    have rest: "\<forall>j \<in> set rest. j < length (ec_operations ir) \<and> rw_operations rw1 ! j = ec_operations ir ! j"
    proof
      fix j assume j: "j \<in> set rest"
      then have "j \<noteq> i" using Cons.prems(4) by auto
      then show "j < length (ec_operations ir) \<and> rw_operations rw1 ! j = ec_operations ir ! j" using j Cons.prems(5) rw1(3) by simp
    qed
    have "length (rw_operations rw1) = length (ec_operations ir)"
      "length (rw_constant_storage rw1) + length rest * 2 ^ 28 < 2 ^ 64 - 2 ^ 28"
      using Cons.prems(2,3) rw1(3-5) by simp_all
    then obtain rw' extra where rw': "rewrite_folded M folded rest rw1 = Inr rw'" "rw_constant_storage rw' = rw_constant_storage rw1 @ extra"
      "length (rw_operations rw') = length (ec_operations ir)"
      "\<forall>i < length (ec_operations ir). i \<notin> set rest \<longrightarrow> rw_operations rw' ! i = rw_operations rw1 ! i"
      "\<forall>i \<in> set rest. op_rewritten M ir folded (rw_constant_storage rw') (ec_operations ir ! i) (rw_operations rw' ! i)"
      using Cons.IH [OF rw1(2) _ _ _ rest] Cons.prems(4) by auto
    moreover have "rw_operations rw' ! i = op'" using rw'(4) Cons.prems(2,4) i(1) rw1(3) by simp
    then have "op_folded M ir (rw_constant_storage rw') ?op (rw_operations rw' ! i)" "rw_operations rw' ! i \<noteq> ?op"
      using rw1(6,7) rw'(2) op_folded_append False by auto
    then have "op_rewritten M ir folded (rw_constant_storage rw') ?op (rw_operations rw' ! i)" using False by (simp add: op_rewritten_def)
    ultimately show ?thesis using step rw1(3,4) by auto
  qed
qed simp

section \<open>Constant folding keeps what the operations compute\<close>

lemma constant_folding_run:
  assumes M: "malachite_ok M" and tables: "verify_tables ir = Inr ()" and size: "edges_sized ir" and ready: "fold_ready ir"
  shows "\<exists>folded ops extra. constant_folding M ir =
      Some (Inr (ir\<lparr>ec_operations := ops, ec_constant_storage := ec_constant_storage ir @ extra\<rparr>)) \<and>
    length ops = length (ec_operations ir) \<and>
    (\<forall>i < length ops. op_rewritten M ir folded (ec_constant_storage ir @ extra) (ec_operations ir ! i) (ops ! i)) \<and>
    fold_inv M ir (folded, []) \<and> (\<forall>i < length ops. \<not> unsettled M ir folded i) \<and>
    (\<forall>i < length ops. op_opcode (ec_operations ir ! i) = EConstant \<and> range_len (op_results (ec_operations ir ! i)) = 1 \<longrightarrow>
       folded ! start_of (op_results (ec_operations ir ! i)) \<noteq> None)"
proof -
  let ?n = "length (ec_operations ir)"
  obtain uses where uses: "ecode_uses ir = Inr uses" "uses_stored ir uses" using uses_stored_ok [OF tables ready] by blast
  obtain ai where ai: "ecode_block_arg_inputs ir = Inr ai" "inputs_stored ir ai"
    using verified_inputs [OF tables size] by (auto simp: inputs_stored_def)
  obtain deps where deps: "dependent_args (length (ec_values ir)) ai = Inr deps" "dependents_stored ir deps"
    using dependent_args_ok [OF tables ai] by blast
  let ?s = "(replicate (length (ec_values ir)) None, [])"
  have "fold_inv M ir ?s" by (simp add: fold_inv_def)
  then obtain s where s: "fold_constants M (ec_constant_storage ir) (ec_operations ir) ?s = Inr s" "fold_inv M ir s"
    using fold_constants_ok [OF M tables ready subset_refl] by blast
  have known: "known_queued s" "\<forall>op \<in> set (ec_operations ir). op_opcode op = EConstant \<and> range_len (op_results op) = 1 \<and>
      ecode_constant M op (ec_constant_storage ir) \<noteq> Inr None \<longrightarrow> fst s ! start_of (op_results op) \<noteq> None"
    using fold_constants_known [OF s(1)] by (auto simp: known_queued_def)
  have "length (fst s) = length (ec_values ir)" using s(2) by (simp add: fold_inv_def)
  then have "queued M ir s {}" by (rule known_queued_all [OF tables M _ known(1)])
  from fold_loop_ok [OF M tables ready uses(2) ai(2) deps(2) s(2) this] obtain folded where
    folded: "fold_loop M ir uses ai deps s = Some (Inr folded)" "fold_inv M ir (folded, [])"
      "\<forall>i < ?n. \<not> unsettled M ir folded i" "\<forall>k < length (ec_values ir). fst s ! k \<noteq> None \<longrightarrow> folded ! k \<noteq> None" by blast
  have constants: "folded ! start_of (op_results (ec_operations ir ! i)) \<noteq> None"
    if "i < ?n" "op_opcode (ec_operations ir ! i) = EConstant" "range_len (op_results (ec_operations ir ! i)) = 1" for i
    using that known(2) folded(4) verified_constant [OF M tables ready that(1,2)]
      only_op(1) [OF tables that(1) single_result_index [OF tables that(1,3)]] nth_mem [OF that(1)] by force
  have "?n < 2 ^ 32" using verified_sizes(2) [OF tables, of "2 ^ 32 - 1"] by (cases "?n < 2 ^ 32") auto
  then have room: "length (rw_constant_storage (rewriter ir)) + length [0..<?n] * 2 ^ 28 < 2 ^ 64 - 2 ^ 28"
    using ready by (simp add: rewriter_def fold_ready_def)
  have "interner_ok (rw_constant_storage (rewriter ir)) (rw_constants (rewriter ir))"
    by (simp add: rewriter_def index_constants_ok interner_ok_new)
  from rewrite_folded_ok [OF M tables folded(2) this _ room] obtain rw extra where
    rw: "rewrite_folded M folded [0..<?n] (rewriter ir) = Inr rw"
      "rw_constant_storage rw = ec_constant_storage ir @ extra" "length (rw_operations rw) = ?n"
      "\<forall>i < ?n. op_rewritten M ir folded (rw_constant_storage rw) (ec_operations ir ! i) (rw_operations rw ! i)"
    by (auto simp: rewriter_def)
  have "constant_folding M ir =
    Some (Inr (ir\<lparr>ec_operations := rw_operations rw, ec_constant_storage := ec_constant_storage ir @ extra\<rparr>))"
    using uses(1) ai(1) deps(1) s(1) folded(1) rw(1,2) by (simp add: constant_folding_def fold_rewrite_def)
  then show ?thesis using rw(2-4) folded(2,3) constants by (intro exI [of _ folded] exI [of _ "rw_operations rw"] exI [of _ extra]) auto
qed

text \<open>
  C7. On verified ecode that meets \<open>fold_ready\<close>, constant folding ends without a panic and changes only the
  operations and the constant storage: each operation is kept, or becomes a constant operation of the same results,
  width and span which reads back from the new storage the one value that the operation can have, whatever the
  unknown operations and the initial arguments yield; and every constant of the old container reads the same.
  The conditions of \<open>fold_ready\<close>: no edge passes a value to an argument of the entry block, whose value on
  entering the function the pass does not know (the theory \<open>ECodeEntry\<close> shows what happens otherwise); constants and scalar operations have widths of bit vectors; operands that evaluation casts are at
  least as wide as the operation, since widening reads a sign flag that a constant operation does not keep (a
  shift amount may be narrower if it can express the width); edges pass values of the argument's width; and the
  operands of all operations fit 32-bit offsets and the constant storage fits in memory. The blocks' arguments on
  all edges fit 32-bit offsets too (\<open>edges_sized\<close>).
\<close>

theorem constant_folding_correct:
  assumes M: "malachite_ok M" and verified: "ecode_verify ir = Some (Inr ())" and size: "edges_sized ir" and ready: "fold_ready ir"
  shows "\<exists>ops storage. constant_folding M ir = Some (Inr (ir\<lparr>ec_operations := ops, ec_constant_storage := storage\<rparr>)) \<and>
    length ops = length (ec_operations ir) \<and>
    (\<forall>i < length ops. op_folded M ir storage (ec_operations ir ! i) (ops ! i)) \<and>
    (\<forall>op a. ecode_constant M op (ec_constant_storage ir) = Inr (Some a) \<longrightarrow> ecode_constant M op storage = Inr (Some a))"
proof -
  have "verify_tables ir = Inr ()" using verified by (cases "verify_tables ir") (auto simp: ecode_verify_def)
  from constant_folding_run [OF M this size ready] obtain folded ops extra where
    "constant_folding M ir = Some (Inr (ir\<lparr>ec_operations := ops, ec_constant_storage := ec_constant_storage ir @ extra\<rparr>))"
    "length ops = length (ec_operations ir)"
    "\<forall>i < length ops. op_rewritten M ir folded (ec_constant_storage ir @ extra) (ec_operations ir ! i) (ops ! i)" by blast
  then show ?thesis using ecode_constant_append [of M _ "ec_constant_storage ir" _ extra]
    by (intro exI [of _ ops] exI [of _ "ec_constant_storage ir @ extra"]) (auto simp: op_rewritten_def)
qed

section \<open>Constant folding leaves nothing to fold\<close>

text \<open>The value an operand reads from a constant operation.\<close>

definition reads_constant :: "malachite \<Rightarrow> 'm ecode_ir \<Rightarrow> il_value_id \<Rightarrow> bitvec \<Rightarrow> bool" where
  "reads_constant M ir x a \<longleftrightarrow>
     (\<exists>j < length (ec_operations ir). op_opcode (ec_operations ir ! j) = EConstant \<and>
        range_len (op_results (ec_operations ir ! j)) = 1 \<and> start_of (op_results (ec_operations ir ! j)) = id_index x \<and>
        ecode_constant M (ec_operations ir ! j) (ec_constant_storage ir) = Inr (Some a))"

lemma folded_evaluate_same:
  assumes M: "malachite_ok M" and foldable: "op_foldable ir op"
    and as: "list_all2 (\<lambda>v a. only_value M ir (id_index v) a) (operands_of ir op) as" and cs: "list_all2 same_bits as cs"
    and none: "\<And>v. ecode_evaluate M (op_opcode op) (op_width op) as \<noteq> Inr (Some v)"
  shows "ecode_evaluate M (op_opcode op) (op_width op) cs = Inr None"
proof (cases "scalar_op_of (op_opcode op)")
  case (Some sop)
  then have w: "valid_bits (op_width op)"
    and wide: "widths_wide sop (op_width op) (map (\<lambda>v. ev_width (ec_values ir ! id_index v)) (operands_of ir op))"
    using foldable by (auto simp: op_foldable_def vector_width_def)
  have "map bits as = map (\<lambda>v. ev_width (ec_values ir ! id_index v)) (operands_of ir op)"
    using as by (auto simp: list_all2_conv_all_nth only_value_def intro!: nth_equalityI)
  from widths_operands_wide [OF this wide] obtain r r' where
    "evaluate M sop (op_width op) as = Inr r" "evaluate M sop (op_width op) cs = Inr r'" "rel_option same_bits r r'"
    using evaluate_cong [OF M w cs] by blast
  then show ?thesis using none Some by (cases r) (auto simp: ecode_evaluate_def)
qed (simp add: ecode_evaluate_def)

lemma reads_constant_folded:
  assumes M: "malachite_ok M" and tables: "verify_tables ir = Inr ()" and ready: "fold_ready ir"
    and len: "length ops = length (ec_operations ir)"
    and ops: "\<forall>i < length ops. op_rewritten M ir folded (ec_constant_storage ir @ extra) (ec_operations ir ! i) (ops ! i)"
    and inv: "fold_inv M ir (folded, [])"
    and constants: "\<forall>i < length ops. op_opcode (ec_operations ir ! i) = EConstant \<and> range_len (op_results (ec_operations ir ! i)) = 1 \<longrightarrow>
       folded ! start_of (op_results (ec_operations ir ! i)) \<noteq> None"
    and read: "reads_constant M (ir\<lparr>ec_operations := ops, ec_constant_storage := ec_constant_storage ir @ extra\<rparr>) x a"
  shows "\<exists>a0. folded ! id_index x = Some a0 \<and> only_value M ir (id_index x) a0 \<and> same_bits a0 a"
proof -
  obtain j where j: "j < length ops" "op_opcode (ops ! j) = EConstant" "range_len (op_results (ops ! j)) = 1"
    "start_of (op_results (ops ! j)) = id_index x" "ecode_constant M (ops ! j) (ec_constant_storage ir @ extra) = Inr (Some a)"
    using read by (auto simp: reads_constant_def)
  let ?op = "ec_operations ir ! j"
  note rewritten = ops [rule_format, OF j(1)]
  have jl: "j < length (ec_operations ir)" using j(1) len by simp
  have results: "op_results (ops ! j) = op_results ?op"
  proof -
    have "ops ! j = ?op \<or> ops ! j = op_replace_with_constant ?op (op_immediate (ops ! j))"
      using rewritten unfolding op_rewritten_def op_folded_def by blast
    moreover have "op_results (op_replace_with_constant ?op m) = op_results ?op" for m by (simp add: op_replace_with_constant_def)
    ultimately show ?thesis by metis
  qed
  have k: "contains_index (op_results ?op) (id_index x)" using single_result_index [OF tables jl] j(3,4) results by simp
  have bound: "id_index x < length (ec_values ir)" by (rule only_op(1) [OF tables jl k])
  have "folded ! id_index x \<noteq> None \<and> only_value M ir (id_index x) a"
  proof (cases "ops ! j = ?op")
    case True
    then obtain v where v: "ecode_constant M ?op (ec_constant_storage ir) = Inr (Some v)"
      using verified_constant [OF M tables ready jl] j(2) by auto
    then have "v = a" using ecode_constant_append [OF v, of extra] j(5) True by simp
    then show ?thesis using only_constant [OF M tables ready jl _ k] v constants j True by auto
  next
    case False
    then show ?thesis using rewritten j(4,5) results by (auto simp: op_rewritten_def op_folded_def)
  qed
  then obtain a0 where "folded ! id_index x = Some a0" "only_value M ir (id_index x) a0" "only_value M ir (id_index x) a"
    using inv bound by (auto simp: fold_inv_def)
  moreover from this(2,3) have "same_bits a0 a" unfolding only_value_def by (meson same_bits_sym same_bits_trans)
  ultimately show ?thesis by blast
qed

text \<open>
  C9. Constant folding folds all it can: on verified ecode that meets \<open>fold_ready\<close> (the conditions above), in the
  container it returns, an operation with one result that is not a
  constant and whose operands are all results of constant operations does not evaluate at the constants they read.
\<close>

theorem constant_folding_complete:
  assumes M: "malachite_ok M" and verified: "ecode_verify ir = Some (Inr ())" and size: "edges_sized ir" and ready: "fold_ready ir"
  shows "\<exists>ir'. constant_folding M ir = Some (Inr ir') \<and>
    (\<forall>op \<in> set (ec_operations ir'). \<forall>as. op_opcode op \<noteq> EConstant \<and> range_len (op_results op) = 1 \<and>
       list_all2 (reads_constant M ir') (operands_of ir' op) as \<longrightarrow> ecode_evaluate M (op_opcode op) (op_width op) as = Inr None)"
proof -
  have tables: "verify_tables ir = Inr ()" using verified by (cases "verify_tables ir") (auto simp: ecode_verify_def)
  from constant_folding_run [OF M this size ready] obtain folded ops extra where
    run: "constant_folding M ir = Some (Inr (ir\<lparr>ec_operations := ops, ec_constant_storage := ec_constant_storage ir @ extra\<rparr>))"
      (is "_ = Some (Inr ?ir')")
    and len: "length ops = length (ec_operations ir)"
    and ops: "\<forall>i < length ops. op_rewritten M ir folded (ec_constant_storage ir @ extra) (ec_operations ir ! i) (ops ! i)"
    and inv: "fold_inv M ir (folded, [])" and settled: "\<forall>i < length ops. \<not> unsettled M ir folded i"
    and constants: "\<forall>i < length ops. op_opcode (ec_operations ir ! i) = EConstant \<and> range_len (op_results (ec_operations ir ! i)) = 1 \<longrightarrow>
       folded ! start_of (op_results (ec_operations ir ! i)) \<noteq> None" by blast
  have "ecode_evaluate M (op_opcode (ops ! i)) (op_width (ops ! i)) as = Inr None"
    if i: "i < length ops" and op: "op_opcode (ops ! i) \<noteq> EConstant" "range_len (op_results (ops ! i)) = 1"
      and as: "list_all2 (reads_constant M ?ir') (operands_of ?ir' (ops ! i)) as" for i as
  proof -
    let ?op = "ec_operations ir ! i"
    have "ops ! i \<noteq> op_replace_with_constant ?op m" for m using op(1) by (auto simp: op_replace_with_constant_def)
    then have kept: "ops ! i = ?op" "folded ! start_of (op_results ?op) = None"
      using ops i op unfolding op_rewritten_def op_folded_def by metis+
    note reads = reads_constant_folded [OF M tables ready len ops inv constants]
    have "list_all2 (reads_constant M ?ir') (operands_of ir ?op) as" using as kept(1) by (simp add: operands_of_def)
    then have "\<forall>n < length as. \<exists>a0. folded ! id_index (operands_of ir ?op ! n) = Some a0 \<and>
        only_value M ir (id_index (operands_of ir ?op ! n)) a0 \<and> same_bits a0 (as ! n)" and same: "length as = length (operands_of ir ?op)"
      using reads by (auto simp: list_all2_conv_all_nth)
    then obtain bs where bs: "length bs = length as" "\<forall>n < length bs. folded ! id_index (operands_of ir ?op ! n) = Some (bs ! n) \<and>
        only_value M ir (id_index (operands_of ir ?op ! n)) (bs ! n) \<and> same_bits (bs ! n) (as ! n)"
      unfolding Skolem_list_nth by auto
    have "list_all2 (\<lambda>x b. folded ! id_index x = Some b) (operands_of ir ?op) bs" using bs same by (simp add: list_all2_conv_all_nth)
    then have none: "ecode_evaluate M (op_opcode ?op) (op_width ?op) bs \<noteq> Inr (Some v)" for v
      using settled [rule_format, OF i] op kept unfolding unsettled_def Let_def by metis
    have "op_foldable ir ?op" using ready i len by (simp add: fold_ready_def)
    then have "ecode_evaluate M (op_opcode ?op) (op_width ?op) as = Inr None"
      using bs same by (intro folded_evaluate_same [OF M _ _ _ none]) (auto simp: list_all2_conv_all_nth)
    then show ?thesis using kept(1) by simp
  qed
  then show ?thesis using run by (auto simp: in_set_conv_nth)
qed

section \<open>A container with an operation to fold\<close>

definition folding_ecode :: "unit ecode_ir" where
  "folding_ecode =
     \<lparr>ec_metadata = (),
      ec_graph = \<lparr>g_blocks = [\<lparr>block_ops = \<lparr>r_start = 0, r_end = 2\<rparr>, block_successors = range_empty, block_properties = ENTRY\<rparr>],
        g_successors = [], g_successor_kinds = [], g_block_sources = []\<rparr>,
      ec_source_spans = [], ec_parent_spans = [],
      ec_values = [\<lparr>ev_width = 8, ev_definition = OpDef 1\<rparr>, \<lparr>ev_width = 8, ev_definition = OpDef 2\<rparr>],
      ec_value_domains = [None, None], ec_block_args = [], ec_edge_args = [], ec_edge_arg_values = [],
      ec_operations =
        [(ecode_op_new EConstant \<lparr>r_start = 0, r_end = 1\<rparr> range_empty 8)\<lparr>op_immediate := 200\<rparr>,
         ecode_op_new ENot \<lparr>r_start = 1, r_end = 2\<rparr> \<lparr>r_start = 0, r_end = 1\<rparr> 8],
      ec_value_operands = [1], ec_memory_domains = [], ec_constant_storage = []\<rparr>"

lemma folding_sel:
  "ec_block_args folding_ecode = []" "ec_edge_args folding_ecode = []" "ec_memory_domains folding_ecode = []"
  "ec_edge_arg_values folding_ecode = []" "ec_source_spans folding_ecode = []" "ec_parent_spans folding_ecode = []"
  "length (ec_operations folding_ecode) = 2" "g_successors (ec_graph folding_ecode) = []"
  "length (g_blocks (ec_graph folding_ecode)) = 1" "length (ec_values folding_ecode) = 2"
  by (simp_all add: folding_ecode_def)

lemma folding_tables: "verify_tables folding_ecode = Inr ()"
proof -
  have "graph_verify (ec_graph folding_ecode) = Inr ()"
    by (simp add: graph_verify_iff graph_ok_def folding_ecode_def block_ok_def successors_of_def sub_slice_def start_of_def end_of_def
      filled_ops_def range_is_empty_def range_empty_def)
  moreover have "verify_node_bounds (ec_graph folding_ecode) 2 = Inr ()"
    by (simp add: verify_node_bounds_iff folding_ecode_def verify_bounds_def start_of_def end_of_def)
  ultimately have "verify_structure (ec_graph folding_ecode) [] (Some []) 2 = Inr ()"
    by (simp add: verify_structure_def source_spans_verify_def parent_spans_verify_def)
  moreover have "verify_value_domains folding_ecode = Inr ()"
    by (simp add: verify_value_domains_def try_from_index_eq value_domain_def lookup_at_def id_index_def
      folding_ecode_def domain_consistent_def ecode_op_new_def)
  moreover have "verify_ops_loop folding_ecode 0 (ec_operations folding_ecode) = Inr ()"
    by (simp add: folding_ecode_def verify_op_def ecode_op_new_def try_from_index_eq verify_bounds_def start_of_def end_of_def
      range_empty_def get_at_def verify_constant_def verify_domain_write_def checked_slice_def range_slice_def sub_slice_def
      range_len_def lookup_at_def id_index_def has_uniform_operand_width_def requires_memory_domain_def value_domain_def upt_conv_Cons)
  moreover have "verify_values_loop folding_ecode 0 (ec_values folding_ecode) = Inr ()"
    by (simp add: folding_ecode_def verify_value_def try_from_index_eq lookup_at_def id_index_def contains_index_def
      start_of_def end_of_def ecode_op_new_def)
  ultimately show ?thesis
    by (simp add: verify_tables_def verify_memory_domains_def verify_edge_args_def ecode_ssa_def folding_sel)
qed

lemma folding_op_blocks: "op_block_of (ecode_ssa folding_ecode) 0 = Some 1" "op_block_of (ecode_ssa folding_ecode) 1 = Some 1"
  by (simp_all add: op_block_of_def block_for_op_def folding_sel)
    (simp_all add: folding_ecode_def contains_index_def start_of_def end_of_def id_index_def node_id_def try_from_index_eq)

lemma folding_op_uses: "i < 2 \<Longrightarrow> op_uses_ok (ecode_ssa folding_ecode) 1 i"
proof -
  assume i: "i < 2"
  have "operands_of folding_ecode (ec_operations folding_ecode ! 0) = []" "operands_of folding_ecode (ec_operations folding_ecode ! 1) = [1]"
    by (simp_all add: operands_of_def folding_ecode_def ecode_op_new_def range_empty_def start_of_def end_of_def sub_slice_def)
  then have "op_operands (ecode_ssa folding_ecode) (node_id 0) = Inr (Some [])" "op_operands (ecode_ssa folding_ecode) (node_id 1) = Inr (Some [1])"
    by (simp_all add: ecode_ssa_operands [OF folding_tables] folding_sel index_node_id)
  moreover have "id_index 1 = 0" by (simp add: id_index_def)
  moreover have "value_definition (ecode_ssa folding_ecode) 1 = Some (OpDef 1)"
    by (simp add: ecode_ssa_def folding_ecode_def lookup_at_def id_index_def)
  moreover have "i = 0 \<or> i = 1" using i by auto
  ultimately show ?thesis
    using folding_op_blocks dominates_refl [OF reaches_entry, of "ssa_edge (ecode_ssa folding_ecode)" 1]
    by (auto simp: op_uses_ok_def defined_at_op_def defined_at_end_def)
qed

lemma folding_verify: "ecode_verify folding_ecode = Some (Inr ())"
proof -
  have "ecode_sized folding_ecode" "g_blocks (ec_graph folding_ecode) \<noteq> []"
    by (simp_all add: ecode_sized_def folding_sel) (simp_all add: folding_ecode_def successors_of_def sub_slice_def)
  from ecode_uses_ok [OF folding_tables this] obtain entry r where entry: "entry_block (ec_graph folding_ecode) = Inr (Some entry)"
    and r: "verify_uses (ecode_ssa folding_ecode) from_ssa_error (same_domain folding_ecode) = Some r"
      "r = Inr () \<longleftrightarrow> ssa_uses_ok (ecode_ssa folding_ecode) (same_domain folding_ecode) entry" by blast
  have "entry = 1" using entry
    by (simp add: entry_block_def folding_ecode_def is_entry_def contains_flags_def ENTRY_def or_panic_def try_from_index_eq)
  then have "ssa_uses_ok (ecode_ssa folding_ecode) (same_domain folding_ecode) entry"
    using folding_op_uses
    by (auto simp: ssa_uses_ok_def folding_sel block_edges_ok_def successors_of_def sub_slice_def)
  then show ?thesis using r folding_tables by (simp add: ecode_verify_def)
qed

lemma folding_fold_ready: "fold_ready folding_ecode"
  by (simp add: fold_ready_def folding_sel)
    (simp add: folding_ecode_def op_foldable_def ecode_op_new_def scalar_op_of_def vector_width_def valid_bits_iff width_bytes_def
      div_ceil_def operands_of_def widths_wide_def id_index_def sub_slice_def start_of_def end_of_def range_empty_def)


lemma folding_edges: "edges_sized folding_ecode"
  by (simp add: edges_sized_def folding_sel)

theorem constant_folding_correct_witness:
  "\<exists>ops storage. constant_folding malachite_ref folding_ecode =
      Some (Inr (folding_ecode\<lparr>ec_operations := ops, ec_constant_storage := storage\<rparr>)) \<and> length ops = 2"
proof -
  have "edges_sized folding_ecode" by (rule folding_edges)
  moreover have "fold_ready folding_ecode" by (rule folding_fold_ready)
  ultimately show ?thesis using constant_folding_correct [OF malachite_ref_ok folding_verify] by (auto simp: folding_sel)
qed

theorem constant_folding_complete_witness:
  "\<exists>ir'. constant_folding malachite_ref folding_ecode = Some (Inr ir') \<and> op_opcode (ec_operations ir' ! 1) = EConstant"
proof -
  obtain ir' where ir': "constant_folding malachite_ref folding_ecode = Some (Inr ir')"
    and complete: "\<And>op as. op \<in> set (ec_operations ir') \<Longrightarrow> op_opcode op \<noteq> EConstant \<and> range_len (op_results op) = 1 \<and>
       list_all2 (reads_constant malachite_ref ir') (operands_of ir' op) as \<Longrightarrow>
       ecode_evaluate malachite_ref (op_opcode op) (op_width op) as = Inr None"
    using constant_folding_complete [OF malachite_ref_ok folding_verify folding_edges folding_fold_ready] by blast
  from constant_folding_run [OF malachite_ref_ok folding_tables folding_edges folding_fold_ready] obtain folded ops extra where
    folded: "constant_folding malachite_ref folding_ecode =
      Some (Inr (folding_ecode\<lparr>ec_operations := ops, ec_constant_storage := ec_constant_storage folding_ecode @ extra\<rparr>))"
      "length ops = length (ec_operations folding_ecode)"
    and ops: "\<forall>i < length ops. op_rewritten malachite_ref folding_ecode folded (ec_constant_storage folding_ecode @ extra)
      (ec_operations folding_ecode ! i) (ops ! i)" by blast
  have run: "ir' = folding_ecode\<lparr>ec_operations := ops, ec_constant_storage := ec_constant_storage folding_ecode @ extra\<rparr>"
    and len: "length ops = 2" using ir' folded folding_sel(7) by simp_all
  have first: "ops ! 0 = ec_operations folding_ecode ! 0"
    using ops [rule_format, of 0] len by (simp add: op_rewritten_def) (simp add: folding_ecode_def ecode_op_new_def)
  have "op_opcode (ops ! 1) = EConstant"
  proof (rule ccontr)
    assume other: "op_opcode (ops ! 1) \<noteq> EConstant"
    then have "ops ! 1 \<noteq> op_replace_with_constant (ec_operations folding_ecode ! 1) m" for m by (auto simp: op_replace_with_constant_def)
    then have second: "ops ! 1 = ec_operations folding_ecode ! 1"
      using ops [rule_format, of 1] len unfolding op_rewritten_def op_folded_def by auto
    let ?c = "mk_bv (meta_of False 8) 200"
    have "reads_constant malachite_ref ir' 1 ?c"
      unfolding reads_constant_def run using first len
      by (intro exI [of _ 0]) (simp add: folding_ecode_def ecode_op_new_def range_len_def start_of_def end_of_def id_index_def
        ecode_constant_def from_u64_eq [OF malachite_ref_ok] valid_bits_iff)
    then have "list_all2 (reads_constant malachite_ref ir') (operands_of ir' (ops ! 1)) [?c]"
      unfolding second by (simp add: run operands_of_def folding_ecode_def ecode_op_new_def start_of_def end_of_def sub_slice_def)
    moreover have "ops ! 1 \<in> set (ec_operations ir')" using len run by simp
    moreover have "range_len (op_results (ops ! 1)) = 1"
      unfolding second by (simp add: folding_ecode_def ecode_op_new_def range_len_def start_of_def end_of_def)
    ultimately have "ecode_evaluate malachite_ref (op_opcode (ops ! 1)) (op_width (ops ! 1)) [?c] = Inr None"
      using complete other by blast
    then have "evaluate malachite_ref Not 8 [?c] = Inr None"
      unfolding second by (simp add: folding_ecode_def ecode_op_new_def ecode_evaluate_def scalar_op_of_def)
    then show False using evaluate_unary [OF malachite_ref_ok, of 8 ?c Not "[]"] mk_bv_typed(1) [of 8 False 200]
      by (simp add: yields_def valid_bits_iff unary_op_def)
  qed
  then show ?thesis using ir' run by simp
qed
end
