(* ===== verification/ECodeEntry.thy ===== *)
theory ECodeEntry
  imports ECodeFold
begin

text \<open>
  Constant folding at an entry block that is a loop header. The arguments of such a block have the
  inputs of its incoming edges and, when the function is entered, values from outside, which
  \<open>fugue-core/src/il/ecode/optimise/fold.rs\<close> does not take into account.
\<close>

section \<open>An entry block that is its own successor\<close>

text \<open>The block has the argument \<open>a\<close> and the operations \<open>c = 5\<close> and \<open>x = \<not> a\<close>; its edge to itself passes \<open>c\<close>.\<close>

definition looping_ecode :: "unit ecode_ir" where
  "looping_ecode =
     \<lparr>ec_metadata = (),
      ec_graph = \<lparr>g_blocks = [\<lparr>block_ops = \<lparr>r_start = 0, r_end = 2\<rparr>, block_successors = \<lparr>r_start = 0, r_end = 1\<rparr>,
          block_properties = ENTRY\<rparr>],
        g_successors = [1], g_successor_kinds = [TAKEN], g_block_sources = []\<rparr>,
      ec_source_spans = [], ec_parent_spans = [],
      ec_values = [\<lparr>ev_width = 8, ev_definition = BlockArgDef 1\<rparr>, \<lparr>ev_width = 8, ev_definition = OpDef 1\<rparr>,
        \<lparr>ev_width = 8, ev_definition = OpDef 2\<rparr>],
      ec_value_domains = [None, None, None], ec_block_args = [\<lparr>eb_block = 1, eb_value = 1, eb_width = 8\<rparr>],
      ec_edge_args = [\<lparr>r_start = 0, r_end = 1\<rparr>], ec_edge_arg_values = [2],
      ec_operations =
        [(ecode_op_new EConstant \<lparr>r_start = 1, r_end = 2\<rparr> range_empty 8)\<lparr>op_immediate := 5\<rparr>,
         ecode_op_new ENot \<lparr>r_start = 2, r_end = 3\<rparr> \<lparr>r_start = 0, r_end = 1\<rparr> 8],
      ec_value_operands = [1], ec_memory_domains = [], ec_constant_storage = []\<rparr>"

lemmas run_simps = or_panic_def try_from_index_eq id_index_def csr_from_entries_def csr_try_from_entries_def usize_checked_add_def
  lift_error_def lift_panic_def ok_or_def checked_add_def csr_row_def sub_slice_def start_of_def end_of_def range_len_def get_at_def
  put_at_def lookup_at_def expect_def range_slice_def

lemma looping_uses:
  "ecode_uses looping_ecode = Inr \<lparr>offsets = [0, 1, 1, 1], csr_values = [\<lparr>use_user = 2, use_operand_index = 0\<rparr>]\<rparr>"
  by (simp add: ecode_uses_def collect_ssa_uses_def use_entries_def looping_ecode_def op_operands_for_def ecode_op_new_def
      range_empty_def ecode_use_new_def run_simps)

lemma looping_inputs:
  "ecode_block_arg_inputs looping_ecode =
     Inr \<lparr>ai_args = [True, False, False], ai_inputs = \<lparr>offsets = [0, 1, 1, 1], csr_values = [2]\<rparr>\<rparr>"
  by (simp add: ecode_block_arg_inputs_def block_arg_inputs_new_def looping_ecode_def args_for_edge_def block_inputs_def
      bits_put_def ecode_op_new_def range_empty_def run_simps)

lemma replicate_four: "replicate 4 x = [x, x, x, x]"
  by (simp add: eval_nat_numeral)

lemma looping_dependents:
  "dependent_args 3 \<lparr>ai_args = [True, False, False], ai_inputs = \<lparr>offsets = [0, 1, 1, 1], csr_values = [2]\<rparr>\<rparr> =
     Inr \<lparr>offsets = [0, 0, 1, 1], csr_values = [1]\<rparr>"
  by (simp add: dependent_args_def inputs_iter_def bits_contains_def csr_len_def run_simps Let_def replicate_four)

abbreviation five :: bitvec where
  "five \<equiv> mk_bv (meta_of False 8) 5"

lemma looping_constants:
  "fold_constants malachite_ref (ec_constant_storage looping_ecode) (ec_operations looping_ecode) ([None, None, None], []) =
     Inr ([None, Some five, None], [1])"
  by (simp add: looping_ecode_def ecode_op_new_def ecode_constant_def from_u64_eq [OF malachite_ref_ok] valid_bits_iff
      fold_put_def run_simps)

lemma not_five: "\<exists>b. evaluate malachite_ref il_scalar_op.Not 8 [five] = Inr (Some b) \<and> wf_bv b \<and> bits b = 8 \<and> uval b = 250"
proof -
  have w: "valid_bits (8 :: u32)" by (simp add: valid_bits_iff)
  have "yields (evaluate malachite_ref il_scalar_op.Not 8 [five]) 8 (unary_spec il_scalar_op.Not 8 five)"
    by (rule evaluate_unary [OF malachite_ref_ok w]) (use w in \<open>simp_all add: unary_op_def mk_bv_typed\<close>)
  moreover have "ival five = 5" using w by (simp add: ival_def is_signed_iff unat_meta_of)
  ultimately show ?thesis by (auto simp: yields_def unsigned_at_def)
qed

lemma fold_loop_step:
  "fold_value M ir uses inputs deps k (folded, wl) = Inr s \<Longrightarrow>
     fold_loop M ir uses inputs deps (folded, k # wl) = fold_loop M ir uses inputs deps s"
  by (simp add: fold_loop.simps [of M ir uses inputs deps "(folded, k # wl)"])

lemma fold_loop_end: "fold_loop M ir uses inputs deps (folded, []) = Some (Inr folded)"
  by (simp add: fold_loop.simps)

lemma looping_run:
  assumes uses: "uses = \<lparr>offsets = [0, 1, 1, 1], csr_values = [\<lparr>use_user = 2, use_operand_index = 0\<rparr>]\<rparr>"
    and inputs: "inputs = \<lparr>ai_args = [True, False, False], ai_inputs = \<lparr>offsets = [0, 1, 1, 1], csr_values = [2]\<rparr>\<rparr>"
    and deps: "deps = \<lparr>offsets = [0, 0, 1, 1], csr_values = [1]\<rparr>"
    and b: "evaluate malachite_ref il_scalar_op.Not 8 [five] = Inr (Some b)"
  shows "fold_loop malachite_ref looping_ecode uses inputs deps ([None, Some five, None], [1]) = Some (Inr [Some five, Some five, Some b])"
proof -
  have "fold_value malachite_ref looping_ecode uses inputs deps 1 ([None, Some five, None], []) = Inr ([Some five, Some five, None], [0])"
    by (simp add: uses inputs deps fold_value_def uses_for_def checked_row_def csr_len_def fold_arg_def inputs_for_def bits_contains_def
        fold_put_def eq_bv_def run_simps)
  moreover have "fold_value malachite_ref looping_ecode uses inputs deps 0 ([Some five, Some five, None], []) =
      Inr ([Some five, Some five, Some b], [2])"
    using b by (simp add: uses inputs deps fold_value_def uses_for_def checked_row_def csr_len_def fold_use_def fold_put_def looping_ecode_def
        ecode_op_new_def op_operands_for_def ecode_evaluate_def scalar_op_of_def run_simps)
  moreover have "fold_value malachite_ref looping_ecode uses inputs deps 2 ([Some five, Some five, Some b], []) =
      Inr ([Some five, Some five, Some b], [])"
    by (simp add: uses inputs deps fold_value_def uses_for_def checked_row_def csr_len_def run_simps)
  ultimately show ?thesis by (simp add: fold_loop_step fold_loop_end)
qed

lemma looping_rewrite:
  assumes "wf_bv b" "bits b = 8" "uval b = 250"
  shows "\<exists>imm. fold_rewrite malachite_ref looping_ecode [Some five, Some five, Some b] =
      Inr (looping_ecode\<lparr>ec_operations := [ec_operations looping_ecode ! 0, op_replace_with_constant (ec_operations looping_ecode ! 1) imm]\<rparr>) \<and>
    unat imm = 250"
proof -
  let ?i = "rw_constants (rewriter looping_ecode)"
  obtain imm where imm: "intern malachite_ref ?i (ec_constant_storage looping_ecode) b = Inr (imm, ec_constant_storage looping_ecode, ?i)"
    "unat imm = 250" using intern_small [OF malachite_ref_ok assms(1)] assms(2,3) by force
  have "rewrite_folded malachite_ref [Some five, Some five, Some b] [0, 1] (rewriter looping_ecode) =
      Inr ((rewriter looping_ecode)\<lparr>rw_operations :=
        [ec_operations looping_ecode ! 0, op_replace_with_constant (ec_operations looping_ecode ! 1) imm]\<rparr>)"
    using imm(1) by (simp add: rewriter_def looping_ecode_def ecode_op_new_def replace_with_constant_def run_simps)
  moreover have "length (ec_operations looping_ecode) = 2" "[0..<2] = [0, 1]" by (simp_all add: looping_ecode_def upt_rec)
  ultimately have "fold_rewrite malachite_ref looping_ecode [Some five, Some five, Some b] =
      Inr (looping_ecode\<lparr>ec_operations := [ec_operations looping_ecode ! 0, op_replace_with_constant (ec_operations looping_ecode ! 1) imm]\<rparr>)"
    by (simp add: fold_rewrite_def) (simp add: rewriter_def)
  then show ?thesis using imm(2) by blast
qed

section \<open>The verifier accepts it\<close>

lemma looping_sel:
  "ec_memory_domains looping_ecode = []" "ec_source_spans looping_ecode = []" "ec_parent_spans looping_ecode = []"
  "length (ec_operations looping_ecode) = 2" "g_successors (ec_graph looping_ecode) = [1]"
  "length (g_blocks (ec_graph looping_ecode)) = 1" "length (ec_values looping_ecode) = 3" "length (ec_block_args looping_ecode) = 1"
  "length (ec_edge_args looping_ecode) = 1" "length (ec_edge_arg_values looping_ecode) = 1"
  by (simp_all add: looping_ecode_def)

lemma looping_tables: "verify_tables looping_ecode = Inr ()"
proof -
  have "graph_verify (ec_graph looping_ecode) = Inr ()"
    by (simp add: graph_verify_iff graph_ok_def looping_ecode_def block_ok_def successors_of_def sub_slice_def start_of_def end_of_def
      filled_ops_def range_is_empty_def range_empty_def id_index_def)
  moreover have "verify_node_bounds (ec_graph looping_ecode) 2 = Inr ()"
    by (simp add: verify_node_bounds_iff looping_ecode_def verify_bounds_def start_of_def end_of_def)
  ultimately have "verify_structure (ec_graph looping_ecode) [] (Some []) 2 = Inr ()"
    by (simp add: verify_structure_def source_spans_verify_def parent_spans_verify_def)
  moreover have "verify_value_domains looping_ecode = Inr ()"
    by (simp add: verify_value_domains_def try_from_index_eq value_domain_def lookup_at_def id_index_def
      looping_ecode_def domain_consistent_def ecode_op_new_def)
  moreover have "verify_ops_loop looping_ecode 0 (ec_operations looping_ecode) = Inr ()"
    by (simp add: looping_ecode_def verify_op_def ecode_op_new_def try_from_index_eq verify_bounds_def start_of_def end_of_def
      range_empty_def get_at_def verify_constant_def verify_domain_write_def checked_slice_def range_slice_def sub_slice_def
      range_len_def lookup_at_def id_index_def has_uniform_operand_width_def requires_memory_domain_def value_domain_def upt_conv_Cons)
  moreover have "verify_values_loop looping_ecode 0 (ec_values looping_ecode) = Inr ()"
    by (simp add: looping_ecode_def verify_value_def try_from_index_eq lookup_at_def id_index_def contains_index_def
      start_of_def end_of_def ecode_op_new_def)
  moreover have "verify_block_args_loop looping_ecode 0 (ec_block_args looping_ecode) = Inr ()"
    by (simp add: looping_ecode_def try_from_index_eq lookup_at_def get_at_def id_index_def)
  moreover have "verify_edge_args (ecode_ssa looping_ecode) = Inr ()"
    by (simp add: verify_edge_args_def ecode_ssa_def looping_ecode_def verify_bounds_def start_of_def end_of_def id_index_def)
  ultimately show ?thesis
    by (simp add: verify_tables_def verify_memory_domains_def ecode_ssa_def looping_sel)
qed

lemma looping_block: "op_block_of (ecode_ssa looping_ecode) 0 = Some 1" "op_block_of (ecode_ssa looping_ecode) 1 = Some 1"
    "block_arg_block (ecode_ssa looping_ecode) 1 = Some 1"
  by (simp_all add: op_block_of_def block_for_op_def ecode_ssa_def looping_ecode_def contains_index_def start_of_def end_of_def id_index_def node_id_def
      try_from_index_eq lookup_at_def)

lemma looping_definitions: "value_definition (ecode_ssa looping_ecode) 1 = Some (BlockArgDef 1)"
    "value_definition (ecode_ssa looping_ecode) 2 = Some (OpDef 1)"
  by (simp_all add: ecode_ssa_def looping_ecode_def lookup_at_def id_index_def)

lemma looping_op_uses: "i < 2 \<Longrightarrow> op_uses_ok (ecode_ssa looping_ecode) 1 i"
proof -
  assume i: "i < 2"
  have "operands_of looping_ecode (ec_operations looping_ecode ! 0) = []" "operands_of looping_ecode (ec_operations looping_ecode ! 1) = [1]"
    by (simp_all add: operands_of_def looping_ecode_def ecode_op_new_def range_empty_def start_of_def end_of_def sub_slice_def)
  then have "op_operands (ecode_ssa looping_ecode) (node_id 0) = Inr (Some [])" "op_operands (ecode_ssa looping_ecode) (node_id 1) = Inr (Some [1])"
    by (simp_all add: ecode_ssa_operands [OF looping_tables] looping_sel index_node_id)
  moreover have "i = 0 \<or> i = 1" using i by auto
  ultimately show ?thesis
    using looping_block looping_definitions dominates_refl [OF reaches_entry, of "ssa_edge (ecode_ssa looping_ecode)" 1]
    by (auto simp: op_uses_ok_def defined_at_op_def defined_at_end_def)
qed

lemma looping_edges: "block_edges_ok (ecode_ssa looping_ecode) (same_domain looping_ecode) 1 0"
proof -
  have "edge_arg_ok (ecode_ssa looping_ecode) (same_domain looping_ecode) 1 1 2 0"
  proof -
    have "defined_at_end (ecode_ssa looping_ecode) 1 2 1"
      using looping_block(1) looping_definitions(2) dominates_refl [OF reaches_entry, of "ssa_edge (ecode_ssa looping_ecode)" 1]
      by (auto simp: defined_at_end_def id_index_def)
    moreover have "block_arg_value (ecode_ssa looping_ecode) (node_id 0) = Some 1" "same_domain looping_ecode 2 1 = Inr ()"
      "value_width (ecode_ssa looping_ecode) 2 = block_arg_width (ecode_ssa looping_ecode) (node_id 0)"
      by (simp_all add: ecode_ssa_def looping_ecode_def lookup_at_def id_index_def node_id_def same_domain_def value_domain_def ec_value_width_def)
    ultimately show ?thesis by (auto simp: edge_arg_ok_def)
  qed
  moreover have "args_of_block (ecode_ssa looping_ecode) 0 = [0]"
    by (simp add: args_of_block_def ecode_ssa_def looping_ecode_def node_id_def id_index_def lookup_at_def)
  ultimately show ?thesis
    by (simp add: block_edges_ok_def edge_ok_def ecode_ssa_def looping_ecode_def successors_of_def sub_slice_def start_of_def end_of_def lookup_at_def
        node_id_def id_index_def)
qed

lemma looping_verify: "ecode_verify looping_ecode = Some (Inr ())"
proof -
  have "ecode_sized looping_ecode" "g_blocks (ec_graph looping_ecode) \<noteq> []"
    by (simp_all add: ecode_sized_def looping_sel) (simp_all add: looping_ecode_def successors_of_def sub_slice_def start_of_def end_of_def)
  from ecode_uses_ok [OF looping_tables this] obtain entry r where entry: "entry_block (ec_graph looping_ecode) = Inr (Some entry)"
    and r: "verify_uses (ecode_ssa looping_ecode) from_ssa_error (same_domain looping_ecode) = Some r"
      "r = Inr () \<longleftrightarrow> ssa_uses_ok (ecode_ssa looping_ecode) (same_domain looping_ecode) entry" by blast
  have "entry = 1" using entry
    by (simp add: entry_block_def looping_ecode_def is_entry_def contains_flags_def ENTRY_def or_panic_def try_from_index_eq)
  moreover have counts: "block_arg_count (ecode_ssa looping_ecode) = 1" "op_count (ecode_ssa looping_ecode) = 2"
    "length (g_blocks (ssa_graph (ecode_ssa looping_ecode))) = 1" by (simp_all add: ecode_ssa_def looping_ecode_def)
  ultimately have "ssa_uses_ok (ecode_ssa looping_ecode) (same_domain looping_ecode) entry"
    using looping_op_uses looping_edges looping_block(3) by (simp add: ssa_uses_ok_def node_id_def id_index_def)
  then show ?thesis using r looping_tables by (simp add: ecode_verify_def)
qed

section \<open>Folding it is wrong\<close>

lemma looping_possible: "\<exists>c. possible malachite_ref looping_ecode 2 c \<and> uval c = 255"
proof -
  let ?zero = "mk_bv (meta_of False 8) 0"
  have w: "valid_bits (8 :: u32)" by (simp add: valid_bits_iff)
  have wf: "wf_bv ?zero" "bits ?zero = 8" by (rule mk_bv_typed [OF w])+
  have "arg_of_entry looping_ecode 0"
    by (simp add: arg_of_entry_def entry_block_def looping_ecode_def is_entry_def contains_flags_def ENTRY_def or_panic_def try_from_index_eq)
  then have "possible malachite_ref looping_ecode (id_index (eb_value (ec_block_args looping_ecode ! 0))) ?zero"
    using wf by (intro possible_initial) (simp_all add: looping_sel, simp add: looping_ecode_def)
  then have zero: "possible malachite_ref looping_ecode (id_index 1) ?zero" by (simp add: looping_ecode_def)
  have "yields (evaluate malachite_ref il_scalar_op.Not 8 [?zero]) 8 (unary_spec il_scalar_op.Not 8 ?zero)"
    by (rule evaluate_unary [OF malachite_ref_ok w wf(1)]) (simp add: unary_op_def)
  moreover have "ival ?zero = 0" using w by (simp add: ival_def is_signed_iff unat_meta_of)
  ultimately obtain c where c: "evaluate malachite_ref il_scalar_op.Not 8 [?zero] = Inr (Some c)" "wf_bv c" "bits c = 8" "uval c = 255"
    by (auto simp: yields_def unsigned_at_def)
  have op: "ec_operations looping_ecode ! Suc 0 = ecode_op_new ENot \<lparr>r_start = 2, r_end = 3\<rparr> \<lparr>r_start = 0, r_end = 1\<rparr> 8"
    and operands: "operands_of looping_ecode (ecode_op_new ENot \<lparr>r_start = 2, r_end = 3\<rparr> \<lparr>r_start = 0, r_end = 1\<rparr> 8) = [1]"
    by (simp_all add: operands_of_def looping_ecode_def ecode_op_new_def start_of_def end_of_def sub_slice_def)
  have "possible malachite_ref looping_ecode 2 c"
    by (rule possible_scalar [of "Suc 0" _ _ "[?zero]" _ "Some c"])
      (use zero c in \<open>simp_all add: looping_sel operands [unfolded ecode_op_new_def] op ecode_op_new_def scalar_op_of_def contains_index_def start_of_def end_of_def
        ecode_evaluate_def\<close>)
  then show ?thesis using c(4) by blast
qed

text \<open>
  C38. Constant folding is wrong at an entry block that is a loop header: it takes the edges into the block for all
  the inputs of an argument, although the argument has another value when the function is entered. The verifier
  accepts the container whose entry has the argument a, computes the complement of a and passes the constant 5
  along its edge to itself. Folding replaces the complement by the constant 250; if a is 0 at the entry it is 255.
\<close>

theorem constant_folding_entry_wrong:
  "ecode_verify looping_ecode = Some (Inr ()) \<and>
   (\<exists>ir' a c. constant_folding malachite_ref looping_ecode = Some (Inr ir') \<and>
     ecode_constant malachite_ref (ec_operations ir' ! 1) (ec_constant_storage ir') = Inr (Some a) \<and> uval a = 250 \<and>
     possible malachite_ref looping_ecode (start_of (op_results (ec_operations looping_ecode ! 1))) c \<and> uval c = 255)"
proof -
  obtain b where b: "evaluate malachite_ref il_scalar_op.Not 8 [five] = Inr (Some b)" "wf_bv b" "bits b = 8" "uval b = 250"
    using not_five by blast
  obtain imm where imm: "fold_rewrite malachite_ref looping_ecode [Some five, Some five, Some b] =
      Inr (looping_ecode\<lparr>ec_operations := [ec_operations looping_ecode ! 0, op_replace_with_constant (ec_operations looping_ecode ! 1) imm]\<rparr>)"
      (is "_ = Inr ?ir'") "unat imm = 250" using looping_rewrite [OF b(2-4)] by blast
  have "replicate 3 (None :: bitvec option) = [None, None, None]" by (simp add: numeral_3_eq_3)
  then have run: "constant_folding malachite_ref looping_ecode = Some (Inr ?ir')"
    using looping_uses looping_inputs looping_dependents looping_constants looping_run [OF refl refl refl b(1)] imm(1)
    by (simp add: constant_folding_def looping_sel)
  have "ecode_constant malachite_ref (ec_operations ?ir' ! 1) (ec_constant_storage ?ir') = Inr (Some (mk_bv (meta_of False 8) 250))"
    using imm(2) by (simp add: ecode_constant_def op_replace_with_constant_def from_u64_eq [OF malachite_ref_ok] valid_bits_iff)
      (simp add: looping_ecode_def ecode_op_new_def from_u64_eq [OF malachite_ref_ok] valid_bits_iff)
  moreover have "uval (mk_bv (meta_of False 8) 250) = 250" by (simp add: valid_bits_iff)
  moreover have "start_of (op_results (ec_operations looping_ecode ! 1)) = 2" by (simp add: looping_ecode_def ecode_op_new_def start_of_def)
  with looping_possible have "\<exists>c. possible malachite_ref looping_ecode (start_of (op_results (ec_operations looping_ecode ! 1))) c \<and> uval c = 255"
    by (simp only:)
  ultimately show ?thesis using looping_verify run by blast
qed

end
