(* ===== verification/Spec2Isabelle.thy ===== *)
theory Spec2Isabelle
  imports ScalarEval StridedInterval Frontier WorkQueue DisjointSet ECodeEmit ECodeEntry
begin

text \<open>
  A verification development for the Fugue binary analysis framework: the arithmetic its
  intermediate languages are evaluated with, the structures they are stored in, the analyses on
  their control flow, the language ecode with its verifier, builder and constant folding, and the
  address sets and work queue that drive the analysis engine.

  \<^bold>\<open>The program.\<close> Fugue lifts machine code to a family of intermediate languages (pcode,
  ecode, mcode). A function in one of them is a set of pools of operations and values, indexed by
  ranges, with a control flow graph over them (\<open>fugue-core/src/il/common\<close>). Constants are bit
  vectors of any width (\<open>fugue-bv\<close>); the constant folders of the languages evaluate operations on
  them. The construction of SSA form asks the dominance analysis where block arguments belong, and
  the verifiers ask it whether definitions dominate their uses. Ecode functions are made by a builder
  (\<open>fugue-core/src/il/ecode/ir\<close>) that verifies what it has built. The
  value analyses that recover jump tables run on strided intervals over the same bit vectors
  (\<open>fugue-core/src/analysis/value\<close>). Analyses are scheduled by address: changes to a project give
  sets of address ranges (\<open>fugue-core/src/ir/address.rs\<close>), and the engine keeps the regions that
  each analyser still has to look at in a queue (\<open>fugue-core/src/engine/scheduler/work.rs\<close>).

  \<^bold>\<open>Theories.\<close>
  \<^item> \<open>Prelude\<close>: words, the outcome of code that may panic, checked arithmetic, byte digits.
  \<^item> \<open>BitVector\<close>, \<open>BitVecArith\<close>, \<open>BitVecCast\<close>: \<open>fugue-bv/src/lib.rs\<close>, the type \<open>BitVec\<close> with its
    small and large representation (\<open>bitvec\<close>, invariant \<open>wf_bv\<close>). Every operation has one equation
    over integers (\<open>mk_int\<close>), from which the laws follow: arithmetic modulo the width, truncating
    division, shifts, flags, casts, byte and encoded forms and their round trips.
  \<^item> \<open>ScalarEval\<close>: \<open>il/common/evaluate.rs\<close>. \<open>IlScalarOp::evaluate\<close> is the function \<open>evaluate\<close>; its
    reference meaning is \<open>scalar_spec\<close>, on integers.
  \<^item> \<open>StridedInterval\<close>: \<open>analysis/value/strided.rs\<close>. Each operation refines one on triples of
    naturals, and soundness (\<open>si_gamma\<close> of the result contains the pointwise results) is proved
    there. The limits under which join and addition are sound are part of the statements.
  \<^item> \<open>IlPool\<close>: \<open>il/common/id.rs\<close>, \<open>pool.rs\<close>, \<open>span.rs\<close>: identifiers, index ranges, mappers, pools,
    compressed rows, source and parent spans.
  \<^item> \<open>IlGraph\<close>: \<open>il/common/graph.rs\<close> and \<open>verify_structure\<close>: blocks, the graph, its verifier, the
    builder and the predecessor index. What the builder builds passes the verifier.
  \<^item> \<open>FlowGraph\<close>: walks and dominance in the abstract. The locale \<open>numbered_graph\<close> is what a
    depth-first numbering promises; under it the iteration over intersected dominator chains reaches
    the immediate dominators.
  \<^item> \<open>Dominance\<close>, \<open>DomTree\<close>, \<open>Frontier\<close>: \<open>il/common/dominance.rs\<close>. The solver's numbering is shown
    to be such a numbering, its loops end, and the stored tree, intervals, frontiers and phi placement
    are the ones of the flow graph.
  \<^item> \<open>DisjointSet\<close>: \<open>il/common/disjoint_set.rs\<close>. Union by least root with path halving implements
    the equivalence relation the unions generate.
  \<^item> \<open>Ssa\<close>: \<open>il/common/ssa.rs\<close> and the \<open>SsaVerifier\<close> of \<open>il/common/verify.rs\<close>. The trait \<open>SsaIl\<close> is a
    record of its methods. The verifier accepts exactly when definitions dominate their uses, so that
    on no walk an undefined value is read.
  \<^item> \<open>ECodeOps\<close>, \<open>ECode\<close>: \<open>il/ecode/opcode.rs\<close>, \<open>operation.rs\<close>, \<open>value.rs\<close>, \<open>domain.rs\<close>, \<open>ir/mod.rs\<close>,
    \<open>ir/verify.rs\<close>: the operations of ecode, the container \<open>ECodeIr\<close> with its queries, and its verifier,
    which runs the graph and SSA verifiers of the theories above. The verifier returns on every
    container, and what it accepts is well-typed (\<open>ecode_typed\<close>) and safe (\<open>ecode_safe\<close>).
  \<^item> \<open>ECodeBuild\<close>: \<open>il/ecode/ir/builder.rs\<close>, the rewriter of \<open>ir/mod.rs\<close> and \<open>il/common/constants.rs\<close>:
    interned constants read back, and what the emitter lays out passes the verifier's checks on it.
  \<^item> \<open>ECodeEmit\<close>: sequences of calls of the builder and its emitter (\<open>emits\<close>). What building returns
    answers its queries with what the calls passed (\<open>calls_found\<close>).
  \<^item> \<open>ECodeUses\<close>: \<open>il/ecode/analysis/def_use.rs\<close> and \<open>il/ecode/optimise/required.rs\<close>: the uses of
    values, the inputs of block arguments, and the analysis of required definitions, whose work list
    ends with exactly the definitions that side effects and domains need (\<open>needed\<close>).
  \<^item> \<open>ECodeFold\<close>: \<open>il/ecode/optimise/fold.rs\<close>. The values an operation may have are the inductive
    predicate \<open>possible\<close>, in which unknown operations and the arguments of the entry yield any value of their
    width. Constant folding ends, a folded operation reads the only value it can have, and no operation
    with constant operands that evaluates is left. Both hold for containers that meet \<open>fold_ready\<close>.
  \<^item> \<open>ECodeEntry\<close>: the condition of \<open>fold_ready\<close> on the entry block is needed. In a verified container whose
    entry block is its own successor, folding takes the value passed along the edge for the only value of
    the argument and replaces an operation by a constant it need not have.
  \<^item> \<open>OrderedMap\<close>: \<open>BTreeMap\<close> as a sorted entry list, with the locale \<open>ordered_map\<close>.
  \<^item> \<open>Addresses\<close>: \<open>ir/address.rs\<close> and the keys of \<open>storage/segments/space.rs\<close>: addresses, ranges, the
    difference iterator, sets of ranges. The sets implement set algebra on addresses.
  \<^item> \<open>WorkQueue\<close>: \<open>engine/scheduler/work.rs\<close> with the causes, phases and scopes it uses. The two
    indexes of the queue stay consistent, no operation loses work, cancelling removes only what it
    should, and the queue drains (the locale \<open>work_source\<close>, for items and for batches).

  \<^bold>\<open>How code is modelled.\<close> A struct is a record, an enum a datatype, a fixed-width integer a word. A
  function that takes \<open>&mut self\<close> returns the updated record. Code that can panic returns
  \<open>panic + 'a\<close>; \<open>Option\<close> and \<open>Result\<close> are \<open>option\<close> and sums inside that, so every panic, error value
  and early return is a value of the model. Overflow of the plain operators panics, as in builds with
  overflow checks; \<open>debug_assert!\<close> panics too. The exceptions are in \<open>BitVec\<close>: the debug assertions in
  \<open>small\<close>, \<open>large\<close>, \<open>set_small\<close>, \<open>from_small\<close> and \<open>from_large\<close>, that the live field is the one for the
  width, and the subtraction in \<open>msb\<close>, which overflows only at width zero, are left out; \<open>wf_bv\<close> excludes
  both cases. The priority of a work item is an integer, since it is only compared. A loop that ends by its own bound is recursion on
  that bound; a loop whose end needs an argument is a \<open>partial_function\<close> for which \<open>None\<close> is not
  returning, and the theorems state that it returns. No fuel is used; the two walks of \<open>ir/mod.rs\<close>
  through copies count their rounds, as the code does. Theorems about dominators, the SSA verifier and
  ecode hold for graphs whose block numbers and edge count fit the 32-bit indices the code stores
  (\<open>2 * length blocks < 2 ^ 32\<close> and fewer than two to the thirty-two successors in all); those about
  frontiers and phi placement for fewer than two to the sixteen blocks, since a frontier table may have
  as many entries as pairs of blocks. Those about the passes over ecode add that the arguments of all
  edges and the operands of all operations are fewer than two to the thirty-two (\<open>edges_sized\<close>,
  \<open>fold_ready\<close>); constant folding further needs operands as wide as the operation where evaluation would
  widen them by a sign flag, and an entry block without incoming arguments. The number of work items per analyser stays within its bound
  while work is in at most 2047 address spaces. A \<open>FixedBitSet\<close> is the list of its bits, a hash map a
  map.

  \<^bold>\<open>Parameters.\<close> Two third-party crates appear as arguments with a contract: the big numbers of
  \<open>malachite\<close> (record \<open>malachite\<close>, contract \<open>malachite_ok\<close>) and the range sets of \<open>rangemap\<close> (record
  \<open>rangemap\<close>, locale \<open>range_set\<close>). Each contract has an instance on concrete functions
  (\<open>malachite_ref\<close>, \<open>list_rangemap\<close>), which the witnesses evaluate.

  \<^bold>\<open>Not modelled.\<close> Text forms, hashing, serialised archives, capacity hints and memory estimates:
  they only format or store. Pcode and mcode, the lifters, the construction of SSA form, the
  compaction of ecode and its interval and liveness analyses: they are clients of the modelled
  containers, analyses and verifiers. The program
  tables, the analyses over the project database, threads and channels of the engine, storage, loaders
  and the SLEIGH compiler rest on third-party parsers, an embedded database and operating system
  services. The crate \<open>fugue-state\<close> is not a member of the workspace. Bindings, user interface and
  derive macros have no logic of their own.
\<close>

end
